(* ===== verification/Prelude.thy ===== *)
theory Prelude
  imports Complex_Main "HOL-Library.Word" "HOL-Library.Signed_Division" "HOL-Library.Char_ord"
    "HOL-Library.List_Lexorder"
begin

text \<open>
  The vocabulary every component shares: Rust's fixed-width integer arithmetic written on
  \<open>int\<close> and \<open>nat\<close>, the string operations of the standard library that the sources call,
  JSON values, and the generic lemmas on lists and maps the component proofs use.

  Strings. A Rust \<open>&str\<close> is a sequence of Unicode scalar values; here it is a
  \<open>string\<close>, each \<open>char\<close> standing for the scalar value with the same number
  (U+0000 to U+00FF). The whitespace test below is Unicode's White\_Space property on
  that range, which is what \<open>char::is_whitespace\<close>, \<open>trim\<close> and
  \<open>split_whitespace\<close> use.

  Integers. An \<open>i64\<close>, \<open>u64\<close> or \<open>u32\<close> value is an \<open>int\<close> or
  \<open>nat\<close>; \<open>wrap_i64\<close>, \<open>wrap_u64\<close> and \<open>wrap_u32\<close> write out what
  unchecked arithmetic does in a release build (the crate's release profile does not
  enable overflow checks), \<open>sat_i64\<close> and \<open>sat_u64\<close> what the \<open>saturating_*\<close>
  methods do.
\<close>

unbundle bit_operations_syntax

named_theorems bounds_simps \<open>facts that remove a wrap or a saturation that is in range\<close>

section \<open>Fixed-width integers\<close>

definition i64_max :: int where
  "i64_max = 9223372036854775807"

definition i64_min :: int where
  "i64_min = - 9223372036854775808"

definition u64_max :: nat where
  "u64_max = 18446744073709551615"

definition u32_max :: nat where
  "u32_max = 4294967295"

definition in_i64 :: "int \<Rightarrow> bool" where
  "in_i64 x \<longleftrightarrow> i64_min \<le> x \<and> x \<le> i64_max"

definition wrap_i64 :: "int \<Rightarrow> int" where
  "wrap_i64 x = (x + 9223372036854775808) mod 18446744073709551616 - 9223372036854775808"

definition sat_i64 :: "int \<Rightarrow> int" where
  "sat_i64 x = (if x < i64_min then i64_min else if i64_max < x then i64_max else x)"

definition wrap_u64 :: "nat \<Rightarrow> nat" where
  "wrap_u64 x = x mod 18446744073709551616"

definition sat_u64 :: "nat \<Rightarrow> nat" where
  "sat_u64 x = (if u64_max < x then u64_max else x)"

definition wrap_u32 :: "nat \<Rightarrow> nat" where
  "wrap_u32 x = x mod 4294967296"

lemmas i64_bound_defs = i64_max_def i64_min_def in_i64_def

lemma wrap_i64_id [bounds_simps]: "in_i64 x \<Longrightarrow> wrap_i64 x = x"
  by (simp add: wrap_i64_def i64_bound_defs)

lemma in_i64_wrap [simp]: "in_i64 (wrap_i64 x)"
proof -
  have "0 \<le> (x + 9223372036854775808) mod 18446744073709551616"
    and "(x + 9223372036854775808) mod 18446744073709551616 < 18446744073709551616"
    by simp_all
  then show ?thesis by (simp add: wrap_i64_def i64_bound_defs)
qed

lemma in_i64_sat [simp]: "in_i64 (sat_i64 x)"
  by (simp add: sat_i64_def i64_bound_defs)

lemma sat_i64_id [bounds_simps]: "in_i64 x \<Longrightarrow> sat_i64 x = x"
  by (simp add: sat_i64_def in_i64_def)

lemma sat_i64_mono: "x \<le> y \<Longrightarrow> sat_i64 x \<le> sat_i64 y"
  by (simp add: sat_i64_def i64_bound_defs)

lemma wrap_u64_id [bounds_simps]: "x \<le> u64_max \<Longrightarrow> wrap_u64 x = x"
  by (simp add: wrap_u64_def u64_max_def)

lemma wrap_u32_id [bounds_simps]: "x \<le> u32_max \<Longrightarrow> wrap_u32 x = x"
  by (simp add: wrap_u32_def u32_max_def)

lemma sat_u64_le [simp]: "sat_u64 x \<le> u64_max"
  by (simp add: sat_u64_def)

lemma sat_u64_mono: "x \<le> y \<Longrightarrow> sat_u64 x \<le> sat_u64 y"
  by (simp add: sat_u64_def)

text \<open>Rust's \<open>/\<close> and \<open>%\<close> on signed integers truncate towards zero: the
  library's \<open>sdiv\<close> and \<open>smod\<close>.\<close>

lemma sdiv_nonneg: "0 \<le> (a::int) \<Longrightarrow> 0 < b \<Longrightarrow> a sdiv b = a div b"
  by (cases "a = 0") (simp_all add: signed_divide_int_def)

lemma sdiv_neg: "(a::int) < 0 \<Longrightarrow> 0 < b \<Longrightarrow> a sdiv b = - ((- a) div b)"
  by (simp add: signed_divide_int_def)

text \<open>The adjustment Rust code makes to get a floor division out of a truncating one.\<close>

lemma floor_adjust:
  assumes "0 < b" "c = b - 1"
  shows "(if 0 \<le> a then a else a - c) sdiv b = a div (b::int)"
proof (cases "0 \<le> a")
  case True
  with assms show ?thesis by (simp add: sdiv_nonneg)
next
  case False
  then have neg: "a - (b - 1) < 0" using assms(1) by simp
  define q r where "q = a div b" and "r = a mod b"
  have a: "a = b * q + r" by (simp add: q_def r_def)
  have r: "0 \<le> r" "r < b" using assms by (simp_all add: r_def)
  have "- (a - (b - 1)) = b * (- q) + (b - 1 - r)" using a by (simp add: algebra_simps)
  then have "(- (a - (b - 1))) div b = - q"
    by (rule int_div_pos_eq) (use r in simp_all)
  with neg assms False show ?thesis unfolding assms(2) by (simp add: sdiv_neg q_def)
qed

lemma div_succ_int:
  assumes "0 < (b::int)"
  shows "(a + 1) div b = (if b dvd a + 1 then a div b + 1 else a div b)"
proof -
  define q r where "q = (a + 1) div b" and "r = (a + 1) mod b"
  have a: "a + 1 = b * q + r" by (simp add: q_def r_def)
  have r: "0 \<le> r" "r < b" using assms by (simp_all add: r_def)
  have dvd: "b dvd a + 1 \<longleftrightarrow> r = 0" by (simp add: r_def dvd_eq_mod_eq_0)
  have "a div b = (if r = 0 then q - 1 else q)"
  proof (cases "r = 0")
    case True
    with a have "a = b * (q - 1) + (b - 1)" by (simp add: algebra_simps)
    then show ?thesis using assms True by (simp add: int_div_pos_eq)
  next
    case False
    with a r have "a = b * q + (r - 1)" "0 \<le> r - 1" "r - 1 < b" by simp_all
    with False show ?thesis by (simp add: int_div_pos_eq)
  qed
  with dvd show ?thesis by (simp add: q_def [symmetric])
qed

section \<open>Strings\<close>

definition scalar :: "char \<Rightarrow> nat" where
  "scalar c = of_char c"

definition is_whitespace :: "char \<Rightarrow> bool" where
  "is_whitespace c \<longleftrightarrow> (let n = scalar c in (9 \<le> n \<and> n \<le> 13) \<or> n = 32 \<or> n = 133 \<or> n = 160)"

definition is_ascii_digit :: "char \<Rightarrow> bool" where
  "is_ascii_digit c \<longleftrightarrow> 48 \<le> scalar c \<and> scalar c \<le> 57"

definition is_ascii_lower :: "char \<Rightarrow> bool" where
  "is_ascii_lower c \<longleftrightarrow> 97 \<le> scalar c \<and> scalar c \<le> 122"

definition is_ascii_upper :: "char \<Rightarrow> bool" where
  "is_ascii_upper c \<longleftrightarrow> 65 \<le> scalar c \<and> scalar c \<le> 90"

definition is_ascii_alphanumeric :: "char \<Rightarrow> bool" where
  "is_ascii_alphanumeric c \<longleftrightarrow> is_ascii_digit c \<or> is_ascii_lower c \<or> is_ascii_upper c"

definition to_ascii_lowercase :: "string \<Rightarrow> string" where
  "to_ascii_lowercase = map (\<lambda>c. if is_ascii_upper c then char_of (scalar c + 32) else c)"

definition digit_value :: "char \<Rightarrow> nat" where
  "digit_value c = scalar c - 48"

definition digit_char :: "nat \<Rightarrow> char" where
  "digit_char n = char_of (48 + n)"

text \<open>\<open>str::as_bytes\<close>: the UTF-8 encoding, two bytes for a scalar value from U+0080 on.\<close>

definition utf8_char :: "char \<Rightarrow> nat list" where
  "utf8_char c = (let n = scalar c in if n < 128 then [n] else [192 + n div 64, 128 + n mod 64])"

definition as_bytes :: "string \<Rightarrow> nat list" where
  "as_bytes s = concat (map utf8_char s)"

definition str_len :: "string \<Rightarrow> nat" where
  "str_len s = length (as_bytes s)"

definition trim_start :: "string \<Rightarrow> string" where
  "trim_start s = dropWhile is_whitespace s"

definition trim_end :: "string \<Rightarrow> string" where
  "trim_end s = rev (dropWhile is_whitespace (rev s))"

definition trim :: "string \<Rightarrow> string" where
  "trim s = trim_end (trim_start s)"

fun split_by :: "(char \<Rightarrow> bool) \<Rightarrow> string \<Rightarrow> string list" where
  "split_by P [] = [[]]"
| "split_by P (x # xs) =
     (if P x then [] # split_by P xs
      else case split_by P xs of [] \<Rightarrow> [[x]] | w # ws \<Rightarrow> (x # w) # ws)"

definition split_char :: "char \<Rightarrow> string \<Rightarrow> string list" where
  "split_char c s = split_by (\<lambda>x. x = c) s"

definition split_whitespace :: "string \<Rightarrow> string list" where
  "split_whitespace s = [w \<leftarrow> split_by is_whitespace s. w \<noteq> []]"

fun split_once :: "char \<Rightarrow> string \<Rightarrow> (string \<times> string) option" where
  "split_once c [] = None"
| "split_once c (x # xs) =
     (if x = c then Some ([], xs)
      else case split_once c xs of None \<Rightarrow> None | Some (a, b) \<Rightarrow> Some (x # a, b))"

fun starts_with :: "string \<Rightarrow> string \<Rightarrow> bool" where
  "starts_with s [] = True"
| "starts_with [] (p # ps) = False"
| "starts_with (x # xs) (p # ps) = (x = p \<and> starts_with xs ps)"

fun join :: "string \<Rightarrow> string list \<Rightarrow> string" where
  "join sep [] = []"
| "join sep [w] = w"
| "join sep (w # ws) = w @ sep @ join sep ws"

lemma starts_with_iff: "starts_with s p \<longleftrightarrow> (\<exists>r. s = p @ r)"
  by (induction s p rule: starts_with.induct) auto

lemma split_by_not_Nil [simp]: "split_by P s \<noteq> []"
  by (cases s) (auto split: list.splits)

lemma split_once_Some: "split_once c s = Some (a, b) \<Longrightarrow> s = a @ c # b \<and> c \<notin> set a"
  by (induction s arbitrary: a) (auto split: if_splits option.splits)

lemma split_once_None: "split_once c s = None \<longleftrightarrow> c \<notin> set s"
  by (induction s) (auto split: option.splits)

text \<open>Decimal numbers: \<open>Display\<close> of an integer, and \<open>str::parse\<close> into \<open>u32\<close> and \<open>i64\<close>
  (an optional sign, at least one ASCII digit, nothing else, and a value of the type).\<close>

fun show_nat :: "nat \<Rightarrow> string" where
  "show_nat n = (if n < 10 then [digit_char n] else show_nat (n div 10) @ [digit_char (n mod 10)])"

declare show_nat.simps [simp del]

definition show_int :: "int \<Rightarrow> string" where
  "show_int i = (if i < 0 then ''-'' @ show_nat (nat (- i)) else show_nat (nat i))"

definition digits_value :: "string \<Rightarrow> nat" where
  "digits_value s = foldl (\<lambda>a c. 10 * a + digit_value c) 0 s"

definition parse_digits :: "string \<Rightarrow> nat option" where
  "parse_digits s = (if s \<noteq> [] \<and> list_all is_ascii_digit s then Some (digits_value s) else None)"

definition parse_u32 :: "string \<Rightarrow> nat option" where
  "parse_u32 s =
     (case parse_digits (case s of c # cs \<Rightarrow> if c = CHR ''+'' then cs else s | [] \<Rightarrow> []) of
        Some n \<Rightarrow> if n \<le> u32_max then Some n else None
      | None \<Rightarrow> None)"

definition parse_i64 :: "string \<Rightarrow> int option" where
  "parse_i64 s =
     (let (neg, ds) = (case s of c # cs \<Rightarrow>
          if c = CHR ''+'' then (False, cs) else if c = CHR ''-'' then (True, cs) else (False, s) | [] \<Rightarrow> (False, []))
      in case parse_digits ds of
           Some n \<Rightarrow> (let v = (if neg then - int n else int n) in if in_i64 v then Some v else None)
         | None \<Rightarrow> None)"

text \<open>\<open>format!("{:0w}")\<close>: zero padding to a width that counts the sign.\<close>

definition fmt_zero :: "nat \<Rightarrow> int \<Rightarrow> string" where
  "fmt_zero w i =
     (let ds = show_nat (nat \<bar>i\<bar>) in
      if i < 0 then ''-'' @ replicate (w - 1 - length ds) CHR ''0'' @ ds
      else replicate (w - length ds) CHR ''0'' @ ds)"

lemma scalar_char_of: "n < 256 \<Longrightarrow> scalar (char_of n) = n"
  by (simp add: scalar_def)

lemma digit_char_props [simp]:
  assumes "n < 10"
  shows "is_ascii_digit (digit_char n)" "digit_value (digit_char n) = n"
  using assms by (simp_all add: is_ascii_digit_def digit_char_def digit_value_def scalar_char_of)

lemma show_nat_digits: "list_all is_ascii_digit (show_nat n)" "show_nat n \<noteq> []"
proof (induction n rule: show_nat.induct)
  case (1 n)
  { case 1 show ?case using "1.IH" by (subst show_nat.simps) simp }
  { case 2 show ?case by (subst show_nat.simps) simp }
qed

lemma digits_value_show_nat [simp]: "digits_value (show_nat n) = n"
proof (induction n rule: show_nat.induct)
  case (1 n)
  show ?case
  proof (cases "n < 10")
    case True
    then show ?thesis by (subst show_nat.simps) (simp add: digits_value_def)
  next
    case False
    have "digits_value (show_nat n) = 10 * digits_value (show_nat (n div 10)) + n mod 10"
      using False by (subst show_nat.simps) (simp add: digits_value_def)
    with 1 [OF False] show ?thesis by simp
  qed
qed

lemma parse_digits_show_nat [simp]: "parse_digits (show_nat n) = Some n"
  by (simp add: parse_digits_def show_nat_digits)

lemma show_nat_no_sign: "show_nat n = c # cs \<Longrightarrow> c \<noteq> CHR ''+'' \<and> c \<noteq> CHR ''-''"
  using show_nat_digits(1) [of n] by (auto simp: is_ascii_digit_def scalar_def)

lemma parse_u32_show_nat: "n \<le> u32_max \<Longrightarrow> parse_u32 (show_nat n) = Some n"
  using show_nat_no_sign [of n] parse_digits_show_nat [of n]
  by (cases "show_nat n") (auto simp: parse_u32_def)

lemma parse_i64_show_int: "in_i64 i \<Longrightarrow> parse_i64 (show_int i) = Some i"
  using show_nat_no_sign [of "nat i"] parse_digits_show_nat [of "nat i"]
  by (cases "show_nat (nat i)") (auto simp: parse_i64_def show_int_def)

lemma digit_char_0: "CHR ''0'' = digit_char 0"
  by code_simp

lemma show_nat_1: "n < 10 \<Longrightarrow> show_nat n = [digit_char n]"
  by (simp add: show_nat.simps [of n])

lemma show_nat_snoc: "10 \<le> n \<Longrightarrow> show_nat n = show_nat (n div 10) @ [digit_char (n mod 10)]"
  by (simp add: show_nat.simps [of n])

lemma show_nat_2: "10 \<le> n \<Longrightarrow> n < 100 \<Longrightarrow> show_nat n = [digit_char (n div 10), digit_char (n mod 10)]"
  by (subst show_nat_snoc) (simp_all add: show_nat_1 less_mult_imp_div_less)

lemma show_nat_3:
  "100 \<le> n \<Longrightarrow> n < 1000 \<Longrightarrow>
     show_nat n = [digit_char (n div 100), digit_char (n div 10 mod 10), digit_char (n mod 10)]"
  by (subst show_nat_snoc) (simp_all add: show_nat_2 less_mult_imp_div_less div_mult2_eq [symmetric] less_eq_div_iff_mult_less_eq)

lemma show_nat_4:
  "1000 \<le> n \<Longrightarrow> n < 10000 \<Longrightarrow>
     show_nat n = [digit_char (n div 1000), digit_char (n div 100 mod 10), digit_char (n div 10 mod 10), digit_char (n mod 10)]"
  by (subst show_nat_snoc) (simp_all add: show_nat_3 less_mult_imp_div_less div_mult2_eq [symmetric] less_eq_div_iff_mult_less_eq)

lemma fmt_zero_2:
  assumes "n < 100"
  shows "fmt_zero 2 (int n) = [digit_char (n div 10), digit_char (n mod 10)]"
proof (cases "n < 10")
  case True
  then show ?thesis by (simp add: fmt_zero_def show_nat_1 digit_char_0)
next
  case False
  with assms show ?thesis by (simp add: fmt_zero_def show_nat_2)
qed

lemma replicate_2: "replicate 2 x = [x, x]"
  by (simp add: numeral_2_eq_2)

lemma fmt_zero_4:
  assumes "n < 10000"
  shows "fmt_zero 4 (int n) =
    [digit_char (n div 1000), digit_char (n div 100 mod 10), digit_char (n div 10 mod 10), digit_char (n mod 10)]"
proof -
  consider "n < 10" | "10 \<le> n" "n < 100" | "100 \<le> n" "n < 1000" | "1000 \<le> n" by linarith
  then show ?thesis
  proof cases
    case 1
    moreover have "replicate 3 x = [x, x, x]" for x :: char by (simp add: numeral_3_eq_3)
    ultimately show ?thesis by (simp add: fmt_zero_def show_nat_1 digit_char_0)
  next
    case 2
    then have "n div 10 < 10" by (simp add: less_mult_imp_div_less)
    with 2 show ?thesis by (simp add: fmt_zero_def show_nat_2 digit_char_0 replicate_2)
  next
    case 3
    then have "n div 100 < 10" by (simp add: less_mult_imp_div_less)
    with 3 show ?thesis by (simp add: fmt_zero_def show_nat_3 digit_char_0)
  next
    case 4
    with assms show ?thesis by (simp add: fmt_zero_def show_nat_4)
  qed
qed

section \<open>JSON values\<close>

text \<open>\<open>serde_json::Value\<close>. An object is its list of entries in key order (the crate does not
  enable \<open>preserve_order\<close>, so a \<open>Map\<close> is a \<open>BTreeMap\<close>); a number is an integer or a
  finite float, the float given by its exact rational value.\<close>

datatype json =
    JNull
  | JBool bool
  | JInt int
  | JFloat rat
  | JStr string
  | JArr "json list"
  | JObj "(string \<times> json) list"

fun json_get :: "string \<Rightarrow> json \<Rightarrow> json option" where
  "json_get k (JObj kvs) = map_of kvs k"
| "json_get k _ = None"

fun as_str :: "json \<Rightarrow> string option" where
  "as_str (JStr s) = Some s"
| "as_str _ = None"

fun as_i64 :: "json \<Rightarrow> int option" where
  "as_i64 (JInt i) = (if in_i64 i then Some i else None)"
| "as_i64 _ = None"

fun as_bool :: "json \<Rightarrow> bool option" where
  "as_bool (JBool b) = Some b"
| "as_bool _ = None"

fun as_object :: "json \<Rightarrow> (string \<times> json) list option" where
  "as_object (JObj kvs) = Some kvs"
| "as_object _ = None"

fun as_array :: "json \<Rightarrow> json list option" where
  "as_array (JArr xs) = Some xs"
| "as_array _ = None"

fun is_null :: "json \<Rightarrow> bool" where
  "is_null JNull = True"
| "is_null _ = False"

end
