(* ===== verification/Calendar.thy ===== *)
theory Calendar
  imports Prelude
begin

text \<open>
  The calendar arithmetic of \<open>src/src/state.rs\<close>: \<open>civil_from_days\<close> and
  \<open>days_from_civil\<close> (days since 1970-01-01 to and from a proleptic Gregorian date),
  the RFC 3339 printer and parser built on them, and the UTC day and month boundaries.
  The crate has no date library, so everything time-based in the host (schedules, quota
  windows, billing months) rests on these functions.

  An \<open>i64\<close>, \<open>u64\<close> or \<open>u32\<close> is an \<open>int\<close> whose additions, subtractions, products and casts wrap, as in a
  release build. The proofs go through the same two algorithms on unbounded integers, \<open>civil_of_day\<close> and \<open>day_of_civil\<close>, which the
  machine versions equal as long as nothing wraps: on the day numbers up to \<open>2^62\<close> and the years up to \<open>10^16\<close> in absolute value.
\<close>

section \<open>The two conversions at their widths\<close>

definition cast_u64 :: "int \<Rightarrow> int" where
  "cast_u64 x = x mod 18446744073709551616"

definition cast_u32 :: "int \<Rightarrow> int" where
  "cast_u32 x = x mod 4294967296"

definition civil_from_days :: "int \<Rightarrow> int \<times> int \<times> int" where
  "civil_from_days z0 =
    (let z = wrap_i64 (z0 + 719468);
         era = (if 0 \<le> z then z else wrap_i64 (z - 146096)) sdiv 146097;
         doe = cast_u64 (wrap_i64 (z - wrap_i64 (era * 146097)));
         yoe = cast_u64 (cast_u64 (doe - doe div 1460 + doe div 36524) - doe div 146096) div 365;
         y = wrap_i64 (wrap_i64 yoe + wrap_i64 (era * 400));
         doy = cast_u64 (doe - cast_u64 (cast_u64 (365 * yoe + yoe div 4) - yoe div 100));
         mp = cast_u64 (5 * doy + 2) div 153;
         d = cast_u32 (cast_u64 (cast_u64 (doy - cast_u64 (153 * mp + 2) div 5) + 1));
         m = cast_u32 (if mp < 10 then cast_u64 (mp + 3) else cast_u64 (mp - 9));
         y = (if m \<le> 2 then wrap_i64 (y + 1) else y)
     in (y, m, d))"

definition days_from_civil :: "int \<Rightarrow> int \<Rightarrow> int \<Rightarrow> int" where
  "days_from_civil y0 m d =
    (let y = (if m \<le> 2 then wrap_i64 (y0 - 1) else y0);
         era = (if 0 \<le> y then y else wrap_i64 (y - 399)) sdiv 400;
         yoe = cast_u64 (wrap_i64 (y - wrap_i64 (era * 400)));
         doy = cast_u64 (cast_u64 (cast_u64 (153 * (if 2 < m then m - 3 else cast_u32 (m + 9)) + 2) div 5 + d) - 1);
         doe = cast_u64 (cast_u64 (cast_u64 (cast_u64 (yoe * 365) + yoe div 4) - yoe div 100) + doy)
     in wrap_i64 (wrap_i64 (wrap_i64 (era * 146097) + wrap_i64 doe) - 719468))"

definition utc_midnight_unix :: "int \<Rightarrow> int" where
  "utc_midnight_unix now_unix = wrap_i64 (now_unix div 86400 * 86400)"

definition next_utc_midnight_unix :: "int \<Rightarrow> int" where
  "next_utc_midnight_unix now_unix = wrap_i64 (utc_midnight_unix now_unix + 86400)"

definition utc_month_start_unix :: "int \<Rightarrow> int" where
  "utc_month_start_unix now_unix =
    (let (y, m, d) = civil_from_days (now_unix div 86400) in wrap_i64 (days_from_civil y m 1 * 86400))"

text \<open>The ranges in which nothing wraps.\<close>

definition day_range :: "int \<Rightarrow> bool" where
  "day_range z \<longleftrightarrow> - 4611686018427387904 \<le> z \<and> z \<le> 4611686018427387904"

definition year_range :: "int \<Rightarrow> bool" where
  "year_range y \<longleftrightarrow> - 10000000000000000 \<le> y \<and> y \<le> 10000000000000000"

section \<open>The conversions on unbounded integers\<close>

definition civil_of_day :: "int \<Rightarrow> int \<times> int \<times> int" where
  "civil_of_day z0 =
    (let z = z0 + 719468;
         era = (if 0 \<le> z then z else z - 146096) sdiv 146097;
         doe = z - era * 146097;
         yoe = (doe - doe div 1460 + doe div 36524 - doe div 146096) div 365;
         y = yoe + era * 400;
         doy = doe - (365 * yoe + yoe div 4 - yoe div 100);
         mp = (5 * doy + 2) div 153;
         d = doy - (153 * mp + 2) div 5 + 1;
         m = (if mp < 10 then mp + 3 else mp - 9);
         y = (if m \<le> 2 then y + 1 else y)
     in (y, m, d))"

definition day_of_civil :: "int \<Rightarrow> int \<Rightarrow> int \<Rightarrow> int" where
  "day_of_civil y0 m d =
    (let y = (if m \<le> 2 then y0 - 1 else y0);
         era = (if 0 \<le> y then y else y - 399) sdiv 400;
         yoe = y - era * 400;
         doy = (153 * (if 2 < m then m - 3 else m + 9) + 2) div 5 + d - 1;
         doe = yoe * 365 + yoe div 4 - yoe div 100 + doy
     in era * 146097 + doe - 719468)"

section \<open>March-based years\<close>

text \<open>Both algorithms count years from March 1st. \<open>year_start n\<close> is the day number, on
  their shifted scale, of March 1st of year \<open>n\<close>.\<close>

definition year_start :: "int \<Rightarrow> int" where
  "year_start n = 365 * n + n div 4 - n div 100 + n div 400"

lemma year_start_era:
  assumes "0 \<le> k" "k < 400"
  shows "year_start (400 * e + k) = e * 146097 + (k * 365 + k div 4 - k div 100)"
proof -
  have d4: "(400 * e + k) div 4 = 100 * e + k div 4"
    using div_mult_self4 [of 4 "100 * e" k] by simp
  have d100: "(400 * e + k) div 100 = 4 * e + k div 100"
    using div_mult_self4 [of 100 "4 * e" k] by simp
  have d400: "(400 * e + k) div 400 = e" by (rule int_div_pos_eq [OF _ assms]) simp
  show ?thesis by (simp only: year_start_def d4 d100 d400) simp
qed

lemma year_start_step:
  "year_start (n + 1) = year_start n + (if 4 dvd n + 1 \<and> (\<not> 100 dvd n + 1 \<or> 400 dvd n + 1) then 366 else 365)"
proof -
  have d100: "100 dvd n + 1 \<Longrightarrow> 4 dvd n + 1" and d400: "400 dvd n + 1 \<Longrightarrow> 100 dvd n + 1"
    by (rule dvd_trans [of _ 100], simp_all) (rule dvd_trans [of _ 400], simp_all)
  then show ?thesis
    by (simp add: year_start_def div_succ_int)
qed

lemma year_start_grows: "year_start n + 365 \<le> year_start (n + 1)" "year_start (n + 1) \<le> year_start n + 366"
  by (simp_all add: year_start_step)

text \<open>The quotient \<open>civil_of_day\<close> takes before dividing by 365, and the day of the era on
  which a year of the era starts.\<close>

definition yoe_num :: "int \<Rightarrow> int" where
  "yoe_num doe = doe - doe div 1460 + doe div 36524 - doe div 146096"

definition yoe_start :: "int \<Rightarrow> int" where
  "yoe_start k = k * 365 + k div 4 - k div 100"

lemma yoe_num_mono_step:
  assumes "0 \<le> n" "n < 146096"
  shows "yoe_num n \<le> yoe_num (n + 1)"
proof (cases "n = 146095")
  case True
  then show ?thesis by (simp add: yoe_num_def)
next
  case False
  with assms have "(n + 1) div 146096 = 0" "n div 146096 = 0" by simp_all
  then show ?thesis by (simp add: yoe_num_def div_succ_int)
qed

lemma yoe_num_mono:
  assumes "0 \<le> a" "a \<le> b" "b \<le> 146096"
  shows "yoe_num a \<le> yoe_num b"
  using assms(2,3)
proof (induction b rule: int_ge_induct)
  case base
  then show ?case by simp
next
  case (step i)
  then show ?case using assms(1) yoe_num_mono_step [of i] by simp
qed

lemma year_of_era_digits:
  assumes "0 \<le> k" "k < (400::int)"
  obtains c q r where "k = 100 * c + 4 * q + r" "0 \<le> c" "c \<le> 3" "0 \<le> q" "q \<le> 24" "0 \<le> r" "r \<le> 3"
    "k div 4 = 25 * c + q" "k div 100 = c"
proof -
  define c j where "c = k div 100" and "j = k mod 100"
  have k: "k = 100 * c + j" and j: "0 \<le> j" "j < 100" by (simp_all add: c_def j_def)
  have c: "0 \<le> c" "c \<le> 3" using assms k j by linarith+
  define q r where "q = j div 4" and "r = j mod 4"
  have jq: "j = 4 * q + r" and r: "0 \<le> r" "r \<le> 3" by (simp_all add: q_def r_def)
  have q: "0 \<le> q" "q \<le> 24" using j jq r by linarith+
  have "k div 4 = 25 * c + q"
    by (rule int_div_pos_eq [where r = r]) (use k jq r in simp_all)
  with k jq c q r show thesis by (intro that [of c q r]) (simp_all add: c_def)
qed

lemma yoe_start_bounds:
  assumes "0 \<le> k" "k < 400"
  shows "0 \<le> yoe_start k" "yoe_start k \<le> 146096"
proof -
  obtain c q r where k: "k = 100 * c + 4 * q + r" and b: "0 \<le> c" "c \<le> 3" "0 \<le> q" "q \<le> 24" "0 \<le> r" "r \<le> 3"
    and dv: "k div 4 = 25 * c + q" "k div 100 = c" using assms by (rule year_of_era_digits)
  show "0 \<le> yoe_start k" "yoe_start k \<le> 146096" unfolding yoe_start_def dv using k b by linarith+
qed

lemma yoe_num_first:
  assumes "0 \<le> k" "k < 400"
  shows "yoe_num (yoe_start k) = 365 * k"
proof -
  obtain c q r where k: "k = 100 * c + 4 * q + r" and b: "0 \<le> c" "c \<le> 3" "0 \<le> q" "q \<le> 24" "0 \<le> r" "r \<le> 3"
    and dv: "k div 4 = 25 * c + q" "k div 100 = c" using assms by (rule year_of_era_digits)
  have n: "yoe_start k = 36524 * c + 1461 * q + 365 * r" unfolding yoe_start_def dv using k by linarith
  have "yoe_start k div 1460 = 25 * c + q"
    by (rule int_div_pos_eq [where r = "24 * c + q + 365 * r"]) (use n b in simp_all)
  moreover have "yoe_start k div 36524 = c"
    by (rule int_div_pos_eq [where r = "1461 * q + 365 * r"]) (use n b in simp_all)
  moreover have "yoe_start k div 146096 = 0" using n b by simp
  ultimately show ?thesis unfolding yoe_num_def using n k by linarith
qed

lemma yoe_num_last:
  assumes "0 < k" "k < 400"
  shows "yoe_num (yoe_start k - 1) < 365 * k"
proof -
  obtain c q r where k: "k = 100 * c + 4 * q + r" and b: "0 \<le> c" "c \<le> 3" "0 \<le> q" "q \<le> 24" "0 \<le> r" "r \<le> 3"
    and dv: "k div 4 = 25 * c + q" "k div 100 = c" using year_of_era_digits [of k] assms by auto
  have n: "yoe_start k = 36524 * c + 1461 * q + 365 * r" unfolding yoe_start_def dv using k by linarith
  have pos: "0 < 24 * c + q + 365 * r" using assms(1) b k by linarith
  have d1: "(yoe_start k - 1) div 1460 = 25 * c + q"
    by (rule int_div_pos_eq [where r = "24 * c + q + 365 * r - 1"]) (use n b pos in simp_all)
  have "(yoe_start k - 1) div 36524 \<le> yoe_start k div 36524" by (rule zdiv_mono1) simp_all
  moreover have "yoe_start k div 36524 = c"
    by (rule int_div_pos_eq [where r = "1461 * q + 365 * r"]) (use n b in simp_all)
  moreover have "0 \<le> (yoe_start k - 1) div 146096" using n b pos by (simp add: pos_imp_zdiv_nonneg_iff)
  ultimately show ?thesis unfolding yoe_num_def using d1 n k by linarith
qed

text \<open>So the quotient finds the year of the era, on both sides.\<close>

lemma year_of_era:
  assumes "0 \<le> doe" "doe < 146097"
  defines "k \<equiv> yoe_num doe div 365"
  shows "0 \<le> k" "k < 400" "yoe_start k \<le> doe" "k < 399 \<Longrightarrow> doe < yoe_start (k + 1)"
proof -
  have lo: "yoe_num 0 \<le> yoe_num doe" and hi: "yoe_num doe \<le> yoe_num 146096"
    using assms by (simp_all add: yoe_num_mono)
  then have r: "0 \<le> yoe_num doe" "yoe_num doe \<le> 145999" by (simp_all add: yoe_num_def)
  then show k0: "0 \<le> k" and k1: "k < 400" by (simp_all add: k_def pos_imp_zdiv_nonneg_iff)
  have kb: "365 * k \<le> yoe_num doe" "yoe_num doe < 365 * (k + 1)" unfolding k_def by simp_all
  show "yoe_start k \<le> doe"
  proof (rule ccontr)
    assume c: "\<not> yoe_start k \<le> doe"
    then have "k \<noteq> 0" using assms(1) by (auto simp: yoe_start_def)
    with k0 have "0 < k" by simp
    have "yoe_start k \<le> 146096" using k0 k1 by (rule yoe_start_bounds)
    with c assms(1) have "yoe_num doe \<le> yoe_num (yoe_start k - 1)" by (intro yoe_num_mono) simp_all
    with yoe_num_last [OF \<open>0 < k\<close> k1] kb show False by simp
  qed
  show "doe < yoe_start (k + 1)" if "k < 399"
  proof (rule ccontr)
    assume c: "\<not> doe < yoe_start (k + 1)"
    have "0 \<le> yoe_start (k + 1)" using k0 that by (intro yoe_start_bounds) simp_all
    with c assms(2) have "yoe_num (yoe_start (k + 1)) \<le> yoe_num doe" by (intro yoe_num_mono) simp_all
    with yoe_num_first [of "k + 1"] k0 that kb show False by simp
  qed
qed

section \<open>Round trips\<close>

definition leap :: "int \<Rightarrow> bool" where
  "leap y \<longleftrightarrow> 4 dvd y \<and> (\<not> 100 dvd y \<or> 400 dvd y)"

definition month_days :: "int \<Rightarrow> int \<Rightarrow> int" where
  "month_days y m = (if m = 2 then (if leap y then 29 else 28) else if m \<in> {4, 6, 9, 11} then 30 else 31)"

definition valid_civil :: "int \<Rightarrow> int \<Rightarrow> int \<Rightarrow> bool" where
  "valid_civil y m d \<longleftrightarrow> 1 \<le> m \<and> m \<le> 12 \<and> 1 \<le> d \<and> d \<le> month_days y m"

definition next_month :: "int \<Rightarrow> int \<Rightarrow> int \<times> int" where
  "next_month y m = (if m = 12 then (y + 1, 1) else (y, m + 1))"

lemma era_is_floor: "(if 0 \<le> z then z else z - 146096) sdiv 146097 = z div (146097::int)"
  by (rule floor_adjust) simp_all

lemma era400_is_floor: "(if 0 \<le> y then y else y - 399) sdiv 400 = y div (400::int)"
  by (rule floor_adjust) simp_all

lemma day_of_civil_eq:
  "day_of_civil y m d =
     year_start (if m \<le> 2 then y - 1 else y) + (153 * (if 2 < m then m - 3 else m + 9) + 2) div 5 + d - 719469"
proof -
  define n where "n = (if m \<le> 2 then y - 1 else y)"
  have "year_start n = year_start (400 * (n div 400) + n mod 400)" by simp
  also have "\<dots> = n div 400 * 146097 + ((n mod 400) * 365 + (n mod 400) div 4 - (n mod 400) div 100)"
    by (rule year_start_era) simp_all
  finally have ys: "year_start n = \<dots>" .
  have "day_of_civil y m d =
      n div 400 * 146097 + ((n - n div 400 * 400) * 365 + (n - n div 400 * 400) div 4 - (n - n div 400 * 400) div 100
        + ((153 * (if 2 < m then m - 3 else m + 9) + 2) div 5 + d - 1)) - 719468"
    by (simp only: day_of_civil_def Let_def era400_is_floor n_def)
  then show ?thesis unfolding minus_div_mult_eq_mod n_def [symmetric] ys by linarith
qed

text \<open>Every day lies in one March-based year; \<open>civil_of_day\<close> is a function of that year and
  of the day within it.\<close>

lemma civil_of_day_march:
  obtains n doy where "z + 719468 = year_start n + doy" "0 \<le> doy" "doy < year_start (n + 1) - year_start n"
    "civil_of_day z =
       (let mp = (5 * doy + 2) div 153
        in (if mp < 10 then n else n + 1, if mp < 10 then mp + 3 else mp - 9, doy - (153 * mp + 2) div 5 + 1))"
proof -
  define w e doe where "w = z + 719468" and "e = w div 146097" and "doe = w mod 146097"
  define k where "k = yoe_num doe div 365"
  define n doy where "n = 400 * e + k" and "doy = doe - yoe_start k"
  have doe: "0 \<le> doe" "doe < 146097" by (simp_all add: doe_def)
  note k = year_of_era [OF doe, folded k_def]
  have ys: "year_start n = e * 146097 + yoe_start k"
    using k(1,2) by (simp add: n_def year_start_era yoe_start_def)
  have w: "w = e * 146097 + doe" and w_e: "w - e * 146097 = doe"
    by (simp_all add: e_def doe_def minus_div_mult_eq_mod)
  have "doe < yoe_start k + (year_start (n + 1) - year_start n)"
  proof (cases "k < 399")
    case True
    have "year_start (n + 1) = e * 146097 + yoe_start (k + 1)"
      using k(1) True year_start_era [of "k + 1" e] by (simp add: n_def yoe_start_def add.assoc)
    with k(4) [OF True] ys show ?thesis by simp
  next
    case False
    with k(2) have k399: "k = 399" by simp
    have "year_start (n + 1) = (e + 1) * 146097"
      using year_start_era [of 0 "e + 1"] by (simp add: n_def k399 algebra_simps)
    with ys doe show ?thesis by (simp add: algebra_simps)
  qed
  moreover have "0 \<le> doy" using k(3) by (simp add: doy_def)
  moreover have "z + 719468 = year_start n + doy" using w ys by (simp add: w_def doy_def)
  moreover have "civil_of_day z =
       (let mp = (5 * doy + 2) div 153
        in (if mp < 10 then n else n + 1, if mp < 10 then mp + 3 else mp - 9, doy - (153 * mp + 2) div 5 + 1))"
  proof -
    define mp where "mp = (5 * doy + 2) div 153"
    have "doy \<le> 365" using calculation(1) year_start_grows [of n] ys by (simp add: doy_def)
    then have mp: "0 \<le> mp" "mp \<le> 11" using calculation(2) unfolding mp_def by linarith+
    have "(doe - doe div 1460 + doe div 36524 - doe div 146096) div 365 = k"
      by (simp add: k_def yoe_num_def)
    moreover have "doe - (365 * k + k div 4 - k div 100) = doy" by (simp add: doy_def yoe_start_def)
    ultimately have "civil_of_day z =
       (if (if mp < 10 then mp + 3 else mp - 9) \<le> 2 then k + e * 400 + 1 else k + e * 400,
        if mp < 10 then mp + 3 else mp - 9, doy - (153 * mp + 2) div 5 + 1)"
      by (simp only: civil_of_day_def Let_def era_is_floor w_def [symmetric] e_def [symmetric]
          minus_div_mult_eq_mod doe_def [symmetric] mp_def [symmetric] prod.inject simp_thms
          w_e)
    with mp show ?thesis by (auto simp: Let_def mp_def [symmetric] n_def)
  qed
  ultimately show thesis by (intro that [of n doy]) (simp_all add: doy_def)
qed

lemma march_month_cases:
  assumes "0 \<le> doy" "doy \<le> (365::int)"
  obtains mp where "(5 * doy + 2) div 153 = mp" "mp \<in> {0, 1, 2, 3, 4, 5, 6, 7, 8, 9, 10, 11}"
    "153 * mp \<le> 5 * doy + 2" "5 * doy + 2 < 153 * (mp + 1)"
proof -
  define mp where "mp = (5 * doy + 2) div 153"
  have b: "153 * mp \<le> 5 * doy + 2" "5 * doy + 2 < 153 * (mp + 1)" unfolding mp_def by simp_all
  from assms have "0 \<le> mp" "mp \<le> 11" unfolding mp_def by linarith+
  then have "mp \<in> {0, 1, 2, 3, 4, 5, 6, 7, 8, 9, 10, 11}" unfolding insert_iff empty_iff by presburger
  with b show thesis by (intro that [of mp]) (simp_all add: mp_def)
qed

lemma leap_year_start: "year_start (n + 1) - year_start n = (if leap (n + 1) then 366 else 365)"
  by (simp add: year_start_step leap_def)

lemma civil_of_day_valid:
  assumes "civil_of_day z = (y, m, d)"
  shows "valid_civil y m d"
proof -
  obtain n doy where doy: "0 \<le> doy" "doy < year_start (n + 1) - year_start n"
    and c: "civil_of_day z = (let mp = (5 * doy + 2) div 153
        in (if mp < 10 then n else n + 1, if mp < 10 then mp + 3 else mp - 9, doy - (153 * mp + 2) div 5 + 1))"
    by (rule civil_of_day_march)
  have "doy \<le> 365" using doy(2) year_start_grows [of n] by simp
  with doy(1) obtain mp where mp: "(5 * doy + 2) div 153 = mp" "mp \<in> {0, 1, 2, 3, 4, 5, 6, 7, 8, 9, 10, 11}"
    "153 * mp \<le> 5 * doy + 2" "5 * doy + 2 < 153 * (mp + 1)" by (rule march_month_cases)
  with c assms have e: "y = (if mp < 10 then n else n + 1)" "m = (if mp < 10 then mp + 3 else mp - 9)"
    "d = doy - (153 * mp + 2) div 5 + 1" by (simp_all add: Let_def)
  show ?thesis
  proof (cases "mp = 11")
    case True
    with e mp(3,4) doy(2) show ?thesis by (simp add: valid_civil_def month_days_def leap_year_start split: if_splits)
  next
    case False
    with mp(2) have "mp \<in> {0, 1, 2, 3, 4, 5, 6, 7, 8, 9, 10}" by simp
    then show ?thesis using e mp(3,4) unfolding valid_civil_def month_days_def
      by (elim insertE emptyE; simp)
  qed
qed

lemma day_of_civil_inv:
  "(case civil_of_day z of (y, m, d) \<Rightarrow> day_of_civil y m d) = z"
proof -
  obtain n doy where w: "z + 719468 = year_start n + doy" and doy: "0 \<le> doy" "doy < year_start (n + 1) - year_start n"
    and c: "civil_of_day z = (let mp = (5 * doy + 2) div 153
        in (if mp < 10 then n else n + 1, if mp < 10 then mp + 3 else mp - 9, doy - (153 * mp + 2) div 5 + 1))"
    by (rule civil_of_day_march)
  have "doy \<le> 365" using doy(2) year_start_grows [of n] by simp
  with doy(1) obtain mp where mp: "(5 * doy + 2) div 153 = mp" "mp \<in> {0, 1, 2, 3, 4, 5, 6, 7, 8, 9, 10, 11}"
    by (rule march_month_cases)
  show ?thesis
  proof (cases "mp < 10")
    case True
    with mp(2) have "2 < mp + 3" "\<not> mp + 3 \<le> 2" by auto
    with True w show ?thesis by (simp add: c mp(1) Let_def day_of_civil_eq)
  next
    case False
    with mp(2) have "mp - 9 \<le> 2" "\<not> 2 < mp - 9" by auto
    with False w show ?thesis by (simp add: c mp(1) Let_def day_of_civil_eq)
  qed
qed

text \<open>In the other direction: the day of the year \<open>day_of_civil\<close> computes for a valid date lies
  in that date's March-based year and month.\<close>

lemma march_day_bounds:
  assumes "valid_civil y m d"
  defines "n \<equiv> if m \<le> 2 then y - 1 else y" and "mp \<equiv> if 2 < m then m - 3 else m + 9"
  defines "doy \<equiv> (153 * mp + 2) div 5 + d - 1"
  shows "0 \<le> doy" "doy < year_start (n + 1) - year_start n" "(5 * doy + 2) div 153 = mp"
    "0 \<le> mp" "mp \<le> 11"
proof -
  from assms(1) have m: "m \<in> {1, 2, 3, 4, 5, 6, 7, 8, 9, 10, 11, 12}" and d: "1 \<le> d" "d \<le> month_days y m"
    unfolding valid_civil_def insert_iff empty_iff by (presburger, simp_all)
  show mp: "0 \<le> mp" "mp \<le> 11" using m by (auto simp: mp_def)
  show "0 \<le> doy" using mp d by (simp add: doy_def)
  have "153 * mp \<le> 5 * doy + 2 \<and> 5 * doy + 2 < 153 * (mp + 1)"
    using m d unfolding doy_def mp_def month_days_def by (elim insertE emptyE; simp split: if_splits)
  then show "(5 * doy + 2) div 153 = mp" by (intro int_div_pos_eq [where r = "5 * doy + 2 - 153 * mp"]) simp_all
  show "doy < year_start (n + 1) - year_start n"
    using m d unfolding doy_def mp_def n_def month_days_def leap_year_start
    by (elim insertE emptyE; simp split: if_splits)
qed

lemma year_start_strict: "a < b \<Longrightarrow> year_start a < year_start b"
proof (induction b rule: int_gr_induct)
  case base
  then show ?case using year_start_grows(1) [of a] by simp
next
  case (step i)
  then show ?case using year_start_grows(1) [of i] by simp
qed

lemma year_start_unique:
  assumes "year_start n \<le> w" "w < year_start (n + 1)" "year_start k \<le> w" "w < year_start (k + 1)"
  shows "n = k"
proof (rule ccontr)
  assume "n \<noteq> k"
  then consider "n + 1 \<le> k" | "k + 1 \<le> n" by linarith
  then show False
  proof cases
    case 1
    then have "year_start (n + 1) \<le> year_start k" using year_start_strict [of "n + 1" k] by (cases "n + 1 = k") auto
    with assms show False by simp
  next
    case 2
    then have "year_start (k + 1) \<le> year_start n" using year_start_strict [of "k + 1" n] by (cases "k + 1 = n") auto
    with assms show False by simp
  qed
qed

lemma civil_of_day_inv:
  assumes "valid_civil y m d"
  shows "civil_of_day (day_of_civil y m d) = (y, m, d)"
proof -
  define n mp doy where "n = (if m \<le> 2 then y - 1 else y)" and "mp = (if 2 < m then m - 3 else m + 9)"
    and "doy = (153 * mp + 2) div 5 + d - 1"
  note b = march_day_bounds [OF assms, folded n_def mp_def doy_def [unfolded mp_def], folded mp_def, folded doy_def]
  have w: "day_of_civil y m d + 719468 = year_start n + doy"
    by (simp add: day_of_civil_eq n_def mp_def doy_def)
  obtain n' doy' where w': "day_of_civil y m d + 719468 = year_start n' + doy'"
    and doy': "0 \<le> doy'" "doy' < year_start (n' + 1) - year_start n'"
    and c: "civil_of_day (day_of_civil y m d) = (let mp = (5 * doy' + 2) div 153
        in (if mp < 10 then n' else n' + 1, if mp < 10 then mp + 3 else mp - 9, doy' - (153 * mp + 2) div 5 + 1))"
    by (rule civil_of_day_march)
  have "n' = n"
    by (rule year_start_unique [of _ "day_of_civil y m d + 719468"]) (use w w' doy' b(1,2) in linarith)+
  with w w' have "doy' = doy" by simp
  with c b(3) have "civil_of_day (day_of_civil y m d) =
      (if mp < 10 then n else n + 1, if mp < 10 then mp + 3 else mp - 9, d)"
    by (simp add: Let_def \<open>n' = n\<close> doy_def)
  with assms show ?thesis by (auto simp: valid_civil_def n_def mp_def)
qed

section \<open>Whole months\<close>

lemma day_of_civil_day: "day_of_civil y m d = day_of_civil y m 1 + (d - 1)"
  by (simp add: day_of_civil_eq)

lemma day_of_civil_next_month:
  assumes "1 \<le> m" "m \<le> 12"
  shows "(case next_month y m of (ny, nm) \<Rightarrow> day_of_civil ny nm 1) = day_of_civil y m 1 + month_days y m"
proof -
  from assms have "m \<in> {1, 2, 3, 4, 5, 6, 7, 8, 9, 10, 11, 12}" unfolding insert_iff empty_iff by presburger
  moreover have "year_start y - year_start (y - 1) = (if leap y then 366 else 365)"
    using leap_year_start [of "y - 1"] by simp
  ultimately show ?thesis
    unfolding next_month_def month_days_def day_of_civil_eq by (elim insertE emptyE; simp split: if_splits)
qed

text \<open>From a day on, the days before the next month's first are days of the same month.\<close>

lemma civil_of_day_same_month:
  assumes "civil_of_day z = (y, m, d)" "z \<le> z'" "z' < (case next_month y m of (ny, nm) \<Rightarrow> day_of_civil ny nm 1)"
  shows "civil_of_day z' = (y, m, d + (z' - z))"
proof -
  have v: "valid_civil y m d" using assms(1) by (rule civil_of_day_valid)
  have z: "z = day_of_civil y m d" using day_of_civil_inv [of z] assms(1) by simp
  have "z' < day_of_civil y m 1 + month_days y m"
    using assms(3) v by (simp add: day_of_civil_next_month valid_civil_def)
  with assms(2) v z have "valid_civil y m (d + (z' - z))"
    using day_of_civil_day [of y m d] by (simp add: valid_civil_def)
  moreover have "day_of_civil y m (d + (z' - z)) = z'"
    using z day_of_civil_day [of y m d] day_of_civil_day [of y m "d + (z' - z)"] by simp
  ultimately show ?thesis using civil_of_day_inv by metis
qed

lemma next_month_later:
  assumes "civil_of_day z = (y, m, d)"
  shows "z < (case next_month y m of (ny, nm) \<Rightarrow> day_of_civil ny nm 1)"
proof -
  have v: "valid_civil y m d" using assms(1) by (rule civil_of_day_valid)
  then have "z < day_of_civil y m 1 + month_days y m"
    using day_of_civil_inv [of z] assms day_of_civil_day [of y m d] by (simp add: valid_civil_def)
  with v show ?thesis by (simp add: day_of_civil_next_month valid_civil_def)
qed

section \<open>Nothing wraps in range\<close>

lemma cast_u64_id: "0 \<le> x \<Longrightarrow> x < 18446744073709551616 \<Longrightarrow> cast_u64 x = x"
  by (simp add: cast_u64_def)

lemma cast_u32_id: "0 \<le> x \<Longrightarrow> x < 4294967296 \<Longrightarrow> cast_u32 x = x"
  by (simp add: cast_u32_def)

lemma wrap_near: "- 9000000000000000000 \<le> x \<Longrightarrow> x \<le> 9000000000000000000 \<Longrightarrow> wrap_i64 x = x"
  by (rule wrap_i64_id) (simp add: i64_bound_defs)

lemma civil_from_days_exact:
  assumes "day_range z"
  shows "civil_from_days z = civil_of_day z"
proof -
  define w e doe k doy mp where "w = z + 719468" and "e = w div 146097" and "doe = w mod 146097" and "k = yoe_num doe div 365"
    and "doy = doe - yoe_start k" and "mp = (5 * doy + 2) div 153"
  have z: "- 4611686018427387904 \<le> z" "z \<le> 4611686018427387904" using assms by (simp_all add: day_range_def)
  have w: "- 4700000000000000000 \<le> w" "w \<le> 4700000000000000000" using z by (simp_all add: w_def)
  have doe: "0 \<le> doe" "doe < 146097" and we: "w = e * 146097 + doe" by (simp_all add: doe_def e_def)
  note k = year_of_era [OF doe, folded k_def]
  have e: "- 40000000000000 \<le> e" "e \<le> 40000000000000" using w we doe by linarith+
  have doy: "0 \<le> doy" "doy < 146097" using k(3) yoe_start_bounds [OF k(1,2)] doe by (simp_all add: doy_def)
  then have mp: "0 \<le> mp" "mp \<le> 5000" unfolding mp_def by linarith+
  have d: "0 \<le> doy - (153 * mp + 2) div 5" "doy - (153 * mp + 2) div 5 \<le> 146097"
    using doy mp unfolding mp_def by linarith+
  have era: "(if 0 \<le> w then w else wrap_i64 (w - 146096)) sdiv 146097 = e"
  proof -
    have "(if 0 \<le> w then w else wrap_i64 (w - 146096)) = (if 0 \<le> w then w else w - 146096)" using w by (simp add: wrap_near)
    then show ?thesis using era_is_floor [of w] by (simp only: e_def)
  qed
  have d1: "cast_u64 (wrap_i64 (w - wrap_i64 (e * 146097))) = doe"
    using w we doe e by (simp add: wrap_near cast_u64_id)
  have q: "0 \<le> doe div 1460" "doe div 1460 \<le> doe" "0 \<le> doe div 36524" "doe div 36524 \<le> doe" "doe div 146096 \<le> doe"
    "doe div 146096 \<le> doe div 36524" "0 \<le> doe div 146096"
    using doe by linarith+
  have d2: "cast_u64 (cast_u64 (doe - doe div 1460 + doe div 36524) - doe div 146096) div 365 = k"
  proof -
    have "cast_u64 (doe - doe div 1460 + doe div 36524) = doe - doe div 1460 + doe div 36524"
      by (rule cast_u64_id) (use q doe in linarith)+
    moreover have "cast_u64 (doe - doe div 1460 + doe div 36524 - doe div 146096) = doe - doe div 1460 + doe div 36524 - doe div 146096"
      by (rule cast_u64_id) (use q doe in linarith)+
    ultimately show ?thesis by (simp add: k_def yoe_num_def)
  qed
  have d3: "cast_u64 (doe - cast_u64 (cast_u64 (365 * k + k div 4) - k div 100)) = doy"
  proof -
    have "0 \<le> k div 4" "k div 4 \<le> 100" "0 \<le> k div 100" "k div 100 \<le> k div 4" using k(1,2) by linarith+
    then have "cast_u64 (365 * k + k div 4) = 365 * k + k div 4" "cast_u64 (365 * k + k div 4 - k div 100) = 365 * k + k div 4 - k div 100"
      using k(1,2) by (intro cast_u64_id; linarith)+
    moreover have "365 * k + k div 4 - k div 100 = yoe_start k" by (simp add: yoe_start_def)
    ultimately show ?thesis using doy by (simp add: doy_def [symmetric] cast_u64_id)
  qed
  have d4: "cast_u64 (5 * doy + 2) div 153 = mp" using doy by (simp add: mp_def cast_u64_id)
  have d5: "cast_u32 (cast_u64 (cast_u64 (doy - cast_u64 (153 * mp + 2) div 5) + 1)) = doy - (153 * mp + 2) div 5 + 1"
    using d mp by (simp add: cast_u64_id cast_u32_id)
  have d6: "cast_u32 (if mp < 10 then cast_u64 (mp + 3) else cast_u64 (mp - 9)) = (if mp < 10 then mp + 3 else mp - 9)"
    using mp by (simp add: cast_u64_id cast_u32_id)
  have d7: "wrap_i64 (wrap_i64 k + wrap_i64 (e * 400)) = k + e * 400" "wrap_i64 (k + e * 400 + 1) = k + e * 400 + 1"
    using e k(1,2) by (simp_all add: wrap_near)
  have ww: "wrap_i64 (z + 719468) = w" using w by (simp add: w_def wrap_near)
  have "civil_from_days z = (if (if mp < 10 then mp + 3 else mp - 9) \<le> 2 then k + e * 400 + 1 else k + e * 400,
      if mp < 10 then mp + 3 else mp - 9, doy - (153 * mp + 2) div 5 + 1)"
    by (simp only: civil_from_days_def Let_def ww era d1 d2 d3 d4 d5 d6 d7)
  also have "\<dots> = civil_of_day z"
  proof -
    have "(doe - doe div 1460 + doe div 36524 - doe div 146096) div 365 = k" by (simp add: k_def yoe_num_def)
    moreover have "doe - (365 * k + k div 4 - k div 100) = doy" by (simp add: doy_def yoe_start_def)
    moreover have "w - e * 146097 = doe" using we by simp
    ultimately show ?thesis
      by (simp only: civil_of_day_def Let_def era_is_floor w_def [symmetric] e_def [symmetric] mp_def [symmetric])
  qed
  finally show ?thesis .
qed

lemma days_from_civil_exact:
  assumes y: "- 20000000000000000 \<le> y" "y \<le> 20000000000000000" and md: "1 \<le> m" "m \<le> 12" "1 \<le> d" "d \<le> 31"
  shows "days_from_civil y m d = day_of_civil y m d"
proof -
  define n where "n = (if m \<le> 2 then y - 1 else y)"
  define e k where "e = n div 400" and "k = n mod 400"
  define doy where "doy = (153 * (if 2 < m then m - 3 else m + 9) + 2) div 5 + d - 1"
  define mp where "mp = (if 2 < m then m - 3 else m + 9)"
  have n: "- 20000000000000001 \<le> n" "n \<le> 20000000000000000" using y by (simp_all add: n_def)
  have k: "0 \<le> k" "k < 400" and ne: "n = e * 400 + k" by (simp_all add: k_def e_def)
  have e: "- 50000000000001 \<le> e" "e \<le> 50000000000000" using n ne k by linarith+
  have mp: "0 \<le> mp" "mp \<le> 11" using md by (auto simp: mp_def)
  have doy: "0 \<le> doy" "doy \<le> 400" using mp md unfolding doy_def mp_def [symmetric] by linarith+
  have n1: "(if m \<le> 2 then wrap_i64 (y - 1) else y) = n" using y by (simp add: n_def wrap_near)
  have era: "(if 0 \<le> n then n else wrap_i64 (n - 399)) sdiv 400 = e"
  proof -
    have "(if 0 \<le> n then n else wrap_i64 (n - 399)) = (if 0 \<le> n then n else n - 399)" using n by (simp add: wrap_near)
    then show ?thesis using era400_is_floor [of n] by (simp only: e_def)
  qed
  have d1: "cast_u64 (wrap_i64 (n - wrap_i64 (e * 400))) = k" using n ne k e by (simp add: wrap_near cast_u64_id)
  have m1: "(if 2 < m then m - 3 else cast_u32 (m + 9)) = mp" using md by (simp add: mp_def cast_u32_id)
  have d2: "cast_u64 (cast_u64 (cast_u64 (153 * mp + 2) div 5 + d) - 1) = doy"
    using mp md doy unfolding doy_def mp_def [symmetric] by (simp add: cast_u64_id)
  have q: "0 \<le> k div 4" "k div 4 \<le> 100" "0 \<le> k div 100" "k div 100 \<le> k div 4" using k by linarith+
  have d3: "cast_u64 (cast_u64 (cast_u64 (cast_u64 (k * 365) + k div 4) - k div 100) + doy) = k * 365 + k div 4 - k div 100 + doy"
    using q k doy by (simp add: cast_u64_id)
  have d4: "wrap_i64 (wrap_i64 (wrap_i64 (e * 146097) + wrap_i64 (k * 365 + k div 4 - k div 100 + doy)) - 719468)
      = e * 146097 + (k * 365 + k div 4 - k div 100 + doy) - 719468"
    using q k doy e by (simp add: wrap_near)
  have "days_from_civil y m d = e * 146097 + (k * 365 + k div 4 - k div 100 + doy) - 719468"
    by (simp only: days_from_civil_def Let_def n1 era d1 m1 d2 d3 d4)
  also have "\<dots> = day_of_civil y m d"
  proof -
    have "n - e * 400 = k" using ne by simp
    then show ?thesis
      by (simp only: day_of_civil_def Let_def era400_is_floor n_def [symmetric] e_def [symmetric] doy_def [symmetric])
  qed
  finally show ?thesis .
qed

text \<open>The year of a day in range is far inside the range of the inverse.\<close>

lemma year_of_day_range:
  assumes "day_range z" "civil_of_day z = (y, m, d)"
  shows "- 19500000000000000 \<le> y" "y \<le> 19500000000000000"
proof -
  have v: "valid_civil y m d" using assms(2) by (rule civil_of_day_valid)
  have "day_of_civil y m d = z" using day_of_civil_inv [of z] assms(2) by simp
  then have "year_start (if m \<le> 2 then y - 1 else y) + (153 * (if 2 < m then m - 3 else m + 9) + 2) div 5 + d = z + 719469"
    by (simp add: day_of_civil_eq)
  moreover have "0 \<le> (153 * (if 2 < m then m - 3 else m + 9) + 2) div 5" "(153 * (if 2 < m then m - 3 else m + 9) + 2) div 5 \<le> 400"
    using v by (auto simp: valid_civil_def)
  moreover have "1 \<le> d" "d \<le> 31" using v by (auto simp: valid_civil_def month_days_def split: if_splits)
  ultimately have "- 4700000000000000000 \<le> year_start (if m \<le> 2 then y - 1 else y)"
    "year_start (if m \<le> 2 then y - 1 else y) \<le> 4700000000000000000"
    using assms(1) unfolding day_range_def by linarith+
  then have "- 19000000000000000 \<le> (if m \<le> 2 then y - 1 else y)" "(if m \<le> 2 then y - 1 else y) \<le> 19000000000000000"
    unfolding year_start_def by linarith+
  then show "- 19500000000000000 \<le> y" "y \<le> 19500000000000000" by (simp_all split: if_splits)
qed

lemma day_of_year_range:
  assumes "year_range y" "valid_civil y m d"
  shows "day_range (day_of_civil y m d)"
proof -
  have "0 \<le> (153 * (if 2 < m then m - 3 else m + 9) + 2) div 5" "(153 * (if 2 < m then m - 3 else m + 9) + 2) div 5 \<le> 400"
    using assms(2) by (auto simp: valid_civil_def)
  moreover have "1 \<le> d" "d \<le> 31" using assms(2) by (auto simp: valid_civil_def month_days_def split: if_splits)
  moreover have "- 10000000000000001 \<le> (if m \<le> 2 then y - 1 else y)" "(if m \<le> 2 then y - 1 else y) \<le> 10000000000000000"
    using assms(1) by (auto simp: year_range_def)
  then have "- 4000000000000000000 \<le> year_start (if m \<le> 2 then y - 1 else y)" "year_start (if m \<le> 2 then y - 1 else y) \<le> 4000000000000000000"
    unfolding year_start_def by linarith+
  ultimately show ?thesis unfolding day_range_def day_of_civil_eq by linarith
qed

lemma valid_civil_exact:
  assumes "valid_civil y m d" "- 19500000000000000 \<le> y" "y \<le> 19500000000000000"
  shows "days_from_civil y m d = day_of_civil y m d"
  using assms by (intro days_from_civil_exact) (auto simp: valid_civil_def month_days_def split: if_splits)

section \<open>Timestamps as text\<close>

definition rfc3339_from_unix :: "int \<Rightarrow> string" where
  "rfc3339_from_unix unix_secs =
     (let days = unix_secs div 86400;
          secs_of_day = unix_secs mod 86400;
          (y, m, d) = civil_from_days days;
          hh = secs_of_day div 3600;
          mm = (secs_of_day mod 3600) div 60;
          ss = secs_of_day mod 60
      in fmt_zero 4 y @ ''-'' @ fmt_zero 2 m @ ''-'' @ fmt_zero 2 d @ ''T'' @
         fmt_zero 2 hh @ '':'' @ fmt_zero 2 mm @ '':'' @ fmt_zero 2 ss @ ''Z'')"

definition date_from_unix :: "int \<Rightarrow> string" where
  "date_from_unix unix_secs =
     (let (y, m, d) = civil_from_days (unix_secs div 86400)
      in fmt_zero 4 y @ ''-'' @ fmt_zero 2 m @ ''-'' @ fmt_zero 2 d)"

definition byte_digit :: "nat list \<Rightarrow> nat \<Rightarrow> int option" where
  "byte_digit b pos =
     (if pos < length b \<and> 48 \<le> b ! pos \<and> b ! pos \<le> 57 then Some (int (b ! pos - 48)) else None)"

definition byte_two :: "nat list \<Rightarrow> nat \<Rightarrow> int option" where
  "byte_two b pos =
     (case byte_digit b pos of None \<Rightarrow> None
      | Some hi \<Rightarrow> (case byte_digit b (pos + 1) of None \<Rightarrow> None | Some lo \<Rightarrow> Some (hi * 10 + lo)))"

definition unix_from_rfc3339 :: "string \<Rightarrow> int option" where
  "unix_from_rfc3339 s =
     (let b = as_bytes s in
      if length b \<noteq> 20 \<or> b ! 4 \<noteq> 45 \<or> b ! 7 \<noteq> 45 \<or> b ! 10 \<noteq> 84 \<or> b ! 13 \<noteq> 58 \<or> b ! 16 \<noteq> 58 \<or> b ! 19 \<noteq> 90
      then None
      else
        case (byte_two b 0, byte_two b 2, byte_two b 5, byte_two b 8, byte_two b 11, byte_two b 14, byte_two b 17) of
          (Some y1, Some y2, Some month, Some day, Some hour, Some minute, Some second) \<Rightarrow>
            (let year = y1 * 100 + y2 in
             if \<not> (1 \<le> month \<and> month \<le> 12) \<or> \<not> (1 \<le> day \<and> day \<le> 31) \<or> 23 < hour \<or> 59 < minute \<or> 59 < second
             then None
             else Some (days_from_civil year month day * 86400 + hour * 3600 + minute * 60 + second))
        | _ \<Rightarrow> None)"

definition parse_date_ymd_unix :: "string \<Rightarrow> int option" where
  "parse_date_ymd_unix s =
     (case split_once CHR ''-'' s of
        None \<Rightarrow> None
      | Some (ys, rest) \<Rightarrow>
          (case parse_i64 ys of
             None \<Rightarrow> None
           | Some y \<Rightarrow>
               (case split_once CHR ''-'' rest of
                  None \<Rightarrow> None
                | Some (ms, ds) \<Rightarrow>
                    (case (parse_u32 ms, parse_u32 ds) of
                       (Some m, Some d) \<Rightarrow>
                         if \<not> (1 \<le> m \<and> m \<le> 12) \<or> \<not> (1 \<le> d \<and> d \<le> 31) then None
                         else Some (wrap_i64 (days_from_civil y (int m) (int d) * 86400))
                     | _ \<Rightarrow> None))))"

definition parse_window_secs :: "string \<Rightarrow> int" where
  "parse_window_secs window0 =
     (let window = trim window0;
          num_part = butlast window;
          unit = (if window = [] then [] else [last window]);
          n = (case parse_i64 num_part of Some n \<Rightarrow> n | None \<Rightarrow> 24)
      in if unit = ''s'' then n
         else if unit = ''m'' then wrap_i64 (n * 60)
         else if unit = ''h'' then wrap_i64 (n * 3600)
         else if unit = ''d'' then wrap_i64 (n * 86400)
         else 24 * 3600)"

definition return_min_secs :: int where
  "return_min_secs = 21600"

definition returned_days :: "int \<Rightarrow> int \<Rightarrow> int option" where
  "returned_days created_unix now =
     (let days = now div 86400 - created_unix div 86400
      in if 1 \<le> days \<and> return_min_secs \<le> wrap_i64 (now - created_unix) then Some days else None)"

lemma utf8_digit_char [simp]: "n < 10 \<Longrightarrow> utf8_char (digit_char n) = [48 + n]"
  by (simp add: utf8_char_def digit_char_def scalar_char_of)

lemma as_bytes_simps [simp]:
  "as_bytes [] = []"
  "as_bytes (c # s) = utf8_char c @ as_bytes s"
  "as_bytes (s @ t) = as_bytes s @ as_bytes t"
  by (simp_all add: as_bytes_def)

lemma utf8_separators [simp]:
  "utf8_char CHR ''-'' = [45]" "utf8_char CHR ''T'' = [84]" "utf8_char CHR '':'' = [58]" "utf8_char CHR ''Z'' = [90]"
  by (simp_all add: utf8_char_def scalar_def)

lemma byte_two_digits:
  assumes "b ! pos = 48 + n div 10" "b ! Suc pos = 48 + n mod 10" "Suc pos < length b" "n < 100"
  shows "byte_two b pos = Some (int n)"
proof -
  have "n div 10 < 10" using assms(4) by (simp add: less_mult_imp_div_less)
  moreover have "int (n div 10) * 10 + int (n mod 10) = int n" by (simp add: zdiv_int zmod_int)
  ultimately show ?thesis using assms(1-3) by (simp add: byte_two_def byte_digit_def)
qed

lemma parse_printed_fields:
  assumes "y < 10000" "m < 100" "d < 100" "hh < 100" "mm < 100" "ss < 100"
  shows "unix_from_rfc3339 (fmt_zero 4 (int y) @ ''-'' @ fmt_zero 2 (int m) @ ''-'' @ fmt_zero 2 (int d) @ ''T'' @
         fmt_zero 2 (int hh) @ '':'' @ fmt_zero 2 (int mm) @ '':'' @ fmt_zero 2 (int ss) @ ''Z'') =
     (if \<not> (1 \<le> m \<and> m \<le> 12) \<or> \<not> (1 \<le> d \<and> d \<le> 31) \<or> 23 < hh \<or> 59 < mm \<or> 59 < ss then None
      else Some (days_from_civil (int y) (int m) (int d) * 86400 + int hh * 3600 + int mm * 60 + int ss))"
proof -
  let ?s = "fmt_zero 4 (int y) @ ''-'' @ fmt_zero 2 (int m) @ ''-'' @ fmt_zero 2 (int d) @ ''T'' @
         fmt_zero 2 (int hh) @ '':'' @ fmt_zero 2 (int mm) @ '':'' @ fmt_zero 2 (int ss) @ ''Z''"
  define b where "b = as_bytes ?s"
  have q: "y div 1000 < 10" "m div 10 < 10" "d div 10 < 10" "hh div 10 < 10" "mm div 10 < 10" "ss div 10 < 10"
    using assms by (simp_all add: less_mult_imp_div_less)
  have b: "b = [48 + y div 1000, 48 + y div 100 mod 10, 48 + y div 10 mod 10, 48 + y mod 10, 45,
      48 + m div 10, 48 + m mod 10, 45, 48 + d div 10, 48 + d mod 10, 84, 48 + hh div 10, 48 + hh mod 10, 58,
      48 + mm div 10, 48 + mm mod 10, 58, 48 + ss div 10, 48 + ss mod 10, 90]"
    using q by (simp add: b_def fmt_zero_4 [OF assms(1)] fmt_zero_2 [OF assms(2)] fmt_zero_2 [OF assms(3)]
        fmt_zero_2 [OF assms(4)] fmt_zero_2 [OF assms(5)] fmt_zero_2 [OF assms(6)])
  have y1: "byte_two b 0 = Some (int (y div 100))"
    using assms(1) by (intro byte_two_digits) (simp_all add: b div_mult2_eq [symmetric] less_mult_imp_div_less)
  have y2: "byte_two b 2 = Some (int (y mod 100))"
    by (intro byte_two_digits) (simp_all add: b mod_mult2_eq [of y 10 10, simplified] )
  have f: "byte_two b 5 = Some (int m)" "byte_two b 8 = Some (int d)" "byte_two b 11 = Some (int hh)"
    "byte_two b 14 = Some (int mm)" "byte_two b 17 = Some (int ss)"
    using assms by (auto intro!: byte_two_digits simp: b)
  have "int (y div 100) * 100 + int (y mod 100) = int y" by (simp add: zdiv_int zmod_int)
  with b y1 y2 f show ?thesis
    unfolding unix_from_rfc3339_def b_def [symmetric] by (simp add: Let_def)
qed

text \<open>Every \<open>i64\<close> instant lies on a day in range.\<close>

lemma day_range_unix: "in_i64 t \<Longrightarrow> day_range (t div 86400)"
  unfolding day_range_def i64_bound_defs by linarith

lemma rfc3339_parses_back:
  assumes t: "in_i64 t" and day: "civil_from_days (t div 86400) = (y, m, d)" and year: "0 \<le> y" "y \<le> 9999"
  shows "unix_from_rfc3339 (rfc3339_from_unix t) = Some t"
proof -
  define r where "r = t mod 86400"
  have cd: "civil_of_day (t div 86400) = (y, m, d)" using civil_from_days_exact [OF day_range_unix [OF t]] day by simp
  have v: "valid_civil y m d" using cd by (rule civil_of_day_valid)
  then have md: "1 \<le> m" "m \<le> 12" "1 \<le> d" "d \<le> 31"
    by (auto simp: valid_civil_def month_days_def split: if_splits)
  have r: "0 \<le> r" "r < 86400" by (simp_all add: r_def)
  have h: "0 \<le> r div 3600" "r div 3600 < 24" "0 \<le> (r mod 3600) div 60" "(r mod 3600) div 60 < 60"
      "0 \<le> r mod 60" "r mod 60 < 60"
    using r by (simp_all add: pos_imp_zdiv_nonneg_iff div_less_iff_less_mult)
  have split: "r div 3600 * 3600 + (r mod 3600) div 60 * 60 + r mod 60 = r"
  proof -
    have "r mod 60 = (r mod 3600) mod 60" by (rule mod_mod_cancel [symmetric]) simp
    then have "(r mod 3600) div 60 * 60 + r mod 60 = r mod 3600" by simp
    then have "r div 3600 * 3600 + ((r mod 3600) div 60 * 60 + r mod 60) = r" by (simp only: div_mult_mod_eq)
    then show ?thesis by (simp only: add.assoc)
  qed
  have "days_from_civil y m d = t div 86400"
    using day_of_civil_inv [of "t div 86400"] cd valid_civil_exact [OF v] year by simp
  then have "days_from_civil y m d * 86400 + r div 3600 * 3600 + (r mod 3600) div 60 * 60 + r mod 60 = t"
  proof -
    assume d: "days_from_civil y m d = t div 86400"
    have sum: "q + r' = u \<Longrightarrow> a + b + c = r' \<Longrightarrow> q + a + b + c = u" for q a b c r' u :: int by simp
    have "t div 86400 * 86400 + r = t" by (simp add: r_def)
    from sum [OF this split] show ?thesis unfolding d .
  qed
  moreover have "unix_from_rfc3339 (rfc3339_from_unix t) =
      Some (days_from_civil y m d * 86400 + r div 3600 * 3600 + (r mod 3600) div 60 * 60 + r mod 60)"
  proof -
    define H M S where "H = r div 3600" and "M = (r mod 3600) div 60" and "S = r mod 60"
    note hms = h [folded H_def M_def S_def]
    have "rfc3339_from_unix t = fmt_zero 4 (int (nat y)) @ ''-'' @ fmt_zero 2 (int (nat m)) @ ''-'' @ fmt_zero 2 (int (nat d)) @ ''T'' @
         fmt_zero 2 (int (nat H)) @ '':'' @ fmt_zero 2 (int (nat M)) @ '':'' @ fmt_zero 2 (int (nat S)) @ ''Z''"
      using day year(1) md hms
      by (simp only: rfc3339_from_unix_def Let_def r_def [symmetric] H_def [symmetric] M_def [symmetric] S_def [symmetric]
          prod.case nat_0_le int_nat_eq) simp
    moreover have "nat y < 10000" "nat m < 100" "nat d < 100" "nat H < 100" "nat M < 100" "nat S < 100"
      using year md hms by (simp_all add: nat_less_iff)
    note parse_printed_fields [OF this]
    moreover have "1 \<le> nat m \<and> nat m \<le> 12" "1 \<le> nat d \<and> nat d \<le> 31" "\<not> 23 < nat H" "\<not> 59 < nat M" "\<not> 59 < nat S"
      using md hms by linarith+
    ultimately show ?thesis
      using year(1) md(1,3) hms(1,3,5) by (simp add: H_def [symmetric] M_def [symmetric] S_def [symmetric])
  qed
  ultimately show ?thesis by simp
qed

lemma month_start_bounds:
  assumes day: "civil_of_day (now div 86400) = (y, m, d)" and now: "day_range now"
  shows "utc_month_start_unix now \<le> now" "utc_month_start_unix now = day_of_civil y m 1 * 86400"
    "now < utc_month_start_unix now + month_days y m * 86400"
proof -
  have r: "day_range (now div 86400)" using now unfolding day_range_def by linarith
  have v: "valid_civil y m d" using day by (rule civil_of_day_valid)
  then have v1: "valid_civil y m 1" by (auto simp: valid_civil_def)
  have day1: "now div 86400 = day_of_civil y m 1 + (d - 1)"
    using day_of_civil_inv [of "now div 86400"] day day_of_civil_day [of y m d] by simp
  have dm: "1 \<le> d" "d \<le> 31" using v by (auto simp: valid_civil_def month_days_def split: if_splits)
  have near: "- 9000000000000000000 \<le> day_of_civil y m 1 * 86400" "day_of_civil y m 1 * 86400 \<le> 9000000000000000000"
    using now day1 dm unfolding day_range_def by linarith+
  show start: "utc_month_start_unix now = day_of_civil y m 1 * 86400"
    using valid_civil_exact [OF v1 year_of_day_range [OF r day]] near
    by (simp add: utc_month_start_unix_def civil_from_days_exact [OF r] day wrap_near)
  define q s where "q = now div 86400" and "s = now mod 86400"
  have nw: "now = q * 86400 + s" "0 \<le> s" "s < 86400" by (simp_all add: q_def s_def)
  have qd: "day_of_civil y m 1 \<le> q" "q + 1 \<le> day_of_civil y m 1 + month_days y m"
    using day1 v by (simp_all add: q_def valid_civil_def)
  from qd(1) have "day_of_civil y m 1 * 86400 \<le> q * 86400" by simp
  then show "utc_month_start_unix now \<le> now" unfolding start using nw by simp
  from qd(2) have "(q + 1) * 86400 \<le> (day_of_civil y m 1 + month_days y m) * 86400" by (intro mult_right_mono) simp_all
  then show "now < utc_month_start_unix now + month_days y m * 86400"
    unfolding start using nw by (simp add: algebra_simps)
qed

section \<open>Properties\<close>

text \<open>C16. The two conversions, with their wrapping arithmetic, are inverse to each other: every day number up to \<open>2^62\<close> in absolute
  value (an \<open>i64\<close> timestamp lies on one of the days up to \<open>1.1 * 10^14\<close>) survives the trip through its date, and every valid date of
  the years up to \<open>10^16\<close> survives the trip through its day number.\<close>

theorem calendar_roundtrip:
  assumes "day_range z" "year_range y'" "valid_civil y' m' d'"
  shows "(case civil_from_days z of (y, m, d) \<Rightarrow> days_from_civil y m d = z \<and> valid_civil y m d) \<and>
   civil_from_days (days_from_civil y' m' d') = (y', m', d')"
proof -
  obtain y m d where c: "civil_of_day z = (y, m, d)" by (cases "civil_of_day z") auto
  have "days_from_civil y m d = z"
    using day_of_civil_inv [of z] c valid_civil_exact [OF civil_of_day_valid [OF c] year_of_day_range [OF assms(1) c]] by simp
  moreover have "days_from_civil y' m' d' = day_of_civil y' m' d'"
    by (rule valid_civil_exact [OF assms(3)]) (use assms(2) in \<open>simp_all add: year_range_def\<close>)
  ultimately show ?thesis
    using c civil_of_day_valid [OF c] civil_of_day_inv [OF assms(3)]
    by (simp add: civil_from_days_exact [OF assms(1)] civil_from_days_exact [OF day_of_year_range [OF assms(2,3)]])
qed

theorem calendar_roundtrip_witness:
  "civil_from_days (days_from_civil 2024 2 29) = (2024, 2, 29)"
proof -
  have "valid_civil 2024 2 29" by (simp add: valid_civil_def month_days_def leap_def)
  from calendar_roundtrip [OF _ _ this, of 0] show ?thesis by (simp add: day_range_def year_range_def)
qed

text \<open>A timestamp printed by \<open>rfc3339_from_unix\<close> is read back by \<open>unix_from_rfc3339\<close> as the same
  timestamp, for every instant of the years 0 to 9999.\<close>

theorem rfc3339_roundtrip:
  assumes "in_i64 t" "0 \<le> fst (civil_from_days (t div 86400))" "fst (civil_from_days (t div 86400)) \<le> 9999"
  shows "unix_from_rfc3339 (rfc3339_from_unix t) = Some t"
  using assms by (cases "civil_from_days (t div 86400)") (auto intro: rfc3339_parses_back)

theorem rfc3339_roundtrip_witness:
  "unix_from_rfc3339 (rfc3339_from_unix 1700000000) = Some 1700000000"
proof -
  have "day_of_civil 2023 11 14 = 19675" by (simp add: day_of_civil_eq year_start_def)
  then have "civil_of_day (1700000000 div 86400) = (2023, 11, 14)"
    using civil_of_day_inv [of 2023 11 14] by (simp add: valid_civil_def month_days_def)
  then have "civil_from_days (1700000000 div 86400) = (2023, 11, 14)"
    using civil_from_days_exact [of "1700000000 div 86400"] by (simp add: day_range_def)
  then show ?thesis by (intro rfc3339_roundtrip) (simp_all add: i64_bound_defs)
qed

text \<open>\<open>utc_month_start_unix\<close> is the first instant of the month its argument lies in: it is the
  first of that month at midnight, not after the argument, and the argument comes before the end
  of the month.\<close>

theorem month_start_correct:
  assumes "day_range now"
  shows "case civil_of_day (now div 86400) of (y, m, d) \<Rightarrow>
     utc_month_start_unix now \<le> now \<and> now < utc_month_start_unix now + month_days y m * 86400 \<and>
     civil_of_day (utc_month_start_unix now div 86400) = (y, m, 1) \<and> utc_month_start_unix now mod 86400 = 0"
proof -
  obtain y m d where c: "civil_of_day (now div 86400) = (y, m, d)" by (cases "civil_of_day (now div 86400)") auto
  have "valid_civil y m 1" using civil_of_day_valid [OF c] by (auto simp: valid_civil_def)
  from civil_of_day_inv [OF this] show ?thesis using month_start_bounds [OF c assms] c by simp
qed

text \<open>The RFC 3339 parser is looser than its comment says: it accepts a day that the month does not
  have and reads it as a day of the next month.\<close>

theorem rfc3339_accepts_february_31:
  "unix_from_rfc3339 ''2023-02-31T00:00:00Z'' = unix_from_rfc3339 ''2023-03-03T00:00:00Z'' \<and>
   unix_from_rfc3339 ''2023-02-31T00:00:00Z'' \<noteq> None"
  by (simp add: unix_from_rfc3339_def byte_two_def byte_digit_def as_bytes_def utf8_char_def scalar_def
      days_from_civil_exact [of 2023] day_of_civil_eq year_start_def)

text \<open>A window whose number does not parse is not the 24 hours its comment names: the 24 takes the
  unit, so a bare \<open>m\<close> is 24 minutes and a bare \<open>d\<close> 24 days.\<close>

theorem parse_window_default_unit:
  "parse_window_secs ''m'' = 1440 \<and> parse_window_secs ''d'' = 2073600 \<and> parse_window_secs ''x'' = 86400 \<and>
   parse_window_secs ''30m'' = 1800"
  by (simp add: parse_window_secs_def trim_def trim_start_def trim_end_def is_whitespace_def scalar_def
      parse_i64_def parse_digits_def digits_value_def digit_value_def is_ascii_digit_def
      in_i64_def i64_min_def i64_max_def wrap_i64_def)

end
