(* ===== verification/Cron.thy ===== *)
theory Cron
  imports Calendar
begin

text \<open>
  The five-field cron schedules of \<open>src/src/cron.rs\<close>: the field parser, the schedule
  parser and \<open>next_after\<close>, the search for the next firing time that the trigger table is
  advanced with.

  A field is the \<open>u64\<close> bit mask of the source. The parser's inner loop
  \<open>while v <= hi { mask |= 1 << v; v += step }\<close> runs on \<open>u32\<close>, where the addition wraps in
  a release build, so whether it stops is a question: it is a partial function, and
  \<open>fill_mask_returns\<close> shows that it returns for every call the parser makes.
\<close>

section \<open>Field sets and the parser\<close>

record cron_error =
  cron_field :: string
  cron_message :: string

type_synonym field_set = "64 word"

definition contains :: "field_set \<Rightarrow> nat \<Rightarrow> bool" where
  "contains fs v \<longleftrightarrow> fs AND push_bit v 1 \<noteq> 0"

definition quoted :: "string \<Rightarrow> string" where
  "quoted s = [CHR 0x27] @ s @ [CHR 0x27]"

definition parse_uint :: "string \<Rightarrow> string \<Rightarrow> cron_error + nat" where
  "parse_uint s field =
     (case parse_u32 s of
        Some n \<Rightarrow> Inr n
      | None \<Rightarrow> Inl \<lparr>cron_field = field,
          cron_message = field @ '' field: '' @ quoted s @ '' is not a whole number''\<rparr>)"

text \<open>One comma-separated item: \<open>*\<close>, \<open>N\<close>, \<open>N-M\<close>, each with an optional \<open>/S\<close>, as the bounds and
  step of the loop over it.\<close>

definition parse_step :: "string \<Rightarrow> string \<Rightarrow> cron_error + (string \<times> nat)" where
  "parse_step part field =
     (case split_once CHR ''/'' part of
        Some (r, s) \<Rightarrow>
          (case parse_uint s field of
             Inl e \<Rightarrow> Inl e
           | Inr step \<Rightarrow>
               if step = 0
               then Inl \<lparr>cron_field = field,
                 cron_message = field @ '' field: step '' @ quoted ''0'' @ '' must be at least 1''\<rparr>
               else Inr (r, step))
      | None \<Rightarrow> Inr (part, 1))"

definition parse_range :: "string \<Rightarrow> string \<Rightarrow> nat \<Rightarrow> nat \<Rightarrow> cron_error + (nat \<times> nat)" where
  "parse_range range_part field mn mx =
     (if range_part = ''*'' then Inr (mn, mx)
      else case split_once CHR ''-'' range_part of
        Some (a, b) \<Rightarrow>
          (case parse_uint a field of
             Inl e \<Rightarrow> Inl e
           | Inr lo \<Rightarrow> (case parse_uint b field of Inl e \<Rightarrow> Inl e | Inr hi \<Rightarrow> Inr (lo, hi)))
      | None \<Rightarrow> (case parse_uint range_part field of Inl e \<Rightarrow> Inl e | Inr v \<Rightarrow> Inr (v, v)))"

definition parse_item :: "string \<Rightarrow> string \<Rightarrow> nat \<Rightarrow> nat \<Rightarrow> string \<Rightarrow> cron_error + (nat \<times> nat \<times> nat)" where
  "parse_item expr field mn mx part0 =
     (let part = trim part0 in
      if part = []
      then Inl \<lparr>cron_field = field, cron_message = field @ '' field: empty item in '' @ quoted expr\<rparr>
      else case parse_step part field of
        Inl e \<Rightarrow> Inl e
      | Inr (range_part, step) \<Rightarrow>
          (case parse_range range_part field mn mx of
             Inl e \<Rightarrow> Inl e
           | Inr (lo, hi) \<Rightarrow>
               if hi < lo \<or> lo < mn \<or> mx < hi
               then Inl \<lparr>cron_field = field,
                 cron_message = field @ '' field: '' @ quoted part @ '' is out of range '' @ show_nat mn @ ''-'' @ show_nat mx\<rparr>
               else Inr (lo, hi, step)))"

partial_function (option) fill_mask :: "nat \<Rightarrow> nat \<Rightarrow> nat \<Rightarrow> field_set \<Rightarrow> field_set option" where
  "fill_mask v hi step acc =
     (if v \<le> hi then fill_mask (wrap_u32 (v + step)) hi step (acc OR push_bit v 1) else Some acc)"

declare fill_mask.simps [code]

fun parse_items :: "string \<Rightarrow> string \<Rightarrow> nat \<Rightarrow> nat \<Rightarrow> string list \<Rightarrow> field_set \<Rightarrow> (cron_error + field_set) option" where
  "parse_items expr field mn mx [] acc = Some (Inr acc)"
| "parse_items expr field mn mx (part # parts) acc =
     (case parse_item expr field mn mx part of
        Inl e \<Rightarrow> Some (Inl e)
      | Inr (lo, hi, step) \<Rightarrow>
          (case fill_mask lo hi step acc of
             None \<Rightarrow> None
           | Some acc' \<Rightarrow> parse_items expr field mn mx parts acc'))"

definition parse_field :: "string \<Rightarrow> string \<Rightarrow> nat \<Rightarrow> nat \<Rightarrow> (cron_error + field_set) option" where
  "parse_field expr field mn mx = parse_items expr field mn mx (split_char CHR '','' expr) 0"

record cron_schedule =
  cs_minute :: field_set
  cs_hour :: field_set
  cs_dom :: field_set
  cs_month :: field_set
  cs_dow :: field_set

definition fold_sunday :: "field_set \<Rightarrow> field_set" where
  "fold_sunday dow = (if contains dow 7 then (dow OR push_bit 0 1) AND NOT (push_bit 7 1) else dow)"

text \<open>\<open>CronSchedule::parse\<close>. The outer option is the loop's: None would be a parse that never
  returns.\<close>

definition cron_parse :: "string \<Rightarrow> (cron_error + cron_schedule) option" where
  "cron_parse expr =
     (let fields = split_whitespace expr in
      case fields of
        [f0, f1, f2, f3, f4] \<Rightarrow>
          (case parse_field f0 ''minute'' 0 59 of None \<Rightarrow> None | Some (Inl e) \<Rightarrow> Some (Inl e) | Some (Inr minute) \<Rightarrow>
          (case parse_field f1 ''hour'' 0 23 of None \<Rightarrow> None | Some (Inl e) \<Rightarrow> Some (Inl e) | Some (Inr hour) \<Rightarrow>
          (case parse_field f2 ''day_of_month'' 1 31 of None \<Rightarrow> None | Some (Inl e) \<Rightarrow> Some (Inl e) | Some (Inr days) \<Rightarrow>
          (case parse_field f3 ''month'' 1 12 of None \<Rightarrow> None | Some (Inl e) \<Rightarrow> Some (Inl e) | Some (Inr month) \<Rightarrow>
          (case parse_field f4 ''day_of_week'' 0 7 of None \<Rightarrow> None | Some (Inl e) \<Rightarrow> Some (Inl e) | Some (Inr dow) \<Rightarrow>
             Some (Inr \<lparr>cs_minute = minute, cs_hour = hour, cs_dom = days, cs_month = month,
                        cs_dow = fold_sunday dow\<rparr>))))))
      | _ \<Rightarrow> Some (Inl \<lparr>cron_field = ''schedule'',
          cron_message = ''schedule field: expected 5 space-separated fields (minute hour day-of-month ''
            @ ''month day-of-week), got '' @ show_nat (length fields)\<rparr>))"

section \<open>The search for the next firing time\<close>

definition next_after_horizon_secs :: int where
  "next_after_horizon_secs = 4 * 366 * 86400"

text \<open>The body of the loop, with its wrapping \<open>i64\<close> arithmetic: None is a match (the code returns), Some the next candidate.\<close>

definition cron_step :: "cron_schedule \<Rightarrow> int \<Rightarrow> int option" where
  "cron_step s candidate =
     (let days = candidate div 86400;
          secs_of_day = candidate mod 86400;
          (y, m, d) = civil_from_days days in
      if \<not> contains (cs_month s) (nat m) then
        (let (ny, nm) = (if m = 12 then (wrap_i64 (y + 1), 1) else (y, cast_u32 (m + 1)))
         in Some (wrap_i64 (days_from_civil ny nm 1 * 86400)))
      else
        (let weekday = (days + 4) mod 7 in
         if \<not> contains (cs_dom s) (nat d) \<or> \<not> contains (cs_dow s) (nat weekday)
         then Some (wrap_i64 ((days + 1) * 86400))
         else
           (let hour = secs_of_day div 3600 in
            if \<not> contains (cs_hour s) (nat hour) then Some (wrap_i64 (wrap_i64 (days * 86400) + (hour + 1) * 3600))
            else
              (let minute = (secs_of_day mod 3600) div 60 in
               if \<not> contains (cs_minute s) (nat minute) then Some (wrap_i64 (candidate + 60))
               else None))))"

text \<open>The loop. Near the end of the \<open>i64\<close> range a candidate can wrap to the past, so whether it ends is a question: None is a loop
  that never returns, \<open>Some None\<close> a search that finds nothing.\<close>

partial_function (option) cron_search :: "cron_schedule \<Rightarrow> int \<Rightarrow> int \<Rightarrow> int option option" where
  "cron_search s horizon candidate =
     (if horizon < candidate then Some None
      else case cron_step s candidate of
        None \<Rightarrow> Some (Some candidate)
      | Some candidate' \<Rightarrow> cron_search s horizon candidate')"

declare cron_search.simps [code]

definition next_after :: "cron_schedule \<Rightarrow> int \<Rightarrow> int option option" where
  "next_after s after_unix =
     cron_search s (wrap_i64 (after_unix + next_after_horizon_secs)) (wrap_i64 ((after_unix div 60 + 1) * 60))"

text \<open>The same body on unbounded integers, for the proofs.\<close>

definition cron_move :: "cron_schedule \<Rightarrow> int \<Rightarrow> int option" where
  "cron_move s candidate =
     (let days = candidate div 86400;
          secs_of_day = candidate mod 86400;
          (y, m, d) = civil_of_day days in
      if \<not> contains (cs_month s) (nat m) then
        (let (ny, nm) = (if m = 12 then (y + 1, 1) else (y, m + 1))
         in Some (day_of_civil ny nm 1 * 86400))
      else
        (let weekday = (days + 4) mod 7 in
         if \<not> contains (cs_dom s) (nat d) \<or> \<not> contains (cs_dow s) (nat weekday)
         then Some ((days + 1) * 86400)
         else
           (let hour = secs_of_day div 3600 in
            if \<not> contains (cs_hour s) (nat hour) then Some (days * 86400 + (hour + 1) * 3600)
            else
              (let minute = (secs_of_day mod 3600) div 60 in
               if \<not> contains (cs_minute s) (nat minute) then Some (candidate + 60)
               else None))))"

lemma cron_move_later:
  assumes "cron_move s c = Some c'"
  shows "c < c'"
proof -
  define days where "days = c div 86400"
  obtain y m d where civ: "civil_of_day days = (y, m, d)" by (cases "civil_of_day days") auto
  have day: "days * 86400 \<le> c" "c < (days + 1) * 86400" unfolding days_def by simp_all
  define e where "e = (case next_month y m of (ny, nm) \<Rightarrow> day_of_civil ny nm 1)"
  have "days + 1 \<le> e" using next_month_later [OF civ] by (simp add: e_def)
  then have "(days + 1) * 86400 \<le> e * 86400" by (rule mult_right_mono) simp
  with day(2) have month: "c < e * 86400" by (rule less_le_trans)
  have hour: "c < days * 86400 + ((c mod 86400) div 3600 + 1) * 3600"
  proof -
    have "c = days * 86400 + c mod 86400" by (simp add: days_def)
    moreover have "c mod 86400 < ((c mod 86400) div 3600 + 1) * 3600" by simp
    ultimately show ?thesis by linarith
  qed
  from assms civ day month hour show ?thesis
    unfolding cron_move_def days_def [symmetric]
    by (auto simp: Let_def next_month_def e_def split: if_splits)
qed

text \<open>In the range of the calendar the body does not wrap.\<close>

lemma cron_step_exact:
  assumes r: "day_range c"
  shows "cron_step s c = cron_move s c"
proof -
  define days where "days = c div 86400"
  have rd: "day_range days" using r unfolding day_range_def days_def by linarith
  obtain y m d where civ: "civil_of_day days = (y, m, d)" by (cases "civil_of_day days") auto
  note v = civil_of_day_valid [OF civ] and yr = year_of_day_range [OF rd civ]
  have m: "1 \<le> m" "m \<le> 12" and d: "1 \<le> d" "d \<le> 31" using v by (auto simp: valid_civil_def month_days_def split: if_splits)
  have near: "- 54000000000000 \<le> days" "days \<le> 54000000000000" using r unfolding day_range_def days_def by linarith+
  obtain ny nm where nx: "next_month y m = (ny, nm)" by (cases "next_month y m") auto
  have nn: "(if m = 12 then (wrap_i64 (y + 1), 1) else (y, cast_u32 (m + 1))) = (ny, nm)"
    using nx m yr by (auto simp: next_month_def wrap_near cast_u32_id)
  have nm: "1 \<le> nm" "nm \<le> 12" using nx m by (auto simp: next_month_def split: if_splits)
  have e: "day_of_civil ny nm 1 = day_of_civil y m 1 + month_days y m"
    using day_of_civil_next_month [of m y] m nx by simp
  have day: "days = day_of_civil y m 1 + (d - 1)" using day_of_civil_inv [of days] civ day_of_civil_day [of y m d] by simp
  have md: "0 \<le> month_days y m" "month_days y m \<le> 31" by (simp_all add: month_days_def)
  have eb: "- 55000000000000 \<le> day_of_civil ny nm 1" "day_of_civil ny nm 1 \<le> 55000000000000" using e day near d md by linarith+
  have dc: "days_from_civil ny nm 1 = day_of_civil ny nm 1"
  proof (rule days_from_civil_exact)
    show "- 20000000000000000 \<le> ny" "ny \<le> 20000000000000000"
      using yr nx by (auto simp: next_month_def split: if_splits)
  qed (use nm in simp_all)
  have h: "0 \<le> (c mod 86400) div 3600" "(c mod 86400) div 3600 \<le> 24" by (simp_all add: pos_imp_zdiv_nonneg_iff div_le_dividend)
  show ?thesis
    unfolding cron_step_def cron_move_def Let_def days_def [symmetric] civil_from_days_exact [OF rd] civ prod.case
      nx [unfolded next_month_def] nn dc
    using near eb h r unfolding day_range_def by (simp add: wrap_near)
qed

section \<open>The parser returns, and what the masks mean\<close>

lemma contains_iff: "contains fs v \<longleftrightarrow> bit fs v"
  using and_exp_eq_0_iff_not_bit [of fs v] by (simp add: contains_def push_bit_eq_mult)

lemma bit_or_exp [simp]: "bit (acc OR 2 ^ v) x \<longleftrightarrow> bit acc x \<or> (x = v \<and> x < 64)"
  for acc :: field_set
  by (auto simp: bit_or_iff bit_exp_iff)

text \<open>Without a wrap the loop climbs; with one, the step is so large that the next value is either
  beyond the bound or below the current one.\<close>

lemma fill_mask_returns:
  assumes "0 < step" "step \<le> u32_max" "hi < 2147483648"
  shows "\<exists>m. fill_mask v hi step acc = Some m"
proof (cases "step < 2147483648")
  case True
  show ?thesis
  proof (induction "hi + 1 - v" arbitrary: v acc rule: less_induct)
    case less
    show ?case
    proof (cases "v \<le> hi")
      case vhi: True
      with True assms have "wrap_u32 (v + step) = v + step" by (simp add: wrap_u32_def)
      with less [of "v + step"] vhi assms(1) show ?thesis by (subst fill_mask.simps) simp
    qed (subst fill_mask.simps, simp)
  qed
next
  case False
  show ?thesis
  proof (induction v arbitrary: acc rule: less_induct)
    case (less v)
    show ?case
    proof (cases "v \<le> hi")
      case vhi: True
      show ?thesis
      proof (cases "v + step < 4294967296")
        case fits: True
        with False assms have "\<not> wrap_u32 (v + step) \<le> hi" by (simp add: wrap_u32_def)
        with vhi show ?thesis by (subst fill_mask.simps, subst fill_mask.simps) simp
      next
        case wraps: False
        with vhi assms have "v + step = (v + step - 4294967296) + 4294967296"
          and lt: "v + step - 4294967296 < v" by (simp_all add: u32_max_def)
        then have "wrap_u32 (v + step) = v + step - 4294967296"
          using vhi assms unfolding wrap_u32_def by (subst \<open>v + step = _\<close>, subst mod_add_self2) simp
        with less [OF lt] vhi show ?thesis by (subst fill_mask.simps) simp
      qed
    qed (subst fill_mask.simps, simp)
  qed
qed

lemma parse_u32_le: "parse_u32 s = Some n \<Longrightarrow> n \<le> u32_max"
  by (auto simp: parse_u32_def split: option.splits if_splits)

lemma parse_uint_le: "parse_uint s f = Inr n \<Longrightarrow> n \<le> u32_max"
  by (auto simp: parse_uint_def dest: parse_u32_le split: option.splits)

lemma parse_step_bounds: "parse_step p f = Inr (r, step) \<Longrightarrow> 0 < step \<and> step \<le> u32_max"
  by (auto simp: parse_step_def u32_max_def dest!: parse_uint_le split: option.splits sum.splits if_splits)

lemma parse_item_bounds:
  "parse_item expr f mn mx p = Inr (lo, hi, step) \<Longrightarrow>
     mn \<le> lo \<and> lo \<le> hi \<and> hi \<le> mx \<and> 0 < step \<and> step \<le> u32_max"
  by (auto simp: parse_item_def Let_def dest!: parse_step_bounds split: sum.splits if_splits)

lemma parse_items_returns: "mx < 64 \<Longrightarrow> parse_items expr f mn mx ps acc \<noteq> None"
proof (induction ps arbitrary: acc)
  case (Cons p ps)
  show ?case
  proof (cases "parse_item expr f mn mx p")
    case (Inr t)
    obtain lo hi step where t: "t = (lo, hi, step)" by (cases t)
    with Inr have b: "hi \<le> mx" "0 < step" "step \<le> u32_max" by (auto dest: parse_item_bounds)
    then obtain m where "fill_mask lo hi step acc = Some m"
      using fill_mask_returns [of step hi lo acc] Cons.prems by auto
    with Inr t Cons show ?thesis by simp
  qed simp
qed simp

lemma parse_field_returns: "mx < 64 \<Longrightarrow> parse_field expr f mn mx \<noteq> None"
  by (simp add: parse_field_def parse_items_returns)

lemma fill_mask_bits:
  assumes "fill_mask v hi step acc = Some m" "0 < step" "hi + step \<le> u32_max" "hi < 64"
  shows "bit m x \<longleftrightarrow> bit acc x \<or> (v \<le> x \<and> x \<le> hi \<and> step dvd (x - v))"
  using assms(1)
proof (induction "hi + 1 - v" arbitrary: v acc rule: less_induct)
  case less
  show ?case
  proof (cases "v \<le> hi")
    case True
    have w: "wrap_u32 (v + step) = v + step" using True assms(3) by (simp add: bounds_simps)
    have "fill_mask (v + step) hi step (acc OR push_bit v 1) = Some m"
      using less.prems True w by (subst (asm) fill_mask.simps) simp
    then have "bit m x \<longleftrightarrow> bit (acc OR push_bit v 1) x \<or> (v + step \<le> x \<and> x \<le> hi \<and> step dvd (x - (v + step)))"
      using True assms(2) by (intro less.hyps) simp_all
    moreover have "step dvd (x - v) \<longleftrightarrow> step dvd (x - (v + step))" if "v + step \<le> x"
    proof -
      have "x - v = (x - (v + step)) + step" using that by simp
      then show ?thesis by (metis dvd_add_triv_right_iff)
    qed
    moreover have "x = v \<or> v + step \<le> x" if "v \<le> x" "step dvd (x - v)"
      using that dvd_imp_le [of step "x - v"] by (cases "x = v") auto
    ultimately show ?thesis using True assms(2,4) by auto
  next
    case False
    with less.prems show ?thesis by (subst (asm) fill_mask.simps) auto
  qed
qed

text \<open>What a list of items admits, when no step is so large that the addition wraps.\<close>

definition item_admits :: "string \<Rightarrow> string \<Rightarrow> nat \<Rightarrow> nat \<Rightarrow> nat \<Rightarrow> string \<Rightarrow> bool" where
  "item_admits expr f mn mx x p =
     (case parse_item expr f mn mx p of
        Inl e \<Rightarrow> False
      | Inr (lo, hi, step) \<Rightarrow> lo \<le> x \<and> x \<le> hi \<and> step dvd (x - lo))"

definition small_step :: "string \<Rightarrow> string \<Rightarrow> nat \<Rightarrow> nat \<Rightarrow> string \<Rightarrow> bool" where
  "small_step expr f mn mx p =
     (case parse_item expr f mn mx p of Inl e \<Rightarrow> True | Inr (lo, hi, step) \<Rightarrow> hi + step \<le> u32_max)"

lemma parse_items_bits:
  assumes "parse_items expr f mn mx ps acc = Some (Inr m)" "mx < 64" "list_all (small_step expr f mn mx) ps"
  shows "bit m x \<longleftrightarrow> bit acc x \<or> list_ex (item_admits expr f mn mx x) ps"
  using assms(1,3)
proof (induction ps arbitrary: acc)
  case (Cons p ps)
  from Cons.prems obtain lo hi step acc' where i: "parse_item expr f mn mx p = Inr (lo, hi, step)"
    and fm: "fill_mask lo hi step acc = Some acc'" and rest: "parse_items expr f mn mx ps acc' = Some (Inr m)"
    by (auto split: sum.splits option.splits)
  have b: "hi \<le> mx" "0 < step" using i by (auto dest: parse_item_bounds)
  have "hi + step \<le> u32_max" using Cons.prems(2) i by (simp add: small_step_def)
  with fill_mask_bits [OF fm] b assms(2) have "bit acc' x \<longleftrightarrow> bit acc x \<or> item_admits expr f mn mx x p"
    by (simp add: item_admits_def i)
  with Cons.IH [OF rest] Cons.prems(2) show ?case by auto
qed simp

section \<open>The search finds the least firing time\<close>

text \<open>What it means for a schedule to fire: the instant is a whole minute and every field of its
  UTC calendar reading is admitted.\<close>

definition fires :: "cron_schedule \<Rightarrow> int \<Rightarrow> bool" where
  "fires s t \<longleftrightarrow>
     t mod 60 = 0 \<and>
     (case civil_of_day (t div 86400) of (y, m, d) \<Rightarrow>
        contains (cs_month s) (nat m) \<and> contains (cs_dom s) (nat d)) \<and>
     contains (cs_dow s) (nat ((t div 86400 + 4) mod 7)) \<and>
     contains (cs_hour s) (nat ((t mod 86400) div 3600)) \<and>
     contains (cs_minute s) (nat ((t mod 3600) div 60))"

text \<open>A search that skips: a step either stops at its candidate or names a later one that no
  target lies before. The interface a skipping search offers its client; \<open>lim\<close> is how far its steps may be trusted.\<close>

locale skip_search =
  fixes step :: "int \<Rightarrow> int option"
    and search :: "int \<Rightarrow> int \<Rightarrow> int option option"
    and target :: "int \<Rightarrow> bool"
    and aligned :: "int \<Rightarrow> bool"
    and lim :: int
  assumes search_unfold:
      "search h c = (if h < c then Some None else case step c of None \<Rightarrow> Some (Some c) | Some c' \<Rightarrow> search h c')"
    and step_stop: "aligned c \<Longrightarrow> c \<le> lim \<Longrightarrow> step c = None \<Longrightarrow> target c"
    and step_later: "aligned c \<Longrightarrow> c \<le> lim \<Longrightarrow> step c = Some c' \<Longrightarrow> c < c'"
    and step_aligned: "aligned c \<Longrightarrow> c \<le> lim \<Longrightarrow> step c = Some c' \<Longrightarrow> aligned c'"
    and step_skips: "aligned c \<Longrightarrow> c \<le> lim \<Longrightarrow> step c = Some c' \<Longrightarrow> c \<le> u \<Longrightarrow> u < c' \<Longrightarrow> \<not> target u"
begin

text \<open>The search ends, with the least target up to the horizon or with the news that there is none.\<close>

definition least_found :: "int \<Rightarrow> int \<Rightarrow> int option \<Rightarrow> bool" where
  "least_found h c r \<longleftrightarrow>
     (case r of
        Some t \<Rightarrow> target t \<and> c \<le> t \<and> t \<le> h \<and> (\<forall>u. c \<le> u \<and> u < t \<longrightarrow> \<not> target u)
      | None \<Rightarrow> \<forall>u. c \<le> u \<and> u \<le> h \<longrightarrow> \<not> target u)"

lemma least_found_earlier: "least_found h c' r \<Longrightarrow> c < c' \<Longrightarrow> (\<And>u. c \<le> u \<Longrightarrow> u < c' \<Longrightarrow> \<not> target u) \<Longrightarrow> least_found h c r"
  unfolding least_found_def by (cases r) (force simp: not_le)+

lemma search_spec: "aligned c \<Longrightarrow> h \<le> lim \<Longrightarrow> \<exists>r. search h c = Some r \<and> least_found h c r"
proof (induction "nat (h + 1 - c)" arbitrary: c rule: less_induct)
  case less
  show ?case
  proof (cases "h < c")
    case True
    then show ?thesis by (subst search_unfold) (auto simp: least_found_def)
  next
    case False
    with less.prems have lim: "c \<le> lim" by simp
    show ?thesis
    proof (cases "step c")
      case None
      with False step_stop [OF less.prems(1) lim] show ?thesis by (subst search_unfold) (auto simp: least_found_def)
    next
      case (Some c')
      note later = step_later [OF less.prems(1) lim Some] and al = step_aligned [OF less.prems(1) lim Some]
      have "nat (h + 1 - c') < nat (h + 1 - c)" using later False by simp
      from less.hyps [OF this al less.prems(2)] obtain r where "search h c' = Some r" "least_found h c' r" by blast
      with False Some least_found_earlier [OF _ later step_skips [OF less.prems(1) lim Some]] show ?thesis
        by (subst search_unfold) auto
    qed
  qed
qed

end

lemma day_of: "d * 86400 \<le> u \<Longrightarrow> u < (d + 1) * 86400 \<Longrightarrow> u div 86400 = (d::int)"
  by (rule int_div_pos_eq [where r = "u - d * 86400"]) (simp_all add: algebra_simps)

lemma hour_of: "d * 86400 + h * 3600 \<le> u \<Longrightarrow> u < d * 86400 + (h + 1) * 3600 \<Longrightarrow> u div 86400 = d \<Longrightarrow>
    (u mod 86400) div 3600 = (h::int)"
  by (rule int_div_pos_eq [where r = "u - d * 86400 - h * 3600"])
    (simp_all add: algebra_simps minus_mult_div_eq_mod [symmetric])

lemma secs_mod_3600: "(c mod 86400) mod 3600 = c mod (3600::int)"
  by (rule mod_mod_cancel) simp

text \<open>The four kinds of skip the loop body makes.\<close>

lemma cron_move_cases:
  assumes "cron_move s c = Some c'" "civil_of_day (c div 86400) = (y, m, d)"
  obtains (month) e where "\<not> contains (cs_month s) (nat m)" "c' = e * 86400"
      "e = (case next_month y m of (ny, nm) \<Rightarrow> day_of_civil ny nm 1)"
  | (day) "\<not> (contains (cs_dom s) (nat d) \<and> contains (cs_dow s) (nat ((c div 86400 + 4) mod 7)))"
      "c' = (c div 86400 + 1) * 86400"
  | (hour) "\<not> contains (cs_hour s) (nat ((c mod 86400) div 3600))"
      "c' = c div 86400 * 86400 + ((c mod 86400) div 3600 + 1) * 3600"
  | (minute) "\<not> contains (cs_minute s) (nat ((c mod 3600) div 60))" "c' = c + 60"
  using assms unfolding cron_move_def
  by (simp add: Let_def next_month_def secs_mod_3600 split: if_splits)

lemma cron_move_None:
  assumes "cron_move s c = None" "c mod 60 = 0"
  shows "fires s c"
  using assms unfolding cron_move_def fires_def
  by (auto simp: Let_def secs_mod_3600 split: if_splits prod.splits)

lemma cron_move_aligned:
  assumes "c mod 60 = 0" "cron_move s c = Some c'"
  shows "c' mod 60 = 0"
proof -
  obtain y m d where civ: "civil_of_day (c div 86400) = (y, m, d)" by (cases "civil_of_day (c div 86400)") auto
  have *: "(a * 86400) mod 60 = 0" "(a * 86400 + b * 3600) mod 60 = 0" for a b :: int
    using mod_mult_self2_is_0 [of "a * 1440" 60] mod_mult_self2_is_0 [of "a * 1440 + b * 60" 60]
    by (simp_all add: algebra_simps)
  from assms(2) civ show ?thesis by (cases rule: cron_move_cases) (use * assms(1) in auto)
qed

lemma cron_move_skips:
  assumes "c mod 60 = 0" "cron_move s c = Some c'" "c \<le> u" "u < c'"
  shows "\<not> fires s u"
proof -
  define days where "days = c div 86400"
  obtain y m d where civ: "civil_of_day days = (y, m, d)" by (cases "civil_of_day days") auto
  have day: "days * 86400 \<le> c" "c < (days + 1) * 86400" unfolding days_def by simp_all
  from assms(2) civ [unfolded days_def] show ?thesis
  proof (cases rule: cron_move_cases)
    case (month e)
    have "days \<le> u div 86400" unfolding days_def using assms(3) by (rule zdiv_mono1) simp
    moreover have "u div 86400 < e" using assms(4) month(2) by (simp add: div_less_iff_less_mult)
    ultimately have "civil_of_day (u div 86400) = (y, m, d + (u div 86400 - days))"
      using civ month(3) by (intro civil_of_day_same_month) simp_all
    with month(1) show ?thesis by (simp add: fires_def)
  next
    case day': day
    note up = assms(4) [unfolded day'(2) days_def [symmetric]]
    have "u div 86400 = days" by (rule day_of) (use day assms(3) up in linarith)+
    with day'(1) civ show ?thesis by (auto simp: fires_def days_def)
  next
    case hour
    define h where "h = (c mod 86400) div 3600"
    define r where "r = c mod 86400"
    have c: "c = days * 86400 + r" by (simp add: days_def r_def)
    have r: "r < 86400" "h * 3600 \<le> r" by (simp_all add: r_def h_def)
    have h: "h < 24" "days * 86400 + h * 3600 \<le> c" "c' = days * 86400 + (h + 1) * 3600"
      using hour(2) [folded h_def days_def] r c by simp_all
    have "(h + 1) * 3600 \<le> 24 * 3600" by (rule mult_right_mono) (use h(1) in simp_all)
    with h(3) have "c' \<le> (days + 1) * 86400" by (simp add: algebra_simps)
    then have ud: "u div 86400 = days" using day assms(3,4) by (intro day_of) simp_all
    have "(u mod 86400) div 3600 = h" by (rule hour_of [OF _ _ ud]) (use assms(3,4) h in linarith)+
    with hour(1) show ?thesis by (simp add: fires_def h_def)
  next
    case minute
    have "u mod 60 = (u - c) mod 60" using assms(1) by (simp add: mod_diff_eq [of u 60 c, symmetric] )
    also have "\<dots> = u - c" using assms(3,4) minute(2) by simp
    finally have "u mod 60 = 0 \<Longrightarrow> u = c" by simp
    with minute(1) show ?thesis by (auto simp: fires_def)
  qed
qed

text \<open>Candidates of the search: whole minutes not before the range of the calendar.\<close>

definition cron_candidate :: "int \<Rightarrow> bool" where
  "cron_candidate c \<longleftrightarrow> c mod 60 = 0 \<and> - 4611686018427387904 \<le> c"

interpretation cron: skip_search "cron_step s" "cron_search s" "fires s" cron_candidate 4611686018427387904 for s
proof unfold_locales
  have x: "cron_step s c = cron_move s c" if "cron_candidate c" "c \<le> 4611686018427387904" for c
    by (rule cron_step_exact) (use that in \<open>simp add: cron_candidate_def day_range_def\<close>)
  have al: "c mod 60 = 0" if "cron_candidate c" for c using that by (simp add: cron_candidate_def)
  show "cron_search s h c = (if h < c then Some None else case cron_step s c of None \<Rightarrow> Some (Some c) | Some c' \<Rightarrow> cron_search s h c')"
    for h c by (rule cron_search.simps)
  show "fires s c" if "cron_candidate c" "c \<le> 4611686018427387904" "cron_step s c = None" for c
    using that x [of c] by (simp add: cron_move_None [OF _ al])
  show later: "c < c'" if "cron_candidate c" "c \<le> 4611686018427387904" "cron_step s c = Some c'" for c c'
    using that x [of c] by (simp add: cron_move_later)
  show "cron_candidate c'" if "cron_candidate c" "c \<le> 4611686018427387904" "cron_step s c = Some c'" for c c'
    using that x [of c] later [OF that] cron_move_aligned [OF al [OF that(1)], of s c'] by (simp add: cron_candidate_def)
  show "\<not> fires s u" if "cron_candidate c" "c \<le> 4611686018427387904" "cron_step s c = Some c'" "c \<le> u" "u < c'" for c c' u
    using that x [of c] by (intro cron_move_skips [OF al, of c s c']) simp_all
qed

lemma no_firing_before_candidate:
  assumes "a < u" "u < (a div 60 + 1) * 60"
  shows "\<not> fires s u"
proof
  assume "fires s u"
  then have u: "u mod 60 = 0" by (simp add: fires_def)
  define k n where "k = a div 60" and "n = u div 60"
  have "k * 60 \<le> a" by (simp add: k_def)
  moreover have "u = n * 60" using u by (simp add: mod_0_imp_dvd n_def)
  ultimately have "k * 60 < n * 60" "n * 60 < (k + 1) * 60" using assms by (simp_all add: k_def)
  then show False by simp
qed

text \<open>The instants the search is trusted for: its horizon stays in the range of the calendar.\<close>

definition clock_range :: "int \<Rightarrow> bool" where
  "clock_range t \<longleftrightarrow> - 4611686018427387904 \<le> t \<and> t \<le> 4611686018427387904 - next_after_horizon_secs"

text \<open>The first candidate is the next whole minute, and no schedule fires before it.\<close>

lemma next_after_spec:
  assumes "clock_range a"
  shows "\<exists>r. next_after s a = Some r \<and>
    (case r of
       Some t \<Rightarrow> fires s t \<and> a < t \<and> t \<le> a + next_after_horizon_secs \<and> (\<forall>u. a < u \<and> u < t \<longrightarrow> \<not> fires s u)
     | None \<Rightarrow> \<forall>u. a < u \<and> u \<le> a + next_after_horizon_secs \<longrightarrow> \<not> fires s u)"
proof -
  define c0 h where "c0 = (a div 60 + 1) * 60" and "h = a + next_after_horizon_secs"
  have r: "- 4611686018427387904 \<le> a" "a < c0" "c0 \<le> a + 60" "h \<le> 4611686018427387904"
    using assms by (simp_all add: clock_range_def c0_def h_def)
  have "wrap_i64 h = h" "wrap_i64 c0 = c0"
    using r by (simp_all add: wrap_near h_def next_after_horizon_secs_def)
  then have eq: "next_after s a = cron_search s h c0" by (simp add: next_after_def c0_def h_def)
  have "cron_candidate c0" using r by (simp add: cron_candidate_def c0_def)
  from cron.search_spec [OF this r(4), of s] obtain x where x: "cron_search s h c0 = Some x" "cron.least_found s h c0 x" by blast
  have early: "\<not> fires s u" if "a < u" "u < c0" for u
    using no_firing_before_candidate that unfolding c0_def by blast
  have "cron.least_found s h (a + 1) x" if "a + 1 < c0"
    by (rule cron.least_found_earlier [OF x(2) that]) (use early in simp)
  then have "cron.least_found s h (a + 1) x" using x(2) r(2) by (cases "a + 1 = c0") auto
  then show ?thesis using x(1) eq by (cases x) (auto simp: cron.least_found_def h_def)
qed

section \<open>Particular schedules\<close>

lemmas str_eval = trim_def trim_start_def trim_end_def is_whitespace_def scalar_def split_char_def
  split_whitespace_def parse_u32_def parse_digits_def digits_value_def digit_value_def
  is_ascii_digit_def u32_max_def

lemmas cron_eval = str_eval parse_item_def parse_step_def parse_range_def parse_uint_def
  parse_field_def cron_parse_def fill_mask.simps wrap_u32_def

lemma calendar_ranges:
  assumes "civil_of_day z = (y, m, d)"
  shows "0 < m" "m \<le> 12" "0 < d" "d \<le> 31"
  using civil_of_day_valid [OF assms] by (auto simp: valid_civil_def month_days_def split: if_splits)

text \<open>A schedule that admits every value of every field fires at the next whole minute.\<close>

definition admits_all :: "cron_schedule \<Rightarrow> bool" where
  "admits_all s \<longleftrightarrow>
     (\<forall>v < 60. contains (cs_minute s) v) \<and> (\<forall>v < 24. contains (cs_hour s) v) \<and>
     (\<forall>v < 7. contains (cs_dow s) v) \<and> (\<forall>v \<in> {1..31}. contains (cs_dom s) v) \<and>
     (\<forall>v \<in> {1..12}. contains (cs_month s) v)"

lemma cron_move_admits_all: "admits_all s \<Longrightarrow> cron_move s c = None"
proof -
  assume s: "admits_all s"
  obtain y m d where civ: "civil_of_day (c div 86400) = (y, m, d)" by (cases "civil_of_day (c div 86400)") auto
  note r = calendar_ranges [OF civ]
  define r where "r = c mod 86400"
  have rb: "0 \<le> r" "r < 86400" by (simp_all add: r_def)
  then have "r div 3600 < 24" "0 \<le> r div 3600" by (simp_all add: div_less_iff_less_mult pos_imp_zdiv_nonneg_iff)
  moreover have "(r mod 3600) div 60 < 60" "0 \<le> (r mod 3600) div 60"
    by (simp_all add: div_less_iff_less_mult pos_imp_zdiv_nonneg_iff)
  moreover have "contains (cs_month s) (nat m)" "contains (cs_dom s) (nat d)"
    using s r unfolding admits_all_def by (simp_all add: nat_le_iff)
  ultimately show ?thesis
    using s civ by (simp add: cron_move_def Let_def admits_all_def r_def [symmetric])
qed

lemma next_after_admits_all: "admits_all s \<Longrightarrow> clock_range a \<Longrightarrow> next_after s a = Some (Some ((a div 60 + 1) * 60))"
proof -
  assume s: "admits_all s" and a: "clock_range a"
  define c0 where "c0 = (a div 60 + 1) * 60"
  have c0: "a < c0" "c0 \<le> a + 60" by (simp_all add: c0_def)
  have "cron_step s c0 = None"
    using cron_step_exact [of c0 s] cron_move_admits_all [OF s] a c0 by (simp add: clock_range_def day_range_def next_after_horizon_secs_def)
  moreover have "wrap_i64 c0 = c0" "wrap_i64 (a + next_after_horizon_secs) = a + next_after_horizon_secs"
    using a c0 by (simp_all add: wrap_near clock_range_def next_after_horizon_secs_def)
  ultimately show ?thesis
    unfolding next_after_def c0_def [symmetric] using c0 by (subst cron_search.simps) (simp add: next_after_horizon_secs_def)
qed

text \<open>A step of \<open>u32::MAX\<close> walks down by one each time the addition wraps.\<close>

lemma fill_mask_wraps:
  assumes "hi < 64"
  shows "v \<le> hi \<Longrightarrow> \<exists>m. fill_mask v hi u32_max acc = Some m \<and> (\<forall>x. bit m x \<longleftrightarrow> bit acc x \<or> x \<le> v)"
proof (induction v arbitrary: acc)
  case 0
  have "\<not> wrap_u32 (0 + u32_max) \<le> hi" using assms by (simp add: wrap_u32_def u32_max_def)
  then have "fill_mask 0 hi u32_max acc = Some (acc OR 2 ^ 0)"
    by (subst fill_mask.simps, subst fill_mask.simps) simp
  moreover have "bit (acc OR 2 ^ 0) x \<longleftrightarrow> bit acc x \<or> x \<le> 0" for x by (subst bit_or_exp) auto
  ultimately show ?case by blast
next
  case (Suc v)
  have "wrap_u32 (Suc v + u32_max) = v" using assms Suc.prems by (simp add: wrap_u32_def u32_max_def)
  then have eq: "fill_mask (Suc v) hi u32_max acc = fill_mask v hi u32_max (acc OR 2 ^ Suc v)"
    using Suc.prems by (subst fill_mask.simps) (simp del: power_Suc)
  obtain m where m: "fill_mask v hi u32_max (acc OR 2 ^ Suc v) = Some m"
    "\<forall>x. bit m x \<longleftrightarrow> bit (acc OR 2 ^ Suc v) x \<or> x \<le> v" using Suc by (metis Suc_leD)
  have "Suc v < 64" using assms Suc.prems by simp
  then have "bit m x \<longleftrightarrow> bit acc x \<or> x \<le> Suc v" for x
    unfolding m(2) [rule_format] bit_or_exp le_Suc_eq by blast
  with eq m(1) show ?case by metis
qed

lemma parse_star:
  assumes "mn \<le> mx" "mx < 64"
  obtains m where "parse_field ''*'' f mn mx = Some (Inr m)" "\<forall>x. bit m x \<longleftrightarrow> mn \<le> x \<and> x \<le> mx"
proof -
  have item: "parse_item ''*'' f mn mx ''*'' = Inr (mn, mx, 1)"
    using assms by (simp add: str_eval parse_item_def parse_step_def parse_range_def)
  obtain m where m: "fill_mask mn mx 1 0 = Some m"
    using fill_mask_returns [of 1 mx mn 0] assms by (auto simp: u32_max_def)
  have "parse_field ''*'' f mn mx = Some (Inr m)" using item m by (simp add: parse_field_def split_char_def)
  moreover have "bit m x \<longleftrightarrow> mn \<le> x \<and> x \<le> mx" for x
    using fill_mask_bits [OF m, of x] assms by (simp add: u32_max_def)
  ultimately show thesis using that by blast
qed

lemma parse_wrapping_minute:
  obtains m where "parse_field ''59/4294967295'' ''minute'' 0 59 = Some (Inr m)" "\<forall>x. bit m x \<longleftrightarrow> x \<le> 59"
proof -
  obtain m where m: "fill_mask 59 59 u32_max 0 = Some m" "\<forall>x. bit m x \<longleftrightarrow> bit (0::field_set) x \<or> x \<le> 59"
    using fill_mask_wraps [of 59 59 0] by auto
  have "parse_item ''59/4294967295'' ''minute'' 0 59 ''59/4294967295'' = Inr (59, 59, u32_max)"
    by (simp add: str_eval parse_item_def parse_step_def parse_range_def parse_uint_def)
  with m(1) have "parse_field ''59/4294967295'' ''minute'' 0 59 = Some (Inr m)"
    by (simp add: parse_field_def split_char_def)
  with m(2) show thesis by (intro that) simp_all
qed

lemma one_bit: "contains (push_bit n 1) v \<longleftrightarrow> v = n \<and> n < 64"
  unfolding contains_iff bit_push_bit_iff bit_1_iff by auto

lemma bit_clear: "bit (x AND NOT (push_bit n 1)) v \<longleftrightarrow> bit x v \<and> v \<noteq> n" for x :: field_set
  unfolding bit_and_iff bit_not_iff bit_push_bit_iff bit_1_iff by (auto dest: bit_imp_le_length)

lemma fold_sunday_bits:
  "contains (fold_sunday w) v \<longleftrightarrow> (if v = 0 then contains w 0 \<or> contains w 7 else v \<noteq> 7 \<and> contains w v)"
  unfolding fold_sunday_def contains_iff if_distrib [where f = "\<lambda>f. bit f v"] bit_clear
  by (auto simp: bit_or_iff bit_1_iff)

text \<open>A schedule with \<open>*\<close> in the last four fields and every minute in the first admits everything.\<close>

lemma stars_admit_all:
  assumes "parse_field f0 ''minute'' 0 59 = Some (Inr mi)" "\<forall>x. bit mi x \<longleftrightarrow> x \<le> 59"
    and "split_whitespace expr = [f0, ''*'', ''*'', ''*'', ''*'']"
  obtains s where "cron_parse expr = Some (Inr s)" "admits_all s"
proof -
  obtain h where h: "parse_field ''*'' ''hour'' 0 23 = Some (Inr h)" "\<forall>x. bit h x \<longleftrightarrow> 0 \<le> x \<and> x \<le> 23"
    by (rule parse_star [of 0 23 "''hour''"]) simp_all
  obtain d where d: "parse_field ''*'' ''day_of_month'' 1 31 = Some (Inr d)" "\<forall>x. bit d x \<longleftrightarrow> 1 \<le> x \<and> x \<le> 31"
    by (rule parse_star [of 1 31 "''day_of_month''"]) simp_all
  obtain m where m: "parse_field ''*'' ''month'' 1 12 = Some (Inr m)" "\<forall>x. bit m x \<longleftrightarrow> 1 \<le> x \<and> x \<le> 12"
    by (rule parse_star [of 1 12 "''month''"]) simp_all
  obtain w where w: "parse_field ''*'' ''day_of_week'' 0 7 = Some (Inr w)" "\<forall>x. bit w x \<longleftrightarrow> 0 \<le> x \<and> x \<le> 7"
    by (rule parse_star [of 0 7 "''day_of_week''"]) simp_all
  let ?s = "\<lparr>cs_minute = mi, cs_hour = h, cs_dom = d, cs_month = m, cs_dow = fold_sunday w\<rparr>"
  have "cron_parse expr = Some (Inr ?s)" using assms h(1) d(1) m(1) w(1) by (simp add: cron_parse_def)
  moreover have "admits_all ?s"
    using assms(2) h(2) d(2) m(2) w(2) by (simp add: admits_all_def fold_sunday_bits) (simp add: contains_iff)
  ultimately show thesis by (rule that)
qed

text \<open>A schedule whose months are all February and whose days are all the 30th has no firing.\<close>

lemma never_february_30:
  assumes "\<forall>v. contains (cs_month s) v \<longrightarrow> v = 2" "\<forall>v. contains (cs_dom s) v \<longrightarrow> v = 30"
  shows "\<not> fires s t"
proof
  assume "fires s t"
  then obtain y m d where civ: "civil_of_day (t div 86400) = (y, m, d)"
    and "contains (cs_month s) (nat m)" "contains (cs_dom s) (nat d)" by (auto simp: fires_def)
  with assms have "m = 2" "d = 30" by fastforce+
  with civil_of_day_valid [OF civ] show False by (simp add: valid_civil_def month_days_def split: if_splits)
qed

section \<open>Properties\<close>

text \<open>C12. \<open>next_after\<close> returns, correct and complete, for every instant from \<open>- 2^62\<close> to \<open>2^62\<close> less the horizon (146 billion years
  each way; beyond, the \<open>i64\<close> sums may wrap): when it returns a time, that time is strictly after the given one, within the horizon, the
  schedule fires then, and at no time in between; when it returns nothing, the schedule does not fire at all up to the horizon. The skips
  over whole months, days and hours therefore never miss a firing.\<close>

theorem next_after_correct:
  assumes "clock_range a"
  shows "\<exists>r. next_after s a = Some r \<and>
    (case r of
       Some t \<Rightarrow> fires s t \<and> a < t \<and> t \<le> a + next_after_horizon_secs \<and> (\<forall>u. a < u \<and> u < t \<longrightarrow> \<not> fires s u)
     | None \<Rightarrow> \<forall>u. a < u \<and> u \<le> a + next_after_horizon_secs \<longrightarrow> \<not> fires s u)"
  by (rule next_after_spec [OF assms])

theorem next_after_correct_witness:
  "next_after \<lparr>cs_minute = 1, cs_hour = 1, cs_dom = push_bit 30 1, cs_month = push_bit 2 1, cs_dow = 127\<rparr> 0 = Some None"
proof -
  let ?s = "\<lparr>cs_minute = 1, cs_hour = 1, cs_dom = push_bit 30 1, cs_month = push_bit 2 1, cs_dow = 127\<rparr>"
  have none: "\<not> fires ?s t" for t
    by (rule never_february_30) (unfold cron_schedule.select_convs one_bit, simp_all)
  have "clock_range 0" by (simp add: clock_range_def next_after_horizon_secs_def)
  from next_after_correct [OF this, of ?s] obtain r where "next_after ?s 0 = Some r" "r = None"
    using none by (auto split: option.splits)
  then show ?thesis by simp
qed

text \<open>Parsing a schedule always returns: the \<open>u32\<close> loop that fills a field's mask ends for
  every step the parser lets through, even where the addition wraps.\<close>

theorem cron_parse_returns: "cron_parse expr \<noteq> None"
proof (cases "\<exists>f0 f1 f2 f3 f4. split_whitespace expr = [f0, f1, f2, f3, f4]")
  case True
  then obtain f0 f1 f2 f3 f4 where f: "split_whitespace expr = [f0, f1, f2, f3, f4]" by blast
  have *: "\<exists>r. parse_field e f mn mx = Some r" if "mx < 64" for e f mn mx
    using parse_field_returns [OF that] by auto
  obtain r0 r1 r2 r3 r4 where "parse_field f0 ''minute'' 0 59 = Some r0" "parse_field f1 ''hour'' 0 23 = Some r1"
    "parse_field f2 ''day_of_month'' 1 31 = Some r2" "parse_field f3 ''month'' 1 12 = Some r3"
    "parse_field f4 ''day_of_week'' 0 7 = Some r4"
    using * [of 59] * [of 23] * [of 31] * [of 12] * [of 7] by fastforce
  with f show ?thesis by (simp add: cron_parse_def split: sum.split)
next
  case False
  then show ?thesis by (auto simp: cron_parse_def Let_def split: list.split)
qed

text \<open>A parsed field admits exactly the values its comma-separated items name: a value is in the
  mask when some item \<open>lo-hi/step\<close> has it between its bounds at a multiple of its step from the
  lower one. The hypothesis keeps the steps small enough that the \<open>u32\<close> addition does not wrap.\<close>

theorem parse_field_meaning:
  assumes "parse_field expr f mn mx = Some (Inr m)" "mx < 64"
    and "list_all (small_step expr f mn mx) (split_char CHR '','' expr)"
  shows "contains m x \<longleftrightarrow> list_ex (item_admits expr f mn mx x) (split_char CHR '','' expr)"
  using parse_items_bits [OF assms(1) [unfolded parse_field_def] assms(2,3), of x] by (simp add: contains_iff)

theorem parse_field_meaning_witness:
  "contains 42 3 \<and> \<not> contains 42 4"
proof -
  have p: "parse_field ''1-5/2,3'' ''minute'' 0 59 = Some (Inr 42)" by (simp add: cron_eval)
  have s: "list_all (small_step ''1-5/2,3'' ''minute'' 0 59) (split_char CHR '','' ''1-5/2,3'')"
    by (simp add: cron_eval small_step_def)
  have "list_ex (item_admits ''1-5/2,3'' ''minute'' 0 59 3) (split_char CHR '','' ''1-5/2,3'')"
    "\<not> list_ex (item_admits ''1-5/2,3'' ''minute'' 0 59 4) (split_char CHR '','' ''1-5/2,3'')"
    by (simp_all add: cron_eval item_admits_def)
  with parse_field_meaning [OF p _ s, of 3] parse_field_meaning [OF p _ s, of 4] show ?thesis by simp
qed

text \<open>A step near \<open>u32::MAX\<close> wraps the loop's counter below its lower bound: a minute field that
  names minute 59 once an hour parses, and the schedule fires every minute.\<close>

theorem cron_step_overflow:
  "\<exists>s. cron_parse ''59/4294967295 * * * *'' = Some (Inr s) \<and> (\<forall>a. clock_range a \<longrightarrow> next_after s a = Some (Some ((a div 60 + 1) * 60)))"
proof -
  obtain m where m: "parse_field ''59/4294967295'' ''minute'' 0 59 = Some (Inr m)" "\<forall>x. bit m x \<longleftrightarrow> x \<le> 59"
    by (rule parse_wrapping_minute)
  have "split_whitespace ''59/4294967295 * * * *'' = [''59/4294967295'', ''*'', ''*'', ''*'', ''*'']"
    by (simp add: str_eval)
  with m obtain s where "cron_parse ''59/4294967295 * * * *'' = Some (Inr s)" "admits_all s"
    by (rule stars_admit_all)
  then show ?thesis using next_after_admits_all by blast
qed

end
