(* ===== verification/Json.thy ===== *)
theory Json
  imports Prelude "HOL-Library.AList"
begin

text \<open>
  Objects, maps and text helpers every handler uses. \<open>serde_json::Map\<close> is a \<open>BTreeMap\<close>, so an
  object's entries stay sorted by key: \<open>obj_insert\<close> is \<open>Map::insert\<close>, \<open>obj_entry_or\<close> is
  \<open>entry(k).or_insert(v)\<close> and \<open>mk_obj\<close> is the object a \<open>json!\<close> literal builds. A \<open>HashMap\<close> is an
  association list with distinct keys (\<open>AList.update\<close> and \<open>AList.delete\<close>): its order is one
  iteration order the code may see, and the lemmas below speak of its lookups and its length.
\<close>

section \<open>Objects\<close>

fun obj_insert :: "'k::linorder \<Rightarrow> 'v \<Rightarrow> ('k \<times> 'v) list \<Rightarrow> ('k \<times> 'v) list" where
  "obj_insert k v [] = [(k, v)]"
| "obj_insert k v ((k', v') # m) =
     (if k < k' then (k, v) # (k', v') # m
      else if k = k' then (k, v) # m
      else (k', v') # obj_insert k v m)"

definition obj_entry_or :: "'k::linorder \<Rightarrow> 'v \<Rightarrow> ('k \<times> 'v) list \<Rightarrow> ('k \<times> 'v) list" where
  "obj_entry_or k v m = (if map_of m k = None then obj_insert k v m else m)"

definition mk_obj :: "(string \<times> json) list \<Rightarrow> json" where
  "mk_obj kvs = JObj (fold (\<lambda>(k, v). obj_insert k v) kvs [])"

definition opt_json :: "('a \<Rightarrow> json) \<Rightarrow> 'a option \<Rightarrow> json" where
  "opt_json f x = (case x of None \<Rightarrow> JNull | Some y \<Rightarrow> f y)"

definition JStrs :: "string list \<Rightarrow> json" where
  "JStrs xs = JArr (map JStr xs)"

fun as_u64 :: "json \<Rightarrow> nat option" where
  "as_u64 (JInt i) = (if 0 \<le> i \<and> i \<le> int u64_max then Some (nat i) else None)"
| "as_u64 _ = None"

fun as_f64 :: "json \<Rightarrow> rat option" where
  "as_f64 (JInt i) = Some (of_int i)"
| "as_f64 (JFloat r) = Some r"
| "as_f64 _ = None"

fun is_object :: "json \<Rightarrow> bool" where
  "is_object (JObj _) = True"
| "is_object _ = False"

text \<open>The entries of a well-formed object.\<close>

definition obj_ok :: "('k::linorder \<times> 'v) list \<Rightarrow> bool" where
  "obj_ok m \<longleftrightarrow> sorted_wrt (<) (map fst m)"

lemma map_of_obj_insert [simp]: "map_of (obj_insert k v m) = (map_of m)(k \<mapsto> v)"
proof (induction m)
  case (Cons p m)
  then show ?case by (cases p) (auto simp: fun_eq_iff)
qed simp

lemma dom_obj_insert: "fst ` set (obj_insert k v m) = insert k (fst ` set m)"
  by (induction k v m rule: obj_insert.induct) auto

lemma obj_ok_insert [intro]: "obj_ok m \<Longrightarrow> obj_ok (obj_insert k v m)"
proof (induction k v m rule: obj_insert.induct)
  case (2 k v k' v' m)
  have "\<not> k < k' \<Longrightarrow> k \<noteq> k' \<Longrightarrow> k' < k" by (simp add: not_less order_less_le)
  moreover have "\<forall>x \<in> fst ` set m. k' < x" "obj_ok m" using 2(2) by (auto simp: obj_ok_def)
  ultimately have "\<not> k < k' \<Longrightarrow> k \<noteq> k' \<Longrightarrow> \<forall>x \<in> fst ` set (obj_insert k v m). k' < x"
    by (simp add: dom_obj_insert)
  with 2 \<open>obj_ok m\<close> show ?case by (auto simp: obj_ok_def)
qed (simp add: obj_ok_def)

lemma obj_ok_distinct: "obj_ok m \<Longrightarrow> distinct (map fst m)"
  unfolding obj_ok_def by (induction m) auto

lemma obj_insert_last: "\<forall>x \<in> fst ` set m. x < k \<Longrightarrow> obj_insert k v m = m @ [(k, v)]"
  by (induction k v m rule: obj_insert.induct) auto

lemma obj_ok_filter: "obj_ok m \<Longrightarrow> obj_ok (filter P m)"
  unfolding obj_ok_def by (induction m) auto

lemma obj_ok_entry [intro]: "obj_ok m \<Longrightarrow> obj_ok (obj_entry_or k v m)"
  by (auto simp: obj_entry_or_def)

lemma obj_ok_fold [intro]: "obj_ok m \<Longrightarrow> obj_ok (fold (\<lambda>(k, v). obj_insert k v) kvs m)"
  by (induction kvs arbitrary: m) (auto split: prod.splits)

lemma map_of_obj_entry [simp]:
  "map_of (obj_entry_or k v m) k' = (if k' = k \<and> map_of m k = None then Some v else map_of m k')"
  by (auto simp: obj_entry_or_def)

lemma map_of_fold_insert:
  "map_of (fold (\<lambda>(k, v). obj_insert k v) kvs m) = map_of m ++ map_of (rev kvs)"
  by (induction kvs arbitrary: m) (auto split: prod.splits option.splits simp: fun_eq_iff map_add_def)

lemma json_get_mk_obj: "json_get k (mk_obj kvs) = map_of (rev kvs) k"
  by (simp add: mk_obj_def map_of_fold_insert)

lemma json_get_mk_obj_eval [simp]:
  "json_get k (mk_obj []) = None"
  "distinct (map fst ((k', v) # kvs)) \<Longrightarrow>
     json_get k (mk_obj ((k', v) # kvs)) = (if k = k' then Some v else json_get k (mk_obj kvs))"
proof -
  have "k' \<notin> fst ` set kvs \<Longrightarrow> map_of (rev kvs) k' = None" by (simp add: map_of_eq_None_iff)
  then show "distinct (map fst ((k', v) # kvs)) \<Longrightarrow>
     json_get k (mk_obj ((k', v) # kvs)) = (if k = k' then Some v else json_get k (mk_obj kvs))"
    by (auto simp: json_get_mk_obj map_add_def split: option.splits)
qed (simp add: json_get_mk_obj)

lemma is_object_mk_obj [simp]: "is_object (mk_obj kvs)"
  by (simp add: mk_obj_def)

section \<open>Hash maps\<close>

lemma length_update:
  "distinct (map fst m) \<Longrightarrow>
     length (AList.update k v m) = (if k \<in> fst ` set m then length m else Suc (length m))"
  by (induction m) auto

lemma length_update_le: "length (AList.update k v m) \<le> Suc (length m)"
  by (induction m) auto

lemma map_of_update [simp]: "map_of (AList.update k v m) = (map_of m)(k \<mapsto> v)"
  by (rule update_conv')

lemma map_of_delete [simp]: "map_of (AList.delete k m) = (map_of m)(k := None)"
  by (rule delete_conv')

lemma length_delete_less: "k \<in> fst ` set m \<Longrightarrow> length (AList.delete k m) < length m"
proof (induction m)
  case (Cons p m)
  have "length (AList.delete k m) \<le> length m" by (rule length_delete_le)
  with Cons show ?case by (cases "fst p = k") (simp_all add: less_Suc_eq_le Suc_le_eq)
qed simp

lemma length_delete_distinct:
  "distinct (map fst m) \<Longrightarrow> k \<in> fst ` set m \<Longrightarrow> length (AList.delete k m) = length m - 1"
proof (induction m)
  case (Cons p m)
  then show ?case
  proof (cases "fst p = k")
    case True
    with Cons.prems have "k \<notin> fst ` set m" by auto
    then have "AList.delete k m = m" by (induction m) auto
    with True show ?thesis by simp
  next
    case False
    with Cons.prems have "k \<in> fst ` set m" by auto
    with Cons False show ?thesis by (cases m) auto
  qed
qed simp

lemma map_of_filter_distinct:
  "distinct (map fst m) \<Longrightarrow>
     map_of (filter (\<lambda>(k, v). P k v) m) k = (case map_of m k of Some v \<Rightarrow> if P k v then Some v else None | None \<Rightarrow> None)"
  by (induction m) (auto split: option.splits dest: map_of_SomeD intro: rev_image_eqI)

lemma distinct_filter_keys: "distinct (map fst m) \<Longrightarrow> distinct (map fst (filter P m))"
  by (induction m) auto

lemma find_hit: "find P xs = Some x \<Longrightarrow> x \<in> set xs \<and> P x"
  by (induction xs) (auto split: if_splits)

section \<open>Text\<close>

text \<open>\<open>{:?}\<close> of a string and of a slice of strings (the escapes of a double quote and a backslash;
  the names printed this way hold no control characters).\<close>

definition debug_str :: "string \<Rightarrow> string" where
  "debug_str s =
     [CHR 0x22] @ concat (map (\<lambda>c. if c = CHR 0x22 \<or> c = CHR 0x5C then [CHR 0x5C, c] else [c]) s)
       @ [CHR 0x22]"

definition debug_strs :: "string list \<Rightarrow> string" where
  "debug_strs xs = ''['' @ join '', '' (map debug_str xs) @ '']''"

text \<open>\<open>split_once\<close> on a string pattern.\<close>

fun split_once_str :: "string \<Rightarrow> string \<Rightarrow> (string \<times> string) option" where
  "split_once_str p s =
     (if starts_with s p then Some ([], drop (length p) s)
      else case s of [] \<Rightarrow> None
           | c # cs \<Rightarrow> map_option (\<lambda>(a, b). (c # a, b)) (split_once_str p cs))"

declare split_once_str.simps [simp del]

lemma split_once_str_sound: "split_once_str p s = Some (a, b) \<Longrightarrow> s = a @ p @ b"
proof (induction p s arbitrary: a rule: split_once_str.induct)
  case (1 p s)
  show ?case
  proof (cases "starts_with s p")
    case True
    then obtain r where "s = p @ r" by (auto simp: starts_with_iff)
    moreover have "split_once_str p s = Some ([], drop (length p) s)"
      using True by (simp add: split_once_str.simps[of p s])
    ultimately show ?thesis using 1(2) by simp
  next
    case False
    with 1(2) obtain c cs a' where *: "s = c # cs" "split_once_str p cs = Some (a', b)" "a = c # a'"
      by (auto simp: split_once_str.simps[of p s] split: list.splits)
    with 1(1)[OF False *(1) *(2)] show ?thesis by simp
  qed
qed

definition str_contains :: "char \<Rightarrow> string \<Rightarrow> bool" where
  "str_contains c s \<longleftrightarrow> c \<in> set s"

end
