(* ===== verification/ErrorType.thy ===== *)
theory ErrorType
  imports Json
begin

text \<open>
  The error taxonomy of \<open>errors.rs\<close>. \<open>app_error\<close> is the enum \<open>AppError\<close> with the source's variants
  (a variant with named fields takes them in declaration order), \<open>reason\<close> the enum \<open>Reason\<close> of a
  keyless refusal, \<open>display\<close> the \<open>thiserror\<close> messages, and \<open>code\<close> and \<open>jsonrpc_code\<close> the two
  classifications of a wire error.
\<close>

section \<open>Why a keyless call was refused\<close>

datatype reason = Anonymous | ConnectionBound string | PeerRecent

fun reason_wire :: "reason \<Rightarrow> string" where
  "reason_wire Anonymous = ''missing_key''"
| "reason_wire (ConnectionBound _) = ''connection_bound''"
| "reason_wire PeerRecent = ''peer_recent''"

definition reason_all_wire :: "string list" where
  "reason_all_wire = [''missing_key'', ''connection_bound'', ''peer_recent'']"

definition anonymous_message :: string where
  "anonymous_message = ''tenant_key is required: pass the key that signup returned as the tenant_key argument''"

definition peer_recent_message :: string where
  "peer_recent_message = ''no tenant for this call: a key was redeemed from your address in the last 10 minutes and this request presented no session of its own; send initialize first, or call your tenant URL''"

definition connection_bound_message :: string where
  "connection_bound_message = ''no tenant for this call: this session already belongs to a tenant; keep calling on the same session or call its tenant URL''"

fun reason_message :: "reason \<Rightarrow> string" where
  "reason_message Anonymous = anonymous_message"
| "reason_message (ConnectionBound _) = connection_bound_message"
| "reason_message PeerRecent = peer_recent_message"

definition reason_from_wire :: "string option \<Rightarrow> string option \<Rightarrow> reason" where
  "reason_from_wire r tenant =
     (if r = Some ''connection_bound'' then ConnectionBound (case tenant of None \<Rightarrow> [] | Some t \<Rightarrow> t)
      else if r = Some ''peer_recent'' then PeerRecent
      else Anonymous)"

definition peer_recent_hint :: string where
  "peer_recent_hint = ''a key was redeemed from your address in the last 10 minutes and this request presented no session of its own; send initialize first (a session of your own gets its own tenant on its first host.* call) or, if that tenant is yours, call its tenant URL: https://mcphost.dev/t/<namespace>/mcp''"

definition get_a_key_text :: string where
  "get_a_key_text = ''call signup for your own key (host.quickstart explains the flow)''"

definition connection_hint :: "string \<Rightarrow> string" where
  "connection_hint namespace =
     ''this connection authenticated as '' @ namespace
       @ ''; keep calling on the same session (send its Mcp-Session-Id) or call its tenant URL: https://mcphost.dev/t/''
       @ namespace @ ''/mcp''"

definition implicit_tenant_hint_window_s :: int where
  "implicit_tenant_hint_window_s = 600"

definition implicit_tenant_hint :: "int \<Rightarrow> string" where
  "implicit_tenant_hint created_unix =
     ''this connection is a new tenant made by implicit sign-up at '' @ show_int created_unix
       @ ''; if you published this tool under another tenant, pass that tenant's tenant_key (or Authorization: Bearer) on this call''"

section \<open>The error type\<close>

datatype app_error =
    Unauthorized
  | TenantKeyMissing reason
  | TenantKeyInvalid
  | Forbidden
  | TenantDisabled "string option" "string option"
  | RateLimited
  | ToolNotFound string
  | ToolNotFoundOnImplicitTenant string string int
  | TenantNotFound string
  | InvalidParams string
  | UnknownKind string "string list" "string list"
  | InvalidToolName string
  | SpecTooLarge nat
  | TooManyTools nat
  | InvalidSpec string
  | InvalidArgs string
  | SecretMissing string
  | Structured string string json
  | MultiInvalid string "app_error list"
  | CallTimeout nat
  | Storage string
  | Internal string
  | RegistryDisabled
  | NamespaceUnverified
  | RegistryRejected string
  | ShareQuotaExceeded int int
  | GroupNotFound string
  | HandoffTokenInvalid
  | HandoffTokenRedeemed
  | HandoffTokenExpired
  | VersionNotFound int int int
  | IssuerAlreadyRegistered
  | IssuerQuotaExceeded int int
  | IssuerNotFound string
  | InvalidToken string
  | ConflictingCredentials
  | WrongTenant
  | InsufficientScope
  | AuthConflict
  | TrustedIssuerQuotaExceeded int int

text \<open>The \<open>#[error(...)]\<close> message of each variant.\<close>

fun display :: "app_error \<Rightarrow> string" where
  "display Unauthorized = ''missing or invalid Authorization: Bearer key''"
| "display (TenantKeyMissing r) = reason_message r"
| "display TenantKeyInvalid = ''tenant_key was not recognized; call signup for a new key or check the value''"
| "display Forbidden = ''forbidden''"
| "display (TenantDisabled _ _) = ''tenant is disabled''"
| "display RateLimited = ''signup rate limit exceeded for this source; try again later''"
| "display (ToolNotFound n) = ''tool not found: '' @ n"
| "display (ToolNotFoundOnImplicitTenant n _ _) = ''tool not found: '' @ n"
| "display (TenantNotFound n) = ''tenant not found: '' @ n"
| "display (InvalidParams m) = ''invalid params: '' @ m"
| "display (UnknownKind requested registered _) =
     ''kind '' @ [CHR 0x27] @ requested @ [CHR 0x27] @ '' is not registered; registered kinds: '' @ debug_strs registered"
| "display (InvalidToolName n) =
     ''invalid tool name '' @ [CHR 0x27] @ n @ [CHR 0x27] @ '': must match ^[a-z][a-z0-9_]{1,40}$''"
| "display (SpecTooLarge n) = ''spec is '' @ show_nat n @ '' bytes, over the 64 KiB limit''"
| "display (TooManyTools n) = ''tenant already holds '' @ show_nat n @ '' tools, the maximum''"
| "display (InvalidSpec m) = ''invalid spec: '' @ m"
| "display (InvalidArgs m) = ''invalid arguments: '' @ m"
| "display (SecretMissing n) = ''spec references unknown secret '' @ [CHR 0x27] @ n @ [CHR 0x27]"
| "display (Structured _ m _) = m"
| "display (MultiInvalid m _) = m"
| "display (CallTimeout s) = ''call timed out after the '' @ show_nat s @ ''s deadline''"
| "display (Storage m) = ''storage error: '' @ m"
| "display (Internal m) = ''internal error: '' @ m"
| "display RegistryDisabled = ''registry-publish is disabled; set --registry-url / $MCPHOST_REGISTRY_URL to enable it''"
| "display NamespaceUnverified = ''tenant's domain namespace is not verified; ask the operator to run admin.tenant_verify_namespace''"
| "display (RegistryRejected m) = ''registry API rejected the publish: '' @ m"
| "display (ShareQuotaExceeded lmt used) =
     ''tenant already shares '' @ show_int used @ '' tools, the plan maximum of '' @ show_int lmt"
| "display (GroupNotFound n) = ''group not found: '' @ n"
| "display HandoffTokenInvalid = ''handoff token was not recognized''"
| "display HandoffTokenRedeemed = ''handoff token has already been redeemed''"
| "display HandoffTokenExpired = ''handoff token has expired''"
| "display (VersionNotFound requested mn mx) =
     ''version '' @ show_int requested @ '' not found; valid range is '' @ show_int mn @ ''-'' @ show_int mx"
| "display IssuerAlreadyRegistered = ''issuer already registered by another tenant''"
| "display (IssuerQuotaExceeded lmt used) =
     ''tenant already registers '' @ show_int used @ '' issuers, the maximum of '' @ show_int lmt"
| "display (IssuerNotFound n) = ''issuer not found: '' @ n"
| "display (InvalidToken r) = ''invalid_token: '' @ r"
| "display ConflictingCredentials = ''conflicting_credentials: a tenant_key argument and an Authorization bearer resolved to different tenants''"
| "display WrongTenant = ''this credential does not belong to the tenant named by this path''"
| "display InsufficientScope = ''insufficient_scope: the bearer token's scope does not include '' @ [CHR 0x27] @ ''mcp'' @ [CHR 0x27]"
| "display AuthConflict = ''auth_conflict: this path's URL secret and the Authorization header resolved to different tenants''"
| "display (TrustedIssuerQuotaExceeded lmt used) =
     ''tenant already trusts '' @ show_int used @ '' issuers, the maximum of '' @ show_int lmt"

section \<open>Codes\<close>

fun code :: "app_error \<Rightarrow> string" where
  "code Unauthorized = ''bearer_invalid''"
| "code (TenantKeyMissing _) = ''tenant_key_missing''"
| "code TenantKeyInvalid = ''tenant_key_invalid''"
| "code Forbidden = ''forbidden''"
| "code (TenantDisabled _ _) = ''tenant_disabled''"
| "code RateLimited = ''rate_limited''"
| "code (ToolNotFound _) = ''tool_not_found''"
| "code (ToolNotFoundOnImplicitTenant _ _ _) = ''tool_not_found''"
| "code (TenantNotFound _) = ''tenant_not_found''"
| "code (InvalidParams _) = ''invalid_params''"
| "code (UnknownKind _ _ _) = ''unknown_kind''"
| "code (InvalidToolName _) = ''invalid_tool_name''"
| "code (SpecTooLarge _) = ''spec_too_large''"
| "code (TooManyTools _) = ''too_many_tools''"
| "code (InvalidSpec _) = ''invalid_spec''"
| "code (InvalidArgs _) = ''args_invalid''"
| "code (SecretMissing _) = ''secret_missing''"
| "code (Structured c _ _) = c"
| "code (MultiInvalid _ errors) = (case errors of [] \<Rightarrow> ''invalid_spec'' | e # _ \<Rightarrow> code e)"
| "code (CallTimeout _) = ''call_timeout''"
| "code (Storage _) = ''storage''"
| "code (Internal _) = ''internal''"
| "code RegistryDisabled = ''registry_disabled''"
| "code NamespaceUnverified = ''namespace_unverified''"
| "code (RegistryRejected _) = ''registry_rejected''"
| "code (ShareQuotaExceeded _ _) = ''share_quota_exceeded''"
| "code (GroupNotFound _) = ''group_not_found''"
| "code HandoffTokenInvalid = ''handoff_token_invalid''"
| "code HandoffTokenRedeemed = ''handoff_token_redeemed''"
| "code HandoffTokenExpired = ''handoff_token_expired''"
| "code (VersionNotFound _ _ _) = ''args_invalid''"
| "code IssuerAlreadyRegistered = ''issuer_already_registered''"
| "code (IssuerQuotaExceeded _ _) = ''issuer_quota_exceeded''"
| "code (IssuerNotFound _) = ''issuer_not_found''"
| "code (InvalidToken _) = ''invalid_token''"
| "code ConflictingCredentials = ''conflicting_credentials''"
| "code WrongTenant = ''wrong_tenant''"
| "code InsufficientScope = ''insufficient_scope''"
| "code AuthConflict = ''auth_conflict''"
| "code (TrustedIssuerQuotaExceeded _ _) = ''quota_trusted_issuers''"

text \<open>The JSON-RPC class. A structured error's class is looked up in the arms of the source's
  \<open>match\<close>, in their order; a code no arm names is an internal error.\<close>

datatype rpc_code = RESOURCE_NOT_FOUND | INVALID_PARAMS | INTERNAL_ERROR | INVALID_REQUEST

definition structured_arms_state :: "(string list \<times> rpc_code) list" where
  "structured_arms_state =
   [([''rate_limited'', ''signup_rate_limited'', ''signup_paused'', ''banned'',
       ''request_body_too_large'', ''permission_denied'', ''insufficient_scope'',
       ''invite_invalid'', ''invite_rate_limited'', ''join_code_invalid''],
      INVALID_REQUEST),
    ([''invites_quota_exceeded'', ''org_members_max'', ''resources_max'', ''listen_streams_max'',
       ''org_member_already'', ''org_name_taken'', ''not_in_org'', ''last_client'',
       ''client_not_found'', ''cursor_invalid'', ''field_unknown'', ''idempotency_conflict''],
      INVALID_PARAMS),
    ([''confirm_required'', ''confirm_invalid''],
      INVALID_PARAMS),
    ([''host_not_allowed'', ''args_invalid'', ''template_error'', ''kind_mismatch'',
       ''jq_builtin_unsupported'', ''invalid_spec'', ''unknown_spec_field'', ''unknown_argument'',
       ''unknown_kind'', ''env_secret_collision''],
      INVALID_PARAMS),
    ([''state_schema_violation'', ''state_quota_exceeded'', ''state_table_not_found''],
      INVALID_PARAMS),
    ([''remember_too_long'', ''invalid_params''],
      INVALID_PARAMS),
    ([''issuer_url_invalid''],
      INVALID_PARAMS),
    ([''trigger_invalid'', ''trigger_quota_exceeded'', ''trigger_interval_too_short'',
       ''plan_limit''],
      INVALID_PARAMS),
    ([''ask_expired'', ''asks_limit''],
      INVALID_PARAMS),
    ([''ask_not_found''],
      RESOURCE_NOT_FOUND),
    ([''notify_kind_unknown'', ''owner_unverified'', ''email_not_owner'', ''no_channel'',
       ''notify_limit'', ''notify_channel_limit'', ''notify_target_invalid'',
       ''email_quota_exceeded'', ''email_owner_unverified''],
      INVALID_PARAMS),
    ([''notify_channel_not_found''],
      RESOURCE_NOT_FOUND),
    ([''trigger_not_found''],
      RESOURCE_NOT_FOUND),
    ([''trace_not_found''],
      RESOURCE_NOT_FOUND),
    ([''not_found''],
      RESOURCE_NOT_FOUND),
    ([''key_expired'', ''key_revoked'', ''key_bound_elsewhere''],
      INVALID_PARAMS),
    ([''too_many_rows''],
      INVALID_PARAMS),
    ([''scope_escalation'', ''has_children''],
      INVALID_PARAMS),
    ([''replay_needs_secret''],
      INVALID_PARAMS)]"

definition structured_arms_store :: "(string list \<times> rpc_code) list" where
  "structured_arms_store =
   [([''signature_invalid'', ''event_body_too_large''],
      INVALID_PARAMS),
    ([''alert_body_too_large''],
      INVALID_PARAMS),
    ([''events_rate_limited''],
      INVALID_REQUEST),
    ([''hook_not_found''],
      RESOURCE_NOT_FOUND),
    ([''table_schema_violation'', ''table_not_found'', ''table_column_not_found'',
       ''table_query_rejected'', ''table_bound_exceeded'', ''table_already_exists''],
      INVALID_PARAMS),
    ([''table_row_conflict''],
      INVALID_PARAMS),
    ([''docs_too_large'', ''docs_mime_unsupported'', ''quota_docs'', ''quota_docs_bytes''],
      INVALID_PARAMS),
    ([''docs_not_found'', ''blob_not_found'', ''blob_expired'', ''index_not_found''],
      RESOURCE_NOT_FOUND),
    ([''index_exists'', ''quota_index_max''],
      INVALID_PARAMS),
    ([''quota_blobs'', ''quota_blob_bytes'', ''blob_too_large'', ''blob_too_large_inline''],
      INVALID_PARAMS),
    ([''handle_taken'', ''handle_reserved''],
      INVALID_PARAMS),
    ([''spec_not_exposed''],
      INVALID_PARAMS),
    ([''agent_not_found'', ''thread_not_found'', ''contact_request_not_found'',
       ''channel_not_found''],
      RESOURCE_NOT_FOUND),
    ([''mesh_frozen'', ''channel_closed'', ''channel_frozen''],
      INVALID_REQUEST),
    ([''end_user_required'', ''end_user_explicit_forbidden'', ''quota_end_users''],
      INVALID_PARAMS),
    ([''end_user_assertion_invalid''],
      INVALID_REQUEST),
    ([''tool_not_found''],
      RESOURCE_NOT_FOUND),
    ([''unverifiable''],
      INVALID_REQUEST),
    ([''lineage_blocked''],
      INVALID_PARAMS),
    ([''lineage_handle_not_found''],
      RESOURCE_NOT_FOUND),
    ([''tenant_key_required''],
      INVALID_REQUEST),
    ([''policy_widening''],
      INVALID_PARAMS),
    ([''budget_ceiling_exceeded''],
      INVALID_PARAMS),
    ([''budget_exceeded''],
      INVALID_REQUEST)]"

definition structured_rpc :: "string \<Rightarrow> rpc_code" where
  "structured_rpc c =
     (case find (\<lambda>(codes, _). c \<in> set codes) (structured_arms_state @ structured_arms_store) of
        Some (_, rpc) \<Rightarrow> rpc
      | None \<Rightarrow> INTERNAL_ERROR)"

fun jsonrpc_code :: "app_error \<Rightarrow> rpc_code" where
  "jsonrpc_code (ToolNotFound _) = RESOURCE_NOT_FOUND"
| "jsonrpc_code (ToolNotFoundOnImplicitTenant _ _ _) = RESOURCE_NOT_FOUND"
| "jsonrpc_code (TenantNotFound _) = RESOURCE_NOT_FOUND"
| "jsonrpc_code (GroupNotFound _) = RESOURCE_NOT_FOUND"
| "jsonrpc_code (UnknownKind _ _ _) = INVALID_PARAMS"
| "jsonrpc_code (InvalidToolName _) = INVALID_PARAMS"
| "jsonrpc_code (SpecTooLarge _) = INVALID_PARAMS"
| "jsonrpc_code (TooManyTools _) = INVALID_PARAMS"
| "jsonrpc_code (InvalidSpec _) = INVALID_PARAMS"
| "jsonrpc_code (InvalidArgs _) = INVALID_PARAMS"
| "jsonrpc_code (InvalidParams _) = INVALID_PARAMS"
| "jsonrpc_code (ShareQuotaExceeded _ _) = INVALID_PARAMS"
| "jsonrpc_code (VersionNotFound _ _ _) = INVALID_PARAMS"
| "jsonrpc_code IssuerAlreadyRegistered = INVALID_PARAMS"
| "jsonrpc_code (IssuerQuotaExceeded _ _) = INVALID_PARAMS"
| "jsonrpc_code (TrustedIssuerQuotaExceeded _ _) = INVALID_PARAMS"
| "jsonrpc_code (SecretMissing _) = INVALID_PARAMS"
| "jsonrpc_code (TenantKeyMissing _) = INVALID_PARAMS"
| "jsonrpc_code (IssuerNotFound _) = RESOURCE_NOT_FOUND"
| "jsonrpc_code (Storage _) = INTERNAL_ERROR"
| "jsonrpc_code (Internal _) = INTERNAL_ERROR"
| "jsonrpc_code (CallTimeout _) = INTERNAL_ERROR"
| "jsonrpc_code (RegistryRejected _) = INTERNAL_ERROR"
| "jsonrpc_code Unauthorized = INVALID_REQUEST"
| "jsonrpc_code TenantKeyInvalid = INVALID_REQUEST"
| "jsonrpc_code Forbidden = INVALID_REQUEST"
| "jsonrpc_code (TenantDisabled _ _) = INVALID_REQUEST"
| "jsonrpc_code RateLimited = INVALID_REQUEST"
| "jsonrpc_code RegistryDisabled = INVALID_REQUEST"
| "jsonrpc_code NamespaceUnverified = INVALID_REQUEST"
| "jsonrpc_code HandoffTokenInvalid = INVALID_REQUEST"
| "jsonrpc_code HandoffTokenRedeemed = INVALID_REQUEST"
| "jsonrpc_code HandoffTokenExpired = INVALID_REQUEST"
| "jsonrpc_code (InvalidToken _) = INVALID_REQUEST"
| "jsonrpc_code ConflictingCredentials = INVALID_REQUEST"
| "jsonrpc_code WrongTenant = INVALID_REQUEST"
| "jsonrpc_code InsufficientScope = INVALID_REQUEST"
| "jsonrpc_code AuthConflict = INVALID_REQUEST"
| "jsonrpc_code (Structured c _ _) = structured_rpc c"
| "jsonrpc_code (MultiInvalid _ errors) = (case errors of [] \<Rightarrow> INVALID_PARAMS | e # _ \<Rightarrow> jsonrpc_code e)"

end
