(* ===== verification/Errors.thy ===== *)
theory Errors
  imports ErrorType "HOL-Library.Product_Lexorder"
begin

text \<open>
  What \<open>errors.rs\<close> computes from an error: the argument a rejection names (\<open>split_field\<close>,
  \<open>field_and_expected\<close>), its corrected example, the wire message (\<open>redact_message\<close>), the
  variant-specific part of \<open>data\<close> (\<open>error_data_start\<close>), the conversions from a kind's errors and
  from a storage constraint, and the suggestions for a misspelt name (\<open>levenshtein\<close>,
  \<open>did_you_mean\<close>). The lemmas show that the two-row loop computes the least number of single-byte
  edits, that a batch of violations keeps the class of its first one, that the message of an error
  that may carry internal text does not depend on that text, and that the envelope's \<open>data\<close> is
  always an object.
\<close>

section \<open>Edit distance\<close>

text \<open>The inner loop over one row: \<open>prev\<close> from column \<open>j - 1\<close> on, and the cell to the left.\<close>

fun lev_cells :: "nat \<Rightarrow> nat list \<Rightarrow> nat list \<Rightarrow> nat \<Rightarrow> nat list" where
  "lev_cells x (y # ys) (p0 # p1 # ps) left =
     (let cost = if x = y then 0 else 1;
          cell = min (min (p1 + 1) (left + 1)) (p0 + cost)
      in cell # lev_cells x ys (p1 # ps) cell)"
| "lev_cells _ _ _ _ = []"

fun lev_rows :: "nat list \<Rightarrow> nat list \<Rightarrow> nat \<Rightarrow> nat list \<Rightarrow> nat list" where
  "lev_rows [] b i prev = prev"
| "lev_rows (x # xs) b i prev = lev_rows xs b (i + 1) (i # lev_cells x b prev i)"

definition levenshtein :: "string \<Rightarrow> string \<Rightarrow> nat" where
  "levenshtein a b =
     (let a = as_bytes a; b = as_bytes b
      in lev_rows a b 1 [0..<length b + 1] ! length b)"

text \<open>The specification: one step inserts, deletes or replaces one element anywhere.\<close>

definition edit_step :: "'a list \<Rightarrow> 'a list \<Rightarrow> bool" where
  "edit_step a b \<longleftrightarrow>
     (\<exists>u v x y. (a = u @ v \<and> b = u @ x # v) \<or> (a = u @ x # v \<and> b = u @ v) \<or> (a = u @ x # v \<and> b = u @ y # v))"

fun edit :: "'a list \<Rightarrow> 'a list \<Rightarrow> nat" where
  "edit [] ys = length ys"
| "edit (x # xs) [] = Suc (length xs)"
| "edit (x # xs) (y # ys) =
     min (min (Suc (edit xs (y # ys))) (Suc (edit (x # xs) ys))) (edit xs ys + (if x = y then 0 else 1))"

lemma edit_Nil_right [simp]: "edit xs [] = length xs"
  by (cases xs) auto

lemma edit_Cons_right_le: "edit v (y # ys) \<le> Suc (edit v ys)"
  by (cases v) auto

lemma edit_Cons_left_le: "edit (x # v) c \<le> Suc (edit v c)"
  by (cases c) auto

lemma edit_drop_left_le: "edit v c \<le> Suc (edit (x # v) c)"
proof (induction c)
  case (Cons y ys)
  have "edit v (y # ys) \<le> Suc (edit v ys)" by (rule edit_Cons_right_le)
  with Cons show ?case by (auto simp: min_def)
qed auto

lemma edit_replace_le: "edit (y # v) c \<le> Suc (edit (x # v) c)"
proof (induction c)
  case (Cons z zs)
  then show ?case by (auto simp: min_def)
qed auto

lemma edit_context:
  assumes "\<And>c. edit a c \<le> Suc (edit b c)"
  shows "edit (u @ a) c \<le> Suc (edit (u @ b) c)"
  using assms
proof (induction "u @ b" c arbitrary: u rule: edit.induct)
  case (1 ys)
  then have "u = []" "b = []" by auto
  with 1(2)[of ys] show ?case by simp
next
  case (2 x xs)
  show ?case using 2(2)[of "[]"] by (cases u) auto
next
  case (3 x xs y ys)
  show ?case
  proof (cases u)
    case Nil
    with 3 show ?thesis by simp
  next
    case (Cons z u')
    with 3(4) have "z = x" "xs = u' @ b" by auto
    then show ?thesis
      using 3(1)[OF \<open>xs = u' @ b\<close> 3(5)] 3(2)[of u] 3(3)[OF \<open>xs = u' @ b\<close> 3(5)] 3(4,5) Cons
      by (auto simp: min_def)
  qed
qed

lemma edit_step_lipschitz: "edit_step a b \<Longrightarrow> edit a c \<le> Suc (edit b c)"
  unfolding edit_step_def
  by (elim exE disjE conjE)
     (simp_all add: edit_context edit_drop_left_le edit_Cons_left_le edit_replace_le)

lemma edit_self [simp]: "edit xs xs = 0"
  by (induction xs) auto

lemma edit_lower: "(edit_step ^^ n) a b \<Longrightarrow> edit a b \<le> n"
proof (induction n arbitrary: a)
  case (Suc n)
  then obtain m where "edit_step a m" "(edit_step ^^ n) m b"
    by (metis relpowp_Suc_D2)
  with Suc.IH[of m] edit_step_lipschitz[of a m b] show ?case by simp
qed auto

lemma edit_step_Cons: "edit_step a b \<Longrightarrow> edit_step (x # a) (x # b)"
  unfolding edit_step_def by (metis append_Cons)

lemma edit_steps_Cons: "(edit_step ^^ n) a b \<Longrightarrow> (edit_step ^^ n) (x # a) (x # b)"
proof (induction n arbitrary: a)
  case (Suc n)
  then obtain m where "edit_step a m" "(edit_step ^^ n) m b" by (metis relpowp_Suc_D2)
  with Suc.IH edit_step_Cons show ?case by (metis relpowp_Suc_I2)
qed auto

lemma edit_step_del: "edit_step (x # a) a" and edit_step_ins: "edit_step a (x # a)"
  and edit_step_sub: "edit_step (x # a) (y # a)"
  unfolding edit_step_def by (metis append_Nil)+

lemma edit_upper: "(edit_step ^^ edit a b) a b"
proof (induction a b rule: edit.induct)
  case (1 ys)
  show ?case
  proof (induction ys)
    case (Cons y ys)
    then have "(edit_step ^^ length ys) [] ys" by simp
    then show ?case using edit_step_ins[of ys y] by (auto intro: relpowp_Suc_I)
  qed auto
next
  case (2 x xs)
  show ?case
  proof (induction "x # xs" arbitrary: x xs rule: list.induct)
    case (Cons x xs)
    show ?case
    proof (cases xs)
      case Nil
      then show ?thesis using edit_step_del[of x "[]"] by auto
    next
      case (Cons z zs)
      with Cons.hyps have "(edit_step ^^ length xs) xs []" by auto
      with edit_step_del[of x xs] have "(edit_step ^^ Suc (length xs)) (x # xs) []"
        by (rule relpowp_Suc_I2)
      then show ?thesis by simp
    qed
  qed
next
  case (3 x xs y ys)
  let ?a = "Suc (edit xs (y # ys))" and ?b = "Suc (edit (x # xs) ys)"
    and ?c = "edit xs ys + (if x = y then 0 else 1)"
  have a: "(edit_step ^^ ?a) (x # xs) (y # ys)"
    using 3(1) edit_step_del by (metis relpowp_Suc_I2)
  have b: "(edit_step ^^ ?b) (x # xs) (y # ys)"
    using 3(2) edit_step_ins by (metis relpowp_Suc_I)
  have c: "(edit_step ^^ ?c) (x # xs) (y # ys)"
  proof (cases "x = y")
    case True
    with 3(3) show ?thesis by (simp add: edit_steps_Cons)
  next
    case False
    from relpowp_Suc_I2[of edit_step, OF edit_step_sub[of x xs y] edit_steps_Cons[OF 3(3), of y]]
    show ?thesis using False by simp
  qed
  have "edit (x # xs) (y # ys) \<in> {?a, ?b, ?c}" by (auto simp: min_def)
  with a b c show ?case by auto
qed

lemma edit_step_rev: "edit_step a b \<Longrightarrow> edit_step (rev a) (rev b)"
  unfolding edit_step_def
  by (elim exE disjE conjE) (simp_all, (metis append.assoc append_Cons append_Nil)+)

lemma edit_steps_rev: "(edit_step ^^ n) a b \<Longrightarrow> (edit_step ^^ n) (rev a) (rev b)"
proof (induction n arbitrary: a)
  case (Suc n)
  then obtain m where "edit_step a m" "(edit_step ^^ n) m b" by (metis relpowp_Suc_D2)
  with Suc.IH edit_step_rev show ?case by (metis relpowp_Suc_I2)
qed auto

lemma edit_rev: "edit (rev a) (rev b) = edit a b"
proof -
  have le: "edit (rev a) (rev b) \<le> edit a b" for a b :: "'a list"
    by (intro edit_lower edit_steps_rev edit_upper)
  from le[of a b] le[of "rev a" "rev b"] show ?thesis by simp
qed

lemma edit_snoc:
  "edit (xs @ [x]) (ys @ [y]) =
     min (min (Suc (edit xs (ys @ [y]))) (Suc (edit (xs @ [x]) ys))) (edit xs ys + (if x = y then 0 else 1))"
  using edit_rev[of "xs @ [x]" "ys @ [y]"] edit_rev[of xs "ys @ [y]"] edit_rev[of "xs @ [x]" ys]
    edit_rev[of xs ys] by simp

text \<open>A row of the matrix: the distances from \<open>pre\<close> to \<open>bp\<close> and its extensions by \<open>ys\<close>.\<close>

fun dist_row :: "('a list \<Rightarrow> nat) \<Rightarrow> 'a list \<Rightarrow> 'a list \<Rightarrow> nat list" where
  "dist_row f bp [] = [f bp]"
| "dist_row f bp (y # ys) = f bp # dist_row f (bp @ [y]) ys"

lemma dist_row_hd: "\<exists>r. dist_row f bp ys = f bp # r"
  by (cases ys) auto

lemma dist_row_last: "dist_row f bp ys ! length ys = f (bp @ ys)"
  by (induction f bp ys rule: dist_row.induct) auto

lemma dist_row_length: "dist_row length bp ys = [length bp..<length bp + length ys + 1]"
proof (induction "length :: 'a list \<Rightarrow> nat" bp ys rule: dist_row.induct)
  case (2 bp y ys)
  have "[length bp..<length bp + length (y # ys) + 1] = length bp # [Suc (length bp)..<length bp + length (y # ys) + 1]"
    by (rule upt_conv_Cons) simp
  with 2 show ?case by (simp del: upt_Suc)
qed simp

lemma lev_cells_row:
  "edit (pre @ [x]) bp # lev_cells x ys (dist_row (edit pre) bp ys) (edit (pre @ [x]) bp)
     = dist_row (edit (pre @ [x])) bp ys"
proof (induction ys arbitrary: bp)
  case (Cons y ys)
  obtain r where r: "dist_row (edit pre) (bp @ [y]) ys = edit pre (bp @ [y]) # r"
    using dist_row_hd by blast
  have cell: "min (min (edit pre (bp @ [y]) + 1) (edit (pre @ [x]) bp + 1)) (edit pre bp + (if x = y then 0 else 1))
      = edit (pre @ [x]) (bp @ [y])"
    by (simp add: edit_snoc)
  show ?case using Cons[of "bp @ [y]"] cell by (simp add: r Let_def)
qed simp

lemma lev_rows_row:
  "lev_rows xs b (length pre + 1) (dist_row (edit pre) [] b) = dist_row (edit (pre @ xs)) [] b"
proof (induction xs arbitrary: pre)
  case (Cons x xs)
  have "Suc (length pre) # lev_cells x b (dist_row (edit pre) [] b) (Suc (length pre)) = dist_row (edit (pre @ [x])) [] b"
    using lev_cells_row[of pre x "[]" b] by simp
  with Cons[of "pre @ [x]"] show ?case by simp
qed simp

lemma levenshtein_edit: "levenshtein a b = edit (as_bytes a) (as_bytes b)"
proof -
  have "(edit []) = (length :: nat list \<Rightarrow> nat)" by auto
  with dist_row_length[of "[]" "as_bytes b"]
  have "[0..<length (as_bytes b) + 1] = dist_row (edit []) [] (as_bytes b)" by simp
  with lev_rows_row[of "as_bytes a" "as_bytes b" "[]"] dist_row_last[of "edit (as_bytes a)" "[]" "as_bytes b"]
  show ?thesis by (simp add: levenshtein_def Let_def)
qed

lemma levenshtein_least:
  "(edit_step ^^ levenshtein a b) (as_bytes a) (as_bytes b)"
  "(edit_step ^^ n) (as_bytes a) (as_bytes b) \<Longrightarrow> levenshtein a b \<le> n"
  by (simp_all add: levenshtein_edit edit_upper edit_lower)

section \<open>Suggestions\<close>

definition did_you_mean_hints :: "(string \<times> string) list" where
  "did_you_mean_hints =
     [(''lambda'', ''python''), (''function'', ''python''), (''functions'', ''python''),
      (''serverless'', ''python''), (''faas'', ''python'')]"

definition max_did_you_mean_distance :: nat where
  "max_did_you_mean_distance = 2"

definition max_did_you_mean :: nat where
  "max_did_you_mean = 3"

fun hinted :: "string \<Rightarrow> (string \<times> string) list \<Rightarrow> string list \<Rightarrow> string list" where
  "hinted lower [] out = out"
| "hinted lower ((h, kind) # hs) out =
     hinted lower hs (if h = lower \<and> kind \<notin> set out then out @ [kind] else out)"

definition scored :: "(string \<Rightarrow> nat) \<Rightarrow> string list \<Rightarrow> (nat \<times> string) list" where
  "scored d cands = sort (filter (\<lambda>(n, _). n \<le> max_did_you_mean_distance) (map (\<lambda>c. (d c, c)) cands))"

definition did_you_mean :: "string \<Rightarrow> string list \<Rightarrow> string list \<Rightarrow> string list" where
  "did_you_mean requested registered aliases =
     (let lower = to_ascii_lowercase requested;
          out = hinted lower did_you_mean_hints [];
          near = scored (levenshtein lower) (filter (\<lambda>c. c \<notin> set out) (registered @ aliases))
      in take max_did_you_mean (out @ map snd (take (max_did_you_mean - length out) near)))"

definition host_tool_not_found :: "string \<Rightarrow> string list \<Rightarrow> string list \<Rightarrow> app_error" where
  "host_tool_not_found requested candidates advertised =
     (let lower = to_ascii_lowercase requested;
          d = \<lambda>c. levenshtein lower (to_ascii_lowercase c);
          dym = map snd (take max_did_you_mean (scored d candidates));
          nearest = map snd (take max_did_you_mean (sort (map (\<lambda>c. (d c, c)) advertised)))
      in Structured ''tool_not_found''
           (''unknown tool '' @ requested @ ''; nearest: '' @ join '', '' nearest)
           (mk_obj [(''error'', JStr ''unknown_tool''), (''name'', JStr requested),
                    (''nearest'', JStrs nearest), (''did_you_mean'', JStrs dym)]))"

section \<open>The argument a rejection names\<close>

definition split_field :: "string \<Rightarrow> (string \<times> string) option" where
  "split_field message =
     (case split_once_str '': '' message of
        None \<Rightarrow> None
      | Some (field, rest) \<Rightarrow>
          if field = [] \<or> str_contains (CHR '' '') field then None else Some (field, trim rest))"

definition max_spec_bytes :: nat where
  "max_spec_bytes = 64 * 1024"

fun or_else :: "'a option \<Rightarrow> 'a option \<Rightarrow> 'a option" where
  "or_else (Some x) _ = Some x"
| "or_else None y = y"

fun field_and_expected :: "app_error \<Rightarrow> string option \<times> string option" where
  "field_and_expected (TenantKeyMissing _) =
     (Some ''tenant_key'',
      Some ''the string signup returned; required only when this connection carries no Authorization: Bearer header'')"
| "field_and_expected (InvalidToolName name) =
     (Some ''name'', Some (''must match ^[a-z][a-z0-9_]{1,40}$; got '' @ [CHR 0x27] @ name @ [CHR 0x27]))"
| "field_and_expected (UnknownKind _ registered _) =
     (Some ''kind'', Some (''must be one of '' @ debug_strs registered))"
| "field_and_expected (SpecTooLarge n) =
     (Some ''spec'',
      Some (''serializes to '' @ show_nat n @ '' bytes; must be at most '' @ show_nat max_spec_bytes @ '' bytes''))"
| "field_and_expected (SecretMissing name) =
     (Some ''spec'',
      Some (''references secret.'' @ name @ '', which this tenant has not set; call host.secret_set first''))"
| "field_and_expected (InvalidArgs m) =
     (case split_field m of Some (f, e) \<Rightarrow> (Some f, Some e) | None \<Rightarrow> (None, Some m))"
| "field_and_expected (InvalidSpec m) =
     (case split_field m of Some (f, e) \<Rightarrow> (Some f, Some e) | None \<Rightarrow> (None, Some m))"
| "field_and_expected (Structured _ message data) =
     (let field_from_data = Option.bind (json_get ''field'' data) as_str;
          expected_from_data = Option.bind (json_get ''expected'' data) as_str;
          spl = split_field message
      in (or_else field_from_data (map_option fst spl),
          or_else expected_from_data (or_else (map_option snd spl) (Some message))))"
| "field_and_expected (MultiInvalid _ errors) =
     (case errors of [] \<Rightarrow> (None, None) | e # _ \<Rightarrow> field_and_expected e)"
| "field_and_expected _ = (None, None)"

definition field_example :: "string \<Rightarrow> json option" where
  "field_example field =
     (if field = ''name'' then Some (JStr ''my_tool'')
      else if field = ''kind'' then Some (JStr ''echo'')
      else if field = ''spec.schema'' \<or> field = ''schema'' then
        Some (mk_obj [(''type'', JStr ''object''),
                      (''properties'', mk_obj [(''msg'', mk_obj [(''type'', JStr ''string'')])]),
                      (''required'', JStrs [''msg''])])
      else if field = ''method'' then Some (JStr ''GET'')
      else if field = ''url'' then Some (JStr ''https://api.example.com/items/{{id}}'')
      else if field = ''timeout_s'' then Some (JInt 10)
      else if field = ''response'' then Some (JStr ''json'')
      else if field = ''body'' then Some (mk_obj [(''type'', JStr ''object'')])
      else if field = ''args_schema'' then
        Some (mk_obj [(''type'', JStr ''object''), (''properties'', mk_obj [])])
      else if field = ''source'' then
        Some (JStr (''def main(args):'' @ [CHR 0x0A] @ ''    return {'' @ [CHR 0x22] @ ''ok'' @ [CHR 0x22]
                    @ '': True}'' @ [CHR 0x0A]))
      else if field = ''requirements'' then Some (JStrs [''requests''])
      else if field = ''memory_mb'' then Some (JInt 256)
      else if field = ''network'' then Some (JStr ''none'')
      else if field = ''tenant_key'' then Some (JStr ''tk_example_REPLACE_WITH_THE_KEY_SIGNUP_RETURNED'')
      else None)"

section \<open>Conversions\<close>

definition on_implicit_tenant ::
    "app_error \<Rightarrow> string \<Rightarrow> string option \<Rightarrow> int option \<Rightarrow> int \<Rightarrow> app_error" where
  "on_implicit_tenant e namespace signup_source created_unix now =
     (case (e, signup_source, created_unix) of
        (ToolNotFound name, Some src, Some created) \<Rightarrow>
          if src = ''implicit'' \<and> sat_i64 (now - created) \<le> implicit_tenant_hint_window_s
          then ToolNotFoundOnImplicitTenant name namespace created else e
      | _ \<Rightarrow> e)"

text \<open>The object a payload becomes: an object stays, \<open>null\<close> is empty, anything else is kept as
  \<open>detail\<close>.\<close>

fun data_object :: "json \<Rightarrow> (string \<times> json) list" where
  "data_object (JObj m) = m"
| "data_object JNull = []"
| "data_object v = [(''detail'', v)]"

record error_data =
  rpc :: rpc_code
  wire_message :: string
  wire_data :: "json option"

definition error_envelope :: "rpc_code \<Rightarrow> string \<Rightarrow> json \<Rightarrow> error_data" where
  "error_envelope c message data = \<lparr>rpc = c, wire_message = message, wire_data = Some (JObj (data_object data))\<rparr>"

definition with_tool :: "app_error \<Rightarrow> string \<Rightarrow> app_error" where
  "with_tool e tool =
     (case e of
        Structured c m data \<Rightarrow>
          if c \<in> {''tool_exception'', ''upstream_status'', ''args_invalid''}
          then Structured c m (JObj (obj_entry_or ''tool'' (JStr tool) (data_object data)))
          else e
      | _ \<Rightarrow> e)"

datatype kind_error =
    KInvalidSpec string
  | KInvalidArgs string
  | KExec string
  | KStructured string string json

fun app_of_kind :: "kind_error \<Rightarrow> app_error" where
  "app_of_kind (KInvalidSpec m) = InvalidSpec m"
| "app_of_kind (KInvalidArgs m) = InvalidArgs m"
| "app_of_kind (KStructured c m d) = Structured c m d"
| "app_of_kind (KExec m) = Internal m"

fun from_kind_violations :: "kind_error list \<Rightarrow> app_error option" where
  "from_kind_violations [] = None"
| "from_kind_violations (v # vs) =
     (let first = app_of_kind v; rest = map app_of_kind vs
      in if rest = [] then Some first
         else let errors = first # rest;
                  fields = List.map_filter (fst \<circ> field_and_expected) errors
              in Some (MultiInvalid
                   (show_nat (length errors) @ '' fields invalid: '' @ join '', '' fields) errors))"

definition check_unknown_argument :: "json \<Rightarrow> string \<Rightarrow> string list \<Rightarrow> app_error + unit" where
  "check_unknown_argument args tool known =
     (case as_object args of
        None \<Rightarrow> Inr ()
      | Some obj \<Rightarrow>
          (case find (\<lambda>key. \<not> (key = ''tenant_key'' \<or> key \<in> set known)) (map fst obj) of
             None \<Rightarrow> Inr ()
           | Some key \<Rightarrow>
               Inl (Structured ''unknown_argument''
                 ([CHR 0x27] @ key @ [CHR 0x27] @ '' is not a recognized argument for '' @ tool @ ''; known: ''
                    @ join '', '' known)
                 (mk_obj [(''field'', JStr key), (''tool'', JStr tool), (''known'', JStrs known)]))))"

text \<open>The conflict a storage constraint raises, from SQLite's extended code and its text.\<close>

definition rsplit_once :: "char \<Rightarrow> string \<Rightarrow> (string \<times> string) option" where
  "rsplit_once c s = map_option (\<lambda>(a, b). (rev b, rev a)) (split_once c (rev s))"

definition constraint_conflict :: "int \<Rightarrow> string \<Rightarrow> app_error" where
  "constraint_conflict extended_code sqlite_msg =
     (let constr =
            (if extended_code = 2067 then ''unique'' else if extended_code = 1555 then ''primary_key''
             else if extended_code = 1299 then ''not_null'' else if extended_code = 275 then ''check''
             else ''other'');
          target = (case split_once_str ''constraint failed: '' sqlite_msg of
              None \<Rightarrow> [] | Some (_, t) \<Rightarrow> trim (hd (split_char (CHR '','') t)));
          (table, column) = (case rsplit_once (CHR ''.'') target of
              Some (t, c) \<Rightarrow> (Some t, Some c) | None \<Rightarrow> (None, None));
          on = (case column of Some c \<Rightarrow> '' on '' @ c | None \<Rightarrow> [])
      in Structured ''table_row_conflict'' (''row conflicts'' @ on @ '' ('' @ constr @ '')'')
           (mk_obj [(''constraint'', JStr constr), (''table'', opt_json JStr table), (''column'', opt_json JStr column)]))"

section \<open>What goes on the wire\<close>

definition redacted_codes :: "string list" where
  "redacted_codes = [''internal'', ''storage'', ''registry_rejected'', ''service_unavailable'']"

definition redact_message :: "string \<Rightarrow> app_error \<Rightarrow> string" where
  "redact_message request_id e =
     (if code e \<in> set redacted_codes
      then if code e = ''service_unavailable'' then ''service unavailable; request_id='' @ request_id
           else ''internal error; request_id='' @ request_id
      else display e)"

definition session_header :: string where
  "session_header = ''Mcp-Session-Id''"

fun variant_data :: "app_error \<Rightarrow> (string \<times> json) list" where
  "variant_data (InvalidToken r) = [(''error_description'', JStr r)]"
| "variant_data (IssuerQuotaExceeded lmt used) = [(''limit'', JInt lmt), (''used'', JInt used)]"
| "variant_data (TrustedIssuerQuotaExceeded lmt used) = [(''limit'', JInt lmt), (''used'', JInt used)]"
| "variant_data TenantKeyInvalid = [(''reason'', JStr ''unknown_key'')]"
| "variant_data (TenantKeyMissing r) =
     (''reason'', JStr (reason_wire r)) #
     (case r of
        Anonymous \<Rightarrow> []
      | ConnectionBound namespace \<Rightarrow>
          [(''tenant'', JStr namespace), (''hint'', JStr (connection_hint namespace)),
           (''get_a_key'', JStr get_a_key_text)]
      | PeerRecent \<Rightarrow>
          [(''hint'', JStr peer_recent_hint), (''session_presented'', JBool False),
           (''session_header'', JStr session_header), (''get_a_key'', JStr get_a_key_text)])"
| "variant_data (ToolNotFoundOnImplicitTenant _ tenant created) =
     [(''reason'', JStr ''tool_not_found_on_implicit_tenant''), (''tenant'', JStr tenant),
      (''signup_source'', JStr ''implicit''), (''created_unix'', JInt created),
      (''hint'', JStr (implicit_tenant_hint created))]"
| "variant_data (TenantDisabled (Some r) claim_url) =
     (''disabled_reason'', JStr r) # (case claim_url of Some u \<Rightarrow> [(''claim_url'', JStr u)] | None \<Rightarrow> [])"
| "variant_data _ = []"

definition error_data_start :: "app_error \<Rightarrow> (string \<times> json) list" where
  "error_data_start e =
     fold (\<lambda>(k, v). obj_insert k v) ((''error_code'', JStr (code e)) # variant_data e)
       (case e of Structured _ _ data \<Rightarrow> data_object data | _ \<Rightarrow> [])"

section \<open>Facts\<close>

lemma hinted_sub: "\<forall>x \<in> set (hinted lower hs out). x \<in> set out \<or> (lower, x) \<in> set hs"
  by (induction lower hs out rule: hinted.induct) (auto split: if_splits)

lemma scored_near: "(n, c) \<in> set (scored d cands) \<Longrightarrow> c \<in> set cands \<and> n = d c \<and> n \<le> max_did_you_mean_distance"
  by (auto simp: scored_def)

lemma did_you_mean_sound:
  assumes "c \<in> set (did_you_mean requested registered aliases)"
  shows "(to_ascii_lowercase requested, c) \<in> set did_you_mean_hints \<or>
         c \<in> set registered \<union> set aliases
           \<and> levenshtein (to_ascii_lowercase requested) c \<le> max_did_you_mean_distance"
proof -
  let ?l = "to_ascii_lowercase requested"
  let ?out = "hinted ?l did_you_mean_hints []"
  from assms consider "c \<in> set ?out"
    | n where "(n, c) \<in> set (scored (levenshtein ?l) (filter (\<lambda>c. c \<notin> set ?out) (registered @ aliases)))"
    by (auto simp: did_you_mean_def Let_def dest!: in_set_takeD)
  then show ?thesis
  proof cases
    case 1
    with hinted_sub[of ?l did_you_mean_hints "[]"] show ?thesis by simp
  next
    case 2
    from scored_near[OF this] show ?thesis by auto
  qed
qed

lemma did_you_mean_length: "length (did_you_mean requested registered aliases) \<le> max_did_you_mean"
  by (simp add: did_you_mean_def Let_def)

lemma from_kind_violations_class:
  assumes "from_kind_violations vs = Some e"
  shows "code e = code (app_of_kind (hd vs)) \<and> jsonrpc_code e = jsonrpc_code (app_of_kind (hd vs))
           \<and> field_and_expected e = field_and_expected (app_of_kind (hd vs))
           \<and> (length vs = 1 \<longrightarrow> e = app_of_kind (hd vs))
           \<and> (length vs > 1 \<longrightarrow> (\<exists>m. e = MultiInvalid m (map app_of_kind vs)))"
  using assms by (cases vs) (auto simp: Let_def split: if_splits)

lemma from_kind_violations_None [simp]: "from_kind_violations vs = None \<longleftrightarrow> vs = []"
  by (cases vs) (auto simp: Let_def)

lemma variant_data_no_code: "''error_code'' \<notin> fst ` set (variant_data e)"
  by (cases e rule: variant_data.cases) (auto split: reason.splits option.splits)

lemma error_data_start_code: "map_of (error_data_start e) ''error_code'' = Some (JStr (code e))"
proof -
  have "map_of (rev (variant_data e)) ''error_code'' = None"
    using variant_data_no_code[of e] by (simp add: map_of_eq_None_iff)
  then show ?thesis by (simp add: error_data_start_def map_of_fold_insert map_add_def)
qed

lemma redacted_same:
  "code e = code e' \<Longrightarrow> code e \<in> set redacted_codes \<Longrightarrow> redact_message r e = redact_message r e'"
  by (simp add: redact_message_def)

lemma check_unknown_argument_ok:
  "check_unknown_argument (JObj m) tool known = Inr () \<longleftrightarrow>
     fst ` set m \<subseteq> insert ''tenant_key'' (set known)"
  by (auto simp: check_unknown_argument_def find_None_iff split: option.splits dest!: find_hit
      dest: subsetD[OF _ imageI[of _ _ fst]])

section \<open>Properties\<close>

text \<open>C13. \<open>levenshtein\<close> is the edit distance: the second string can be reached from the first in that
  many single-byte insertions, deletions or replacements, and in no fewer.\<close>

theorem levenshtein_correct:
  "(edit_step ^^ levenshtein a b) (as_bytes a) (as_bytes b)
     \<and> (\<forall>n. (edit_step ^^ n) (as_bytes a) (as_bytes b) \<longrightarrow> levenshtein a b \<le> n)"
  using levenshtein_least by blast

theorem levenshtein_correct_witness:
  "levenshtein ''htpp'' ''http'' \<le> 2"
proof -
  have "edit_step (as_bytes ''htpp'') (as_bytes ''http'')"
    unfolding edit_step_def
    by (intro exI[of _ "as_bytes ''ht''"] exI[of _ "as_bytes ''p''"] exI[of _ 112] exI[of _ 116])
       (simp add: as_bytes_def utf8_char_def scalar_def)
  then have "(edit_step ^^ 1) (as_bytes ''htpp'') (as_bytes ''http'')" by (simp only: relpowp_1)
  with levenshtein_correct[of "''htpp''" "''http''"] have "levenshtein ''htpp'' ''http'' \<le> 1" by blast
  then show ?thesis by simp
qed

text \<open>The suggestions for an unknown kind are at most three, and each is either the curated answer
  for exactly the word asked for or a registered kind or alias within two edits of it.\<close>

theorem did_you_mean_correct:
  "length (did_you_mean requested registered aliases) \<le> 3
     \<and> (\<forall>c \<in> set (did_you_mean requested registered aliases).
          (to_ascii_lowercase requested, c) \<in> set did_you_mean_hints
          \<or> c \<in> set registered \<union> set aliases \<and> levenshtein (to_ascii_lowercase requested) c \<le> 2)"
  using did_you_mean_length[of requested registered aliases] did_you_mean_sound[of _ requested registered aliases]
  by (auto simp: max_did_you_mean_def max_did_you_mean_distance_def)

theorem did_you_mean_correct_witness:
  "did_you_mean ''lambda'' [] [] = [''python''] \<and> (''lambda'', ''python'') \<in> set did_you_mean_hints"
proof -
  have l: "to_ascii_lowercase ''lambda'' = ''lambda''"
    by (simp add: to_ascii_lowercase_def is_ascii_upper_def scalar_def)
  then have "did_you_mean ''lambda'' [] [] = [''python'']"
    by (simp add: did_you_mean_def did_you_mean_hints_def scored_def max_did_you_mean_def)
  with l did_you_mean_correct[of "''lambda''" "[]" "[]"] show ?thesis by simp
qed

text \<open>Reporting several violations at once changes neither the class nor the field an agent reads
  at the top level: the batch error has the code, the JSON-RPC class and the field of its first
  violation, is that violation alone when there is one, and carries every violation when there are
  more; it is absent only when nothing was violated.\<close>

theorem from_kind_violations_correct:
  "(from_kind_violations vs = None \<longleftrightarrow> vs = [])
     \<and> (\<forall>e. from_kind_violations vs = Some e \<longrightarrow>
          code e = code (app_of_kind (hd vs)) \<and> jsonrpc_code e = jsonrpc_code (app_of_kind (hd vs))
          \<and> field_and_expected e = field_and_expected (app_of_kind (hd vs))
          \<and> (length vs = 1 \<longrightarrow> e = app_of_kind (hd vs))
          \<and> (length vs > 1 \<longrightarrow> (\<exists>m. e = MultiInvalid m (map app_of_kind vs))))"
  using from_kind_violations_class[of vs] by auto

theorem from_kind_violations_correct_witness:
  "\<exists>e. from_kind_violations [KExec ''boom'', KInvalidSpec ''url: bad''] = Some e \<and> code e = ''internal''"
proof -
  let ?vs = "[KExec ''boom'', KInvalidSpec ''url: bad'']"
  have "from_kind_violations ?vs \<noteq> None" using from_kind_violations_correct[of ?vs] by blast
  then obtain e where e: "from_kind_violations ?vs = Some e" by blast
  moreover have "code e = code (app_of_kind (hd ?vs))"
    using from_kind_violations_correct[of ?vs] e by blast
  ultimately show ?thesis by (simp only: list.sel app_of_kind.simps code.simps) blast
qed

text \<open>The wire \<open>data\<close> of an error names the error's own code: no payload a kind or a handler
  attached, and no variant-specific field, can replace \<open>error_code\<close>.\<close>

theorem error_code_not_forgeable:
  "map_of (error_data_start e) ''error_code'' = Some (JStr (code e))"
  by (rule error_data_start_code)

text \<open>An error whose text may come from inside the host (a storage error, an internal error, a
  registry's rejection) shows none of it: on one request id, any two errors with such a code have
  the same wire message.\<close>

theorem redacted_message_noninterference:
  "code e = code e' \<Longrightarrow> code e \<in> {''internal'', ''storage'', ''registry_rejected'', ''service_unavailable''} \<Longrightarrow>
     redact_message request_id e = redact_message request_id e'"
  by (rule redacted_same) (auto simp: redacted_codes_def)

theorem redacted_message_noninterference_witness:
  "redact_message ''ab'' (app_of_kind (KExec ''key=sk_live'')) = redact_message ''ab'' (Internal ''other'')"
  by (rule redacted_message_noninterference) simp_all

end
