(* ===== verification/RetryPolicy.thy ===== *)
theory RetryPolicy
  imports Errors
begin

text \<open>
  The retry table of \<open>retry_policy.rs\<close>: \<open>retry_policy\<close> is \<open>RETRY_POLICY\<close> row for row, \<open>policy_for\<close>,
  \<open>is_retryable_code\<close> and \<open>retryable_codes\<close> its lookups, \<open>after_ms\<close> the backoff on \<open>u64\<close> with its
  saturation, and \<open>retry_block\<close>/\<open>attach\<close> the \<open>data.retry\<close> object of an error. The lemmas show that
  the table has one row per code, that the wait is monotone in the attempt and never above the row's
  ceiling, that a block invites a retry exactly while attempts are left, and that every variant of
  \<open>AppError\<close> with a code of its own has a row.
\<close>

section \<open>Backoff\<close>

datatype backoff = BackoffNone | Fixed nat | Exponential nat nat

fun after_ms :: "backoff \<Rightarrow> nat \<Rightarrow> nat option" where
  "after_ms BackoffNone _ = None"
| "after_ms (Fixed ms) _ = Some ms"
| "after_ms (Exponential base_ms max_ms) attempt =
     Some (min (sat_u64 (base_ms * 2 ^ min (attempt - 1) 32)) max_ms)"

fun backoff_describe :: "backoff \<Rightarrow> string" where
  "backoff_describe BackoffNone = ''none''"
| "backoff_describe (Fixed ms) = ''fixed('' @ show_nat ms @ ''ms)''"
| "backoff_describe (Exponential b m) =
     ''exponential('' @ show_nat b @ ''ms, max '' @ show_nat m @ ''ms)''"

fun backoff_to_json :: "backoff \<Rightarrow> json" where
  "backoff_to_json BackoffNone = mk_obj [(''kind'', JStr ''none'')]"
| "backoff_to_json (Fixed ms) = mk_obj [(''kind'', JStr ''fixed''), (''ms'', JInt (int ms))]"
| "backoff_to_json (Exponential b m) =
     mk_obj [(''kind'', JStr ''exponential''), (''base_ms'', JInt (int b)), (''max_ms'', JInt (int m))]"

section \<open>The table\<close>

record retry_row =
  row_code :: string
  row_retryable :: bool
  row_backoff :: backoff
  row_max_attempts :: nat
  row_policy :: string

definition FIX :: string where "FIX = ''fix-and-resend''"
definition BACKOFF :: string where "BACKOFF = ''backoff-then-retry''"
definition AFTER :: string where "AFTER = ''honour-retry-after''"
definition IDEM :: string where "IDEM = ''retry-with-idempotency-key''"
definition WAIT :: string where "WAIT = ''wait-then-retry''"
definition AUTH :: string where "AUTH = ''reauthenticate''"
definition NO :: string where "NO = ''do-not-retry''"

definition no_row :: "string \<Rightarrow> string \<Rightarrow> retry_row" where
  "no_row c policy =
     \<lparr>row_code = c, row_retryable = False, row_backoff = BackoffNone, row_max_attempts = 1, row_policy = policy\<rparr>"

definition yes_row :: "string \<Rightarrow> backoff \<Rightarrow> nat \<Rightarrow> string \<Rightarrow> retry_row" where
  "yes_row c b n policy =
     \<lparr>row_code = c, row_retryable = True, row_backoff = b, row_max_attempts = n, row_policy = policy\<rparr>"

definition default_unknown :: retry_row where
  "default_unknown = no_row ''unknown'' NO"

text \<open>The rows of the \<open>AppError\<close> variants, then those of the kinds and the handlers.\<close>

definition retry_rows_variants :: "retry_row list" where
  "retry_rows_variants =
     [no_row ''bearer_invalid'' AUTH,
      no_row ''tenant_key_missing'' FIX,
      no_row ''tenant_key_invalid'' AUTH,
      no_row ''forbidden'' NO,
      no_row ''tenant_disabled'' NO,
      yes_row ''rate_limited'' (Exponential 1000 30000) 3 AFTER,
      no_row ''tool_not_found'' NO,
      no_row ''tenant_not_found'' NO,
      no_row ''invalid_params'' FIX,
      no_row ''unknown_kind'' FIX,
      no_row ''invalid_tool_name'' FIX,
      no_row ''spec_too_large'' FIX,
      no_row ''too_many_tools'' NO,
      no_row ''invalid_spec'' FIX,
      no_row ''args_invalid'' FIX,
      no_row ''secret_missing'' FIX,
      yes_row ''call_timeout'' (Fixed 1000) 2 IDEM,
      yes_row ''storage'' (Exponential 500 8000) 2 BACKOFF,
      yes_row ''internal'' (Exponential 500 8000) 2 BACKOFF,
      no_row ''registry_disabled'' NO,
      no_row ''namespace_unverified'' NO,
      no_row ''registry_rejected'' NO,
      no_row ''share_quota_exceeded'' NO,
      no_row ''scope_missing'' NO,
      no_row ''share_revoked'' NO,
      no_row ''group_not_found'' NO,
      no_row ''handoff_token_invalid'' NO,
      no_row ''handoff_token_redeemed'' NO,
      no_row ''handoff_token_expired'' NO,
      no_row ''issuer_already_registered'' NO,
      no_row ''issuer_quota_exceeded'' NO,
      no_row ''issuer_not_found'' NO,
      no_row ''invalid_token'' AUTH,
      no_row ''conflicting_credentials'' FIX,
      no_row ''wrong_tenant'' NO,
      no_row ''insufficient_scope'' NO,
      no_row ''auth_conflict'' FIX,
      no_row ''quota_trusted_issuers'' NO]"

definition retry_rows_kinds :: "retry_row list" where
  "retry_rows_kinds =
     [no_row ''upstream_status'' NO,
      no_row ''unknown_argument'' FIX,
      no_row ''end_user_required'' NO,
      no_row ''end_user_explicit_forbidden'' NO,
      no_row ''args_schema_not_inferable'' NO,
      no_row ''budget_exceeded'' NO,
      no_row ''build_failed'' NO,
      yes_row ''capacity'' (Exponential 1000 30000) 3 BACKOFF,
      yes_row ''channel_unavailable'' (Fixed 5000) 3 BACKOFF,
      no_row ''chart_invalid_mark'' FIX,
      no_row ''compose_children_exceeded'' NO,
      no_row ''compose_depth_exceeded'' NO,
      no_row ''compose_fanout_exceeded'' NO,
      no_row ''compose_fanout_item_failed'' NO,
      no_row ''compose_input_missing'' FIX,
      no_row ''compose_item_outside_for_each'' FIX,
      no_row ''compose_mapping_missing'' FIX,
      no_row ''compose_mapping_type'' FIX,
      no_row ''compose_self_call'' NO,
      yes_row ''concurrency_exceeded'' (Fixed 1000) 3 WAIT,
      yes_row ''docs_unavailable'' (Fixed 5000) 3 BACKOFF,
      yes_row ''drift_unavailable'' (Fixed 5000) 3 BACKOFF,
      yes_row ''egress_unavailable'' (Fixed 5000) 3 BACKOFF,
      no_row ''elicit_calls_exceeded'' NO,
      no_row ''elicit_schema_invalid'' FIX,
      no_row ''elicit_timeout'' NO,
      no_row ''elicit_unsupported'' NO,
      no_row ''exec'' NO,
      no_row ''fixture_shape_mismatch'' FIX,
      no_row ''fixture_step_ambiguous'' FIX,
      no_row ''fixture_step_unknown'' FIX,
      no_row ''handle_not_found'' FIX,
      no_row ''handle_quota_exceeded'' NO,
      no_row ''host_not_allowed'' NO,
      no_row ''jq_builtin_unsupported'' NO,
      no_row ''leak_test_failed'' NO,
      no_row ''lineage_blocked'' FIX,
      yes_row ''lineage_unavailable'' (Fixed 5000) 3 BACKOFF,
      yes_row ''msg_unavailable'' (Fixed 5000) 3 BACKOFF,
      no_row ''not_found'' FIX,
      no_row ''plan_required'' NO,
      no_row ''quota_exceeded'' NO,
      no_row ''requirement_not_allowed'' NO,
      no_row ''requirement_not_inferable'' NO,
      no_row ''response_too_large'' NO,
      no_row ''sampling_calls_exceeded'' NO,
      no_row ''sampling_quota_exceeded'' NO,
      yes_row ''sampling_timeout'' (Fixed 1000) 2 FIX,
      no_row ''sampling_unsupported'' NO,
      no_row ''secret_leak_blocked'' FIX,
      no_row ''state_quota_exceeded'' NO,
      yes_row ''state_unavailable'' (Fixed 5000) 3 BACKOFF,
      no_row ''table_already_exists'' FIX,
      no_row ''table_bound_exceeded'' FIX,
      no_row ''table_column_not_found'' FIX,
      no_row ''table_not_found'' FIX,
      no_row ''table_query_rejected'' FIX,
      no_row ''table_row_conflict'' FIX,
      yes_row ''table_unavailable'' (Fixed 5000) 3 BACKOFF,
      no_row ''template_error'' FIX,
      no_row ''tool_exception'' NO,
      no_row ''tool_oom'' NO,
      no_row ''tool_output_invalid'' NO,
      no_row ''tool_output_too_large'' NO,
      no_row ''tool_process_limit'' NO,
      no_row ''tool_run_unsupported'' NO,
      yes_row ''tool_timeout'' (Fixed 1000) 2 IDEM,
      no_row ''tool_trapped'' NO,
      no_row ''typescript_not_supported'' NO,
      no_row ''unknown_import'' FIX,
      no_row ''unknown_spec_field'' FIX,
      yes_row ''uptime_unavailable'' (Fixed 5000) 3 BACKOFF,
      no_row ''upstream_auth'' NO,
      yes_row ''upstream_rate_limited'' (Exponential 1000 60000) 3 AFTER,
      no_row ''upstream_client_error'' NO,
      yes_row ''upstream_error'' (Exponential 1000 30000) 3 BACKOFF,
      yes_row ''upstream_timeout'' (Exponential 1000 30000) 2 IDEM,
      yes_row ''upstream_unreachable'' (Exponential 1000 30000) 3 BACKOFF,
      no_row ''upstream_not_connected'' NO,
      yes_row ''sandbox_unavailable'' (Fixed 5000) 3 AFTER,
      yes_row ''signup_paused'' (Fixed 60000) 3 AFTER,
      yes_row ''signup_rate_limited'' (Exponential 1000 60000) 3 AFTER,
      yes_row ''service_unavailable'' (Exponential 1000 30000) 3 BACKOFF,
      yes_row ''tool_building'' (Fixed 2000) 5 WAIT,
      yes_row ''events_rate_limited'' (Exponential 1000 30000) 3 AFTER,
      yes_row ''rate_limited_host'' (Exponential 1000 30000) 3 AFTER,
      yes_row ''invite_rate_limited'' (Exponential 1000 60000) 3 AFTER]"

definition retry_policy :: "retry_row list" where
  "retry_policy = retry_rows_variants @ retry_rows_kinds"

definition policy_for :: "string \<Rightarrow> retry_row" where
  "policy_for c = (case find (\<lambda>r. row_code r = c) retry_policy of Some row \<Rightarrow> row | None \<Rightarrow> default_unknown)"

definition retryable_codes :: "string list" where
  "retryable_codes = map row_code (filter row_retryable retry_policy)"

definition is_retryable_code :: "string \<Rightarrow> bool" where
  "is_retryable_code c \<longleftrightarrow> list_ex (\<lambda>r. row_code r = c \<and> row_retryable r) retry_policy"

definition attempt_from_meta :: "(string \<times> json) list option \<Rightarrow> nat" where
  "attempt_from_meta meta =
     (case Option.bind (Option.bind meta (\<lambda>m. map_of m ''attempt'')) as_u64 of
        Some n \<Rightarrow> min (max n 1) u32_max
      | None \<Rightarrow> 1)"

definition retry_block :: "string \<Rightarrow> nat option \<Rightarrow> nat \<Rightarrow> json" where
  "retry_block c retry_after_s attempt =
     (let row = policy_for c;
          attempts_left = row_max_attempts row - attempt;
          retryable = row_retryable row \<and> attempts_left > 0;
          wait = (if retryable
                  then or_else (map_option (\<lambda>s. sat_u64 (s * 1000)) retry_after_s) (after_ms (row_backoff row) attempt)
                  else None)
      in mk_obj [(''retryable'', JBool retryable), (''after_ms'', opt_json (\<lambda>n. JInt (int n)) wait),
                 (''attempts_left'', JInt (int attempts_left)), (''policy'', JStr (row_policy row))])"

definition attach :: "(string \<times> json) list \<Rightarrow> string \<Rightarrow> nat \<Rightarrow> (string \<times> json) list" where
  "attach obj c attempt =
     (let retry_after_s = Option.bind (or_else (map_of obj ''retry_after_s'') (map_of obj ''retry_after_secs'')) as_u64
      in obj_insert ''retry'' (retry_block c retry_after_s attempt) obj)"

section \<open>Facts\<close>

lemma after_ms_le: "after_ms (Exponential b m) n = Some w \<Longrightarrow> w \<le> m"
  by auto

lemma after_ms_mono:
  assumes "after_ms bo n = Some w" "after_ms bo n' = Some w'" "n \<le> n'"
  shows "w \<le> w'"
proof (cases bo)
  case (Exponential b m)
  have "min (n - 1) 32 \<le> min (n' - 1) 32" using assms(3) by auto
  then have "b * 2 ^ min (n - 1) 32 \<le> b * 2 ^ min (n' - 1) 32"
    by (intro mult_le_mono2 power_increasing) auto
  then have "sat_u64 (b * 2 ^ min (n - 1) 32) \<le> sat_u64 (b * 2 ^ min (n' - 1) 32)" by (rule sat_u64_mono)
  with assms(1,2) Exponential show ?thesis by (auto simp: min_def)
qed (use assms in auto)

lemmas retry_tables = retry_policy_def retry_rows_variants_def retry_rows_kinds_def

lemma row_code_simps [simp]:
  "row_code (no_row c p) = c" "row_code (yes_row c b n p) = c"
  "row_retryable (no_row c p) = False" "row_retryable (yes_row c b n p) = True"
  by (simp_all add: no_row_def yes_row_def)

lemma yes_row_sel [simp]:
  "row_max_attempts (yes_row c b n p) = n" "row_backoff (yes_row c b n p) = b"
  "row_max_attempts (no_row c p) = 1"
  by (simp_all add: no_row_def yes_row_def)

lemma retry_policy_distinct: "distinct (map row_code retry_policy)"
  unfolding retry_tables by simp

lemma retry_policy_rows:
  "list_all (\<lambda>r. (row_retryable r \<longrightarrow> row_backoff r \<noteq> BackoffNone) \<and> row_max_attempts r \<le> 5) retry_policy"
  unfolding retry_tables by simp

lemma find_row:
  "distinct (map row_code rs) \<Longrightarrow> r \<in> set rs \<Longrightarrow> find (\<lambda>r'. row_code r' = row_code r) rs = Some r"
  by (induction rs) (auto intro: rev_image_eqI)

lemma policy_for_row: "r \<in> set retry_policy \<Longrightarrow> policy_for (row_code r) = r"
  by (simp add: policy_for_def find_row retry_policy_distinct)

lemma policy_for_unknown: "c \<notin> row_code ` set retry_policy \<Longrightarrow> policy_for c = default_unknown"
  by (auto simp: policy_for_def split: option.splits dest!: find_hit)

lemma policy_for_cases:
  obtains "policy_for c \<in> set retry_policy" "row_code (policy_for c) = c"
  | "c \<notin> row_code ` set retry_policy" "policy_for c = default_unknown"
  using policy_for_row policy_for_unknown by (metis imageE)

lemma is_retryable_policy: "is_retryable_code c \<longleftrightarrow> row_retryable (policy_for c)"
proof (cases rule: policy_for_cases[of c])
  case 1
  then show ?thesis
    using policy_for_row by (auto simp: is_retryable_code_def list_ex_iff intro: bexI[of _ "policy_for c"])
next
  case 2
  then show ?thesis by (auto simp: is_retryable_code_def list_ex_iff default_unknown_def)
qed

lemma policy_for_ok:
  "row_retryable (policy_for c) \<Longrightarrow> row_backoff (policy_for c) \<noteq> BackoffNone"
  "row_max_attempts (policy_for c) \<le> 5"
  using retry_policy_rows
  by (cases rule: policy_for_cases[of c]; auto simp: list_all_iff default_unknown_def)+

lemma after_ms_Some: "b \<noteq> BackoffNone \<Longrightarrow> after_ms b n \<noteq> None"
  by (cases b) auto

lemma or_else_Some: "or_else x y = None \<longleftrightarrow> x = None \<and> y = None"
  by (cases x) auto

lemma retry_block_get:
  "json_get ''retryable'' (retry_block c ra n) =
     Some (JBool (row_retryable (policy_for c) \<and> n < row_max_attempts (policy_for c)))"
  "json_get ''attempts_left'' (retry_block c ra n) = Some (JInt (int (row_max_attempts (policy_for c) - n)))"
  "json_get ''after_ms'' (retry_block c ra n) = Some JNull \<longleftrightarrow>
     \<not> (row_retryable (policy_for c) \<and> n < row_max_attempts (policy_for c))"
  using policy_for_ok(1)[of c] after_ms_Some[of "row_backoff (policy_for c)" n]
  by (auto simp: retry_block_def Let_def opt_json_def or_else_Some split: option.splits)

fun own_code :: "app_error \<Rightarrow> bool" where
  "own_code (Structured _ _ _) = False"
| "own_code (MultiInvalid _ errors) = (case errors of [] \<Rightarrow> True | e # _ \<Rightarrow> own_code e)"
| "own_code _ = True"

lemma own_code_row: "own_code e \<Longrightarrow> code e \<in> row_code ` set retry_policy"
proof (induction e rule: own_code.induct)
  case (2 m errors)
  have "''invalid_spec'' \<in> set (map row_code retry_policy)"
    unfolding retry_tables by simp
  with 2 show ?case by (cases errors) auto
qed (unfold set_map[symmetric] retry_tables, simp_all)

section \<open>Properties\<close>

text \<open>C17. The \<open>data.retry\<close> block is a bounded invitation: on attempt \<open>n\<close> it says retryable exactly when
  the code's row is retryable and \<open>n\<close> is below the row's attempts, \<open>attempts_left\<close> is the difference,
  \<open>after_ms\<close> is null exactly when no retry is invited, and no code allows more than five attempts.\<close>

theorem retry_block_correct:
  "json_get ''retryable'' (retry_block c ra n) =
       Some (JBool (is_retryable_code c \<and> n < row_max_attempts (policy_for c)))
     \<and> json_get ''attempts_left'' (retry_block c ra n) = Some (JInt (int (row_max_attempts (policy_for c) - n)))
     \<and> (json_get ''after_ms'' (retry_block c ra n) = Some JNull \<longleftrightarrow>
          \<not> (is_retryable_code c \<and> n < row_max_attempts (policy_for c)))
     \<and> row_max_attempts (policy_for c) \<le> 5"
  using retry_block_get[of c ra n] policy_for_ok(2)[of c] by (simp add: is_retryable_policy)

text \<open>Every error of the host that has a code of its own (all but a structured error, and a batch
  that starts with one) has a row in the retry table, so its retry block is never the default of an
  unknown code.\<close>

theorem retry_table_covers_variants:
  "own_code e \<Longrightarrow> row_code (policy_for (code e)) = code e"
  using own_code_row[of e] policy_for_row by auto

theorem retry_table_covers_variants_witness:
  "row_code (policy_for ''call_timeout'') = ''call_timeout''"
  using retry_table_covers_variants[of "CallTimeout 30"] by simp

text \<open>The wait never shrinks from one attempt to the next, and an exponential wait stays under its
  ceiling, also where \<open>u64\<close> multiplication saturates.\<close>

theorem backoff_monotone_bounded:
  "after_ms bo n = Some w \<Longrightarrow> after_ms bo n' = Some w' \<Longrightarrow> n \<le> n' \<Longrightarrow>
     w \<le> w' \<and> (\<forall>b m. bo = Exponential b m \<longrightarrow> w' \<le> m)"
  using after_ms_mono after_ms_le by blast

theorem backoff_monotone_bounded_witness:
  "(500::nat) \<le> 8000 \<and> (8000::nat) \<le> 8000"
  using backoff_monotone_bounded[of "Exponential 500 8000" 1 500 40 8000]
  by (simp add: sat_u64_def u64_max_def)

end
