(* ===== verification/Budget.thy ===== *)
theory Budget
  imports Errors
begin

text \<open>
  The run budget of \<open>budget.rs\<close>: \<open>budget_limits\<close> and \<open>budget_ledger\<close> with \<open>check\<close>, \<open>record\<close> and
  \<open>fraction_used\<close>, the resolution of a requested budget against a plan (\<open>resolve_with\<close>, with
  \<open>budget_defaults\<close> of \<open>plans.rs\<close>), and the tracker whose \<open>persist\<close> raises one alert per run.
  Counters are \<open>i64\<close>: an addition wraps as it does in a release build. A fraction is the exact
  quotient, which the code's \<open>f64\<close> agrees with on the comparisons made here while the counters stay
  below 2 to the 50. The state a tracker keeps is its ledger and the time of its first alert; the
  lemmas show what each verdict means, that counters never shrink while they stay in range, that a
  request can only lower a plan's limits and that at most one alert is raised.
\<close>

section \<open>Limits and ledger\<close>

datatype dimension = ChildCalls | EstTokens | ToolLatencyMs | WallMs

fun dimension_as_str :: "dimension \<Rightarrow> string" where
  "dimension_as_str ChildCalls = ''child_calls''"
| "dimension_as_str EstTokens = ''est_tokens''"
| "dimension_as_str ToolLatencyMs = ''tool_latency_ms''"
| "dimension_as_str WallMs = ''wall_ms''"

datatype verdict = VOk | VAlert | VExceeded dimension

fun verdict_as_str :: "verdict \<Rightarrow> string" where
  "verdict_as_str VOk = ''ok''"
| "verdict_as_str VAlert = ''alert''"
| "verdict_as_str (VExceeded _) = ''exceeded''"

definition verdict_names :: "string list" where
  "verdict_names = [''ok'', ''alert'', ''exceeded'']"

definition verdict_schema_property :: json where
  "verdict_schema_property =
     mk_obj [(''type'', JStr ''string''), (''enum'', JStrs verdict_names),
       (''description'', JStr (''Only runs whose progress.budget.verdict is this value (''
          @ join ''|'' verdict_names @ '') -- a run with no budget block never matches.''))]"

record budget_limits =
  max_child_calls :: "int option"
  max_est_tokens :: "int option"
  max_tool_latency_ms :: "int option"
  max_wall_ms :: "int option"
  alert_fraction :: rat

definition default_alert_fraction :: rat where
  "default_alert_fraction = 4 / 5"

definition unconstrained :: budget_limits where
  "unconstrained = \<lparr>max_child_calls = None, max_est_tokens = None, max_tool_latency_ms = None,
     max_wall_ms = None, alert_fraction = default_alert_fraction\<rparr>"

definition limits_to_json :: "budget_limits \<Rightarrow> json" where
  "limits_to_json l =
     mk_obj [(''max_child_calls'', opt_json JInt (max_child_calls l)),
             (''max_est_tokens'', opt_json JInt (max_est_tokens l)),
             (''max_tool_latency_ms'', opt_json JInt (max_tool_latency_ms l)),
             (''max_wall_ms'', opt_json JInt (max_wall_ms l)),
             (''alert_fraction'', JFloat (alert_fraction l))]"

definition limits_from_json :: "json \<Rightarrow> budget_limits" where
  "limits_from_json v =
     \<lparr>max_child_calls = Option.bind (json_get ''max_child_calls'' v) as_i64,
      max_est_tokens = Option.bind (json_get ''max_est_tokens'' v) as_i64,
      max_tool_latency_ms = Option.bind (json_get ''max_tool_latency_ms'' v) as_i64,
      max_wall_ms = Option.bind (json_get ''max_wall_ms'' v) as_i64,
      alert_fraction = (case Option.bind (json_get ''alert_fraction'' v) as_f64 of
          Some r \<Rightarrow> r | None \<Rightarrow> default_alert_fraction)\<rparr>"

record budget_ledger =
  started_ms :: int
  child_calls :: int
  est_tokens :: int
  tool_latency_ms :: int

definition ledger_new :: "int \<Rightarrow> budget_ledger" where
  "ledger_new now = \<lparr>started_ms = now, child_calls = 0, est_tokens = 0, tool_latency_ms = 0\<rparr>"

definition ledger_record :: "int \<Rightarrow> int \<Rightarrow> budget_ledger \<Rightarrow> budget_ledger" where
  "ledger_record tokens latency_ms l =
     l\<lparr>child_calls := wrap_i64 (child_calls l + 1),
       est_tokens := wrap_i64 (est_tokens l + max tokens 0),
       tool_latency_ms := wrap_i64 (tool_latency_ms l + max latency_ms 0)\<rparr>"

definition fraction :: "int \<Rightarrow> int option \<Rightarrow> rat option" where
  "fraction value lmt = map_option (\<lambda>l. if l \<le> 0 then 1 else of_int value / of_int l) lmt"

definition wall_ms :: "budget_ledger \<Rightarrow> int \<Rightarrow> int" where
  "wall_ms l now_ms = max (wrap_i64 (now_ms - started_ms l)) 0"

definition active_fractions :: "budget_ledger \<Rightarrow> budget_limits \<Rightarrow> int \<Rightarrow> (dimension \<times> rat) list" where
  "active_fractions l limits now_ms =
     List.map_filter (\<lambda>(d, f). map_option (Pair d) f)
       [(ChildCalls, fraction (child_calls l) (max_child_calls limits)),
        (EstTokens, fraction (est_tokens l) (max_est_tokens limits)),
        (ToolLatencyMs, fraction (tool_latency_ms l) (max_tool_latency_ms limits)),
        (WallMs, fraction (wall_ms l now_ms) (max_wall_ms limits))]"

definition ledger_check :: "budget_ledger \<Rightarrow> budget_limits \<Rightarrow> int \<Rightarrow> verdict" where
  "ledger_check l limits now_ms =
     (let fractions = active_fractions l limits now_ms
      in case find (\<lambda>(_, f). 1 \<le> f) fractions of
           Some (d, _) \<Rightarrow> VExceeded d
         | None \<Rightarrow> if list_ex (\<lambda>(_, f). alert_fraction limits \<le> f) fractions then VAlert else VOk)"

definition fraction_used :: "budget_ledger \<Rightarrow> budget_limits \<Rightarrow> int \<Rightarrow> rat" where
  "fraction_used l limits now_ms = fold (\<lambda>f acc. max acc f) (map snd (active_fractions l limits now_ms)) 0"

fun used_of :: "budget_ledger \<Rightarrow> dimension \<Rightarrow> int \<Rightarrow> int" where
  "used_of l ChildCalls _ = child_calls l"
| "used_of l EstTokens _ = est_tokens l"
| "used_of l ToolLatencyMs _ = tool_latency_ms l"
| "used_of l WallMs now_ms = wall_ms l now_ms"

fun limit_of :: "budget_limits \<Rightarrow> dimension \<Rightarrow> int option" where
  "limit_of b ChildCalls = max_child_calls b"
| "limit_of b EstTokens = max_est_tokens b"
| "limit_of b ToolLatencyMs = max_tool_latency_ms b"
| "limit_of b WallMs = max_wall_ms b"

definition used_and_limit :: "budget_ledger \<Rightarrow> budget_limits \<Rightarrow> dimension \<Rightarrow> int \<Rightarrow> int \<times> int" where
  "used_and_limit l limits d now_ms =
     (used_of l d now_ms, case limit_of limits d of Some m \<Rightarrow> m | None \<Rightarrow> i64_max)"

definition estimate_tokens :: "(json \<Rightarrow> string) \<Rightarrow> json \<Rightarrow> json \<Rightarrow> int" where
  "estimate_tokens to_string args result =
     (int (str_len (to_string args) + str_len (to_string result)) + 3) div 4"

section \<open>Resolving a request\<close>

record plan_budget =
  budget_max_child_calls :: int
  budget_max_est_tokens :: int
  budget_max_tool_latency_ms :: int
  budget_max_wall_ms :: int

definition compose_children_max :: int where
  "compose_children_max = 50"

definition budget_defaults :: "plan_budget \<Rightarrow> budget_limits" where
  "budget_defaults p =
     \<lparr>max_child_calls = Some (min (budget_max_child_calls p) compose_children_max),
      max_est_tokens = Some (budget_max_est_tokens p),
      max_tool_latency_ms = Some (budget_max_tool_latency_ms p),
      max_wall_ms = Some (budget_max_wall_ms p),
      alert_fraction = default_alert_fraction\<rparr>"

definition budget_ceiling_see :: string where
  "budget_ceiling_see = ''host.quickstart.limits.plan''"

text \<open>The macro \<open>field!\<close> for one key: the ceiling of the slot, and how to set it.\<close>

definition budget_field ::
    "(string \<Rightarrow> int \<Rightarrow> int \<Rightarrow> json) \<Rightarrow> (string \<times> json) list \<Rightarrow> string \<Rightarrow> int option
      \<Rightarrow> (int \<Rightarrow> budget_limits \<Rightarrow> budget_limits) \<Rightarrow> budget_limits \<Rightarrow> app_error + budget_limits" where
  "budget_field next_for obj key slot set_slot limits =
     (case map_of obj key of
        None \<Rightarrow> Inr limits
      | Some v \<Rightarrow>
          (case as_i64 v of
             Some requested \<Rightarrow>
               if requested > 0 then
                 (let ceiling = (case slot of Some c \<Rightarrow> c | None \<Rightarrow> i64_max) in
                  if requested > ceiling then
                    Inl (Structured ''budget_ceiling_exceeded''
                      (''budget.'' @ key @ '': '' @ show_int requested
                         @ '' exceeds this plan's ceiling of '' @ show_int ceiling)
                      (mk_obj [(''field'', JStr (''budget.'' @ key)), (''ceiling'', JInt ceiling),
                               (''requested'', JInt requested), (''next'', next_for key requested ceiling),
                               (''see'', JStr budget_ceiling_see)]))
                  else Inr (set_slot requested limits))
               else Inl (InvalidArgs ([CHR 0x27] @ ''budget.'' @ key @ [CHR 0x27] @ '' must be a positive integer''))
           | None \<Rightarrow> Inl (InvalidArgs ([CHR 0x27] @ ''budget.'' @ key @ [CHR 0x27] @ '' must be a positive integer''))))"

fun bind_res :: "'e + 'a \<Rightarrow> ('a \<Rightarrow> 'e + 'b) \<Rightarrow> 'e + 'b" where
  "bind_res (Inl e) _ = Inl e"
| "bind_res (Inr x) f = f x"

definition resolve_with ::
    "plan_budget \<Rightarrow> json option \<Rightarrow> (string \<Rightarrow> int \<Rightarrow> int \<Rightarrow> json) \<Rightarrow> app_error + budget_limits" where
  "resolve_with plan requested next_for =
     (let defaults = budget_defaults plan in
      case requested of
        None \<Rightarrow> Inr defaults
      | Some r \<Rightarrow>
          if is_null r then Inr defaults
          else (case as_object r of
              None \<Rightarrow> Inl (InvalidArgs ([CHR 0x27] @ ''budget'' @ [CHR 0x27] @ '' must be an object''))
            | Some obj \<Rightarrow>
                bind_res (budget_field next_for obj ''max_child_calls'' (max_child_calls defaults)
                            (\<lambda>n l. l\<lparr>max_child_calls := Some n\<rparr>) defaults) (\<lambda>l.
                bind_res (budget_field next_for obj ''max_est_tokens'' (max_est_tokens defaults)
                            (\<lambda>n l. l\<lparr>max_est_tokens := Some n\<rparr>) l) (\<lambda>l.
                bind_res (budget_field next_for obj ''max_tool_latency_ms'' (max_tool_latency_ms defaults)
                            (\<lambda>n l. l\<lparr>max_tool_latency_ms := Some n\<rparr>) l) (\<lambda>l.
                budget_field next_for obj ''max_wall_ms'' (max_wall_ms defaults)
                            (\<lambda>n l. l\<lparr>max_wall_ms := Some n\<rparr>) l)))))"

section \<open>The tracker\<close>

record budget_tracker =
  trk_limits :: budget_limits
  trk_ledger :: budget_ledger
  alerted_at_unix :: int
  trk_run_id :: string
  trk_tenant_id :: int

definition tracker_new :: "int \<Rightarrow> string \<Rightarrow> budget_limits \<Rightarrow> int \<Rightarrow> budget_tracker" where
  "tracker_new tenant_id run_id limits now_ms =
     \<lparr>trk_limits = limits, trk_ledger = ledger_new now_ms, alerted_at_unix = 0, trk_run_id = run_id,
      trk_tenant_id = tenant_id\<rparr>"

definition tracker_check :: "budget_tracker \<Rightarrow> int \<Rightarrow> verdict" where
  "tracker_check t now_ms = ledger_check (trk_ledger t) (trk_limits t) now_ms"

definition tracker_record :: "int \<Rightarrow> int \<Rightarrow> budget_tracker \<Rightarrow> budget_tracker" where
  "tracker_record tokens latency_ms t = t\<lparr>trk_ledger := ledger_record tokens latency_ms (trk_ledger t)\<rparr>"

definition exceeded_detail :: "(string \<Rightarrow> int \<Rightarrow> int \<Rightarrow> json) \<Rightarrow> budget_tracker \<Rightarrow> dimension \<Rightarrow> int \<Rightarrow> json" where
  "exceeded_detail next_upgrade t d now_ms =
     (let (used, lmt) = used_and_limit (trk_ledger t) (trk_limits t) d now_ms
      in mk_obj [(''dimension'', JStr (dimension_as_str d)), (''limit'', JInt lmt), (''used'', JInt used),
                 (''next'', next_upgrade (dimension_as_str d) used lmt)])"

definition tracker_snapshot :: "budget_tracker \<Rightarrow> int \<Rightarrow> json" where
  "tracker_snapshot t now_ms =
     (let l = trk_ledger t;
          base = [(''limits'', limits_to_json (trk_limits t)),
                  (''used'', mk_obj [(''child_calls'', JInt (child_calls l)), (''est_tokens'', JInt (est_tokens l)),
                     (''tool_latency_ms'', JInt (tool_latency_ms l)), (''wall_ms'', JInt (wall_ms l now_ms))]),
                  (''fraction'', JFloat (fraction_used l (trk_limits t) now_ms)),
                  (''verdict'', JStr (verdict_as_str (ledger_check l (trk_limits t) now_ms)))]
      in mk_obj (if alerted_at_unix t > 0 then base @ [(''alerted_at_unix'', JInt (alerted_at_unix t))] else base))"

text \<open>\<open>persist\<close>: the tracker after the call, the run's new \<open>progress_json\<close> when the run exists, and
  the alert raised, if any. \<open>progress\<close> is the row's parsed progress.\<close>

record budget_alert =
  alert_key :: string
  alert_title :: string
  alert_body :: json

definition persist ::
    "int \<Rightarrow> int \<Rightarrow> json option \<Rightarrow> budget_tracker \<Rightarrow> budget_tracker \<times> json option \<times> budget_alert option" where
  "persist now_ms now_unix progress t =
     (let v = tracker_check t now_ms;
          just_alerted = (v \<noteq> VOk \<and> alerted_at_unix t = 0);
          t' = (if just_alerted then t\<lparr>alerted_at_unix := now_unix\<rparr> else t);
          snapshot = tracker_snapshot t' now_ms;
          written = map_option (\<lambda>p. JObj (obj_insert ''budget'' snapshot (case as_object p of Some m \<Rightarrow> m | None \<Rightarrow> []))) progress
      in (t', written,
          if just_alerted
          then Some \<lparr>alert_key = ''run.budget_alert:'' @ trk_run_id t,
                     alert_title = ''run '' @ trk_run_id t @ '' crossed its budget alert threshold'',
                     alert_body = mk_obj [(''run_id'', JStr (trk_run_id t)), (''tenant_id'', JInt (trk_tenant_id t)),
                                          (''budget'', snapshot)]\<rparr>
          else None))"

section \<open>What the verdicts mean\<close>

text \<open>A dimension is reached when its use is at its limit, or when the limit is not positive.\<close>

definition reached :: "budget_ledger \<Rightarrow> budget_limits \<Rightarrow> int \<Rightarrow> dimension \<Rightarrow> bool" where
  "reached l b now_ms d \<longleftrightarrow>
     (case limit_of b d of None \<Rightarrow> False | Some m \<Rightarrow> m \<le> 0 \<or> m \<le> used_of l d now_ms)"

definition alarming :: "budget_ledger \<Rightarrow> budget_limits \<Rightarrow> int \<Rightarrow> dimension \<Rightarrow> bool" where
  "alarming l b now_ms d \<longleftrightarrow>
     (case limit_of b d of None \<Rightarrow> False
      | Some m \<Rightarrow> alert_fraction b * of_int m \<le> of_int (used_of l d now_ms))"

definition dimensions :: "dimension list" where
  "dimensions = [ChildCalls, EstTokens, ToolLatencyMs, WallMs]"

lemma active_fractions_eq:
  "active_fractions l b now_ms =
     List.map_filter (\<lambda>d. map_option (Pair d) (fraction (used_of l d now_ms) (limit_of b d))) dimensions"
  by (simp add: active_fractions_def dimensions_def List.map_filter_def)

lemma fraction_one: "fraction v (Some m) = Some f \<Longrightarrow> 1 \<le> f \<longleftrightarrow> m \<le> 0 \<or> m \<le> v"
  by (auto simp: fraction_def le_divide_eq split: if_splits)

lemma fraction_part: "0 < m \<Longrightarrow> fraction v (Some m) = Some f \<Longrightarrow> c \<le> f \<longleftrightarrow> c * of_int m \<le> of_int v"
  by (auto simp: fraction_def le_divide_eq)

lemma fraction_None [simp]: "fraction v None = None"
  by (simp add: fraction_def)

lemma find_map_filter_pair:
  assumes "\<And>d f. g d = Some f \<Longrightarrow> Q f = R d" "\<And>d. g d = None \<Longrightarrow> \<not> R d"
  shows "find (\<lambda>(_, f). Q f) (List.map_filter (\<lambda>d. map_option (Pair d) (g d)) ds) =
           map_option (\<lambda>d. (d, the (g d))) (find R ds)"
proof (induction ds)
  case (Cons d ds)
  then show ?case using assms by (cases "g d") (auto simp: List.map_filter_simps)
qed (simp add: List.map_filter_simps)

lemma ledger_check_eq:
  "ledger_check l b now_ms =
     (case find (reached l b now_ms) dimensions of
        Some d \<Rightarrow> VExceeded d
      | None \<Rightarrow> if list_ex (alarming l b now_ms) dimensions then VAlert else VOk)"
proof -
  let ?g = "\<lambda>d. fraction (used_of l d now_ms) (limit_of b d)"
  have q: "?g d = Some f \<Longrightarrow> 1 \<le> f \<longleftrightarrow> reached l b now_ms d" for d f
    by (cases "limit_of b d") (auto simp: reached_def fraction_one)
  have n: "?g d = None \<Longrightarrow> \<not> reached l b now_ms d" for d
    by (cases "limit_of b d") (auto simp: reached_def fraction_def)
  have fnd: "find (\<lambda>(_, f). 1 \<le> f) (active_fractions l b now_ms) =
      map_option (\<lambda>d. (d, the (?g d))) (find (reached l b now_ms) dimensions)"
    unfolding active_fractions_eq by (rule find_map_filter_pair) (use q n in auto)
  have al: "alert_fraction b \<le> f \<longleftrightarrow> alarming l b now_ms d"
    if "?g d = Some f" "\<not> reached l b now_ms d" for d f
  proof (cases "limit_of b d")
    case (Some m)
    with that have "0 < m" by (auto simp: reached_def)
    with Some that show ?thesis by (simp add: alarming_def fraction_part)
  qed (use that in simp)
  have aln: "\<not> alarming l b now_ms d" if "?g d = None" for d
    using that by (cases "limit_of b d") (auto simp: alarming_def fraction_def)
  have "list_ex (\<lambda>(_, f). alert_fraction b \<le> f) (List.map_filter (\<lambda>d. map_option (Pair d) (?g d)) ds)
      = list_ex (alarming l b now_ms) ds" if "\<forall>d \<in> set ds. \<not> reached l b now_ms d" for ds
    using that
  proof (induction ds)
    case (Cons d ds)
    then show ?case using al[of d] aln[of d] by (cases "?g d") (auto simp: List.map_filter_simps)
  qed (simp add: List.map_filter_simps)
  then have ex: "find (reached l b now_ms) dimensions = None \<Longrightarrow>
      list_ex (\<lambda>(_, f). alert_fraction b \<le> f) (active_fractions l b now_ms)
        = list_ex (alarming l b now_ms) dimensions"
    unfolding active_fractions_eq find_None_iff by blast
  show ?thesis using ex by (simp add: ledger_check_def Let_def fnd split: option.splits)
qed

lemma reached_exceeded: "(\<exists>d. reached l b now_ms d) \<longleftrightarrow> (\<exists>d. ledger_check l b now_ms = VExceeded d)"
proof -
  have all: "d \<in> set dimensions" for d by (cases d) (auto simp: dimensions_def)
  show ?thesis
  proof (cases "find (reached l b now_ms) dimensions")
    case None
    with all have "\<not> reached l b now_ms d" for d by (auto simp: find_None_iff)
    moreover have "ledger_check l b now_ms \<noteq> VExceeded d" for d
      using None by (simp add: ledger_check_eq)
    ultimately show ?thesis by blast
  next
    case (Some d)
    with find_hit[OF Some] show ?thesis by (auto simp: ledger_check_eq)
  qed
qed

text \<open>The additions a recording makes do not overflow.\<close>

definition record_fits :: "int \<Rightarrow> int \<Rightarrow> budget_ledger \<Rightarrow> bool" where
  "record_fits tokens latency_ms l \<longleftrightarrow>
     in_i64 (child_calls l + 1) \<and> in_i64 (est_tokens l + max tokens 0) \<and> in_i64 (tool_latency_ms l + max latency_ms 0)"

lemma used_of_record:
  assumes "record_fits tokens latency_ms l" "now_ms \<le> now_ms'"
    and "in_i64 (now_ms - started_ms l)" "in_i64 (now_ms' - started_ms l)"
  shows "used_of l d now_ms \<le> used_of (ledger_record tokens latency_ms l) d now_ms'"
  using assms by (cases d) (auto simp: record_fits_def ledger_record_def wall_ms_def wrap_i64_id)

lemma reached_mono:
  "used_of l d now_ms \<le> used_of l' d now_ms' \<Longrightarrow> reached l b now_ms d \<Longrightarrow> reached l' b now_ms' d"
  by (auto simp: reached_def split: option.splits)

section \<open>Resolution\<close>

lemma budget_field_Inr:
  assumes "budget_field nf obj key slot set_slot limits = Inr l"
  shows "(map_of obj key = None \<and> l = limits) \<or>
         (\<exists>n. map_of obj key = Some (JInt n) \<and> 0 < n \<and> in_i64 n \<and> (\<forall>c. slot = Some c \<longrightarrow> n \<le> c)
            \<and> l = set_slot n limits)"
proof (cases "map_of obj key")
  case (Some v)
  with assms show ?thesis
    by (cases v) (auto simp: budget_field_def Let_def split: if_splits option.splits)
qed (use assms in \<open>simp add: budget_field_def\<close>)

lemma bind_res_Inr: "bind_res m f = Inr y \<longleftrightarrow> (\<exists>x. m = Inr x \<and> f x = Inr y)"
  by (cases m) auto

lemma limit_of_update [simp]:
  "limit_of (b\<lparr>max_child_calls := x\<rparr>) d = (if d = ChildCalls then x else limit_of b d)"
  "limit_of (b\<lparr>max_est_tokens := x\<rparr>) d = (if d = EstTokens then x else limit_of b d)"
  "limit_of (b\<lparr>max_tool_latency_ms := x\<rparr>) d = (if d = ToolLatencyMs then x else limit_of b d)"
  "limit_of (b\<lparr>max_wall_ms := x\<rparr>) d = (if d = WallMs then x else limit_of b d)"
  by (cases d; simp)+

text \<open>The key of a request that sets a dimension's limit.\<close>

fun budget_key :: "dimension \<Rightarrow> string" where
  "budget_key ChildCalls = ''max_child_calls''"
| "budget_key EstTokens = ''max_est_tokens''"
| "budget_key ToolLatencyMs = ''max_tool_latency_ms''"
| "budget_key WallMs = ''max_wall_ms''"

lemma resolve_with_object:
  assumes "resolve_with p (Some (JObj obj)) nf = Inr l"
  shows "limit_of l d = (case map_of obj (budget_key d) of
             Some (JInt n) \<Rightarrow> Some n | _ \<Rightarrow> limit_of (budget_defaults p) d)
         \<and> (\<forall>v. map_of obj (budget_key d) = Some v \<longrightarrow>
              (\<exists>n. v = JInt n \<and> 0 < n \<and> (\<forall>c. limit_of (budget_defaults p) d = Some c \<longrightarrow> n \<le> c)))
         \<and> alert_fraction l = default_alert_fraction"
proof -
  let ?D = "budget_defaults p"
  from assms obtain l1 l2 l3 where
    f1: "budget_field nf obj ''max_child_calls'' (max_child_calls ?D) (\<lambda>n l. l\<lparr>max_child_calls := Some n\<rparr>) ?D = Inr l1"
    and f2: "budget_field nf obj ''max_est_tokens'' (max_est_tokens ?D) (\<lambda>n l. l\<lparr>max_est_tokens := Some n\<rparr>) l1 = Inr l2"
    and f3: "budget_field nf obj ''max_tool_latency_ms'' (max_tool_latency_ms ?D) (\<lambda>n l. l\<lparr>max_tool_latency_ms := Some n\<rparr>) l2 = Inr l3"
    and f4: "budget_field nf obj ''max_wall_ms'' (max_wall_ms ?D) (\<lambda>n l. l\<lparr>max_wall_ms := Some n\<rparr>) l3 = Inr l"
    by (auto simp: resolve_with_def Let_def bind_res_Inr)
  have "alert_fraction ?D = default_alert_fraction" by (simp add: budget_defaults_def)
  then show ?thesis
    using budget_field_Inr[OF f1] budget_field_Inr[OF f2] budget_field_Inr[OF f3] budget_field_Inr[OF f4]
    by (cases d) auto
qed

lemma resolve_with_lowers:
  assumes "resolve_with p r nf = Inr l"
  shows "\<exists>m c. limit_of l d = Some m \<and> limit_of (budget_defaults p) d = Some c \<and> m \<le> c \<and> (m = c \<or> 0 < m)"
proof -
  obtain c where c: "limit_of (budget_defaults p) d = Some c"
    by (cases d) (auto simp: budget_defaults_def)
  consider "l = budget_defaults p" | obj where "r = Some (JObj obj)"
    using assms by (cases r; cases "the r") (auto simp: resolve_with_def Let_def)
  then show ?thesis
  proof cases
    case 1
    with c show ?thesis by simp
  next
    case (2 obj)
    from resolve_with_object[OF assms[unfolded 2], of d] c show ?thesis
      by (cases "map_of obj (budget_key d)") auto
  qed
qed

section \<open>Alerts over a run\<close>

text \<open>What happens to one tracker: child calls are recorded and progress is persisted, in any order.
  The compare-and-exchange on \<open>alerted_at_unix\<close> makes a concurrent run of these one of the sequences.\<close>

datatype tracker_op = OpRecord int int | OpPersist int int "json option"

fun tracker_run :: "tracker_op list \<Rightarrow> budget_tracker \<Rightarrow> budget_alert list" where
  "tracker_run [] t = []"
| "tracker_run (OpRecord tokens lat # ops) t = tracker_run ops (tracker_record tokens lat t)"
| "tracker_run (OpPersist now_ms now_unix progress # ops) t =
     (let (t', _, a) = persist now_ms now_unix progress t
      in (case a of Some x \<Rightarrow> [x] | None \<Rightarrow> []) @ tracker_run ops t')"

definition op_ok :: "tracker_op \<Rightarrow> bool" where
  "op_ok ope = (case ope of OpPersist _ now_unix _ \<Rightarrow> 0 < now_unix | _ \<Rightarrow> True)"

lemma tracker_run_alerted: "alerted_at_unix t \<noteq> 0 \<Longrightarrow> tracker_run ops t = []"
  by (induction ops t rule: tracker_run.induct) (auto simp: tracker_record_def persist_def Let_def)

lemma tracker_run_at_most_one:
  "list_all op_ok ops \<Longrightarrow> length (tracker_run ops t) \<le> 1"
proof (induction ops t rule: tracker_run.induct)
  case (3 now_ms now_unix progress ops t)
  obtain t' w a where p: "persist now_ms now_unix progress t = (t', w, a)" by (cases "persist now_ms now_unix progress t")
  show ?case
  proof (cases a)
    case None
    with p 3 show ?thesis by simp
  next
    case (Some x)
    with p 3(2) have "alerted_at_unix t' \<noteq> 0"
      by (auto simp: persist_def Let_def op_ok_def split: if_splits)
    with p Some show ?thesis by (simp add: tracker_run_alerted)
  qed
qed auto

lemma limits_roundtrip:
  assumes "\<And>d m. limit_of b d = Some m \<Longrightarrow> in_i64 m"
  shows "limits_from_json (limits_to_json b) = b"
proof -
  have r: "Option.bind (Some (opt_json JInt x)) as_i64 = x" if "\<And>m. x = Some m \<Longrightarrow> in_i64 m" for x
    using that by (cases x) (auto simp: opt_json_def)
  show ?thesis
    using r[of "max_child_calls b"] r[of "max_est_tokens b"] r[of "max_tool_latency_ms b"] r[of "max_wall_ms b"]
      assms[of ChildCalls] assms[of EstTokens] assms[of ToolLatencyMs] assms[of WallMs]
    by (cases b) (simp add: limits_from_json_def limits_to_json_def)
qed

section \<open>Properties\<close>

text \<open>The verdict is what the limits say, in whole numbers: it names the first dimension, in the
  order child calls, tokens, latency, wall clock, whose use is at its limit or whose limit is not
  positive; failing that it is an alert exactly when some limited dimension has used the alert
  fraction of its limit; an unlimited dimension never counts.\<close>

theorem ledger_check_correct:
  "ledger_check l b now_ms =
     (case find (\<lambda>d. \<exists>m. limit_of b d = Some m \<and> (m \<le> 0 \<or> m \<le> used_of l d now_ms))
             [ChildCalls, EstTokens, ToolLatencyMs, WallMs] of
        Some d \<Rightarrow> VExceeded d
      | None \<Rightarrow>
          if \<exists>d m. limit_of b d = Some m \<and> alert_fraction b * of_int m \<le> of_int (used_of l d now_ms)
          then VAlert else VOk)"
proof -
  have r: "reached l b now_ms = (\<lambda>d. \<exists>m. limit_of b d = Some m \<and> (m \<le> 0 \<or> m \<le> used_of l d now_ms))"
    by (auto simp: reached_def fun_eq_iff split: option.splits)
  have "list_ex (alarming l b now_ms) dimensions \<longleftrightarrow> (\<exists>d. alarming l b now_ms d)"
    by (auto simp: list_ex_iff dimensions_def) (metis dimension.exhaust)
  moreover have "alarming l b now_ms d \<longleftrightarrow>
      (\<exists>m. limit_of b d = Some m \<and> alert_fraction b * of_int m \<le> of_int (used_of l d now_ms))" for d
    by (auto simp: alarming_def split: option.splits)
  ultimately show ?thesis unfolding ledger_check_eq r dimensions_def by simp
qed

text \<open>A request can only lower a plan's budget: whatever is requested, every limit of the resolved
  budget is positive or the plan's own, and at most the plan's own, and child calls stay at most 50.\<close>

theorem resolve_only_lowers:
  "resolve_with p r nf = Inr l \<Longrightarrow>
     (\<exists>m c. limit_of l d = Some m \<and> limit_of (budget_defaults p) d = Some c \<and> m \<le> c \<and> (m = c \<or> 0 < m))
     \<and> (\<exists>m. max_child_calls l = Some m \<and> m \<le> 50)"
  using resolve_with_lowers[of p r nf l d] resolve_with_lowers[of p r nf l ChildCalls]
  by (auto simp: budget_defaults_def compose_children_max_def)

theorem resolve_only_lowers_witness:
  "resolve_with \<lparr>budget_max_child_calls = 80, budget_max_est_tokens = 1000, budget_max_tool_latency_ms = 10, budget_max_wall_ms = 10\<rparr>
     (Some (JObj [(''max_child_calls'', JInt 3)])) (\<lambda>_ _ _. JNull) =
     Inr \<lparr>max_child_calls = Some 3, max_est_tokens = Some 1000, max_tool_latency_ms = Some 10, max_wall_ms = Some 10,
          alert_fraction = 4 / 5\<rparr> \<and> (3::int) \<le> 50"
proof -
  let ?p = "\<lparr>budget_max_child_calls = 80, budget_max_est_tokens = 1000, budget_max_tool_latency_ms = 10, budget_max_wall_ms = 10\<rparr>"
  have r: "resolve_with ?p (Some (JObj [(''max_child_calls'', JInt 3)])) (\<lambda>_ _ _. JNull) =
     Inr \<lparr>max_child_calls = Some 3, max_est_tokens = Some 1000, max_tool_latency_ms = Some 10, max_wall_ms = Some 10,
          alert_fraction = 4 / 5\<rparr>"
    by (simp add: resolve_with_def budget_field_def budget_defaults_def default_alert_fraction_def
        compose_children_max_def i64_bound_defs)
  from resolve_only_lowers[OF r, of ChildCalls] r show ?thesis by simp
qed

text \<open>A request is honoured exactly: a limit named in the request object is the resolved limit, a
  limit not named is the plan's, and the alert fraction is never the caller's.\<close>

theorem resolve_takes_request:
  "resolve_with p (Some (JObj obj)) nf = Inr l \<Longrightarrow>
     limit_of l d = (case map_of obj (budget_key d) of
         Some (JInt n) \<Rightarrow> Some n | _ \<Rightarrow> limit_of (budget_defaults p) d)
     \<and> alert_fraction l = 4 / 5"
  using resolve_with_object[of p obj nf l d] by (simp add: default_alert_fraction_def)

theorem resolve_takes_request_witness:
  "limit_of (budget_defaults \<lparr>budget_max_child_calls = 8, budget_max_est_tokens = 9, budget_max_tool_latency_ms = 1, budget_max_wall_ms = 2\<rparr>) EstTokens = Some 9"
proof -
  let ?p = "\<lparr>budget_max_child_calls = 8, budget_max_est_tokens = 9, budget_max_tool_latency_ms = 1, budget_max_wall_ms = 2\<rparr>"
  have r: "resolve_with ?p (Some (JObj [])) (\<lambda>_ _ _. JNull) = Inr (budget_defaults ?p)"
    by (simp add: resolve_with_def budget_field_def Let_def)
  from resolve_takes_request[OF r, of EstTokens] show ?thesis by (simp add: budget_defaults_def)
qed

text \<open>A run that has exceeded its budget stays exceeded: later, and after any further call, the
  verdict still names an exceeded dimension (as long as no \<open>i64\<close> counter overflows).\<close>

theorem exceeded_is_sticky:
  "ledger_check l b now_ms = VExceeded d \<Longrightarrow> now_ms \<le> now_ms' \<Longrightarrow> record_fits tokens latency_ms l \<Longrightarrow>
     in_i64 (now_ms - started_ms l) \<Longrightarrow> in_i64 (now_ms' - started_ms l) \<Longrightarrow>
     \<exists>d'. ledger_check (ledger_record tokens latency_ms l) b now_ms' = VExceeded d'"
proof -
  assume a: "ledger_check l b now_ms = VExceeded d" "now_ms \<le> now_ms'" "record_fits tokens latency_ms l"
    "in_i64 (now_ms - started_ms l)" "in_i64 (now_ms' - started_ms l)"
  from a(1) obtain e where "reached l b now_ms e" using reached_exceeded[of l b now_ms] by blast
  with used_of_record[OF a(3,2,4,5)] have "reached (ledger_record tokens latency_ms l) b now_ms' e"
    by (rule reached_mono)
  then show ?thesis using reached_exceeded[of "ledger_record tokens latency_ms l" b now_ms'] by blast
qed

theorem exceeded_is_sticky_witness:
  "\<exists>d'. ledger_check (ledger_record 5 7 (ledger_new 100)) (unconstrained\<lparr>max_wall_ms := Some 10\<rparr>) 200 = VExceeded d'"
  by (rule exceeded_is_sticky[where now_ms = 120 and d = WallMs])
     (simp_all add: ledger_check_def active_fractions_def fraction_def unconstrained_def ledger_new_def wall_ms_def
        record_fits_def List.map_filter_simps wrap_i64_id i64_bound_defs)

text \<open>A tracker raises at most one alert over its whole life, whatever calls it records and
  however often its progress is persisted.\<close>

theorem at_most_one_alert:
  "list_all op_ok ops \<Longrightarrow> length (tracker_run ops (tracker_new tenant run limits now_ms)) \<le> 1"
  by (rule tracker_run_at_most_one)

theorem at_most_one_alert_witness:
  "length (tracker_run [OpPersist 50 1 None, OpRecord 1 1, OpPersist 60 2 None]
     (tracker_new 7 ''r'' (unconstrained\<lparr>max_wall_ms := Some 10\<rparr>) 0)) \<le> 1"
  by (rule at_most_one_alert) (simp add: op_ok_def)

text \<open>Limits survive the trip through the run row: reading what \<open>to_json\<close> wrote gives them back.\<close>

theorem budget_limits_roundtrip:
  "(\<And>d m. limit_of b d = Some m \<Longrightarrow> in_i64 m) \<Longrightarrow> limits_from_json (limits_to_json b) = b"
  by (rule limits_roundtrip)

theorem budget_limits_roundtrip_witness:
  "limits_from_json (limits_to_json (unconstrained\<lparr>max_wall_ms := Some 10\<rparr>)) = unconstrained\<lparr>max_wall_ms := Some 10\<rparr>"
proof (rule budget_limits_roundtrip)
  show "limit_of (unconstrained\<lparr>max_wall_ms := Some 10\<rparr>) d = Some m \<Longrightarrow> in_i64 m" for d m
    by (cases d) (auto simp: unconstrained_def i64_bound_defs)
qed

end
