(* ===== verification/Scopes.thy ===== *)
theory Scopes
  imports Errors
begin

text \<open>
  The scope registry of \<open>scopes.rs\<close> and the allowlist of a sub-key (\<open>SubKey::permits\<close> of
  \<open>subkeys.rs\<close>). \<open>scope\<close> is the enum, \<open>implies\<close> its grant order, \<open>scope_check\<close> the gate of
  \<open>tools/list\<close> and \<open>tools/call\<close>, \<open>verb_scope\<close> and \<open>required_for\<close> the scope a verb needs. The locale
  \<open>grant_order\<close> states what the callers of \<open>implies\<close> rely on, a reflexive and transitive relation,
  and proves once that holding is inherited along coverage; it is interpreted on \<open>implies\<close>, and
  delegation rests on it.
\<close>

section \<open>The registry\<close>

datatype scope =
    Mcp | Read | Write | ToolsRead | ToolsCall | ToolsWrite | StateRead | StateWrite
  | SecretsWrite | KeysManage | Admin

definition scope_all :: "scope list" where
  "scope_all = [Mcp, Read, Write, ToolsRead, ToolsCall, ToolsWrite, StateRead, StateWrite,
     SecretsWrite, KeysManage, Admin]"

definition scope_advertised :: "scope list" where
  "scope_advertised = [Mcp, Read, Write]"

fun scope_as_str :: "scope \<Rightarrow> string" where
  "scope_as_str Mcp = ''mcp''"
| "scope_as_str Read = ''read''"
| "scope_as_str Write = ''write''"
| "scope_as_str ToolsRead = ''tools:read''"
| "scope_as_str ToolsCall = ''tools:call''"
| "scope_as_str ToolsWrite = ''tools:write''"
| "scope_as_str StateRead = ''state:read''"
| "scope_as_str StateWrite = ''state:write''"
| "scope_as_str SecretsWrite = ''secrets:write''"
| "scope_as_str KeysManage = ''keys:manage''"
| "scope_as_str Admin = ''admin''"

fun scope_description :: "scope \<Rightarrow> string" where
  "scope_description Mcp = ''Full access to this tenant's tools and verbs.''"
| "scope_description Read = ''Read access to the tools that declare it.''"
| "scope_description Write = ''Write access to the tools that declare it.''"
| "scope_description ToolsRead = ''List and inspect tools.''"
| "scope_description ToolsCall = ''Call published tools (includes tools:read).''"
| "scope_description ToolsWrite = ''Publish, change and remove tools and call management verbs (includes tools:call).''"
| "scope_description StateRead = ''Read tenant state.''"
| "scope_description StateWrite = ''Write tenant state (includes state:read).''"
| "scope_description SecretsWrite = ''Set and delete secrets.''"
| "scope_description KeysManage = ''Mint, rotate and revoke keys.''"
| "scope_description Admin = ''Tenant administration.''"

definition scope_parse :: "string \<Rightarrow> scope option" where
  "scope_parse s = find (\<lambda>sc. scope_as_str sc = s) scope_all"

definition implies :: "scope \<Rightarrow> scope \<Rightarrow> bool" where
  "implies a b \<longleftrightarrow>
     (if a = b \<or> a = Mcp then True
      else case (a, b) of
          (ToolsWrite, ToolsCall) \<Rightarrow> True
        | (ToolsWrite, ToolsRead) \<Rightarrow> True
        | (ToolsCall, ToolsRead) \<Rightarrow> True
        | (StateWrite, StateRead) \<Rightarrow> True
        | _ \<Rightarrow> False)"

definition implied :: "scope \<Rightarrow> scope list" where
  "implied a = filter (\<lambda>x. x \<noteq> a \<and> implies a x) scope_all"

definition all_names :: "string list" where
  "all_names = map scope_as_str scope_all"

fun effective_words :: "string list \<Rightarrow> string list \<Rightarrow> string list \<Rightarrow> string list" where
  "effective_words cat [] out = out"
| "effective_words cat (w # ws) out =
     effective_words cat ws
       (if (scope_parse w \<noteq> None \<or> w \<in> set cat) \<and> w \<notin> set out then out @ [w] else out)"

definition effective_for :: "string option \<Rightarrow> string list \<Rightarrow> string list" where
  "effective_for token_scope cat =
     (case token_scope of
        None \<Rightarrow> [scope_as_str Mcp]
      | Some s \<Rightarrow> effective_words cat (split_whitespace s) [])"

definition whoami_json :: "string option \<Rightarrow> string list \<Rightarrow> json" where
  "whoami_json token_scope cat =
     mk_obj [(''all'', JStrs all_names), (''effective'', JStrs (effective_for token_scope cat))]"

definition word_grants :: "string \<Rightarrow> string \<Rightarrow> bool" where
  "word_grants h r \<longleftrightarrow>
     h = r \<or> (case (scope_parse h, scope_parse r) of (Some hs, Some rs) \<Rightarrow> implies hs rs | _ \<Rightarrow> False)"

definition scope_check :: "string option \<Rightarrow> string list \<Rightarrow> bool" where
  "scope_check token_scope required =
     (case token_scope of
        None \<Rightarrow> True
      | Some s \<Rightarrow>
          (let held = split_whitespace s in
           if scope_as_str Mcp \<in> set held then True
           else
             (let required = (if required = [] then [scope_as_str Mcp] else required)
              in list_all (\<lambda>r. list_ex (\<lambda>h. word_grants h r) held) required)))"

definition held_implies :: "scope list \<Rightarrow> scope \<Rightarrow> bool" where
  "held_implies held want \<longleftrightarrow> list_ex (\<lambda>h. implies h want) held"

section \<open>Which scope a verb needs\<close>

definition always_listed :: "string list" where
  "always_listed = [''host.whoami'', ''host.quickstart'', ''host.tool.reach'', ''host.calls.list'']"

definition required_for :: "string \<Rightarrow> scope option" where
  "required_for name =
     (if name \<in> set always_listed \<or> name = ''host.key.delegate'' then None
      else if starts_with name ''host.'' \<or> starts_with name ''billing.'' then Some ToolsWrite
      else Some ToolsCall)"

definition read_verb_segments :: "string list" where
  "read_verb_segments =
     [''list'', ''get'', ''status'', ''describe'', ''search'', ''inspect'', ''show'', ''history'', ''stats'',
      ''whoami'', ''explain'', ''quickstart'', ''scopes'', ''usage'', ''preview'', ''read'', ''export'',
      ''lookup'', ''doctor'', ''docs'', ''help'']"

definition verb_scope :: "string \<Rightarrow> scope" where
  "verb_scope name =
     (let bare = (case rsplit_once (CHR ''.'') name of Some (_, l) \<Rightarrow> l | None \<Rightarrow> name) in
      if name \<in> set always_listed then Read
      else if starts_with name ''host.key.'' \<or> starts_with name ''host.keys.'' then KeysManage
      else if starts_with name ''host.secret'' then SecretsWrite
      else if starts_with name ''host.state.'' then
        (if bare \<in> set read_verb_segments then StateRead else StateWrite)
      else if bare \<in> set read_verb_segments then ToolsRead else ToolsWrite)"

definition control_plane_requirement :: "string \<Rightarrow> string list" where
  "control_plane_requirement name =
     (if starts_with name ''host.'' \<or> starts_with name ''billing.'' then [scope_as_str (verb_scope name)]
      else [scope_as_str Mcp])"

record scope_row =
  scope_name :: string
  implied_by :: "string list"

definition granted_by :: "scope_row \<Rightarrow> string \<Rightarrow> bool" where
  "granted_by r held \<longleftrightarrow> held \<in> set (implied_by r)"

definition scope_catalog :: "scope_row list" where
  "scope_catalog =
     map (\<lambda>sc. \<lparr>scope_name = scope_as_str sc,
                implied_by = map scope_as_str (filter (\<lambda>h. implies h sc) scope_all)\<rparr>) scope_all"

definition scopes_parse_json :: "json \<Rightarrow> scope list" where
  "scopes_parse_json raw =
     (case raw of
        JArr xs \<Rightarrow> if list_all (\<lambda>x. as_str x \<noteq> None) xs
                   then List.map_filter (\<lambda>x. Option.bind (as_str x) scope_parse) xs else []
      | _ \<Rightarrow> [])"

section \<open>A sub-key's allowlist\<close>

record sub_key =
  sk_label :: string
  sk_tools :: "string list"
  sk_unrestricted :: bool

definition always_refused :: "string list" where
  "always_refused = [''host.key.'', ''host.secret.'', ''host.lockdown'', ''host.self.offboard'', ''host.export'']"

definition strip_prefix :: "string \<Rightarrow> string \<Rightarrow> string option" where
  "strip_prefix p s = (if starts_with s p then Some (drop (length p) s) else None)"

definition permits :: "sub_key \<Rightarrow> string \<Rightarrow> string \<Rightarrow> bool" where
  "permits k tenant_ns name \<longleftrightarrow>
     (if name \<in> set always_listed then True
      else if sk_unrestricted k then
        \<not> (starts_with name ''admin.'' \<or> list_ex (starts_with name) always_refused)
      else
        (let loc = Option.bind (strip_prefix tenant_ns name) (strip_prefix ''.'')
         in list_ex (\<lambda>t. t = name \<or> Some t = loc) (sk_tools k)))"

definition sub_key_denied :: "sub_key \<Rightarrow> string \<Rightarrow> app_error" where
  "sub_key_denied k name =
     Structured ''permission_denied''
       (''this sub-key ('' @ [CHR 0x27] @ sk_label k @ [CHR 0x27] @ '') may call only: '' @ join '', '' (sk_tools k))
       (mk_obj [(''allowed_tools'', JStrs (sk_tools k)), (''key_label'', JStr (sk_label k)), (''tool'', JStr name)])"

section \<open>The interface: a grant order\<close>

locale grant_order =
  fixes grants :: "'a \<Rightarrow> 'a \<Rightarrow> bool"
  assumes grants_refl: "grants a a"
    and grants_trans: "grants a b \<Longrightarrow> grants b c \<Longrightarrow> grants a c"
begin

definition holds :: "'a list \<Rightarrow> 'a \<Rightarrow> bool" where
  "holds held want \<longleftrightarrow> (\<exists>h \<in> set held. grants h want)"

definition covers :: "'a list \<Rightarrow> 'a list \<Rightarrow> bool" where
  "covers outer inner \<longleftrightarrow> (\<forall>x \<in> set inner. holds outer x)"

lemma holds_covered: "covers outer inner \<Longrightarrow> holds inner want \<Longrightarrow> holds outer want"
  unfolding covers_def holds_def using grants_trans by blast

lemma covers_refl: "covers xs xs"
  unfolding covers_def holds_def using grants_refl by blast

lemma covers_trans: "covers a b \<Longrightarrow> covers b c \<Longrightarrow> covers a c"
  using holds_covered unfolding covers_def by blast

end

lemma implies_refl: "implies a a"
  by (simp add: implies_def)

lemma implies_trans: "implies a b \<Longrightarrow> implies b c \<Longrightarrow> implies a c"
  by (cases a; cases b; cases c; simp add: implies_def)

interpretation sg: grant_order implies
  by unfold_locales (rule implies_refl, erule (1) implies_trans)

lemma held_implies_holds: "held_implies held want = sg.holds held want"
  by (simp add: held_implies_def sg.holds_def list_ex_iff)

section \<open>Facts\<close>

lemma scope_parse_as_str [simp]: "scope_parse (scope_as_str sc) = Some sc"
  by (cases sc) (simp_all add: scope_parse_def scope_all_def)

lemma scope_parse_Some: "scope_parse s = Some sc \<Longrightarrow> s = scope_as_str sc"
  unfolding scope_parse_def by (auto dest: find_hit)

lemma in_scope_all [simp]: "sc \<in> set scope_all"
  by (cases sc) (simp_all add: scope_all_def)

lemma scope_as_str_inj [simp]: "scope_as_str a = scope_as_str b \<longleftrightarrow> a = b"
  by (metis option.inject scope_parse_as_str)

lemma word_grants_scopes [simp]: "word_grants (scope_as_str a) (scope_as_str b) = implies a b"
  by (auto simp: word_grants_def implies_refl)

lemma word_grants_refl: "word_grants w w"
  by (simp add: word_grants_def)

lemma word_grants_trans: "word_grants a b \<Longrightarrow> word_grants b c \<Longrightarrow> word_grants a c"
  by (auto simp: word_grants_def split: option.splits intro: implies_trans)

text \<open>The words of a token form a grant order as well: registry words by implication, any other word
  by equality.\<close>

interpretation wg: grant_order word_grants
  by unfold_locales (rule word_grants_refl, erule (1) word_grants_trans)

lemma mcp_grants: "scope_parse r \<noteq> None \<Longrightarrow> word_grants (scope_as_str Mcp) r"
proof -
  assume "scope_parse r \<noteq> None"
  then obtain sc where "scope_parse r = Some sc" by blast
  with word_grants_scopes[of Mcp sc] show ?thesis by (auto dest: scope_parse_Some simp: implies_def)
qed

lemma scope_check_holds:
  "scope_check (Some s) required \<longleftrightarrow>
     ''mcp'' \<in> set (split_whitespace s) \<or>
     wg.covers (split_whitespace s) (if required = [] then [''mcp''] else required)"
  by (auto simp: scope_check_def Let_def wg.covers_def wg.holds_def list_all_iff list_ex_iff)

lemma effective_words_set:
  "set (effective_words cat ws out) = set out \<union> {w \<in> set ws. scope_parse w \<noteq> None \<or> w \<in> set cat}"
  by (induction cat ws out rule: effective_words.induct) auto

lemma effective_words_distinct: "distinct out \<Longrightarrow> distinct (effective_words cat ws out)"
  by (induction cat ws out rule: effective_words.induct) auto

lemma catalog_granted:
  "r \<in> set scope_catalog \<Longrightarrow> \<exists>sc. scope_name r = scope_as_str sc \<and>
     (\<forall>held. granted_by r held \<longleftrightarrow> (\<exists>h. scope_parse held = Some h \<and> implies h sc))"
  by (auto simp: scope_catalog_def granted_by_def dest!: scope_parse_Some)

section \<open>Properties\<close>

text \<open>The scope gate is monotone: a token that holds more (every word the narrower token holds is
  held or implied by a word of the wider one) passes every gate the narrower one passes.\<close>

theorem scope_check_monotone:
  "scope_check (Some narrow) required \<Longrightarrow>
     (\<And>w. w \<in> set (split_whitespace narrow) \<Longrightarrow> \<exists>h \<in> set (split_whitespace wide). word_grants h w) \<Longrightarrow>
     scope_check (Some wide) required"
proof -
  assume c: "scope_check (Some narrow) required"
    and "\<And>w. w \<in> set (split_whitespace narrow) \<Longrightarrow> \<exists>h \<in> set (split_whitespace wide). word_grants h w"
  then have w: "wg.covers (split_whitespace wide) (split_whitespace narrow)"
    by (auto simp: wg.covers_def wg.holds_def)
  show ?thesis
  proof (cases "''mcp'' \<in> set (split_whitespace narrow)")
    case True
    with w obtain h where h: "h \<in> set (split_whitespace wide)" "word_grants h (scope_as_str Mcp)"
      by (auto simp: wg.covers_def wg.holds_def)
    have "h = scope_as_str Mcp"
    proof (rule ccontr)
      assume "h \<noteq> scope_as_str Mcp"
      with h(2) obtain a where "implies a Mcp" "scope_parse h = Some a"
        by (auto simp: word_grants_def split: option.splits) (metis scope_parse_as_str option.inject scope_as_str.simps(1))
      then show False using \<open>h \<noteq> scope_as_str Mcp\<close> scope_parse_Some[of h a]
        by (cases a) (auto simp: implies_def)
    qed
    with h(1) show ?thesis by (simp add: scope_check_holds)
  next
    case False
    with c w show ?thesis unfolding scope_check_holds using wg.covers_trans by blast
  qed
qed

theorem scope_check_monotone_witness:
  "scope_check (Some ''tools:write'') [''tools:read'']"
proof (rule scope_check_monotone[where narrow = "''tools:call''"])
  show "scope_check (Some ''tools:call'') [''tools:read'']"
    by (simp add: scope_check_def split_whitespace_def is_whitespace_def scalar_def word_grants_def scope_parse_def
        scope_all_def implies_def)
  show "w \<in> set (split_whitespace ''tools:call'') \<Longrightarrow> \<exists>h \<in> set (split_whitespace ''tools:write''). word_grants h w" for w
    by (simp add: split_whitespace_def is_whitespace_def scalar_def word_grants_def scope_parse_def
        scope_all_def implies_def)
qed

text \<open>The published scope catalog says what the gate does: every row is a registry scope, and the
  words it lists are exactly the registry words that imply it.\<close>

theorem catalog_agrees_with_implies:
  "map scope_name scope_catalog = all_names
     \<and> (\<forall>i < length scope_all. \<forall>held.
          granted_by (scope_catalog ! i) held \<longleftrightarrow> (\<exists>h. scope_parse held = Some h \<and> implies h (scope_all ! i)))"
  by (auto simp: scope_catalog_def granted_by_def all_names_def dest!: scope_parse_Some)

theorem catalog_agrees_with_implies_witness:
  "granted_by (scope_catalog ! 3) ''tools:write''"
proof -
  have i: "3 < length scope_all" "scope_all ! 3 = ToolsRead" by (simp_all add: scope_all_def)
  have "scope_parse ''tools:write'' = Some ToolsWrite \<and> implies ToolsWrite ToolsRead"
    using scope_parse_as_str[of ToolsWrite] by (simp add: implies_def)
  with catalog_agrees_with_implies i show ?thesis by metis
qed

text \<open>\<open>host.whoami\<close> never reports a word that is neither in the registry nor in the tenant's
  catalog, reports no word twice, and reports every other word of the token.\<close>

theorem effective_for_correct:
  "distinct (effective_for (Some s) cat)
     \<and> set (effective_for (Some s) cat) =
         {w \<in> set (split_whitespace s). (\<exists>sc. scope_parse w = Some sc) \<or> w \<in> set cat}"
  by (auto simp: effective_for_def effective_words_set effective_words_distinct)

text \<open>What a sub-key can reach: without the unrestricted flag a name outside the always-listed four
  is permitted only through an allowlist entry that is that name, or that is its local part under the
  tenant's own namespace; with the flag, administration, keys, secrets, lockdown, offboarding and
  export stay out of reach.\<close>

theorem sub_key_permits_correct:
  "permits k ns name \<longleftrightarrow>
     name \<in> set always_listed
     \<or> (\<not> sk_unrestricted k \<and> (\<exists>t \<in> set (sk_tools k). t = name \<or> name = ns @ ''.'' @ t))
     \<or> (sk_unrestricted k \<and> \<not> starts_with name ''admin.'' \<and> (\<nexists>p. p \<in> set always_refused \<and> starts_with name p))"
proof -
  have "Option.bind (strip_prefix ns name) (strip_prefix ''.'') = Some t \<longleftrightarrow> name = ns @ ''.'' @ t" for t
    by (auto simp: strip_prefix_def starts_with_iff split: bind_splits if_splits)
  then show ?thesis by (auto simp: permits_def Let_def list_ex_iff eq_commute[of "Some _"])
qed

theorem sub_key_permits_correct_witness:
  "permits \<lparr>sk_label = ''a'', sk_tools = [''sum''], sk_unrestricted = False\<rparr> ''acme'' ''acme.sum''
     \<and> (starts_with ''host.key.mint'' ''host.key.'')"
  using sub_key_permits_correct[of "\<lparr>sk_label = ''a'', sk_tools = [''sum''], sk_unrestricted = False\<rparr>" "''acme''" "''acme.sum''"]
  by simp

end
