(* ===== verification/Delegation.thy ===== *)
theory Delegation
  imports Scopes
begin

text \<open>
  Delegated keys (\<open>delegation.rs\<close>): \<open>authority\<close> is what a key may do, \<open>narrow\<close> the one rule that mints
  a child's authority from its parent's, checked in the order scope, tool, lifetime, depth.
  \<open>delegates\<close> is the relation between a parent and a child minted under it; the lemmas show that
  along any chain of delegations a key holds no scope and is permitted no tool outside the reserved names that the keys above it
  do not hold and are not permitted, and that a chain under the primary key is at most three long.
\<close>

definition depth_max :: int where
  "depth_max = 3"

record authority =
  auth_scopes :: "scope list"
  auth_tools :: "string list option"
  auth_expires_at :: "int option"
  auth_depth :: int
  auth_can_delegate :: bool

definition primary_authority :: authority where
  "primary_authority = \<lparr>auth_scopes = [Mcp], auth_tools = None, auth_expires_at = None, auth_depth = 0,
     auth_can_delegate = True\<rparr>"

record delegate_req =
  req_scopes :: "scope list"
  req_tools :: "string list option"
  req_ttl_s :: int
  req_now :: int
  req_can_delegate :: bool

record excess =
  excess_kind :: string
  excess_value :: string

definition excess_into_error :: "excess \<Rightarrow> app_error" where
  "excess_into_error x =
     Structured ''scope_escalation''
       (''the requested '' @ excess_kind x @ '' '' @ [CHR 0x27] @ excess_value x @ [CHR 0x27]
          @ '' exceeds the delegating key's own authority; nothing was minted'')
       (mk_obj [(''excess'', mk_obj [(''kind'', JStr (excess_kind x)), (''value'', JStr (excess_value x))])])"

definition narrow :: "authority \<Rightarrow> delegate_req \<Rightarrow> excess + authority" where
  "narrow parent req =
     (case find (\<lambda>sc. \<not> held_implies (auth_scopes parent) sc) (req_scopes req) of
        Some sc \<Rightarrow> Inl \<lparr>excess_kind = ''scope'', excess_value = scope_as_str sc\<rparr>
      | None \<Rightarrow>
          (case (case (req_tools req, auth_tools parent) of
                   (Some want, Some allowed) \<Rightarrow> find (\<lambda>t. t \<notin> set allowed) want
                 | _ \<Rightarrow> None) of
             Some extra \<Rightarrow> Inl \<lparr>excess_kind = ''tool'', excess_value = extra\<rparr>
           | None \<Rightarrow>
               (let expires_at = wrap_i64 (req_now req + req_ttl_s req) in
                if (case auth_expires_at parent of Some e \<Rightarrow> expires_at > e | None \<Rightarrow> False)
                then Inl \<lparr>excess_kind = ''ttl'', excess_value = show_int (req_ttl_s req)\<rparr>
                else
                  (let depth = auth_depth parent + 1 in
                   if depth > depth_max then Inl \<lparr>excess_kind = ''depth'', excess_value = show_int depth\<rparr>
                   else Inr \<lparr>auth_scopes = req_scopes req,
                             auth_tools = or_else (req_tools req) (auth_tools parent),
                             auth_expires_at = Some expires_at,
                             auth_depth = depth,
                             auth_can_delegate = req_can_delegate req\<rparr>))))"

definition scopes_json :: "scope list \<Rightarrow> json" where
  "scopes_json scs = JStrs (map scope_as_str scs)"

section \<open>Chains of delegation\<close>

inductive delegates :: "authority \<Rightarrow> authority \<Rightarrow> bool" where
  minted: "narrow parent req = Inr child \<Longrightarrow> delegates parent child"

inductive_cases delegatesE: "delegates parent child"

text \<open>What a key can be used for: a scope it holds, before it expires, and a tool \<open>SubKey::permits\<close> lets it call. A key without an
  allowlist is refused the reserved names; an allowlist may name them.\<close>

definition authority_key :: "authority \<Rightarrow> sub_key" where
  "authority_key a = \<lparr>sk_label = [], sk_tools = (case auth_tools a of Some ts \<Rightarrow> ts | None \<Rightarrow> []), sk_unrestricted = (auth_tools a = None)\<rparr>"

definition holds_at :: "authority \<Rightarrow> scope \<Rightarrow> int \<Rightarrow> bool" where
  "holds_at a sc t \<longleftrightarrow> held_implies (auth_scopes a) sc \<and> (case auth_expires_at a of None \<Rightarrow> True | Some e \<Rightarrow> t < e)"

definition reserved_tool :: "string \<Rightarrow> bool" where
  "reserved_tool name \<longleftrightarrow> starts_with name ''admin.'' \<or> list_ex (starts_with name) always_refused"

text \<open>A parent's allowlist contains its child's: the child's permissions are the parent's, or reserved names a parent without a list
  is refused.\<close>

lemma permits_narrower:
  assumes "\<And>ts. auth_tools p = Some ts \<Longrightarrow> \<exists>ts'. auth_tools c = Some ts' \<and> set ts' \<subseteq> set ts"
    and "permits (authority_key c) ns name"
  shows "permits (authority_key p) ns name \<or> reserved_tool name"
proof (cases "auth_tools p")
  case None
  then show ?thesis by (auto simp: permits_def authority_key_def reserved_tool_def)
next
  case (Some ts)
  with assms show ?thesis by (fastforce simp: permits_def authority_key_def list_ex_iff Let_def split: if_splits)
qed

lemma narrow_Inr:
  assumes "narrow p r = Inr c"
  shows "sg.covers (auth_scopes p) (auth_scopes c)" "auth_depth c = auth_depth p + 1" "auth_depth c \<le> depth_max"
    "\<And>ts. auth_tools p = Some ts \<Longrightarrow> \<exists>ts'. auth_tools c = Some ts' \<and> set ts' \<subseteq> set ts"
    "\<exists>e'. auth_expires_at c = Some e' \<and> (\<forall>e. auth_expires_at p = Some e \<longrightarrow> e' \<le> e)"
proof -
  from assms have fs: "find (\<lambda>sc. \<not> held_implies (auth_scopes p) sc) (req_scopes r) = None"
    and c: "auth_scopes c = req_scopes r" "auth_tools c = or_else (req_tools r) (auth_tools p)"
      "auth_depth c = auth_depth p + 1" "auth_depth c \<le> depth_max"
      "\<exists>e'. auth_expires_at c = Some e' \<and> (\<forall>e. auth_expires_at p = Some e \<longrightarrow> e' \<le> e)"
    and ft: "\<And>want allowed. req_tools r = Some want \<Longrightarrow> auth_tools p = Some allowed \<Longrightarrow>
        find (\<lambda>t. t \<notin> set allowed) want = None"
    by (auto simp: narrow_def Let_def split: option.splits if_splits)
  from fs have "\<forall>sc \<in> set (req_scopes r). held_implies (auth_scopes p) sc" by (simp add: find_None_iff)
  with c(1) show "sg.covers (auth_scopes p) (auth_scopes c)" by (simp add: sg.covers_def held_implies_holds)
  show "auth_depth c = auth_depth p + 1" "auth_depth c \<le> depth_max" by fact+
  show "\<exists>e'. auth_expires_at c = Some e' \<and> (\<forall>e. auth_expires_at p = Some e \<longrightarrow> e' \<le> e)" by fact
  fix ts assume p: "auth_tools p = Some ts"
  show "\<exists>ts'. auth_tools c = Some ts' \<and> set ts' \<subseteq> set ts"
  proof (cases "req_tools r")
    case (Some want)
    with ft[OF Some p] c(2) show ?thesis by (auto simp: find_None_iff)
  qed (use c(2) p in simp)
qed

lemma delegates_use:
  assumes "delegates p c"
  shows "holds_at c sc t \<Longrightarrow> holds_at p sc t"
    and "permits (authority_key c) ns name \<Longrightarrow> permits (authority_key p) ns name \<or> reserved_tool name"
proof -
  obtain r where n: "narrow p r = Inr c" using assms by (rule delegatesE)
  note nr = narrow_Inr[OF n]
  show "holds_at p sc t" if "holds_at c sc t"
    using that nr(1,5) by (auto simp: holds_at_def held_implies_holds intro: sg.holds_covered split: option.splits)
  show "permits (authority_key p) ns name \<or> reserved_tool name" if "permits (authority_key c) ns name"
    by (rule permits_narrower[OF nr(4) that])
qed

lemma delegates_chain_use:
  assumes "delegates\<^sup>*\<^sup>* p c"
  shows "holds_at c sc t \<Longrightarrow> holds_at p sc t"
    and "permits (authority_key c) ns name \<Longrightarrow> permits (authority_key p) ns name \<or> reserved_tool name"
  using assms by (induction rule: converse_rtranclp_induct) (auto dest: delegates_use)

lemma delegates_depth: "(delegates ^^ n) p c \<Longrightarrow> auth_depth c = auth_depth p + int n \<and> (n = 0 \<or> auth_depth c \<le> depth_max)"
proof (induction n arbitrary: c)
  case (Suc n)
  then obtain m where m: "(delegates ^^ n) p m" "delegates m c" by auto
  from m(2) obtain r where "narrow m r = Inr c" by (rule delegatesE)
  from narrow_Inr(2,3)[OF this] Suc.IH[OF m(1)] show ?case by simp
qed simp

lemma narrow_Inl:
  "narrow p r = Inl x \<Longrightarrow>
     (excess_kind x = ''scope'' \<longrightarrow> (\<exists>sc \<in> set (req_scopes r). \<not> held_implies (auth_scopes p) sc)) \<and>
     (excess_kind x = ''tool'' \<longrightarrow> (\<exists>want allowed. req_tools r = Some want \<and> auth_tools p = Some allowed \<and> \<not> set want \<subseteq> set allowed)) \<and>
     (excess_kind x = ''ttl'' \<longrightarrow> (\<exists>e. auth_expires_at p = Some e \<and> e < wrap_i64 (req_now r + req_ttl_s r))) \<and>
     (excess_kind x = ''depth'' \<longrightarrow> depth_max < auth_depth p + 1)"
  by (auto simp: narrow_def Let_def split: option.splits if_splits dest!: find_hit)

lemma narrow_complete:
  assumes "sg.covers (auth_scopes p) (req_scopes r)"
    and "\<And>want allowed. req_tools r = Some want \<Longrightarrow> auth_tools p = Some allowed \<Longrightarrow> set want \<subseteq> set allowed"
    and "\<And>e. auth_expires_at p = Some e \<Longrightarrow> wrap_i64 (req_now r + req_ttl_s r) \<le> e"
    and "auth_depth p < depth_max"
  shows "\<exists>c. narrow p r = Inr c"
proof -
  have "find (\<lambda>sc. \<not> held_implies (auth_scopes p) sc) (req_scopes r) = None"
    using assms(1) by (simp add: find_None_iff sg.covers_def held_implies_holds)
  moreover have "(case (req_tools r, auth_tools p) of (Some want, Some allowed) \<Rightarrow> find (\<lambda>t. t \<notin> set allowed) want | _ \<Rightarrow> None) = None"
    using assms(2) by (auto simp: find_None_iff split: option.splits)
  ultimately show ?thesis
    using assms(3,4) by (auto simp: narrow_def Let_def split: option.splits)
qed

section \<open>Properties\<close>

text \<open>C3. Delegation never escalates beyond the reserved names: whatever chain of delegations led to a key, a scope it holds at a time
  is held then by every key above it in the chain, and a tool it is permitted to call each of them is permitted too, except the reserved
  names (\<open>admin.\<close>, \<open>host.key.\<close>, \<open>host.secret.\<close>, \<open>host.lockdown\<close>, \<open>host.self.offboard\<close>, \<open>host.export\<close>), which a key without an
  allowlist is refused and may still put on the list of its child.\<close>

theorem delegation_never_escalates:
  assumes "delegates\<^sup>*\<^sup>* ancestor key" "holds_at key sc t" "permits (authority_key key) ns name"
  shows "holds_at ancestor sc t \<and> (permits (authority_key ancestor) ns name \<or> reserved_tool name)"
  using delegates_chain_use[OF assms(1)] assms(2,3) by blast

theorem delegation_never_escalates_witness:
  "holds_at primary_authority ToolsRead 150 \<and> permits (authority_key primary_authority) ''acme'' ''acme.sum''"
proof -
  let ?r = "\<lparr>req_scopes = [ToolsCall], req_tools = Some [''sum''], req_ttl_s = 100, req_now = 100, req_can_delegate = False\<rparr>"
  let ?c = "\<lparr>auth_scopes = [ToolsCall], auth_tools = Some [''sum''], auth_expires_at = Some 200, auth_depth = 1, auth_can_delegate = False\<rparr>"
  have "narrow primary_authority ?r = Inr ?c"
    by (simp add: narrow_def primary_authority_def held_implies_def implies_def depth_max_def wrap_i64_id i64_bound_defs)
  then have d: "delegates\<^sup>*\<^sup>* primary_authority ?c" by (blast intro: delegates.minted)
  have h: "holds_at ?c ToolsRead 150" by (simp add: holds_at_def held_implies_def implies_def)
  have p: "permits (authority_key ?c) ''acme'' ''acme.sum''" by (simp add: permits_def authority_key_def strip_prefix_def)
  have "\<not> reserved_tool ''acme.sum''" by (simp add: reserved_tool_def always_refused_def)
  with delegation_never_escalates[OF d h p] show ?thesis by simp
qed

text \<open>A chain of delegations under the primary key has at most three links, and a key's recorded depth
  is its distance from the primary.\<close>

theorem delegation_depth_bounded:
  "(delegates ^^ n) primary_authority key \<Longrightarrow> auth_depth key = int n \<and> n \<le> 3"
  using delegates_depth[of n primary_authority key] by (auto simp: primary_authority_def depth_max_def)

theorem delegation_depth_bounded_witness:
  "auth_depth primary_authority = int 0 \<and> (0::nat) \<le> 3"
  by (rule delegation_depth_bounded) simp

text \<open>\<open>narrow\<close> refuses exactly what exceeds the parent: it mints whenever the requested scopes are
  covered, the tools are among the parent's, the expiry is not later and the depth is left, and what
  it names when it refuses is one of these that fails.\<close>

theorem narrow_refuses_only_excess:
  "(\<exists>c. narrow p r = Inr c) \<longleftrightarrow>
     (\<forall>sc \<in> set (req_scopes r). held_implies (auth_scopes p) sc)
     \<and> (\<forall>want allowed. req_tools r = Some want \<and> auth_tools p = Some allowed \<longrightarrow> set want \<subseteq> set allowed)
     \<and> (\<forall>e. auth_expires_at p = Some e \<longrightarrow> wrap_i64 (req_now r + req_ttl_s r) \<le> e)
     \<and> auth_depth p < 3"
proof
  assume "\<exists>c. narrow p r = Inr c"
  then show "(\<forall>sc \<in> set (req_scopes r). held_implies (auth_scopes p) sc)
     \<and> (\<forall>want allowed. req_tools r = Some want \<and> auth_tools p = Some allowed \<longrightarrow> set want \<subseteq> set allowed)
     \<and> (\<forall>e. auth_expires_at p = Some e \<longrightarrow> wrap_i64 (req_now r + req_ttl_s r) \<le> e)
     \<and> auth_depth p < 3"
    by (auto simp: narrow_def Let_def depth_max_def find_None_iff split: option.splits if_splits)
next
  assume "(\<forall>sc \<in> set (req_scopes r). held_implies (auth_scopes p) sc)
     \<and> (\<forall>want allowed. req_tools r = Some want \<and> auth_tools p = Some allowed \<longrightarrow> set want \<subseteq> set allowed)
     \<and> (\<forall>e. auth_expires_at p = Some e \<longrightarrow> wrap_i64 (req_now r + req_ttl_s r) \<le> e)
     \<and> auth_depth p < 3"
  then show "\<exists>c. narrow p r = Inr c"
    by (intro narrow_complete) (auto simp: sg.covers_def held_implies_holds depth_max_def)
qed

theorem narrow_refuses_only_excess_witness:
  "\<exists>c. narrow primary_authority
     \<lparr>req_scopes = [KeysManage], req_tools = None, req_ttl_s = 60, req_now = 0, req_can_delegate = True\<rparr> = Inr c"
  using narrow_refuses_only_excess[of primary_authority
      "\<lparr>req_scopes = [KeysManage], req_tools = None, req_ttl_s = 60, req_now = 0, req_can_delegate = True\<rparr>"]
  by (simp add: primary_authority_def held_implies_def implies_def)

end
