(* ===== verification/Auth.thy ===== *)
theory Auth
  imports Json
begin

text \<open>
  Keys, tokens and identifiers: the generators of \<open>auth.rs\<close> and \<open>new_ulid\<close> of \<open>state.rs\<close> as functions
  of the random bytes they draw, \<open>constant_time_eq\<close> and \<open>extract_bearer\<close>, and the authentication shapes
  of \<open>auth_shape.rs\<close>. A byte is a \<open>nat\<close> below 256. \<open>hash_key\<close> is SHA-256 of a third-party crate, so it
  is a parameter where it is used. The lemmas show that the constant-time comparison is equality,
  that the encodings lose no randomness, that the kinds of credential cannot be mistaken for each
  other and that identifiers sort by time.
\<close>

section \<open>Encodings\<close>

definition hex_digit :: "nat \<Rightarrow> char" where
  "hex_digit n = ''0123456789abcdef'' ! n"

definition to_hex :: "nat list \<Rightarrow> string" where
  "to_hex bytes = concat (map (\<lambda>b. [hex_digit (b div 16), hex_digit (b mod 16)]) bytes)"

definition crockford_alphabet :: string where
  "crockford_alphabet = ''0123456789ABCDEFGHJKMNPQRSTVWXYZ''"

text \<open>The \<open>u128\<close> a byte buffer is shifted into, and its base-32 characters, most significant first.\<close>

definition pack_bytes :: "nat list \<Rightarrow> nat" where
  "pack_bytes bytes = fold (\<lambda>b acc. push_bit 8 acc OR b) bytes 0"

definition base32_chars :: "nat \<Rightarrow> nat \<Rightarrow> string" where
  "base32_chars n acc = map (\<lambda>i. crockford_alphabet ! (drop_bit (i * 5) acc AND 31)) (rev [0..<n])"

definition generate_key :: "nat list \<Rightarrow> string" where
  "generate_key bytes = to_hex bytes"

definition sub_key_prefix :: string where
  "sub_key_prefix = ''mk_''"

definition generate_sub_key :: "nat list \<Rightarrow> string" where
  "generate_sub_key bytes = sub_key_prefix @ generate_key bytes"

definition generate_namespace :: "nat list \<Rightarrow> string" where
  "generate_namespace bytes = ''t_'' @ to_hex bytes"

definition generate_handoff_token :: "nat list \<Rightarrow> string" where
  "generate_handoff_token bytes = ''ho_'' @ generate_key bytes"

definition generate_url_secret :: "nat list \<Rightarrow> string" where
  "generate_url_secret bytes = base32_chars 26 (pack_bytes bytes)"

definition generate_public_token :: "nat list \<Rightarrow> string" where
  "generate_public_token bytes = map (\<lambda>b. ''abcdefghijklmnopqrstuvwxyz234567'' ! (b mod 32)) bytes"

definition new_ulid :: "int \<Rightarrow> nat list \<Rightarrow> string" where
  "new_ulid now_unix_ms rand_bytes =
     (let ts = nat (max now_unix_ms 0) in base32_chars 10 ts @ base32_chars 16 (pack_bytes rand_bytes))"

section \<open>Comparing and reading credentials\<close>

definition constant_time_eq :: "nat list \<Rightarrow> nat list \<Rightarrow> bool" where
  "constant_time_eq a b \<longleftrightarrow>
     (if length a \<noteq> length b then False
      else fold (\<lambda>(x, y) diff. diff OR (x XOR y)) (zip a b) (0 :: nat) = 0)"

text \<open>The \<open>Authorization\<close> header's value, when it is there and is ASCII text.\<close>

definition extract_bearer :: "string option \<Rightarrow> string option" where
  "extract_bearer auth_header =
     (case auth_header of
        None \<Rightarrow> None
      | Some v \<Rightarrow>
          if starts_with v ''Bearer ''
          then (let key = drop 7 v in if key = [] then None else Some key)
          else None)"

datatype auth_shape = ShapeHeader | ShapeArg | ShapeBoth | ShapeUrl

definition auth_shape_all :: "auth_shape list" where
  "auth_shape_all = [ShapeHeader, ShapeArg, ShapeBoth, ShapeUrl]"

fun auth_shape_name :: "auth_shape \<Rightarrow> string" where
  "auth_shape_name ShapeHeader = ''header''"
| "auth_shape_name ShapeArg = ''arg''"
| "auth_shape_name ShapeBoth = ''both''"
| "auth_shape_name ShapeUrl = ''url''"

definition self_offboard_reason :: string where "self_offboard_reason = ''self_offboard''"
definition idle_expired_reason :: string where "idle_expired_reason = ''idle_expired''"
definition unclaimed_expiring_reason :: string where "unclaimed_expiring_reason = ''unclaimed_expiring''"
definition unclaimed_expired_reason :: string where "unclaimed_expired_reason = ''unclaimed_expired''"

definition frees_peer :: "string option \<Rightarrow> bool" where
  "frees_peer r \<longleftrightarrow>
     (case r of None \<Rightarrow> False
      | Some s \<Rightarrow> s \<in> {self_offboard_reason, idle_expired_reason, unclaimed_expiring_reason, unclaimed_expired_reason})"

section \<open>Hexadecimal\<close>

lemma hex_digit_inj: "a < 16 \<Longrightarrow> b < 16 \<Longrightarrow> hex_digit a = hex_digit b \<Longrightarrow> a = b"
  unfolding hex_digit_def by (subst (asm) nth_eq_iff_index_eq) simp_all

definition is_hex_digit :: "char \<Rightarrow> bool" where
  "is_hex_digit c \<longleftrightarrow> c \<in> set ''0123456789abcdef''"

lemma hex_digit_is_hex: "n < 16 \<Longrightarrow> is_hex_digit (hex_digit n)"
  unfolding is_hex_digit_def hex_digit_def by (rule nth_mem) simp

lemma to_hex_Nil [simp]: "to_hex [] = []"
  by (simp add: to_hex_def)

lemma to_hex_Cons: "to_hex (b # bs) = hex_digit (b div 16) # hex_digit (b mod 16) # to_hex bs"
  by (simp add: to_hex_def)

lemma length_to_hex [simp]: "length (to_hex bs) = 2 * length bs"
  by (induction bs) (auto simp: to_hex_Cons)

lemma to_hex_digits: "\<forall>b \<in> set bs. b < 256 \<Longrightarrow> c \<in> set (to_hex bs) \<Longrightarrow> is_hex_digit c"
  by (induction bs) (auto simp: to_hex_Cons intro!: hex_digit_is_hex)

lemma to_hex_inj:
  "\<forall>b \<in> set bs. b < 256 \<Longrightarrow> \<forall>b \<in> set bs'. b < 256 \<Longrightarrow> to_hex bs = to_hex bs' \<Longrightarrow> bs = bs'"
proof (induction bs arbitrary: bs')
  case Nil
  then show ?case by (cases bs') (simp_all add: to_hex_Cons)
next
  case (Cons b bs)
  then obtain c cs where bs': "bs' = c # cs" by (cases bs') (simp_all add: to_hex_Cons)
  with Cons.prems have eq: "hex_digit (b div 16) = hex_digit (c div 16)" "hex_digit (b mod 16) = hex_digit (c mod 16)"
    "to_hex bs = to_hex cs" by (simp_all add: to_hex_Cons)
  from Cons.prems bs' have lt: "b div 16 < 16" "c div 16 < 16"
    by (simp_all add: less_mult_imp_div_less)
  have d: "b div 16 = c div 16" by (rule hex_digit_inj[OF lt eq(1)])
  have m: "b mod 16 = c mod 16" by (rule hex_digit_inj[OF _ _ eq(2)]) simp_all
  have "b = c"
    by (subst div_mult_mod_eq[of b 16, symmetric], subst div_mult_mod_eq[of c 16, symmetric]) (simp only: d m)
  moreover have "bs = cs" using Cons.prems bs' eq(3) by (intro Cons.IH) simp_all
  ultimately show ?case by (simp add: bs')
qed

section \<open>Base 32\<close>

lemma pack_step: "b < 256 \<Longrightarrow> push_bit 8 (acc::nat) OR b = acc * 256 + b"
proof -
  assume "b < 256"
  then have b: "take_bit 8 b = b" by (simp add: take_bit_nat_eq_self)
  have "push_bit 8 acc + b = push_bit 8 acc OR b"
  proof (rule disjunctive_add_eq_or, rule bit_eqI)
    fix n
    show "bit (push_bit 8 acc AND b) n = bit (0::nat) n"
      using b by (auto simp: bit_simps) (metis bit_take_bit_iff not_le)
  qed
  then show ?thesis by (simp add: push_bit_eq_mult)
qed

lemma pack_bytes_snoc: "b < 256 \<Longrightarrow> pack_bytes (bs @ [b]) = pack_bytes bs * 256 + b"
  by (simp add: pack_bytes_def pack_step)

lemma pack_bytes_bound: "\<forall>b \<in> set bs. b < 256 \<Longrightarrow> pack_bytes bs < 256 ^ length bs"
proof (induction bs rule: rev_induct)
  case (snoc b bs)
  then have "pack_bytes bs + 1 \<le> 256 ^ length bs" "b < 256" by auto
  then have "(pack_bytes bs + 1) * 256 \<le> 256 ^ length bs * 256" by (intro mult_le_mono1)
  with snoc.prems show ?case by (simp add: pack_bytes_snoc)
qed (simp add: pack_bytes_def)

lemma pack_bytes_inj:
  "\<forall>b \<in> set bs. b < 256 \<Longrightarrow> \<forall>b \<in> set bs'. b < 256 \<Longrightarrow> length bs = length bs' \<Longrightarrow>
     pack_bytes bs = pack_bytes bs' \<Longrightarrow> bs = bs'"
proof (induction bs arbitrary: bs' rule: rev_induct)
  case (snoc b bs)
  then obtain c cs where bs': "bs' = cs @ [c]" by (cases bs' rule: rev_exhaust) auto
  with snoc.prems have eq: "pack_bytes bs * 256 + b = pack_bytes cs * 256 + c" and lt: "b < 256" "c < 256"
    by (auto simp: pack_bytes_snoc)
  from arg_cong[OF eq, of "\<lambda>n. n mod 256"] lt have bc: "b = c" by simp
  with eq have "pack_bytes bs = pack_bytes cs" by simp
  then have "bs = cs" using snoc.prems bs' by (intro snoc.IH) simp_all
  with bc bs' show ?case by simp
qed simp

lemma base32_chars_Suc:
  "base32_chars (Suc n) acc = crockford_alphabet ! (acc div 32 ^ n mod 32) # base32_chars n acc"
proof -
  have "drop_bit (n * 5) acc AND 31 = acc div 32 ^ n mod 32" for n
  proof -
    have "x AND 31 = x mod 32" for x :: nat
      using take_bit_eq_mask[of 5 x] by (simp add: take_bit_eq_mod mask_eq_exp_minus_1)
    moreover have "(2::nat) ^ (n * 5) = 32 ^ n" by (simp add: power_mult mult.commute[of n])
    ultimately show ?thesis by (simp add: drop_bit_eq_div)
  qed
  then show ?thesis by (simp add: base32_chars_def)
qed

lemma base32_chars_mod: "base32_chars n (acc mod 32 ^ n) = base32_chars n acc"
proof -
  have "base32_chars n (acc mod 32 ^ m) = base32_chars n acc" if "n \<le> m" for m
    using that
  proof (induction n)
    case (Suc n)
    have "acc mod 32 ^ m div 32 ^ n mod 32 = acc div 32 ^ n mod (32::nat)"
    proof -
      obtain k where m: "m = n + 1 + k" using Suc.prems by (metis Suc_eq_plus1 le_Suc_ex)
      have "acc mod (32 ^ n * 32 ^ (k + 1)) div 32 ^ n = acc div 32 ^ n mod (32::nat) ^ (k + 1)"
        by (simp add: mod_mult2_eq)
      moreover have "x mod 32 ^ (k + 1) mod 32 = x mod (32::nat)" for x
        by (rule mod_mod_cancel) simp
      moreover have "(32::nat) ^ m = 32 ^ n * 32 ^ (k + 1)" by (simp add: m power_add)
      ultimately show ?thesis by (simp only:)
    qed
    with Suc show ?case by (simp add: base32_chars_Suc)
  qed (simp add: base32_chars_def)
  then show ?thesis by simp
qed

lemma length_base32 [simp]: "length (base32_chars n acc) = n"
  by (simp add: base32_chars_def)

lemma crockford_sorted: "sorted_wrt (<) crockford_alphabet"
  unfolding crockford_alphabet_def by simp

lemma crockford_less: "i < 32 \<Longrightarrow> j < 32 \<Longrightarrow> i < j \<Longrightarrow> crockford_alphabet ! i < crockford_alphabet ! j"
  using crockford_sorted by (auto simp: sorted_wrt_iff_nth_less crockford_alphabet_def)

lemma base32_less: "a < 32 ^ n \<Longrightarrow> b < 32 ^ n \<Longrightarrow> a < b \<Longrightarrow> base32_chars n a < base32_chars n b"
proof (induction n arbitrary: a b)
  case (Suc n)
  have d: "x div 32 ^ n < 32" if "x < 32 ^ Suc n" for x :: nat
    using that by (simp add: less_mult_imp_div_less mult.commute)
  show ?case
  proof (cases "a div 32 ^ n = b div 32 ^ n")
    case True
    have "a mod 32 ^ n < b mod 32 ^ n"
    proof -
      have "a div 32 ^ n * 32 ^ n + a mod 32 ^ n < b div 32 ^ n * 32 ^ n + b mod 32 ^ n"
        using Suc.prems(3) by (simp only: div_mult_mod_eq)
      with True show ?thesis by simp
    qed
    then have "base32_chars n (a mod 32 ^ n) < base32_chars n (b mod 32 ^ n)" by (intro Suc.IH) auto
    with True show ?thesis by (simp add: base32_chars_Suc base32_chars_mod)
  next
    case False
    with Suc.prems(3) have "a div 32 ^ n < b div 32 ^ n" by (meson div_le_mono le_neq_implies_less less_imp_le_nat)
    then show ?thesis
      using d[OF Suc.prems(1)] d[OF Suc.prems(2)] by (simp add: base32_chars_Suc crockford_less)
  qed
qed simp

lemma base32_inj: "a < 32 ^ n \<Longrightarrow> b < 32 ^ n \<Longrightarrow> base32_chars n a = base32_chars n b \<Longrightarrow> a = b"
  using base32_less[of a n b] base32_less[of b n a] by (cases a b rule: linorder_cases) auto

lemma append_less_left: "length x = length y \<Longrightarrow> (x :: string) < y \<Longrightarrow> x @ u < y @ v"
  by (induction x y rule: list_induct2) auto

lemma append_less_right: "x @ u < x @ v \<longleftrightarrow> (u :: string) < v"
  by (induction x) auto

section \<open>Comparison\<close>

lemma xor_zero_nat: "(x::nat) XOR y = 0 \<longleftrightarrow> x = y"
proof
  assume "x XOR y = 0"
  then have "\<forall>n. bit (x XOR y) n = bit (0::nat) n" by simp
  then show "x = y" by (intro bit_eqI) (auto simp: bit_simps)
qed simp

lemma or_zero_nat: "(x::nat) OR y = 0 \<longleftrightarrow> x = 0 \<and> y = 0"
  by (rule or_eq_0_iff)

lemma fold_diff:
  "length a = length b \<Longrightarrow> fold (\<lambda>(x, y) diff. diff OR (x XOR y)) (zip a b) (d::nat) = 0 \<longleftrightarrow> d = 0 \<and> a = b"
  by (induction a b arbitrary: d rule: list_induct2) (auto simp: or_zero_nat xor_zero_nat)

lemma constant_time_eq_iff: "constant_time_eq a b \<longleftrightarrow> a = b"
  by (auto simp: constant_time_eq_def fold_diff)

section \<open>Properties\<close>

text \<open>The constant-time comparison of two secrets, a fold over every byte with no early exit, decides
  equality.\<close>

theorem constant_time_eq_correct: "constant_time_eq a b \<longleftrightarrow> a = b"
  by (rule constant_time_eq_iff)

text \<open>A URL secret keeps all 128 random bits: two different 16-byte draws give two different
  26-character secrets.\<close>

theorem url_secret_injective:
  "length r = 16 \<Longrightarrow> length r' = 16 \<Longrightarrow> \<forall>b \<in> set r \<union> set r'. b < 256 \<Longrightarrow>
     generate_url_secret r = generate_url_secret r' \<Longrightarrow> r = r'"
proof -
  assume a: "length r = 16" "length r' = 16" "\<forall>b \<in> set r \<union> set r'. b < 256"
    "generate_url_secret r = generate_url_secret r'"
  have "(256::nat) ^ 16 < 32 ^ 26" by simp
  with pack_bytes_bound[of r] pack_bytes_bound[of r'] a have "pack_bytes r < 32 ^ 26" "pack_bytes r' < 32 ^ 26"
    by (metis UnCI less_trans)+
  with a(4) have "pack_bytes r = pack_bytes r'" unfolding generate_url_secret_def by (intro base32_inj)
  with a show "r = r'" by (intro pack_bytes_inj) auto
qed

theorem url_secret_injective_witness:
  "generate_url_secret (replicate 16 0) \<noteq> generate_url_secret (replicate 15 0 @ [1])"
  using url_secret_injective[of "replicate 16 0" "replicate 15 0 @ [1]"] by (auto simp: numeral_eq_Suc)

text \<open>Run identifiers sort by the time they were made: an identifier of a later millisecond is greater
  in string order, whatever the random halves (until the clock passes 2 to the 50 milliseconds).\<close>

theorem ulid_sorts_by_time:
  "0 \<le> t \<Longrightarrow> t < t' \<Longrightarrow> t' < 2 ^ 50 \<Longrightarrow> new_ulid t r < new_ulid t' r'"
proof -
  assume a: "0 \<le> t" "t < t'" "t' < 2 ^ 50"
  have "nat t' < nat (2 ^ 50)" using a by (simp only: nat_less_eq_zless)
  then have "nat t' < 32 ^ 10" by (simp add: nat_power_eq)
  moreover have "nat t < nat t'" using a by simp
  ultimately have "base32_chars 10 (nat t) < base32_chars 10 (nat t')" by (intro base32_less) auto
  with a show "new_ulid t r < new_ulid t' r'"
    by (simp add: new_ulid_def Let_def append_less_left)
qed

theorem ulid_sorts_by_time_witness: "new_ulid 5 [9] < new_ulid 6 [1]"
  by (rule ulid_sorts_by_time) simp_all

text \<open>Within one millisecond the order of two identifiers is that of their random halves, not of
  insertion: a later identifier can sort before an earlier one.\<close>

theorem ulid_same_millisecond_unordered:
  "\<exists>first second. length first = 10 \<and> length second = 10 \<and> new_ulid 7 second < new_ulid 7 first"
proof (intro exI conjI)
  let ?f = "replicate 9 0 @ [1]" and ?s = "replicate 10 (0::nat)"
  show "length ?f = 10" "length ?s = 10" by simp_all
  have "pack_bytes ?s = 0" "pack_bytes ?f = 1"
    by (simp_all add: pack_bytes_def numeral_eq_Suc)
  then have "base32_chars 16 (pack_bytes ?s) < base32_chars 16 (pack_bytes ?f)"
    by (intro base32_less) simp_all
  then show "new_ulid 7 ?s < new_ulid 7 ?f" unfolding new_ulid_def Let_def append_less_right .
qed

text \<open>The kinds of credential cannot be mistaken for one another: no tenant key is a sub-key, a
  handoff token or a namespace, and no two of those coincide, whatever the random bytes.\<close>

theorem credential_kinds_disjoint:
  "\<forall>b \<in> set k. b < 256 \<Longrightarrow> k \<noteq> [] \<Longrightarrow>
     generate_key k \<notin> {generate_sub_key s, generate_handoff_token h, generate_namespace n}
     \<and> generate_sub_key s \<noteq> generate_handoff_token h
     \<and> generate_sub_key s \<noteq> generate_namespace n \<and> generate_handoff_token h \<noteq> generate_namespace n"
proof -
  assume k: "\<forall>b \<in> set k. b < 256" "k \<noteq> []"
  have "c \<in> set (generate_key k) \<Longrightarrow> is_hex_digit c" for c
    using k by (simp add: generate_key_def to_hex_digits)
  then have "CHR ''m'' \<notin> set (generate_key k)" "CHR ''h'' \<notin> set (generate_key k)" "CHR ''t'' \<notin> set (generate_key k)"
    by (auto simp: is_hex_digit_def)
  then show ?thesis
    by (auto simp: generate_sub_key_def generate_handoff_token_def generate_namespace_def sub_key_prefix_def)
qed

theorem credential_kinds_disjoint_witness:
  "generate_key [1, 2] \<noteq> generate_sub_key [1, 2]"
  using credential_kinds_disjoint[of "[1, 2]" "[1, 2]" "[]" "[]"] by simp

end
