(* ===== verification/Sessions.thy ===== *)
theory Sessions
  imports Auth
begin

text \<open>
  The session bindings of \<open>session_bind.rs\<close> and the recent peers of \<open>peer_recent.rs\<close>: two in-memory
  maps with a bound and an expiry. \<open>inner\<close> is the struct \<open>Inner\<close> (the bindings, the recency map from
  ticket to session, the next ticket and the sibling clients); the operations take it and return it,
  one call holding the mutex at a time. The HMAC under the process secret is the parameter \<open>mac\<close>.
  \<open>binding_ok\<close> is the invariant that ties the two maps together. The specification is a list of
  entries, the least recently used first: the operations refine it, so eviction is exactly
  least-recently-used. The locale \<open>bounded_store\<close> states what the callers of both maps rely on: a
  bound on the size and no invented entries.
\<close>

section \<open>Session identifiers\<close>

definition nonce_bytes :: nat where "nonce_bytes = 16"
definition tag_bytes :: nat where "tag_bytes = 16"
definition max_bound_sessions :: nat where "max_bound_sessions = 10000"
definition binding_idle_ttl_secs :: int where "binding_idle_ttl_secs = 24 * 60 * 60"

definition session_tag :: "(nat list \<Rightarrow> nat list) \<Rightarrow> string \<Rightarrow> string" where
  "session_tag mac nonce_hex = to_hex (take tag_bytes (mac (as_bytes nonce_hex)))"

definition issue :: "(nat list \<Rightarrow> nat list) \<Rightarrow> nat list \<Rightarrow> string" where
  "issue mac nonce = (let nonce_hex = to_hex nonce in nonce_hex @ ''.'' @ session_tag mac nonce_hex)"

definition is_ascii_hexdigit :: "nat \<Rightarrow> bool" where
  "is_ascii_hexdigit b \<longleftrightarrow> (48 \<le> b \<and> b \<le> 57) \<or> (97 \<le> b \<and> b \<le> 102) \<or> (65 \<le> b \<and> b \<le> 70)"

definition is_server_issued :: "(nat list \<Rightarrow> nat list) \<Rightarrow> string \<Rightarrow> bool" where
  "is_server_issued mac sid \<longleftrightarrow>
     (case split_once (CHR ''.'') sid of
        None \<Rightarrow> False
      | Some (nonce_hex, tag) \<Rightarrow>
          if str_len nonce_hex \<noteq> nonce_bytes * 2 \<or> str_len tag \<noteq> tag_bytes * 2 then False
          else if \<not> list_all is_ascii_hexdigit (as_bytes nonce_hex) then False
          else constant_time_eq (as_bytes (session_tag mac nonce_hex)) (as_bytes tag))"

section \<open>The bindings\<close>

record binding =
  b_tenant :: int
  b_last_used :: int
  b_seq :: nat

record inner =
  bindings :: "(string \<times> binding) list"
  recency :: "(nat \<times> string) list"
  next_seq :: nat
  clients :: "(string \<times> (int \<times> string)) list"

definition inner_default :: inner where
  "inner_default = \<lparr>bindings = [], recency = [], next_seq = 0, clients = []\<rparr>"

definition touch :: "string \<Rightarrow> int \<Rightarrow> inner \<Rightarrow> inner" where
  "touch sid now inn =
     (let seq = next_seq inn; inn = inn\<lparr>next_seq := wrap_u64 (seq + 1)\<rparr> in
      case map_of (bindings inn) sid of
        None \<Rightarrow> inn
      | Some b \<Rightarrow>
          inn\<lparr>bindings := AList.update sid (b\<lparr>b_seq := seq, b_last_used := now\<rparr>) (bindings inn),
              recency := obj_insert seq sid (AList.delete (b_seq b) (recency inn))\<rparr>)"

definition remove_session :: "string \<Rightarrow> inner \<Rightarrow> inner" where
  "remove_session sid inn =
     (let inn = inn\<lparr>clients := AList.delete sid (clients inn)\<rparr> in
      case map_of (bindings inn) sid of
        None \<Rightarrow> inn
      | Some b \<Rightarrow> inn\<lparr>bindings := AList.delete sid (bindings inn), recency := AList.delete (b_seq b) (recency inn)\<rparr>)"

function evict_to_capacity :: "inner \<Rightarrow> inner" where
  "evict_to_capacity inn =
     (if length (bindings inn) > max_bound_sessions then
        (case recency inn of
           [] \<Rightarrow> inn
         | (seq, victim) # _ \<Rightarrow>
             evict_to_capacity (inn\<lparr>recency := AList.delete seq (recency inn),
                                   clients := AList.delete victim (clients inn),
                                   bindings := AList.delete victim (bindings inn)\<rparr>))
      else inn)"
  by auto
termination
  by (relation "measure (length \<circ> recency)") (auto simp: less_Suc_eq_le length_delete_le)

declare evict_to_capacity.simps [simp del]

definition bind_session :: "(nat list \<Rightarrow> nat list) \<Rightarrow> string \<Rightarrow> int \<Rightarrow> int \<Rightarrow> inner \<Rightarrow> bool \<times> inner" where
  "bind_session mac sid tenant_id now inn =
     (if \<not> is_server_issued mac sid then (False, inn)
      else
        (let seq = next_seq inn;
             inn = inn\<lparr>next_seq := wrap_u64 (seq + 1)\<rparr>;
             previous = map_of (bindings inn) sid;
             inn = inn\<lparr>bindings := AList.update sid \<lparr>b_tenant = tenant_id, b_last_used = now, b_seq = seq\<rparr> (bindings inn)\<rparr>;
             inn = (case previous of
                      Some p \<Rightarrow> inn\<lparr>recency := AList.delete (b_seq p) (recency inn)\<rparr> | None \<Rightarrow> inn);
             inn = inn\<lparr>recency := obj_insert seq sid (recency inn)\<rparr>
         in (True, evict_to_capacity inn)))"

definition lookup_session :: "(nat list \<Rightarrow> nat list) \<Rightarrow> string \<Rightarrow> int \<Rightarrow> inner \<Rightarrow> int option \<times> inner" where
  "lookup_session mac sid now inn =
     (if \<not> is_server_issued mac sid then (None, inn)
      else case map_of (bindings inn) sid of
          None \<Rightarrow> (None, inn)
        | Some b \<Rightarrow>
            if wrap_i64 (now - b_last_used b) \<ge> binding_idle_ttl_secs then (None, remove_session sid inn)
            else (Some (b_tenant b), touch sid now inn))"

definition bind_client :: "string \<Rightarrow> int \<Rightarrow> string \<Rightarrow> inner \<Rightarrow> inner" where
  "bind_client sid tenant_id client_id inn =
     (if map_of (bindings inn) sid \<noteq> None
      then inn\<lparr>clients := AList.update sid (tenant_id, client_id) (clients inn)\<rparr> else inn)"

definition client_lookup :: "string \<Rightarrow> int \<Rightarrow> inner \<Rightarrow> string option" where
  "client_lookup sid tenant_id inn =
     (case map_of (clients inn) sid of
        Some (t, c) \<Rightarrow>
          if t = tenant_id \<and> (case map_of (bindings inn) sid of Some b \<Rightarrow> b_tenant b = tenant_id | None \<Rightarrow> False)
          then Some c else None
      | None \<Rightarrow> None)"

definition drop_binding :: "string \<Rightarrow> inner \<Rightarrow> inner" where
  "drop_binding sid inn = remove_session sid inn"

definition drop_tenant :: "int \<Rightarrow> inner \<Rightarrow> inner" where
  "drop_tenant tenant_id inn =
     fold remove_session (map fst (filter (\<lambda>(_, b). b_tenant b = tenant_id) (bindings inn))) inn"

definition sessions_len :: "inner \<Rightarrow> nat" where
  "sessions_len inn = length (bindings inn)"

section \<open>Invariant and abstraction\<close>

definition binding_ok :: "inner \<Rightarrow> bool" where
  "binding_ok inn \<longleftrightarrow>
     distinct (map fst (bindings inn)) \<and> obj_ok (recency inn) \<and> distinct (map snd (recency inn))
     \<and> (\<forall>q s. (q, s) \<in> set (recency inn) \<longleftrightarrow> (\<exists>b. map_of (bindings inn) s = Some b \<and> b_seq b = q))
     \<and> (\<forall>q \<in> fst ` set (recency inn). q < next_seq inn)
     \<and> fst ` set (clients inn) \<subseteq> fst ` set (bindings inn)"

text \<open>The entries (session, tenant, last use), the least recently used first.\<close>

definition entry_of :: "inner \<Rightarrow> string \<Rightarrow> string \<times> int \<times> int" where
  "entry_of inn s = (let b = the (map_of (bindings inn) s) in (s, b_tenant b, b_last_used b))"

definition entries :: "inner \<Rightarrow> (string \<times> int \<times> int) list" where
  "entries inn = map (\<lambda>(_, s). entry_of inn s) (recency inn)"

lemma binding_ok_default [simp]: "binding_ok inner_default"
  by (simp add: binding_ok_def inner_default_def obj_ok_def)

lemma recency_sids:
  assumes "binding_ok inn" shows "snd ` set (recency inn) = fst ` set (bindings inn)"
proof -
  have r: "\<And>q s. (q, s) \<in> set (recency inn) \<longleftrightarrow> (\<exists>b. map_of (bindings inn) s = Some b \<and> b_seq b = q)"
    using assms by (simp add: binding_ok_def)
  have "s \<in> snd ` set (recency inn) \<longleftrightarrow> (\<exists>q. (q, s) \<in> set (recency inn))" for s
    by force
  then have "s \<in> snd ` set (recency inn) \<longleftrightarrow> (\<exists>b. map_of (bindings inn) s = Some b)" for s
    unfolding r by blast
  moreover have "(\<exists>b. map_of (bindings inn) s = Some b) \<longleftrightarrow> s \<in> fst ` set (bindings inn)" for s
    by (metis map_of_eq_None_iff not_None_eq)
  ultimately show ?thesis by blast
qed

lemma length_recency: "binding_ok inn \<Longrightarrow> length (recency inn) = length (bindings inn)"
proof -
  assume ok: "binding_ok inn"
  then have "card (set (map snd (recency inn))) = card (set (map fst (bindings inn)))"
    by (simp add: recency_sids)
  with ok show ?thesis by (simp add: binding_ok_def distinct_card del: set_map)
qed

lemma length_entries: "binding_ok inn \<Longrightarrow> length (entries inn) = sessions_len inn"
  by (simp add: entries_def sessions_len_def length_recency)

lemma recency_delete:
  assumes "binding_ok inn" "map_of (bindings inn) sid = Some b"
  shows "AList.delete (b_seq b) (recency inn) = filter (\<lambda>p. snd p \<noteq> sid) (recency inn)"
proof -
  from assms have at: "(b_seq b, sid) \<in> set (recency inn)" by (simp add: binding_ok_def)
  from assms have "distinct (map fst (recency inn))" "distinct (map snd (recency inn))"
    by (auto simp: binding_ok_def obj_ok_distinct)
  then have inj: "inj_on fst (set (recency inn))" "inj_on snd (set (recency inn))"
    by (simp_all add: distinct_map)
  have "p \<in> set (recency inn) \<Longrightarrow> (b_seq b \<noteq> fst p) = (snd p \<noteq> sid)" for p
    using inj_onD[OF inj(1), of p "(b_seq b, sid)"] inj_onD[OF inj(2), of p "(b_seq b, sid)"] at by (cases p) auto
  then have "filter (\<lambda>p. b_seq b \<noteq> fst p) (recency inn) = filter (\<lambda>p. snd p \<noteq> sid) (recency inn)"
    by (rule filter_cong[OF refl])
  moreover have "(\<lambda>(k', _ :: string). b_seq b \<noteq> k') = (\<lambda>p. b_seq b \<noteq> fst p)" by (auto simp: fun_eq_iff)
  ultimately show ?thesis by (simp only: AList.delete_eq)
qed

lemma recency_absent:
  "binding_ok inn \<Longrightarrow> map_of (bindings inn) sid = None \<Longrightarrow> filter (\<lambda>p. snd p \<noteq> sid) (recency inn) = recency inn"
  using recency_sids[of inn] by (auto simp: filter_id_conv map_of_eq_None_iff)

text \<open>The two changes every operation is made of: an entry becomes the most recent one, or goes.\<close>

definition put_entry :: "string \<Rightarrow> binding \<Rightarrow> inner \<Rightarrow> inner" where
  "put_entry sid b inn =
     inn\<lparr>next_seq := next_seq inn + 1,
         bindings := AList.update sid b (bindings inn),
         recency := filter (\<lambda>p. snd p \<noteq> sid) (recency inn) @ [(next_seq inn, sid)]\<rparr>"

definition del_entry :: "string \<Rightarrow> inner \<Rightarrow> inner" where
  "del_entry sid inn =
     inn\<lparr>clients := AList.delete sid (clients inn),
         bindings := AList.delete sid (bindings inn), recency := filter (\<lambda>p. snd p \<noteq> sid) (recency inn)\<rparr>"

lemma keys_delete: "fst ` set (AList.delete k m) = fst ` set m - {k}"
  by (simp add: delete_keys flip: set_map)

lemma distinct_map_filter': "distinct (map f xs) \<Longrightarrow> distinct (map f (filter P xs))"
  by (induction xs) auto

lemma obj_ok_snoc: "obj_ok m \<Longrightarrow> \<forall>x \<in> fst ` set m. x < k \<Longrightarrow> obj_ok (m @ [(k, v)])"
  by (auto simp: obj_ok_def sorted_wrt_append)

lemma binding_ok_put:
  assumes ok: "binding_ok inn" and b: "b_seq b = next_seq inn"
  shows "binding_ok (put_entry sid b inn)"
    and "entries (put_entry sid b inn) =
           filter (\<lambda>e. fst e \<noteq> sid) (entries inn) @ [(sid, b_tenant b, b_last_used b)]"
proof -
  have "obj_ok (filter (\<lambda>p. snd p \<noteq> sid) (recency inn) @ [(next_seq inn, sid)])"
    using ok by (intro obj_ok_snoc obj_ok_filter) (auto simp: binding_ok_def)
  moreover have "distinct (map snd (filter (\<lambda>p. snd p \<noteq> sid) (recency inn) @ [(next_seq inn, sid)]))"
    using ok by (auto simp: binding_ok_def intro: distinct_map_filter')
  ultimately show "binding_ok (put_entry sid b inn)"
    using ok b by (auto simp: binding_ok_def put_entry_def distinct_update dom_update less_Suc_eq)
  show "entries (put_entry sid b inn) =
      filter (\<lambda>e. fst e \<noteq> sid) (entries inn) @ [(sid, b_tenant b, b_last_used b)]"
    by (auto simp: entries_def put_entry_def entry_of_def filter_map comp_def Let_def split_beta)
qed

lemma binding_ok_del:
  assumes ok: "binding_ok inn"
  shows "binding_ok (del_entry sid inn)"
    and "entries (del_entry sid inn) = filter (\<lambda>e. fst e \<noteq> sid) (entries inn)"
proof -
  show "binding_ok (del_entry sid inn)"
    using ok by (auto simp: binding_ok_def del_entry_def distinct_delete obj_ok_filter distinct_map_filter' keys_delete)
  show "entries (del_entry sid inn) = filter (\<lambda>e. fst e \<noteq> sid) (entries inn)"
    by (auto simp: entries_def del_entry_def entry_of_def filter_map comp_def Let_def split_beta)
qed

section \<open>Each operation on its abstraction\<close>

definition seq_room :: "nat \<Rightarrow> inner \<Rightarrow> bool" where
  "seq_room n inn \<longleftrightarrow> next_seq inn + n \<le> u64_max"

lemma recency_insert:
  assumes "binding_ok inn"
  shows "obj_insert (next_seq inn) sid (filter P (recency inn)) = filter P (recency inn) @ [(next_seq inn, sid)]"
  using assms by (intro obj_insert_last) (auto simp: binding_ok_def)

lemma touch_put:
  assumes "binding_ok inn" "seq_room 1 inn" "map_of (bindings inn) sid = Some b"
  shows "touch sid now inn = put_entry sid (b\<lparr>b_seq := next_seq inn, b_last_used := now\<rparr>) inn"
  using assms recency_delete[OF assms(1,3)] recency_insert[OF assms(1), of sid]
  by (simp add: touch_def put_entry_def Let_def seq_room_def wrap_u64_id)

lemma remove_del: "binding_ok inn \<Longrightarrow> remove_session sid inn = del_entry sid inn"
proof (cases "map_of (bindings inn) sid")
  case None
  assume ok: "binding_ok inn"
  from None have "sid \<notin> fst ` set (bindings inn)" by (simp add: map_of_eq_None_iff)
  with None recency_absent[OF ok None] show ?thesis by (simp add: remove_session_def del_entry_def)
next
  case (Some b)
  assume "binding_ok inn"
  with Some recency_delete show ?thesis by (simp add: remove_session_def del_entry_def)
qed

lemma evict_step_del:
  assumes "binding_ok inn" "recency inn = (q, v) # r"
  shows "inn\<lparr>recency := AList.delete q (recency inn), clients := AList.delete v (clients inn),
             bindings := AList.delete v (bindings inn)\<rparr> = del_entry v inn"
proof -
  from assms(2) have "(q, v) \<in> set (recency inn)" by simp
  with assms(1) obtain b where "map_of (bindings inn) v = Some b" "b_seq b = q"
    unfolding binding_ok_def by blast
  with recency_delete[OF assms(1)] have "AList.delete q (recency inn) = filter (\<lambda>p. snd p \<noteq> v) (recency inn)" by auto
  then show ?thesis by (simp add: del_entry_def)
qed

lemma entries_distinct: "binding_ok inn \<Longrightarrow> distinct (map fst (entries inn))"
  by (simp add: entries_def entry_of_def Let_def binding_ok_def comp_def split_beta)

lemma filter_head: "distinct (map fst (e # es)) \<Longrightarrow> filter (\<lambda>x. fst x \<noteq> fst e) (e # es) = es"
  by (auto simp: filter_id_conv image_iff)

lemma evict_refines:
  "binding_ok inn \<Longrightarrow>
     binding_ok (evict_to_capacity inn)
     \<and> entries (evict_to_capacity inn) = drop (length (entries inn) - max_bound_sessions) (entries inn)
     \<and> next_seq (evict_to_capacity inn) = next_seq inn"
proof (induction inn rule: evict_to_capacity.induct)
  case (1 inn)
  show ?case
  proof (cases "length (bindings inn) > max_bound_sessions")
    case False
    with 1(2) have "length (entries inn) - max_bound_sessions = 0"
      using length_entries[of inn] by (simp add: sessions_len_def)
    with 1(2) False show ?thesis by (simp add: evict_to_capacity.simps[of inn])
  next
    case True
    with length_recency[OF 1(2)] obtain q v r where r: "recency inn = (q, v) # r"
      by (cases "recency inn") (auto simp: max_bound_sessions_def)
    let ?d = "del_entry v inn"
    note step = evict_step_del[OF 1(2) r]
    have ev: "evict_to_capacity inn = evict_to_capacity ?d"
      using True r step by (simp add: evict_to_capacity.simps[of inn])
    have ih: "binding_ok (evict_to_capacity ?d)
       \<and> entries (evict_to_capacity ?d) = drop (length (entries ?d) - max_bound_sessions) (entries ?d)
       \<and> next_seq (evict_to_capacity ?d) = next_seq ?d"
      using 1(1)[OF True r refl] binding_ok_del(1)[OF 1(2)] unfolding step by blast
    obtain e es where e: "entries inn = e # es" "fst e = v"
      using r by (auto simp: entries_def entry_of_def Let_def)
    have es: "entries ?d = es"
      using binding_ok_del(2)[OF 1(2), of v] entries_distinct[OF 1(2)] filter_head[of e es] e by simp
    have "max_bound_sessions < length (e # es)"
      using True length_entries[OF 1(2)] e(1) by (simp add: sessions_len_def)
    then have "drop (length (e # es) - max_bound_sessions) (e # es) = drop (length es - max_bound_sessions) es"
      by (simp add: Suc_diff_le)
    with ih ev es e show ?thesis by (simp add: del_entry_def)
  qed
qed

text \<open>The specification: bounded least-recently-used lists.\<close>

definition lru_put :: "string \<Rightarrow> int \<Rightarrow> int \<Rightarrow> (string \<times> int \<times> int) list \<Rightarrow> (string \<times> int \<times> int) list" where
  "lru_put sid t now es = filter (\<lambda>e. fst e \<noteq> sid) es @ [(sid, t, now)]"

definition lru_bind :: "string \<Rightarrow> int \<Rightarrow> int \<Rightarrow> (string \<times> int \<times> int) list \<Rightarrow> (string \<times> int \<times> int) list" where
  "lru_bind sid t now es = (let es' = lru_put sid t now es in drop (length es' - max_bound_sessions) es')"

definition lru_lookup :: "string \<Rightarrow> int \<Rightarrow> (string \<times> int \<times> int) list \<Rightarrow> int option \<times> (string \<times> int \<times> int) list" where
  "lru_lookup sid now es =
     (case map_of es sid of
        None \<Rightarrow> (None, es)
      | Some (t, last_used) \<Rightarrow>
          if wrap_i64 (now - last_used) \<ge> binding_idle_ttl_secs then (None, filter (\<lambda>e. fst e \<noteq> sid) es)
          else (Some t, lru_put sid t now es))"

lemma map_of_entries:
  assumes "binding_ok inn"
  shows "map_of (entries inn) sid = map_option (\<lambda>b. (b_tenant b, b_last_used b)) (map_of (bindings inn) sid)"
proof -
  have M: "map_of (map (\<lambda>s. (s, g s)) ss) sid = (if sid \<in> set ss then Some (g sid) else None)" for g :: "string \<Rightarrow> int \<times> int" and ss
    by (induction ss) auto
  have E: "entries inn = map (\<lambda>s. (s, (let b = the (map_of (bindings inn) s) in (b_tenant b, b_last_used b))))
      (map snd (recency inn))"
    by (simp add: entries_def entry_of_def Let_def comp_def split_beta)
  have "sid \<in> set (map snd (recency inn)) \<longleftrightarrow> map_of (bindings inn) sid \<noteq> None"
    using recency_sids[OF assms] by (simp add: map_of_eq_None_iff)
  then show ?thesis unfolding E M by (auto simp: Let_def)
qed

lemma bind_refines:
  assumes "binding_ok inn" "seq_room 1 inn" "is_server_issued mac sid"
  shows "fst (bind_session mac sid t now inn) \<and> binding_ok (snd (bind_session mac sid t now inn))
    \<and> entries (snd (bind_session mac sid t now inn)) = lru_bind sid t now (entries inn)
    \<and> next_seq (snd (bind_session mac sid t now inn)) = next_seq inn + 1"
proof -
  let ?b = "\<lparr>b_tenant = t, b_last_used = now, b_seq = next_seq inn\<rparr>"
  have "bind_session mac sid t now inn = (True, evict_to_capacity (put_entry sid ?b inn))"
    using assms recency_insert[OF assms(1), of sid "\<lambda>p. snd p \<noteq> sid"] recency_delete[OF assms(1), of sid] recency_absent[OF assms(1), of sid]
    by (cases "map_of (bindings inn) sid")
       (simp_all add: bind_session_def put_entry_def Let_def seq_room_def wrap_u64_id)
  moreover have "next_seq (put_entry sid ?b inn) = next_seq inn + 1" by (simp add: put_entry_def)
  ultimately show ?thesis
    using evict_refines[of "put_entry sid ?b inn"] binding_ok_put[OF assms(1), of ?b sid]
    by (simp add: lru_bind_def lru_put_def Let_def)
qed

lemma lookup_refines:
  assumes "binding_ok inn" "seq_room 1 inn" "is_server_issued mac sid"
  shows "fst (lookup_session mac sid now inn) = fst (lru_lookup sid now (entries inn))
    \<and> binding_ok (snd (lookup_session mac sid now inn))
    \<and> entries (snd (lookup_session mac sid now inn)) = snd (lru_lookup sid now (entries inn))
    \<and> next_seq (snd (lookup_session mac sid now inn)) \<le> next_seq inn + 1"
proof (cases "map_of (bindings inn) sid")
  case None
  with assms show ?thesis by (simp add: lookup_session_def lru_lookup_def map_of_entries)
next
  case (Some b)
  then have e: "map_of (entries inn) sid = Some (b_tenant b, b_last_used b)" by (simp add: map_of_entries assms)
  show ?thesis
  proof (cases "wrap_i64 (now - b_last_used b) \<ge> binding_idle_ttl_secs")
    case True
    with assms Some e binding_ok_del[OF assms(1), of sid] show ?thesis
      by (simp add: lookup_session_def lru_lookup_def remove_del) (simp add: del_entry_def)
  next
    case False
    let ?b = "b\<lparr>b_seq := next_seq inn, b_last_used := now\<rparr>"
    from False assms Some e binding_ok_put[OF assms(1), of ?b sid] touch_put[OF assms(1,2) Some, of now] show ?thesis
      by (simp add: lookup_session_def lru_lookup_def lru_put_def) (simp add: put_entry_def)
  qed
qed

lemma not_issued:
  "\<not> is_server_issued mac sid \<Longrightarrow> bind_session mac sid t now inn = (False, inn)"
  "\<not> is_server_issued mac sid \<Longrightarrow> lookup_session mac sid now inn = (None, inn)"
  by (simp_all add: bind_session_def lookup_session_def)

lemma drop_refines:
  assumes "binding_ok inn"
  shows "binding_ok (drop_binding sid inn)"
    and "entries (drop_binding sid inn) = filter (\<lambda>e. fst e \<noteq> sid) (entries inn)"
    and "next_seq (drop_binding sid inn) = next_seq inn"
  using binding_ok_del[OF assms] by (simp_all add: drop_binding_def remove_del assms) (simp add: del_entry_def)

lemma fold_remove:
  "binding_ok inn \<Longrightarrow>
     binding_ok (fold remove_session sids inn)
     \<and> entries (fold remove_session sids inn) = filter (\<lambda>e. fst e \<notin> set sids) (entries inn)
     \<and> next_seq (fold remove_session sids inn) = next_seq inn"
proof (induction sids arbitrary: inn)
  case (Cons sid sids)
  have "binding_ok (del_entry sid inn)" "entries (del_entry sid inn) = filter (\<lambda>e. fst e \<noteq> sid) (entries inn)"
    "next_seq (del_entry sid inn) = next_seq inn"
    using binding_ok_del[OF Cons.prems] by (auto simp: del_entry_def)
  with Cons.IH[of "del_entry sid inn"] Cons.prems show ?case
    by (simp add: remove_del conj_commute)
qed simp

lemma drop_tenant_refines:
  assumes ok: "binding_ok inn"
  shows "binding_ok (drop_tenant t inn)"
    and "entries (drop_tenant t inn) = filter (\<lambda>e. fst (snd e) \<noteq> t) (entries inn)"
    and "next_seq (drop_tenant t inn) = next_seq inn"
proof -
  let ?sids = "map fst (filter (\<lambda>(_, b). b_tenant b = t) (bindings inn))"
  from fold_remove[OF ok, of ?sids]
  show "binding_ok (drop_tenant t inn)" "next_seq (drop_tenant t inn) = next_seq inn"
    by (simp_all add: drop_tenant_def)
  have d: "distinct (map fst (bindings inn))" using ok by (simp add: binding_ok_def)
  have "fst e \<notin> set ?sids \<longleftrightarrow> fst (snd e) \<noteq> t" if "e \<in> set (entries inn)" for e
  proof -
    from that obtain q s where qs: "(q, s) \<in> set (recency inn)" and e: "e = entry_of inn s" by (auto simp: entries_def)
    from qs ok obtain b where b: "map_of (bindings inn) s = Some b" by (auto simp: binding_ok_def)
    have "s \<in> set ?sids \<longleftrightarrow> (\<exists>b'. (s, b') \<in> set (bindings inn) \<and> b_tenant b' = t)" by force
    also have "\<dots> \<longleftrightarrow> b_tenant b = t" using b d by (auto dest: map_of_SomeD eq_key_imp_eq_value)
    finally show ?thesis by (simp add: e entry_of_def b Let_def)
  qed
  then have "filter (\<lambda>e. fst e \<notin> set ?sids) (entries inn) = filter (\<lambda>e. fst (snd e) \<noteq> t) (entries inn)"
    by (rule filter_cong[OF refl])
  with fold_remove[OF ok, of ?sids] show "entries (drop_tenant t inn) = filter (\<lambda>e. fst (snd e) \<noteq> t) (entries inn)"
    by (simp add: drop_tenant_def)
qed

lemma bind_client_refines:
  assumes "binding_ok inn"
  shows "binding_ok (bind_client sid t c inn)" "entries (bind_client sid t c inn) = entries inn"
    "next_seq (bind_client sid t c inn) = next_seq inn"
proof -
  have "sid \<in> fst ` set (bindings inn)" if "map_of (bindings inn) sid \<noteq> None"
    using that by (simp add: map_of_eq_None_iff)
  with assms show "binding_ok (bind_client sid t c inn)"
    unfolding binding_ok_def bind_client_def by (simp add: dom_update)
qed (simp_all add: bind_client_def entries_def entry_of_def)

section \<open>Runs\<close>

text \<open>The calls the host makes, in any order (the mutex serialises concurrent ones).\<close>

datatype session_op =
    SBind string int int
  | SLookup string int
  | SBindClient string int string
  | SDrop string
  | SDropTenant int

fun session_step :: "(nat list \<Rightarrow> nat list) \<Rightarrow> session_op \<Rightarrow> inner \<Rightarrow> int option \<times> inner" where
  "session_step mac (SBind sid t now) inn = (None, snd (bind_session mac sid t now inn))"
| "session_step mac (SLookup sid now) inn = lookup_session mac sid now inn"
| "session_step mac (SBindClient sid t c) inn = (None, bind_client sid t c inn)"
| "session_step mac (SDrop sid) inn = (None, drop_binding sid inn)"
| "session_step mac (SDropTenant t) inn = (None, drop_tenant t inn)"

fun session_run :: "(nat list \<Rightarrow> nat list) \<Rightarrow> session_op list \<Rightarrow> inner \<Rightarrow> int option list \<times> inner" where
  "session_run mac [] inn = ([], inn)"
| "session_run mac (ope # ops) inn =
     (let (out, inn) = session_step mac ope inn; (outs, inn) = session_run mac ops inn in (out # outs, inn))"

text \<open>The same calls on the specification.\<close>

fun lru_step :: "(nat list \<Rightarrow> nat list) \<Rightarrow> session_op \<Rightarrow> (string \<times> int \<times> int) list
    \<Rightarrow> int option \<times> (string \<times> int \<times> int) list" where
  "lru_step mac (SBind sid t now) es = (None, if is_server_issued mac sid then lru_bind sid t now es else es)"
| "lru_step mac (SLookup sid now) es = (if is_server_issued mac sid then lru_lookup sid now es else (None, es))"
| "lru_step mac (SBindClient sid t c) es = (None, es)"
| "lru_step mac (SDrop sid) es = (None, filter (\<lambda>e. fst e \<noteq> sid) es)"
| "lru_step mac (SDropTenant t) es = (None, filter (\<lambda>e. fst (snd e) \<noteq> t) es)"

fun lru_run :: "(nat list \<Rightarrow> nat list) \<Rightarrow> session_op list \<Rightarrow> (string \<times> int \<times> int) list
    \<Rightarrow> int option list \<times> (string \<times> int \<times> int) list" where
  "lru_run mac [] es = ([], es)"
| "lru_run mac (ope # ops) es =
     (let (out, es) = lru_step mac ope es; (outs, es) = lru_run mac ops es in (out # outs, es))"

lemma step_refines:
  assumes "binding_ok inn" "seq_room 1 inn"
  shows "fst (session_step mac ope inn) = fst (lru_step mac ope (entries inn))
    \<and> binding_ok (snd (session_step mac ope inn))
    \<and> entries (snd (session_step mac ope inn)) = snd (lru_step mac ope (entries inn))
    \<and> next_seq (snd (session_step mac ope inn)) \<le> next_seq inn + 1"
proof (cases ope)
  case (SBind sid t now)
  with assms bind_refines[OF assms, of mac sid t now] show ?thesis
    by (cases "is_server_issued mac sid") (simp_all add: not_issued)
next
  case (SLookup sid now)
  with assms lookup_refines[OF assms, of mac sid now] show ?thesis
    by (cases "is_server_issued mac sid") (simp_all add: not_issued)
next
  case (SBindClient sid t c)
  with bind_client_refines[OF assms(1)] show ?thesis by simp
next
  case (SDrop sid)
  with drop_refines[OF assms(1), of sid] show ?thesis by simp
next
  case (SDropTenant t)
  with drop_tenant_refines[OF assms(1), of t] show ?thesis by simp
qed

lemma run_refines:
  assumes "binding_ok inn" "seq_room (length ops) inn"
  shows "fst (session_run mac ops inn) = fst (lru_run mac ops (entries inn))
    \<and> binding_ok (snd (session_run mac ops inn))
    \<and> entries (snd (session_run mac ops inn)) = snd (lru_run mac ops (entries inn))"
  using assms
proof (induction ops arbitrary: inn)
  case (Cons ope ops)
  have "seq_room 1 inn" using Cons.prems(2) by (simp add: seq_room_def)
  note st = step_refines[OF Cons.prems(1) this, of mac ope]
  obtain out inn' where s: "session_step mac ope inn = (out, inn')" by (cases "session_step mac ope inn")
  have "seq_room (length ops) inn'" using st s Cons.prems(2) by (simp add: seq_room_def)
  with Cons.IH[of inn'] st s show ?case by (auto simp: Let_def split_beta)
qed simp

lemma lru_bound_step:
  "length es \<le> max_bound_sessions \<Longrightarrow> length (snd (lru_step mac ope es)) \<le> max_bound_sessions"
proof (cases ope)
  case (SLookup sid now)
  assume l: "length es \<le> max_bound_sessions"
  have "length (filter (\<lambda>e. fst e \<noteq> sid) es) < length es" if "map_of es sid \<noteq> None"
  proof -
    from that obtain v where "(sid, v) \<in> set es" by (auto dest: map_of_SomeD)
    then show ?thesis by (intro length_filter_less[of "(sid, v)"]) auto
  qed
  with l SLookup show ?thesis
    by (auto simp: lru_lookup_def lru_put_def split: option.splits intro: le_trans[OF length_filter_le])
qed (auto simp: lru_bind_def Let_def intro: le_trans[OF length_filter_le])

lemma lru_bound: "length es \<le> max_bound_sessions \<Longrightarrow> length (snd (lru_run mac ops es)) \<le> max_bound_sessions"
proof (induction ops arbitrary: es)
  case (Cons ope ops)
  from Cons.IH[OF lru_bound_step[OF Cons.prems], of mac ope] show ?case by (simp add: Let_def split_beta)
qed simp

lemma lru_issued_step:
  "\<forall>e \<in> set es. is_server_issued mac (fst e) \<Longrightarrow> \<forall>e \<in> set (snd (lru_step mac ope es)). is_server_issued mac (fst e)"
  by (cases ope) (auto simp: lru_bind_def lru_put_def lru_lookup_def Let_def dest!: in_set_dropD split: option.splits if_splits)

lemma lru_issued:
  "\<forall>e \<in> set es. is_server_issued mac (fst e) \<Longrightarrow> \<forall>e \<in> set (snd (lru_run mac ops es)). is_server_issued mac (fst e)"
proof (induction ops arbitrary: es)
  case (Cons ope ops)
  from Cons.IH[OF lru_issued_step[OF Cons.prems], of ope] show ?case by (simp add: Let_def split_beta)
qed simp

section \<open>Minted identifiers\<close>

lemma as_bytes_ascii: "\<forall>c \<in> set s. scalar c < 128 \<Longrightarrow> as_bytes s = map scalar s"
  by (induction s) (auto simp: as_bytes_def utf8_char_def)

lemma hex_scalar: "is_hex_digit c \<Longrightarrow> scalar c < 128 \<and> is_ascii_hexdigit (scalar c) \<and> c \<noteq> CHR ''.''"
  by (auto simp: is_hex_digit_def is_ascii_hexdigit_def scalar_def)

lemma issue_issued:
  assumes "length nonce = 16" "\<forall>b \<in> set nonce. b < 256" "\<And>m. length (mac m) = 32" "\<And>m. \<forall>b \<in> set (mac m). b < 256"
  shows "is_server_issued mac (issue mac nonce)"
proof -
  let ?n = "to_hex nonce"
  have hn: "\<forall>c \<in> set ?n. is_hex_digit c" using assms(2) to_hex_digits by blast
  have "\<forall>b \<in> set (take tag_bytes (mac (as_bytes ?n))). b < 256" using assms(4) by (auto dest: in_set_takeD)
  then have ht: "\<forall>c \<in> set (session_tag mac ?n). is_hex_digit c"
    unfolding session_tag_def using to_hex_digits by blast
  have so: "split_once c (a @ c # b) = Some (a, b)" if "c \<notin> set a" for a b and c :: char
    using that by (induction a) auto
  have "CHR ''.'' \<notin> set ?n" using hn hex_scalar by blast
  from so[OF this] have sp: "split_once (CHR ''.'') (issue mac nonce) = Some (?n, session_tag mac ?n)"
    by (simp add: issue_def Let_def)
  have bytes: "as_bytes s = map scalar s" if "\<forall>c \<in> set s. is_hex_digit c" for s
    using that hex_scalar by (intro as_bytes_ascii) blast
  have "str_len ?n = 32" "str_len (session_tag mac ?n) = 32"
    using bytes[OF hn] bytes[OF ht] assms(1,3) by (simp_all add: str_len_def session_tag_def tag_bytes_def)
  moreover have "list_all is_ascii_hexdigit (as_bytes ?n)"
    using bytes[OF hn] hn hex_scalar by (auto simp: list_all_iff)
  ultimately show ?thesis
    by (simp add: is_server_issued_def sp nonce_bytes_def tag_bytes_def constant_time_eq_iff)
qed

section \<open>The interface: a bounded store\<close>

text \<open>What a caller of a bounded in-memory map relies on: a store never grows past its bound, and what
  it returns for a key was put there under that key. It may forget, by age or by eviction.\<close>

locale bounded_store =
  fixes ok :: "nat \<Rightarrow> 's \<Rightarrow> bool"
    and size_of :: "'s \<Rightarrow> nat"
    and get :: "'s \<Rightarrow> 'k \<Rightarrow> 'v option"
    and put :: "'k \<Rightarrow> 'v \<Rightarrow> 's \<Rightarrow> 's"
    and cap :: nat
  assumes put_ok: "ok (Suc n) s \<Longrightarrow> ok n (put k v s)"
    and put_bound: "ok (Suc n) s \<Longrightarrow> size_of (put k v s) \<le> cap"
    and put_sound: "ok (Suc n) s \<Longrightarrow> get (put k v s) k' = Some w \<Longrightarrow>
          (k' = k \<and> w = v) \<or> (k' \<noteq> k \<and> get s k' = Some w)"
begin

fun put_all :: "('k \<times> 'v) list \<Rightarrow> 's \<Rightarrow> 's" where
  "put_all [] s = s"
| "put_all ((k, v) # kvs) s = put_all kvs (put k v s)"

lemma put_all_bound: "ok (length kvs) s \<Longrightarrow> size_of s \<le> cap \<Longrightarrow> size_of (put_all kvs s) \<le> cap"
  by (induction kvs s rule: put_all.induct) (auto intro: put_ok put_bound)

text \<open>A value found is the last one put under its key.\<close>

lemma put_all_sound:
  "ok (length kvs) s \<Longrightarrow> get (put_all kvs s) k = Some w \<Longrightarrow>
     map_of (rev kvs) k = Some w \<or> (map_of (rev kvs) k = None \<and> get s k = Some w)"
proof (induction kvs s rule: put_all.induct)
  case (2 k' v kvs s)
  have o: "ok (Suc (length kvs)) s" using 2(2) by simp
  from 2(1)[OF put_ok[OF o]] 2(3) put_sound[OF o, of k' v k w] show ?case
    by (auto simp: map_add_def split: option.splits)
qed simp

end

text \<open>The session bindings are such a store; the index of \<open>ok\<close> is the number of tickets left.\<close>

definition session_get :: "inner \<Rightarrow> string \<Rightarrow> (int \<times> int) option" where
  "session_get inn sid = map_option (\<lambda>b. (b_tenant b, b_last_used b)) (map_of (bindings inn) sid)"

definition session_ok :: "(nat list \<Rightarrow> nat list) \<Rightarrow> nat \<Rightarrow> inner \<Rightarrow> bool" where
  "session_ok mac n inn \<longleftrightarrow>
     binding_ok inn \<and> seq_room n inn \<and> sessions_len inn \<le> max_bound_sessions
     \<and> (\<forall>e \<in> set (entries inn). is_server_issued mac (fst e))"

definition session_put :: "(nat list \<Rightarrow> nat list) \<Rightarrow> string \<Rightarrow> int \<times> int \<Rightarrow> inner \<Rightarrow> inner" where
  "session_put mac sid v inn = snd (bind_session mac sid (fst v) (snd v) inn)"

lemma lru_bind_sound:
  assumes "distinct (map fst es)" "map_of (lru_bind sid t now es) k = Some w"
  shows "(k = sid \<and> w = (t, now)) \<or> (k \<noteq> sid \<and> map_of es k = Some w)"
proof -
  from assms(2) have "(k, w) \<in> set (lru_put sid t now es)"
    by (auto simp: lru_bind_def Let_def dest!: map_of_SomeD in_set_dropD)
  with assms(1) show ?thesis by (auto simp: lru_put_def intro: map_of_is_SomeI)
qed

lemma lru_bind_bound: "length (lru_bind sid t now es) \<le> max_bound_sessions"
  by (simp add: lru_bind_def Let_def)

lemma lru_bind_keys: "e \<in> set (lru_bind sid t now es) \<Longrightarrow> fst e = sid \<or> e \<in> set es"
  by (auto simp: lru_bind_def lru_put_def Let_def dest!: in_set_dropD)

lemma session_put_facts:
  assumes "session_ok mac (Suc n) inn"
  shows "session_ok mac n (session_put mac sid v inn)"
    and "session_get (session_put mac sid v inn) k = Some w \<Longrightarrow>
           (k = sid \<and> w = v) \<or> (k \<noteq> sid \<and> session_get inn k = Some w)"
proof -
  from assms have ok: "binding_ok inn" and room: "seq_room 1 inn" by (auto simp: session_ok_def seq_room_def)
  have get: "binding_ok i \<Longrightarrow> session_get i k = map_of (entries i) k" for i k
    by (simp add: session_get_def map_of_entries)
  have "session_ok mac n (session_put mac sid v inn) \<and>
      (session_get (session_put mac sid v inn) k = Some w \<longrightarrow>
         (k = sid \<and> w = v) \<or> (k \<noteq> sid \<and> session_get inn k = Some w))"
  proof (cases "is_server_issued mac sid")
    case True
    note br = bind_refines[OF ok room True, of "fst v" "snd v"]
    have "session_ok mac n (session_put mac sid v inn)"
      using br assms True lru_bind_bound[of sid "fst v" "snd v" "entries inn"]
        lru_bind_keys[of _ sid "fst v" "snd v" "entries inn"] length_entries[of "session_put mac sid v inn"]
      by (auto simp: session_ok_def session_put_def seq_room_def)
    moreover have "session_get (session_put mac sid v inn) k = map_of (lru_bind sid (fst v) (snd v) (entries inn)) k"
      using br get by (simp add: session_put_def)
    ultimately show ?thesis
      using lru_bind_sound[OF entries_distinct[OF ok], of sid "fst v" "snd v" k w] get[OF ok] by auto
  next
    case False
    have "session_get inn k = Some w \<Longrightarrow> k \<noteq> sid"
      using False assms get[OF ok] by (auto simp: session_ok_def dest!: map_of_SomeD)
    with False assms show ?thesis by (auto simp: session_put_def not_issued session_ok_def seq_room_def)
  qed
  then show "session_ok mac n (session_put mac sid v inn)"
    and "session_get (session_put mac sid v inn) k = Some w \<Longrightarrow>
           (k = sid \<and> w = v) \<or> (k \<noteq> sid \<and> session_get inn k = Some w)" by blast+
qed

interpretation sess: bounded_store "session_ok mac" sessions_len session_get "session_put mac" max_bound_sessions
  for mac
proof unfold_locales
  fix n s k v
  assume o: "session_ok mac (Suc n) s"
  from session_put_facts(1)[OF o, of k v]
  show "session_ok mac n (session_put mac k v s)" "sessions_len (session_put mac k v s) \<le> max_bound_sessions"
    by (simp_all add: session_ok_def)
qed (rule session_put_facts(2))

section \<open>Recent peers\<close>

definition peer_ttl_secs :: int where "peer_ttl_secs = 600"
definition max_peers :: nat where "max_peers = 10000"

definition peer_key :: "(string \<Rightarrow> string) \<Rightarrow> string \<Rightarrow> string option \<Rightarrow> string" where
  "peer_key hash_key ip user_agent =
     hash_key (ip @ [CHR 0x00] @ (case user_agent of Some ua \<Rightarrow> ua | None \<Rightarrow> []))"

record peer_record =
  pr_namespace :: string
  pr_session_id :: "string option"
  pr_at_unix :: int

type_synonym peer_map = "(string \<times> peer_record) list"

text \<open>\<open>min_by_key\<close>: the first entry with the least time, in iteration order.\<close>

fun oldest_peer :: "peer_map \<Rightarrow> string option" where
  "oldest_peer [] = None"
| "oldest_peer ((k, r) # m) =
     Some (fst (fold (\<lambda>(k', r') (k, r). if pr_at_unix r' < pr_at_unix r then (k', r') else (k, r)) m (k, r)))"

lemma fold_min_mem:
  "fold (\<lambda>(k', r') (k, r). if pr_at_unix r' < pr_at_unix r then (k', r') else (k, r)) m (k0, r0) \<in> set ((k0, r0) # m)"
  by (induction m arbitrary: k0 r0) (auto split: if_splits, fastforce+)

lemma oldest_peer_mem: "oldest_peer m = Some k \<Longrightarrow> k \<in> fst ` set m"
proof (cases m)
  case (Cons p m')
  assume "oldest_peer m = Some k"
  with Cons fold_min_mem[of m' "fst p" "snd p"] show ?thesis by (cases p) (auto intro: rev_image_eqI)
qed simp

function shrink_peers :: "peer_map \<Rightarrow> peer_map" where
  "shrink_peers m =
     (if length m > max_peers then
        (case oldest_peer m of None \<Rightarrow> m | Some k \<Rightarrow> shrink_peers (AList.delete k m))
      else m)"
  by auto
termination
  by (relation "measure length") (auto dest!: oldest_peer_mem intro: length_delete_less)

declare shrink_peers.simps [simp del]

definition record_at :: "string \<Rightarrow> string \<Rightarrow> string option \<Rightarrow> int \<Rightarrow> peer_map \<Rightarrow> peer_map" where
  "record_at peer namespace session_id at_unix m =
     (let m = AList.update peer \<lparr>pr_namespace = namespace, pr_session_id = session_id, pr_at_unix = at_unix\<rparr> m;
          m = (if length m > max_peers
               then filter (\<lambda>(_, r). wrap_i64 (at_unix - pr_at_unix r) < peer_ttl_secs) m else m)
      in shrink_peers m)"

definition peer_lookup :: "string \<Rightarrow> int \<Rightarrow> peer_map \<Rightarrow> (string \<times> string option) option \<times> peer_map" where
  "peer_lookup peer now m =
     (case map_of m peer of
        None \<Rightarrow> (None, m)
      | Some r \<Rightarrow>
          if wrap_i64 (now - pr_at_unix r) \<ge> peer_ttl_secs then (None, AList.delete peer m)
          else (Some (pr_namespace r, pr_session_id r), m))"

definition peer_forget :: "string \<Rightarrow> peer_map \<Rightarrow> peer_map" where
  "peer_forget peer m = AList.delete peer m"

definition peers_ok :: "peer_map \<Rightarrow> bool" where
  "peers_ok m \<longleftrightarrow> distinct (map fst m)"

definition record_peer :: "string \<Rightarrow> peer_record \<Rightarrow> peer_map \<Rightarrow> peer_map" where
  "record_peer k r m = record_at k (pr_namespace r) (pr_session_id r) (pr_at_unix r) m"

lemma shrink_bound: "length (shrink_peers m) \<le> max_peers"
proof (induction m rule: shrink_peers.induct)
  case (1 m)
  show ?case
  proof (cases "length m > max_peers")
    case True
    then have "m \<noteq> []" by auto
    then obtain k where "oldest_peer m = Some k" by (cases m) auto
    with 1[OF True this] True show ?thesis by (simp add: shrink_peers.simps[of m])
  qed (simp add: shrink_peers.simps[of m])
qed

lemma shrink_sound:
  "distinct (map fst m) \<Longrightarrow> distinct (map fst (shrink_peers m)) \<and>
     (map_of (shrink_peers m) k = Some r \<longrightarrow> map_of m k = Some r)"
proof (induction m rule: shrink_peers.induct)
  case (1 m)
  show ?case
  proof (cases "length m > max_peers \<and> oldest_peer m \<noteq> None")
    case True
    then obtain x where x: "length m > max_peers" "oldest_peer m = Some x" by auto
    from 1(1)[OF x] 1(2) have "distinct (map fst (shrink_peers (AList.delete x m))) \<and>
        (map_of (shrink_peers (AList.delete x m)) k = Some r \<longrightarrow> map_of (AList.delete x m) k = Some r)"
      by (simp add: distinct_delete)
    moreover have "map_of (AList.delete x m) k = Some r \<Longrightarrow> map_of m k = Some r"
      by (auto simp: delete_conv' split: if_splits)
    ultimately show ?thesis using x by (simp add: shrink_peers.simps[of m])
  next
    case False
    then have "shrink_peers m = m" by (auto simp: shrink_peers.simps[of m] split: option.splits)
    with 1(2) show ?thesis by simp
  qed
qed

lemma record_peer_sound:
  assumes ok: "peers_ok m" and g: "map_of (record_peer k r m) k' = Some w"
  shows "(k' = k \<and> w = r) \<or> (k' \<noteq> k \<and> map_of m k' = Some w)"
proof -
  let ?u = "AList.update k r m"
  have r: "\<lparr>pr_namespace = pr_namespace r, pr_session_id = pr_session_id r, pr_at_unix = pr_at_unix r\<rparr> = r"
    by (cases r) simp
  have d: "distinct (map fst ?u)" using ok by (simp add: peers_ok_def distinct_update)
  let ?f = "filter (\<lambda>(_, x). wrap_i64 (pr_at_unix r - pr_at_unix x) < peer_ttl_secs) ?u"
  have f: "map_of ?f k' = Some w \<Longrightarrow> map_of ?u k' = Some w" for w
    by (subst (asm) map_of_filter_distinct[OF d]) (auto split: option.splits if_splits)
  have D: "distinct (map fst (if length ?u > max_peers then ?f else ?u))"
    using d distinct_filter_keys[OF d] by presburger
  from g have "map_of (shrink_peers (if length ?u > max_peers then ?f else ?u)) k' = Some w"
    by (simp add: record_peer_def record_at_def Let_def r)
  then have "map_of (if length ?u > max_peers then ?f else ?u) k' = Some w"
    using shrink_sound[OF D] by blast
  with f have "map_of ?u k' = Some w" by presburger
  then show ?thesis by (auto simp: update_conv' split: if_splits)
qed

lemma record_peer_ok:
  assumes "peers_ok m" shows "peers_ok (record_peer k r m)"
proof -
  let ?u = "AList.update k \<lparr>pr_namespace = pr_namespace r, pr_session_id = pr_session_id r, pr_at_unix = pr_at_unix r\<rparr> m"
  let ?f = "filter (\<lambda>(_, x). wrap_i64 (pr_at_unix r - pr_at_unix x) < peer_ttl_secs) ?u"
  have d: "distinct (map fst ?u)" using assms by (simp add: peers_ok_def distinct_update)
  have "distinct (map fst (if length ?u > max_peers then ?f else ?u))"
    using d distinct_filter_keys[OF d] by presburger
  then show ?thesis
    unfolding record_peer_def record_at_def Let_def peers_ok_def using shrink_sound by blast
qed

text \<open>The recent peers are such a store, at any index: they keep no tickets.\<close>

interpretation peers: bounded_store "\<lambda>n. peers_ok" length map_of record_peer max_peers
proof unfold_locales
  show "length (record_peer k v s) \<le> max_peers" for k v s
    by (simp add: record_peer_def record_at_def Let_def shrink_bound)
qed (erule record_peer_ok, rule record_peer_sound)

text \<open>A sequence of redeems, the oldest first.\<close>

definition record_peers :: "(string \<times> peer_record) list \<Rightarrow> peer_map" where
  "record_peers kvs = fold (\<lambda>(k, r). record_peer k r) kvs []"

lemma record_peers_put_all: "peers.put_all kvs m = fold (\<lambda>(k, r). record_peer k r) kvs m"
  by (induction kvs m rule: peers.put_all.induct) auto

section \<open>Properties\<close>

text \<open>C7. The session map is a bounded least-recently-used cache with a 24-hour idle expiry: for every
  sequence of the host's calls, the answers of the lookups and the entries it keeps are those of the
  list specification, which drops exactly the entries unused for longest (for fewer than 2 to the 64
  calls, the range of the ticket counter).\<close>

theorem session_bindings_refine_lru:
  "length ops \<le> u64_max \<Longrightarrow>
     fst (session_run mac ops inner_default) = fst (lru_run mac ops [])
     \<and> entries (snd (session_run mac ops inner_default)) = snd (lru_run mac ops [])"
  using run_refines[of inner_default ops mac]
  by (simp add: seq_room_def) (simp add: inner_default_def entries_def)

theorem session_bindings_refine_lru_witness:
  "fst (session_run (\<lambda>_. []) [SBind ''x'' 1 2, SLookup ''x'' 3] inner_default) = [None, None]"
  using session_bindings_refine_lru[of "[SBind ''x'' 1 2, SLookup ''x'' 3]" "\<lambda>_. []"]
  by (simp add: u64_max_def is_server_issued_def)

text \<open>Whatever is called, the host keeps at most 10,000 sessions, every one of them an identifier this
  process minted, and the two maps of the code stay consistent (one ticket per session, tickets in
  order, clients only of bound sessions).\<close>

theorem session_bindings_invariant:
  "length ops \<le> u64_max \<Longrightarrow>
     binding_ok (snd (session_run mac ops inner_default))
     \<and> sessions_len (snd (session_run mac ops inner_default)) \<le> 10000
     \<and> (\<forall>e \<in> set (entries (snd (session_run mac ops inner_default))). is_server_issued mac (fst e))"
proof -
  assume l: "length ops \<le> u64_max"
  have "seq_room (length ops) inner_default" using l by (simp add: seq_room_def inner_default_def)
  note r = run_refines[OF binding_ok_default this, of mac]
  have e: "entries inner_default = []" by (simp add: inner_default_def entries_def)
  show ?thesis
    using r lru_bound[of "[]" mac ops] lru_issued[of "[]" mac ops]
      length_entries[of "snd (session_run mac ops inner_default)"]
    by (auto simp: e max_bound_sessions_def)
qed

theorem session_bindings_invariant_witness:
  "sessions_len (snd (session_run (\<lambda>_. []) [SBind ''x'' 1 2, SLookup ''x'' 3] inner_default)) \<le> 10000"
  using session_bindings_invariant[of "[SBind ''x'' 1 2, SLookup ''x'' 3]" "\<lambda>_. []"] by (simp add: u64_max_def)

text \<open>Every identifier the host mints is recognised as its own, for any 32-byte MAC and any 16-byte
  nonce.\<close>

theorem minted_id_is_recognised:
  "length nonce = 16 \<Longrightarrow> \<forall>b \<in> set nonce. b < 256 \<Longrightarrow> (\<And>m. length (mac m) = 32) \<Longrightarrow>
     (\<And>m. \<forall>b \<in> set (mac m). b < 256) \<Longrightarrow> is_server_issued mac (issue mac nonce)"
  by (rule issue_issued)

theorem minted_id_is_recognised_witness:
  "is_server_issued (\<lambda>m. replicate 32 (length m mod 256)) (issue (\<lambda>m. replicate 32 (length m mod 256)) (replicate 16 7))"
  by (rule minted_id_is_recognised) auto

text \<open>A recently seen peer is answered only with what it last recorded, and the map never holds more
  than 10,000 peers, for any sequence of records.\<close>

theorem peer_map_sound:
  "length (record_peers kvs) \<le> 10000
     \<and> (map_of (record_peers kvs) k = Some r \<longrightarrow> map_of (rev kvs) k = Some r)"
proof -
  have ok: "peers_ok []" by (simp add: peers_ok_def)
  have "record_peers kvs = peers.put_all kvs []" by (simp add: record_peers_def record_peers_put_all)
  with peers.put_all_bound[OF ok, of kvs] peers.put_all_sound[OF ok, of kvs k r] show ?thesis
    by (auto simp: max_peers_def)
qed

theorem peer_map_sound_witness:
  "length (record_peers [(''p'', \<lparr>pr_namespace = ''n'', pr_session_id = None, pr_at_unix = 5\<rparr>)]) \<le> 10000"
  using peer_map_sound[of "[(''p'', \<lparr>pr_namespace = ''n'', pr_session_id = None, pr_at_unix = 5\<rparr>)]" "''p''"] by blast

end
