(* ===== verification/Idempotency.thy ===== *)
theory Idempotency
  imports Errors
begin

text \<open>
  \<open>src/idempotency.rs\<close>, and the claim and answer of \<open>src/handler.rs\<close> (\<open>call_tool\<close>): a
  \<open>tools/call\<close> that carries an idempotency key runs its tool once, and a repeat is answered from the
  table \<open>call_results\<close>. \<open>call_row\<close> is a row of that table and a list of rows is the table;
  \<open>idem_claim\<close>, \<open>idem_finish\<close>, \<open>idem_purge_expired\<close> and \<open>guard_release\<close> are the statements that
  change it.

  JSON text. The outcome columns hold the text \<open>serde_json\<close> prints. The printer \<open>ser\<close> and the
  parser \<open>de\<close> are that crate's, so they are arguments of the definitions and the type of the text is
  a type variable; where a property reads a column back it assumes that the parser inverts the
  printer. SHA-256 and the decimal and quoting rules of the printer are arguments in the same way.
\<close>

section \<open>The key\<close>

definition META_KEY :: string where "META_KEY = ''idempotency_key''"
definition ARG_KEY :: string where "ARG_KEY = ''__idempotency_key''"
definition TIMEOUT_HINT :: string where
  "TIMEOUT_HINT = ''retry with the same _meta.idempotency_key to get the stored result''"
definition CONFLICT_CODE :: string where "CONFLICT_CODE = ''idempotency_conflict''"
definition CONFLICT_HINT :: string where "CONFLICT_HINT = ''use a new key for a different request''"
definition TOOL_TIMEOUT :: string where "TOOL_TIMEOUT = ''tool_timeout''"
definition ttl_secs :: int where "ttl_secs = 24 * 60 * 60"
definition wait_max_secs :: int where "wait_max_secs = 30"
definition max_key_len :: nat where "max_key_len = 128"

definition conflict_error :: "string \<Rightarrow> string \<Rightarrow> string \<Rightarrow> app_error" where
  "conflict_error key stored given =
     Structured CONFLICT_CODE ''this idempotency key was already used with different arguments''
       (mk_obj [(''key'', JStr key), (''stored_args_sha256'', JStr stored),
                (''given_args_sha256'', JStr given), (''hint'', JStr CONFLICT_HINT)])"

definition key_char :: "char \<Rightarrow> bool" where
  "key_char c \<longleftrightarrow> is_ascii_alphanumeric c \<or> c = CHR ''_'' \<or> c = CHR ''.'' \<or> c = CHR '':'' \<or> c = CHR ''-''"

definition key_valid :: "string \<Rightarrow> bool" where
  "key_valid key \<longleftrightarrow> key \<noteq> [] \<and> str_len key \<le> max_key_len \<and> list_all key_char key"

text \<open>\<open>extract_key\<close> takes \<open>args\<close> by mutable reference: the arguments it leaves are part of its result
  on every path.\<close>

definition extract_key :: "(string \<times> json) list option \<Rightarrow> json \<Rightarrow> json \<times> (app_error + string option)" where
  "extract_key meta args =
     (let (args', from_args) =
        (case args of JObj m \<Rightarrow> (JObj (AList.delete ARG_KEY m), map_of m ARG_KEY) | _ \<Rightarrow> (args, None));
          raw = (case Option.bind meta (\<lambda>m. map_of m META_KEY) of None \<Rightarrow> from_args | Some v \<Rightarrow> Some v)
      in (args',
          case raw of
            None \<Rightarrow> Inr None
          | Some v \<Rightarrow>
              (let key = (case as_str v of None \<Rightarrow> [] | Some s \<Rightarrow> s) in
               if key_valid key then Inr (Some key)
               else Inl (Structured ''invalid_params''
                 (''idempotency_key must be 1..='' @ show_nat max_key_len @ '' characters from [A-Za-z0-9_.:-]'')
                 (mk_obj [(''argument'', JStr ''idempotency_key'')])))))"

text \<open>\<open>canonical\<close>: the text that is hashed. \<open>Value::to_string\<close> prints the leaves and the quoted keys.\<close>

fun canonical :: "(json \<Rightarrow> string) \<Rightarrow> json \<Rightarrow> string" where
  "canonical ser (JObj m) =
     ''{'' @ join '','' (map (\<lambda>k. ser (JStr k) @ '':'' @
       (case map_of (map (\<lambda>(k', v). (k', canonical ser v)) m) k of Some t \<Rightarrow> t | None \<Rightarrow> [])) (sort (map fst m))) @ ''}''"
| "canonical ser (JArr items) = ''['' @ join '','' (map (canonical ser) items) @ '']''"
| "canonical ser other = ser other"

definition hex_byte :: "nat \<Rightarrow> string" where
  "hex_byte b = map (\<lambda>n. if n < 10 then digit_char n else char_of (87 + n)) [b div 16, b mod 16]"

definition args_sha256 :: "(json \<Rightarrow> string) \<Rightarrow> (nat list \<Rightarrow> nat list) \<Rightarrow> json \<Rightarrow> string" where
  "args_sha256 ser sha256 args = concat (map hex_byte (sha256 (as_bytes (canonical ser args))))"

definition annotate_timeout :: "string option \<Rightarrow> app_error \<Rightarrow> app_error" where
  "annotate_timeout key err =
     (case err of
        Structured c m d \<Rightarrow>
          (if c = TOOL_TIMEOUT then
             (let obj = (case d of JObj kvs \<Rightarrow> kvs | JNull \<Rightarrow> [] | other \<Rightarrow> [(''detail'', other)]);
                  obj = obj_insert ''hint'' (JStr TIMEOUT_HINT) obj;
                  obj = obj_insert ''idempotency_key'' (opt_json JStr key) obj
              in Structured TOOL_TIMEOUT m (JObj obj))
           else err)
      | _ \<Rightarrow> err)"

section \<open>The stored outcome\<close>

record stored =
  st_outcome :: "app_error + json"
  st_first_seen_unix :: int
  st_usage :: "json option"

definition ENVELOPE_KEY :: string where "ENVELOPE_KEY = ''__idem_v''"

definition wrap_result :: "(json \<Rightarrow> 't) \<Rightarrow> json \<Rightarrow> json option \<Rightarrow> 't" where
  "wrap_result ser v usage =
     (case usage of
        Some u \<Rightarrow> ser (mk_obj [(ENVELOPE_KEY, JInt 1), (''value'', v), (''usage'', u)])
      | None \<Rightarrow> ser v)"

definition unwrap_result :: "('t \<Rightarrow> json option) \<Rightarrow> 't \<Rightarrow> json \<times> json option" where
  "unwrap_result de raw =
     (let v = (case de raw of Some v \<Rightarrow> v | None \<Rightarrow> JNull) in
      if json_get ENVELOPE_KEY v \<noteq> None then
        ((case json_get ''value'' v of Some x \<Rightarrow> x | None \<Rightarrow> JNull),
         (case json_get ''usage'' v of Some u \<Rightarrow> if u = JNull then None else Some u | None \<Rightarrow> None))
      else (v, None))"

datatype idem_claim_result = Run | Replay stored | Conflict string | Pending

fun storable :: "app_error \<Rightarrow> bool" where
  "storable (Structured c _ _) = (c \<noteq> ''tool_timeout'' \<and> c \<noteq> ''idempotency_conflict'')"
| "storable (InvalidArgs _) = True"
| "storable _ = False"

definition error_to_json :: "app_error \<Rightarrow> json" where
  "error_to_json e =
     (let d = (case e of Structured _ _ d \<Rightarrow> d | _ \<Rightarrow> JNull) in
      mk_obj [(''code'', JStr (code e)), (''message'', JStr (display e)), (''data'', d)])"

text \<open>\<open>contract::all_families\<close>, each family's codes in its order.\<close>

definition family_codes :: "string list list" where
  "family_codes =
     [[''tool_exception'', ''tool_trapped'', ''tool_output_invalid''],
      [''tool_timeout'', ''tool_oom'', ''tool_process_limit'', ''tool_output_too_large''],
      [''upstream_auth'', ''upstream_rate_limited'', ''upstream_client_error'', ''upstream_error'',
       ''upstream_timeout'', ''upstream_unreachable'', ''upstream_not_connected'', ''host_not_allowed''],
      [''compose_self_call'', ''compose_depth_exceeded'', ''compose_children_exceeded'',
       ''compose_item_outside_for_each'', ''compose_mapping_type'', ''compose_mapping_missing'',
       ''compose_fanout_exceeded'', ''compose_fanout_item_failed'', ''compose_input_missing''],
      [''tool_building'', ''tool_not_found'', ''tool_run_unsupported'']]"

definition REPLAY_CODES :: "string list" where
  "REPLAY_CODES =
     [''args_invalid'', ''handoff_token_invalid'', ''handoff_token_redeemed'', ''idempotency_conflict'',
      ''insufficient_scope'', ''internal'', ''invalid_params'', ''invalid_spec'', ''invalid_token'',
      ''invalid_tool_name'', ''issuer_already_registered'', ''issuer_not_found'',
      ''issuer_quota_exceeded'', ''namespace_unverified'', ''quota_trusted_issuers'', ''rate_limited'',
      ''registry_disabled'', ''registry_rejected'', ''secret_missing'', ''share_quota_exceeded'',
      ''spec_too_large'', ''storage'', ''tenant_disabled'', ''tenant_key_invalid'',
      ''tenant_key_missing'', ''tenant_not_found'', ''too_many_tools'', ''tool_not_found'',
      ''unknown_kind'', ''wrong_tenant'']"

definition intern :: "string \<Rightarrow> string" where
  "intern c =
     (case find (\<lambda>x. x = c) (concat family_codes) of
        Some found \<Rightarrow> found
      | None \<Rightarrow> (case find (\<lambda>x. x = c) REPLAY_CODES of Some found \<Rightarrow> found | None \<Rightarrow> ''internal''))"

text \<open>Indexing a value with a missing key reads \<open>null\<close>.\<close>

definition json_index :: "string \<Rightarrow> json \<Rightarrow> json" where
  "json_index k v = (case json_get k v of Some x \<Rightarrow> x | None \<Rightarrow> JNull)"

definition error_from_json :: "json \<Rightarrow> app_error" where
  "error_from_json v =
     (let c = (case as_str (json_index ''code'' v) of Some s \<Rightarrow> s | None \<Rightarrow> ''internal'') in
      Structured (intern c)
        (case as_str (json_index ''message'' v) of Some s \<Rightarrow> s | None \<Rightarrow> [])
        (json_index ''data'' v))"

section \<open>The table\<close>

record 't call_row =
  cr_tenant_id :: int
  cr_tool_name :: string
  cr_key :: string
  cr_args_sha256 :: string
  cr_result_json :: "'t option"
  cr_error_json :: "'t option"
  cr_created_unix :: int
  cr_expires_unix :: int

type_synonym call_id = "int \<times> string \<times> string"

definition call_id :: "'t call_row \<Rightarrow> call_id" where
  "call_id r = (cr_tenant_id r, cr_tool_name r, cr_key r)"

definition stale :: "int \<Rightarrow> 't call_row \<Rightarrow> bool" where
  "stale now r \<longleftrightarrow> cr_expires_unix r \<le> now
     \<or> (cr_result_json r = None \<and> cr_error_json r = None \<and> cr_created_unix r \<le> wrap_i64 (now - wait_max_secs))"

definition classify :: "('t \<Rightarrow> json option) \<Rightarrow> string \<Rightarrow> 't call_row \<Rightarrow> idem_claim_result" where
  "classify de sha r =
     (if cr_args_sha256 r \<noteq> sha then Conflict (cr_args_sha256 r)
      else case (cr_result_json r, cr_error_json r) of
        (Some t, _) \<Rightarrow>
          (let (v, usage) = unwrap_result de t in
           Replay \<lparr>st_outcome = Inr v, st_first_seen_unix = cr_created_unix r, st_usage = usage\<rparr>)
      | (None, Some e) \<Rightarrow>
          Replay \<lparr>st_outcome = Inl (error_from_json (case de e of Some v \<Rightarrow> v | None \<Rightarrow> JNull)),
                  st_first_seen_unix = cr_created_unix r, st_usage = None\<rparr>
      | (None, None) \<Rightarrow> Pending)"

definition idem_claim ::
  "('t \<Rightarrow> json option) \<Rightarrow> int \<Rightarrow> call_id \<Rightarrow> string \<Rightarrow> 't call_row list \<Rightarrow> idem_claim_result \<times> 't call_row list" where
  "idem_claim de now i sha rows =
     (let rows = filter (\<lambda>r. \<not> (call_id r = i \<and> stale now r)) rows in
      case find (\<lambda>r. call_id r = i) rows of
        None \<Rightarrow>
          (Run, rows @ [\<lparr>cr_tenant_id = fst i, cr_tool_name = fst (snd i), cr_key = snd (snd i),
                         cr_args_sha256 = sha, cr_result_json = None, cr_error_json = None,
                         cr_created_unix = now, cr_expires_unix = wrap_i64 (now + ttl_secs)\<rparr>])
      | Some r \<Rightarrow> (classify de sha r, rows))"

definition finish_columns ::
  "(json \<Rightarrow> 't) \<Rightarrow> app_error + json \<Rightarrow> json option \<Rightarrow> 't option \<times> 't option" where
  "finish_columns ser outcome usage =
     (case outcome of
        Inr v \<Rightarrow> (Some (wrap_result ser v usage), None)
      | Inl e \<Rightarrow> if storable e then (None, Some (ser (error_to_json e))) else (None, None))"

definition idem_finish ::
  "(json \<Rightarrow> 't) \<Rightarrow> call_id \<Rightarrow> app_error + json \<Rightarrow> json option \<Rightarrow> 't call_row list \<Rightarrow> 't call_row list" where
  "idem_finish ser i outcome usage rows =
     (let (res, err) = finish_columns ser outcome usage in
      if res = None \<and> err = None then filter (\<lambda>r. call_id r \<noteq> i) rows
      else map (\<lambda>r. if call_id r = i then r\<lparr>cr_result_json := res, cr_error_json := err\<rparr> else r) rows)"

definition idem_purge_expired :: "int \<Rightarrow> 't call_row list \<Rightarrow> nat \<times> 't call_row list" where
  "idem_purge_expired now rows =
     (length (filter (\<lambda>r. cr_expires_unix r \<le> now) rows), filter (\<lambda>r. \<not> cr_expires_unix r \<le> now) rows)"

text \<open>\<open>ClaimGuard\<close>: \<open>finish\<close> stores the outcome; a guard dropped before that releases the claim by
  finishing it with a call timeout, which is never stored.\<close>

definition guard_release :: "(json \<Rightarrow> 't) \<Rightarrow> call_id \<Rightarrow> bool \<Rightarrow> 't call_row list \<Rightarrow> 't call_row list" where
  "guard_release ser i done_flag rows =
     (if done_flag then rows else idem_finish ser i (Inl (CallTimeout 0)) None rows)"

section \<open>The caller\<close>

text \<open>What \<open>call_tool\<close> does with the claim it is left with: \<open>Dispatch b\<close> runs the tool, with a guard
  when \<open>b\<close>, and \<open>Answer\<close> returns without running it. A claim that is still pending when the poll
  loop gives up falls through to the dispatch, with no guard.\<close>

datatype idem_decision = Dispatch bool | Answer "app_error + json" "int option" "json option"

fun decide_claim :: "string \<Rightarrow> string \<Rightarrow> idem_claim_result \<Rightarrow> idem_decision" where
  "decide_claim key sha Run = Dispatch True"
| "decide_claim key sha (Replay s) = Answer (st_outcome s) (Some (st_first_seen_unix s)) (st_usage s)"
| "decide_claim key sha (Conflict stored_sha) = Answer (Inl (conflict_error key stored_sha sha)) None None"
| "decide_claim key sha Pending = Dispatch False"

text \<open>The poll loop: each turn is a claim at the time it is made and the whole seconds waited so far;
  the loop goes on while the claim is pending and less than 31 seconds have passed.\<close>

fun poll_claim ::
  "('t \<Rightarrow> json option) \<Rightarrow> call_id \<Rightarrow> string \<Rightarrow> (int \<times> int \<times> ('t call_row list \<Rightarrow> 't call_row list)) list
     \<Rightarrow> 't call_row list \<Rightarrow> (idem_claim_result \<times> 't call_row list) option" where
  "poll_claim de i sha [] rows = None"
| "poll_claim de i sha ((now, waited, others) # turns) rows =
     (let (c, rows') = idem_claim de now i sha rows in
      if c = Pending \<and> waited < wait_max_secs + 1 then poll_claim de i sha turns (others rows')
      else Some (c, rows'))"

section \<open>Sequences of calls\<close>

text \<open>One change of the table, with the clock it reads.\<close>

datatype idem_event =
    EClaim int call_id string
  | EFinish call_id "app_error + json" "json option"
  | EPurge int

fun idem_step :: "(json \<Rightarrow> 't) \<Rightarrow> ('t \<Rightarrow> json option) \<Rightarrow> idem_event \<Rightarrow> 't call_row list \<Rightarrow> 't call_row list" where
  "idem_step ser de (EClaim now i sha) rows = snd (idem_claim de now i sha rows)"
| "idem_step ser de (EFinish i outcome usage) rows = idem_finish ser i outcome usage rows"
| "idem_step ser de (EPurge now) rows = snd (idem_purge_expired now rows)"

definition idem_run :: "(json \<Rightarrow> 't) \<Rightarrow> ('t \<Rightarrow> json option) \<Rightarrow> idem_event list \<Rightarrow> 't call_row list \<Rightarrow> 't call_row list" where
  "idem_run ser de evs rows = fold (idem_step ser de) evs rows"

text \<open>The events that fall in a span of time and do not finish the call \<open>i\<close>.\<close>

fun quiet :: "call_id \<Rightarrow> int \<Rightarrow> int \<Rightarrow> idem_event \<Rightarrow> bool" where
  "quiet i lo hi (EClaim now _ _) = (lo \<le> now \<and> now < hi)"
| "quiet i lo hi (EFinish j _ _) = (j \<noteq> i)"
| "quiet i lo hi (EPurge now) = (lo \<le> now \<and> now < hi)"

definition call_row_of :: "call_id \<Rightarrow> 't call_row list \<Rightarrow> 't call_row option" where
  "call_row_of i rows = find (\<lambda>r. call_id r = i) rows"

definition kept_during :: "int \<Rightarrow> int \<Rightarrow> 't call_row \<Rightarrow> bool" where
  "kept_during lo hi r \<longleftrightarrow> (\<forall>now. lo \<le> now \<and> now < hi \<longrightarrow> \<not> stale now r)"

lemma find_filter_kept: "find P xs = Some x \<Longrightarrow> Q x \<Longrightarrow> find P (filter Q xs) = Some x"
  by (induction xs) (auto split: if_splits)

lemma call_row_of_filter [intro]: "call_row_of i rows = Some r \<Longrightarrow> Q r \<Longrightarrow> call_row_of i (filter Q rows) = Some r"
  by (simp add: call_row_of_def find_filter_kept)

lemma call_row_of_append [simp]:
  "call_row_of i (rows @ [r]) =
     (case call_row_of i rows of Some r' \<Rightarrow> Some r' | None \<Rightarrow> if call_id r = i then Some r else None)"
  by (induction rows) (auto simp: call_row_of_def)

lemma call_row_of_map:
  "(\<And>r. call_id (f r) = call_id r) \<Longrightarrow> call_row_of i (map f rows) = map_option f (call_row_of i rows)"
  by (induction rows) (auto simp: call_row_of_def)

lemma call_row_of_id: "call_row_of i rows = Some r \<Longrightarrow> call_id r = i"
  by (auto simp: call_row_of_def dest: find_hit)

lemma idem_claim_live:
  assumes "call_row_of i rows = Some r" "\<not> stale now r"
  shows "fst (idem_claim de now i sha rows) = classify de sha r"
  using call_row_of_filter[OF assms(1), of "\<lambda>r. \<not> (call_id r = i \<and> stale now r)"] assms(2)
  by (simp add: idem_claim_def call_row_of_def)

lemma claim_keeps:
  assumes "call_row_of i rows = Some r" "\<not> stale now r"
  shows "call_row_of i (snd (idem_claim de now j sha rows)) = Some r"
proof -
  have "call_row_of i (filter (\<lambda>r. \<not> (call_id r = j \<and> stale now r)) rows) = Some r"
    using assms by auto
  then show ?thesis by (auto simp: idem_claim_def Let_def split: option.splits)
qed

lemma finish_keeps:
  assumes "call_row_of i rows = Some r" "j \<noteq> i"
  shows "call_row_of i (idem_finish ser j outcome usage rows) = Some r"
proof -
  have "call_id (if call_id r = j then r\<lparr>cr_result_json := a, cr_error_json := b\<rparr> else r) = call_id r" for r :: "'a call_row" and a b
    by (simp add: call_id_def)
  with assms show ?thesis
    by (auto simp: idem_finish_def call_row_of_map dest: call_row_of_id split: prod.splits)
qed

lemma finish_fills:
  assumes "call_row_of i rows = Some r" "finish_columns ser outcome usage = (res, err)" "res \<noteq> None \<or> err \<noteq> None"
  shows "call_row_of i (idem_finish ser i outcome usage rows) = Some (r\<lparr>cr_result_json := res, cr_error_json := err\<rparr>)"
proof -
  have "call_id (if call_id r = i then r\<lparr>cr_result_json := a, cr_error_json := b\<rparr> else r) = call_id r" for r :: "'a call_row" and a b
    by (simp add: call_id_def)
  with assms show ?thesis
    by (auto simp: idem_finish_def call_row_of_map dest: call_row_of_id)
qed

lemma quiet_keeps:
  assumes "call_row_of i rows = Some r" "kept_during lo hi r" "list_all (quiet i lo hi) evs"
  shows "call_row_of i (idem_run ser de evs rows) = Some r"
  using assms(1,3)
proof (induction evs arbitrary: rows)
  case (Cons ev evs)
  have "call_row_of i (idem_step ser de ev rows) = Some r"
    using Cons.prems assms(2)
    by (cases ev) (auto simp: kept_during_def idem_purge_expired_def stale_def intro!: claim_keeps finish_keeps)
  with Cons show ?case by (simp add: idem_run_def)
qed (simp add: idem_run_def)

text \<open>The row a successful claim leaves.\<close>

definition claimed_row :: "int \<Rightarrow> call_id \<Rightarrow> string \<Rightarrow> 't call_row" where
  "claimed_row now i sha =
     \<lparr>cr_tenant_id = fst i, cr_tool_name = fst (snd i), cr_key = snd (snd i), cr_args_sha256 = sha,
      cr_result_json = None, cr_error_json = None, cr_created_unix = now,
      cr_expires_unix = wrap_i64 (now + ttl_secs)\<rparr>"

lemma claim_run_row:
  assumes "idem_claim de now i sha rows = (Run, rows')"
  shows "call_row_of i rows' = Some (claimed_row now i sha)"
proof -
  let ?live = "filter (\<lambda>r. \<not> (call_id r = i \<and> stale now r)) rows"
  have "classify de sha r \<noteq> Run" for r
    by (auto simp: classify_def split: option.splits prod.splits)
  with assms have "call_row_of i ?live = None" "rows' = ?live @ [claimed_row now i sha]"
    by (auto simp: idem_claim_def Let_def call_row_of_def claimed_row_def split: option.splits)
  then show ?thesis by (simp add: claimed_row_def call_id_def)
qed

lemma claim_clock: "in_i64 (now - wait_max_secs) \<Longrightarrow> in_i64 (now + ttl_secs) \<Longrightarrow> now \<le> t \<Longrightarrow> t < now + ttl_secs \<Longrightarrow>
   wrap_i64 (now + ttl_secs) = now + ttl_secs \<and> wrap_i64 (t - wait_max_secs) = t - wait_max_secs"
  by (simp add: wrap_i64_id i64_bound_defs wait_max_secs_def ttl_secs_def)

lemma pending_kept:
  assumes "in_i64 (now - wait_max_secs)" "in_i64 (now + ttl_secs)"
  shows "kept_during now (now + wait_max_secs) (claimed_row now i sha)"
  unfolding kept_during_def
proof (intro allI impI)
  fix t assume "now \<le> t \<and> t < now + wait_max_secs"
  with claim_clock[OF assms, of t] show "\<not> stale t (claimed_row now i sha)"
    by (simp add: stale_def claimed_row_def ttl_secs_def wait_max_secs_def)
qed

lemma finished_kept:
  assumes "in_i64 (now - wait_max_secs)" "in_i64 (now + ttl_secs)" "res \<noteq> None \<or> err \<noteq> None"
  shows "kept_during now (now + ttl_secs) ((claimed_row now i sha)\<lparr>cr_result_json := res, cr_error_json := err\<rparr>)"
  unfolding kept_during_def
proof (intro allI impI)
  fix t assume "now \<le> t \<and> t < now + ttl_secs"
  with claim_clock[OF assms(1,2), of t] assms(3)
  show "\<not> stale t ((claimed_row now i sha)\<lparr>cr_result_json := res, cr_error_json := err\<rparr>)"
    by (auto simp: stale_def claimed_row_def)
qed

section \<open>What a replay returns\<close>

definition replayed_error :: "app_error \<Rightarrow> app_error" where
  "replayed_error e =
     Structured (intern (code e)) (display e) (case e of Structured _ _ d \<Rightarrow> d | _ \<Rightarrow> JNull)"

definition replay_of :: "int \<Rightarrow> app_error + json \<Rightarrow> json option \<Rightarrow> idem_claim_result" where
  "replay_of first outcome usage =
     Replay \<lparr>st_outcome = (case outcome of Inr v \<Rightarrow> Inr v | Inl e \<Rightarrow> Inl (replayed_error e)),
             st_first_seen_unix = first,
             st_usage = (case outcome of Inr _ \<Rightarrow> usage | Inl _ \<Rightarrow> None)\<rparr>"

text \<open>An outcome that is kept, and whose value is not taken for the envelope.\<close>

fun replayable :: "app_error + json \<Rightarrow> json option \<Rightarrow> bool" where
  "replayable (Inl e) usage = storable e"
| "replayable (Inr v) usage = (case usage of Some u \<Rightarrow> u \<noteq> JNull | None \<Rightarrow> json_get ENVELOPE_KEY v = None)"

lemma error_from_to_json: "error_from_json (error_to_json e) = replayed_error e"
  by (simp add: error_from_json_def error_to_json_def replayed_error_def json_index_def Let_def)

lemma envelope_members:
  "json_get ENVELOPE_KEY (mk_obj [(ENVELOPE_KEY, a), (''value'', v), (''usage'', u)]) = Some a"
  "json_get ''value'' (mk_obj [(ENVELOPE_KEY, a), (''value'', v), (''usage'', u)]) = Some v"
  "json_get ''usage'' (mk_obj [(ENVELOPE_KEY, a), (''value'', v), (''usage'', u)]) = Some u"
  by (simp_all add: ENVELOPE_KEY_def)

lemma unwrap_wrap:
  assumes "\<forall>v. de (ser v) = Some v" "replayable (Inr v) usage"
  shows "unwrap_result de (wrap_result ser v usage) = (v, usage)"
  using assms by (cases usage) (simp_all add: unwrap_result_def wrap_result_def envelope_members)

lemma classify_finished:
  assumes "\<forall>v. de (ser v) = Some v" "replayable outcome usage"
    "finish_columns ser outcome usage = (res, err)"
  shows "classify de sha' ((claimed_row now i sha)\<lparr>cr_result_json := res, cr_error_json := err\<rparr>) =
    (if sha' = sha then replay_of now outcome usage else Conflict sha)"
  using assms unwrap_wrap[of de ser]
  by (cases outcome)
    (auto simp: classify_def claimed_row_def finish_columns_def replay_of_def error_from_to_json)

lemma finish_columns_kept:
  "replayable outcome usage \<Longrightarrow> finish_columns ser outcome usage = (res, err) \<Longrightarrow> res \<noteq> None \<or> err \<noteq> None"
  by (cases outcome) (auto simp: finish_columns_def)

lemma intern_code: "intern c = (if c \<in> set (concat family_codes @ REPLAY_CODES) then c else ''internal'')"
proof -
  have hit: "find (\<lambda>x. x = c) xs = (if c \<in> set xs then Some c else None)" for xs
    by (induction xs) auto
  show ?thesis by (simp add: intern_def hit)
qed

lemma claim_after_finish:
  assumes "\<forall>v. de (ser v) = Some v"
    and "idem_claim de now i sha rows = (Run, rows1)"
    and "in_i64 (now - wait_max_secs)" "in_i64 (now + ttl_secs)"
    and "list_all (quiet i now (now + wait_max_secs)) before" "replayable outcome usage"
    and "list_all (quiet i now (now + ttl_secs)) after" "now \<le> t" "t < now + ttl_secs"
  shows "fst (idem_claim de t i sha' (idem_run ser de after
            (idem_finish ser i outcome usage (idem_run ser de before rows1)))) =
         (if sha' = sha then replay_of now outcome usage else Conflict sha)"
proof -
  obtain res err where cols: "finish_columns ser outcome usage = (res, err)" by fastforce
  note filled = finish_columns_kept[OF assms(6) cols]
  let ?r = "(claimed_row now i sha)\<lparr>cr_result_json := res, cr_error_json := err\<rparr>"
  have "call_row_of i (idem_run ser de before rows1) = Some (claimed_row now i sha)"
    using quiet_keeps[OF claim_run_row[OF assms(2)] pending_kept[OF assms(3,4)] assms(5)] .
  from finish_fills[OF this cols filled]
  have "call_row_of i (idem_run ser de after (idem_finish ser i outcome usage (idem_run ser de before rows1))) = Some ?r"
    using quiet_keeps[OF _ finished_kept[OF assms(3,4) filled] assms(7)] by blast
  moreover have "\<not> stale t ?r"
    using finished_kept[OF assms(3,4) filled] assms(8,9) by (simp add: kept_during_def)
  ultimately show ?thesis
    using classify_finished[OF assms(1,6) cols] by (simp add: idem_claim_live)
qed

section \<open>Properties\<close>

text \<open>C5. While a keyed call runs, nobody else runs it: from the claim that got \<open>Run\<close> to thirty
  seconds later, whatever other claims, finishes of other calls and purges happen, a further claim of
  the same tenant, tool and key is told the call is pending, or, with other arguments, that the key is
  taken (and by which arguments).\<close>

theorem running_call_is_exclusive:
  assumes "idem_claim de now i sha rows = (Run, rows1)"
    and "in_i64 (now - wait_max_secs)" "in_i64 (now + ttl_secs)"
    and "list_all (quiet i now (now + wait_max_secs)) evs"
    and "now \<le> t" "t < now + wait_max_secs"
  shows "fst (idem_claim de t i sha' (idem_run ser de evs rows1)) = (if sha' = sha then Pending else Conflict sha)"
proof -
  note kept = pending_kept[OF assms(2,3)]
  have "call_row_of i (idem_run ser de evs rows1) = Some (claimed_row now i sha)"
    using quiet_keeps[OF claim_run_row[OF assms(1)] kept assms(4)] .
  moreover have "\<not> stale t (claimed_row now i sha)"
    using kept[unfolded kept_during_def] assms(5,6) by blast
  ultimately have "fst (idem_claim de t i sha' (idem_run ser de evs rows1)) = classify de sha' (claimed_row now i sha)"
    by (rule idem_claim_live)
  then show ?thesis by (simp add: classify_def claimed_row_def)
qed

theorem running_call_is_exclusive_witness:
  "fst (idem_claim Some 1020 (1, ''add'', ''k1'') ''aa''
      (idem_run id Some [EClaim 1005 (1, ''add'', ''k2'') ''cc'', EPurge 1010, EFinish (1, ''add'', ''k2'') (Inr JNull) None]
        (snd (idem_claim Some 1000 (1, ''add'', ''k1'') ''aa'' [])))) = Pending"
proof -
  have "idem_claim Some 1000 (1, ''add'', ''k1'') ''aa'' [] = (Run, snd (idem_claim Some 1000 (1, ''add'', ''k1'') ''aa'' []))"
    by (simp add: idem_claim_def)
  from running_call_is_exclusive[OF this, where sha' = "''aa''" and t = 1020 and ser = id
      and evs = "[EClaim 1005 (1, ''add'', ''k2'') ''cc'', EPurge 1010, EFinish (1, ''add'', ''k2'') (Inr JNull) None]"]
  show ?thesis by (simp add: i64_bound_defs wait_max_secs_def ttl_secs_def)
qed

lemma claim_free: "(\<And>r. r \<in> set rows \<Longrightarrow> call_id r = i \<Longrightarrow> stale t r) \<Longrightarrow> fst (idem_claim de t i sha rows) = Run"
  by (auto simp: idem_claim_def Let_def split: option.splits dest!: find_hit)

lemma unkept_outcome_frees: "\<not> storable e \<Longrightarrow> fst (idem_claim de t i sha (idem_finish ser i (Inl e) usage rows)) = Run"
  by (rule claim_free) (auto simp: idem_finish_def finish_columns_def)

text \<open>C4. What becomes of a keyed call that finishes within thirty seconds of its claim (the span in which no other call can take the key
  over; \<open>quiet\<close>: other claims, finishes of other keys and purges at times of the span). When its outcome is kept - a success, or an
  invalid-arguments or structured error other than \<open>tool_timeout\<close> and \<open>idempotency_conflict\<close> - every claim of the same key within 24
  hours, whatever else happens in between, is answered without running the tool: a success with its value and usage block unchanged, an
  error as the stored form \<open>replayed_error\<close> of it, and the same key with other arguments as a conflict. When its outcome is an error that
  is not kept, the next claim runs the tool again. A success is assumed not to look like the envelope that carries a usage block
  (\<open>replayable\<close>), and the parser of the stored text to invert its printer.\<close>

theorem finished_call_replays:
  assumes "\<forall>v. de (ser v) = Some v"
    and "idem_claim de now i sha rows = (Run, rows1)"
    and "in_i64 (now - wait_max_secs)" "in_i64 (now + ttl_secs)"
    and "list_all (quiet i now (now + wait_max_secs)) before"
    and "list_all (quiet i now (now + ttl_secs)) after" "now \<le> t" "t < now + ttl_secs"
    and "rows2 = idem_run ser de before rows1"
  shows "(replayable outcome usage \<longrightarrow>
        fst (idem_claim de t i sha' (idem_run ser de after (idem_finish ser i outcome usage rows2))) =
          (if sha' = sha then replay_of now outcome usage else Conflict sha))
    \<and> (\<not> storable e \<longrightarrow> fst (idem_claim de t i sha' (idem_finish ser i (Inl e) usage rows2)) = Run)"
  using claim_after_finish[OF assms(1-5) _ assms(6-8)] unkept_outcome_frees assms(9) by blast

theorem finished_call_replays_witness:
  "fst (idem_claim Some 80000 (1, ''add'', ''k1'') ''aa''
      (idem_run id Some [EPurge 70000] (idem_finish id (1, ''add'', ''k1'') (Inr (JInt 5)) None
        (idem_run id Some [EPurge 1010] (snd (idem_claim Some 1000 (1, ''add'', ''k1'') ''aa'' [])))))) =
    Replay \<lparr>st_outcome = Inr (JInt 5), st_first_seen_unix = 1000, st_usage = None\<rparr>"
proof -
  let ?i = "(1, ''add'', ''k1'')"
  have run: "idem_claim Some 1000 ?i ''aa'' [] = (Run, snd (idem_claim Some 1000 ?i ''aa'' []))"
    by (simp add: idem_claim_def)
  have "fst (idem_claim Some 80000 ?i ''aa''
      (idem_run id Some [EPurge 70000] (idem_finish id ?i (Inr (JInt 5)) None (idem_run id Some [EPurge 1010] (snd (idem_claim Some 1000 ?i ''aa'' [])))))) =
    (if ''aa'' = ''aa'' then replay_of 1000 (Inr (JInt 5)) None else Conflict ''aa'')"
    by (rule finished_call_replays[OF _ run _ _ _ _ _ _ refl, THEN conjunct1, rule_format])
      (simp_all add: i64_bound_defs wait_max_secs_def ttl_secs_def)
  then show ?thesis by (simp add: replay_of_def)
qed

lemma unkept_outcome_frees_key_parts:
  shows "\<not> storable e \<Longrightarrow> fst (idem_claim de t i sha (idem_finish ser i (Inl e) usage rows)) = Run"
    and "fst (idem_claim de t i sha (guard_release ser i False rows)) = Run"
    and "list_all (\<lambda>r. call_id r = i \<longrightarrow> cr_result_json r = None \<and> cr_error_json r = None
             \<and> cr_created_unix r \<le> wrap_i64 (t - wait_max_secs)) rows \<Longrightarrow>
         fst (idem_claim de t i sha rows) = Run"
proof -
  note free = claim_free
  show "\<not> storable e \<Longrightarrow> fst (idem_claim de t i sha (idem_finish ser i (Inl e) usage rows)) = Run"
    and "fst (idem_claim de t i sha (guard_release ser i False rows)) = Run"
    and "list_all (\<lambda>r. call_id r = i \<longrightarrow> cr_result_json r = None \<and> cr_error_json r = None
             \<and> cr_created_unix r \<le> wrap_i64 (t - wait_max_secs)) rows \<Longrightarrow>
         fst (idem_claim de t i sha rows) = Run"
    by (auto simp: idem_finish_def finish_columns_def guard_release_def stale_def list_all_iff intro!: free)
qed

text \<open>An outcome that is not kept (a call timeout, a storage failure, any error outside the stored
  classes, or a guard dropped before it finished) frees the key: the next claim, at any time and with
  any arguments, runs the tool. So does a claim left pending for thirty seconds or more.\<close>

theorem unkept_outcome_frees_key:
  "(\<not> storable e \<longrightarrow> fst (idem_claim de t i sha (idem_finish ser i (Inl e) usage rows)) = Run)
    \<and> (fst (idem_claim de t i sha (guard_release ser i False rows)) = Run)
    \<and> (list_all (\<lambda>r. call_id r = i \<longrightarrow> cr_result_json r = None \<and> cr_error_json r = None
             \<and> cr_created_unix r \<le> wrap_i64 (t - wait_max_secs)) rows \<longrightarrow>
         fst (idem_claim de t i sha rows) = Run)"
  using unkept_outcome_frees_key_parts by blast

theorem unkept_outcome_frees_key_witness:
  "fst (idem_claim Some 1010 (1, ''add'', ''k1'') ''bb''
      (idem_finish id (1, ''add'', ''k1'') (Inl (CallTimeout 30)) None
        (snd (idem_claim Some 1000 (1, ''add'', ''k1'') ''aa'' [])))) = Run
   \<and> fst (idem_claim Some 1031 (1, ''add'', ''k1'') ''bb'' (snd (idem_claim Some 1000 (1, ''add'', ''k1'') ''aa'' []))) = Run"
proof
  show "fst (idem_claim Some 1010 (1, ''add'', ''k1'') ''bb''
      (idem_finish id (1, ''add'', ''k1'') (Inl (CallTimeout 30)) None
        (snd (idem_claim Some 1000 (1, ''add'', ''k1'') ''aa'' [])))) = Run"
    by (rule unkept_outcome_frees_key[THEN conjunct1, rule_format]) simp
  show "fst (idem_claim Some 1031 (1, ''add'', ''k1'') ''bb'' (snd (idem_claim Some 1000 (1, ''add'', ''k1'') ''aa'' []))) = Run"
    by (rule unkept_outcome_frees_key[THEN conjunct2, THEN conjunct2, rule_format])
      (simp add: idem_claim_def call_id_def wrap_i64_def wait_max_secs_def)
qed

lemma replayed_error_keeps_known_codes_parts:
  shows "display (error_from_json (error_to_json e)) = display e"
    and "code (error_from_json (error_to_json e)) =
           (if code e \<in> set (concat family_codes @ REPLAY_CODES) then code e else ''internal'')"
    and "storable (Structured ''table_not_found'' m d)
       \<and> jsonrpc_code (Structured ''table_not_found'' m d) = INVALID_PARAMS
       \<and> error_from_json (error_to_json (Structured ''table_not_found'' m d)) = Structured ''internal'' m d
       \<and> jsonrpc_code (Structured ''internal'' m d) = INTERNAL_ERROR"
proof -
  show "display (error_from_json (error_to_json e)) = display e"
    and "code (error_from_json (error_to_json e)) =
           (if code e \<in> set (concat family_codes @ REPLAY_CODES) then code e else ''internal'')"
    by (simp_all add: error_from_to_json replayed_error_def intern_code)
  have "intern ''table_not_found'' = ''internal''"
    by (simp add: intern_code family_codes_def REPLAY_CODES_def)
  then show "storable (Structured ''table_not_found'' m d)
       \<and> jsonrpc_code (Structured ''table_not_found'' m d) = INVALID_PARAMS
       \<and> error_from_json (error_to_json (Structured ''table_not_found'' m d)) = Structured ''internal'' m d
       \<and> jsonrpc_code (Structured ''internal'' m d) = INTERNAL_ERROR"
    by (simp add: error_from_to_json replayed_error_def structured_rpc_def structured_arms_state_def structured_arms_store_def)
qed

text \<open>What a replayed error keeps: its message always; its data when it is structured; its code only
  when that code is one of the kinds' families or of the replay list. A structured refusal with another
  code (\<open>table_not_found\<close>, a request error, is one) is kept for the 24 hours and comes back as
  \<open>internal\<close>, and so as an internal error.\<close>

theorem replayed_error_keeps_known_codes:
  "(display (error_from_json (error_to_json e)) = display e)
    \<and> (code (error_from_json (error_to_json e)) =
           (if code e \<in> set (concat family_codes @ REPLAY_CODES) then code e else ''internal''))
    \<and> (storable (Structured ''table_not_found'' m d)
       \<and> jsonrpc_code (Structured ''table_not_found'' m d) = INVALID_PARAMS
       \<and> error_from_json (error_to_json (Structured ''table_not_found'' m d)) = Structured ''internal'' m d
       \<and> jsonrpc_code (Structured ''internal'' m d) = INTERNAL_ERROR)"
  by (rule conjI[OF replayed_error_keeps_known_codes_parts(1) conjI[OF replayed_error_keeps_known_codes_parts(2) replayed_error_keeps_known_codes_parts(3)]])
end
