(* ===== verification/Tasks.thy ===== *)
theory Tasks
  imports Errors "HOL-Library.Product_Lexorder"
begin

text \<open>
  \<open>src/tasks.rs\<close>: a task handed from one agent to another, a row of the table \<open>tasks\<close> whose status
  moves under the handlers \<open>post\<close>, \<open>claim\<close>, \<open>complete\<close>, \<open>get\<close> and \<open>dead_letters\<close> and under the
  deadline sweep. \<open>task_rec\<close> is a row of the table; \<open>task_row\<close> is what \<open>task_from_row\<close> reads from it.

  Each SQL statement is a function on the list of rows (\<open>claim_update\<close>, \<open>complete_update\<close>, \<open>complete_undo\<close>,
  \<open>insert_task\<close>, \<open>delete_task\<close>, \<open>link_thread\<close>, \<open>sweep_at\<close>), and a handler composes them as the code does. A
  handler holds the connection only for one statement, so two handlers interleave between statements:
  \<open>task_step\<close> is the relation of one statement at a time, and its reachable tables are those of every
  interleaving.

  Messages are carried by \<open>src/messaging.rs\<close>: what sending or replying answers is an argument of the
  handlers, as are the JSON printer and parser of the text columns, the address lookup, the plan's
  open-task limit and the fresh identifier.
\<close>

section \<open>Status\<close>

definition deadline_s_min :: int where "deadline_s_min = 60"
definition deadline_s_max :: int where "deadline_s_max = 86400"
definition dead_letters_window_s :: int where "dead_letters_window_s = 7 * 86400"
definition dead_letters_max :: nat where "dead_letters_max = 100"
definition dedupe_window_s :: int where "dedupe_window_s = 86400"

datatype task_status = Posted | Claimed | Done | Dead | Cancelled

definition task_status_all :: "task_status list" where
  "task_status_all = [Posted, Claimed, Done, Dead, Cancelled]"

fun status_as_str :: "task_status \<Rightarrow> string" where
  "status_as_str Posted = ''posted''"
| "status_as_str Claimed = ''claimed''"
| "status_as_str Done = ''done''"
| "status_as_str Dead = ''dead''"
| "status_as_str Cancelled = ''cancelled''"

definition status_parse :: "string \<Rightarrow> task_status option" where
  "status_parse s = find (\<lambda>k. status_as_str k = s) task_status_all"

definition status_schema_enum :: json where
  "status_schema_enum = JArr (map (\<lambda>k. JStr (status_as_str k)) task_status_all)"

definition llms_txt_statuses :: string where
  "llms_txt_statuses = join '', '' (map (\<lambda>k. [CHR 0x60] @ status_as_str k @ [CHR 0x60]) task_status_all)"

section \<open>Rows\<close>

record 't task_rec =
  tc_id :: string
  tc_thread_id :: "string option"
  tc_poster :: int
  tc_recipient :: int
  tc_status :: string
  tc_payload_json :: 't
  tc_result_json :: "'t option"
  tc_created_unix :: int
  tc_deadline_unix :: int
  tc_claimed_unix :: "int option"
  tc_done_unix :: "int option"
  tc_dead_unix :: "int option"
  tc_dead_reason :: "string option"
  tc_dedupe_key :: "string option"

record task_row =
  tr_id :: string
  tr_thread_id :: "string option"
  tr_poster :: int
  tr_recipient :: int
  tr_status :: string
  tr_payload :: json
  tr_result :: "json option"
  tr_created_unix :: int
  tr_deadline_unix :: int
  tr_claimed_unix :: "int option"
  tr_done_unix :: "int option"
  tr_dead_unix :: "int option"
  tr_dead_reason :: "string option"

definition task_from_row :: "('t \<Rightarrow> json option) \<Rightarrow> 't task_rec \<Rightarrow> task_row" where
  "task_from_row de r =
     \<lparr>tr_id = tc_id r, tr_thread_id = tc_thread_id r, tr_poster = tc_poster r, tr_recipient = tc_recipient r,
      tr_status = tc_status r,
      tr_payload = (case de (tc_payload_json r) of Some v \<Rightarrow> v | None \<Rightarrow> JNull),
      tr_result = Option.bind (tc_result_json r) de,
      tr_created_unix = tc_created_unix r, tr_deadline_unix = tc_deadline_unix r,
      tr_claimed_unix = tc_claimed_unix r, tr_done_unix = tc_done_unix r, tr_dead_unix = tc_dead_unix r,
      tr_dead_reason = tc_dead_reason r\<rparr>"

section \<open>Refusals\<close>

definition task_not_found :: app_error where
  "task_not_found = Structured ''task_not_found'' ''no task found for that id'' (mk_obj [])"

definition task_already_claimed :: "string \<Rightarrow> app_error" where
  "task_already_claimed i =
     Structured ''task_already_claimed'' ''that task is already claimed''
       (mk_obj [(''task_id'', JStr i), (''status'', JStr (status_as_str Claimed))])"

definition task_not_claimed :: "string \<Rightarrow> app_error" where
  "task_not_claimed i =
     Structured ''task_not_claimed'' ''claim the task before completing it''
       (mk_obj [(''task_id'', JStr i), (''status'', JStr (status_as_str Posted)), (''hint'', JStr ''host.task.claim'')])"

definition task_closed :: "string \<Rightarrow> string \<Rightarrow> app_error" where
  "task_closed i status =
     Structured ''task_closed'' (''that task is '' @ status @ '' and takes no further claim or completion'')
       (mk_obj [(''task_id'', JStr i), (''status'', JStr status)])"

definition recipient_inbox_full :: app_error where
  "recipient_inbox_full = Structured ''recipient_inbox_full'' (''that agent'' @ [CHR 0x27] @ ''s inbox is full'') (mk_obj [])"

definition agent_not_found :: app_error where
  "agent_not_found = Structured ''agent_not_found'' ''no agent found for that address'' (mk_obj [])"

definition contact_refused :: app_error where
  "contact_refused =
     Structured ''contact_refused'' ''that address does not accept messages from you yet''
       (mk_obj [(''hint'', JStr ''host.agent.contact_request'')])"

definition msg_quota_exceeded :: "string \<Rightarrow> int \<Rightarrow> app_error" where
  "msg_quota_exceeded name v =
     Structured ''quota_exceeded'' (''messaging quota exceeded: '' @ name @ '' (limit '' @ show_int v @ '')'')
       (mk_obj [(''limit'', JStr name), (''value'', JInt v)])"

definition missing_argument :: "string \<Rightarrow> app_error" where
  "missing_argument name = InvalidArgs (''missing required argument '' @ [CHR 0x27] @ name @ [CHR 0x27])"

definition arg_str :: "json \<Rightarrow> string \<Rightarrow> app_error + string" where
  "arg_str args name =
     (case Option.bind (json_get name args) as_str of Some s \<Rightarrow> Inr s | None \<Rightarrow> Inl (missing_argument name))"

definition arg_object :: "json \<Rightarrow> string \<Rightarrow> app_error + json" where
  "arg_object args name =
     (case json_get name args of
        Some v \<Rightarrow> if is_object v then Inr v else Inl (InvalidArgs (name @ '': must be a JSON object''))
      | None \<Rightarrow> Inl (missing_argument name))"

section \<open>Statements\<close>

definition is_open :: "'t task_rec \<Rightarrow> bool" where
  "is_open r \<longleftrightarrow> tc_status r = ''posted'' \<or> tc_status r = ''claimed''"

definition load_task :: "('t \<Rightarrow> json option) \<Rightarrow> string \<Rightarrow> int \<Rightarrow> 't task_rec list \<Rightarrow> task_row option" where
  "load_task de i tenant rows =
     map_option (task_from_row de) (find (\<lambda>r. tc_id r = i \<and> (tc_poster r = tenant \<or> tc_recipient r = tenant)) rows)"

definition update_where ::
  "('t task_rec \<Rightarrow> bool) \<Rightarrow> ('t task_rec \<Rightarrow> 't task_rec) \<Rightarrow> 't task_rec list \<Rightarrow> nat \<times> 't task_rec list" where
  "update_where P f rows = (length (filter P rows), map (\<lambda>r. if P r then f r else r) rows)"

definition link_thread :: "string \<Rightarrow> string \<Rightarrow> 't task_rec list \<Rightarrow> 't task_rec list" where
  "link_thread i thread rows = snd (update_where (\<lambda>r. tc_id r = i) (\<lambda>r. r\<lparr>tc_thread_id := Some thread\<rparr>) rows)"

definition count_open :: "int \<Rightarrow> 't task_rec list \<Rightarrow> int" where
  "count_open poster rows = int (length (filter (\<lambda>r. tc_poster r = poster \<and> is_open r) rows))"

definition find_dedupe :: "int \<Rightarrow> string \<Rightarrow> int \<Rightarrow> 't task_rec list \<Rightarrow> 't task_rec option" where
  "find_dedupe poster key since rows =
     find (\<lambda>r. tc_poster r = poster \<and> tc_dedupe_key r = Some key \<and> since \<le> tc_created_unix r) rows"

definition insert_task :: "string \<Rightarrow> int \<Rightarrow> int \<Rightarrow> 't \<Rightarrow> int \<Rightarrow> int \<Rightarrow> string option \<Rightarrow> 't task_rec list \<Rightarrow> 't task_rec list" where
  "insert_task i poster recipient payload now deadline dedupe rows =
     rows @ [\<lparr>tc_id = i, tc_thread_id = None, tc_poster = poster, tc_recipient = recipient,
              tc_status = ''posted'', tc_payload_json = payload, tc_result_json = None,
              tc_created_unix = now, tc_deadline_unix = deadline, tc_claimed_unix = None,
              tc_done_unix = None, tc_dead_unix = None, tc_dead_reason = None, tc_dedupe_key = dedupe\<rparr>]"

definition delete_task :: "string \<Rightarrow> 't task_rec list \<Rightarrow> 't task_rec list" where
  "delete_task i rows = filter (\<lambda>r. tc_id r \<noteq> i) rows"

definition claim_update :: "int \<Rightarrow> string \<Rightarrow> int \<Rightarrow> 't task_rec list \<Rightarrow> nat \<times> 't task_rec list" where
  "claim_update now i recipient rows =
     update_where (\<lambda>r. tc_id r = i \<and> tc_recipient r = recipient \<and> tc_status r = ''posted'')
       (\<lambda>r. r\<lparr>tc_status := ''claimed'', tc_claimed_unix := Some now\<rparr>) rows"

definition complete_update :: "int \<Rightarrow> string \<Rightarrow> int \<Rightarrow> 't \<Rightarrow> 't task_rec list \<Rightarrow> nat \<times> 't task_rec list" where
  "complete_update now i recipient res rows =
     update_where (\<lambda>r. tc_id r = i \<and> tc_recipient r = recipient \<and> tc_status r = ''claimed'')
       (\<lambda>r. r\<lparr>tc_status := ''done'', tc_result_json := Some res, tc_done_unix := Some now\<rparr>) rows"

definition complete_undo :: "string \<Rightarrow> int \<Rightarrow> 't task_rec list \<Rightarrow> 't task_rec list" where
  "complete_undo i recipient rows =
     snd (update_where (\<lambda>r. tc_id r = i \<and> tc_recipient r = recipient \<and> tc_status r = ''done'')
       (\<lambda>r. r\<lparr>tc_status := ''claimed'', tc_result_json := None, tc_done_unix := None\<rparr>) rows)"

text \<open>The sweep: one transaction that reads the due tasks and kills them one by one, with a notice to
  both parties for each that has a thread. The notice's sequence number, identifier and timestamps
  belong to the messages table.\<close>

record dead_notice =
  dn_thread_id :: string
  dn_body :: string
  dn_data :: json
  dn_recipients :: "int list"

definition dead_message :: "string \<Rightarrow> string \<Rightarrow> int list \<Rightarrow> dead_notice" where
  "dead_message thread i recipients =
     \<lparr>dn_thread_id = thread, dn_body = ''task '' @ i @ '' dead: deadline passed'',
      dn_data = mk_obj [(''task'', mk_obj [(''task_id'', JStr i), (''status'', JStr (status_as_str Dead)),
                                           (''reason'', JStr ''deadline'')])],
      dn_recipients = recipients\<rparr>"

definition kill_task :: "int \<Rightarrow> string \<Rightarrow> 't task_rec list \<Rightarrow> 't task_rec list" where
  "kill_task now i rows =
     snd (update_where (\<lambda>r. tc_id r = i)
       (\<lambda>r. r\<lparr>tc_status := ''dead'', tc_dead_unix := Some now, tc_dead_reason := Some ''deadline''\<rparr>) rows)"

definition is_due :: "int \<Rightarrow> 't task_rec \<Rightarrow> bool" where
  "is_due now r \<longleftrightarrow> is_open r \<and> tc_deadline_unix r \<le> now"

definition sweep_at :: "int \<Rightarrow> 't task_rec list \<Rightarrow> nat \<times> dead_notice list \<times> 't task_rec list" where
  "sweep_at now rows =
     (let due = filter (is_due now) rows;
          (notices, rows') = fold (\<lambda>d (ns, rs).
             (ns @ (case tc_thread_id d of
                      Some thread \<Rightarrow> [dead_message thread (tc_id d) [tc_poster d, tc_recipient d]]
                    | None \<Rightarrow> []),
              kill_task now (tc_id d) rs)) due ([], rows)
      in (length due, notices, rows'))"

section \<open>Handlers\<close>

definition task_view :: "task_row \<Rightarrow> json" where
  "task_view t =
     mk_obj [(''task_id'', JStr (tr_id t)), (''thread_id'', opt_json JStr (tr_thread_id t)),
             (''status'', JStr (tr_status t)), (''deadline_unix'', JInt (tr_deadline_unix t))]"

text \<open>What the sending of the carrying message answers: the thread, and who refused and why.\<close>

record send_outcome =
  so_thread_id :: string
  so_refused :: "(string \<times> string) list"

definition refusal_error :: "string \<Rightarrow> app_error" where
  "refusal_error c =
     (if c = ''contact_refused'' then contact_refused
      else if c = ''recipient_inbox_full'' then recipient_inbox_full
      else agent_not_found)"

definition post_args :: "json \<Rightarrow> app_error + (string \<times> json \<times> int)" where
  "post_args args =
     (case arg_str args ''to'' of Inl e \<Rightarrow> Inl e | Inr to_addr \<Rightarrow>
      case arg_object args ''payload'' of Inl e \<Rightarrow> Inl e | Inr payload \<Rightarrow>
      case Option.bind (json_get ''deadline_s'' args) as_i64 of
        Some n \<Rightarrow>
          if deadline_s_min \<le> n \<and> n \<le> deadline_s_max then Inr (to_addr, payload, n)
          else Inl (InvalidArgs (''deadline_s: required integer from '' @ show_int deadline_s_min @ '' to '' @ show_int deadline_s_max))
      | None \<Rightarrow> Inl (InvalidArgs (''deadline_s: required integer from '' @ show_int deadline_s_min @ '' to '' @ show_int deadline_s_max)))"

definition post_message :: "string \<Rightarrow> string \<Rightarrow> int \<Rightarrow> json \<Rightarrow> json" where
  "post_message to_addr i deadline payload =
     mk_obj [(''to'', JArr [JStr to_addr]), (''body'', JStr (''task '' @ i @ '' posted'')),
             (''data'', mk_obj [(''task'', mk_obj [(''task_id'', JStr i), (''status'', JStr (status_as_str Posted)),
                                                   (''deadline_unix'', JInt deadline)]),
                                (''payload'', payload)])]"

definition post_task ::
  "(json \<Rightarrow> 't) \<Rightarrow> ('t \<Rightarrow> json option) \<Rightarrow> int \<Rightarrow> string \<Rightarrow> int option \<Rightarrow> (string \<Rightarrow> int option) \<Rightarrow> string
     \<Rightarrow> (json \<Rightarrow> app_error + send_outcome) \<Rightarrow> int \<Rightarrow> json \<Rightarrow> 't task_rec list
     \<Rightarrow> (app_error + json) \<times> 't task_rec list" where
  "post_task ser de now plan tasks_open_max resolve task_id send poster args rows =
     (case post_args args of Inl e \<Rightarrow> (Inl e, rows) | Inr (to_addr, payload, deadline_s) \<Rightarrow>
      (let dedupe = Option.bind (json_get ''dedupe_key'' args) as_str;
           hit = Option.bind dedupe (\<lambda>k. find_dedupe poster k (wrap_i64 (now - dedupe_window_s)) rows)
       in case hit of Some r \<Rightarrow> (Inr (task_view (task_from_row de r)), rows) | None \<Rightarrow>
       case tasks_open_max of
         None \<Rightarrow> (Inl (Internal (''tenant plan '' @ [CHR 0x27] @ plan @ [CHR 0x27] @ '' not in catalog'')), rows)
       | Some cap \<Rightarrow>
         if cap \<le> count_open poster rows then (Inl (msg_quota_exceeded ''tasks_open_max'' cap), rows)
         else case resolve to_addr of None \<Rightarrow> (Inl agent_not_found, rows) | Some recipient \<Rightarrow>
         (let deadline = wrap_i64 (now + deadline_s);
              rows = insert_task task_id poster recipient (ser payload) now deadline dedupe rows
          in case send (post_message to_addr task_id deadline payload) of
               Inl e \<Rightarrow> (Inl e, delete_task task_id rows)
             | Inr outcome \<Rightarrow>
                 (let rows = link_thread task_id (so_thread_id outcome) rows in
                  case so_refused outcome of
                    (_, c) # _ \<Rightarrow> (Inl (refusal_error c), delete_task task_id rows)
                  | [] \<Rightarrow>
                      (Inr (mk_obj [(''task_id'', JStr task_id), (''thread_id'', JStr (so_thread_id outcome)),
                                    (''status'', JStr (status_as_str Posted)), (''deadline_unix'', JInt deadline)]),
                       rows)))))"

text \<open>\<open>reply_state\<close>: the reply it sends into the task's thread, if the task has one.\<close>

definition reply_message :: "task_row \<Rightarrow> task_status \<Rightarrow> json option \<Rightarrow> json option" where
  "reply_message t status res =
     map_option (\<lambda>thread.
       mk_obj [(''thread_id'', JStr thread), (''body'', JStr (''task '' @ tr_id t @ '' '' @ status_as_str status)),
               (''data'', mk_obj [(''task'',
                  mk_obj ([(''task_id'', JStr (tr_id t)), (''status'', JStr (status_as_str status))]
                    @ (case res of Some r \<Rightarrow> [(''result'', r)] | None \<Rightarrow> [])))])])
       (tr_thread_id t)"

definition reply_state :: "(json \<Rightarrow> app_error option) \<Rightarrow> task_row \<Rightarrow> task_status \<Rightarrow> json option \<Rightarrow> app_error option" where
  "reply_state reply t status res = Option.bind (reply_message t status res) reply"

definition load_as_recipient :: "('t \<Rightarrow> json option) \<Rightarrow> string \<Rightarrow> int \<Rightarrow> 't task_rec list \<Rightarrow> app_error + task_row" where
  "load_as_recipient de i tenant rows =
     (case load_task de i tenant rows of
        Some t \<Rightarrow> if tr_recipient t = tenant then Inr t else Inl task_not_found
      | None \<Rightarrow> Inl task_not_found)"

text \<open>\<open>claim\<close> answers, leaves the table, and names the notice it replies with: a notice that fails is
  logged and changes neither.\<close>

definition claim_task ::
  "('t \<Rightarrow> json option) \<Rightarrow> int \<Rightarrow> int \<Rightarrow> json \<Rightarrow> 't task_rec list
     \<Rightarrow> (app_error + json) \<times> 't task_rec list \<times> json option" where
  "claim_task de now tenant args rows =
     (case arg_str args ''task_id'' of Inl e \<Rightarrow> (Inl e, rows, None) | Inr i \<Rightarrow>
      (let (changed, rows) = claim_update now i tenant rows in
       case load_as_recipient de i tenant rows of Inl e \<Rightarrow> (Inl e, rows, None) | Inr t \<Rightarrow>
       if changed = 0 then
         (Inl (if status_parse (tr_status t) = Some Claimed then task_already_claimed i
               else task_closed i (tr_status t)), rows, None)
       else
         (Inr (mk_obj [(''task_id'', JStr (tr_id t)), (''thread_id'', opt_json JStr (tr_thread_id t)),
                       (''status'', JStr (status_as_str Claimed)), (''payload'', tr_payload t),
                       (''deadline_unix'', JInt (tr_deadline_unix t))]), rows, reply_message t Claimed None)))"

definition complete_task ::
  "(json \<Rightarrow> 't) \<Rightarrow> ('t \<Rightarrow> json option) \<Rightarrow> int \<Rightarrow> (json \<Rightarrow> app_error option) \<Rightarrow> int \<Rightarrow> json \<Rightarrow> 't task_rec list
     \<Rightarrow> (app_error + json) \<times> 't task_rec list" where
  "complete_task ser de now reply tenant args rows =
     (case arg_str args ''task_id'' of Inl e \<Rightarrow> (Inl e, rows) | Inr i \<Rightarrow>
      case arg_object args ''result'' of Inl e \<Rightarrow> (Inl e, rows) | Inr res \<Rightarrow>
      (let (changed, rows) = complete_update now i tenant (ser res) rows in
       case load_as_recipient de i tenant rows of Inl e \<Rightarrow> (Inl e, rows) | Inr t \<Rightarrow>
       if changed = 0 then
         ((case status_parse (tr_status t) of
             Some Done \<Rightarrow>
               Inr (mk_obj [(''task_id'', JStr (tr_id t)), (''thread_id'', opt_json JStr (tr_thread_id t)),
                            (''status'', JStr (status_as_str Done)), (''result'', opt_json id (tr_result t)),
                            (''already_complete'', JBool True)])
           | Some Posted \<Rightarrow> Inl (task_not_claimed i)
           | _ \<Rightarrow> Inl (task_closed i (tr_status t))), rows)
       else case reply_state reply t Done (Some res) of
         Some e \<Rightarrow> (Inl e, complete_undo i tenant rows)
       | None \<Rightarrow>
           (Inr (mk_obj [(''task_id'', JStr (tr_id t)), (''thread_id'', opt_json JStr (tr_thread_id t)),
                         (''status'', JStr (status_as_str Done)), (''result'', res),
                         (''already_complete'', JBool False)]), rows)))"

definition get_task :: "('t \<Rightarrow> json option) \<Rightarrow> int \<Rightarrow> json \<Rightarrow> 't task_rec list \<Rightarrow> app_error + json" where
  "get_task de tenant args rows =
     (case arg_str args ''task_id'' of Inl e \<Rightarrow> Inl e | Inr i \<Rightarrow>
      case load_task de i tenant rows of None \<Rightarrow> Inl task_not_found | Some t \<Rightarrow>
      Inr (mk_obj [(''task_id'', JStr (tr_id t)), (''thread_id'', opt_json JStr (tr_thread_id t)),
                   (''status'', JStr (tr_status t)),
                   (''role'', JStr (if tr_poster t = tenant then ''poster'' else ''recipient'')),
                   (''payload'', tr_payload t), (''result'', opt_json id (tr_result t)),
                   (''reason'', opt_json JStr (tr_dead_reason t)), (''created_unix'', JInt (tr_created_unix t)),
                   (''deadline_unix'', JInt (tr_deadline_unix t)), (''claimed_unix'', opt_json JInt (tr_claimed_unix t)),
                   (''done_unix'', opt_json JInt (tr_done_unix t)), (''dead_unix'', opt_json JInt (tr_dead_unix t))]))"

definition dead_rank :: "'t task_rec \<Rightarrow> int \<times> string" where
  "dead_rank r = ((case tc_dead_unix r of Some d \<Rightarrow> d | None \<Rightarrow> 0), tc_id r)"

definition dead_letter_rows :: "int \<Rightarrow> int \<Rightarrow> 't task_rec list \<Rightarrow> 't task_rec list" where
  "dead_letter_rows now poster rows =
     take dead_letters_max (rev (sort_key dead_rank (filter (\<lambda>r. tc_poster r = poster \<and> tc_status r = ''dead''
        \<and> (case tc_dead_unix r of Some d \<Rightarrow> wrap_i64 (now - dead_letters_window_s) \<le> d | None \<Rightarrow> False)) rows)))"

definition dead_letters :: "('t \<Rightarrow> json option) \<Rightarrow> int \<Rightarrow> int \<Rightarrow> 't task_rec list \<Rightarrow> json" where
  "dead_letters de now poster rows =
     mk_obj [(''dead_letters'', JArr (map (\<lambda>r. let t = task_from_row de r in
                mk_obj [(''task_id'', JStr (tr_id t)), (''thread_id'', opt_json JStr (tr_thread_id t)),
                        (''status'', JStr (tr_status t)), (''reason'', opt_json JStr (tr_dead_reason t)),
                        (''payload'', tr_payload t), (''deadline_unix'', JInt (tr_deadline_unix t)),
                        (''dead_unix'', opt_json JInt (tr_dead_unix t))]) (dead_letter_rows now poster rows))),
             (''limit'', JInt (int dead_letters_max))]"

section \<open>One statement at a time\<close>

datatype 't task_stmt =
    SInsert string int int 't int int "string option"
  | SLink string string
  | SDelete string
  | SClaim int string int
  | SComplete int string int 't
  | SUndo string int
  | SSweep int

inductive task_step :: "'t task_stmt \<Rightarrow> 't task_rec list \<Rightarrow> 't task_rec list \<Rightarrow> bool" where
  step_insert: "i \<notin> tc_id ` set rows \<Longrightarrow> deadline_s_min \<le> s \<Longrightarrow> s \<le> deadline_s_max \<Longrightarrow>
     task_step (SInsert i poster recipient payload now s dedupe) rows
       (insert_task i poster recipient payload now (wrap_i64 (now + s)) dedupe rows)"
| step_link: "task_step (SLink i thread) rows (link_thread i thread rows)"
| step_delete: "task_step (SDelete i) rows (delete_task i rows)"
| step_claim: "task_step (SClaim now i recipient) rows (snd (claim_update now i recipient rows))"
| step_complete: "task_step (SComplete now i recipient res) rows (snd (complete_update now i recipient res rows))"
| step_undo: "task_step (SUndo i recipient) rows (complete_undo i recipient rows)"
| step_sweep: "task_step (SSweep now) rows (snd (snd (sweep_at now rows)))"

inductive task_run :: "'t task_stmt list \<Rightarrow> 't task_rec list \<Rightarrow> 't task_rec list \<Rightarrow> bool" where
  run_none: "task_run [] rows rows"
| run_step: "task_run ss rows rows' \<Longrightarrow> task_step s rows' rows'' \<Longrightarrow> task_run (ss @ [s]) rows rows''"

inductive_cases task_stepE: "task_step s rows rows'"

text \<open>What a row holds in each status.\<close>

definition task_ok :: "'t task_rec \<Rightarrow> bool" where
  "task_ok r \<longleftrightarrow>
     (tc_status r = ''posted'' \<and> tc_claimed_unix r = None \<and> tc_done_unix r = None \<and> tc_dead_unix r = None
        \<and> tc_result_json r = None \<and> tc_dead_reason r = None)
   \<or> (tc_status r = ''claimed'' \<and> tc_claimed_unix r \<noteq> None \<and> tc_done_unix r = None \<and> tc_dead_unix r = None
        \<and> tc_result_json r = None \<and> tc_dead_reason r = None)
   \<or> (tc_status r = ''done'' \<and> tc_claimed_unix r \<noteq> None \<and> tc_done_unix r \<noteq> None \<and> tc_dead_unix r = None
        \<and> tc_result_json r \<noteq> None \<and> tc_dead_reason r = None)
   \<or> (tc_status r = ''dead'' \<and> tc_done_unix r = None \<and> tc_dead_unix r \<noteq> None
        \<and> tc_result_json r = None \<and> tc_dead_reason r = Some ''deadline'')"

definition table_ok :: "'t task_rec list \<Rightarrow> bool" where
  "table_ok rows \<longleftrightarrow> distinct (map tc_id rows) \<and> list_all task_ok rows"

definition row_of :: "string \<Rightarrow> 't task_rec list \<Rightarrow> 't task_rec option" where
  "row_of i rows = find (\<lambda>r. tc_id r = i) rows"

lemma map_id_update:
  "(\<And>r. tc_id (f r) = tc_id r) \<Longrightarrow> map tc_id (map (\<lambda>r. if P r then f r else r) rows) = map tc_id rows"
  by (induction rows) auto

lemma row_of_update:
  "(\<And>r. tc_id (f r) = tc_id r) \<Longrightarrow>
     row_of i (map (\<lambda>r. if P r then f r else r) rows) = map_option (\<lambda>r. if P r then f r else r) (row_of i rows)"
  by (induction rows) (auto simp: row_of_def)

lemma row_of_Some: "row_of i rows = Some r \<Longrightarrow> r \<in> set rows \<and> tc_id r = i"
  by (auto simp: row_of_def dest: find_hit)

lemma row_of_None: "row_of i rows = None \<longleftrightarrow> i \<notin> tc_id ` set rows"
  by (auto simp: row_of_def find_None_iff)

lemma row_of_mem: "distinct (map tc_id rows) \<Longrightarrow> r \<in> set rows \<Longrightarrow> row_of (tc_id r) rows = Some r"
  by (induction rows) (auto simp: row_of_def)

lemma length_where:
  assumes "distinct (map tc_id rows)"
  shows "length (filter (\<lambda>r. tc_id r = i \<and> P r) rows) = (case row_of i rows of Some r \<Rightarrow> if P r then 1 else 0 | None \<Rightarrow> 0)"
  using assms
proof (induction rows)
  case (Cons x rows)
  have none: "filter (\<lambda>r. tc_id r = i \<and> P r) rows = []" if "tc_id x = i"
    using Cons.prems that by (auto simp: filter_empty_conv) (metis image_eqI)
  with Cons show ?case by (cases "tc_id x = i") (auto simp: row_of_def)
qed (simp add: row_of_def)

lemma update_none: "row_of i rows = None \<or> (\<exists>r. row_of i rows = Some r \<and> distinct (map tc_id rows) \<and> \<not> P r) \<Longrightarrow>
   map (\<lambda>r. if tc_id r = i \<and> P r then f r else r) rows = rows"
  by (rule map_idI) (auto simp: row_of_None dest: row_of_mem)

lemmas stmt_defs = link_thread_def claim_update_def complete_update_def complete_undo_def kill_task_def update_where_def

lemma sweep_fold:
  "fold (\<lambda>d (ns, rs). (ns @ N d, kill_task now (tc_id d) rs)) due (ns, rows) =
     (ns @ concat (map N due), fold (\<lambda>d. kill_task now (tc_id d)) due rows)"
  by (induction due arbitrary: ns rows) auto

definition killed :: "int \<Rightarrow> 't task_rec \<Rightarrow> 't task_rec" where
  "killed now r = r\<lparr>tc_status := ''dead'', tc_dead_unix := Some now, tc_dead_reason := Some ''deadline''\<rparr>"

lemma kill_fold:
  "fold (\<lambda>i. kill_task now i) is rows = map (\<lambda>r. if tc_id r \<in> set is then killed now r else r) rows"
proof (induction "is" arbitrary: rows)
  case (Cons i "is")
  then show ?case by (auto simp: kill_task_def update_where_def killed_def)
qed simp

lemma sweep_rows:
  assumes "distinct (map tc_id rows)"
  shows "snd (snd (sweep_at now rows)) = map (\<lambda>r. if is_due now r then killed now r else r) rows"
proof -
  have fold_ids: "fold (\<lambda>d. kill_task now (tc_id d)) due rs = fold (kill_task now) (map tc_id due) rs" for due and rs :: "'a task_rec list"
    by (simp add: fold_map comp_def)
  have "tc_id r \<in> tc_id ` set (filter (is_due now) rows) \<longleftrightarrow> is_due now r" if "r \<in> set rows" for r
    using that assms by (auto dest: row_of_mem) (metis option.inject row_of_mem)
  then show ?thesis
    by (auto simp: sweep_at_def Let_def sweep_fold fold_ids kill_fold)
qed

lemma update_table_ok:
  assumes "table_ok rows" "\<And>r. tc_id (f r) = tc_id r" "\<And>r. task_ok r \<Longrightarrow> P r \<Longrightarrow> task_ok (f r)"
  shows "table_ok (map (\<lambda>r. if P r then f r else r) rows)"
  using assms map_id_update[of f P rows]
  by (auto simp: table_ok_def list_all_iff simp del: map_map)

lemma killed_ok: "task_ok r \<Longrightarrow> is_due now r \<Longrightarrow> task_ok (killed now r)"
  by (auto simp: task_ok_def is_due_def is_open_def killed_def)

lemma delete_ok: "table_ok rows \<Longrightarrow> table_ok (delete_task i rows)"
proof -
  have "distinct (map tc_id rows) \<Longrightarrow> distinct (map tc_id (filter P rows))" for P
    by (induction rows) auto
  then show "table_ok rows \<Longrightarrow> table_ok (delete_task i rows)"
    by (auto simp: table_ok_def delete_task_def list_all_iff)
qed

lemma task_step_ok: "task_step s rows rows' \<Longrightarrow> table_ok rows \<Longrightarrow> table_ok rows'"
proof (induction rule: task_step.induct)
  case (step_insert i rows s poster recipient payload now dedupe)
  then show ?case by (auto simp: insert_task_def table_ok_def task_ok_def)
next
  case (step_sweep now rows)
  then have "distinct (map tc_id rows)" by (simp add: table_ok_def)
  note rows = sweep_rows[OF this]
  show ?case unfolding rows
    by (rule update_table_ok) (use step_sweep killed_ok in \<open>auto simp: killed_def\<close>)
qed (auto simp: stmt_defs delete_ok task_ok_def intro!: update_table_ok)

lemma task_run_ok: "task_run ss rows rows' \<Longrightarrow> table_ok rows \<Longrightarrow> table_ok rows'"
  by (induction rule: task_run.induct) (auto intro: task_step_ok)

text \<open>What never changes in a row, and how its status may move.\<close>

definition same_task :: "'t task_rec \<Rightarrow> 't task_rec \<Rightarrow> bool" where
  "same_task r r' \<longleftrightarrow> tc_id r' = tc_id r \<and> tc_poster r' = tc_poster r \<and> tc_recipient r' = tc_recipient r
     \<and> tc_payload_json r' = tc_payload_json r \<and> tc_created_unix r' = tc_created_unix r
     \<and> tc_deadline_unix r' = tc_deadline_unix r \<and> tc_dedupe_key r' = tc_dedupe_key r"

definition status_moves :: "(string \<times> string) list" where
  "status_moves =
     [(''posted'', ''claimed''), (''posted'', ''dead''), (''claimed'', ''done''), (''claimed'', ''dead''),
      (''done'', ''claimed'')]"

text \<open>The status a statement leaves a task with: the guard of each statement and the one edge it takes.\<close>

fun next_status :: "'t task_stmt \<Rightarrow> 't task_rec \<Rightarrow> string" where
  "next_status (SClaim now i recipient) r =
     (if tc_id r = i \<and> tc_recipient r = recipient \<and> tc_status r = ''posted'' then ''claimed'' else tc_status r)"
| "next_status (SComplete now i recipient res) r =
     (if tc_id r = i \<and> tc_recipient r = recipient \<and> tc_status r = ''claimed'' then ''done'' else tc_status r)"
| "next_status (SUndo i recipient) r =
     (if tc_id r = i \<and> tc_recipient r = recipient \<and> tc_status r = ''done'' then ''claimed'' else tc_status r)"
| "next_status (SSweep now) r =
     (if tc_status r \<in> {''posted'', ''claimed''} \<and> tc_deadline_unix r \<le> now then ''dead'' else tc_status r)"
| "next_status _ r = tc_status r"

lemma row_of_delete: "i \<noteq> j \<Longrightarrow> row_of i (delete_task j rows) = row_of i rows"
  by (induction rows) (auto simp: row_of_def delete_task_def)

lemma row_of_insert: "row_of i rows = Some r \<Longrightarrow> row_of i (insert_task j a b c d e f rows) = Some r"
  by (induction rows) (auto simp: row_of_def insert_task_def)

definition closed_against :: "string \<Rightarrow> 't task_stmt list \<Rightarrow> 't task_rec \<Rightarrow> bool" where
  "closed_against i ss r \<longleftrightarrow>
     tc_status r = ''dead'' \<or> (tc_status r = ''done'' \<and> (\<forall>recipient. SUndo i recipient \<notin> set ss))"

lemma next_status_moves: "next_status s r = tc_status r \<or> (tc_status r, next_status s r) \<in> set status_moves"
  by (cases s) (auto simp: status_moves_def)

lemma task_step_row:
  assumes "task_step s rows rows'" "table_ok rows" "row_of i rows = Some r" "s \<noteq> SDelete i"
  shows "\<exists>r'. row_of i rows' = Some r' \<and> same_task r r' \<and> tc_status r' = next_status s r
     \<and> (closed_against i [s] r \<longrightarrow> (\<exists>th. r' = r\<lparr>tc_thread_id := th\<rparr>))"
  using assms
proof (induction rule: task_step.induct)
  case (step_insert j rows s poster recipient payload now dedupe)
  have "row_of i (insert_task j poster recipient payload now (wrap_i64 (now + s)) dedupe rows) = Some r"
    using step_insert.prems(2) by (rule row_of_insert)
  then show ?case by (auto simp: same_task_def intro!: exI[of _ "tc_thread_id r"])
next
  case (step_delete j rows)
  then show ?case by (auto simp: same_task_def row_of_delete intro!: exI[of _ "tc_thread_id r"])
next
  case (step_link j thread rows)
  then show ?case
    by (auto simp: stmt_defs row_of_update same_task_def intro: exI[of _ "Some thread"] exI[of _ "tc_thread_id r"])
next
  case (step_sweep now rows)
  then have "distinct (map tc_id rows)" by (simp add: table_ok_def)
  from sweep_rows[OF this, of now] step_sweep show ?case
    by (auto simp: row_of_update killed_def same_task_def is_due_def is_open_def closed_against_def
        intro!: exI[of _ "tc_thread_id r"])
qed (auto simp: stmt_defs row_of_update same_task_def closed_against_def dest: row_of_Some
      intro!: exI[of _ "tc_thread_id r"])

lemma task_run_row:
  assumes "task_run ss rows rows'" "table_ok rows" "row_of i rows = Some r" "SDelete i \<notin> set ss"
  shows "\<exists>r'. row_of i rows' = Some r' \<and> same_task r r'
     \<and> (closed_against i ss r \<longrightarrow> (\<exists>th. r' = r\<lparr>tc_thread_id := th\<rparr>))"
  using assms
proof (induction rule: task_run.induct)
  case (run_none rows)
  then show ?case by (auto simp: same_task_def intro!: exI[of _ "tc_thread_id r"])
next
  case (run_step ss rows rows' s rows'')
  then obtain r' where r': "row_of i rows' = Some r'" "same_task r r'"
      "closed_against i ss r \<longrightarrow> (\<exists>th. r' = r\<lparr>tc_thread_id := th\<rparr>)"
    by auto
  have "table_ok rows'" using run_step by (auto intro: task_run_ok)
  from task_step_row[OF run_step(2) this r'(1)] run_step.prems obtain r'' where r'':
      "row_of i rows'' = Some r''" "same_task r' r''"
      "closed_against i [s] r' \<longrightarrow> (\<exists>th. r'' = r'\<lparr>tc_thread_id := th\<rparr>)"
    by auto
  have "\<exists>th. r'' = r\<lparr>tc_thread_id := th\<rparr>" if "closed_against i (ss @ [s]) r"
  proof -
    from that have closed: "closed_against i ss r" "closed_against i [s] r"
      by (auto simp: closed_against_def)
    with r'(3) obtain th where th: "r' = r\<lparr>tc_thread_id := th\<rparr>" by blast
    with closed(2) have "closed_against i [s] r'" by (simp add: closed_against_def)
    with r''(3) th show ?thesis by auto
  qed
  then show ?case using r'(2) r''(1,2) by (auto simp: same_task_def)
qed

section \<open>The handlers on a row\<close>

lemma load_task_row:
  assumes "distinct (map tc_id rows)"
  shows "load_task de i tenant rows =
     (case row_of i rows of
        Some r \<Rightarrow> if tc_poster r = tenant \<or> tc_recipient r = tenant then Some (task_from_row de r) else None
      | None \<Rightarrow> None)"
proof (cases "row_of i rows")
  case None
  then have "find (\<lambda>r. tc_id r = i \<and> (tc_poster r = tenant \<or> tc_recipient r = tenant)) rows = None"
    by (auto simp: row_of_None find_None_iff)
  with None show ?thesis by (simp add: load_task_def)
next
  case (Some r)
  have "find (\<lambda>r. tc_id r = i \<and> P r) rows = (if P r then Some r else None)" for P
    using Some assms
  proof (induction rows)
    case (Cons x rows)
    then have "tc_id x = i \<Longrightarrow> find (\<lambda>r. tc_id r = i \<and> P r) rows = None"
      by (auto simp: find_None_iff) (metis image_eqI)
    with Cons show ?case by (cases "tc_id x = i") (auto simp: row_of_def)
  qed (simp add: row_of_def)
  with Some show ?thesis by (simp add: load_task_def)
qed

lemma load_as_recipient_row:
  assumes "distinct (map tc_id rows)"
  shows "load_as_recipient de i tenant rows =
     (case row_of i rows of
        Some r \<Rightarrow> if tc_recipient r = tenant then Inr (task_from_row de r) else Inl task_not_found
      | None \<Rightarrow> Inl task_not_found)"
  by (simp add: load_as_recipient_def load_task_row[OF assms] task_from_row_def split: option.splits)

lemma claim_update_row:
  assumes "distinct (map tc_id rows)"
  shows "fst (claim_update now i tenant rows) =
      (case row_of i rows of Some r \<Rightarrow> if tc_recipient r = tenant \<and> tc_status r = ''posted'' then 1 else 0 | None \<Rightarrow> 0)"
    and "row_of i (snd (claim_update now i tenant rows)) =
      map_option (\<lambda>r. if tc_recipient r = tenant \<and> tc_status r = ''posted''
        then r\<lparr>tc_status := ''claimed'', tc_claimed_unix := Some now\<rparr> else r) (row_of i rows)"
    and "distinct (map tc_id (snd (claim_update now i tenant rows)))"
  using assms length_where[OF assms, of i "\<lambda>r. tc_recipient r = tenant \<and> tc_status r = ''posted''"]
  by (auto simp: claim_update_def update_where_def row_of_update map_id_update dest: row_of_Some
      split: option.splits simp del: map_map)

lemma complete_update_row:
  assumes "distinct (map tc_id rows)"
  shows "fst (complete_update now i tenant res rows) =
      (case row_of i rows of Some r \<Rightarrow> if tc_recipient r = tenant \<and> tc_status r = ''claimed'' then 1 else 0 | None \<Rightarrow> 0)"
    and "row_of i (snd (complete_update now i tenant res rows)) =
      map_option (\<lambda>r. if tc_recipient r = tenant \<and> tc_status r = ''claimed''
        then r\<lparr>tc_status := ''done'', tc_result_json := Some res, tc_done_unix := Some now\<rparr> else r) (row_of i rows)"
    and "distinct (map tc_id (snd (complete_update now i tenant res rows)))"
  using assms length_where[OF assms, of i "\<lambda>r. tc_recipient r = tenant \<and> tc_status r = ''claimed''"]
  by (auto simp: complete_update_def update_where_def row_of_update map_id_update dest: row_of_Some
      split: option.splits simp del: map_map)

definition replace_row :: "string \<Rightarrow> 't task_rec \<Rightarrow> 't task_rec list \<Rightarrow> 't task_rec list" where
  "replace_row i r' rows = map (\<lambda>r. if tc_id r = i then r' else r) rows"

definition claimed_rec :: "int \<Rightarrow> 't task_rec \<Rightarrow> 't task_rec" where
  "claimed_rec now r = r\<lparr>tc_status := ''claimed'', tc_claimed_unix := Some now\<rparr>"

definition done_rec :: "int \<Rightarrow> 't \<Rightarrow> 't task_rec \<Rightarrow> 't task_rec" where
  "done_rec now res r = r\<lparr>tc_status := ''done'', tc_result_json := Some res, tc_done_unix := Some now\<rparr>"

lemma claimed_rec_sel [simp]:
  "tc_id (claimed_rec now r) = tc_id r" "tc_thread_id (claimed_rec now r) = tc_thread_id r"
  "tc_poster (claimed_rec now r) = tc_poster r" "tc_recipient (claimed_rec now r) = tc_recipient r"
  "tc_status (claimed_rec now r) = ''claimed''" "tc_deadline_unix (claimed_rec now r) = tc_deadline_unix r"
  "tc_payload_json (claimed_rec now r) = tc_payload_json r"
  by (simp_all add: claimed_rec_def)

lemma done_rec_sel [simp]:
  "tc_id (done_rec now res r) = tc_id r" "tc_thread_id (done_rec now res r) = tc_thread_id r"
  "tc_poster (done_rec now res r) = tc_poster r" "tc_recipient (done_rec now res r) = tc_recipient r"
  "tc_status (done_rec now res r) = ''done''" "tc_deadline_unix (done_rec now res r) = tc_deadline_unix r"
  "tc_payload_json (done_rec now res r) = tc_payload_json r" "tc_result_json (done_rec now res r) = Some res"
  by (simp_all add: done_rec_def)

lemma task_from_row_sel [simp]:
  "tr_id (task_from_row de r) = tc_id r" "tr_thread_id (task_from_row de r) = tc_thread_id r"
  "tr_poster (task_from_row de r) = tc_poster r" "tr_recipient (task_from_row de r) = tc_recipient r"
  "tr_status (task_from_row de r) = tc_status r" "tr_deadline_unix (task_from_row de r) = tc_deadline_unix r"
  "tr_payload (task_from_row de r) = (case de (tc_payload_json r) of Some v \<Rightarrow> v | None \<Rightarrow> JNull)"
  "tr_result (task_from_row de r) = Option.bind (tc_result_json r) de"
  by (simp_all add: task_from_row_def)

lemma row_unique: "distinct (map tc_id rows) \<Longrightarrow> row_of i rows = Some r \<Longrightarrow> x \<in> set rows \<Longrightarrow> tc_id x = i \<Longrightarrow> x = r"
  using row_of_mem by fastforce

lemma update_one:
  assumes "distinct (map tc_id rows)" "row_of i rows = Some r"
  shows "map (\<lambda>r. if tc_id r = i \<and> P r then f r else r) rows = (if P r then replace_row i (f r) rows else rows)"
proof -
  have "(if tc_id x = i \<and> P x then f x else x) = (if tc_id x = i then if P r then f r else r else x)"
    if "x \<in> set rows" for x
    using row_unique[OF assms that] by auto
  moreover have "(if tc_id x = i then r else x) = x" if "x \<in> set rows" for x
    using row_unique[OF assms that] by auto
  ultimately show ?thesis by (auto simp: replace_row_def intro!: map_idI cong: map_cong)
qed

lemma claim_update_eq:
  assumes "distinct (map tc_id rows)" "row_of i rows = Some r"
  shows "claim_update now i tenant rows =
    (if tc_recipient r = tenant \<and> tc_status r = ''posted'' then (1, replace_row i (claimed_rec now r) rows) else (0, rows))"
proof -
  have "fst (claim_update now i tenant rows) = (if tc_recipient r = tenant \<and> tc_status r = ''posted'' then 1 else 0)"
    using claim_update_row(1)[OF assms(1), of now i tenant] assms(2) by simp
  moreover have "snd (claim_update now i tenant rows) =
      (if tc_recipient r = tenant \<and> tc_status r = ''posted'' then replace_row i (claimed_rec now r) rows else rows)"
    using update_one[OF assms, of "\<lambda>r. tc_recipient r = tenant \<and> tc_status r = ''posted''"]
    by (simp add: claim_update_def update_where_def claimed_rec_def)
  ultimately show ?thesis by (auto simp: prod_eq_iff)
qed

lemma complete_update_eq:
  assumes "distinct (map tc_id rows)" "row_of i rows = Some r"
  shows "complete_update now i tenant res rows =
    (if tc_recipient r = tenant \<and> tc_status r = ''claimed'' then (1, replace_row i (done_rec now res r) rows) else (0, rows))"
proof -
  have "fst (complete_update now i tenant res rows) = (if tc_recipient r = tenant \<and> tc_status r = ''claimed'' then 1 else 0)"
    using complete_update_row(1)[OF assms(1), of now i tenant] assms(2) by simp
  moreover have "snd (complete_update now i tenant res rows) =
      (if tc_recipient r = tenant \<and> tc_status r = ''claimed'' then replace_row i (done_rec now res r) rows else rows)"
    using update_one[OF assms, of "\<lambda>r. tc_recipient r = tenant \<and> tc_status r = ''claimed''"]
    by (simp add: complete_update_def update_where_def done_rec_def)
  ultimately show ?thesis by (auto simp: prod_eq_iff)
qed

lemma update_absent:
  assumes "row_of i rows = None"
  shows "claim_update now i tenant rows = (0, rows)" "complete_update now i tenant res rows = (0, rows)"
  using assms by (auto simp: claim_update_def complete_update_def update_where_def row_of_None filter_empty_conv intro!: map_idI)

lemma replace_row_ids [simp]: "tc_id r' = i \<Longrightarrow> map tc_id (replace_row i r' rows) = map tc_id rows"
  by (induction rows) (auto simp: replace_row_def)

lemma row_of_replace [simp]:
  "row_of i rows = Some r \<Longrightarrow> tc_id r' = i \<Longrightarrow> row_of i (replace_row i r' rows) = Some r'"
  by (induction rows) (auto simp: row_of_def replace_row_def split: if_splits)

lemma replace_replace: "tc_id r' = i \<Longrightarrow> replace_row i r'' (replace_row i r' rows) = replace_row i r'' rows"
  by (auto simp: replace_row_def)

lemma replace_same:
  assumes "distinct (map tc_id rows)" "row_of i rows = Some r"
  shows "replace_row i r rows = rows"
  unfolding replace_row_def by (rule map_idI) (use row_unique[OF assms] in auto)

text \<open>Undoing the completion of a claimed row gives the row back.\<close>

lemma undo_completion:
  assumes "table_ok rows" "row_of i rows = Some r" "tc_recipient r = tenant" "tc_status r = ''claimed''"
  shows "complete_undo i tenant (replace_row i (done_rec now res r) rows) = rows"
proof -
  have d: "distinct (map tc_id rows)" and i: "tc_id r = i" and ok: "task_ok r"
    using assms(1,2) row_of_Some[OF assms(2)] by (auto simp: table_ok_def list_all_iff)
  let ?r = "done_rec now res r"
  have di: "tc_id ?r = i" using i by (simp add: done_rec_def)
  have row: "row_of i (replace_row i ?r rows) = Some ?r" using assms(2) di by simp
  have dd: "distinct (map tc_id (replace_row i ?r rows))" using d di by simp
  have restored: "?r\<lparr>tc_status := ''claimed'', tc_result_json := None, tc_done_unix := None\<rparr> = r"
    using ok assms(4) by (simp add: done_rec_def task_ok_def)
  have "complete_undo i tenant (replace_row i ?r rows) = replace_row i r (replace_row i ?r rows)"
    using update_one[OF dd row, of "\<lambda>r. tc_recipient r = tenant \<and> tc_status r = ''done''"
        "\<lambda>r. r\<lparr>tc_status := ''claimed'', tc_result_json := None, tc_done_unix := None\<rparr>"] assms(3) restored
    by (simp add: complete_undo_def update_where_def)
  then show ?thesis by (simp add: replace_replace[OF di] replace_same[OF d assms(2)])
qed

lemma status_parse_known:
  "status_parse ''posted'' = Some Posted" "status_parse ''claimed'' = Some Claimed"
  "status_parse ''done'' = Some Done" "status_parse ''dead'' = Some Dead"
  by (simp_all add: status_parse_def task_status_all_def)

definition completed_view :: "'t task_rec \<Rightarrow> json \<Rightarrow> bool \<Rightarrow> json" where
  "completed_view r res again =
     mk_obj [(''task_id'', JStr (tc_id r)), (''thread_id'', opt_json JStr (tc_thread_id r)),
             (''status'', JStr (status_as_str Done)), (''result'', res), (''already_complete'', JBool again)]"

definition claimed_view :: "('t \<Rightarrow> json option) \<Rightarrow> 't task_rec \<Rightarrow> json" where
  "claimed_view de r =
     mk_obj [(''task_id'', JStr (tc_id r)), (''thread_id'', opt_json JStr (tc_thread_id r)),
             (''status'', JStr (status_as_str Claimed)), (''payload'', tr_payload (task_from_row de r)),
             (''deadline_unix'', JInt (tc_deadline_unix r))]"

lemma claim_task_branches:
  assumes "table_ok rows" "arg_str args ''task_id'' = Inr i"
  shows "claim_task de now tenant args rows =
     (case row_of i rows of
        None \<Rightarrow> (Inl task_not_found, rows, None)
      | Some r \<Rightarrow>
          if tc_recipient r \<noteq> tenant then (Inl task_not_found, rows, None)
          else if tc_status r = ''posted'' then
            (Inr (claimed_view de r), replace_row i (claimed_rec now r) rows,
             reply_message (task_from_row de (claimed_rec now r)) Claimed None)
          else if tc_status r = ''claimed'' then (Inl (task_already_claimed i), rows, None)
          else (Inl (task_closed i (tc_status r)), rows, None))"
proof (cases "row_of i rows")
  case None
  then show ?thesis using assms
    by (simp add: claim_task_def update_absent load_as_recipient_row table_ok_def)
next
  case (Some r)
  have d: "distinct (map tc_id rows)" and i: "tc_id r = i" and ok: "task_ok r"
    using assms(1) row_of_Some[OF Some] by (auto simp: table_ok_def list_all_iff)
  have d': "distinct (map tc_id (replace_row i (claimed_rec now r) rows))"
    using d i by simp
  have row': "row_of i (replace_row i (claimed_rec now r) rows) = Some (claimed_rec now r)"
    using Some i by simp
  show ?thesis using Some ok
    by (auto simp: claim_task_def assms(2) claim_update_eq[OF d Some] load_as_recipient_row[OF d]
        load_as_recipient_row[OF d'] row' claimed_view_def task_ok_def status_parse_known)
qed

lemma claim_task_twice:
  assumes "table_ok rows" "arg_str args ''task_id'' = Inr i"
    and r: "row_of i rows = Some r" "tc_recipient r = tenant" "tc_status r = ''posted''"
  shows "fst (claim_task de later tenant args (fst (snd (claim_task de now tenant args rows)))) = Inl (task_already_claimed i)"
proof -
  have "table_ok (replace_row i (claimed_rec now r) rows)"
    using task_step_ok[OF step_claim assms(1), of now i tenant] claim_update_eq[OF _ r(1), of now tenant] assms(1) r
    by (simp add: table_ok_def)
  from claim_task_branches[OF this assms(2), of de later tenant] r
  show ?thesis
    using row_of_Some[OF r(1)] by (simp add: claim_task_branches[OF assms(1,2)])
qed

lemma complete_task_branches:
  assumes "table_ok rows" "arg_str args ''task_id'' = Inr i" "arg_object args ''result'' = Inr res"
  shows "complete_task ser de now reply tenant args rows =
     (case row_of i rows of
        None \<Rightarrow> (Inl task_not_found, rows)
      | Some r \<Rightarrow>
          if tc_recipient r \<noteq> tenant then (Inl task_not_found, rows)
          else if tc_status r = ''claimed'' then
            (case reply_state reply (task_from_row de (done_rec now (ser res) r)) Done (Some res) of
               Some e \<Rightarrow> (Inl e, rows)
             | None \<Rightarrow> (Inr (completed_view r res False), replace_row i (done_rec now (ser res) r) rows))
          else if tc_status r = ''done'' then
            (Inr (completed_view r (opt_json id (Option.bind (tc_result_json r) de)) True), rows)
          else if tc_status r = ''posted'' then (Inl (task_not_claimed i), rows)
          else (Inl (task_closed i (tc_status r)), rows))"
proof (cases "row_of i rows")
  case None
  then show ?thesis using assms
    by (simp add: complete_task_def update_absent load_as_recipient_row table_ok_def)
next
  case (Some r)
  have d: "distinct (map tc_id rows)" and i: "tc_id r = i" and ok: "task_ok r"
    using assms(1) row_of_Some[OF Some] by (auto simp: table_ok_def list_all_iff)
  have d': "distinct (map tc_id (replace_row i (done_rec now (ser res) r) rows))"
    using d i by simp
  have row': "row_of i (replace_row i (done_rec now (ser res) r) rows) = Some (done_rec now (ser res) r)"
    using Some i by simp
  show ?thesis using Some ok undo_completion[OF assms(1) Some, of tenant now "ser res"]
    by (auto simp: complete_task_def assms(2,3) complete_update_eq[OF d Some] load_as_recipient_row[OF d]
        load_as_recipient_row[OF d'] row' completed_view_def task_ok_def status_parse_known split: option.splits)
qed

lemma link_new:
  assumes "i \<notin> tc_id ` set rows"
  shows "link_thread i th (insert_task i a b c d e f rows) =
    rows @ [(last (insert_task i a b c d e f rows))\<lparr>tc_thread_id := Some th\<rparr>]"
proof -
  have "map (\<lambda>r. if tc_id r = i then r\<lparr>tc_thread_id := Some th\<rparr> else r) rows = rows"
    using assms by (auto intro!: map_idI)
  then show ?thesis by (simp add: link_thread_def update_where_def insert_task_def)
qed

lemma delete_new: "i \<notin> tc_id ` set rows \<Longrightarrow> tc_id r = i \<Longrightarrow> delete_task i (rows @ [r]) = rows"
  by (auto simp: delete_task_def image_iff intro!: filter_True)

lemma delete_linked:
  assumes "i \<notin> tc_id ` set rows"
  shows "delete_task i (insert_task i a b c d e f rows) = rows"
    and "delete_task i (link_thread i th (insert_task i a b c d e f rows)) = rows"
  unfolding link_new[OF assms] using delete_new[OF assms] by (simp_all add: insert_task_def)

lemma post_args_bounds:
  "post_args args = Inr (to_addr, payload, s) \<Longrightarrow> deadline_s_min \<le> s \<and> s \<le> deadline_s_max \<and> is_object payload"
  by (auto simp: post_args_def arg_object_def split: sum.splits option.splits if_splits)

section \<open>Properties\<close>

text \<open>C15. Every table the statements can produce from the empty one, in any order and interleaving, is
  well formed: identifiers are unique, no row is in a status outside posted, claimed, done and dead, a
  claimed row has its claim time, a done row its claim time, its completion time and its result, a dead
  row its time and the reason \<open>deadline\<close>, and no row carries a field of a status it is not in.\<close>

theorem reachable_tasks_well_formed:
  assumes "task_run ss [] rows"
  shows "table_ok rows"
  using task_run_ok[OF assms] by (simp add: table_ok_def)

theorem reachable_tasks_well_formed_witness:
  "table_ok (snd (claim_update 1010 ''01A'' 2 (insert_task ''01A'' 1 2 ''{}'' 1000 (wrap_i64 (1000 + 60)) None [])))"
proof -
  have "task_run (([] @ [SInsert ''01A'' 1 2 ''{}'' 1000 60 None]) @ [SClaim 1010 ''01A'' 2]) []
      (snd (claim_update 1010 ''01A'' 2 (insert_task ''01A'' 1 2 ''{}'' 1000 (wrap_i64 (1000 + 60)) None [])))"
    by (rule run_step[OF run_step[OF run_none step_insert] step_claim])
      (simp_all add: deadline_s_min_def deadline_s_max_def)
  from reachable_tasks_well_formed[OF this] show ?thesis .
qed

text \<open>C8. A task's life. From a reachable table, through any statements that do not delete it, a task stays with the same parties, payload,
  times and deduplication key; and each next statement leaves it with exactly the status \<open>next_status\<close> names: a claim by its recipient
  takes it from posted to claimed, a completion by its recipient from claimed to done, an undo by its recipient from done back to claimed,
  a sweep at or after its deadline from posted or claimed to dead, and nothing else moves it. A dead task, or a done one whose completion
  nobody takes back, is the same row but for its thread whatever runs.\<close>

theorem task_life_cycle:
  assumes "task_run before [] rows" "row_of i rows = Some r"
    and "task_run ss rows rows'" "SDelete i \<notin> set ss" "task_step s rows' rows''" "s \<noteq> SDelete i"
  shows "\<exists>r' r''. row_of i rows' = Some r' \<and> same_task r r' \<and> (if closed_against i ss r then \<exists>th. r' = r\<lparr>tc_thread_id := th\<rparr> else True)
     \<and> row_of i rows'' = Some r'' \<and> same_task r r'' \<and> tc_status r'' = next_status s r'
     \<and> (tc_status r'' = tc_status r' \<or> (tc_status r', tc_status r'') \<in> set status_moves)"
proof -
  have ok: "table_ok rows" using task_run_ok[OF assms(1)] by (simp add: table_ok_def)
  from task_run_row[OF assms(3) ok assms(2,4)] obtain r' where r': "row_of i rows' = Some r'" "same_task r r'"
    and closed: "closed_against i ss r \<longrightarrow> (\<exists>th. r' = r\<lparr>tc_thread_id := th\<rparr>)" by blast
  from task_step_row[OF assms(5) task_run_ok[OF assms(3) ok] r'(1) assms(6)] obtain r'' where
    "row_of i rows'' = Some r''" "same_task r' r''" "tc_status r'' = next_status s r'" by blast
  moreover from this r'(2) have "same_task r r''" by (simp add: same_task_def)
  moreover have "if closed_against i ss r then \<exists>th. r' = r\<lparr>tc_thread_id := th\<rparr> else True" using closed by simp
  moreover have "tc_status r'' = tc_status r' \<or> (tc_status r', tc_status r'') \<in> set status_moves"
    using calculation(3) next_status_moves[of s r'] by simp
  ultimately show ?thesis using r' by blast
qed

theorem task_life_cycle_witness:
  "\<exists>r'. row_of ''01A'' (snd (claim_update 1010 ''01A'' 2 (insert_task ''01A'' 1 2 ''{}'' 1000 (wrap_i64 (1000 + 60)) None []))) = Some r'
     \<and> tc_status r' = ''claimed''"
proof -
  let ?rows = "insert_task ''01A'' 1 2 ''{}'' 1000 (wrap_i64 (1000 + 60)) None []"
  have a: "task_run ([] @ [SInsert ''01A'' 1 2 ''{}'' 1000 60 None]) [] ?rows"
    by (rule run_step[OF run_none step_insert]) (simp_all add: deadline_s_min_def deadline_s_max_def)
  have b: "task_step (SClaim 1010 ''01A'' 2) ?rows (snd (claim_update 1010 ''01A'' 2 ?rows))"
    by (rule step_claim)
  have c: "row_of ''01A'' ?rows = Some (hd ?rows)" by (simp add: row_of_def insert_task_def)
  from task_life_cycle[OF a c run_none _ b] obtain r' where
    "row_of ''01A'' (snd (claim_update 1010 ''01A'' 2 ?rows)) = Some r'" "tc_status r' = next_status (SClaim 1010 ''01A'' 2) (hd ?rows)"
    unfolding c option.inject by fastforce
  then show ?thesis by (auto simp: insert_task_def)
qed

lemma claim_task_correct_parts:
  assumes "table_ok rows" "arg_str args ''task_id'' = Inr i"
  shows "claim_task de now tenant args rows =
     (case row_of i rows of
        None \<Rightarrow> (Inl task_not_found, rows, None)
      | Some r \<Rightarrow>
          if tc_recipient r \<noteq> tenant then (Inl task_not_found, rows, None)
          else if tc_status r = ''posted'' then
            (Inr (claimed_view de r), replace_row i (claimed_rec now r) rows,
             reply_message (task_from_row de (claimed_rec now r)) Claimed None)
          else if tc_status r = ''claimed'' then (Inl (task_already_claimed i), rows, None)
          else (Inl (task_closed i (tc_status r)), rows, None))"
    and "row_of i rows = Some r \<Longrightarrow> tc_recipient r = tenant \<Longrightarrow> tc_status r = ''posted'' \<Longrightarrow>
       fst (claim_task de later tenant args (fst (snd (claim_task de now tenant args rows)))) = Inl (task_already_claimed i)"
  by (rule claim_task_branches[OF assms], rule claim_task_twice[OF assms])

text \<open>C9. \<open>host.task.claim\<close> on every branch. An unknown task and a task addressed to someone else answer
  the same and change nothing; a posted task becomes claimed, and only its row changes; a claimed one is
  refused as already claimed and a done or dead one as closed, with nothing changed. So of two claims
  exactly one wins: after a claim that succeeded, the recipient's next claim is refused.\<close>

theorem claim_task_correct:
  assumes "table_ok rows" "arg_str args ''task_id'' = Inr i"
  shows "(claim_task de now tenant args rows =
     (case row_of i rows of
        None \<Rightarrow> (Inl task_not_found, rows, None)
      | Some r \<Rightarrow>
          if tc_recipient r \<noteq> tenant then (Inl task_not_found, rows, None)
          else if tc_status r = ''posted'' then
            (Inr (claimed_view de r), replace_row i (claimed_rec now r) rows,
             reply_message (task_from_row de (claimed_rec now r)) Claimed None)
          else if tc_status r = ''claimed'' then (Inl (task_already_claimed i), rows, None)
          else (Inl (task_closed i (tc_status r)), rows, None)))
    \<and> (row_of i rows = Some r \<longrightarrow> tc_recipient r = tenant \<longrightarrow> tc_status r = ''posted'' \<longrightarrow>
       fst (claim_task de later tenant args (fst (snd (claim_task de now tenant args rows)))) = Inl (task_already_claimed i))"
  using claim_task_correct_parts[OF assms] by blast

definition thread_gone :: app_error where
  "thread_gone = Structured ''thread_not_found'' ''no thread found for that id'' (mk_obj [])"

definition sample_task :: "json task_rec" where
  "sample_task =
     \<lparr>tc_id = ''01A'', tc_thread_id = Some ''th'', tc_poster = 1, tc_recipient = 2, tc_status = ''posted'',
      tc_payload_json = mk_obj [], tc_result_json = None, tc_created_unix = 1000, tc_deadline_unix = 1060,
      tc_claimed_unix = None, tc_done_unix = None, tc_dead_unix = None, tc_dead_reason = None,
      tc_dedupe_key = None\<rparr>"

lemma sample_task_ok: "table_ok [sample_task]" "row_of ''01A'' [sample_task] = Some sample_task"
  by (simp_all add: sample_task_def table_ok_def task_ok_def row_of_def)

lemma sample_claimed_ok:
  "table_ok [claimed_rec 1010 sample_task]" "row_of ''01A'' [claimed_rec 1010 sample_task] = Some (claimed_rec 1010 sample_task)"
  by (simp_all add: sample_task_def table_ok_def task_ok_def row_of_def claimed_rec_def)

theorem claim_task_correct_witness:
  "fst (claim_task Some 1010 3 (mk_obj [(''task_id'', JStr ''01A'')]) [sample_task]) = Inl task_not_found
   \<and> fst (claim_task Some 1020 2 (mk_obj [(''task_id'', JStr ''01A'')])
       (fst (snd (claim_task Some 1010 2 (mk_obj [(''task_id'', JStr ''01A'')]) [sample_task]))))
     = Inl (task_already_claimed ''01A'')"
proof -
  have "arg_str (mk_obj [(''task_id'', JStr ''01A'')]) ''task_id'' = Inr ''01A''" by (simp add: arg_str_def)
  note correct = claim_task_correct[OF sample_task_ok(1) this]
  have sel: "tc_recipient sample_task = 2" "tc_status sample_task = ''posted''" by (simp_all add: sample_task_def)
  note other = correct[where de = Some and now = 1010 and tenant = 3, THEN conjunct1]
  note again = correct[where de = Some and now = 1010 and later = 1020, THEN conjunct2, rule_format, OF sample_task_ok(2) sel]
  show ?thesis using other again by (simp add: sample_task_ok(2) sel)
qed

text \<open>C10. \<open>host.task.complete\<close> on every branch. Only the recipient completes, and only a claimed task: it
  becomes done with the given result when its message went out, and when the message failed the table
  is left exactly as it was and the message's error is answered. A done task answers with the result it
  was completed with and \<open>already_complete\<close>, a posted one is refused as not claimed and a dead one as
  closed.\<close>

theorem complete_task_correct:
  assumes "table_ok rows" "arg_str args ''task_id'' = Inr i" "arg_object args ''result'' = Inr res"
  shows "complete_task ser de now reply tenant args rows =
     (case row_of i rows of
        None \<Rightarrow> (Inl task_not_found, rows)
      | Some r \<Rightarrow>
          if tc_recipient r \<noteq> tenant then (Inl task_not_found, rows)
          else if tc_status r = ''claimed'' then
            (case reply_state reply (task_from_row de (done_rec now (ser res) r)) Done (Some res) of
               Some e \<Rightarrow> (Inl e, rows)
             | None \<Rightarrow> (Inr (completed_view r res False), replace_row i (done_rec now (ser res) r) rows))
          else if tc_status r = ''done'' then
            (Inr (completed_view r (opt_json id (Option.bind (tc_result_json r) de)) True), rows)
          else if tc_status r = ''posted'' then (Inl (task_not_claimed i), rows)
          else (Inl (task_closed i (tc_status r)), rows))"
  by (rule complete_task_branches[OF assms])

theorem complete_task_correct_witness:
  "complete_task id Some 1020 (\<lambda>_. Some thread_gone) 2 (mk_obj [(''task_id'', JStr ''01A''), (''result'', mk_obj [])])
     [claimed_rec 1010 sample_task] = (Inl thread_gone, [claimed_rec 1010 sample_task])"
proof -
  let ?args = "mk_obj [(''task_id'', JStr ''01A''), (''result'', mk_obj [])]"
  have a: "arg_str ?args ''task_id'' = Inr ''01A''" "arg_object ?args ''result'' = Inr (mk_obj [])"
    by (simp_all add: arg_str_def arg_object_def)
  show ?thesis
    by (simp add: complete_task_correct[OF sample_claimed_ok(1) a] sample_claimed_ok(2))
      (simp add: sample_task_def reply_state_def reply_message_def)
qed

lemma already_complete_can_be_undone_parts:
  assumes "\<forall>v. de (ser v) = Some v" "table_ok rows" "row_of i rows = Some r"
    and "tc_recipient r = tenant" "tc_status r = ''claimed''"
    and "arg_str args ''task_id'' = Inr i" "arg_object args ''result'' = Inr other"
  shows "complete_task ser de later reply tenant args (snd (complete_update now i tenant (ser res) rows)) =
       (Inr (completed_view r res True), snd (complete_update now i tenant (ser res) rows))"
    and "complete_undo i tenant
           (snd (complete_task ser de later reply tenant args (snd (complete_update now i tenant (ser res) rows)))) = rows"
proof -
  have d: "distinct (map tc_id rows)" using assms(2) by (simp add: table_ok_def)
  let ?rows = "replace_row i (done_rec now (ser res) r) rows"
  have upd: "snd (complete_update now i tenant (ser res) rows) = ?rows"
    using assms(4,5) by (simp add: complete_update_eq[OF d assms(3)])
  have "table_ok ?rows"
    using task_step_ok[OF step_complete assms(2), of now i tenant "ser res"] upd by simp
  from complete_task_branches[OF this assms(6,7)] row_of_Some[OF assms(3)] assms(1,3,4)
  have again: "complete_task ser de later reply tenant args ?rows = (Inr (completed_view r res True), ?rows)"
    by (simp add: completed_view_def opt_json_def)
  then show "complete_task ser de later reply tenant args (snd (complete_update now i tenant (ser res) rows)) =
       (Inr (completed_view r res True), snd (complete_update now i tenant (ser res) rows))"
    by (simp only: upd)
  show "complete_undo i tenant
           (snd (complete_task ser de later reply tenant args (snd (complete_update now i tenant (ser res) rows)))) = rows"
    by (simp only: upd again snd_conv undo_completion[OF assms(2,3,4,5)])
qed

text \<open>A completion can be reported and then lost. While the first completion's message is still on its
  way, a second \<open>host.task.complete\<close>, whatever result it carries, is told the task is already complete,
  with the first result; if the first message then fails, the first handler's undo puts the row back to
  exactly what it was before either: claimed, with no result.\<close>

theorem already_complete_can_be_undone:
  assumes "\<forall>v. de (ser v) = Some v" "table_ok rows" "row_of i rows = Some r"
    and "tc_recipient r = tenant" "tc_status r = ''claimed''"
    and "arg_str args ''task_id'' = Inr i" "arg_object args ''result'' = Inr other"
  shows "(complete_task ser de later reply tenant args (snd (complete_update now i tenant (ser res) rows)) =
       (Inr (completed_view r res True), snd (complete_update now i tenant (ser res) rows)))
    \<and> (complete_undo i tenant
           (snd (complete_task ser de later reply tenant args (snd (complete_update now i tenant (ser res) rows)))) = rows)"
  by (rule conjI[OF already_complete_can_be_undone_parts(1)[OF assms] already_complete_can_be_undone_parts(2)[OF assms]])

theorem already_complete_can_be_undone_witness:
  "complete_undo ''01A'' 2
     (snd (complete_task id Some 1021 (\<lambda>_. None) 2 (mk_obj [(''task_id'', JStr ''01A''), (''result'', mk_obj [])])
        (snd (complete_update 1020 ''01A'' 2 (JObj [(''n'', JInt 1)]) [claimed_rec 1010 sample_task]))))
   = [claimed_rec 1010 sample_task]"
proof -
  let ?args = "mk_obj [(''task_id'', JStr ''01A''), (''result'', mk_obj [])]"
  have a: "arg_str ?args ''task_id'' = Inr ''01A''" "arg_object ?args ''result'' = Inr (mk_obj [])"
    by (simp_all add: arg_str_def arg_object_def)
  have "tc_recipient (claimed_rec 1010 sample_task) = 2" "tc_status (claimed_rec 1010 sample_task) = ''claimed''"
    by (simp_all add: sample_task_def)
  from already_complete_can_be_undone[where ser = id and de = Some, OF _ sample_claimed_ok this a, THEN conjunct2]
  show ?thesis by simp
qed

lemma sweep_correct_parts:
  assumes "table_ok rows"
  shows "fst (sweep_at now rows) = length (filter (is_due now) rows)"
    and "snd (snd (sweep_at now rows)) = map (\<lambda>r. if is_due now r then killed now r else r) rows"
    and "filter (is_due t) (snd (snd (sweep_at now rows))) = filter (\<lambda>r. now < tc_deadline_unix r) (filter (is_due t) rows)"
    and "fst (snd (sweep_at now rows)) =
       concat (map (\<lambda>r. case tc_thread_id r of
           Some thread \<Rightarrow> [dead_message thread (tc_id r) [tc_poster r, tc_recipient r]] | None \<Rightarrow> [])
         (filter (is_due now) rows))"
proof -
  have d: "distinct (map tc_id rows)" using assms by (simp add: table_ok_def)
  show "fst (sweep_at now rows) = length (filter (is_due now) rows)"
    by (simp add: sweep_at_def Let_def split: prod.splits)
  show rows': "snd (snd (sweep_at now rows)) = map (\<lambda>r. if is_due now r then killed now r else r) rows"
    by (rule sweep_rows[OF d])
  have "filter (is_due t) (map (\<lambda>r. if is_due now r then killed now r else r) rs) =
      filter (\<lambda>r. now < tc_deadline_unix r) (filter (is_due t) rs)" for rs :: "'a task_rec list"
    by (induction rs) (auto simp: is_due_def is_open_def killed_def)
  then show "filter (is_due t) (snd (snd (sweep_at now rows))) = filter (\<lambda>r. now < tc_deadline_unix r) (filter (is_due t) rows)"
    by (simp add: rows')
  show "fst (snd (sweep_at now rows)) =
       concat (map (\<lambda>r. case tc_thread_id r of
           Some thread \<Rightarrow> [dead_message thread (tc_id r) [tc_poster r, tc_recipient r]] | None \<Rightarrow> [])
         (filter (is_due now) rows))"
    by (simp add: sweep_at_def Let_def sweep_fold)
qed

text \<open>C14. The sweep at time \<open>now\<close>: it returns the number of open tasks whose deadline has come, kills exactly
  those (so none is left open past its deadline) and touches no other row, and sends one notice to both
  parties of each of them that has a thread, in the table's order.\<close>

theorem sweep_correct:
  assumes "table_ok rows"
  shows "(fst (sweep_at now rows) = length (filter (is_due now) rows))
    \<and> (snd (snd (sweep_at now rows)) = map (\<lambda>r. if is_due now r then killed now r else r) rows)
    \<and> (filter (is_due t) (snd (snd (sweep_at now rows))) = filter (\<lambda>r. now < tc_deadline_unix r) (filter (is_due t) rows))
    \<and> (fst (snd (sweep_at now rows)) =
       concat (map (\<lambda>r. case tc_thread_id r of
           Some thread \<Rightarrow> [dead_message thread (tc_id r) [tc_poster r, tc_recipient r]] | None \<Rightarrow> [])
         (filter (is_due now) rows)))"
  by (rule conjI[OF sweep_correct_parts(1)[OF assms] conjI[OF sweep_correct_parts(2)[OF assms] conjI[OF sweep_correct_parts(3)[OF assms] sweep_correct_parts(4)[OF assms]]]])

theorem sweep_correct_witness: "fst (sweep_at 1060 [sample_task]) = 1"
  by (simp add: sweep_correct[OF sample_task_ok(1), THEN conjunct1]) (simp add: is_due_def is_open_def sample_task_def)

text \<open>Posting is all or nothing. Whatever goes wrong (an argument, the quota, the address, the sending,
  a refusal by the recipient), a post that answers an error leaves the table as it was. A post that
  succeeds either leaves the table as it was (a deduplicated repeat) or appends one posted row, of that
  poster, with the thread of its message and a deadline of 60 to 86400 seconds from now, and then the
  poster had fewer open tasks than the plan allows.\<close>

theorem post_task_all_or_nothing:
  assumes "task_id \<notin> tc_id ` set rows"
    and "post_task ser de now plan cap resolve task_id send poster args rows = (answer, rows')"
  shows "case answer of
      Inl _ \<Rightarrow> rows' = rows
    | Inr _ \<Rightarrow> rows' = rows
        \<or> (\<exists>r s n. rows' = rows @ [r] \<and> tc_id r = task_id \<and> tc_poster r = poster \<and> tc_status r = ''posted''
             \<and> task_ok r \<and> tc_thread_id r \<noteq> None \<and> tc_deadline_unix r = wrap_i64 (now + s)
             \<and> deadline_s_min \<le> s \<and> s \<le> deadline_s_max \<and> cap = Some n \<and> count_open poster rows < n)"
proof (cases "post_args args")
  case (Inl e)
  with assms(2) show ?thesis by (auto simp: post_task_def)
next
  case (Inr a)
  obtain to_addr payload s where a: "a = (to_addr, payload, s)" by (cases a)
  note bounds = post_args_bounds[OF Inr[unfolded a]]
  show ?thesis using assms(2) Inr a bounds delete_linked[OF assms(1)] link_new[OF assms(1)]
    by (auto simp: post_task_def Let_def insert_task_def task_ok_def split: option.splits if_splits sum.splits list.splits prod.splits)
qed

theorem post_task_all_or_nothing_witness:
  "snd (post_task id Some 1000 ''free'' (Some 20) (\<lambda>_. Some 2) ''01B'' (\<lambda>_. Inr \<lparr>so_thread_id = ''th'', so_refused = [(''b'', ''contact_refused'')]\<rparr>) 1
     (mk_obj [(''to'', JStr ''b''), (''payload'', mk_obj []), (''deadline_s'', JInt 60)]) [sample_task]) = [sample_task]"
proof -
  let ?p = "post_task id Some 1000 ''free'' (Some 20) (\<lambda>_. Some 2) ''01B'' (\<lambda>_. Inr \<lparr>so_thread_id = ''th'', so_refused = [(''b'', ''contact_refused'')]\<rparr>) 1
     (mk_obj [(''to'', JStr ''b''), (''payload'', mk_obj []), (''deadline_s'', JInt 60)]) [sample_task]"
  have "''01B'' \<notin> tc_id ` set [sample_task]" by (simp add: sample_task_def)
  note correct = post_task_all_or_nothing[OF this]
  have "\<exists>e. fst ?p = Inl e"
    by (simp add: post_task_def post_args_def arg_str_def arg_object_def deadline_s_min_def deadline_s_max_def
        count_open_def is_open_def sample_task_def)
  then obtain e where "?p = (Inl e, snd ?p)" by (metis prod.collapse)
  from correct[OF this] show ?thesis by (simp only: sum.case)
qed
end
