(* ===== verification/Lineage.thy ===== *)
theory Lineage
  imports Json "HOL-Library.Product_Lexorder"
begin

text \<open>
  \<open>src/lineage/graph.rs\<close> and \<open>src/lineage/effects.rs\<close>: the dependency graph of a tenant's tables,
  tools, charts and so on, and what a change to one of them touches. \<open>lineage_graph\<close> is
  \<open>LineageGraph\<close>; a \<open>BTreeMap\<close> is its list of entries in key order, a \<open>BTreeSet\<close> the sorted list of its
  elements. \<open>bfs_loop\<close> is the queue loop of the breadth-first search, \<open>blast_radius\<close> the ranked and
  bounded report, \<open>trace\<close> the full one. The lemmas show that the search computes shortest distances
  and that both directions of the graph agree.
\<close>

section \<open>The graph\<close>

datatype node_kind = Table | Column | Tool | Chain | Document | Chart | Handle | Run

fun kind_as_str :: "node_kind \<Rightarrow> string" where
  "kind_as_str Table = ''table''"
| "kind_as_str Column = ''column''"
| "kind_as_str Tool = ''tool''"
| "kind_as_str Chain = ''chain''"
| "kind_as_str Document = ''document''"
| "kind_as_str Chart = ''chart''"
| "kind_as_str Handle = ''handle''"
| "kind_as_str Run = ''run''"

definition kind_parse :: "string \<Rightarrow> node_kind option" where
  "kind_parse s =
     (if s = ''table'' then Some Table
      else if s = ''column'' then Some Column
      else if s = ''tool'' then Some Tool
      else if s = ''chain'' then Some Chain
      else if s = ''document'' then Some Document
      else if s = ''chart'' then Some Chart
      else if s = ''handle'' then Some Handle
      else if s = ''run'' then Some Run
      else None)"

definition kind_all :: "node_kind list" where
  "kind_all = [Table, Column, Tool, Chain, Document, Chart, Handle, Run]"

datatype change_kind = Drop | Rename | TypeChange | Remove | Add

fun change_as_str :: "change_kind \<Rightarrow> string" where
  "change_as_str Drop = ''drop''"
| "change_as_str Rename = ''rename''"
| "change_as_str TypeChange = ''type_change''"
| "change_as_str Remove = ''remove''"
| "change_as_str Add = ''add''"

definition spellings :: "(string \<times> change_kind) list" where
  "spellings =
     [(''drop'', Drop), (''rename'', Rename), (''type_change'', TypeChange), (''typechange'', TypeChange),
      (''type-change'', TypeChange), (''remove'', Remove), (''add'', Add)]"

definition change_parse :: "string \<Rightarrow> change_kind option" where
  "change_parse s =
     map_option snd (find (\<lambda>(spelling, _). spelling = to_ascii_lowercase s) spellings)"

definition change_all :: "change_kind list" where
  "change_all = [Drop, Rename, TypeChange, Remove, Add]"

text \<open>The severities in the order their declaration gives them.\<close>

datatype severity = SevNone | Degrading | Breaking

fun severity_rank :: "severity \<Rightarrow> int" where
  "severity_rank SevNone = 0"
| "severity_rank Degrading = 1"
| "severity_rank Breaking = 2"

record lineage_node =
  ln_id :: string
  ln_kind :: node_kind
  ln_label :: string
  ln_uses :: nat
  ln_created_unix :: int
  ln_last_used_unix :: "int option"
  ln_orphaned :: bool

record impacted_node =
  im_id :: string
  im_kind :: node_kind
  im_label :: string
  im_depth :: nat
  im_effect :: string
  im_severity :: severity
  im_action :: string
  im_uses :: nat
  im_cross_domain :: bool

record trace_entry =
  te_id :: string
  te_kind :: node_kind
  te_label :: string
  te_depth :: nat
  te_evidence :: "string option"

type_synonym adjacency = "(string \<times> string list) list"

record lineage_graph =
  lg_nodes :: "(string \<times> lineage_node) list"
  lg_downstream :: adjacency
  lg_upstream :: adjacency
  lg_edge_evidence :: "((string \<times> string) \<times> string) list"

definition lineage_new :: lineage_graph where
  "lineage_new = \<lparr>lg_nodes = [], lg_downstream = [], lg_upstream = [], lg_edge_evidence = []\<rparr>"

definition upsert_node :: "lineage_node \<Rightarrow> lineage_graph \<Rightarrow> lineage_graph" where
  "upsert_node n g =
     (case map_of (lg_nodes g) (ln_id n) of
        Some existing \<Rightarrow>
          g\<lparr>lg_nodes := obj_insert (ln_id n) (existing\<lparr>ln_kind := ln_kind n, ln_label := ln_label n\<rparr>) (lg_nodes g)\<rparr>
      | None \<Rightarrow> g\<lparr>lg_nodes := obj_insert (ln_id n) n (lg_nodes g)\<rparr>)"

text \<open>\<open>BTreeSet::insert\<close>, and the neighbours of a node.\<close>

definition btset_insert :: "string \<Rightarrow> string list \<Rightarrow> string list" where
  "btset_insert x xs = (if x \<in> set xs then xs else insort x xs)"

definition children :: "adjacency \<Rightarrow> string \<Rightarrow> string list" where
  "children adj n = (case map_of adj n of Some cs \<Rightarrow> cs | None \<Rightarrow> [])"

definition add_neighbour :: "string \<Rightarrow> string \<Rightarrow> adjacency \<Rightarrow> adjacency" where
  "add_neighbour a b adj = obj_insert a (btset_insert b (children adj a)) adj"

definition add_edge :: "string \<Rightarrow> string \<Rightarrow> string \<Rightarrow> lineage_graph \<Rightarrow> lineage_graph" where
  "add_edge up down evidence g =
     g\<lparr>lg_downstream := add_neighbour up down (lg_downstream g),
       lg_upstream := add_neighbour down up (lg_upstream g),
       lg_edge_evidence := obj_insert (up, down) evidence (lg_edge_evidence g)\<rparr>"

definition node_id :: "node_kind \<Rightarrow> string \<Rightarrow> string" where
  "node_id k name = kind_as_str k @ '':'' @ name"

section \<open>The search\<close>

text \<open>One turn pops the front of the queue: a node seen before is skipped, a new one is recorded at
  its depth, and below the depth limit its unseen children join the back of the queue.\<close>

lemma children_in_adj: "set (children adj n) \<subseteq> (\<Union>p \<in> set adj. set (snd p))"
  using map_of_SomeD[of adj n] by (cases "map_of adj n") (auto simp: children_def)

function bfs_loop ::
  "adjacency \<Rightarrow> nat \<Rightarrow> (string \<times> nat) list \<Rightarrow> (string \<times> nat) list \<Rightarrow> (string \<times> nat) list" where
  "bfs_loop adj max_depth [] visited = visited"
| "bfs_loop adj max_depth ((cur, depth) # queue) visited =
     (if map_of visited cur \<noteq> None then bfs_loop adj max_depth queue visited
      else
        (let visited' = obj_insert cur depth visited in
         if max_depth \<le> depth then bfs_loop adj max_depth queue visited'
         else bfs_loop adj max_depth
           (queue @ map (\<lambda>c. (c, depth + 1)) (filter (\<lambda>c. map_of visited' c = None) (children adj cur)))
           visited'))"
  by pat_completeness auto

definition bfs_todo :: "adjacency \<Rightarrow> (string \<times> nat) list \<Rightarrow> (string \<times> nat) list \<Rightarrow> string set" where
  "bfs_todo adj queue visited = (fst ` set queue \<union> (\<Union>p \<in> set adj. set (snd p))) - fst ` set visited"

lemma bfs_todo_finite: "finite (bfs_todo adj queue visited)"
  by (simp add: bfs_todo_def)

lemma bfs_todo_visit:
  assumes "map_of visited cur = None" "fst ` set queue' \<subseteq> fst ` set queue \<union> set (children adj cur)"
  shows "card (bfs_todo adj queue' (obj_insert cur depth visited)) < card (bfs_todo adj ((cur, depth) # queue) visited)"
proof (rule psubset_card_mono[OF bfs_todo_finite])
  have "cur \<in> bfs_todo adj ((cur, depth) # queue) visited"
    using assms(1) by (simp add: bfs_todo_def map_of_eq_None_iff)
  moreover have "cur \<notin> bfs_todo adj queue' (obj_insert cur depth visited)"
    by (simp add: bfs_todo_def dom_obj_insert)
  moreover have "bfs_todo adj queue' (obj_insert cur depth visited) \<subseteq> bfs_todo adj ((cur, depth) # queue) visited"
    using assms(2) children_in_adj[of adj cur] by (auto simp: bfs_todo_def dom_obj_insert)
  ultimately show "bfs_todo adj queue' (obj_insert cur depth visited) \<subset> bfs_todo adj ((cur, depth) # queue) visited"
    by blast
qed

termination bfs_loop
proof (relation "measures [\<lambda>(adj, _, queue, visited). card (bfs_todo adj queue visited), \<lambda>(_, _, queue, _). length queue]", goal_cases)
  case (2 adj max_depth cur depth queue visited)
  have "bfs_todo adj queue visited \<subseteq> bfs_todo adj ((cur, depth) # queue) visited"
    by (auto simp: bfs_todo_def)
  then have "card (bfs_todo adj queue visited) \<le> card (bfs_todo adj ((cur, depth) # queue) visited)"
    by (rule card_mono[OF bfs_todo_finite])
  then show ?case by (auto simp: le_less)
next
  case (3 adj max_depth cur depth queue visited visited')
  then show ?case using bfs_todo_visit[of visited cur queue queue adj depth] by auto
next
  case (4 adj max_depth cur depth queue visited visited')
  then show ?case
    by (auto intro!: bfs_todo_visit)
qed simp

definition bfs :: "adjacency \<Rightarrow> string \<Rightarrow> nat \<Rightarrow> (string \<times> nat) list" where
  "bfs adj start max_depth = bfs_loop adj max_depth (map (\<lambda>c. (c, 1)) (children adj start)) []"

text \<open>\<open>effects.rs\<close>: what a change does to a consumer of each kind.\<close>

fun effect_for :: "change_kind \<Rightarrow> node_kind \<Rightarrow> string \<times> severity \<times> string" where
  "effect_for Add _ = (''added'', SevNone, ''no action needed'')"
| "effect_for Drop Table = (''removed'', SevNone, ''no action needed'')"
| "effect_for Drop Run = (''removed'', SevNone, ''no action needed; past runs are historical records'')"
| "effect_for Drop Column = (''removed'', Breaking, ''the column no longer exists once its table is dropped'')"
| "effect_for Drop Tool = (''removed'', Breaking, ''remove or rewrite the tool'' @ [CHR 0x27] @ ''s query'')"
| "effect_for Drop Chain = (''removed'', Breaking, ''remove or rewrite the chain step that reads this table'')"
| "effect_for Drop Document = (''removed'', Breaking, ''the document'' @ [CHR 0x27] @ ''s source table is gone; re-derive or delete it'')"
| "effect_for Drop Chart = (''removed'', Breaking, ''delete or repoint the chart'')"
| "effect_for Drop Handle = (''removed'', Breaking, ''invalidate the handle'')"
| "effect_for Rename Table = (''renamed'', SevNone, ''no action needed'')"
| "effect_for Rename Run = (''renamed'', SevNone, ''no action needed; past runs are historical records'')"
| "effect_for Rename Column = (''renamed'', Breaking, ''the column'' @ [CHR 0x27] @ ''s table name changed'')"
| "effect_for Rename Tool = (''renamed'', Breaking, ''update the tool'' @ [CHR 0x27] @ ''s query to the new table name'')"
| "effect_for Rename Chain = (''renamed'', Breaking, ''update the chain step'' @ [CHR 0x27] @ ''s query to the new table name'')"
| "effect_for Rename Document = (''renamed'', Breaking, ''update the document'' @ [CHR 0x27] @ ''s derived_from reference'')"
| "effect_for Rename Chart = (''renamed'', Breaking, ''repoint the chart to the new table name'')"
| "effect_for Rename Handle = (''renamed'', Breaking, ''re-materialize the handle under the new name'')"
| "effect_for TypeChange Table = (''type_changed'', SevNone, ''no action needed'')"
| "effect_for TypeChange Run = (''type_changed'', SevNone, ''no action needed; past runs are historical records'')"
| "effect_for TypeChange Column = (''type_changed'', SevNone, ''no action needed'')"
| "effect_for TypeChange Tool = (''type_changed'', Breaking, ''update the tool'' @ [CHR 0x27] @ ''s query/parsing for the new type'')"
| "effect_for TypeChange Chain = (''type_changed'', Breaking, ''update the chain step'' @ [CHR 0x27] @ ''s query/parsing for the new type'')"
| "effect_for TypeChange Document = (''type_changed'', Degrading, ''verify the document'' @ [CHR 0x27] @ ''s description still matches the new type'')"
| "effect_for TypeChange Chart = (''type_changed'', Degrading, ''verify the chart still renders with the new type'')"
| "effect_for TypeChange Handle = (''type_changed'', Degrading, ''verify the handle still renders with the new type'')"
| "effect_for Remove Table = (''column_removed'', SevNone, ''no action needed'')"
| "effect_for Remove Run = (''column_removed'', SevNone, ''no action needed; past runs are historical records'')"
| "effect_for Remove Column = (''column_removed'', SevNone, ''no action needed'')"
| "effect_for Remove Tool = (''column_removed'', Breaking, ''update the tool'' @ [CHR 0x27] @ ''s query; a column it read is gone'')"
| "effect_for Remove Chain = (''column_removed'', Breaking, ''update the chain step'' @ [CHR 0x27] @ ''s query; a column it read is gone'')"
| "effect_for Remove Document = (''column_removed'', Degrading, ''verify the document'' @ [CHR 0x27] @ ''s description still matches the remaining columns'')"
| "effect_for Remove Chart = (''column_removed'', Degrading, ''verify the chart still renders without the removed column'')"
| "effect_for Remove Handle = (''column_removed'', Degrading, ''verify the handle still renders without the removed column'')"

definition impact_of :: "lineage_graph \<Rightarrow> change_kind \<Rightarrow> string \<times> nat \<Rightarrow> impacted_node option" where
  "impact_of g change reached =
     (let (nid, depth) = reached in
      case map_of (lg_nodes g) nid of
        None \<Rightarrow> None
      | Some node \<Rightarrow>
          (let (effect, severity, action) = effect_for change (ln_kind node) in
           Some \<lparr>im_id = nid, im_kind = ln_kind node, im_label = ln_label node, im_depth = depth,
                 im_effect = effect, im_severity = severity, im_action = action, im_uses = ln_uses node,
                 im_cross_domain = False\<rparr>))"

text \<open>The comparison \<open>sort_by\<close> is given: severity and uses descending, then depth and id ascending.\<close>

definition impact_key :: "impacted_node \<Rightarrow> int \<times> int \<times> nat \<times> string" where
  "impact_key n = (- severity_rank (im_severity n), - int (im_uses n), im_depth n, im_id n)"

definition blast_radius :: "lineage_graph \<Rightarrow> string \<Rightarrow> change_kind \<Rightarrow> nat \<Rightarrow> nat \<Rightarrow> impacted_node list \<times> bool" where
  "blast_radius g i change max_depth top_n =
     (let reached = bfs (lg_downstream g) i max_depth;
          impacted = sort_key impact_key (List.map_filter (impact_of g change) reached)
      in (take top_n impacted, top_n < length impacted))"

definition trace_entry_of :: "lineage_graph \<Rightarrow> (string \<Rightarrow> string \<times> string) \<Rightarrow> string \<times> nat \<Rightarrow> trace_entry option" where
  "trace_entry_of g edge_key reached =
     (let (nid, depth) = reached in
      case map_of (lg_nodes g) nid of
        None \<Rightarrow> None
      | Some node \<Rightarrow>
          Some \<lparr>te_id = nid, te_kind = ln_kind node, te_label = ln_label node, te_depth = depth,
                te_evidence = (if depth = 1 then map_of (lg_edge_evidence g) (edge_key nid) else None)\<rparr>)"

definition trace_key :: "trace_entry \<Rightarrow> nat \<times> string" where
  "trace_key e = (te_depth e, te_id e)"

definition trace_entries :: "lineage_graph \<Rightarrow> (string \<Rightarrow> string \<times> string) \<Rightarrow> (string \<times> nat) list \<Rightarrow> trace_entry list" where
  "trace_entries g edge_key reached = sort_key trace_key (List.map_filter (trace_entry_of g edge_key) reached)"

definition trace :: "lineage_graph \<Rightarrow> string \<Rightarrow> trace_entry list \<times> trace_entry list" where
  "trace g i =
     (trace_entries g (\<lambda>nid. (nid, i)) (bfs (lg_upstream g) i u64_max),
      trace_entries g (\<lambda>nid. (i, nid)) (bfs (lg_downstream g) i u64_max))"

section \<open>Shortest distances\<close>

inductive hops :: "adjacency \<Rightarrow> string \<Rightarrow> string \<Rightarrow> nat \<Rightarrow> bool" for adj a where
  hop_one: "c \<in> set (children adj a) \<Longrightarrow> hops adj a c 1"
| hop_more: "hops adj a b n \<Longrightarrow> c \<in> set (children adj b) \<Longrightarrow> hops adj a c (Suc n)"

text \<open>A node is accounted for within \<open>b\<close> when it is recorded at that depth or less, or still unrecorded
  and waiting in the queue at that depth or less.\<close>

definition accounted :: "(string \<times> nat) list \<Rightarrow> (string \<times> nat) list \<Rightarrow> nat \<Rightarrow> string \<Rightarrow> bool" where
  "accounted queue visited b c \<longleftrightarrow>
     (case map_of visited c of Some d \<Rightarrow> d \<le> b | None \<Rightarrow> \<exists>e \<le> b. (c, e) \<in> set queue)"

definition depth_bound :: "nat \<Rightarrow> nat" where
  "depth_bound max_depth = max 1 max_depth"

definition bfs_inv :: "adjacency \<Rightarrow> string \<Rightarrow> nat \<Rightarrow> (string \<times> nat) list \<Rightarrow> (string \<times> nat) list \<Rightarrow> bool" where
  "bfs_inv adj start max_depth queue visited \<longleftrightarrow>
     (\<forall>(c, d) \<in> set queue. hops adj start c d \<and> d \<le> depth_bound max_depth)
   \<and> (\<forall>c d. map_of visited c = Some d \<longrightarrow> hops adj start c d \<and> d \<le> depth_bound max_depth)
   \<and> sorted (map snd queue)
   \<and> (\<forall>p \<in> set queue. \<forall>p' \<in> set queue. snd p \<le> Suc (snd p'))
   \<and> (\<forall>c d. map_of visited c = Some d \<longrightarrow> (\<forall>p \<in> set queue. d \<le> snd p))
   \<and> (\<forall>c \<in> set (children adj start). accounted queue visited 1 c)
   \<and> (\<forall>n d. map_of visited n = Some d \<and> d < max_depth \<longrightarrow>
        (\<forall>c \<in> set (children adj n). accounted queue visited (Suc d) c))"

lemma hop_first: "c \<in> set (children adj a) \<Longrightarrow> hops adj a c (Suc 0)"
  using hop_one by simp

lemma hops_pos: "hops adj a c n \<Longrightarrow> 0 < n"
  by (induction rule: hops.induct) auto

lemma accounted_drop:
  "accounted ((cur, depth) # queue) visited b c \<Longrightarrow> map_of visited cur \<noteq> None \<Longrightarrow> accounted queue visited b c"
  by (auto simp: accounted_def split: option.splits)

lemma accounted_visit:
  assumes "accounted ((cur, depth) # queue) visited b c" "sorted (map snd ((cur, depth) # queue))"
    and "set queue \<subseteq> set queue'" "map_of visited cur = None"
  shows "accounted queue' (obj_insert cur depth visited) b c"
proof (cases "map_of (obj_insert cur depth visited) c")
  case None
  with assms(1,3) show ?thesis by (auto simp: accounted_def split: if_splits)
next
  case (Some d)
  have "\<And>e. (c, e) \<in> set ((cur, depth) # queue) \<Longrightarrow> depth \<le> e" using assms(2) by auto
  with Some assms(1,4) have "d \<le> b" by (fastforce simp: accounted_def split: if_splits option.splits)
  with Some show ?thesis by (simp add: accounted_def)
qed

lemma bfs_inv_start:
  "bfs_inv adj start max_depth (map (\<lambda>c. (c, 1)) (children adj start)) []"
proof -
  have "sorted (map (\<lambda>c. 1 :: nat) cs)" for cs :: "string list" by (induction cs) auto
  then show ?thesis
    by (auto simp: bfs_inv_def accounted_def depth_bound_def comp_def intro: hop_first)
qed

lemma bfs_inv_drop:
  assumes inv: "bfs_inv adj start max_depth ((cur, depth) # queue) visited" and "map_of visited cur \<noteq> None"
  shows "bfs_inv adj start max_depth queue visited"
proof -
  have "accounted queue visited b c" if "accounted ((cur, depth) # queue) visited b c" for b c
    using accounted_drop[OF that assms(2)] .
  then have "\<forall>c \<in> set (children adj start). accounted queue visited 1 c"
    "\<forall>n d. map_of visited n = Some d \<and> d < max_depth \<longrightarrow> (\<forall>c \<in> set (children adj n). accounted queue visited (Suc d) c)"
    using inv unfolding bfs_inv_def by blast+
  then show ?thesis using inv unfolding bfs_inv_def by simp
qed

lemma bfs_inv_visit:
  assumes inv: "bfs_inv adj start max_depth ((cur, depth) # queue) visited"
    and new: "map_of visited cur = None"
    and queue': "queue' = queue @ map (\<lambda>c. (c, depth + 1)) cs"
    and cs: "cs = (if max_depth \<le> depth then [] else
        filter (\<lambda>c. map_of (obj_insert cur depth visited) c = None) (children adj cur))"
  shows "bfs_inv adj start max_depth queue' (obj_insert cur depth visited)"
proof -
  let ?v = "obj_insert cur depth visited"
  have cur: "hops adj start cur depth" "depth \<le> depth_bound max_depth"
    and srt: "sorted (map snd ((cur, depth) # queue))"
    and close: "\<forall>p \<in> set queue. snd p \<le> Suc depth" "\<forall>p \<in> set queue. depth \<le> snd p"
    and old: "\<And>c d. map_of visited c = Some d \<Longrightarrow> d \<le> depth"
    using inv by (auto simp: bfs_inv_def)
  have step: "hops adj start c (depth + 1) \<and> depth + 1 \<le> depth_bound max_depth" if "c \<in> set cs" for c
    using that cur(1) hop_more[of adj start cur depth c] by (auto simp: cs depth_bound_def split: if_splits)
  have seen: "d \<le> depth" if "map_of ?v c = Some d" for c d
    using that old by (auto split: if_splits)
  have depths: "sorted (map snd queue')"
  proof -
    have "sorted (map (\<lambda>c. Suc depth) xs)" for xs :: "string list" by (induction xs) auto
    then show ?thesis using srt close by (auto simp: queue' sorted_append comp_def)
  qed
  have pending: "accounted queue' ?v b c" if "accounted ((cur, depth) # queue) visited b c" for b c
    using accounted_visit[OF that srt, of queue'] new by (simp add: queue')
  have fresh: "accounted queue' ?v (Suc depth) c" if "c \<in> set (children adj cur)" "depth < max_depth" for c
  proof (cases "map_of ?v c")
    case None
    with that have "c \<in> set cs" by (auto simp: cs)
    with None show ?thesis by (auto simp: accounted_def queue')
  next
    case (Some d)
    with seen[OF Some] show ?thesis by (simp add: accounted_def)
  qed
  have range: "depth \<le> snd p \<and> snd p \<le> Suc depth" if "p \<in> set queue'" for p
    using that close by (auto simp: queue')
  have 1: "\<forall>(c, d) \<in> set queue'. hops adj start c d \<and> d \<le> depth_bound max_depth"
    using inv step by (auto simp: bfs_inv_def queue')
  have 2: "\<forall>c d. map_of ?v c = Some d \<longrightarrow> hops adj start c d \<and> d \<le> depth_bound max_depth"
    using inv cur by (auto simp: bfs_inv_def)
  have 3: "\<forall>p \<in> set queue'. \<forall>p' \<in> set queue'. snd p \<le> Suc (snd p')"
    using range by (meson Suc_le_mono le_trans)
  have 4: "\<forall>c d. map_of ?v c = Some d \<longrightarrow> (\<forall>p \<in> set queue'. d \<le> snd p)"
    using seen range by (meson le_trans)
  have 5: "\<forall>c \<in> set (children adj start). accounted queue' ?v 1 c"
    using inv pending unfolding bfs_inv_def by blast
  have 6: "\<forall>n d. map_of ?v n = Some d \<and> d < max_depth \<longrightarrow> (\<forall>c \<in> set (children adj n). accounted queue' ?v (Suc d) c)"
  proof (intro allI impI)
    fix n d assume nd: "map_of ?v n = Some d \<and> d < max_depth"
    show "\<forall>c \<in> set (children adj n). accounted queue' ?v (Suc d) c"
    proof (cases "n = cur")
      case True
      with nd fresh show ?thesis by auto
    next
      case False
      with nd have "map_of visited n = Some d \<and> d < max_depth" by simp
      then have "\<forall>c \<in> set (children adj n). accounted ((cur, depth) # queue) visited (Suc d) c"
        using inv unfolding bfs_inv_def by blast
      with pending show ?thesis by blast
    qed
  qed
  show ?thesis unfolding bfs_inv_def by (intro conjI 1 2 3 4 5 6 depths)
qed

lemma bfs_loop_inv:
  "bfs_inv adj start max_depth queue visited \<Longrightarrow> bfs_inv adj start max_depth [] (bfs_loop adj max_depth queue visited)"
proof (induction adj max_depth queue visited rule: bfs_loop.induct)
  case (2 adj max_depth cur depth queue visited)
  show ?case
  proof (cases "map_of visited cur = None")
    case False
    with 2 bfs_inv_drop show ?thesis by auto
  next
    case True
    note visit = bfs_inv_visit[OF "2.prems" True refl refl]
    show ?thesis
    proof (cases "max_depth \<le> depth")
      case le: True
      with visit have "bfs_inv adj start max_depth queue (obj_insert cur depth visited)" by simp
      with "2.IH"(2)[OF _ refl le] True le show ?thesis by simp
    next
      case gt: False
      with visit "2.IH"(3)[OF _ refl gt] True show ?thesis by simp
    qed
  qed
qed simp

lemma bfs_loop_ok: "obj_ok visited \<Longrightarrow> obj_ok (bfs_loop adj max_depth queue visited)"
proof (induction adj max_depth queue visited rule: bfs_loop.induct)
  case (2 adj max_depth cur depth queue visited)
  then show ?case using obj_ok_insert[of visited cur depth] by (simp add: Let_def)
qed simp

lemma accounted_walk:
  assumes "bfs_inv adj start max_depth [] visited" "hops adj start c n" "n \<le> depth_bound max_depth"
  shows "\<exists>d \<le> n. map_of visited c = Some d"
  using assms(2,3)
proof (induction rule: hops.induct)
  case (hop_one c)
  with assms(1) show ?case by (auto simp: bfs_inv_def accounted_def split: option.splits)
next
  case (hop_more b n c)
  then obtain d where d: "d \<le> n" "map_of visited b = Some d" by auto
  have "0 < n" using hop_more(1) by (rule hops_pos)
  with hop_more.prems d have "d < max_depth" by (simp add: depth_bound_def max_def split: if_splits)
  with assms(1) d(2) hop_more(2) have "accounted [] visited (Suc d) c" by (auto simp: bfs_inv_def)
  with d(1) show ?case by (auto simp: accounted_def split: option.splits)
qed

definition shortest :: "adjacency \<Rightarrow> string \<Rightarrow> string \<Rightarrow> nat \<Rightarrow> bool" where
  "shortest adj start c d \<longleftrightarrow> hops adj start c d \<and> (\<forall>n. hops adj start c n \<longrightarrow> d \<le> n)"

lemma bfs_shortest:
  "map_of (bfs adj start max_depth) c = Some d \<longleftrightarrow> shortest adj start c d \<and> d \<le> depth_bound max_depth"
proof -
  let ?v = "bfs adj start max_depth"
  have inv: "bfs_inv adj start max_depth [] ?v"
    unfolding bfs_def by (rule bfs_loop_inv[OF bfs_inv_start])
  have sound: "hops adj start c d \<and> d \<le> depth_bound max_depth" if "map_of ?v c = Some d" for d
    using inv that by (auto simp: bfs_inv_def)
  show ?thesis
  proof
    assume v: "map_of ?v c = Some d"
    have "d \<le> n" if "hops adj start c n" for n
    proof (rule ccontr)
      assume "\<not> d \<le> n"
      with sound[OF v] have "n \<le> depth_bound max_depth" by simp
      from accounted_walk[OF inv that this] v \<open>\<not> d \<le> n\<close> show False by auto
    qed
    with sound[OF v] show "shortest adj start c d \<and> d \<le> depth_bound max_depth" by (simp add: shortest_def)
  next
    assume s: "shortest adj start c d \<and> d \<le> depth_bound max_depth"
    then obtain e where "e \<le> d" "map_of ?v c = Some e"
      using accounted_walk[OF inv, of c d] by (auto simp: shortest_def)
    with sound[of e] s show "map_of ?v c = Some d" by (auto simp: shortest_def)
  qed
qed

lemma bfs_distinct: "distinct (map fst (bfs adj start max_depth))"
  unfolding bfs_def by (intro obj_ok_distinct bfs_loop_ok) (simp add: obj_ok_def)

lemma bfs_mem: "(c, d) \<in> set (bfs adj start max_depth) \<longleftrightarrow> shortest adj start c d \<and> d \<le> depth_bound max_depth"
  using bfs_shortest bfs_distinct map_of_eq_Some_iff by metis

section \<open>Reports\<close>

lemma hops_front: "hops adj b c n \<Longrightarrow> b \<in> set (children adj a) \<Longrightarrow> hops adj a c (Suc n)"
proof (induction rule: hops.induct)
  case (hop_one c)
  then show ?case using hop_more[OF hop_first] by simp
qed (auto intro: hop_more)

lemma set_map_filter: "set (List.map_filter f xs) = {y. \<exists>x \<in> set xs. f x = Some y}"
  by (induction xs) (auto simp: List.map_filter_def split: option.splits)

lemma distinct_map_filter:
  assumes "distinct (map fst xs)" "\<And>x y. f x = Some y \<Longrightarrow> g y = fst x"
  shows "distinct (List.map_filter f xs)"
  using assms(1)
proof (induction xs)
  case (Cons x xs)
  have "y \<notin> set (List.map_filter f xs)" if "f x = Some y" for y
  proof
    assume "y \<in> set (List.map_filter f xs)"
    then obtain x' where "x' \<in> set xs" "f x' = Some y" by (auto simp: set_map_filter)
    with assms(2)[OF that] assms(2)[of x' y] Cons.prems show False by (auto simp: rev_image_eqI)
  qed
  with Cons show ?case by (auto simp: List.map_filter_simps split: option.splits)
qed (simp add: List.map_filter_simps)

lemma impact_of_id: "impact_of g change x = Some y \<Longrightarrow> im_id y = fst x"
  by (auto simp: impact_of_def split: option.splits prod.splits)

lemma trace_entry_id: "trace_entry_of g k x = Some y \<Longrightarrow> te_id y = fst x"
  by (auto simp: trace_entry_of_def split: option.splits prod.splits)

definition impacted_set :: "lineage_graph \<Rightarrow> string \<Rightarrow> change_kind \<Rightarrow> nat \<Rightarrow> impacted_node set" where
  "impacted_set g i change max_depth =
     {y. \<exists>n d. shortest (lg_downstream g) i n d \<and> d \<le> depth_bound max_depth \<and> impact_of g change (n, d) = Some y}"

lemma impacted_list:
  "set (List.map_filter (impact_of g change) (bfs (lg_downstream g) i max_depth)) = impacted_set g i change max_depth"
  "distinct (List.map_filter (impact_of g change) (bfs (lg_downstream g) i max_depth))"
  using distinct_map_filter[of "bfs (lg_downstream g) i max_depth" "impact_of g change" im_id] bfs_distinct impact_of_id
  by (auto simp: set_map_filter impacted_set_def bfs_mem) blast

definition traced_set :: "lineage_graph \<Rightarrow> adjacency \<Rightarrow> (string \<Rightarrow> string \<times> string) \<Rightarrow> string \<Rightarrow> trace_entry set" where
  "traced_set g adj edge_key i =
     {y. \<exists>n d. shortest adj i n d \<and> d \<le> u64_max \<and> trace_entry_of g edge_key (n, d) = Some y}"

lemma trace_entries_correct:
  "set (trace_entries g k (bfs adj i u64_max)) = traced_set g adj k i"
  "distinct (trace_entries g k (bfs adj i u64_max))"
  "sorted (map trace_key (trace_entries g k (bfs adj i u64_max)))"
proof -
  have "depth_bound u64_max = u64_max" by (simp add: depth_bound_def u64_max_def)
  then show "set (trace_entries g k (bfs adj i u64_max)) = traced_set g adj k i"
    by (auto simp: trace_entries_def set_map_filter traced_set_def bfs_mem) blast
  show "distinct (trace_entries g k (bfs adj i u64_max))"
    using distinct_map_filter[of "bfs adj i u64_max" "trace_entry_of g k" te_id] bfs_distinct trace_entry_id
    by (auto simp: trace_entries_def)
qed (simp add: trace_entries_def)

section \<open>Both directions\<close>

text \<open>The graphs the operations build.\<close>

inductive built :: "lineage_graph \<Rightarrow> bool" where
  built_new: "built lineage_new"
| built_node: "built g \<Longrightarrow> built (upsert_node n g)"
| built_edge: "built g \<Longrightarrow> built (add_edge up down evidence g)"

lemma children_Nil [simp]: "children [] n = []"
  by (simp add: children_def)

lemma children_add [simp]:
  "set (children (add_neighbour a b adj) n) = (if n = a then insert b (set (children adj n)) else set (children adj n))"
  by (auto simp: children_def add_neighbour_def btset_insert_def set_insort_key split: option.splits)

lemma upsert_edges [simp]:
  "lg_downstream (upsert_node n g) = lg_downstream g" "lg_upstream (upsert_node n g) = lg_upstream g"
  "lg_edge_evidence (upsert_node n g) = lg_edge_evidence g"
  by (simp_all add: upsert_node_def split: option.splits)

lemma add_edge_parts [simp]:
  "lg_downstream (add_edge a b e g) = add_neighbour a b (lg_downstream g)"
  "lg_upstream (add_edge a b e g) = add_neighbour b a (lg_upstream g)"
  "lg_edge_evidence (add_edge a b e g) = obj_insert (a, b) e (lg_edge_evidence g)"
  by (simp_all add: add_edge_def)

lemma built_converse: "built g \<Longrightarrow> c \<in> set (children (lg_downstream g) a) \<longleftrightarrow> a \<in> set (children (lg_upstream g) c)"
  by (induction arbitrary: a c rule: built.induct) (auto simp: lineage_new_def)

lemma built_evidence: "built g \<Longrightarrow> c \<in> set (children (lg_downstream g) a) \<longleftrightarrow> map_of (lg_edge_evidence g) (a, c) \<noteq> None"
  by (induction arbitrary: a c rule: built.induct) (auto simp: lineage_new_def)

lemma hops_converse:
  assumes "\<And>a c. c \<in> set (children f a) \<longleftrightarrow> a \<in> set (children b c)"
  shows "hops f a c n \<Longrightarrow> hops b c a n"
proof (induction rule: hops.induct)
  case (hop_one c)
  with assms show ?case using hop_first by simp
next
  case (hop_more b' n c)
  with assms hops_front show ?case by blast
qed

lemma built_hops: "built g \<Longrightarrow> hops (lg_downstream g) a c n \<longleftrightarrow> hops (lg_upstream g) c a n"
  using hops_converse[of "lg_downstream g" "lg_upstream g"] hops_converse[of "lg_upstream g" "lg_downstream g"]
    built_converse[of g] by blast

section \<open>Properties\<close>

text \<open>C11. The breadth-first search returns, once each, exactly the nodes reachable from the start in at
  least one edge and at most \<open>max_depth\<close> (or one, when \<open>max_depth\<close> is 0), each with the length of the
  shortest path to it; the start is among them when it lies on a cycle.\<close>

theorem bfs_shortest_distances:
  "((c, d) \<in> set (bfs adj start max_depth) \<longleftrightarrow> shortest adj start c d \<and> d \<le> max 1 max_depth)
   \<and> distinct (map fst (bfs adj start max_depth))"
  using bfs_mem bfs_distinct by (simp add: depth_bound_def)

text \<open>The blast radius reports the worst first and hides only the mildest: with the nodes it leaves
  out, the report is, sorted by severity (breaking first), then uses, then distance, then identifier,
  exactly the known nodes downstream of the change within the depth limit; it holds \<open>top_n\<close> of them, or
  all when there are fewer, and says it is truncated exactly when it leaves some out.\<close>

theorem blast_radius_ranks:
  "\<exists>left_out.
     set (fst (blast_radius g i change max_depth top_n) @ left_out) = impacted_set g i change max_depth
   \<and> distinct (fst (blast_radius g i change max_depth top_n) @ left_out)
   \<and> sorted (map impact_key (fst (blast_radius g i change max_depth top_n) @ left_out))
   \<and> length (fst (blast_radius g i change max_depth top_n)) = min top_n (card (impacted_set g i change max_depth))
   \<and> (snd (blast_radius g i change max_depth top_n) \<longleftrightarrow> left_out \<noteq> [])"
proof -
  let ?xs = "sort_key impact_key (List.map_filter (impact_of g change) (bfs (lg_downstream g) i max_depth))"
  have r: "blast_radius g i change max_depth top_n = (take top_n ?xs, top_n < length ?xs)"
    by (simp add: blast_radius_def Let_def)
  have s: "set ?xs = impacted_set g i change max_depth" "distinct ?xs" using impacted_list by simp_all
  then have "card (impacted_set g i change max_depth) = length ?xs" using distinct_card by fastforce
  then show ?thesis unfolding r using s
    by (intro exI[of _ "drop top_n ?xs"]) (simp add: min.commute not_le)
qed

lemma trace_complete_parts:
  assumes "built g"
  shows "set (fst (trace g i)) = traced_set g (lg_upstream g) (\<lambda>n. (n, i)) i"
    and "set (snd (trace g i)) = traced_set g (lg_downstream g) (\<lambda>n. (i, n)) i"
    and "sorted (map trace_key (fst (trace g i)))" "sorted (map trace_key (snd (trace g i)))"
    and "shortest (lg_downstream g) a c d \<longleftrightarrow> shortest (lg_upstream g) c a d"
    and "shortest (lg_downstream g) a c 1 \<longleftrightarrow> map_of (lg_edge_evidence g) (a, c) \<noteq> None"
proof -
  show "set (fst (trace g i)) = traced_set g (lg_upstream g) (\<lambda>n. (n, i)) i"
    and "set (snd (trace g i)) = traced_set g (lg_downstream g) (\<lambda>n. (i, n)) i"
    and "sorted (map trace_key (fst (trace g i)))" "sorted (map trace_key (snd (trace g i)))"
    by (simp_all add: trace_def trace_entries_correct)
  show "shortest (lg_downstream g) a c d \<longleftrightarrow> shortest (lg_upstream g) c a d"
    by (simp add: shortest_def built_hops[OF assms])
  have "hops (lg_downstream g) a c (Suc 0) \<Longrightarrow> c \<in> set (children (lg_downstream g) a)"
    by (erule hops.cases) (auto dest: hops_pos)
  then have "shortest (lg_downstream g) a c 1 \<longleftrightarrow> c \<in> set (children (lg_downstream g) a)"
    using hops_pos[of "lg_downstream g" a c] hop_first[of c "lg_downstream g" a]
    by (auto simp: shortest_def Suc_le_eq)
  then show "shortest (lg_downstream g) a c 1 \<longleftrightarrow> map_of (lg_edge_evidence g) (a, c) \<noteq> None"
    using built_evidence[OF assms] by simp
qed

text \<open>A trace is complete in both directions and the two agree. Of a graph the operations built, the
  upstream and the downstream list hold exactly the known nodes from which, and to which, a path leads,
  sorted by shortest distance and identifier; a direct neighbour carries the evidence recorded for that
  edge; and a node is downstream of another at some distance exactly when that one is upstream of it at
  the same distance.\<close>

theorem trace_complete:
  assumes "built g"
  shows "(set (fst (trace g i)) = traced_set g (lg_upstream g) (\<lambda>n. (n, i)) i)
    \<and> (set (snd (trace g i)) = traced_set g (lg_downstream g) (\<lambda>n. (i, n)) i)
    \<and> (sorted (map trace_key (fst (trace g i))))
    \<and> (sorted (map trace_key (snd (trace g i))))
    \<and> (shortest (lg_downstream g) a c d \<longleftrightarrow> shortest (lg_upstream g) c a d)
    \<and> (shortest (lg_downstream g) a c 1 \<longleftrightarrow> map_of (lg_edge_evidence g) (a, c) \<noteq> None)"
  by (rule conjI[OF trace_complete_parts(1)[OF assms] conjI[OF trace_complete_parts(2)[OF assms] conjI[OF trace_complete_parts(3)[OF assms] conjI[OF trace_complete_parts(4)[OF assms] conjI[OF trace_complete_parts(5)[OF assms] trace_complete_parts(6)[OF assms]]]]]])

theorem trace_complete_witness:
  "shortest (lg_upstream (add_edge ''table:a'' ''tool:b'' ''declared'' lineage_new)) ''tool:b'' ''table:a'' 1"
proof -
  let ?g = "add_edge ''table:a'' ''tool:b'' ''declared'' lineage_new"
  have b: "built ?g" by (intro built.intros)
  have "map_of (lg_edge_evidence ?g) (''table:a'', ''tool:b'') \<noteq> None" by simp
  then show ?thesis using trace_complete[OF b, where a = "''table:a''" and c = "''tool:b''" and d = 1] by blast
qed
end
