(* ===== verification/AuditLog.thy ===== *)
theory AuditLog
  imports Auth ErrorType "HOL-Library.Product_Lexorder"
begin

text \<open>
  \<open>src/rowpolicy/audit.rs\<close>, \<open>src/audit_export.rs\<close> and the statements of \<open>src/db.rs\<close> they run: the
  hash-chained audit record of every filtered read, its verification, and the export of a tenant's three
  audit tables as one hash-chained list under a root hash.

  SHA-256 (bytes to bytes) and the JSON printer (value to bytes) are arguments. A statement that two
  different inputs were told apart holds up to a collision, so those properties conclude that the
  inputs agree or that a collision is at hand.
\<close>

section \<open>Records\<close>

definition genesis_hash :: string where
  "genesis_hash = replicate 64 CHR ''0''"

record audit_record =
  ar_id :: int
  ar_subject :: string
  ar_tenant_id :: int
  ar_plane :: string
  ar_policy_hash :: string
  ar_applied :: string
  ar_returned_count :: int
  ar_withheld_count :: "int option"
  ar_timestamp :: int
  ar_request_id :: string
  ar_prior_record_hash :: string
  ar_record_hash :: string
  ar_action :: "string option"
  ar_detail :: "string option"
  ar_acting_for :: "string option"

definition sha256_hex :: "(nat list \<Rightarrow> nat list) \<Rightarrow> nat list \<Rightarrow> string" where
  "sha256_hex sha256 bytes = to_hex (sha256 bytes)"

text \<open>The object a record's hash covers: every field but the identifier and the hash itself. An absent
  optional field is left out; of \<open>acting_for\<close> only the key and its label are kept.\<close>

definition index_or_null :: "string \<Rightarrow> json \<Rightarrow> json" where
  "index_or_null k v = (case json_get k v of Some x \<Rightarrow> x | None \<Rightarrow> JNull)"

definition record_payload :: "(string \<Rightarrow> json option) \<Rightarrow> audit_record \<Rightarrow> json" where
  "record_payload parse r =
     mk_obj ([(''subject'', JStr (ar_subject r)), (''tenant_id'', JInt (ar_tenant_id r)),
              (''plane'', JStr (ar_plane r)), (''policy_hash'', JStr (ar_policy_hash r)),
              (''applied'', JStr (ar_applied r)), (''returned_count'', JInt (ar_returned_count r)),
              (''withheld_count'', opt_json JInt (ar_withheld_count r)), (''timestamp'', JInt (ar_timestamp r)),
              (''request_id'', JStr (ar_request_id r)), (''prior_record_hash'', JStr (ar_prior_record_hash r))]
        @ (case ar_action r of Some a \<Rightarrow> [(''action'', JStr a)] | None \<Rightarrow> [])
        @ (case ar_detail r of
             Some d \<Rightarrow> [(''detail'', case parse d of Some v \<Rightarrow> v | None \<Rightarrow> JStr d)] | None \<Rightarrow> [])
        @ (case Option.bind (ar_acting_for r) parse of
             Some af \<Rightarrow> [(''acting_for'', mk_obj [(''key_id'', index_or_null ''key_id'' af),
                                                  (''label'', index_or_null ''label'' af)])]
           | None \<Rightarrow> []))"

text \<open>The three functions the hash is made of, together: the JSON parser and printer and SHA-256.\<close>

record digest_fns =
  df_parse :: "string \<Rightarrow> json option"
  df_ser :: "json \<Rightarrow> nat list"
  df_sha256 :: "nat list \<Rightarrow> nat list"

definition compute_record_hash_ext :: "digest_fns \<Rightarrow> audit_record \<Rightarrow> string" where
  "compute_record_hash_ext df r = sha256_hex (df_sha256 df) (df_ser df (record_payload (df_parse df) r))"

record chain_verify_result =
  cv_intact :: bool
  cv_first_broken_id :: "int option"

definition broken_at :: "audit_record \<Rightarrow> chain_verify_result" where
  "broken_at r = \<lparr>cv_intact = False, cv_first_broken_id = Some (ar_id r)\<rparr>"

fun verify_from :: "digest_fns \<Rightarrow> string option \<Rightarrow> audit_record list \<Rightarrow> chain_verify_result" where
  "verify_from df prior [] = \<lparr>cv_intact = True, cv_first_broken_id = None\<rparr>"
| "verify_from df prior (r # rs) =
     (if (case prior of Some expected \<Rightarrow> ar_prior_record_hash r \<noteq> expected | None \<Rightarrow> False) then broken_at r
      else if compute_record_hash_ext df r \<noteq> ar_record_hash r then broken_at r
      else verify_from df (Some (ar_record_hash r)) rs)"

definition verify_chain :: "digest_fns \<Rightarrow> audit_record list \<Rightarrow> chain_verify_result" where
  "verify_chain df rs = verify_from df None rs"

section \<open>The table\<close>

text \<open>\<open>audit_chain_append_event\<close>: the last record of the tenant gives the prior hash; reading it and the
  insert are one step of the single connection. The row identifier is the database's.\<close>

definition last_hash :: "int \<Rightarrow> audit_record list \<Rightarrow> string" where
  "last_hash tenant rows =
     (case rev (sort_key ar_id (filter (\<lambda>r. ar_tenant_id r = tenant) rows)) of
        r # _ \<Rightarrow> ar_record_hash r
      | [] \<Rightarrow> genesis_hash)"

definition audit_append :: "digest_fns \<Rightarrow> int \<Rightarrow> audit_record \<Rightarrow> audit_record list \<Rightarrow> audit_record \<times> audit_record list" where
  "audit_append df new_id event rows =
     (let r = event\<lparr>ar_id := new_id, ar_prior_record_hash := last_hash (ar_tenant_id event) rows\<rparr>;
          r = r\<lparr>ar_record_hash := compute_record_hash_ext df r\<rparr>
      in (r, rows @ [r]))"

definition audit_chain_range :: "int \<Rightarrow> int \<Rightarrow> int \<Rightarrow> audit_record list \<Rightarrow> audit_record list" where
  "audit_chain_range tenant from_id to_id rows =
     sort_key ar_id (filter (\<lambda>r. ar_tenant_id r = tenant \<and> from_id \<le> ar_id r \<and> ar_id r \<le> to_id) rows)"

text \<open>\<open>host.audit.verify\<close> without a root hash (a call with an end user is refused before this).\<close>

definition audit_verify :: "digest_fns \<Rightarrow> int \<Rightarrow> json \<Rightarrow> audit_record list \<Rightarrow> json" where
  "audit_verify df tenant args rows =
     (let from_id = (case Option.bind (json_get ''from_id'' args) as_i64 of Some i \<Rightarrow> i | None \<Rightarrow> 0);
          to_id = (case Option.bind (json_get ''to_id'' args) as_i64 of Some i \<Rightarrow> i | None \<Rightarrow> i64_max);
          result = verify_chain df (audit_chain_range tenant from_id to_id rows)
      in mk_obj [(''intact'', JBool (cv_intact result)), (''ok'', JBool (cv_intact result)),
                 (''first_broken_id'', opt_json JInt (cv_first_broken_id result))])"

text \<open>\<open>host.audit.chain\<close>: the newest records first, and how many more there are.\<close>

definition audit_chain_list ::
  "int \<Rightarrow> string option \<Rightarrow> int \<Rightarrow> int option \<Rightarrow> audit_record list \<Rightarrow> audit_record list \<times> int" where
  "audit_chain_list tenant subject lmt before_id rows =
     (let matching = filter (\<lambda>r. ar_tenant_id r = tenant
            \<and> (case subject of Some s \<Rightarrow> ar_subject r = s | None \<Rightarrow> True)
            \<and> (case before_id of Some b \<Rightarrow> ar_id r < b | None \<Rightarrow> True)) rows
      in (take (nat lmt) (rev (sort_key ar_id matching)), int (length matching)))"

definition clamp :: "int \<Rightarrow> int \<Rightarrow> int \<Rightarrow> int" where
  "clamp lo hi x = (if x < lo then lo else if hi < x then hi else x)"

definition record_view :: "(string \<Rightarrow> json option) \<Rightarrow> audit_record \<Rightarrow> json" where
  "record_view parse r =
     mk_obj ([(''id'', JInt (ar_id r)), (''subject'', JStr (ar_subject r)), (''plane'', JStr (ar_plane r)),
              (''policy_hash'', JStr (ar_policy_hash r)), (''applied'', JStr (ar_applied r)),
              (''returned_count'', JInt (ar_returned_count r)), (''withheld_count'', opt_json JInt (ar_withheld_count r)),
              (''timestamp'', JInt (ar_timestamp r)), (''request_id'', JStr (ar_request_id r))]
        @ (case ar_action r of Some a \<Rightarrow> [(''action'', JStr a)] | None \<Rightarrow> [])
        @ (case Option.bind (ar_detail r) parse of Some d \<Rightarrow> [(''detail'', d)] | None \<Rightarrow> [])
        @ (case Option.bind (ar_acting_for r) parse of Some af \<Rightarrow> [(''acting_for'', af)] | None \<Rightarrow> []))"

definition audit_chain :: "digest_fns \<Rightarrow> int \<Rightarrow> json \<Rightarrow> audit_record list \<Rightarrow> json" where
  "audit_chain df tenant args rows =
     (let subject = Option.bind (json_get ''subject'' args) as_str;
          lmt = clamp 1 500 (case Option.bind (json_get ''limit'' args) as_i64 of Some i \<Rightarrow> i | None \<Rightarrow> 50);
          before_id = Option.bind (json_get ''before_id'' args) as_i64;
          (records, total) = audit_chain_list tenant subject lmt before_id rows;
          returned = int (length records)
      in mk_obj [(''records'', JArr (map (record_view (df_parse df)) records)), (''returned_count'', JInt returned),
                 (''withheld_count'', JInt (total - returned))])"

section \<open>The export\<close>

definition export_rows_max :: int where "export_rows_max = 50000"

record raw_audit_row =
  rw_ts :: int
  rw_table :: string
  rw_id :: int
  rw_subject :: string
  rw_action :: string
  rw_detail :: json

definition from_chain :: "audit_record \<Rightarrow> raw_audit_row" where
  "from_chain r =
     \<lparr>rw_ts = ar_timestamp r, rw_table = ''audit_chain'', rw_id = ar_id r, rw_subject = ar_subject r,
      rw_action = ''filtered_read:'' @ ar_plane r,
      rw_detail = mk_obj [(''applied'', JStr (ar_applied r)), (''policy_hash'', JStr (ar_policy_hash r)),
                          (''request_id'', JStr (ar_request_id r)), (''returned_count'', JInt (ar_returned_count r)),
                          (''withheld_count'', opt_json JInt (ar_withheld_count r)),
                          (''stored_hash'', JStr (ar_record_hash r)), (''prior_stored_hash'', JStr (ar_prior_record_hash r))]\<rparr>"

record tenant_audit_row =
  ta_id :: int
  ta_tenant_id :: int
  ta_subject :: string
  ta_action :: string
  ta_detail :: "string option"
  ta_created_unix :: int

definition from_tenant :: "tenant_audit_row \<Rightarrow> raw_audit_row" where
  "from_tenant r =
     \<lparr>rw_ts = ta_created_unix r, rw_table = ''tenant_audit'', rw_id = ta_id r, rw_subject = ta_subject r,
      rw_action = ta_action r, rw_detail = opt_json JStr (ta_detail r)\<rparr>"

record oauth_audit_row =
  oa_id :: int
  oa_tenant_id :: int
  oa_ts :: int
  oa_event :: string
  oa_client_id :: "string option"
  oa_method :: "string option"
  oa_end_user_subject :: "string option"
  oa_reason :: "string option"
  oa_ip_hash :: "string option"
  oa_scopes :: "string option"

definition from_oauth :: "oauth_audit_row \<Rightarrow> raw_audit_row" where
  "from_oauth r =
     \<lparr>rw_ts = oa_ts r, rw_table = ''oauth_audit'', rw_id = oa_id r,
      rw_subject = (case oa_end_user_subject r of Some s \<Rightarrow> s | None \<Rightarrow> []), rw_action = oa_event r,
      rw_detail = mk_obj [(''client_id'', opt_json JStr (oa_client_id r)), (''method'', opt_json JStr (oa_method r)),
                          (''reason'', opt_json JStr (oa_reason r)), (''ip_hash'', opt_json JStr (oa_ip_hash r)),
                          (''scopes'', opt_json JStr (oa_scopes r))]\<rparr>"

record audit_tables =
  at_chain :: "audit_record list"
  at_tenant :: "tenant_audit_row list"
  at_oauth :: "oauth_audit_row list"

definition in_window :: "int option \<Rightarrow> int option \<Rightarrow> int \<Rightarrow> bool" where
  "in_window since until ts \<longleftrightarrow>
     (case since of None \<Rightarrow> True | Some s \<Rightarrow> s \<le> ts) \<and> (case until of None \<Rightarrow> True | Some u \<Rightarrow> ts < u)"

definition audit_export_count :: "int \<Rightarrow> int option \<Rightarrow> int option \<Rightarrow> audit_tables \<Rightarrow> int" where
  "audit_export_count tenant since until db =
     int (length (filter (\<lambda>r. ar_tenant_id r = tenant \<and> in_window since until (ar_timestamp r)) (at_chain db)))
   + int (length (filter (\<lambda>r. ta_tenant_id r = tenant \<and> in_window since until (ta_created_unix r)) (at_tenant db)))
   + int (length (filter (\<lambda>r. oa_tenant_id r = tenant \<and> in_window since until (oa_ts r)) (at_oauth db)))"

definition raw_key :: "raw_audit_row \<Rightarrow> int \<times> string \<times> int" where
  "raw_key r = (rw_ts r, rw_table r, rw_id r)"

definition audit_export_rows :: "int \<Rightarrow> int option \<Rightarrow> int option \<Rightarrow> audit_tables \<Rightarrow> raw_audit_row list" where
  "audit_export_rows tenant since until db =
     sort_key raw_key
       (map from_chain (filter (\<lambda>r. ar_tenant_id r = tenant \<and> in_window since until (ar_timestamp r)) (at_chain db))
      @ map from_tenant (filter (\<lambda>r. ta_tenant_id r = tenant \<and> in_window since until (ta_created_unix r)) (at_tenant db))
      @ map from_oauth (filter (\<lambda>r. oa_tenant_id r = tenant \<and> in_window since until (oa_ts r)) (at_oauth db)))"

record audit_line =
  al_row :: raw_audit_row
  al_prev :: string
  al_hash :: string

definition body_of :: "raw_audit_row \<Rightarrow> string \<Rightarrow> json" where
  "body_of r prev =
     mk_obj [(''ts'', JInt (rw_ts r)), (''table'', JStr (rw_table r)), (''id'', JInt (rw_id r)),
             (''subject'', JStr (rw_subject r)), (''action'', JStr (rw_action r)), (''detail'', rw_detail r),
             (''prev'', JStr prev)]"

definition line_to_value :: "audit_line \<Rightarrow> json" where
  "line_to_value l =
     (case body_of (al_row l) (al_prev l) of JObj m \<Rightarrow> JObj (obj_insert ''hash'' (JStr (al_hash l)) m) | v \<Rightarrow> v)"

definition compute_export_line_hash :: "(nat list \<Rightarrow> nat list) \<Rightarrow> string \<Rightarrow> nat list \<Rightarrow> string" where
  "compute_export_line_hash sha256 prev canonical = sha256_hex sha256 (as_bytes prev @ canonical)"

fun chain_from :: "(nat list \<Rightarrow> nat list) \<Rightarrow> (json \<Rightarrow> nat list) \<Rightarrow> string \<Rightarrow> raw_audit_row list \<Rightarrow> audit_line list" where
  "chain_from sha256 canon prev [] = []"
| "chain_from sha256 canon prev (r # rs) =
     (let hash = compute_export_line_hash sha256 prev (canon (body_of r prev)) in
      \<lparr>al_row = r, al_prev = prev, al_hash = hash\<rparr> # chain_from sha256 canon hash rs)"

definition chain_with :: "(nat list \<Rightarrow> nat list) \<Rightarrow> (json \<Rightarrow> nat list) \<Rightarrow> raw_audit_row list \<Rightarrow> audit_line list" where
  "chain_with sha256 canon rows = chain_from sha256 canon genesis_hash rows"

definition root_of :: "audit_line list \<Rightarrow> string" where
  "root_of ls = (if ls = [] then genesis_hash else al_hash (last ls))"

definition signed_message :: "string \<Rightarrow> nat \<Rightarrow> string" where
  "signed_message root_hash rows = root_hash @ show_nat rows"

fun canonical_json :: "(json \<Rightarrow> string) \<Rightarrow> json \<Rightarrow> string" where
  "canonical_json ser (JObj m) =
     ''{'' @ join '','' (map (\<lambda>k. ser (JStr k) @ '':'' @
       (case map_of (map (\<lambda>(k', v). (k', canonical_json ser v)) m) k of Some t \<Rightarrow> t | None \<Rightarrow> [])) (sort (map fst m))) @ ''}''"
| "canonical_json ser (JArr items) = ''['' @ join '','' (map (canonical_json ser) items) @ '']''"
| "canonical_json ser other = ser other"

definition chain :: "(nat list \<Rightarrow> nat list) \<Rightarrow> (json \<Rightarrow> string) \<Rightarrow> raw_audit_row list \<Rightarrow> audit_line list" where
  "chain sha256 ser rows = chain_with sha256 (\<lambda>v. as_bytes (canonical_json ser v)) rows"

record stored_export =
  se_tenant_id :: int
  se_root_hash :: string
  se_since :: "int option"
  se_until :: "int option"
  se_rows :: int
  se_created_unix :: int

definition audit_export_store :: "stored_export \<Rightarrow> stored_export list \<Rightarrow> stored_export list" where
  "audit_export_store e exports =
     (if \<exists>x \<in> set exports. se_tenant_id x = se_tenant_id e \<and> se_root_hash x = se_root_hash e then exports
      else exports @ [e])"

definition audit_export_get :: "int \<Rightarrow> string \<Rightarrow> stored_export list \<Rightarrow> stored_export option" where
  "audit_export_get tenant root_hash exports = find (\<lambda>x. se_tenant_id x = tenant \<and> se_root_hash x = root_hash) exports"

definition window_lines ::
  "(nat list \<Rightarrow> nat list) \<Rightarrow> (json \<Rightarrow> string) \<Rightarrow> int \<Rightarrow> int option \<Rightarrow> int option \<Rightarrow> int \<Rightarrow> audit_tables
     \<Rightarrow> app_error + audit_line list" where
  "window_lines sha256 ser tenant since until lmt db =
     (let count = audit_export_count tenant since until db in
      if lmt < count then
        Inl (Structured ''export_too_large''
          (show_int count @ '' audit rows in this window, over the '' @ show_int lmt @ '' row export limit'')
          (mk_obj [(''rows'', JInt count), (''max_rows'', JInt lmt),
                   (''hint'', JStr ''narrow the window: pass a later since or an earlier until'')]))
      else Inr (chain sha256 ser (audit_export_rows tenant since until db)))"

text \<open>\<open>host.audit.export\<close> up to its rendering: the window's root, which is stored with the time of the
  export, and \<open>host.audit.verify\<close> with a root hash: the chain is recomputed over the stored window.\<close>

definition export_root ::
  "(nat list \<Rightarrow> nat list) \<Rightarrow> (json \<Rightarrow> string) \<Rightarrow> int \<Rightarrow> int \<Rightarrow> int option \<Rightarrow> int option \<Rightarrow> int \<Rightarrow> audit_tables
     \<Rightarrow> stored_export list \<Rightarrow> app_error + (audit_line list \<times> stored_export list)" where
  "export_root sha256 ser now tenant since until lmt db exports =
     (case window_lines sha256 ser tenant since until lmt db of
        Inl e \<Rightarrow> Inl e
      | Inr ls \<Rightarrow>
          Inr (ls, audit_export_store
            \<lparr>se_tenant_id = tenant, se_root_hash = root_of ls, se_since = since, se_until = until,
             se_rows = int (length ls), se_created_unix = now\<rparr> exports))"

definition verify_root ::
  "(nat list \<Rightarrow> nat list) \<Rightarrow> (json \<Rightarrow> string) \<Rightarrow> int \<Rightarrow> json \<Rightarrow> audit_tables \<Rightarrow> stored_export list \<Rightarrow> app_error + json" where
  "verify_root sha256 ser tenant args db exports =
     (case Option.bind (json_get ''root_hash'' args) as_str of
        None \<Rightarrow> Inl (InvalidArgs ([CHR 0x27] @ ''root_hash'' @ [CHR 0x27] @ '' must be a string''))
      | Some root_hash \<Rightarrow>
        case audit_export_get tenant root_hash exports of
          None \<Rightarrow> Inl (Structured ''not_found'' (''no export of this tenant has root_hash '' @ root_hash)
                     (mk_obj [(''root_hash'', JStr root_hash)]))
        | Some e \<Rightarrow>
          (let through = (case se_until e of None \<Rightarrow> se_created_unix e + 1 | Some u \<Rightarrow> min u (se_created_unix e + 1)) in
           case window_lines sha256 ser tenant (se_since e) (Some through) i64_max db of
             Inl err \<Rightarrow> Inl err
           | Inr ls \<Rightarrow>
               Inr (mk_obj [(''verified'', JBool (root_of ls = root_hash \<and> int (length ls) = se_rows e)),
                            (''rows'', JInt (int (length ls))), (''through_unix'', JInt (through - 1))])))"

section \<open>What verification accepts\<close>

definition hash_ok :: "digest_fns \<Rightarrow> audit_record \<Rightarrow> bool" where
  "hash_ok df r \<longleftrightarrow> compute_record_hash_ext df r = ar_record_hash r"

definition linked :: "audit_record \<Rightarrow> audit_record \<Rightarrow> bool" where
  "linked a b \<longleftrightarrow> ar_prior_record_hash b = ar_record_hash a"

lemma verify_from_intact:
  "cv_intact (verify_from df prior rs) \<longleftrightarrow>
     list_all (hash_ok df) rs \<and> successively linked rs
     \<and> (case (prior, rs) of (Some h, r # _) \<Rightarrow> ar_prior_record_hash r = h | _ \<Rightarrow> True)"
proof (induction df prior rs rule: verify_from.induct)
  case (2 df prior r rs)
  then show ?case
    by (cases rs) (auto simp: broken_at_def hash_ok_def linked_def split: option.splits)
qed (simp split: option.splits)

lemma verify_chain_intact: "cv_intact (verify_chain df rs) \<longleftrightarrow> list_all (hash_ok df) rs \<and> successively linked rs"
  by (simp add: verify_chain_def verify_from_intact)


text \<open>Tables the appends build, with the identifiers the database hands out in ascending order.\<close>

inductive audit_table :: "digest_fns \<Rightarrow> audit_record list \<Rightarrow> bool" for df where
  audit_empty: "audit_table df []"
| audit_add: "audit_table df rows \<Longrightarrow> \<forall>r \<in> set rows. ar_id r < new_id \<Longrightarrow>
     audit_table df (snd (audit_append df new_id event rows))"

definition tenant_records :: "int \<Rightarrow> audit_record list \<Rightarrow> audit_record list" where
  "tenant_records tenant rows = filter (\<lambda>r. ar_tenant_id r = tenant) rows"

lemma tenant_records_append [simp]:
  "tenant_records t (rows @ [r]) = tenant_records t rows @ (if ar_tenant_id r = t then [r] else [])"
  by (simp add: tenant_records_def)

lemma audit_append_record:
  assumes "audit_append df i event rows = (r, rows')"
  shows "rows' = rows @ [r]" "ar_id r = i" "ar_tenant_id r = ar_tenant_id event"
    "ar_prior_record_hash r = last_hash (ar_tenant_id event) rows" "hash_ok df r"
proof -
  have "compute_record_hash_ext df (r\<lparr>ar_record_hash := h\<rparr>) = compute_record_hash_ext df r" for r h
    by (simp add: compute_record_hash_ext_def record_payload_def)
  with assms show "rows' = rows @ [r]" "ar_id r = i" "ar_tenant_id r = ar_tenant_id event"
    "ar_prior_record_hash r = last_hash (ar_tenant_id event) rows" "hash_ok df r"
    by (auto simp: audit_append_def Let_def hash_ok_def)
qed

abbreviation by_id :: "audit_record list \<Rightarrow> bool" where
  "by_id \<equiv> sorted_wrt (\<lambda>a b. ar_id a < ar_id b)"

lemma audit_table_ids: "audit_table df rows \<Longrightarrow> by_id rows"
proof (induction rule: audit_table.induct)
  case (audit_add rows new_id event)
  obtain r rows' where a: "audit_append df new_id event rows = (r, rows')" by fastforce
  from audit_append_record[OF a] audit_add a show ?case by (auto simp: sorted_wrt_append)
qed simp

lemma by_id_filter: "by_id rows \<Longrightarrow> by_id (filter P rows)"
  by (induction rows) auto

lemma by_id_sort: "by_id rows \<Longrightarrow> sort_key ar_id rows = rows"
proof -
  assume "by_id rows"
  then have "sorted (map ar_id rows)" by (induction rows) (auto intro: less_imp_le)
  then show ?thesis by (rule sort_key_id_if_sorted)
qed

lemma last_hash_sorted:
  assumes "by_id rows"
  shows "last_hash tenant rows =
    (if tenant_records tenant rows = [] then genesis_hash else ar_record_hash (last (tenant_records tenant rows)))"
  using by_id_sort[OF by_id_filter[OF assms], of "\<lambda>r. ar_tenant_id r = tenant"]
  by (cases "tenant_records tenant rows" rule: rev_cases) (simp_all add: last_hash_def tenant_records_def)

definition from_genesis :: "audit_record list \<Rightarrow> bool" where
  "from_genesis rs \<longleftrightarrow> (case rs of r # _ \<Rightarrow> ar_prior_record_hash r = genesis_hash | [] \<Rightarrow> True)"

lemma from_genesis_append [simp]:
  "from_genesis (rs @ [r]) \<longleftrightarrow> (if rs = [] then ar_prior_record_hash r = genesis_hash else from_genesis rs)"
  by (cases rs) (simp_all add: from_genesis_def)

lemma audit_table_chain:
  "audit_table df rows \<Longrightarrow> list_all (hash_ok df) (tenant_records t rows) \<and> successively linked (tenant_records t rows)
     \<and> from_genesis (tenant_records t rows)"
proof (induction rule: audit_table.induct)
  case (audit_add rows new_id event)
  obtain r rows' where a: "audit_append df new_id event rows = (r, rows')" by fastforce
  note r = audit_append_record[OF a]
  have prior: "ar_prior_record_hash r =
      (if tenant_records t rows = [] then genesis_hash else ar_record_hash (last (tenant_records t rows)))"
    if "ar_tenant_id r = t"
    using r(3,4) that last_hash_sorted[OF audit_table_ids[OF audit_add(1)], of t] by simp
  show ?case using audit_add(3) prior r(1,5) a
    by (auto simp: successively_append_iff linked_def)
qed (simp add: tenant_records_def from_genesis_def)

text \<open>A range of identifiers is a segment of the tenant's chain.\<close>

lemma filter_from: "by_id rs \<Longrightarrow> filter (\<lambda>r. lo \<le> ar_id r) rs = dropWhile (\<lambda>r. ar_id r < lo) rs"
proof (induction rs)
  case (Cons r rs)
  show ?case
  proof (cases "lo \<le> ar_id r")
    case True
    with Cons.prems have "filter (\<lambda>r. lo \<le> ar_id r) (r # rs) = r # rs" by (intro filter_True) auto
    with True show ?thesis by simp
  qed (use Cons in simp)
qed simp

lemma filter_upto: "by_id rs \<Longrightarrow> filter (\<lambda>r. ar_id r \<le> hi) rs = takeWhile (\<lambda>r. ar_id r \<le> hi) rs"
proof (induction rs)
  case (Cons r rs)
  show ?case
  proof (cases "ar_id r \<le> hi")
    case False
    with Cons.prems have "filter (\<lambda>r. ar_id r \<le> hi) (r # rs) = []" by (auto simp: filter_empty_conv)
    with False show ?thesis by simp
  qed (use Cons in simp)
qed simp

lemma range_segment:
  assumes "by_id rows"
  shows "\<exists>older newer. tenant_records t rows = older @ audit_chain_range t lo hi rows @ newer"
proof -
  let ?rs = "tenant_records t rows" and ?up = "\<lambda>r. ar_id r \<le> hi"
  have ids: "by_id ?rs" using assms by (simp add: tenant_records_def by_id_filter)
  have "audit_chain_range t lo hi rows = filter ?up (filter (\<lambda>r. lo \<le> ar_id r) ?rs)"
    using by_id_sort[OF by_id_filter[OF assms]]
    by (simp add: audit_chain_range_def tenant_records_def conj_commute conj_left_commute)
  also have "\<dots> = takeWhile ?up (dropWhile (\<lambda>r. ar_id r < lo) ?rs)"
    using filter_upto[OF by_id_filter[OF ids], of hi "\<lambda>r. lo \<le> ar_id r"] unfolding filter_from[OF ids] .
  finally have "?rs = takeWhile (\<lambda>r. ar_id r < lo) ?rs @ audit_chain_range t lo hi rows
      @ dropWhile ?up (dropWhile (\<lambda>r. ar_id r < lo) ?rs)" by simp
  then show ?thesis by blast
qed

lemma range_intact:
  assumes "audit_table df rows"
  shows "cv_intact (verify_chain df (audit_chain_range t lo hi rows))"
proof -
  obtain older newer where "tenant_records t rows = older @ audit_chain_range t lo hi rows @ newer"
    using range_segment[OF audit_table_ids[OF assms]] by blast
  with audit_table_chain[OF assms, of t] show ?thesis
    by (auto simp: verify_chain_intact successively_append_iff)
qed








section \<open>What the root of an export fixes\<close>

lemma chain_from_append:
  "chain_from sha canon prev (xs @ ys) =
     chain_from sha canon prev xs
     @ chain_from sha canon (if xs = [] then prev else al_hash (last (chain_from sha canon prev xs))) ys"
proof (induction xs arbitrary: prev)
  case (Cons x xs)
  then show ?case by (cases xs) (simp_all add: Let_def)
qed simp

lemma chain_from_length [simp]: "length (chain_from sha canon prev rows) = length rows"
  by (induction rows arbitrary: prev) (simp_all add: Let_def)

lemma chain_from_Nil [simp]: "chain_from sha canon prev rows = [] \<longleftrightarrow> rows = []"
  by (cases rows) (simp_all add: Let_def)

lemma chain_from_rows [simp]: "map al_row (chain_from sha canon prev rows) = rows"
  by (induction rows arbitrary: prev) (simp_all add: Let_def)

lemma root_snoc:
  "root_of (chain_with sha canon (rows @ [r])) =
     compute_export_line_hash sha (root_of (chain_with sha canon rows)) (canon (body_of r (root_of (chain_with sha canon rows))))"
  by (cases "rows = []") (auto simp: root_of_def chain_with_def chain_from_append Let_def)

lemma root_Nil: "root_of (chain_with sha canon []) = genesis_hash"
  by (simp add: root_of_def chain_with_def)

lemma body_of_prev: "json_get ''prev'' (body_of r p) = Some (JStr p)"
  by (simp add: body_of_def)

lemma body_of_inject: "body_of r p = body_of r' p' \<Longrightarrow> r = r' \<and> p = p'"
proof -
  assume eq: "body_of r p = body_of r' p'"
  then have g: "json_get k (body_of r p) = json_get k (body_of r' p')" for k by simp
  from g[of "''ts''"] g[of "''table''"] g[of "''id''"] g[of "''subject''"] g[of "''action''"]
    g[of "''detail''"] g[of "''prev''"]
  show "r = r' \<and> p = p'" by (simp add: body_of_def)
qed

text \<open>Collisions of the line hash: two lines told apart by neither their previous hash nor their text,
  or a line that hashes to the genesis constant.\<close>

definition line_collision :: "(nat list \<Rightarrow> nat list) \<Rightarrow> (json \<Rightarrow> nat list) \<Rightarrow> bool" where
  "line_collision sha canon \<longleftrightarrow>
     (\<exists>p v q w. (p, v) \<noteq> (q, w) \<and> compute_export_line_hash sha p (canon v) = compute_export_line_hash sha q (canon w))
   \<or> (\<exists>p v. compute_export_line_hash sha p (canon v) = genesis_hash)"

lemma root_inject:
  assumes "\<not> line_collision sha canon"
  shows "root_of (chain_with sha canon rows) = root_of (chain_with sha canon rows') \<Longrightarrow> rows = rows'"
proof (induction rows arbitrary: rows' rule: rev_induct)
  case Nil
  show ?case
  proof (cases rows' rule: rev_cases)
    case (snoc ys y)
    with Nil root_snoc[of sha canon ys y] root_Nil[of sha canon] assms show ?thesis
      unfolding line_collision_def by metis
  qed simp
next
  case (snoc r rows)
  show ?case
  proof (cases rows' rule: rev_cases)
    case Nil
    with snoc.prems root_snoc[of sha canon rows r] root_Nil[of sha canon] assms show ?thesis
      unfolding line_collision_def by metis
  next
    case (snoc ys y)
    let ?p = "root_of (chain_with sha canon rows)" and ?q = "root_of (chain_with sha canon ys)"
    have "compute_export_line_hash sha ?p (canon (body_of r ?p)) = compute_export_line_hash sha ?q (canon (body_of y ?q))"
      using snoc.prems unfolding snoc root_snoc .
    with assms have "(?p, body_of r ?p) = (?q, body_of y ?q)" unfolding line_collision_def by metis
    then have "?p = ?q" "r = y" using body_of_inject by auto
    with snoc.IH[of ys] snoc show ?thesis by simp
  qed
qed

section \<open>Properties\<close>

definition verify_answer :: "bool \<Rightarrow> int option \<Rightarrow> json" where
  "verify_answer intact broken =
     mk_obj [(''intact'', JBool intact), (''ok'', JBool intact), (''first_broken_id'', opt_json JInt broken)]"

lemma verify_answer_intact:
  assumes "cv_intact (verify_chain df rs)"
  shows "cv_first_broken_id (verify_chain df rs) = None"
proof -
  have "cv_intact (verify_from df p rs) \<Longrightarrow> cv_first_broken_id (verify_from df p rs) = None" for p
    by (induction df p rs rule: verify_from.induct) (auto simp: broken_at_def split: if_splits)
  with assms show ?thesis by (simp add: verify_chain_def)
qed

lemma audit_verify_intact:
  assumes "\<And>lo hi. cv_intact (verify_chain df (audit_chain_range t lo hi rows))"
  shows "audit_verify df t args rows = verify_answer True None"
  using assms verify_answer_intact[OF assms] by (simp add: audit_verify_def verify_answer_def Let_def)

lemma audit_appends_verify_parts:
  assumes "audit_table df rows"
  shows "audit_verify df tenant args rows = verify_answer True None"
    and "from_genesis (tenant_records tenant rows)"
  using audit_verify_intact[OF range_intact[OF assms]] audit_table_chain[OF assms] by blast+

text \<open>What the appends wrote verifies: of a table that only \<open>audit_chain_append_event\<close> has written,
  by any tenants in any order, \<open>host.audit.verify\<close> finds every range of identifiers of every tenant
  intact, and each tenant's chain starts at the genesis hash.\<close>

theorem audit_appends_verify:
  assumes "audit_table df rows"
  shows "(audit_verify df tenant args rows = verify_answer True None)
    \<and> (from_genesis (tenant_records tenant rows))"
  by (rule conjI[OF audit_appends_verify_parts(1)[OF assms] audit_appends_verify_parts(2)[OF assms]])

definition plain_fns :: digest_fns where
  "plain_fns = \<lparr>df_parse = (\<lambda>_. None), df_ser = (\<lambda>_. [0]), df_sha256 = (\<lambda>bs. bs)\<rparr>"

definition sample_read :: "int \<Rightarrow> audit_record" where
  "sample_read tenant =
     \<lparr>ar_id = 0, ar_subject = ''alice'', ar_tenant_id = tenant, ar_plane = ''sql'', ar_policy_hash = ''h'',
      ar_applied = ''1 = 0'', ar_returned_count = 0, ar_withheld_count = Some 3, ar_timestamp = 1000,
      ar_request_id = ''r1'', ar_prior_record_hash = [], ar_record_hash = [], ar_action = None,
      ar_detail = None, ar_acting_for = None\<rparr>"

definition sample_table :: "audit_record list" where
  "sample_table = snd (audit_append plain_fns 2 (sample_read 7) (snd (audit_append plain_fns 1 (sample_read 7) [])))"

lemma sample_table_ok: "audit_table plain_fns sample_table"
  unfolding sample_table_def
  by (rule audit_add[OF audit_add[OF audit_empty]]) (simp_all add: audit_append_def Let_def)

theorem audit_appends_verify_witness:
  "audit_verify plain_fns 7 (mk_obj []) sample_table = verify_answer True None"
  by (rule audit_appends_verify[OF sample_table_ok, THEN conjunct1])





text \<open>Verification does not see a missing beginning: delete a tenant's oldest records, any number of
  them, and \<open>host.audit.verify\<close> with no bounds still answers that the chain is intact, because the first
  record it reads is never compared with the genesis hash.\<close>

theorem audit_verify_misses_deleted_head:
  assumes "audit_table df rows"
  shows "audit_verify df tenant (mk_obj []) (filter (\<lambda>r. \<not> (ar_tenant_id r = tenant \<and> ar_id r \<le> k)) rows)
     = verify_answer True None"
proof (rule audit_verify_intact)
  fix lo hi
  have "audit_chain_range tenant lo hi (filter (\<lambda>r. \<not> (ar_tenant_id r = tenant \<and> ar_id r \<le> k)) rows)
      = audit_chain_range tenant (max lo (k + 1)) hi rows"
    by (auto simp: audit_chain_range_def intro!: arg_cong[of _ _ "sort_key ar_id"] filter_cong)
  then show "cv_intact (verify_chain df (audit_chain_range tenant lo hi
      (filter (\<lambda>r. \<not> (ar_tenant_id r = tenant \<and> ar_id r \<le> k)) rows)))"
    using range_intact[OF assms] by simp
qed

theorem audit_verify_misses_deleted_head_witness:
  "audit_verify plain_fns 7 (mk_obj []) (filter (\<lambda>r. \<not> (ar_tenant_id r = 7 \<and> ar_id r \<le> 1)) sample_table)
     = verify_answer True None"
  by (rule audit_verify_misses_deleted_head[OF sample_table_ok])

text \<open>The root of an export fixes every row: two exports with the same root hold the same rows, in
  every field and in the same order, unless a collision of the line hash, or a line hashing to the
  genesis constant, is at hand.\<close>

theorem export_root_fixes_rows:
  "root_of (chain sha256 ser rows) = root_of (chain sha256 ser rows') \<Longrightarrow>
     line_collision sha256 (\<lambda>v. as_bytes (canonical_json ser v)) \<or> rows = rows'"
  using root_inject unfolding chain_def by blast

theorem export_root_fixes_rows_witness:
  "line_collision (\<lambda>_. [0]) (\<lambda>v. as_bytes (canonical_json (\<lambda>_. []) v))"
proof -
  let ?r = "from_tenant \<lparr>ta_id = 1, ta_tenant_id = 7, ta_subject = ''a'', ta_action = ''key_minted'', ta_detail = None, ta_created_unix = 1000\<rparr>"
  have "root_of (chain (\<lambda>_. [0]) (\<lambda>_. []) [?r]) = root_of (chain (\<lambda>_. [0]) (\<lambda>_. []) [?r\<lparr>rw_id := 2\<rparr>])"
    by (simp add: chain_def chain_with_def root_of_def compute_export_line_hash_def sha256_hex_def Let_def)
  from export_root_fixes_rows[OF this] show ?thesis by (simp add: from_tenant_def)
qed

lemma export_rows_length: "int (length (audit_export_rows t since until db)) = audit_export_count t since until db"
  by (simp add: audit_export_rows_def audit_export_count_def)

lemma window_lines_length:
  "window_lines sha ser t since until lmt db = Inr ls \<Longrightarrow> int (length ls) = audit_export_count t since until db"
  using export_rows_length[of t since until db]
  by (auto simp: window_lines_def chain_def chain_with_def Let_def split: if_splits)

lemma export_store_get:
  assumes none: "audit_export_get (se_tenant_id e) (se_root_hash e) exports = None"
  shows "audit_export_get (se_tenant_id e) (se_root_hash e) (audit_export_store e exports) = Some e"
proof -
  have snoc: "find P (xs @ [x]) = (case find P xs of Some y \<Rightarrow> Some y | None \<Rightarrow> if P x then Some x else None)" for P xs and x :: stored_export
    by (induction xs) auto
  have "audit_export_store e exports = exports @ [e]"
    using none by (auto simp: audit_export_get_def audit_export_store_def find_None_iff)
  then show ?thesis using none by (simp add: audit_export_get_def snoc)
qed

lemma count_one_more:
  "audit_export_count t since until (db\<lparr>at_tenant := at_tenant db @ [row]\<rparr>) =
     audit_export_count t since until db
   + (if ta_tenant_id row = t \<and> in_window since until (ta_created_unix row) then 1 else 0)"
  by (simp add: audit_export_count_def)

text \<open>Verifying an export by its root counts rows written in the same second after it: when one more
  audit row of the tenant is stamped with the second the export was made in, the untouched export is
  reported as not verified.\<close>

theorem same_second_row_fails_export:
  assumes "export_root sha256 ser now tenant since None lmt db exports = Inr (ls, exports')"
    and "audit_export_get tenant (root_of ls) exports = None"
    and "audit_export_count tenant since (Some (now + 1)) db = audit_export_count tenant since None db"
    and "audit_export_count tenant since None db < i64_max"
    and "ta_tenant_id row = tenant" "ta_created_unix row = now" "in_window since None now"
  shows "verify_root sha256 ser tenant (mk_obj [(''root_hash'', JStr (root_of ls))]) (db\<lparr>at_tenant := at_tenant db @ [row]\<rparr>) exports'
     = Inr (mk_obj [(''verified'', JBool False), (''rows'', JInt (int (length ls) + 1)), (''through_unix'', JInt now)])"
proof -
  let ?db = "db\<lparr>at_tenant := at_tenant db @ [row]\<rparr>"
  let ?e = "\<lparr>se_tenant_id = tenant, se_root_hash = root_of ls, se_since = since, se_until = None,
             se_rows = int (length ls), se_created_unix = now\<rparr>"
  from assms(1) have ls: "window_lines sha256 ser tenant since None lmt db = Inr ls" and ex: "exports' = audit_export_store ?e exports"
    by (auto simp: export_root_def split: sum.splits)
  have get: "audit_export_get tenant (root_of ls) exports' = Some ?e"
    using export_store_get[of ?e exports] assms(2) by (simp add: ex)
  have count: "audit_export_count tenant since (Some (now + 1)) ?db = int (length ls) + 1"
    using assms(3,5-7) window_lines_length[OF ls] unfolding count_one_more by (simp add: in_window_def)
  then obtain ls' where ls': "window_lines sha256 ser tenant since (Some (now + 1)) i64_max ?db = Inr ls'"
    using assms(4) window_lines_length[OF ls] by (simp add: window_lines_def Let_def)
  have "int (length ls') = int (length ls) + 1" using window_lines_length[OF ls'] count by simp
  with get ls' show ?thesis by (simp add: verify_root_def)
qed

theorem same_second_row_fails_export_witness:
  "verify_root (\<lambda>_. [0]) (\<lambda>_. []) 7 (mk_obj [(''root_hash'', JStr genesis_hash)])
     (\<lparr>at_chain = [], at_tenant = [], at_oauth = []\<rparr>\<lparr>at_tenant := [] @ [\<lparr>ta_id = 1, ta_tenant_id = 7, ta_subject = ''a'', ta_action = ''key_minted'', ta_detail = None, ta_created_unix = 1000\<rparr>]\<rparr>)
     [\<lparr>se_tenant_id = 7, se_root_hash = genesis_hash, se_since = None, se_until = None, se_rows = 0, se_created_unix = 1000\<rparr>]
   = Inr (mk_obj [(''verified'', JBool False), (''rows'', JInt 1), (''through_unix'', JInt 1000)])"
proof -
  let ?db = "\<lparr>at_chain = [], at_tenant = [], at_oauth = []\<rparr>"
  have "export_root (\<lambda>_. [0]) (\<lambda>_. []) 1000 7 None None 50000 ?db [] = Inr ([],
      [\<lparr>se_tenant_id = 7, se_root_hash = genesis_hash, se_since = None, se_until = None, se_rows = 0, se_created_unix = 1000\<rparr>])"
    by (simp add: export_root_def window_lines_def audit_export_count_def audit_export_rows_def chain_def chain_with_def
        root_of_def audit_export_store_def Let_def)
  from same_second_row_fails_export[OF this, of "\<lparr>ta_id = 1, ta_tenant_id = 7, ta_subject = ''a'', ta_action = ''key_minted'', ta_detail = None, ta_created_unix = 1000\<rparr>"]
  show ?thesis
    by (simp add: audit_export_get_def audit_export_count_def in_window_def i64_max_def root_of_def)
qed
end
