(* ===== verification/RowPolicy.thy ===== *)
theory RowPolicy
  imports AuditLog
begin

text \<open>
  \<open>src/rowpolicy/policy.rs\<close>, \<open>rewrite.rs\<close> and \<open>mod.rs\<close> with the statements of \<open>src/db.rs\<close> they run: which
  rows and documents an end user of a tenant may read. \<open>compile_policy\<close> turns a policy and a subject's
  attributes into a SQL predicate with placeholders, \<open>apply_rewrite\<close> wraps the tables of a query in that
  predicate, \<open>doc_allowed\<close> decides on a document and \<open>policy_set\<close> changes a policy.

  The SQL parser is a third-party crate. Of a parsed query the code sees, through the crate's visitor,
  the aliases of the \<open>WITH\<close> clauses and the table factors, in order and at any depth: \<open>sql_query\<close> keeps
  exactly those. Whether the text of a wrapped table parses back is an argument, as are the JSON printer,
  SHA-256 and the \<open>serde\<close> forms of a target and of a rule list.
\<close>

section \<open>Policies\<close>

datatype policy_target = Table string | DocPrefix string

definition target_kinds :: "string list" where
  "target_kinds = [''table'', ''doc_prefix'']"

fun target_kind :: "policy_target \<Rightarrow> string" where
  "target_kind (Table _) = ''table''"
| "target_kind (DocPrefix _) = ''doc_prefix''"

fun target_value :: "policy_target \<Rightarrow> string" where
  "target_value (Table v) = v"
| "target_value (DocPrefix v) = v"

definition from_kind_value :: "string \<Rightarrow> string \<Rightarrow> policy_target option" where
  "from_kind_value kind v =
     (if kind = ''table'' then Some (Table v) else if kind = ''doc_prefix'' then Some (DocPrefix v) else None)"

datatype rule_op = OpEq | OpIn

fun op_as_str :: "rule_op \<Rightarrow> string" where
  "op_as_str OpEq = ''eq''"
| "op_as_str OpIn = ''in''"

datatype rule_value = Literal json | Attr string

record policy_rule =
  pr_column_or_attr :: string
  pr_op :: rule_op
  pr_value :: rule_value

record row_policy =
  rp_id :: int
  rp_tenant_id :: int
  rp_version :: int
  rp_target :: policy_target
  rp_rule :: "policy_rule list"
  rp_created_unix :: int

record security_context =
  sc_subject :: string
  sc_issuer :: "string option"
  sc_method :: string
  sc_attrs :: "(string \<times> json) list"

record compiled_policy =
  cp_rls_predicate :: string
  cp_rls_params :: "json list"
  cp_docs_prefix :: "string option"
  cp_docs_subject_allowed :: bool
  cp_policy_hash :: string

definition resolved_values :: "policy_rule \<Rightarrow> security_context \<Rightarrow> json list" where
  "resolved_values r ctx =
     (case pr_value r of
        Literal (JArr items) \<Rightarrow> items
      | Literal other \<Rightarrow> [other]
      | Attr a \<Rightarrow> (case map_of (sc_attrs ctx) a of Some v \<Rightarrow> [v] | None \<Rightarrow> []))"

definition subject_satisfies :: "policy_rule \<Rightarrow> security_context \<Rightarrow> bool" where
  "subject_satisfies r ctx =
     (case map_of (sc_attrs ctx) (pr_column_or_attr r) of
        None \<Rightarrow> False
      | Some subject_value \<Rightarrow>
          (case pr_value r of
             Literal (JArr items) \<Rightarrow> subject_value \<in> set items
           | Literal other \<Rightarrow> other = subject_value
           | Attr a \<Rightarrow> map_of (sc_attrs ctx) a = Some subject_value))"

type_synonym resolved_rule = "string \<times> string \<times> json list"

definition policy_hash :: "(json \<Rightarrow> nat list) \<Rightarrow> (nat list \<Rightarrow> nat list) \<Rightarrow> row_policy \<Rightarrow> resolved_rule list \<Rightarrow> string" where
  "policy_hash ser sha256 p resolved =
     sha256_hex sha256 (ser (mk_obj
       [(''version'', JInt (rp_version p)), (''target_kind'', JStr (target_kind (rp_target p))),
        (''target_value'', JStr (target_value (rp_target p))),
        (''resolved'', JArr (map (\<lambda>(column, op, vals).
           mk_obj [(''column_or_attr'', JStr column), (''op'', JStr op), (''resolved_value'', JArr vals)]) resolved))]))"

definition quote_column :: "string \<Rightarrow> string" where
  "quote_column c = concat (map (\<lambda>x. if x = CHR 0x22 then [CHR 0x22, CHR 0x22] else [x]) c)"

definition placeholder :: "nat \<Rightarrow> string" where
  "placeholder i = ''{p'' @ show_nat i @ ''}''"

text \<open>The loop over the resolved rules; \<open>None\<close> is its early exit on a rule with no value.\<close>

fun table_parts :: "resolved_rule list \<Rightarrow> string list \<Rightarrow> json list \<Rightarrow> (string list \<times> json list) option" where
  "table_parts [] parts params = Some (parts, params)"
| "table_parts ((column, op, vals) # rest) parts params =
     (if vals = [] then None
      else if op = ''eq'' then
        table_parts rest
          (parts @ [[CHR 0x22] @ quote_column column @ [CHR 0x22] @ '' = '' @ placeholder (length params)])
          (params @ [hd vals])
      else
        table_parts rest
          (parts @ [[CHR 0x22] @ quote_column column @ [CHR 0x22] @ '' IN (''
             @ join '', '' (map (\<lambda>i. placeholder (length params + i)) [0..<length vals]) @ '')''])
          (params @ vals))"

definition resolve_rules :: "row_policy \<Rightarrow> security_context \<Rightarrow> resolved_rule list" where
  "resolve_rules p ctx = map (\<lambda>r. (pr_column_or_attr r, op_as_str (pr_op r), resolved_values r ctx)) (rp_rule p)"

definition compile_policy ::
  "(json \<Rightarrow> nat list) \<Rightarrow> (nat list \<Rightarrow> nat list) \<Rightarrow> row_policy \<Rightarrow> security_context \<Rightarrow> compiled_policy" where
  "compile_policy ser sha256 p ctx =
     (let resolved = resolve_rules p ctx;
          hash = policy_hash ser sha256 p resolved
      in case rp_target p of
           Table _ \<Rightarrow>
             (case (if rp_rule p = [] then None else table_parts resolved [] []) of
                None \<Rightarrow>
                  \<lparr>cp_rls_predicate = ''1 = 0'', cp_rls_params = [], cp_docs_prefix = None,
                   cp_docs_subject_allowed = False, cp_policy_hash = hash\<rparr>
              | Some (parts, params) \<Rightarrow>
                  \<lparr>cp_rls_predicate = join '' AND '' parts, cp_rls_params = params, cp_docs_prefix = None,
                   cp_docs_subject_allowed = False, cp_policy_hash = hash\<rparr>)
         | DocPrefix prefix \<Rightarrow>
             \<lparr>cp_rls_predicate = ''1 = 0'', cp_rls_params = [], cp_docs_prefix = Some prefix,
              cp_docs_subject_allowed = (rp_rule p \<noteq> [] \<and> list_all (\<lambda>r. subject_satisfies r ctx) (rp_rule p)),
              cp_policy_hash = hash\<rparr>)"

definition as_value_set :: "(json \<Rightarrow> string) \<Rightarrow> json \<Rightarrow> string set" where
  "as_value_set show v = (case v of JArr items \<Rightarrow> set (map show items) | other \<Rightarrow> {show other})"

definition widens :: "(json \<Rightarrow> string) \<Rightarrow> policy_rule \<Rightarrow> policy_rule \<Rightarrow> bool" where
  "widens show old new =
     (if pr_column_or_attr old \<noteq> pr_column_or_attr new then False
      else case (pr_value old, pr_value new) of
        (Literal o_v, Literal n_v) \<Rightarrow>
          (let old_set = as_value_set show o_v; new_set = as_value_set show n_v in old_set \<subseteq> new_set \<and> new_set \<noteq> old_set)
      | _ \<Rightarrow> False)"

fun find_widening :: "(json \<Rightarrow> string) \<Rightarrow> policy_rule list \<Rightarrow> policy_rule list \<Rightarrow> (policy_rule \<times> policy_rule) option" where
  "find_widening show [] news = None"
| "find_widening show (old # olds) news =
     (case find (widens show old) news of
        Some new \<Rightarrow> Some (old, new)
      | None \<Rightarrow> find_widening show olds news)"

section \<open>Documents\<close>

text \<open>\<open>max_by_key\<close>: the last of the greatest.\<close>

definition max_by_key :: "('a \<Rightarrow> nat) \<Rightarrow> 'a list \<Rightarrow> 'a option" where
  "max_by_key f xs =
     foldl (\<lambda>best x. case best of None \<Rightarrow> Some x | Some b \<Rightarrow> if f b \<le> f x then Some x else Some b) None xs"

definition doc_allowed ::
  "(json \<Rightarrow> nat list) \<Rightarrow> (nat list \<Rightarrow> nat list) \<Rightarrow> row_policy list \<Rightarrow> string \<Rightarrow> security_context \<Rightarrow> bool" where
  "doc_allowed ser sha256 policies doc_name ctx =
     (case max_by_key (\<lambda>p. str_len (target_value (rp_target p)))
             (filter (\<lambda>p. starts_with doc_name (target_value (rp_target p))) policies) of
        Some p \<Rightarrow> cp_docs_subject_allowed (compile_policy ser sha256 p ctx)
      | None \<Rightarrow> False)"

section \<open>Queries\<close>

text \<open>A query as the visitor shows it: the \<open>WITH\<close> entries (alias and body), then what its body visits.
  \<open>Factor\<close> is a table factor naming a table (the parts of the name, and the alias); \<open>Subquery\<close> any nested
  query; \<open>Filtered\<close> the derived table the rewrite puts in a factor's place: \<open>SELECT * FROM table WHERE
  predicate\<close> under an alias.\<close>

datatype sql_query = Query "(string \<times> sql_query) list" "sql_item list"
  and sql_item = Factor "string list" "string option" | Subquery sql_query | Filtered string string string

text \<open>\<open>to_lowercase\<close> on the scalar values up to U+00FF.\<close>

definition to_lowercase :: "string \<Rightarrow> string" where
  "to_lowercase = map (\<lambda>c. let n = scalar c in
     if (65 \<le> n \<and> n \<le> 90) \<or> (192 \<le> n \<and> n \<le> 222 \<and> n \<noteq> 215) then char_of (n + 32) else c)"

definition object_name_last :: "string list \<Rightarrow> string option" where
  "object_name_last name = (if name = [] then None else Some (last name))"

fun cte_names_query :: "sql_query \<Rightarrow> string list" and cte_names_ctes :: "(string \<times> sql_query) list \<Rightarrow> string list"
  and cte_names_items :: "sql_item list \<Rightarrow> string list" and cte_names_item :: "sql_item \<Rightarrow> string list" where
  "cte_names_query (Query ctes items) = map (\<lambda>(a, _). to_lowercase a) ctes @ cte_names_ctes ctes @ cte_names_items items"
| "cte_names_ctes [] = []"
| "cte_names_ctes ((a, q) # rest) = cte_names_query q @ cte_names_ctes rest"
| "cte_names_items [] = []"
| "cte_names_items (i # rest) = cte_names_item i @ cte_names_items rest"
| "cte_names_item (Subquery q) = cte_names_query q"
| "cte_names_item (Factor _ _) = []"
| "cte_names_item (Filtered _ _ _) = []"

fun factors_query :: "sql_query \<Rightarrow> string list" and factors_ctes :: "(string \<times> sql_query) list \<Rightarrow> string list"
  and factors_items :: "sql_item list \<Rightarrow> string list" and factors_item :: "sql_item \<Rightarrow> string list" where
  "factors_query (Query ctes items) = factors_ctes ctes @ factors_items items"
| "factors_ctes [] = []"
| "factors_ctes ((a, q) # rest) = factors_query q @ factors_ctes rest"
| "factors_items [] = []"
| "factors_items (i # rest) = factors_item i @ factors_items rest"
| "factors_item (Subquery q) = factors_query q"
| "factors_item (Factor name _) = (case object_name_last name of Some t \<Rightarrow> [to_lowercase t] | None \<Rightarrow> [])"
| "factors_item (Filtered _ _ _) = []"

definition first_seen :: "string list \<Rightarrow> string list" where
  "first_seen names = foldl (\<lambda>acc n. if n \<in> set acc then acc else acc @ [n]) [] names"

definition referenced_table_names :: "sql_query \<Rightarrow> string list" where
  "referenced_table_names q = filter (\<lambda>n. n \<notin> set (cte_names_query q)) (first_seen (factors_query q))"

text \<open>\<open>str::replace\<close> with a non-empty pattern.\<close>

fun str_replace_fuel :: "nat \<Rightarrow> string \<Rightarrow> string \<Rightarrow> string \<Rightarrow> string" where
  "str_replace_fuel 0 pat rep s = s"
| "str_replace_fuel (Suc n) pat rep s =
     (case s of
        [] \<Rightarrow> []
      | c # cs \<Rightarrow>
          if starts_with s pat then rep @ str_replace_fuel n pat rep (drop (length pat) s)
          else c # str_replace_fuel n pat rep cs)"

definition str_replace :: "string \<Rightarrow> string \<Rightarrow> string \<Rightarrow> string" where
  "str_replace pat rep s = str_replace_fuel (length s) pat rep s"

record rewriter =
  rs_bindings :: "(string \<times> json) list"
  rs_occurrence :: nat
  rs_rewrote_any :: bool

text \<open>The loop over a factor's parameters: the \<open>i\<close>-th placeholder becomes a bound name of its own.\<close>

fun bind_params :: "nat \<Rightarrow> nat \<Rightarrow> json list \<Rightarrow> string \<Rightarrow> (string \<times> json) list \<Rightarrow> string \<times> (string \<times> json) list" where
  "bind_params occ i [] predicate_text bindings = (predicate_text, bindings)"
| "bind_params occ i (v # vs) predicate_text bindings =
     (let bound_name = '':rp'' @ show_nat occ @ ''_'' @ show_nat i in
      bind_params occ (Suc i) vs (str_replace (placeholder i) bound_name predicate_text) (bindings @ [(bound_name, v)]))"

datatype parse_result = ParsedQuery | ParsedOther | ParseFailed

definition rewrite_error :: "string \<Rightarrow> app_error" where
  "rewrite_error reason = Internal (''row policy rewrite failed to build a derived subquery: '' @ reason)"

definition subquery_sql :: "string \<Rightarrow> string \<Rightarrow> string" where
  "subquery_sql table predicate_text =
     ''SELECT * FROM '' @ [CHR 0x22] @ quote_column table @ [CHR 0x22] @ '' WHERE '' @ predicate_text"

definition rewrite_factor ::
  "(string \<Rightarrow> parse_result) \<Rightarrow> (string \<times> compiled_policy) list \<Rightarrow> string list \<Rightarrow> string option \<Rightarrow> rewriter
     \<Rightarrow> app_error + (rewriter \<times> sql_item)" where
  "rewrite_factor parse_sql compiled name alias st =
     (case object_name_last name of None \<Rightarrow> Inr (st, Factor name alias) | Some table_name \<Rightarrow>
      case map_of compiled (to_lowercase table_name) of None \<Rightarrow> Inr (st, Factor name alias) | Some c \<Rightarrow>
      (let (predicate_text, bindings) =
             bind_params (rs_occurrence st) 0 (cp_rls_params c) (cp_rls_predicate c) (rs_bindings st)
       in case parse_sql (subquery_sql table_name predicate_text) of
            ParsedOther \<Rightarrow> Inl (rewrite_error ''predicate did not parse back as a query'')
          | ParseFailed \<Rightarrow> Inl (rewrite_error ''predicate failed to parse'')
          | ParsedQuery \<Rightarrow>
              Inr (\<lparr>rs_bindings = bindings, rs_occurrence = Suc (rs_occurrence st), rs_rewrote_any = True\<rparr>,
                   Filtered table_name predicate_text (case alias of Some a \<Rightarrow> a | None \<Rightarrow> table_name))))"

fun rewrite_query and rewrite_ctes and rewrite_items and rewrite_item where
  "rewrite_query parse_sql compiled (Query ctes items) st =
     (case rewrite_ctes parse_sql compiled ctes st of Inl e \<Rightarrow> Inl e | Inr (st, ctes') \<Rightarrow>
      case rewrite_items parse_sql compiled items st of Inl e \<Rightarrow> Inl e | Inr (st, items') \<Rightarrow>
      Inr (st, Query ctes' items'))"
| "rewrite_ctes parse_sql compiled [] st = Inr (st, [])"
| "rewrite_ctes parse_sql compiled ((a, q) # rest) st =
     (case rewrite_query parse_sql compiled q st of Inl e \<Rightarrow> Inl e | Inr (st, q') \<Rightarrow>
      case rewrite_ctes parse_sql compiled rest st of Inl e \<Rightarrow> Inl e | Inr (st, rest') \<Rightarrow>
      Inr (st, (a, q') # rest'))"
| "rewrite_items parse_sql compiled [] st = Inr (st, [])"
| "rewrite_items parse_sql compiled (i # rest) st =
     (case rewrite_item parse_sql compiled i st of Inl e \<Rightarrow> Inl e | Inr (st, i') \<Rightarrow>
      case rewrite_items parse_sql compiled rest st of Inl e \<Rightarrow> Inl e | Inr (st, rest') \<Rightarrow>
      Inr (st, i' # rest'))"
| "rewrite_item parse_sql compiled (Subquery q) st =
     (case rewrite_query parse_sql compiled q st of Inl e \<Rightarrow> Inl e | Inr (st, q') \<Rightarrow> Inr (st, Subquery q'))"
| "rewrite_item parse_sql compiled (Factor name alias) st = rewrite_factor parse_sql compiled name alias st"
| "rewrite_item parse_sql compiled (Filtered t p a) st = Inr (st, Filtered t p a)"

definition apply_rewrite ::
  "(string \<Rightarrow> parse_result) \<Rightarrow> (string \<times> compiled_policy) list \<Rightarrow> sql_query \<Rightarrow> app_error + (rewriter \<times> sql_query)" where
  "apply_rewrite parse_sql compiled q =
     rewrite_query parse_sql compiled q \<lparr>rs_bindings = [], rs_occurrence = 0, rs_rewrote_any = False\<rparr>"

section \<open>The stored policies\<close>

record 't policy_record =
  pc_id :: int
  pc_tenant_id :: int
  pc_version :: int
  pc_target_kind :: string
  pc_target_value :: string
  pc_rule_json :: 't
  pc_created_unix :: int

definition get_row_policy :: "int \<Rightarrow> string \<Rightarrow> string \<Rightarrow> 't policy_record list \<Rightarrow> 't policy_record option" where
  "get_row_policy tenant kind v rows =
     find (\<lambda>r. pc_tenant_id r = tenant \<and> pc_target_kind r = kind \<and> pc_target_value r = v) rows"

definition upsert_row_policy ::
  "int \<Rightarrow> int \<Rightarrow> string \<Rightarrow> string \<Rightarrow> int \<Rightarrow> 't \<Rightarrow> int \<Rightarrow> 't policy_record list \<Rightarrow> 't policy_record list" where
  "upsert_row_policy new_id tenant kind v version rule_json now rows =
     (case get_row_policy tenant kind v rows of
        Some _ \<Rightarrow>
          map (\<lambda>r. if pc_tenant_id r = tenant \<and> pc_target_kind r = kind \<and> pc_target_value r = v
            then r\<lparr>pc_version := version, pc_rule_json := rule_json, pc_created_unix := now\<rparr> else r) rows
      | None \<Rightarrow>
          rows @ [\<lparr>pc_id = new_id, pc_tenant_id = tenant, pc_version = version, pc_target_kind = kind,
                   pc_target_value = v, pc_rule_json = rule_json, pc_created_unix = now\<rparr>])"

definition list_row_policies :: "int \<Rightarrow> 't policy_record list \<Rightarrow> 't policy_record list" where
  "list_row_policies tenant rows = sort_key pc_id (filter (\<lambda>r. pc_tenant_id r = tenant) rows)"

text \<open>A \<open>serde\<close> form read back: the value, or the crate's message.\<close>

definition row_policy_from_record :: "('t \<Rightarrow> string + policy_rule list) \<Rightarrow> 't policy_record \<Rightarrow> policy_target \<Rightarrow> app_error + row_policy" where
  "row_policy_from_record de r target =
     (case de (pc_rule_json r) of
        Inl e \<Rightarrow> Inl (Internal (''stored row policy rule_json is corrupt: '' @ e))
      | Inr rule \<Rightarrow>
          Inr \<lparr>rp_id = pc_id r, rp_tenant_id = pc_tenant_id r, rp_version = pc_version r, rp_target = target,
               rp_rule = rule, rp_created_unix = pc_created_unix r\<rparr>)"

definition load_table_policy ::
  "('t \<Rightarrow> string + policy_rule list) \<Rightarrow> int \<Rightarrow> string \<Rightarrow> 't policy_record list \<Rightarrow> app_error + row_policy" where
  "load_table_policy de tenant table rows =
     (case get_row_policy tenant ''table'' table rows of
        Some r \<Rightarrow> row_policy_from_record de r (Table table)
      | None \<Rightarrow> Inr \<lparr>rp_id = 0, rp_tenant_id = tenant, rp_version = 0, rp_target = Table table, rp_rule = [], rp_created_unix = 0\<rparr>)"

fun load_each :: "('a \<Rightarrow> app_error + 'b) \<Rightarrow> 'a list \<Rightarrow> app_error + 'b list" where
  "load_each f [] = Inr []"
| "load_each f (x # xs) =
     (case f x of Inl e \<Rightarrow> Inl e | Inr y \<Rightarrow> (case load_each f xs of Inl e \<Rightarrow> Inl e | Inr ys \<Rightarrow> Inr (y # ys)))"

definition load_doc_prefix_policies ::
  "('t \<Rightarrow> string + policy_rule list) \<Rightarrow> int \<Rightarrow> 't policy_record list \<Rightarrow> app_error + row_policy list" where
  "load_doc_prefix_policies de tenant rows =
     load_each (\<lambda>r. row_policy_from_record de r (DocPrefix (pc_target_value r)))
       (filter (\<lambda>r. pc_target_kind r = ''doc_prefix'') (list_row_policies tenant rows))"

text \<open>The restricted branch of \<open>host.table.query\<close> (\<open>src/tables.rs\<close>) up to running the SQL.\<close>

definition restrict_query ::
  "(json \<Rightarrow> nat list) \<Rightarrow> (nat list \<Rightarrow> nat list) \<Rightarrow> (string \<Rightarrow> parse_result) \<Rightarrow> ('t \<Rightarrow> string + policy_rule list)
     \<Rightarrow> int \<Rightarrow> security_context \<Rightarrow> 't policy_record list \<Rightarrow> sql_query \<Rightarrow> app_error + (rewriter \<times> sql_query)" where
  "restrict_query ser sha256 parse_sql de tenant ctx rows q =
     (case load_each (\<lambda>n. case load_table_policy de tenant n rows of
             Inl e \<Rightarrow> Inl e | Inr p \<Rightarrow> Inr (n, compile_policy ser sha256 p ctx)) (sort (referenced_table_names q)) of
        Inl e \<Rightarrow> Inl e
      | Inr compiled \<Rightarrow> apply_rewrite parse_sql compiled q)"

definition require_tenant_key :: "bool \<Rightarrow> app_error option" where
  "require_tenant_key end_user =
     (if end_user then Some (Structured ''tenant_key_required''
        ''this tool is tenant-key only and refuses a call carrying an end-user identity'' (mk_obj []))
      else None)"

definition arg_bool :: "json \<Rightarrow> string \<Rightarrow> bool" where
  "arg_bool args name = (case json_get name args of Some (JBool b) \<Rightarrow> b | _ \<Rightarrow> False)"

definition describe_rule_value :: "(json \<Rightarrow> string) \<Rightarrow> rule_value \<Rightarrow> string" where
  "describe_rule_value show v = (case v of Literal j \<Rightarrow> show j | Attr n \<Rightarrow> ''attr('' @ n @ '')'')"

definition parse_arg :: "string \<Rightarrow> (json \<Rightarrow> string + 'a) \<Rightarrow> json \<Rightarrow> app_error + 'a" where
  "parse_arg name from_value args =
     (case json_get name args of
        None \<Rightarrow> Inl (InvalidArgs (''missing required argument '' @ [CHR 0x27] @ name @ [CHR 0x27]))
      | Some v \<Rightarrow> (case from_value v of Inl e \<Rightarrow> Inl (InvalidArgs (''invalid '' @ name @ '': '' @ e)) | Inr x \<Rightarrow> Inr x))"

definition widening_error :: "(json \<Rightarrow> string) \<Rightarrow> policy_target \<Rightarrow> policy_rule \<Rightarrow> policy_rule \<Rightarrow> app_error" where
  "widening_error show target old new =
     Structured ''policy_widening''
       (''proposed rule on '' @ [CHR 0x27] @ target_value target @ [CHR 0x27] @ '' widens the existing rule on column ''
          @ [CHR 0x27] @ pr_column_or_attr old @ [CHR 0x27] @ '' from '' @ describe_rule_value show (pr_value old)
          @ '' to '' @ describe_rule_value show (pr_value new) @ '' -- set replace: true to confirm'')
       (mk_obj [(''column_or_attr'', JStr (pr_column_or_attr old)), (''target'', JStr (target_value target))])"

text \<open>The \<open>serde\<close> forms \<open>policy_set\<close> uses: of a target and a rule list as arguments, of a rule list as the
  stored text, and of both in the answer.\<close>

record 't policy_forms =
  pf_target_from :: "json \<Rightarrow> string + policy_target"
  pf_rules_from :: "json \<Rightarrow> string + policy_rule list"
  pf_rules_text :: "policy_rule list \<Rightarrow> 't"
  pf_text_rules :: "'t \<Rightarrow> string + policy_rule list"
  pf_target_to :: "policy_target \<Rightarrow> json"
  pf_rules_to :: "policy_rule list \<Rightarrow> json"
  pf_show :: "json \<Rightarrow> string"

definition policy_set ::
  "'t policy_forms \<Rightarrow> int \<Rightarrow> int \<Rightarrow> int \<Rightarrow> json \<Rightarrow> bool \<Rightarrow> 't policy_record list \<Rightarrow> (app_error + json) \<times> 't policy_record list" where
  "policy_set pf now new_id tenant args end_user rows =
     (case require_tenant_key end_user of Some e \<Rightarrow> (Inl e, rows) | None \<Rightarrow>
      case parse_arg ''target'' (pf_target_from pf) args of Inl e \<Rightarrow> (Inl e, rows) | Inr target \<Rightarrow>
      case parse_arg ''rule'' (pf_rules_from pf) args of Inl e \<Rightarrow> (Inl e, rows) | Inr rule \<Rightarrow>
      (let existing = get_row_policy tenant (target_kind target) (target_value target) rows;
           refusal = (if arg_bool args ''replace'' then None
             else case existing of None \<Rightarrow> None
               | Some r \<Rightarrow> (case pf_text_rules pf (pc_rule_json r) of
                   Inl e \<Rightarrow> Some (Internal (''stored row policy rule_json is corrupt: '' @ e))
                 | Inr old_rules \<Rightarrow> map_option (\<lambda>(old, new). widening_error (pf_show pf) target old new)
                     (find_widening (pf_show pf) old_rules rule)))
       in case refusal of Some e \<Rightarrow> (Inl e, rows) | None \<Rightarrow>
          (let version = (case existing of Some r \<Rightarrow> pc_version r + 1 | None \<Rightarrow> 1) in
           (Inr (mk_obj [(''target'', pf_target_to pf target), (''version'', JInt version), (''rule'', pf_rules_to pf rule)]),
            upsert_row_policy new_id tenant (target_kind target) (target_value target) version
              (pf_rules_text pf rule) now rows))))"

text \<open>\<open>end_user_attributes\<close> of one subject: merged by \<open>host.policy.attrs_set\<close>, read by \<open>resolve_access\<close>.\<close>

record 't attr_row =
  ea_tenant_id :: int
  ea_subject :: string
  ea_attr :: string
  ea_value :: 't

definition attr_upsert :: "(json \<Rightarrow> 't) \<Rightarrow> int \<Rightarrow> string \<Rightarrow> string \<times> json \<Rightarrow> 't attr_row list \<Rightarrow> 't attr_row list" where
  "attr_upsert ser tenant subject kv rows =
     (let hit = (\<lambda>r. ea_tenant_id r = tenant \<and> ea_subject r = subject \<and> ea_attr r = fst kv) in
      if list_ex hit rows then map (\<lambda>r. if hit r then r\<lparr>ea_value := ser (snd kv)\<rparr> else r) rows
      else rows @ [\<lparr>ea_tenant_id = tenant, ea_subject = subject, ea_attr = fst kv, ea_value = ser (snd kv)\<rparr>])"

definition end_user_attrs_set :: "(json \<Rightarrow> 't) \<Rightarrow> int \<Rightarrow> string \<Rightarrow> (string \<times> json) list \<Rightarrow> 't attr_row list \<Rightarrow> 't attr_row list" where
  "end_user_attrs_set ser tenant subject attrs rows = fold (attr_upsert ser tenant subject) attrs rows"

definition end_user_attrs_get :: "('t \<Rightarrow> json option) \<Rightarrow> int \<Rightarrow> string \<Rightarrow> 't attr_row list \<Rightarrow> (string \<times> json) list" where
  "end_user_attrs_get de tenant subject rows =
     fold (\<lambda>r out. case de (ea_value r) of Some v \<Rightarrow> obj_insert (ea_attr r) v out | None \<Rightarrow> out)
       (filter (\<lambda>r. ea_tenant_id r = tenant \<and> ea_subject r = subject) rows) []"

definition policy_attrs_set ::
  "(json \<Rightarrow> 't) \<Rightarrow> int \<Rightarrow> json \<Rightarrow> bool \<Rightarrow> 't attr_row list \<Rightarrow> (app_error + json) \<times> 't attr_row list" where
  "policy_attrs_set ser tenant args end_user rows =
     (case require_tenant_key end_user of Some e \<Rightarrow> (Inl e, rows) | None \<Rightarrow>
      case Option.bind (json_get ''subject'' args) as_str of
        None \<Rightarrow> (Inl (InvalidArgs (''missing required argument '' @ [CHR 0x27] @ ''subject'' @ [CHR 0x27])), rows)
      | Some subject \<Rightarrow>
      case json_get ''attrs'' args of
        None \<Rightarrow> (Inl (InvalidArgs (''missing required argument '' @ [CHR 0x27] @ ''attrs'' @ [CHR 0x27])), rows)
      | Some (JObj attrs) \<Rightarrow>
          (Inr (mk_obj [(''subject'', JStr subject), (''attrs'', JObj attrs)]), end_user_attrs_set ser tenant subject attrs rows)
      | Some _ \<Rightarrow> (Inl (InvalidArgs ''attrs must be an object''), rows))"

definition policy_list :: "'t policy_forms \<Rightarrow> ('t \<Rightarrow> json option) \<Rightarrow> int \<Rightarrow> bool \<Rightarrow> 't policy_record list \<Rightarrow> app_error + json" where
  "policy_list pf de tenant end_user rows =
     (case require_tenant_key end_user of Some e \<Rightarrow> Inl e | None \<Rightarrow>
        Inr (mk_obj [(''policies'', JArr (map (\<lambda>r.
          mk_obj [(''target'', opt_json (pf_target_to pf) (from_kind_value (pc_target_kind r) (pc_target_value r))),
                  (''version'', JInt (pc_version r)),
                  (''rule'', (case de (pc_rule_json r) of Some v \<Rightarrow> v | None \<Rightarrow> JArr [])),
                  (''created_unix'', JInt (pc_created_unix r))]) (list_row_policies tenant rows)))]))"

datatype access = Unrestricted | Restricted security_context

text \<open>\<open>resolve_access\<close>: no end user, no filter. An end user is a subject, its issuer and its method.\<close>

definition resolve_access :: "('t \<Rightarrow> json option) \<Rightarrow> int \<Rightarrow> (string \<times> string option \<times> string) option \<Rightarrow> 't attr_row list \<Rightarrow> access" where
  "resolve_access de tenant end_user rows =
     (case end_user of
        None \<Rightarrow> Unrestricted
      | Some (subject, issuer, meth) \<Rightarrow>
          Restricted \<lparr>sc_subject = subject, sc_issuer = issuer, sc_method = meth,
                      sc_attrs = end_user_attrs_get de tenant subject rows\<rparr>)"

section \<open>What a compiled policy means\<close>

text \<open>The parts of a predicate, their text, and their meaning on a row when the placeholders stand for the
  parameters; \<open>sql_eq\<close> is the database's equality of a column and a bound value.\<close>

datatype pred_part = PEq string nat | PIn string "nat list"

fun part_text :: "pred_part \<Rightarrow> string" where
  "part_text (PEq c i) = [CHR 0x22] @ quote_column c @ [CHR 0x22] @ '' = '' @ placeholder i"
| "part_text (PIn c idx) = [CHR 0x22] @ quote_column c @ [CHR 0x22] @ '' IN ('' @ join '', '' (map placeholder idx) @ '')''"

fun part_holds :: "(string \<Rightarrow> json \<Rightarrow> bool) \<Rightarrow> json list \<Rightarrow> pred_part \<Rightarrow> bool" where
  "part_holds sql_eq params (PEq c i) = sql_eq c (params ! i)"
| "part_holds sql_eq params (PIn c idx) = list_ex (\<lambda>i. sql_eq c (params ! i)) idx"

fun parts_of :: "resolved_rule list \<Rightarrow> nat \<Rightarrow> pred_part list option" where
  "parts_of [] n = Some []"
| "parts_of ((column, op, vals) # rest) n =
     (if vals = [] then None
      else if op = ''eq'' then map_option (\<lambda>ps. PEq column n # ps) (parts_of rest (Suc n))
      else map_option (\<lambda>ps. PIn column (map (\<lambda>i. n + i) [0..<length vals]) # ps) (parts_of rest (n + length vals)))"

definition used_values :: "resolved_rule \<Rightarrow> json list" where
  "used_values r = (case r of (_, op, vals) \<Rightarrow> if op = ''eq'' then take 1 vals else vals)"

definition policy_parts :: "row_policy \<Rightarrow> security_context \<Rightarrow> pred_part list option" where
  "policy_parts p ctx = (if rp_rule p = [] then None else parts_of (resolve_rules p ctx) 0)"

definition predicate_text :: "pred_part list option \<Rightarrow> string" where
  "predicate_text ps = (case ps of None \<Rightarrow> ''1 = 0'' | Some ps \<Rightarrow> join '' AND '' (map part_text ps))"

definition predicate_holds :: "(string \<Rightarrow> json \<Rightarrow> bool) \<Rightarrow> json list \<Rightarrow> pred_part list option \<Rightarrow> bool" where
  "predicate_holds sql_eq params ps = (case ps of None \<Rightarrow> False | Some ps \<Rightarrow> list_all (part_holds sql_eq params) ps)"

text \<open>Which rows a policy lets a subject read, written out: there is a rule, every rule has a value for the
  subject, and the row's column equals that value (\<open>eq\<close>: the first) or one of them (\<open>in\<close>).\<close>

definition row_admitted :: "(string \<Rightarrow> json \<Rightarrow> bool) \<Rightarrow> row_policy \<Rightarrow> security_context \<Rightarrow> bool" where
  "row_admitted sql_eq p ctx \<longleftrightarrow>
     rp_rule p \<noteq> [] \<and> list_all (\<lambda>r. resolved_values r ctx \<noteq> []
       \<and> (case pr_op r of OpEq \<Rightarrow> sql_eq (pr_column_or_attr r) (hd (resolved_values r ctx))
          | OpIn \<Rightarrow> list_ex (sql_eq (pr_column_or_attr r)) (resolved_values r ctx))) (rp_rule p)"

lemma table_parts_text:
  "table_parts rs parts params =
     map_option (\<lambda>ps. (parts @ map part_text ps, params @ concat (map used_values rs))) (parts_of rs (length params))"
proof (induction rs parts params rule: table_parts.induct)
  case (2 column op vals rest parts params)
  have one: "vals \<noteq> [] \<Longrightarrow> take 1 vals = [hd vals]" by (cases vals) auto
  show ?case using 2 one
    by (cases "parts_of rest (Suc (length params))"; cases "parts_of rest (length params + length vals)")
      (auto simp: used_values_def comp_def)
qed simp

lemma parts_hold:
  assumes "parts_of rs n = Some ps" "length front = n"
  shows "list_all (part_holds sql_eq (front @ concat (map used_values rs) @ back)) ps \<longleftrightarrow>
    list_all (\<lambda>(c, op, vals). if op = ''eq'' then sql_eq c (hd vals) else list_ex (sql_eq c) vals) rs"
  using assms
proof (induction rs n arbitrary: ps front rule: parts_of.induct)
  case (2 column op vals rest n)
  then have ne: "vals \<noteq> []" by (auto split: if_splits)
  show ?case
  proof (cases "op = ''eq''")
    case True
    with "2.prems" ne obtain qs where qs: "parts_of rest (Suc n) = Some qs" "ps = PEq column n # qs" by auto
    have "take 1 vals = [hd vals]" using ne by (cases vals) auto
    with "2.IH"(1)[OF ne True qs(1), of "front @ [hd vals]"] "2.prems"(2) qs True
    show ?thesis by (simp add: used_values_def nth_append)
  next
    case False
    with "2.prems" ne obtain qs where qs: "parts_of rest (n + length vals) = Some qs"
        "ps = PIn column (map (\<lambda>i. n + i) [0..<length vals]) # qs" by auto
    have "list_ex (\<lambda>i. sql_eq column ((front @ vals @ tail) ! i)) (map (\<lambda>i. n + i) [0..<length vals])
        \<longleftrightarrow> list_ex (sql_eq column) vals" for tail
    proof -
      have "map (\<lambda>i. (front @ vals @ tail) ! (n + i)) [0..<length vals] = vals"
        using "2.prems"(2) by (intro nth_equalityI) (auto simp: nth_append)
      moreover have "list_ex (\<lambda>i. Q (ys ! i)) idx = list_ex Q (map (\<lambda>i. ys ! i) idx)" for Q and ys :: "json list" and idx
        by (induction idx) auto
      ultimately show ?thesis by (simp add: comp_def)
    qed
    with "2.IH"(2)[OF ne False qs(1), of "front @ vals"] "2.prems"(2) qs False
    show ?thesis by (simp add: used_values_def)
  qed
qed simp

lemma parts_of_None: "parts_of rs n = None \<longleftrightarrow> list_ex (\<lambda>(c, op, vals). vals = []) rs"
  by (induction rs n rule: parts_of.induct) auto

lemma op_as_str_eq: "op_as_str op = ''eq'' \<longleftrightarrow> op = OpEq"
  by (cases op) auto

lemma op_not_eq: "op \<noteq> OpEq \<longleftrightarrow> op = OpIn"
  by (cases op) auto

lemma compile_table:
  assumes "rp_target p = Table t"
  shows "cp_rls_predicate (compile_policy ser sha256 p ctx) = predicate_text (policy_parts p ctx)"
    and "cp_rls_params (compile_policy ser sha256 p ctx) =
      (if policy_parts p ctx = None then [] else concat (map used_values (resolve_rules p ctx)))"
  using assms by (cases "parts_of (resolve_rules p ctx) 0";
      simp add: compile_policy_def policy_parts_def predicate_text_def table_parts_text Let_def)+

lemma compile_admits:
  assumes "rp_target p = Table t"
  shows "predicate_holds sql_eq (cp_rls_params (compile_policy ser sha256 p ctx)) (policy_parts p ctx) \<longleftrightarrow> row_admitted sql_eq p ctx"
proof (cases "policy_parts p ctx")
  case None
  then have "rp_rule p = [] \<or> list_ex (\<lambda>(c, op, vals). vals = []) (resolve_rules p ctx)"
    by (auto simp: policy_parts_def parts_of_None split: if_splits)
  then have "\<not> row_admitted sql_eq p ctx"
    by (auto simp: row_admitted_def resolve_rules_def list_ex_iff list_all_iff)
  with None show ?thesis by (simp add: predicate_holds_def)
next
  case (Some ps)
  then have r: "rp_rule p \<noteq> []" "parts_of (resolve_rules p ctx) 0 = Some ps"
    by (auto simp: policy_parts_def split: if_splits)
  then have "\<not> list_ex (\<lambda>(c, op, vals). vals = []) (resolve_rules p ctx)"
    using parts_of_None[of "resolve_rules p ctx" 0] by simp
  then have vals: "\<forall>x \<in> set (rp_rule p). resolved_values x ctx \<noteq> []"
    by (auto simp: resolve_rules_def list_ex_iff)
  have "predicate_holds sql_eq (cp_rls_params (compile_policy ser sha256 p ctx)) (policy_parts p ctx) \<longleftrightarrow>
      list_all (\<lambda>(c, op, vals). if op = ''eq'' then sql_eq c (hd vals) else list_ex (sql_eq c) vals) (resolve_rules p ctx)"
    using parts_hold[OF r(2), of "[]" sql_eq "[]"] Some compile_table(2)[OF assms, of ser sha256 ctx]
    by (simp add: predicate_holds_def)
  also have "\<dots> \<longleftrightarrow> row_admitted sql_eq p ctx"
    using r(1) vals by (auto simp: row_admitted_def resolve_rules_def list_all_iff op_as_str_eq op_not_eq split: rule_op.splits)
  finally show ?thesis .
qed

lemma parts_of_counts:
  "map (\<lambda>(c, op, vals). (c, op, length vals)) rs = map (\<lambda>(c, op, vals). (c, op, length vals)) rs' \<Longrightarrow>
     parts_of rs n = parts_of rs' n"
proof (induction rs n arbitrary: rs' rule: parts_of.induct)
  case (2 column op vals rest n)
  then obtain vals' rest' where rs': "rs' = (column, op, vals') # rest'" "length vals' = length vals"
      "map (\<lambda>(c, op, vals). (c, op, length vals)) rest = map (\<lambda>(c, op, vals). (c, op, length vals)) rest'"
    by (auto split: prod.splits)
  then have "vals' = [] \<longleftrightarrow> vals = []" by auto
  with 2 rs' show ?case by auto
qed simp

section \<open>What a rewrite leaves unfiltered\<close>

text \<open>The real tables a query reads outside every wrapped table, given the \<open>WITH\<close> names in scope: a
  one-part name that is in scope reads that entry, any other name reads a table. The entries of a
  \<open>WITH\<close> see one another and the body of their query, at any depth.\<close>

definition real_read :: "string set \<Rightarrow> string list \<Rightarrow> string list" where
  "real_read scope name =
     (case object_name_last name of
        None \<Rightarrow> []
      | Some t \<Rightarrow> if length name = 1 \<and> to_lowercase t \<in> scope then [] else [to_lowercase t])"

fun unfiltered_query and unfiltered_ctes and unfiltered_items and unfiltered_item where
  "unfiltered_query scope (Query ctes items) =
     (let scope = scope \<union> set (map (\<lambda>(a, _). to_lowercase a) ctes)
      in unfiltered_ctes scope ctes @ unfiltered_items scope items)"
| "unfiltered_ctes scope [] = []"
| "unfiltered_ctes scope ((a, q) # rest) = unfiltered_query scope q @ unfiltered_ctes scope rest"
| "unfiltered_items scope [] = []"
| "unfiltered_items scope (i # rest) = unfiltered_item scope i @ unfiltered_items scope rest"
| "unfiltered_item scope (Subquery q) = unfiltered_query scope q"
| "unfiltered_item scope (Factor name _) = real_read scope name"
| "unfiltered_item scope (Filtered _ _ _) = []"

lemma rewrite_factor_unfiltered:
  assumes "rewrite_factor parse_sql compiled name alias st = Inr (st', i')"
  shows "set (unfiltered_item scope i') \<subseteq> {t. t \<in> set (factors_item (Factor name alias)) \<and> map_of compiled t = None}"
  using assms
  by (auto simp: rewrite_factor_def real_read_def Let_def split: option.splits prod.splits parse_result.splits if_splits)

lemma rewrite_unfiltered:
  "rewrite_query parse_sql compiled q st = Inr (st', q') \<Longrightarrow>
     set (unfiltered_query scope q') \<subseteq> {t. t \<in> set (factors_query q) \<and> map_of compiled t = None}"
  "rewrite_ctes parse_sql compiled ctes st = Inr (st', ctes') \<Longrightarrow>
     set (unfiltered_ctes scope ctes') \<subseteq> {t. t \<in> set (factors_ctes ctes) \<and> map_of compiled t = None}"
  "rewrite_items parse_sql compiled items st = Inr (st', items') \<Longrightarrow>
     set (unfiltered_items scope items') \<subseteq> {t. t \<in> set (factors_items items) \<and> map_of compiled t = None}"
  "rewrite_item parse_sql compiled i st = Inr (st', i') \<Longrightarrow>
     set (unfiltered_item scope i') \<subseteq> {t. t \<in> set (factors_item i) \<and> map_of compiled t = None}"
proof (induction parse_sql compiled q st and parse_sql compiled ctes st and parse_sql compiled items st and parse_sql compiled i st
    arbitrary: st' q' scope and st' ctes' scope and st' items' scope and st' i' scope
    rule: rewrite_query_rewrite_ctes_rewrite_items_rewrite_item.induct)
  case (1 parse_sql compiled ctes items st)
  then show ?case by (fastforce split: sum.splits prod.splits simp: Let_def)
next
  case (3 parse_sql compiled a q rest st)
  then show ?case by (fastforce split: sum.splits prod.splits)
next
  case (5 parse_sql compiled i rest st)
  then show ?case by (fastforce split: sum.splits prod.splits)
next
  case (6 parse_sql compiled q st)
  then show ?case by (fastforce split: sum.splits prod.splits)
next
  case (7 parse_sql compiled name al st)
  then show ?case using rewrite_factor_unfiltered by simp
qed auto

fun wrapped_query and wrapped_ctes and wrapped_items and wrapped_item where
  "wrapped_query (Query ctes items) = wrapped_ctes ctes @ wrapped_items items"
| "wrapped_ctes [] = []"
| "wrapped_ctes ((a, q) # rest) = wrapped_query q @ wrapped_ctes rest"
| "wrapped_items [] = []"
| "wrapped_items (i # rest) = wrapped_item i @ wrapped_items rest"
| "wrapped_item (Subquery q) = wrapped_query q"
| "wrapped_item (Factor name _) = []"
| "wrapped_item (Filtered t p _) = [(t, p)]"

definition bound_text :: "nat \<Rightarrow> compiled_policy \<Rightarrow> string" where
  "bound_text occ c = fst (bind_params occ 0 (cp_rls_params c) (cp_rls_predicate c) [])"

lemma bind_params_text: "fst (bind_params occ i vs p bs) = fst (bind_params occ i vs p bs')"
proof (induction vs arbitrary: i p bs bs')
  case (Cons v vs)
  show ?case by (simp only: bind_params.simps Let_def) (rule Cons.IH)
qed simp

lemma bind_params_fst: "bind_params occ i vs s bs = (p, b) \<Longrightarrow> p = fst (bind_params occ i vs s [])"
  using bind_params_text[of occ i vs s bs "[]"] by simp

lemma rewrite_factor_wraps:
  assumes "rewrite_factor parse_sql compiled name al st = Inr (st', i')"
  shows "set (wrapped_item i') \<subseteq> {(t, p). \<exists>c occ. map_of compiled (to_lowercase t) = Some c \<and> p = bound_text occ c}"
  using assms by (auto simp: rewrite_factor_def bound_text_def Let_def dest!: bind_params_fst
      split: option.splits prod.splits parse_result.splits if_splits)

lemma rewrite_wraps:
  "rewrite_query parse_sql compiled q st = Inr (st', q') \<Longrightarrow> set (wrapped_query q') \<subseteq> set (wrapped_query q)
     \<union> {(t, p). \<exists>c occ. map_of compiled (to_lowercase t) = Some c \<and> p = bound_text occ c}"
  "rewrite_ctes parse_sql compiled ctes st = Inr (st', ctes') \<Longrightarrow> set (wrapped_ctes ctes') \<subseteq> set (wrapped_ctes ctes)
     \<union> {(t, p). \<exists>c occ. map_of compiled (to_lowercase t) = Some c \<and> p = bound_text occ c}"
  "rewrite_items parse_sql compiled items st = Inr (st', items') \<Longrightarrow> set (wrapped_items items') \<subseteq> set (wrapped_items items)
     \<union> {(t, p). \<exists>c occ. map_of compiled (to_lowercase t) = Some c \<and> p = bound_text occ c}"
  "rewrite_item parse_sql compiled i st = Inr (st', i') \<Longrightarrow> set (wrapped_item i') \<subseteq> set (wrapped_item i)
     \<union> {(t, p). \<exists>c occ. map_of compiled (to_lowercase t) = Some c \<and> p = bound_text occ c}"
proof (induction parse_sql compiled q st and parse_sql compiled ctes st and parse_sql compiled items st and parse_sql compiled i st
    arbitrary: st' q' and st' ctes' and st' items' and st' i'
    rule: rewrite_query_rewrite_ctes_rewrite_items_rewrite_item.induct)
  case (1 parse_sql compiled ctes items st)
  then show ?case by (fastforce split: sum.splits prod.splits)
next
  case (3 parse_sql compiled a q rest st)
  then show ?case by (fastforce split: sum.splits prod.splits)
next
  case (5 parse_sql compiled i rest st)
  then show ?case by (fastforce split: sum.splits prod.splits)
next
  case (6 parse_sql compiled q st)
  then show ?case by (fastforce split: sum.splits prod.splits)
next
  case (7 parse_sql compiled name al st)
  then show ?case using rewrite_factor_wraps by fastforce
qed auto

lemma set_first_seen: "set (first_seen names) = set names"
proof -
  have "set (foldl (\<lambda>acc n. if n \<in> set acc then acc else acc @ [n]) acc names) = set acc \<union> set names" for acc
    by (induction names arbitrary: acc) auto
  then show ?thesis by (simp add: first_seen_def)
qed

lemma load_each_keys:
  assumes "load_each (\<lambda>n. case f n of Inl e \<Rightarrow> Inl e | Inr p \<Rightarrow> Inr (n, g p)) names = Inr out"
  shows "map_of out n = Some c \<longleftrightarrow> n \<in> set names \<and> (\<exists>p. f n = Inr p \<and> c = g p)"
  using assms
proof (induction names arbitrary: out)
  case (Cons m ms)
  then obtain y where y: "f m = Inr y" by (cases "f m") auto
  with Cons.prems obtain ys where ys: "load_each (\<lambda>n. case f n of Inl e \<Rightarrow> Inl e | Inr p \<Rightarrow> Inr (n, g p)) ms = Inr ys"
      "out = (m, g y) # ys"
    by (cases "load_each (\<lambda>n. case f n of Inl e \<Rightarrow> Inl e | Inr p \<Rightarrow> Inr (n, g p)) ms") simp_all
  show ?case
  proof (cases "n = m")
    case True
    then show ?thesis using y ys(2) by auto
  next
    case False
    then show ?thesis using Cons.IH[OF ys(1)] ys(2) by simp
  qed
qed simp

lemma load_each_total:
  assumes "load_each f xs = Inr out" "x \<in> set xs"
  shows "\<exists>y. f x = Inr y"
  using assms by (induction xs arbitrary: out) (auto split: sum.splits)

section \<open>Placeholders\<close>

text \<open>The text of a predicate with some of its placeholders already replaced: pieces without an opening
  brace and holes. \<open>h\<close> says what stands in a hole.\<close>

datatype piece = Plain string | Hole nat

fun render :: "(nat \<Rightarrow> string) \<Rightarrow> piece list \<Rightarrow> string" where
  "render h [] = []"
| "render h (Plain s # ps) = s @ render h ps"
| "render h (Hole i # ps) = h i @ render h ps"

fun plain_ok :: "piece \<Rightarrow> bool" where
  "plain_ok (Plain s) = (CHR ''{'' \<notin> set s)"
| "plain_ok (Hole i) = True"

lemma str_replace_fuel_Nil [simp]: "str_replace_fuel n pat rep [] = []"
  by (cases n) simp_all

lemma str_replace_fuel_irrelevant:
  assumes "pat \<noteq> []" "length s \<le> n" "length s \<le> m"
  shows "str_replace_fuel n pat rep s = str_replace_fuel m pat rep s"
  using assms(2,3)
proof (induction n arbitrary: m s)
  case (Suc n)
  show ?case
  proof (cases s)
    case (Cons c cs)
    then obtain k where m: "m = Suc k" "length cs \<le> k" "length cs \<le> n" using Suc.prems by (cases m) auto
    have "length (drop (length pat) s) \<le> length cs"
      using assms(1) Cons by (cases pat) auto
    with m Suc.IH[of "drop (length pat) s" k] Suc.IH[of cs k] Cons show ?thesis by simp
  qed (cases m; simp)
qed (cases m; simp)

lemma str_replace_Nil [simp]: "str_replace pat rep [] = []"
  by (simp add: str_replace_def)

lemma str_replace_Cons:
  assumes "pat \<noteq> []"
  shows "str_replace pat rep (c # cs) =
    (if starts_with (c # cs) pat then rep @ str_replace pat rep (drop (length pat) (c # cs)) else c # str_replace pat rep cs)"
proof -
  have "length (drop (length pat) (c # cs)) \<le> length cs"
    using assms by (cases pat) auto
  then show ?thesis
    using str_replace_fuel_irrelevant[OF assms, of "drop (length pat) (c # cs)" "length cs" "length (drop (length pat) (c # cs))"]
    by (simp add: str_replace_def)
qed

lemma placeholder_brace: "placeholder i = CHR ''{'' # CHR ''p'' # show_nat i @ ''}''"
  by (simp add: placeholder_def)

lemma placeholder_nonempty [simp]: "placeholder i \<noteq> []"
  by (simp add: placeholder_def)

lemma digits_no_brace: "c \<in> set (show_nat i) \<Longrightarrow> c \<noteq> CHR ''{'' \<and> c \<noteq> CHR ''}''"
  using show_nat_digits(1)[of i] by (auto simp: list_all_iff is_ascii_digit_def scalar_def)

lemma show_nat_inject: "show_nat i = show_nat j \<longleftrightarrow> i = j"
  by (metis digits_value_show_nat)

lemma starts_with_placeholder: "starts_with (placeholder j @ t) (placeholder i) \<longleftrightarrow> i = j"
proof
  assume "starts_with (placeholder j @ t) (placeholder i)"
  then obtain r where r: "show_nat j @ CHR ''}'' # t = show_nat i @ CHR ''}'' # r"
    by (auto simp: starts_with_iff placeholder_brace)
  then have "takeWhile (\<lambda>c. c \<noteq> CHR ''}'') (show_nat j @ CHR ''}'' # t) = takeWhile (\<lambda>c. c \<noteq> CHR ''}'') (show_nat i @ CHR ''}'' # r)"
    by simp
  then show "i = j"
    using digits_no_brace by (subst (asm) (1 2) takeWhile_append2) (auto simp: show_nat_inject)
qed (auto simp: starts_with_iff)

lemma str_replace_plain:
  "CHR ''{'' \<notin> set s \<Longrightarrow> str_replace (placeholder i) rep (s @ t) = s @ str_replace (placeholder i) rep t"
proof (induction s)
  case (Cons c s)
  then have "c \<noteq> CHR ''{''" by auto
  then have "\<not> starts_with (c # s @ t) (placeholder i)" by (simp add: placeholder_brace)
  with Cons show ?case by (simp add: str_replace_Cons placeholder_nonempty)
qed simp

lemma str_replace_hole:
  "str_replace (placeholder i) rep (placeholder j @ t) =
     (if i = j then rep else placeholder j) @ str_replace (placeholder i) rep t"
proof -
  have c: "placeholder j @ t = CHR ''{'' # (CHR ''p'' # show_nat j @ ''}'') @ t" by (simp add: placeholder_brace)
  have "CHR ''{'' \<notin> set (CHR ''p'' # show_nat j @ ''}'')" using digits_no_brace by auto
  then have rest: "str_replace (placeholder i) rep ((CHR ''p'' # show_nat j @ ''}'') @ t)
      = (CHR ''p'' # show_nat j @ ''}'') @ str_replace (placeholder i) rep t"
    by (rule str_replace_plain)
  show ?thesis
  proof (cases "i = j")
    case True
    then have "starts_with (CHR ''{'' # (CHR ''p'' # show_nat j @ ''}'') @ t) (placeholder i)"
      using starts_with_placeholder[of j t i] c by simp
    with True show ?thesis
      by (subst c) (simp add: str_replace_Cons placeholder_brace)
  next
    case False
    then have "\<not> starts_with (CHR ''{'' # (CHR ''p'' # show_nat j @ ''}'') @ t) (placeholder i)"
      using starts_with_placeholder[of j t i] c by simp
    then have "str_replace (placeholder i) rep (CHR ''{'' # (CHR ''p'' # show_nat j @ ''}'') @ t)
        = CHR ''{'' # str_replace (placeholder i) rep ((CHR ''p'' # show_nat j @ ''}'') @ t)"
      by (subst str_replace_Cons) (simp_all add: placeholder_brace)
    with rest False c show ?thesis by (simp add: placeholder_brace)
  qed
qed

lemma str_replace_render:
  assumes "list_all plain_ok ps" "\<And>j. h j = placeholder j \<or> CHR ''{'' \<notin> set (h j)" "h i = placeholder i"
  shows "str_replace (placeholder i) rep (render h ps) = render (h(i := rep)) ps"
  using assms(1)
proof (induction ps)
  case (Cons p ps)
  then show ?case
  proof (cases p)
    case (Hole j)
    consider "i = j" | "i \<noteq> j" "h j = placeholder j" | "i \<noteq> j" "CHR ''{'' \<notin> set (h j)" using assms(2)[of j] by blast
    then show ?thesis
      using Cons Hole assms(3) by cases (auto simp: str_replace_hole str_replace_plain)
  qed (auto simp: str_replace_plain)
qed simp

definition bound_name :: "nat \<Rightarrow> nat \<Rightarrow> string" where
  "bound_name occ i = '':rp'' @ show_nat occ @ ''_'' @ show_nat i"

lemma bind_params_render:
  assumes "list_all plain_ok ps"
  shows "bind_params occ i vs (render (\<lambda>j. if j < i then bound_name occ j else placeholder j) ps) bs =
    (render (\<lambda>j. if j < i + length vs then bound_name occ j else placeholder j) ps,
     bs @ map (\<lambda>k. (bound_name occ (i + k), vs ! k)) [0..<length vs])"
proof (induction vs arbitrary: i bs)
  case (Cons v vs)
  have h: "(\<lambda>j. if j < i then bound_name occ j else placeholder j)(i := bound_name occ i)
      = (\<lambda>j. if j < Suc i then bound_name occ j else placeholder j)"
    by (auto simp: fun_eq_iff less_Suc_eq)
  have "CHR ''{'' \<notin> set (bound_name occ j)" for j
    using digits_no_brace by (auto simp: bound_name_def)
  then have r: "str_replace (placeholder i) (bound_name occ i) (render (\<lambda>j. if j < i then bound_name occ j else placeholder j) ps)
      = render (\<lambda>j. if j < Suc i then bound_name occ j else placeholder j) ps"
    using str_replace_render[OF assms, of "\<lambda>j. if j < i then bound_name occ j else placeholder j" i "bound_name occ i"]
    by (auto simp: h)
  have "map (\<lambda>k. (bound_name occ (i + k), (v # vs) ! k)) [0..<length (v # vs)]
      = (bound_name occ i, v) # map (\<lambda>k. (bound_name occ (Suc i + k), vs ! k)) [0..<length vs]"
    by (rule nth_equalityI) (auto simp: nth_Cons' simp del: upt_Suc)
  then show ?case
    using Cons[of "Suc i" "bs @ [(bound_name occ i, v)]"] r
    by (simp only: bind_params.simps Let_def bound_name_def[symmetric]) simp
qed simp

text \<open>The text of a predicate with \<open>h\<close> in its holes.\<close>

fun part_text_with :: "(nat \<Rightarrow> string) \<Rightarrow> pred_part \<Rightarrow> string" where
  "part_text_with h (PEq c i) = [CHR 0x22] @ quote_column c @ [CHR 0x22] @ '' = '' @ h i"
| "part_text_with h (PIn c idx) = [CHR 0x22] @ quote_column c @ [CHR 0x22] @ '' IN ('' @ join '', '' (map h idx) @ '')''"

definition predicate_text_with :: "(nat \<Rightarrow> string) \<Rightarrow> pred_part list option \<Rightarrow> string" where
  "predicate_text_with h ps = (case ps of None \<Rightarrow> ''1 = 0'' | Some ps \<Rightarrow> join '' AND '' (map (part_text_with h) ps))"

fun separate :: "piece list \<Rightarrow> piece list list \<Rightarrow> piece list" where
  "separate sep [] = []"
| "separate sep [x] = x"
| "separate sep (x # y # xs) = x @ sep @ separate sep (y # xs)"

fun part_pieces :: "pred_part \<Rightarrow> piece list" where
  "part_pieces (PEq c i) = [Plain ([CHR 0x22] @ quote_column c @ [CHR 0x22] @ '' = ''), Hole i]"
| "part_pieces (PIn c idx) = Plain ([CHR 0x22] @ quote_column c @ [CHR 0x22] @ '' IN ('')
     # separate [Plain '', ''] (map (\<lambda>i. [Hole i]) idx) @ [Plain '')'']"

definition predicate_pieces :: "pred_part list option \<Rightarrow> piece list" where
  "predicate_pieces ps = (case ps of None \<Rightarrow> [Plain ''1 = 0''] | Some ps \<Rightarrow> separate [Plain '' AND ''] (map part_pieces ps))"

lemma render_append: "render h (ps @ qs) = render h ps @ render h qs"
proof (induction ps)
  case (Cons p ps)
  then show ?case by (cases p) simp_all
qed simp

lemma render_separate: "render h (separate sep xss) = join (render h sep) (map (render h) xss)"
  by (induction sep xss rule: separate.induct) (simp_all add: render_append)

lemma render_part: "render h (part_pieces p) = part_text_with h p"
  by (cases p) (simp_all add: render_append render_separate comp_def)

lemma render_predicate: "render h (predicate_pieces ps) = predicate_text_with h ps"
  by (auto simp: predicate_pieces_def predicate_text_with_def render_separate render_part comp_def split: option.splits)

lemma part_text_placeholder: "part_text p = part_text_with placeholder p"
  by (cases p) simp_all

lemma predicate_text_placeholder: "predicate_text ps = predicate_text_with placeholder ps"
proof -
  have "part_text = part_text_with placeholder" by (rule ext) (rule part_text_placeholder)
  then show ?thesis unfolding predicate_text_def predicate_text_with_def by metis
qed

fun part_columns_ok :: "pred_part \<Rightarrow> bool" where
  "part_columns_ok (PEq c i) = (CHR ''{'' \<notin> set c)"
| "part_columns_ok (PIn c idx) = (CHR ''{'' \<notin> set c)"

fun part_holes_below :: "nat \<Rightarrow> pred_part \<Rightarrow> bool" where
  "part_holes_below n (PEq c i) = (i < n)"
| "part_holes_below n (PIn c idx) = list_all (\<lambda>i. i < n) idx"

lemma plain_ok_separate: "list_all plain_ok sep \<Longrightarrow> list_all (list_all plain_ok) xss \<Longrightarrow> list_all plain_ok (separate sep xss)"
  by (induction sep xss rule: separate.induct) auto

lemma quote_column_brace: "CHR ''{'' \<notin> set c \<Longrightarrow> CHR ''{'' \<notin> set (quote_column c)"
  by (auto simp: quote_column_def split: if_splits)

lemma part_pieces_ok: "part_columns_ok p \<Longrightarrow> list_all plain_ok (part_pieces p)"
proof (cases p)
  case (PIn c idx)
  assume "part_columns_ok p"
  moreover have "list_all plain_ok (separate [Plain '', ''] (map (\<lambda>i. [Hole i]) idx))"
    by (rule plain_ok_separate) (simp_all add: list_all_iff)
  ultimately show ?thesis using PIn by (simp add: quote_column_brace)
qed (simp add: quote_column_brace)

lemma predicate_pieces_ok:
  assumes "\<And>qs. ps = Some qs \<Longrightarrow> list_all part_columns_ok qs"
  shows "list_all plain_ok (predicate_pieces ps)"
proof (cases ps)
  case (Some qs)
  then have "list_all (list_all plain_ok) (map part_pieces qs)"
    using assms part_pieces_ok by (auto simp: list_all_iff)
  with Some show ?thesis by (simp add: predicate_pieces_def plain_ok_separate)
qed (simp add: predicate_pieces_def)

lemma part_text_with_cong:
  "part_holes_below n p \<Longrightarrow> (\<And>i. i < n \<Longrightarrow> h i = h' i) \<Longrightarrow> part_text_with h p = part_text_with h' p"
proof (cases p)
  case (PIn c idx)
  assume "part_holes_below n p" "\<And>i. i < n \<Longrightarrow> h i = h' i"
  with PIn have "map h idx = map h' idx" by (auto simp: list_all_iff)
  then have "join '', '' (map h idx) = join '', '' (map h' idx)" by (rule arg_cong)
  with PIn show ?thesis by simp
qed simp

lemma parts_of_shape:
  "parts_of rs n = Some ps \<Longrightarrow> list_all (\<lambda>(c, op, vals). CHR ''{'' \<notin> set c) rs \<Longrightarrow>
     list_all part_columns_ok ps \<and> list_all (part_holes_below (n + length (concat (map used_values rs)))) ps"
proof (induction rs n arbitrary: ps rule: parts_of.induct)
  case (2 column op vals rest n)
  then have ne: "vals \<noteq> []" by (auto split: if_splits)
  then have one: "length (take 1 vals) = 1" by (cases vals) auto
  show ?case
  proof (cases "op = ''eq''")
    case True
    with "2.prems" ne obtain qs where qs: "parts_of rest (Suc n) = Some qs" "ps = PEq column n # qs" by auto
    with "2.IH"(1)[OF ne True qs(1)] "2.prems"(2) one True show ?thesis by (simp add: used_values_def)
  next
    case False
    with "2.prems" ne obtain qs where qs: "parts_of rest (n + length vals) = Some qs"
        "ps = PIn column (map (\<lambda>i. n + i) [0..<length vals]) # qs" by auto
    with "2.IH"(2)[OF ne False qs(1)] "2.prems"(2) False show ?thesis
      by (simp add: used_values_def add.assoc) (simp add: list_all_iff)
  qed
qed simp

lemma compiled_text_bound:
  assumes "rp_target p = Table t" "list_all (\<lambda>r. CHR ''{'' \<notin> set (pr_column_or_attr r)) (rp_rule p)"
  shows "bind_params occ 0 (cp_rls_params (compile_policy ser sha256 p ctx)) (cp_rls_predicate (compile_policy ser sha256 p ctx)) bs =
    (predicate_text_with (bound_name occ) (policy_parts p ctx),
     bs @ map (\<lambda>k. (bound_name occ k, cp_rls_params (compile_policy ser sha256 p ctx) ! k))
       [0..<length (cp_rls_params (compile_policy ser sha256 p ctx))])"
proof -
  let ?params = "cp_rls_params (compile_policy ser sha256 p ctx)"
  let ?h = "\<lambda>j. if j < length ?params then bound_name occ j else placeholder j"
  have cols: "list_all (\<lambda>(c, op, vals). CHR ''{'' \<notin> set c) (resolve_rules p ctx)"
    using assms(2) by (auto simp: resolve_rules_def list_all_iff)
  have shape: "list_all part_columns_ok ps \<and> list_all (part_holes_below (length ?params)) ps"
    if "policy_parts p ctx = Some ps" for ps
    using that parts_of_shape[OF _ cols, of 0] compile_table(2)[OF assms(1), of ser sha256 ctx]
    by (auto simp: policy_parts_def split: if_splits)
  have "predicate_text_with ?h (policy_parts p ctx) = predicate_text_with (bound_name occ) (policy_parts p ctx)"
  proof (cases "policy_parts p ctx")
    case (Some ps)
    with shape have "map (part_text_with ?h) ps = map (part_text_with (bound_name occ)) ps"
      by (auto simp: list_all_iff intro!: part_text_with_cong)
    then have "join '' AND '' (map (part_text_with ?h) ps) = join '' AND '' (map (part_text_with (bound_name occ)) ps)"
      by (rule arg_cong)
    with Some show ?thesis by (simp add: predicate_text_with_def)
  qed (simp add: predicate_text_with_def)
  with bind_params_render[of "predicate_pieces (policy_parts p ctx)" occ 0 ?params bs]
      predicate_pieces_ok[of "policy_parts p ctx"] shape compile_table(1)[OF assms(1), of ser sha256 ctx]
  show ?thesis by (simp add: render_predicate predicate_text_placeholder)
qed

lemma max_by_key_snoc:
  "max_by_key f (xs @ [x]) = (case max_by_key f xs of None \<Rightarrow> Some x | Some b \<Rightarrow> if f b \<le> f x then Some x else Some b)"
  by (simp add: max_by_key_def)

lemma max_by_key_last_greatest:
  "(case max_by_key f xs of
      None \<Rightarrow> xs = []
    | Some b \<Rightarrow> \<exists>pre post. xs = pre @ b # post \<and> list_all (\<lambda>x. f x \<le> f b) pre \<and> list_all (\<lambda>x. f x < f b) post)"
proof (induction xs rule: rev_induct)
  case (snoc x xs)
  show ?case
  proof (cases "max_by_key f xs")
    case None
    with snoc show ?thesis by (auto simp: max_by_key_def intro: exI[of _ "[]"])
  next
    case (Some c)
    with snoc obtain pre post where c: "xs = pre @ c # post" "list_all (\<lambda>x. f x \<le> f c) pre" "list_all (\<lambda>x. f x < f c) post"
      by auto
    show ?thesis
    proof (cases "f c \<le> f x")
      case True
      with c have "list_all (\<lambda>y. f y \<le> f x) xs" by (auto simp: list_all_iff intro: order.trans less_imp_le)
      then have "\<exists>pre post. xs @ [x] = pre @ x # post \<and> list_all (\<lambda>y. f y \<le> f x) pre \<and> list_all (\<lambda>y. f y < f x) post"
        by (intro exI[of _ xs] exI[of _ "[]"]) simp
      moreover have "max_by_key f (xs @ [x]) = Some x" using True Some by (simp add: max_by_key_snoc)
      ultimately show ?thesis by (simp only: option.case)
    next
      case False
      with c have "\<exists>pre post. xs @ [x] = pre @ c # post \<and> list_all (\<lambda>y. f y \<le> f c) pre \<and> list_all (\<lambda>y. f y < f c) post"
        by (intro exI[of _ pre] exI[of _ "post @ [x]"]) simp
      moreover have "max_by_key f (xs @ [x]) = Some c" using False Some by (simp add: max_by_key_snoc)
      ultimately show ?thesis by (simp only: option.case)
    qed
  qed
qed (simp add: max_by_key_def)

lemma doc_policy_allows:
  "cp_docs_subject_allowed (compile_policy ser sha256 p ctx) \<longleftrightarrow>
     (\<exists>prefix. rp_target p = DocPrefix prefix) \<and> rp_rule p \<noteq> [] \<and> list_all (\<lambda>r. subject_satisfies r ctx) (rp_rule p)"
  by (auto simp: compile_policy_def Let_def split: policy_target.splits option.splits)

section \<open>The properties\<close>

text \<open>C2. A table's policy whose rules name no column with a brace in it admits exactly the rows its rules name. The text that reaches the
  database is the predicate over bound names (the condition is needed: \<open>brace_column_is_rewritten\<close>); read with the bound values it holds of a row exactly when the policy has a rule,
  every rule has a value for this subject, and the row's column equals the first such value (\<open>eq\<close>) or one of
  them (\<open>in\<close>). No policy, and a rule whose attribute the subject lacks, admit no row.\<close>

theorem table_policy_admits_exactly:
  assumes "rp_target p = Table t" "list_all (\<lambda>r. CHR ''{'' \<notin> set (pr_column_or_attr r)) (rp_rule p)"
  shows "fst (bind_params occ 0 (cp_rls_params (compile_policy ser sha256 p ctx)) (cp_rls_predicate (compile_policy ser sha256 p ctx)) bs)
      = predicate_text_with (bound_name occ) (policy_parts p ctx)
    \<and> snd (bind_params occ 0 (cp_rls_params (compile_policy ser sha256 p ctx)) (cp_rls_predicate (compile_policy ser sha256 p ctx)) bs)
      = bs @ map (\<lambda>k. (bound_name occ k, cp_rls_params (compile_policy ser sha256 p ctx) ! k))
               [0..<length (cp_rls_params (compile_policy ser sha256 p ctx))]
    \<and> (predicate_holds sql_eq (cp_rls_params (compile_policy ser sha256 p ctx)) (policy_parts p ctx) \<longleftrightarrow> row_admitted sql_eq p ctx)"
  using compiled_text_bound[OF assms] compile_admits[OF assms(1)] by simp

definition region_policy :: row_policy where
  "region_policy = \<lparr>rp_id = 1, rp_tenant_id = 7, rp_version = 1, rp_target = Table ''orders'',
     rp_rule = [\<lparr>pr_column_or_attr = ''region'', pr_op = OpEq, pr_value = Attr ''region''\<rparr>,
                \<lparr>pr_column_or_attr = ''status'', pr_op = OpIn, pr_value = Literal (JArr [JStr ''paid'', JStr ''sent''])\<rparr>],
     rp_created_unix = 0\<rparr>"

definition alice :: security_context where
  "alice = \<lparr>sc_subject = ''alice'', sc_issuer = None, sc_method = ''oauth'', sc_attrs = [(''region'', JStr ''EU'')]\<rparr>"

text \<open>The placeholders are replaced in the whole text, quoted column names included: a column called \<open>{p0}\<close>, which \<open>host.policy.set\<close>
  accepts, is compared under the name of the bound value.\<close>

definition brace_policy :: row_policy where
  "brace_policy = region_policy\<lparr>rp_rule := [\<lparr>pr_column_or_attr = ''{p0}'', pr_op = OpEq, pr_value = Literal (JStr ''EU'')\<rparr>]\<rparr>"

lemma brace_column_is_rewritten:
  "cp_rls_predicate (compile_policy (\<lambda>_. []) id brace_policy alice) = [CHR 0x22] @ ''{p0}'' @ [CHR 0x22] @ '' = {p0}''
   \<and> fst (bind_params 0 0 (cp_rls_params (compile_policy (\<lambda>_. []) id brace_policy alice))
       (cp_rls_predicate (compile_policy (\<lambda>_. []) id brace_policy alice)) []) = [CHR 0x22] @ '':rp0_0'' @ [CHR 0x22] @ '' = :rp0_0''"
  by code_simp

lemma region_text:
  "predicate_text_with (bound_name 0) (policy_parts region_policy alice) =
     [CHR 0x22] @ ''region'' @ [CHR 0x22] @ '' = :rp0_0 AND '' @ [CHR 0x22] @ ''status'' @ [CHR 0x22] @ '' IN (:rp0_1, :rp0_2)''"
  by code_simp

lemma table_policy_admits_exactly_witness:
  "fst (bind_params 0 0 (cp_rls_params (compile_policy (\<lambda>_. []) id region_policy alice))
      (cp_rls_predicate (compile_policy (\<lambda>_. []) id region_policy alice)) [])
    = [CHR 0x22] @ ''region'' @ [CHR 0x22] @ '' = :rp0_0 AND '' @ [CHR 0x22] @ ''status'' @ [CHR 0x22] @ '' IN (:rp0_1, :rp0_2)''"
proof -
  have "rp_target region_policy = Table ''orders''"
    and "list_all (\<lambda>r. CHR ''{'' \<notin> set (pr_column_or_attr r)) (rp_rule region_policy)"
    by code_simp+
  from table_policy_admits_exactly[OF this, of 0 "\<lambda>_. []" id alice "[]" "\<lambda>_ _. True"] show ?thesis
    by (simp add: region_text)
qed

text \<open>No value reaches the SQL text: two policies on tables, for any two subjects, whose rules name the
  same columns and operators with the same number of values give the same predicate, whatever the values are.\<close>

theorem predicate_has_no_values:
  assumes "rp_target p = Table t" "rp_target p' = Table t'"
    "map (\<lambda>(c, op, vals). (c, op, length vals)) (resolve_rules p ctx) = map (\<lambda>(c, op, vals). (c, op, length vals)) (resolve_rules p' ctx')"
  shows "cp_rls_predicate (compile_policy ser sha256 p ctx) = cp_rls_predicate (compile_policy ser sha256 p' ctx')"
proof -
  have "rp_rule p = [] \<longleftrightarrow> rp_rule p' = []"
    using arg_cong[OF assms(3), of length] by (auto simp: resolve_rules_def)
  then show ?thesis
    using parts_of_counts[OF assms(3), of 0] compile_table(1)[OF assms(1)] compile_table(1)[OF assms(2)]
    by (simp add: policy_parts_def)
qed

lemma predicate_has_no_values_witness:
  "cp_rls_predicate (compile_policy (\<lambda>_. []) id region_policy alice)
    = cp_rls_predicate (compile_policy (\<lambda>_. []) id region_policy (alice\<lparr>sc_attrs := [(''region'', JStr (''x; DROP'' @ [CHR 0x27]))]\<rparr>))"
proof (rule predicate_has_no_values)
  show "rp_target region_policy = Table ''orders''" "rp_target region_policy = Table ''orders''" by (simp_all add: region_policy_def)
qed code_simp

text \<open>A document is open to a subject exactly when the policy with the longest prefix of its name (the last
  one, of several as long) is a document policy with at least one rule, all of which the subject meets.
  Without a matching prefix it is closed; a shorter prefix is never asked.\<close>

theorem doc_allowed_by_longest_prefix:
  "(filter (\<lambda>p. starts_with doc_name (target_value (rp_target p))) policies = [] \<and> \<not> doc_allowed ser sha256 policies doc_name ctx)
   \<or> (\<exists>pre p post. filter (\<lambda>p. starts_with doc_name (target_value (rp_target p))) policies = pre @ p # post
        \<and> list_all (\<lambda>q. str_len (target_value (rp_target q)) \<le> str_len (target_value (rp_target p))) pre
        \<and> list_all (\<lambda>q. str_len (target_value (rp_target q)) < str_len (target_value (rp_target p))) post
        \<and> (doc_allowed ser sha256 policies doc_name ctx \<longleftrightarrow>
             (\<exists>prefix. rp_target p = DocPrefix prefix) \<and> rp_rule p \<noteq> [] \<and> list_all (\<lambda>r. subject_satisfies r ctx) (rp_rule p)))"
proof -
  let ?m = "filter (\<lambda>p. starts_with doc_name (target_value (rp_target p))) policies"
  let ?f = "\<lambda>p. str_len (target_value (rp_target p))"
  show ?thesis
  proof (cases "max_by_key ?f ?m")
    case None
    then show ?thesis using max_by_key_last_greatest[where f = ?f and xs = ?m] by (simp add: doc_allowed_def)
  next
    case (Some p)
    then have "doc_allowed ser sha256 policies doc_name ctx = cp_docs_subject_allowed (compile_policy ser sha256 p ctx)"
      by (simp add: doc_allowed_def)
    then show ?thesis using max_by_key_last_greatest[where f = ?f and xs = ?m] Some unfolding doc_policy_allows by auto
  qed
qed

lemma restricted_query_parts:
  assumes "restrict_query ser sha256 parse_sql de tenant ctx rows q = Inr (st, q')"
  shows "set (wrapped_query q') \<subseteq> set (wrapped_query q) \<union>
      {(t, txt). \<exists>p occ. load_table_policy de tenant (to_lowercase t) rows = Inr p
         \<and> rp_target p = Table (to_lowercase t) \<and> txt = bound_text occ (compile_policy ser sha256 p ctx)}"
    and "set (unfiltered_query {} q') \<subseteq> set (cte_names_query q)"
proof -
  let ?f = "\<lambda>n. case load_table_policy de tenant n rows of Inl e \<Rightarrow> Inl e | Inr p \<Rightarrow> Inr (n, compile_policy ser sha256 p ctx)"
  from assms obtain compiled where c: "load_each ?f (sort (referenced_table_names q)) = Inr compiled"
      "apply_rewrite parse_sql compiled q = Inr (st, q')"
    by (auto simp: restrict_query_def split: sum.splits)
  note keys = load_each_keys[OF c(1)]
  have target: "load_table_policy de tenant n rows = Inr p \<Longrightarrow> rp_target p = Table n" for n p
    by (auto simp: load_table_policy_def row_policy_from_record_def split: option.splits sum.splits)
  show "set (wrapped_query q') \<subseteq> set (wrapped_query q) \<union>
      {(t, txt). \<exists>p occ. load_table_policy de tenant (to_lowercase t) rows = Inr p
         \<and> rp_target p = Table (to_lowercase t) \<and> txt = bound_text occ (compile_policy ser sha256 p ctx)}"
    using rewrite_wraps(1)[OF c(2)[unfolded apply_rewrite_def]] target by (fastforce simp: keys)
  have loaded: "n \<in> set (referenced_table_names q) \<Longrightarrow> \<exists>p. load_table_policy de tenant n rows = Inr p" for n
    using load_each_total[OF c(1), of n] by (cases "load_table_policy de tenant n rows") auto
  have "n \<in> set (cte_names_query q)" if "n \<in> set (factors_query q)" "map_of compiled n = None" for n
  proof (rule ccontr)
    assume "n \<notin> set (cte_names_query q)"
    with that(1) have n: "n \<in> set (referenced_table_names q)"
      by (simp add: referenced_table_names_def set_first_seen)
    with loaded obtain p where "load_table_policy de tenant n rows = Inr p" by blast
    with n that(2) keys[of n "compile_policy ser sha256 p ctx"] show False by auto
  qed
  with rewrite_unfiltered(1)[OF c(2)[unfolded apply_rewrite_def], of "{}"]
  show "set (unfiltered_query {} q') \<subseteq> set (cte_names_query q)" by blast
qed

text \<open>C1. What a restricted query still reads. Every table the rewritten query wraps carries the compiled
  policy of that table for the subject (the empty policy, which admits nothing, if it has none), and a name
  the rewritten query still reads as a real table, outside a wrapped one, is also the name of some \<open>WITH\<close>
  entry of the query: a query without \<open>WITH\<close> reads nothing unfiltered.\<close>

theorem restricted_query_reads:
  assumes "restrict_query ser sha256 parse_sql de tenant ctx rows q = Inr (st, q')"
  shows "set (wrapped_query q') \<subseteq> set (wrapped_query q) \<union>
      {(t, txt). \<exists>p occ. load_table_policy de tenant (to_lowercase t) rows = Inr p
         \<and> rp_target p = Table (to_lowercase t) \<and> txt = bound_text occ (compile_policy ser sha256 p ctx)}
    \<and> set (unfiltered_query {} q') \<subseteq> set (cte_names_query q)"
  using restricted_query_parts[OF assms] by (rule conjI)

definition orders_query :: sql_query where
  "orders_query = Query [(''recent'', Query [] [Factor [''Orders''] None])] [Factor [''recent''] None, Factor [''main'', ''orders''] (Some ''o'')]"

definition stored_region :: "policy_rule list policy_record list" where
  "stored_region = [\<lparr>pc_id = 1, pc_tenant_id = 7, pc_version = 1, pc_target_kind = ''table'', pc_target_value = ''orders'',
     pc_rule_json = [\<lparr>pr_column_or_attr = ''region'', pr_op = OpEq, pr_value = Attr ''region''\<rparr>], pc_created_unix = 0\<rparr>]"

definition orders_restricted :: "app_error + (rewriter \<times> sql_query)" where
  "orders_restricted = restrict_query (\<lambda>_. []) id (\<lambda>_. ParsedQuery) Inr 7 alice stored_region orders_query"

lemma orders_restricted_eq:
  "orders_restricted = Inr (\<lparr>rs_bindings = [('':rp0_0'', JStr ''EU''), ('':rp1_0'', JStr ''EU'')], rs_occurrence = 2, rs_rewrote_any = True\<rparr>,
     Query [(''recent'', Query [] [Filtered ''Orders'' ([CHR 0x22] @ ''region'' @ [CHR 0x22] @ '' = :rp0_0'') ''Orders''])]
       [Factor [''recent''] None, Filtered ''orders'' ([CHR 0x22] @ ''region'' @ [CHR 0x22] @ '' = :rp1_0'') ''o''])"
  by code_simp

lemma restricted_query_reads_witness:
  "\<exists>st q'. orders_restricted = Inr (st, q') \<and> length (wrapped_query q') = 2 \<and> set (unfiltered_query {} q') \<subseteq> {''recent''}"
proof -
  obtain st q' where r: "orders_restricted = Inr (st, q')" "length (wrapped_query q') = 2"
    using orders_restricted_eq by simp
  have "set (cte_names_query orders_query) = {''recent''}" by code_simp
  with restricted_query_reads[OF r(1)[unfolded orders_restricted_def]] r show ?thesis by auto
qed

text \<open>The name of a \<open>WITH\<close> entry is taken out of the tables to filter for the whole query, while a name
  with a schema in front always reads the table.\<close>

definition shadow_query :: sql_query where
  "shadow_query = Query [(''orders'', Query [] [])] [Factor [''main'', ''orders''] None]"

text \<open>A query can read a policied table unfiltered: \<open>WITH orders AS (SELECT 1) SELECT * FROM main.orders\<close>
  is accepted, wraps nothing, binds nothing and reads the table \<open>orders\<close>, whatever policies are stored and
  whoever asks.\<close>

theorem with_name_disables_policy:
  "restrict_query ser sha256 parse_sql de tenant ctx rows shadow_query
      = Inr (\<lparr>rs_bindings = [], rs_occurrence = 0, rs_rewrote_any = False\<rparr>, shadow_query)
   \<and> wrapped_query shadow_query = [] \<and> unfiltered_query {} shadow_query = [''orders'']"
proof -
  have "referenced_table_names shadow_query = []" "wrapped_query shadow_query = []" "unfiltered_query {} shadow_query = [''orders'']"
    by code_simp+
  then show ?thesis
    by (simp add: restrict_query_def apply_rewrite_def) (simp add: shadow_query_def rewrite_factor_def object_name_last_def)
qed

text \<open>The widening check looks at one column and its set of literals, not at the operator: a rule that turns
  \<open>eq\<close> into \<open>in\<close> over the same list passes as no widening, though the old rule admitted the rows of the first
  value only and the new one admits those of both.\<close>

theorem operator_change_is_not_seen_as_widening:
  "find_widening show [\<lparr>pr_column_or_attr = c, pr_op = OpEq, pr_value = Literal (JArr [a, b])\<rparr>]
       [\<lparr>pr_column_or_attr = c, pr_op = OpIn, pr_value = Literal (JArr [a, b])\<rparr>] = None
   \<and> row_admitted sql_eq (p\<lparr>rp_rule := [\<lparr>pr_column_or_attr = c, pr_op = OpEq, pr_value = Literal (JArr [a, b])\<rparr>]\<rparr>) ctx = sql_eq c a
   \<and> row_admitted sql_eq (p\<lparr>rp_rule := [\<lparr>pr_column_or_attr = c, pr_op = OpIn, pr_value = Literal (JArr [a, b])\<rparr>]\<rparr>) ctx = (sql_eq c a \<or> sql_eq c b)"
  by (simp add: widens_def row_admitted_def resolved_values_def)

lemma find_snoc: "find P xs = None \<Longrightarrow> find P (xs @ [x]) = (if P x then Some x else None)"
  by (induction xs) (auto split: if_splits)

lemma get_row_policy_upsert:
  "\<exists>r. get_row_policy tenant kind v (upsert_row_policy new_id tenant kind v version txt now rows) = Some r
     \<and> pc_version r = version \<and> pc_rule_json r = txt"
proof (cases "get_row_policy tenant kind v rows")
  case None
  then show ?thesis by (simp add: upsert_row_policy_def) (simp add: get_row_policy_def find_snoc)
next
  case (Some o_row)
  then show ?thesis
    by (induction rows) (auto simp: upsert_row_policy_def get_row_policy_def split: if_splits)
qed

lemma get_row_policy_upsert_other:
  assumes "(tn, k, w) \<noteq> (tenant, kind, v)"
  shows "get_row_policy tn k w (upsert_row_policy new_id tenant kind v version txt now rows) = get_row_policy tn k w rows"
proof -
  let ?u = "\<lambda>r. if pc_tenant_id r = tenant \<and> pc_target_kind r = kind \<and> pc_target_value r = v
            then r\<lparr>pc_version := version, pc_rule_json := txt, pc_created_unix := now\<rparr> else r"
  have "get_row_policy tn k w (map ?u rows) = get_row_policy tn k w rows"
    using assms by (induction rows) (auto simp: get_row_policy_def)
  moreover have "get_row_policy tn k w (rows @ [r]) = get_row_policy tn k w rows"
    if "pc_tenant_id r = tenant" "pc_target_kind r = kind" "pc_target_value r = v" for r
    using assms that by (induction rows) (auto simp: get_row_policy_def)
  ultimately show ?thesis by (simp add: upsert_row_policy_def split: option.splits)
qed

lemma find_widening_None:
  "find_widening show olds news = None \<longleftrightarrow> list_all (\<lambda>old. list_all (\<lambda>new. \<not> widens show old new) news) olds"
  by (induction olds) (auto simp: find_None_iff find_Some_iff list_all_iff split: option.splits)

text \<open>\<open>host.policy.set\<close> changes a policy or refuses. A refusal leaves every stored policy as it was. A call
  that succeeds came without an end user; afterwards its target has the rules of the call and the next version
  number, every other policy of every tenant is untouched, and, unless \<open>replace\<close> was given, no rule of the
  policy it replaced is widened in the sense of \<open>widens\<close>.\<close>

theorem policy_set_effect:
  "case policy_set pf now new_id tenant args end_user rows of (res, rows') \<Rightarrow>
     (case res of
        Inl _ \<Rightarrow> rows' = rows
      | Inr _ \<Rightarrow> \<not> end_user \<and>
         (\<exists>target rule r.
            parse_arg ''target'' (pf_target_from pf) args = Inr target
          \<and> parse_arg ''rule'' (pf_rules_from pf) args = Inr rule
          \<and> get_row_policy tenant (target_kind target) (target_value target) rows' = Some r
          \<and> pc_rule_json r = pf_rules_text pf rule
          \<and> pc_version r = (case get_row_policy tenant (target_kind target) (target_value target) rows of Some old \<Rightarrow> pc_version old + 1 | None \<Rightarrow> 1)
          \<and> (\<forall>tn k w. (tn, k, w) = (tenant, target_kind target, target_value target)
               \<or> get_row_policy tn k w rows' = get_row_policy tn k w rows)
          \<and> (arg_bool args ''replace''
             \<or> (case get_row_policy tenant (target_kind target) (target_value target) rows of
                  None \<Rightarrow> True
                | Some old \<Rightarrow> (case pf_text_rules pf (pc_rule_json old) of
                    Inl _ \<Rightarrow> False
                  | Inr old_rules \<Rightarrow> list_all (\<lambda>old. list_all (\<lambda>new. \<not> widens (pf_show pf) old new) rule) old_rules)))))"
proof (cases "policy_set pf now new_id tenant args end_user rows")
  case (Pair res rows')
  show ?thesis
  proof (cases res)
    case (Inl e)
    with Pair show ?thesis by (auto simp: policy_set_def Let_def split: option.splits sum.splits if_splits)
  next
    case (Inr j)
    with Pair obtain target rule where p: "\<not> end_user" "parse_arg ''target'' (pf_target_from pf) args = Inr target"
        "parse_arg ''rule'' (pf_rules_from pf) args = Inr rule"
      by (auto simp: policy_set_def require_tenant_key_def split: sum.splits if_splits)
    let ?old = "get_row_policy tenant (target_kind target) (target_value target) rows"
    let ?version = "case ?old of Some old \<Rightarrow> pc_version old + 1 | None \<Rightarrow> 1"
    have after: "rows' = upsert_row_policy new_id tenant (target_kind target) (target_value target) ?version (pf_rules_text pf rule) now rows"
      and guard: "arg_bool args ''replace'' \<or> (case ?old of None \<Rightarrow> True
         | Some old \<Rightarrow> (case pf_text_rules pf (pc_rule_json old) of Inl _ \<Rightarrow> False
             | Inr old_rules \<Rightarrow> find_widening (pf_show pf) old_rules rule = None))"
      using Pair Inr p by (auto simp: policy_set_def require_tenant_key_def Let_def split: option.splits sum.splits if_splits)
    obtain r where r: "get_row_policy tenant (target_kind target) (target_value target) rows' = Some r"
        "pc_version r = ?version" "pc_rule_json r = pf_rules_text pf rule"
      using get_row_policy_upsert after by metis
    have other_keys: "(tn, k, w) = (tenant, target_kind target, target_value target) \<or> get_row_policy tn k w rows' = get_row_policy tn k w rows" for tn k w
      using get_row_policy_upsert_other after by metis
    show ?thesis
      using p r other_keys guard unfolding Pair Inr find_widening_None by simp
  qed
qed

definition attr_key :: "'t attr_row \<Rightarrow> int \<times> string \<times> string" where
  "attr_key r = (ea_tenant_id r, ea_subject r, ea_attr r)"

definition attr_of :: "('t \<Rightarrow> json option) \<Rightarrow> 't attr_row list \<Rightarrow> int \<times> string \<times> string \<Rightarrow> json option" where
  "attr_of de rows k = Option.bind (map_of (map (\<lambda>r. (attr_key r, ea_value r)) rows) k) de"

lemma attrs_get_attr_of:
  assumes "distinct (map attr_key rows)"
  shows "map_of (end_user_attrs_get de tenant subject rows) a = attr_of de rows (tenant, subject, a)"
proof -
  let ?ins = "\<lambda>r out. case de (ea_value r) of Some v \<Rightarrow> obj_insert (ea_attr r) v out | None \<Rightarrow> out"
  have "map_of (fold ?ins (filter (\<lambda>r. ea_tenant_id r = tenant \<and> ea_subject r = subject) rows) out) a
      = (case attr_of de rows (tenant, subject, a) of Some v \<Rightarrow> Some v | None \<Rightarrow> map_of out a)" for out
    using assms
  proof (induction rows arbitrary: out)
    case (Cons r rows)
    have "attr_of de rows (attr_key r) = None"
      using Cons.prems by (simp add: attr_of_def map_of_eq_None_iff[THEN iffD2] image_image)
    with Cons show ?case
      by (auto simp: attr_of_def attr_key_def split: option.splits)
  qed (simp add: attr_of_def)
  then show ?thesis by (simp add: end_user_attrs_get_def split: option.splits)
qed

lemma attr_upsert_keys:
  "map attr_key (attr_upsert ser tenant subject kv rows) =
     (if (tenant, subject, fst kv) \<in> set (map attr_key rows) then map attr_key rows
      else map attr_key rows @ [(tenant, subject, fst kv)])"
  by (auto simp: attr_upsert_def Let_def list_ex_iff attr_key_def)

lemma attr_upsert_distinct:
  "distinct (map attr_key rows) \<Longrightarrow> distinct (map attr_key (attr_upsert ser tenant subject kv rows))"
  unfolding attr_upsert_keys by simp

lemma map_of_update_hit:
  "map_of (map (\<lambda>r. (attr_key r, ea_value r)) (map (\<lambda>r. if attr_key r = k then r\<lparr>ea_value := v\<rparr> else r) rows)) k'
     = (if k' = k \<and> k \<in> set (map attr_key rows) then Some v else map_of (map (\<lambda>r. (attr_key r, ea_value r)) rows) k')"
  by (induction rows) (auto simp: attr_key_def)

lemma attr_upsert_value:
  assumes "\<And>v. de (ser v) = Some v"
  shows "attr_of de (attr_upsert ser tenant subject kv rows) k =
    (if k = (tenant, subject, fst kv) then Some (snd kv) else attr_of de rows k)"
proof -
  let ?k = "(tenant, subject, fst kv)"
  have up: "attr_upsert ser tenant subject kv rows =
      (if ?k \<in> set (map attr_key rows) then map (\<lambda>r. if attr_key r = ?k then r\<lparr>ea_value := ser (snd kv)\<rparr> else r) rows
       else rows @ [\<lparr>ea_tenant_id = tenant, ea_subject = subject, ea_attr = fst kv, ea_value = ser (snd kv)\<rparr>])"
    by (auto simp: attr_upsert_def Let_def list_ex_iff attr_key_def)
  show ?thesis
  proof (cases "?k \<in> set (map attr_key rows)")
    case True
    then have "attr_upsert ser tenant subject kv rows = map (\<lambda>r. if attr_key r = ?k then r\<lparr>ea_value := ser (snd kv)\<rparr> else r) rows"
      by (simp only: up if_True)
    then show ?thesis using True assms by (simp only: attr_of_def map_of_update_hit) simp
  next
    case False
    then have "attr_upsert ser tenant subject kv rows = rows @ [\<lparr>ea_tenant_id = tenant, ea_subject = subject, ea_attr = fst kv, ea_value = ser (snd kv)\<rparr>]"
      by (simp only: up if_False)
    moreover have "map_of (map (\<lambda>r. (attr_key r, ea_value r)) rows) ?k = None"
      using False by (simp add: map_of_eq_None_iff image_image)
    ultimately show ?thesis using assms by (auto simp: attr_of_def map_add_def attr_key_def split: option.splits)
  qed
qed

lemma attrs_set_value:
  assumes "\<And>v. de (ser v) = Some v"
  shows "attr_of de (end_user_attrs_set ser tenant subject attrs rows) (t, s, a) =
    (if t = tenant \<and> s = subject then (case map_of (rev attrs) a of Some v \<Rightarrow> Some v | None \<Rightarrow> attr_of de rows (t, s, a))
     else attr_of de rows (t, s, a))"
  unfolding end_user_attrs_set_def
proof (induction attrs arbitrary: rows)
  case (Cons kv attrs)
  then show ?case
    using attr_upsert_value[where de = de and ser = ser, OF assms, of tenant subject kv rows]
    by (auto simp: map_add_def split: option.splits)
qed simp

text \<open>\<open>host.policy.attrs_set\<close> merges: afterwards the subject reads the new value of every attribute named and
  the old one of every other, and no other subject, of this tenant or another, reads anything new. The
  table's key, one row per tenant, subject and attribute, is kept.\<close>

theorem attrs_set_merges:
  assumes "\<And>v. de (ser v) = Some v" "distinct (map attr_key rows)"
  shows "distinct (map attr_key (end_user_attrs_set ser tenant subject attrs rows))
    \<and> map_of (end_user_attrs_get de t s (end_user_attrs_set ser tenant subject attrs rows)) =
      (if t = tenant \<and> s = subject then map_of (end_user_attrs_get de t s rows) ++ map_of (rev attrs)
       else map_of (end_user_attrs_get de t s rows))"
proof -
  have d: "distinct (map attr_key (end_user_attrs_set ser tenant subject attrs rows))"
    using assms(2) unfolding end_user_attrs_set_def by (induction attrs arbitrary: rows) (simp_all add: attr_upsert_distinct)
  show ?thesis
    using d attrs_set_value[where de = de and ser = ser, OF assms(1), of tenant subject attrs rows]
    by (auto simp: fun_eq_iff attrs_get_attr_of[OF d] attrs_get_attr_of[OF assms(2)] map_add_def split: option.splits)
qed

lemma attrs_set_merges_witness:
  "map_of (end_user_attrs_get Some 7 ''bob'' (end_user_attrs_set id 7 ''bob'' [(''region'', JStr ''US'')]
     [\<lparr>ea_tenant_id = 7, ea_subject = ''bob'', ea_attr = ''region'', ea_value = JStr ''EU''\<rparr>])) ''region'' = Some (JStr ''US'')"
  using attrs_set_merges[of Some id "[\<lparr>ea_tenant_id = 7, ea_subject = ''bob'', ea_attr = ''region'', ea_value = JStr ''EU''\<rparr>]"
      7 "''bob''" "[(''region'', JStr ''US'')]" 7 "''bob''"] by simp
end
