(* ===== verification/TenantState.thy ===== *)
theory TenantState
  imports Errors
begin

text \<open>
  \<open>src/tenant_state.rs\<close>, with \<open>resolve_end_user\<close> and \<open>check_end_user_quota\<close> of \<open>src/enduser.rs\<close>, the coercion
  of \<open>src/tables.rs\<close> and the statements of \<open>src/db.rs\<close> they run: a tenant's key-value store and its schema-checked
  tables, both split by end user and bounded by the plan.

  A table of the database is a list of rows in the order of insertion. Stored texts are real strings, as the
  quotas count them: the handlers in bytes (\<open>str_len\<close>), the SQL in characters (\<open>LENGTH\<close> of a text). Byte counts are
  sizes of stored texts and stay far below the range of \<open>i64\<close>, so they are written without wrap-around. The JSON
  printer and parser, the parser of floats, the rounding of an integer to a float and the name similarity of
  the \<open>strsim\<close> crate are arguments, kept together in \<open>state_fns\<close>.
\<close>

section \<open>Schemas\<close>

datatype column_type = CText | CInteger | CReal | CBoolean | CJson

fun column_as_str :: "column_type \<Rightarrow> string" where
  "column_as_str CText = ''text''"
| "column_as_str CInteger = ''integer''"
| "column_as_str CReal = ''real''"
| "column_as_str CBoolean = ''boolean''"
| "column_as_str CJson = ''json''"

definition column_parse :: "string \<Rightarrow> column_type option" where
  "column_parse s =
     (if s = ''text'' then Some CText else if s = ''integer'' then Some CInteger
      else if s = ''real'' then Some CReal else if s = ''boolean'' then Some CBoolean
      else if s = ''json'' then Some CJson else None)"

fun column_matches :: "column_type \<Rightarrow> json \<Rightarrow> bool" where
  "column_matches CText v = (case v of JStr _ \<Rightarrow> True | _ \<Rightarrow> False)"
| "column_matches CInteger v = (case v of JInt i \<Rightarrow> i64_min \<le> i \<and> i \<le> int u64_max | _ \<Rightarrow> False)"
| "column_matches CReal v = (case v of JInt _ \<Rightarrow> True | JFloat _ \<Rightarrow> True | _ \<Rightarrow> False)"
| "column_matches CBoolean v = (case v of JBool _ \<Rightarrow> True | _ \<Rightarrow> False)"
| "column_matches CJson v = True"

record table_schema =
  ts_columns :: "(string \<times> column_type) list"
  ts_primary_key :: "string option"

record state_fns =
  sf_ser :: "json \<Rightarrow> string"
  sf_de :: "string \<Rightarrow> string + json"
  sf_float :: "string \<Rightarrow> json option"
  sf_f64 :: "int \<Rightarrow> rat"
  sf_nearest :: "string \<Rightarrow> string list \<Rightarrow> string option"

definition parse_value :: "state_fns \<Rightarrow> string \<Rightarrow> json option" where
  "parse_value fns s = (case sf_de fns s of Inr v \<Rightarrow> Some v | Inl _ \<Rightarrow> None)"

definition state_arg_str :: "json \<Rightarrow> string \<Rightarrow> app_error + string" where
  "state_arg_str args name =
     (case Option.bind (json_get name args) as_str of
        Some s \<Rightarrow> Inr s
      | None \<Rightarrow> Inl (InvalidArgs (''missing required argument '' @ [CHR 0x27] @ name @ [CHR 0x27])))"

definition arg_str_opt :: "json \<Rightarrow> string \<Rightarrow> string option" where
  "arg_str_opt args name = Option.bind (json_get name args) as_str"

definition arg_i64_opt :: "json \<Rightarrow> string \<Rightarrow> int option" where
  "arg_i64_opt args name = Option.bind (json_get name args) as_i64"

definition state_quota_exceeded :: "string \<Rightarrow> int \<Rightarrow> int \<Rightarrow> app_error" where
  "state_quota_exceeded quota lmt used =
     Structured ''state_quota_exceeded''
       (''state quota exceeded: '' @ quota @ '' (limit '' @ show_int lmt @ '', at '' @ show_int used @ '')'')
       (mk_obj [(''quota'', JStr quota), (''limit'', JInt lmt), (''used'', JInt used)])"

definition state_table_not_found :: "string \<Rightarrow> app_error" where
  "state_table_not_found table =
     Structured ''state_table_not_found'' (''no table '' @ [CHR 0x27] @ table @ [CHR 0x27] @ '' is declared for this tenant'')
       (mk_obj [(''table'', JStr table)])"

fun json_kind :: "json \<Rightarrow> string" where
  "json_kind JNull = ''null''"
| "json_kind (JBool _) = ''boolean''"
| "json_kind (JInt _) = ''number''"
| "json_kind (JFloat _) = ''number''"
| "json_kind (JStr _) = ''string''"
| "json_kind (JArr _) = ''array''"
| "json_kind (JObj _) = ''object''"

fun accepts :: "column_type \<Rightarrow> string list" where
  "accepts CText = [''a string'']"
| "accepts CInteger = [''an integer (no fractional part)'']"
| "accepts CReal = [''a number'']"
| "accepts CBoolean = [''true or false'']"
| "accepts CJson = [''any JSON value'']"

definition schema_violation_error ::
  "state_fns \<Rightarrow> string \<Rightarrow> string \<Rightarrow> string \<Rightarrow> (column_type \<times> json) option \<Rightarrow> (string \<times> column_type) list \<Rightarrow> app_error" where
  "schema_violation_error fns c table field mismatch declared =
     (let declared_json = JArr (map (\<lambda>(n, t). mk_obj [(''name'', JStr n), (''type'', JStr (column_as_str t))]) declared);
          declared_text = join '', '' (map (\<lambda>(n, t). n @ '' '' @ column_as_str t) declared)
      in case mismatch of
           Some (ty, v) \<Rightarrow>
             Structured c
               (''column '' @ [CHR 0x27] @ field @ [CHR 0x27] @ '' must be of type '' @ [CHR 0x27] @ column_as_str ty @ [CHR 0x27]
                  @ '' (accepts '' @ join '' or '' (accepts ty) @ ''); got '' @ json_kind v)
               (mk_obj [(''field'', JStr field), (''kind'', JStr ''type_mismatch''), (''table'', JStr table),
                        (''declared'', declared_json), (''nearest'', JNull),
                        (''expected'', mk_obj [(''type'', JStr (column_as_str ty)), (''accepts'', JStrs (accepts ty))]),
                        (''got'', JStr (json_kind v))])
         | None \<Rightarrow>
             (let nearest = sf_nearest fns field (map fst declared) in
              Structured c
                (''column '' @ [CHR 0x27] @ field @ [CHR 0x27] @ '' is not declared on table '' @ [CHR 0x27] @ table @ [CHR 0x27]
                   @ '' (declared: '' @ declared_text
                   @ (case nearest of Some n \<Rightarrow> ''; nearest: '' @ [CHR 0x27] @ n @ [CHR 0x27] | None \<Rightarrow> []) @ '')'')
                (mk_obj [(''field'', JStr field), (''kind'', JStr ''unknown_column''), (''table'', JStr table),
                         (''declared'', declared_json), (''nearest'', opt_json JStr nearest),
                         (''expected'', JNull), (''got'', JNull)])))"

text \<open>The one coercion: a string that is canonically a value of the column's type.\<close>

definition coerce_canonical_numeral :: "state_fns \<Rightarrow> string \<Rightarrow> json \<Rightarrow> json option" where
  "coerce_canonical_numeral fns ty v =
     (case as_str v of None \<Rightarrow> None | Some txt \<Rightarrow>
      if ty = ''integer'' then
        (let digits = (case txt of c # cs \<Rightarrow> if c = CHR ''+'' \<or> c = CHR ''-'' then cs else txt | [] \<Rightarrow> []) in
         if digits = [] \<or> \<not> list_all is_ascii_digit digits then None
         else
           (let signed = (case txt of c # cs \<Rightarrow> if c = CHR ''+'' then cs else txt | [] \<Rightarrow> []) in
            case parse_i64 signed of
              Some i \<Rightarrow> Some (JInt i)
            | None \<Rightarrow> (case parse_digits signed of
                Some n \<Rightarrow> if n \<le> u64_max then Some (JInt (int n)) else None
              | None \<Rightarrow> None)))
      else if ty = ''real'' then
        (if \<not> (case txt of c # _ \<Rightarrow> c = CHR ''-'' \<or> is_ascii_digit c | [] \<Rightarrow> False) then None
         else case parse_value fns txt of
           Some (JInt i) \<Rightarrow> if is_whitespace (last txt) then None else Some (JInt i)
         | Some (JFloat r) \<Rightarrow> if is_whitespace (last txt) then None else Some (JFloat r)
         | _ \<Rightarrow> None)
      else if ty = ''boolean'' then
        (if txt = ''true'' then Some (JBool True) else if txt = ''false'' then Some (JBool False) else None)
      else None)"

definition coerced_entry :: "nat \<Rightarrow> string \<Rightarrow> string \<Rightarrow> json" where
  "coerced_entry row field ty =
     mk_obj [(''row'', JInt (int row)), (''field'', JStr field), (''from'', JStr ''string''), (''to'', JStr ty)]"

text \<open>The loop over a row's fields: the row with its coercions, and their entries.\<close>

fun validate_row ::
  "state_fns \<Rightarrow> string \<Rightarrow> (string \<times> column_type) list \<Rightarrow> nat \<Rightarrow> (string \<times> json) list
     \<Rightarrow> app_error + ((string \<times> json) list \<times> json list)" where
  "validate_row fns table columns index [] = Inr ([], [])"
| "validate_row fns table columns index ((field, v) # rest) =
     (case map_of columns field of
        None \<Rightarrow> Inl (schema_violation_error fns ''state_schema_violation'' table field None columns)
      | Some ty \<Rightarrow>
          (case (if column_matches ty v then Some (v, [])
                 else map_option (\<lambda>fixed. (fixed, [coerced_entry index field (column_as_str ty)]))
                   (coerce_canonical_numeral fns (column_as_str ty) v)) of
             None \<Rightarrow> Inl (schema_violation_error fns ''state_schema_violation'' table field (Some (ty, v)) columns)
           | Some (v', entry) \<Rightarrow>
               (case validate_row fns table columns index rest of
                  Inl e \<Rightarrow> Inl e
                | Inr (rest', entries) \<Rightarrow> Inr ((field, v') # rest', entry @ entries))))"

fun parse_columns :: "(string \<times> json) list \<Rightarrow> app_error + (string \<times> column_type) list" where
  "parse_columns [] = Inr []"
| "parse_columns ((k, v) # rest) =
     (case Option.bind (as_str v) column_parse of
        None \<Rightarrow> Inl (Internal (''stored schema_json has a bad type for column '' @ [CHR 0x27] @ k @ [CHR 0x27]))
      | Some ty \<Rightarrow> (case parse_columns rest of Inl e \<Rightarrow> Inl e | Inr cols \<Rightarrow> Inr ((k, ty) # cols)))"

definition parse_schema :: "state_fns \<Rightarrow> string \<Rightarrow> app_error + table_schema" where
  "parse_schema fns schema_json =
     (case sf_de fns schema_json of
        Inl e \<Rightarrow> Inl (Internal (''stored schema_json is corrupt: '' @ e))
      | Inr raw \<Rightarrow>
          (case as_object raw of
             None \<Rightarrow> Inl (Internal ''stored schema_json is not an object'')
           | Some m \<Rightarrow> (case parse_columns m of
               Inl e \<Rightarrow> Inl e
             | Inr cols \<Rightarrow> Inr \<lparr>ts_columns = cols, ts_primary_key = None\<rparr>)))"


section \<open>Filters\<close>

datatype filter_op = FEq | FNe | FLt | FLe | FGt | FGe

record filter_clause =
  fc_field :: string
  fc_op :: filter_op
  fc_value :: json

fun split_once_by :: "(char \<Rightarrow> bool) \<Rightarrow> string \<Rightarrow> (string \<times> string) option" where
  "split_once_by P [] = None"
| "split_once_by P (x # xs) =
     (if P x then Some ([], xs) else map_option (\<lambda>(a, b). (x # a, b)) (split_once_by P xs))"

text \<open>\<open>split_and\<close>: the scan over the lower-cased text for \<open>" and "\<close>, not after a blank. \<open>cur\<close> is the piece so
  far and \<open>prev\<close> the character before the position, if any.\<close>

function split_and_from :: "char option \<Rightarrow> string \<Rightarrow> string \<Rightarrow> string list" where
  "split_and_from prev cur [] = [cur]"
| "split_and_from prev cur (c # cs) =
     (if starts_with (to_ascii_lowercase (c # cs)) '' and '' \<and> prev \<noteq> Some CHR '' ''
      then cur # split_and_from (Some CHR '' '') [] (drop 5 (c # cs))
      else split_and_from (Some c) (cur @ [c]) cs)"
  by pat_completeness auto
termination
  by (relation "measure (\<lambda>(_, _, s). length s)") auto

definition split_and :: "string \<Rightarrow> string list" where
  "split_and s = split_and_from None [] s"

definition quoted_by :: "char \<Rightarrow> string \<Rightarrow> bool" where
  "quoted_by q raw \<longleftrightarrow> raw \<noteq> [] \<and> hd raw = q \<and> last raw = q \<and> 2 \<le> str_len raw"

definition parse_filter_value :: "state_fns \<Rightarrow> string \<Rightarrow> json" where
  "parse_filter_value fns raw =
     (if quoted_by CHR 0x27 raw \<or> quoted_by CHR 0x22 raw then JStr (butlast (tl raw))
      else case parse_i64 raw of
        Some i \<Rightarrow> JInt i
      | None \<Rightarrow> (case sf_float fns raw of
          Some f \<Rightarrow> f
        | None \<Rightarrow> if raw = ''true'' then JBool True else if raw = ''false'' then JBool False else JStr raw))"

definition filter_op_of :: "string \<Rightarrow> filter_op option" where
  "filter_op_of s =
     (if s = ''='' then Some FEq else if s = ''!='' then Some FNe else if s = ''<'' then Some FLt
      else if s = ''<='' then Some FLe else if s = ''>'' then Some FGt else if s = ''>='' then Some FGe else None)"

definition malformed_clause :: "string \<Rightarrow> app_error" where
  "malformed_clause clause = InvalidArgs (''malformed filter clause: '' @ [CHR 0x27] @ clause @ [CHR 0x27])"

definition parse_clause :: "state_fns \<Rightarrow> string \<Rightarrow> app_error + filter_clause" where
  "parse_clause fns clause =
     (case split_once_by is_whitespace clause of None \<Rightarrow> Inl (malformed_clause clause) | Some (field, rest) \<Rightarrow>
      case split_once_by is_whitespace (trim rest) of None \<Rightarrow> Inl (malformed_clause clause) | Some (op_str, value_str) \<Rightarrow>
      case filter_op_of op_str of
        None \<Rightarrow> Inl (InvalidArgs (''unknown filter operator '' @ [CHR 0x27] @ op_str @ [CHR 0x27] @ ''; expected one of = != < <= > >=''))
      | Some op \<Rightarrow> Inr \<lparr>fc_field = field, fc_op = op, fc_value = parse_filter_value fns (trim value_str)\<rparr>)"

fun parse_clauses :: "state_fns \<Rightarrow> string list \<Rightarrow> app_error + filter_clause list" where
  "parse_clauses fns [] = Inr []"
| "parse_clauses fns (raw # rest) =
     (if trim raw = [] then parse_clauses fns rest
      else case parse_clause fns (trim raw) of Inl e \<Rightarrow> Inl e | Inr c \<Rightarrow>
        (case parse_clauses fns rest of Inl e \<Rightarrow> Inl e | Inr cs \<Rightarrow> Inr (c # cs)))"

definition parse_filter :: "state_fns \<Rightarrow> string \<Rightarrow> app_error + filter_clause list" where
  "parse_filter fns input = parse_clauses fns (split_and input)"

datatype ordering = OLess | OEqual | OGreater

definition compare :: "'a::linorder \<Rightarrow> 'a \<Rightarrow> ordering" where
  "compare a b = (if a < b then OLess else if a = b then OEqual else OGreater)"

fun number_of :: "state_fns \<Rightarrow> json \<Rightarrow> rat option" where
  "number_of fns (JInt i) = Some (sf_f64 fns i)"
| "number_of fns (JFloat r) = Some r"
| "number_of fns _ = None"

definition cmp_values :: "state_fns \<Rightarrow> json \<Rightarrow> json \<Rightarrow> ordering option" where
  "cmp_values fns a b =
     (case (number_of fns a, number_of fns b) of
        (Some x, Some y) \<Rightarrow> Some (compare x y)
      | _ \<Rightarrow> (case (as_str a, as_str b) of
          (Some x, Some y) \<Rightarrow> Some (compare x y)
        | _ \<Rightarrow> (case (as_bool a, as_bool b) of
            (Some x, Some y) \<Rightarrow> Some (compare x y)
          | _ \<Rightarrow> None)))"

fun clause_holds :: "filter_op \<Rightarrow> state_fns \<Rightarrow> json \<Rightarrow> json \<Rightarrow> bool" where
  "clause_holds FEq fns x y = (x = y)"
| "clause_holds FNe fns x y = (x \<noteq> y)"
| "clause_holds FLt fns x y = (cmp_values fns x y = Some OLess)"
| "clause_holds FLe fns x y = (cmp_values fns x y = Some OLess \<or> cmp_values fns x y = Some OEqual)"
| "clause_holds FGt fns x y = (cmp_values fns x y = Some OGreater)"
| "clause_holds FGe fns x y = (cmp_values fns x y = Some OGreater \<or> cmp_values fns x y = Some OEqual)"

definition row_matches :: "state_fns \<Rightarrow> json \<Rightarrow> filter_clause list \<Rightarrow> bool" where
  "row_matches fns row clauses =
     list_all (\<lambda>c. case json_get (fc_field c) row of None \<Rightarrow> False | Some v \<Rightarrow> clause_holds (fc_op c) fns v (fc_value c)) clauses"

definition strip_suffix :: "string \<Rightarrow> string \<Rightarrow> string option" where
  "strip_suffix suffix s =
     (if length suffix \<le> length s \<and> drop (length s - length suffix) s = suffix
      then Some (take (length s - length suffix) s) else None)"

definition parse_order_by :: "string \<Rightarrow> string \<times> bool" where
  "parse_order_by input =
     (let input = trim input in
      case map_option trim_end (strip_suffix ''desc'' input) of
        Some field \<Rightarrow>
          if field \<noteq> input then (field, True)
          else (case map_option trim_end (strip_suffix ''asc'' input) of
                  Some field \<Rightarrow> if field \<noteq> input then (field, False) else (input, False)
                | None \<Rightarrow> (input, False))
      | None \<Rightarrow> (case map_option trim_end (strip_suffix ''asc'' input) of
          Some field \<Rightarrow> if field \<noteq> input then (field, False) else (input, False)
        | None \<Rightarrow> (input, False)))"

fun reverse_ordering :: "ordering \<Rightarrow> ordering" where
  "reverse_ordering OLess = OGreater"
| "reverse_ordering OEqual = OEqual"
| "reverse_ordering OGreater = OLess"

text \<open>\<open>sort_by\<close> is a stable sort when the comparison is a total preorder; the comparison below is one on a column
  of one type. (Of any other comparison the standard library promises nothing; the sort here is insertion.)\<close>

fun insert_by :: "('a \<Rightarrow> 'a \<Rightarrow> ordering) \<Rightarrow> 'a \<Rightarrow> 'a list \<Rightarrow> 'a list" where
  "insert_by cmp x [] = [x]"
| "insert_by cmp x (y # ys) = (if cmp x y = OGreater then y # insert_by cmp x ys else x # y # ys)"

definition sort_by :: "('a \<Rightarrow> 'a \<Rightarrow> ordering) \<Rightarrow> 'a list \<Rightarrow> 'a list" where
  "sort_by cmp xs = foldr (insert_by cmp) xs []"

definition order_rows :: "state_fns \<Rightarrow> string \<Rightarrow> json \<Rightarrow> json \<Rightarrow> ordering" where
  "order_rows fns order_by a b =
     (let (field, desc) = parse_order_by order_by;
          get = (\<lambda>r. case json_get field r of Some v \<Rightarrow> v | None \<Rightarrow> JNull);
          ord = (case cmp_values fns (get a) (get b) of Some o' \<Rightarrow> o' | None \<Rightarrow> OEqual)
      in if desc then reverse_ordering ord else ord)"

section \<open>The database\<close>

record kv_row =
  kv_tenant :: int
  kv_key :: string
  kv_subject :: string
  kv_value :: string
  kv_updated :: int

record schema_row =
  tt_tenant :: int
  tt_name :: string
  tt_schema_json :: string
  tt_primary_key :: "string option"

record state_row =
  sr_id :: int
  sr_tenant :: int
  sr_table :: string
  sr_json :: string
  sr_subject :: string

record activity_row =
  ac_tenant :: int
  ac_subject :: string
  ac_last :: int

record state_db =
  sd_kv :: "kv_row list"
  sd_tables :: "schema_row list"
  sd_rows :: "state_row list"
  sd_activity :: "activity_row list"

definition state_kv_set :: "int \<Rightarrow> int \<Rightarrow> string \<Rightarrow> string \<Rightarrow> string \<Rightarrow> state_db \<Rightarrow> state_db" where
  "state_kv_set now tenant key subj val db =
     (let hit = (\<lambda>r. kv_tenant r = tenant \<and> kv_key r = key \<and> kv_subject r = subj) in
      db\<lparr>sd_kv := (if list_ex hit (sd_kv db)
           then map (\<lambda>r. if hit r then r\<lparr>kv_value := val, kv_updated := now\<rparr> else r) (sd_kv db)
           else sd_kv db @ [\<lparr>kv_tenant = tenant, kv_key = key, kv_subject = subj, kv_value = val, kv_updated = now\<rparr>])\<rparr>)"

definition state_kv_get :: "int \<Rightarrow> string \<Rightarrow> string \<Rightarrow> state_db \<Rightarrow> (string \<times> int) option" where
  "state_kv_get tenant key subj db =
     map_option (\<lambda>r. (kv_value r, kv_updated r))
       (find (\<lambda>r. kv_tenant r = tenant \<and> kv_key r = key \<and> kv_subject r = subj) (sd_kv db))"

definition state_kv_delete :: "int \<Rightarrow> string \<Rightarrow> string \<Rightarrow> state_db \<Rightarrow> bool \<times> state_db" where
  "state_kv_delete tenant key subj db =
     (let hit = (\<lambda>r. kv_tenant r = tenant \<and> kv_key r = key \<and> kv_subject r = subj) in
      (list_ex hit (sd_kv db), db\<lparr>sd_kv := filter (\<lambda>r. \<not> hit r) (sd_kv db)\<rparr>))"

text \<open>\<open>LIKE\<close> with \<open>ESCAPE '\'\<close>: \<open>%\<close> is any text, \<open>_\<close> any one character, and ASCII letters match in either case.
  The pattern of a prefix escapes the two wildcards, and not the escape character.\<close>

definition same_letter :: "char \<Rightarrow> char \<Rightarrow> bool" where
  "same_letter a b \<longleftrightarrow> to_ascii_lowercase [a] = to_ascii_lowercase [b]"

fun like_match :: "string \<Rightarrow> string \<Rightarrow> bool" where
  "like_match [] s = (s = [])"
| "like_match (p # ps) s =
     (if p = CHR 0x5C then
        (case ps of [] \<Rightarrow> False | q # qs \<Rightarrow> (case s of [] \<Rightarrow> False | c # cs \<Rightarrow> same_letter q c \<and> like_match qs cs))
      else if p = CHR ''%'' then list_ex (\<lambda>k. like_match ps (drop k s)) [0..<Suc (length s)]
      else (case s of [] \<Rightarrow> False | c # cs \<Rightarrow> (p = CHR ''_'' \<or> same_letter p c) \<and> like_match ps cs))"

definition like_pattern :: "string \<Rightarrow> string" where
  "like_pattern prefix =
     concat (map (\<lambda>c. if c = CHR ''%'' \<or> c = CHR ''_'' then [CHR 0x5C, c] else [c]) prefix) @ ''%''"

definition state_kv_list :: "int \<Rightarrow> string option \<Rightarrow> nat \<Rightarrow> string \<Rightarrow> state_db \<Rightarrow> (string \<times> string \<times> int) list" where
  "state_kv_list tenant prefix lmt subj db =
     take lmt (map (\<lambda>r. (kv_key r, kv_value r, kv_updated r)) (sort_key kv_key
       (filter (\<lambda>r. kv_tenant r = tenant \<and> (case prefix of None \<Rightarrow> True | Some p \<Rightarrow> like_match (like_pattern p) (kv_key r)) \<and> kv_subject r = subj)
         (sd_kv db))))"

text \<open>\<open>SUM(LENGTH(..))\<close> over both stores: characters, not bytes.\<close>

definition state_bytes_used :: "int \<Rightarrow> state_db \<Rightarrow> int" where
  "state_bytes_used tenant db =
     int (sum_list (map (\<lambda>r. length (kv_value r)) (filter (\<lambda>r. kv_tenant r = tenant) (sd_kv db))))
   + int (sum_list (map (\<lambda>r. length (sr_json r)) (filter (\<lambda>r. sr_tenant r = tenant) (sd_rows db))))"

definition state_table_get :: "int \<Rightarrow> string \<Rightarrow> state_db \<Rightarrow> (string \<times> string option) option" where
  "state_table_get tenant name db =
     map_option (\<lambda>r. (tt_schema_json r, tt_primary_key r))
       (find (\<lambda>r. tt_tenant r = tenant \<and> tt_name r = name) (sd_tables db))"

definition state_table_put :: "int \<Rightarrow> string \<Rightarrow> string \<Rightarrow> string option \<Rightarrow> state_db \<Rightarrow> state_db" where
  "state_table_put tenant name schema_json pk db =
     (let hit = (\<lambda>r. tt_tenant r = tenant \<and> tt_name r = name) in
      db\<lparr>sd_tables := (if list_ex hit (sd_tables db)
           then map (\<lambda>r. if hit r then r\<lparr>tt_schema_json := schema_json, tt_primary_key := pk\<rparr> else r) (sd_tables db)
           else sd_tables db @ [\<lparr>tt_tenant = tenant, tt_name = name, tt_schema_json = schema_json, tt_primary_key = pk\<rparr>])\<rparr>)"

definition state_table_delete :: "int \<Rightarrow> string \<Rightarrow> state_db \<Rightarrow> bool \<times> state_db" where
  "state_table_delete tenant name db =
     (list_ex (\<lambda>r. tt_tenant r = tenant \<and> tt_name r = name) (sd_tables db),
      db\<lparr>sd_tables := filter (\<lambda>r. \<not> (tt_tenant r = tenant \<and> tt_name r = name)) (sd_tables db),
         sd_rows := filter (\<lambda>r. \<not> (sr_tenant r = tenant \<and> sr_table r = name)) (sd_rows db)\<rparr>)"

definition state_rows_all :: "int \<Rightarrow> string \<Rightarrow> state_db \<Rightarrow> (int \<times> string) list" where
  "state_rows_all tenant table db =
     map (\<lambda>r. (sr_id r, sr_json r)) (sort_key sr_id (filter (\<lambda>r. sr_tenant r = tenant \<and> sr_table r = table) (sd_rows db)))"

definition state_rows_for_end_user :: "int \<Rightarrow> string \<Rightarrow> string \<Rightarrow> state_db \<Rightarrow> (int \<times> string) list" where
  "state_rows_for_end_user tenant table subj db =
     map (\<lambda>r. (sr_id r, sr_json r))
       (sort_key sr_id (filter (\<lambda>r. sr_tenant r = tenant \<and> sr_table r = table \<and> sr_subject r = subj) (sd_rows db)))"

text \<open>\<open>INTEGER PRIMARY KEY\<close> without \<open>AUTOINCREMENT\<close>: the next identifier is one above the largest in the table.\<close>

definition next_row_id :: "state_db \<Rightarrow> int" where
  "next_row_id db = fold max (map sr_id (sd_rows db)) 0 + 1"

definition state_row_insert :: "int \<Rightarrow> string \<Rightarrow> string \<Rightarrow> string \<Rightarrow> state_db \<Rightarrow> int \<times> state_db" where
  "state_row_insert tenant table row_json subj db =
     (next_row_id db,
      db\<lparr>sd_rows := sd_rows db @ [\<lparr>sr_id = next_row_id db, sr_tenant = tenant, sr_table = table, sr_json = row_json, sr_subject = subj\<rparr>]\<rparr>)"

definition state_rows_delete_by_ids :: "int \<Rightarrow> string \<Rightarrow> int list \<Rightarrow> state_db \<Rightarrow> int \<times> state_db" where
  "state_rows_delete_by_ids tenant table ids db =
     (let hit = (\<lambda>r. sr_tenant r = tenant \<and> sr_table r = table \<and> sr_id r \<in> set ids) in
      (int (length (filter hit (sd_rows db))), db\<lparr>sd_rows := filter (\<lambda>r. \<not> hit r) (sd_rows db)\<rparr>))"

definition end_user_active_since :: "int \<Rightarrow> string \<Rightarrow> int \<Rightarrow> state_db \<Rightarrow> bool" where
  "end_user_active_since tenant subj since db =
     list_ex (\<lambda>r. ac_tenant r = tenant \<and> ac_subject r = subj \<and> since \<le> ac_last r) (sd_activity db)"

definition count_distinct_end_users_since :: "int \<Rightarrow> int \<Rightarrow> state_db \<Rightarrow> int" where
  "count_distinct_end_users_since tenant since db =
     int (length (filter (\<lambda>r. ac_tenant r = tenant \<and> since \<le> ac_last r) (sd_activity db)))"

definition touch_end_user_activity :: "int \<Rightarrow> string \<Rightarrow> int \<Rightarrow> state_db \<Rightarrow> state_db" where
  "touch_end_user_activity tenant subj now db =
     (let hit = (\<lambda>r. ac_tenant r = tenant \<and> ac_subject r = subj) in
      db\<lparr>sd_activity := (if list_ex hit (sd_activity db)
           then map (\<lambda>r. if hit r then r\<lparr>ac_last := now\<rparr> else r) (sd_activity db)
           else sd_activity db @ [\<lparr>ac_tenant = tenant, ac_subject = subj, ac_last = now\<rparr>])\<rparr>)"

section \<open>End users and quotas\<close>

record state_plan =
  sp_bytes_max :: int
  sp_rows_max :: int
  sp_ops_per_call_max :: int
  sp_end_users_max :: int

definition check_bytes_quota :: "state_plan \<Rightarrow> int \<Rightarrow> int \<Rightarrow> state_db \<Rightarrow> app_error option" where
  "check_bytes_quota plan tenant additional db =
     (let used = state_bytes_used tenant db in
      if used + additional > sp_bytes_max plan then Some (state_quota_exceeded ''state_bytes_max'' (sp_bytes_max plan) used) else None)"

definition resolve_end_user :: "json \<Rightarrow> string option \<Rightarrow> app_error + (string \<times> bool)" where
  "resolve_end_user args call_end_user =
     (case json_get ''end_user'' args of
        None \<Rightarrow> Inr ([], False)
      | Some JNull \<Rightarrow> Inr ([], False)
      | Some (JStr s) \<Rightarrow>
          if s = ''self'' then
            (case call_end_user of
               None \<Rightarrow> Inl (Structured ''end_user_required''
                 (''end_user: '' @ [CHR 0x22] @ ''self'' @ [CHR 0x22] @ '' requires a verified end-user identity on this call'') (mk_obj []))
             | Some subj \<Rightarrow> Inr (subj, False))
          else if call_end_user \<noteq> None then
            Inl (Structured ''end_user_explicit_forbidden''
              ''an explicit end_user subject is only allowed when the call carries no end-user identity of its own'' (mk_obj []))
          else Inr (s, True)
      | Some _ \<Rightarrow> Inl (InvalidArgs
          (''end_user must be a string ('' @ [CHR 0x22] @ ''self'' @ [CHR 0x22] @ '' or a subject) or null'')))"

definition plan_missing :: "string \<Rightarrow> app_error" where
  "plan_missing name =
     Internal (''tenant'' @ [CHR 0x27] @ ''s plan '' @ [CHR 0x27] @ name @ [CHR 0x27] @ '' is not in the loaded plan catalog'')"

definition check_end_user_quota :: "state_plan \<Rightarrow> int \<Rightarrow> int \<Rightarrow> string \<Rightarrow> state_db \<Rightarrow> app_error option" where
  "check_end_user_quota plan now tenant subj db =
     (if subj = [] then None
      else
        (let since = now - 30 * 86400 in
         if end_user_active_since tenant subj since db then None
         else
           (let used = count_distinct_end_users_since tenant since db in
            if used \<ge> sp_end_users_max plan then
              Some (Structured ''quota_end_users''
                (''distinct end users writing state in the trailing 30 days: '' @ show_int used @ '', plan maximum ''
                   @ show_int (sp_end_users_max plan))
                (mk_obj [(''quota'', JStr ''end_users_max''), (''limit'', JInt (sp_end_users_max plan)), (''used'', JInt used)]))
            else None)))"

definition with_impersonated :: "bool \<Rightarrow> json \<Rightarrow> json" where
  "with_impersonated impersonated v =
     (case v of JObj m \<Rightarrow> if impersonated then JObj (obj_insert ''impersonated'' (JBool True) m) else v | _ \<Rightarrow> v)"

section \<open>Handlers\<close>

text \<open>What a handler reads besides its arguments: the clock, the tenant, its plan (a name and, if the catalog
  has it, its limits) and the end user the call carries.\<close>

record state_call =
  sc_now :: int
  sc_tenant :: int
  sc_plan_name :: string
  sc_plan :: "state_plan option"
  sc_end_user :: "string option"

definition state_get :: "state_fns \<Rightarrow> state_call \<Rightarrow> json \<Rightarrow> state_db \<Rightarrow> app_error + json" where
  "state_get fns c args db =
     (case state_arg_str args ''key'' of Inl e \<Rightarrow> Inl e | Inr key \<Rightarrow>
      case resolve_end_user args (sc_end_user c) of Inl e \<Rightarrow> Inl e | Inr (subj, imp) \<Rightarrow>
      case state_kv_get (sc_tenant c) key subj db of
        Some (value_json, updated) \<Rightarrow>
          (case sf_de fns value_json of
             Inl e \<Rightarrow> Inl (Internal (''stored value_json is corrupt: '' @ e))
           | Inr v \<Rightarrow> Inr (with_impersonated imp (mk_obj
               [(''key'', JStr key), (''value'', v), (''updated_unix'', JInt updated), (''found'', JBool True)])))
      | None \<Rightarrow> Inr (with_impersonated imp (mk_obj [(''key'', JStr key), (''value'', JNull), (''found'', JBool False)])))"

definition existing_bytes :: "int \<Rightarrow> string \<Rightarrow> string \<Rightarrow> state_db \<Rightarrow> int" where
  "existing_bytes tenant key subj db =
     (case state_kv_get tenant key subj db of Some (v, _) \<Rightarrow> int (str_len v) | None \<Rightarrow> 0)"

definition touch_if_named :: "int \<Rightarrow> string \<Rightarrow> int \<Rightarrow> state_db \<Rightarrow> state_db" where
  "touch_if_named tenant subj now db = (if subj = [] then db else touch_end_user_activity tenant subj now db)"

definition state_set :: "state_fns \<Rightarrow> state_call \<Rightarrow> json \<Rightarrow> state_db \<Rightarrow> (app_error + json) \<times> state_db" where
  "state_set fns c args db =
     (case state_arg_str args ''key'' of Inl e \<Rightarrow> (Inl e, db) | Inr key \<Rightarrow>
      case json_get ''value'' args of
        None \<Rightarrow> (Inl (InvalidArgs (''missing required argument '' @ [CHR 0x27] @ ''value'' @ [CHR 0x27])), db)
      | Some v \<Rightarrow>
      case resolve_end_user args (sc_end_user c) of Inl e \<Rightarrow> (Inl e, db) | Inr (subj, imp) \<Rightarrow>
      case sc_plan c of None \<Rightarrow> (Inl (plan_missing (sc_plan_name c)), db) | Some plan \<Rightarrow>
      case check_end_user_quota plan (sc_now c) (sc_tenant c) subj db of Some e \<Rightarrow> (Inl e, db) | None \<Rightarrow>
      (let bytes_delta = int (str_len (sf_ser fns v)) - existing_bytes (sc_tenant c) key subj db in
       case check_bytes_quota plan (sc_tenant c) bytes_delta db of Some e \<Rightarrow> (Inl e, db) | None \<Rightarrow>
       (Inr (with_impersonated imp (mk_obj [(''key'', JStr key), (''set'', JBool True), (''bytes_delta'', JInt bytes_delta)])),
        touch_if_named (sc_tenant c) subj (sc_now c) (state_kv_set (sc_now c) (sc_tenant c) key subj (sf_ser fns v) db))))"

definition state_delete :: "state_call \<Rightarrow> json \<Rightarrow> state_db \<Rightarrow> (app_error + json) \<times> state_db" where
  "state_delete c args db =
     (case state_arg_str args ''key'' of Inl e \<Rightarrow> (Inl e, db) | Inr key \<Rightarrow>
      case resolve_end_user args (sc_end_user c) of Inl e \<Rightarrow> (Inl e, db) | Inr (subj, imp) \<Rightarrow>
      (let old = existing_bytes (sc_tenant c) key subj db;
           (deleted, db') = state_kv_delete (sc_tenant c) key subj db
       in (Inr (with_impersonated imp (mk_obj [(''key'', JStr key), (''deleted'', JBool deleted),
                 (''bytes_delta'', JInt (if deleted then - old else 0))])), db')))"

definition state_list :: "state_fns \<Rightarrow> state_call \<Rightarrow> json \<Rightarrow> state_db \<Rightarrow> app_error + json" where
  "state_list fns c args db =
     (let lmt = nat (min (max (case arg_i64_opt args ''limit'' of Some n \<Rightarrow> n | None \<Rightarrow> 100) 1) 1000) in
      case resolve_end_user args (sc_end_user c) of Inl e \<Rightarrow> Inl e | Inr (subj, imp) \<Rightarrow>
      Inr (with_impersonated imp (mk_obj [(''keys'', JArr (map (\<lambda>(key, value_json, updated).
        mk_obj [(''key'', JStr key), (''value'', (case parse_value fns value_json of Some v \<Rightarrow> v | None \<Rightarrow> JNull)),
                (''updated_unix'', JInt updated)])
        (state_kv_list (sc_tenant c) (arg_str_opt args ''prefix'') lmt subj db)))])))"

fun check_columns :: "(string \<times> json) list \<Rightarrow> app_error option" where
  "check_columns [] = None"
| "check_columns ((col, ty) # rest) =
     (case as_str ty of
        None \<Rightarrow> Some (InvalidArgs (''column '' @ [CHR 0x27] @ col @ [CHR 0x27] @ '' type must be a string''))
      | Some s \<Rightarrow>
          if column_parse s = None then
            Some (InvalidArgs (''column '' @ [CHR 0x27] @ col @ [CHR 0x27] @ '' has unknown type '' @ [CHR 0x27] @ s @ [CHR 0x27]
              @ ''; expected one of text, integer, real, boolean, json''))
          else check_columns rest)"

definition state_table_create :: "state_fns \<Rightarrow> state_call \<Rightarrow> json \<Rightarrow> state_db \<Rightarrow> (app_error + json) \<times> state_db" where
  "state_table_create fns c args db =
     (case state_arg_str args ''name'' of Inl e \<Rightarrow> (Inl e, db) | Inr name \<Rightarrow>
      case Option.bind (json_get ''schema'' args) as_object of
        None \<Rightarrow> (Inl (InvalidArgs (''missing required argument '' @ [CHR 0x27] @ ''schema'' @ [CHR 0x27])), db)
      | Some schema \<Rightarrow>
      if schema = [] then (Inl (InvalidArgs ([CHR 0x27] @ ''schema'' @ [CHR 0x27] @ '' must declare at least one column'')), db)
      else case check_columns schema of Some e \<Rightarrow> (Inl e, db) | None \<Rightarrow>
      (let pk = arg_str_opt args ''primary_key'' in
       case (case pk of Some k \<Rightarrow> if map_of schema k = None then Some k else None | None \<Rightarrow> None) of
         Some k \<Rightarrow> (Inl (InvalidArgs (''primary_key '' @ [CHR 0x27] @ k @ [CHR 0x27] @ '' is not one of the declared columns'')), db)
       | None \<Rightarrow>
         (Inr (mk_obj [(''name'', JStr name), (''created'', JBool True), (''bytes_delta'', JInt 0)]),
          state_table_put (sc_tenant c) name (sf_ser fns (JObj schema)) pk db)))"

definition state_table_drop :: "state_call \<Rightarrow> json \<Rightarrow> state_db \<Rightarrow> (app_error + json) \<times> state_db" where
  "state_table_drop c args db =
     (case state_arg_str args ''name'' of Inl e \<Rightarrow> (Inl e, db) | Inr name \<Rightarrow>
      (let freed = int (sum_list (map (\<lambda>(_, j). str_len j) (state_rows_all (sc_tenant c) name db)));
           (dropped, db') = state_table_delete (sc_tenant c) name db
       in (Inr (mk_obj [(''name'', JStr name), (''dropped'', JBool dropped), (''bytes_delta'', JInt (if dropped then - freed else 0))]), db')))"

definition load_table :: "state_fns \<Rightarrow> int \<Rightarrow> string \<Rightarrow> state_db \<Rightarrow> app_error + table_schema" where
  "load_table fns tenant table db =
     (case state_table_get tenant table db of
        None \<Rightarrow> Inl (state_table_not_found table)
      | Some (schema_json, pk) \<Rightarrow>
          (case parse_schema fns schema_json of Inl e \<Rightarrow> Inl e | Inr schema \<Rightarrow> Inr (schema\<lparr>ts_primary_key := pk\<rparr>)))"

fun as_objects :: "json list \<Rightarrow> app_error + (string \<times> json) list list" where
  "as_objects [] = Inr []"
| "as_objects (v # vs) =
     (case as_object v of
        None \<Rightarrow> Inl (InvalidArgs ''each row must be an object'')
      | Some m \<Rightarrow> (case as_objects vs of Inl e \<Rightarrow> Inl e | Inr ms \<Rightarrow> Inr (m # ms)))"

definition rows_arg :: "json \<Rightarrow> app_error + (string \<times> json) list list" where
  "rows_arg args =
     (case json_get ''rows'' args of
        None \<Rightarrow> Inl (InvalidArgs (''missing required argument '' @ [CHR 0x27] @ ''rows'' @ [CHR 0x27]))
      | Some (JArr items) \<Rightarrow> as_objects items
      | Some (JObj m) \<Rightarrow> Inr [m]
      | Some _ \<Rightarrow> Inl (InvalidArgs ([CHR 0x27] @ ''rows'' @ [CHR 0x27] @ '' must be an object or array of objects'')))"

fun validate_all ::
  "state_fns \<Rightarrow> string \<Rightarrow> (string \<times> column_type) list \<Rightarrow> nat \<Rightarrow> (string \<times> json) list list
     \<Rightarrow> app_error + ((string \<times> json) list list \<times> json list)" where
  "validate_all fns table columns i [] = Inr ([], [])"
| "validate_all fns table columns i (row # rest) =
     (case validate_row fns table columns i row of Inl e \<Rightarrow> Inl e | Inr (row', entries) \<Rightarrow>
      case validate_all fns table columns (Suc i) rest of Inl e \<Rightarrow> Inl e | Inr (rest', es) \<Rightarrow>
      Inr (row' # rest', entries @ es))"

text \<open>The rows of the snapshot whose primary key has the value of the row to insert.\<close>

definition replaced_rows :: "state_fns \<Rightarrow> string option \<Rightarrow> (int \<times> string) list \<Rightarrow> (string \<times> json) list \<Rightarrow> (int \<times> string) list" where
  "replaced_rows fns pk existing row =
     (case Option.bind pk (\<lambda>k. map_option (\<lambda>v. (k, v)) (map_of row k)) of
        None \<Rightarrow> []
      | Some (k, v) \<Rightarrow> filter (\<lambda>(_, j). case parse_value fns j of Some e \<Rightarrow> json_get k e = Some v | None \<Rightarrow> False) existing)"

record insert_totals =
  it_row_count :: int
  it_new_bytes :: int
  it_replaced_bytes :: int
  it_ids :: "int list"

text \<open>The loop: each row first deletes the rows it replaces, is checked against \<open>state_rows_max\<close>, and is written.
  Its early return leaves what the turns before it wrote.\<close>

fun insert_rows ::
  "state_fns \<Rightarrow> int \<Rightarrow> string \<Rightarrow> string option \<Rightarrow> string \<Rightarrow> int \<Rightarrow> (int \<times> string) list \<Rightarrow> (string \<times> json) list list
     \<Rightarrow> insert_totals \<Rightarrow> state_db \<Rightarrow> (app_error + insert_totals) \<times> state_db" where
  "insert_rows fns tenant table pk subj rows_max existing [] it db = (Inr it, db)"
| "insert_rows fns tenant table pk subj rows_max existing (row # rest) it db =
     (let row_json = sf_ser fns (JObj row);
          hits = replaced_rows fns pk existing row;
          db = (if hits = [] then db else snd (state_rows_delete_by_ids tenant table (map fst hits) db));
          it = (if hits = [] then it else it\<lparr>it_row_count := it_row_count it - 1,
                  it_replaced_bytes := it_replaced_bytes it + int (sum_list (map (\<lambda>(_, j). str_len j) hits))\<rparr>)
      in if it_row_count it + 1 > rows_max then (Inl (state_quota_exceeded ''state_rows_max'' rows_max (it_row_count it)), db)
         else
           (let (i, db) = state_row_insert tenant table row_json subj db in
            insert_rows fns tenant table pk subj rows_max existing rest
              (it\<lparr>it_row_count := it_row_count it + 1, it_new_bytes := it_new_bytes it + int (str_len row_json), it_ids := it_ids it @ [i]\<rparr>)
              db))"

definition state_insert :: "state_fns \<Rightarrow> state_call \<Rightarrow> json \<Rightarrow> state_db \<Rightarrow> (app_error + json) \<times> state_db" where
  "state_insert fns c args db =
     (case state_arg_str args ''table'' of Inl e \<Rightarrow> (Inl e, db) | Inr table \<Rightarrow>
      case load_table fns (sc_tenant c) table db of Inl e \<Rightarrow> (Inl e, db) | Inr schema \<Rightarrow>
      case resolve_end_user args (sc_end_user c) of Inl e \<Rightarrow> (Inl e, db) | Inr (subj, imp) \<Rightarrow>
      case rows_arg args of Inl e \<Rightarrow> (Inl e, db) | Inr raw \<Rightarrow>
      case validate_all fns table (ts_columns schema) 0 raw of Inl e \<Rightarrow> (Inl e, db) | Inr (rows, coerced) \<Rightarrow>
      case sc_plan c of None \<Rightarrow> (Inl (plan_missing (sc_plan_name c)), db) | Some plan \<Rightarrow>
      case check_end_user_quota plan (sc_now c) (sc_tenant c) subj db of Some e \<Rightarrow> (Inl e, db) | None \<Rightarrow>
      (let ops = int (length rows) in
       if ops > sp_ops_per_call_max plan then (Inl (state_quota_exceeded ''state_ops_per_call_max'' (sp_ops_per_call_max plan) ops), db)
       else
         (case insert_rows fns (sc_tenant c) table (ts_primary_key schema) subj (sp_rows_max plan)
                 (state_rows_for_end_user (sc_tenant c) table subj db) rows
                 \<lparr>it_row_count = int (length (state_rows_all (sc_tenant c) table db)), it_new_bytes = 0, it_replaced_bytes = 0, it_ids = []\<rparr> db of
            (Inl e, db) \<Rightarrow> (Inl e, db)
          | (Inr it, db) \<Rightarrow>
              (case check_bytes_quota plan (sc_tenant c) (it_new_bytes it) db of Some e \<Rightarrow> (Inl e, db) | None \<Rightarrow>
               (Inr (with_impersonated imp (mk_obj
                  ([(''table'', JStr table), (''inserted'', JInt (int (length (it_ids it)))), (''ids'', JArr (map JInt (it_ids it))),
                    (''bytes_delta'', JInt (it_new_bytes it - it_replaced_bytes it))]
                   @ (if coerced = [] then [] else [(''coerced'', JArr coerced)])))),
                touch_if_named (sc_tenant c) subj (sc_now c) db)))))"

definition state_query :: "state_fns \<Rightarrow> state_call \<Rightarrow> json \<Rightarrow> state_db \<Rightarrow> app_error + json" where
  "state_query fns c args db =
     (case state_arg_str args ''table'' of Inl e \<Rightarrow> Inl e | Inr table \<Rightarrow>
      case load_table fns (sc_tenant c) table db of Inl e \<Rightarrow> Inl e | Inr _ \<Rightarrow>
      case resolve_end_user args (sc_end_user c) of Inl e \<Rightarrow> Inl e | Inr (subj, imp) \<Rightarrow>
      case (case arg_str_opt args ''where'' of Some w \<Rightarrow> parse_filter fns w | None \<Rightarrow> Inr []) of Inl e \<Rightarrow> Inl e | Inr clauses \<Rightarrow>
      (let matched = filter (\<lambda>r. row_matches fns r clauses)
             (List.map_filter (\<lambda>(_, j). parse_value fns j) (state_rows_for_end_user (sc_tenant c) table subj db));
           ordered = (case arg_str_opt args ''order_by'' of Some o' \<Rightarrow> sort_by (order_rows fns o') matched | None \<Rightarrow> matched);
           limited = (case arg_i64_opt args ''limit'' of Some n \<Rightarrow> take (nat (max n 0)) ordered | None \<Rightarrow> ordered)
       in Inr (with_impersonated imp (mk_obj [(''table'', JStr table), (''rows'', JArr limited)]))))"

definition where_clauses :: "state_fns \<Rightarrow> json \<Rightarrow> app_error + filter_clause list" where
  "where_clauses fns args =
     (case json_get ''where'' args of
        Some (JStr w) \<Rightarrow> parse_filter fns w
      | Some (JObj m) \<Rightarrow> Inr (map (\<lambda>(field, v). \<lparr>fc_field = field, fc_op = FEq, fc_value = v\<rparr>) m)
      | _ \<Rightarrow> Inr [])"

text \<open>The note a dry run leaves is not part of the answer.\<close>

definition state_delete_rows :: "state_fns \<Rightarrow> state_call \<Rightarrow> json \<Rightarrow> state_db \<Rightarrow> (app_error + json) \<times> state_db" where
  "state_delete_rows fns c args db =
     (case state_arg_str args ''table'' of Inl e \<Rightarrow> (Inl e, db) | Inr table \<Rightarrow>
      case load_table fns (sc_tenant c) table db of Inl e \<Rightarrow> (Inl e, db) | Inr _ \<Rightarrow>
      case resolve_end_user args (sc_end_user c) of Inl e \<Rightarrow> (Inl e, db) | Inr (subj, imp) \<Rightarrow>
      case where_clauses fns args of Inl e \<Rightarrow> (Inl e, db) | Inr clauses \<Rightarrow>
      (let hits = filter (\<lambda>(_, j). case parse_value fns j of Some row \<Rightarrow> row_matches fns row clauses | None \<Rightarrow> False)
             (state_rows_for_end_user (sc_tenant c) table subj db);
           (deleted, db') = state_rows_delete_by_ids (sc_tenant c) table (map fst hits) db
       in (Inr (with_impersonated imp (mk_obj [(''table'', JStr table), (''deleted'', JInt deleted),
             (''bytes_delta'', JInt (- int (sum_list (map (\<lambda>(_, j). str_len j) hits))))])), db')))"

text \<open>The first-contact note, under a fresh identifier, and what \<open>welcome_back\<close> reads of the notes; \<open>max_by_key\<close> keeps
  the last of several greatest.\<close>

definition store_first_contact_note :: "state_fns \<Rightarrow> state_call \<Rightarrow> string \<Rightarrow> string \<Rightarrow> state_db \<Rightarrow> (app_error + string) \<times> state_db" where
  "store_first_contact_note fns c new_id txt' db =
     (let key = ''notes/'' @ new_id;
          val = mk_obj [(''text'', JStr txt'), (''source'', JStr ''first_call''), (''at'', JInt (sc_now c))]
      in case state_set fns (c\<lparr>sc_end_user := None\<rparr>) (mk_obj [(''key'', JStr key), (''value'', val)]) db of
           (Inl e, db') \<Rightarrow> (Inl e, db')
         | (Inr _, db') \<Rightarrow> (Inr key, db'))"

fun max_by_key :: "('a \<Rightarrow> int) \<Rightarrow> 'a list \<Rightarrow> 'a option" where
  "max_by_key f [] = None"
| "max_by_key f (x # xs) = Some (foldl (\<lambda>best y. if f best \<le> f y then y else best) x xs)"

definition first_contact_summary :: "state_fns \<Rightarrow> int \<Rightarrow> state_db \<Rightarrow> int \<times> string option" where
  "first_contact_summary fns tenant db =
     (let rows = state_kv_list tenant (Some ''notes/'') 1000 [] db in
      (int (length rows),
       Option.bind (max_by_key (\<lambda>(_, _, updated). updated) rows)
         (\<lambda>(_, value_json, _). Option.bind (parse_value fns value_json)
            (\<lambda>v. Option.bind (json_get ''text'' v) as_str))))"

section \<open>What an end user owns\<close>

definition kv_of :: "int \<Rightarrow> string \<Rightarrow> state_db \<Rightarrow> kv_row list" where
  "kv_of t s db = filter (\<lambda>r. kv_tenant r = t \<and> kv_subject r = s) (sd_kv db)"

definition rows_of :: "int \<Rightarrow> string \<Rightarrow> state_db \<Rightarrow> state_row list" where
  "rows_of t s db = filter (\<lambda>r. sr_tenant r = t \<and> sr_subject r = s) (sd_rows db)"

definition kv_id :: "kv_row \<Rightarrow> int \<times> string \<times> string" where
  "kv_id r = (kv_tenant r, kv_key r, kv_subject r)"

definition state_ok :: "state_db \<Rightarrow> bool" where
  "state_ok db \<longleftrightarrow> distinct (map sr_id (sd_rows db)) \<and> distinct (map kv_id (sd_kv db))"

text \<open>From one database to the next, nothing of anyone but \<open>subj\<close> of \<open>tenant\<close> has changed.\<close>

definition only_touches :: "int \<Rightarrow> string \<Rightarrow> state_db \<Rightarrow> state_db \<Rightarrow> bool" where
  "only_touches tenant subj db db' \<longleftrightarrow>
     sd_tables db' = sd_tables db
   \<and> (\<forall>t s. (t, s) = (tenant, subj) \<or> (kv_of t s db' = kv_of t s db \<and> rows_of t s db' = rows_of t s db))"

lemma only_touches_refl [simp]: "only_touches tenant subj db db"
  by (simp add: only_touches_def)

lemma only_touches_trans [trans]:
  "only_touches tenant subj db db' \<Longrightarrow> only_touches tenant subj db' db'' \<Longrightarrow> only_touches tenant subj db db''"
  unfolding only_touches_def by metis

lemma touch_activity_only [simp]:
  "sd_kv (touch_if_named tenant subj now db) = sd_kv db"
  "sd_rows (touch_if_named tenant subj now db) = sd_rows db"
  "sd_tables (touch_if_named tenant subj now db) = sd_tables db"
  by (simp_all add: touch_if_named_def touch_end_user_activity_def Let_def)

lemma touch_only: "only_touches tenant subj db (touch_if_named t s now db)" "state_ok (touch_if_named t s now db) = state_ok db"
  by (simp_all add: only_touches_def kv_of_def rows_of_def state_ok_def)

lemma only_touches_touch [intro]: "only_touches tenant subj db db' \<Longrightarrow> only_touches tenant subj db (touch_if_named t s now db')"
  using only_touches_trans touch_only(1) by (simp add: only_touches_def kv_of_def rows_of_def)

lemma filter_map_outside:
  "(\<And>r. hit r \<Longrightarrow> \<not> P r \<and> \<not> P (f r)) \<Longrightarrow> filter P (map (\<lambda>r. if hit r then f r else r) rs) = filter P rs"
  by (induction rs) auto

lemma kv_set_only: "only_touches tenant subj db (state_kv_set now tenant key subj val db)"
  unfolding only_touches_def
proof (intro conjI allI)
  show "sd_tables (state_kv_set now tenant key subj val db) = sd_tables db"
    by (simp add: state_kv_set_def Let_def)
  fix t s
  have "kv_of t s (state_kv_set now tenant key subj val db) = kv_of t s db" if "(t, s) \<noteq> (tenant, subj)"
    using that by (auto simp: kv_of_def state_kv_set_def Let_def intro!: filter_map_outside)
  moreover have "rows_of t s (state_kv_set now tenant key subj val db) = rows_of t s db"
    by (simp add: rows_of_def state_kv_set_def Let_def)
  ultimately show "(t, s) = (tenant, subj) \<or> (kv_of t s (state_kv_set now tenant key subj val db) = kv_of t s db
      \<and> rows_of t s (state_kv_set now tenant key subj val db) = rows_of t s db)"
    by blast
qed

lemma kv_set_ok: "state_ok db \<Longrightarrow> state_ok (state_kv_set now tenant key subj val db)"
proof -
  assume ok: "state_ok db"
  let ?hit = "\<lambda>r. kv_tenant r = tenant \<and> kv_key r = key \<and> kv_subject r = subj"
  let ?upd = "\<lambda>r. if ?hit r then r\<lparr>kv_value := val, kv_updated := now\<rparr> else r"
  have rows: "sd_rows (state_kv_set now tenant key subj val db) = sd_rows db"
    by (simp add: state_kv_set_def Let_def)
  show ?thesis
  proof (cases "list_ex ?hit (sd_kv db)")
    case True
    have "kv_id \<circ> ?upd = kv_id" by (auto simp: kv_id_def fun_eq_iff)
    then have "map kv_id (map ?upd (sd_kv db)) = map kv_id (sd_kv db)" by (simp only: map_map)
    moreover have "sd_kv (state_kv_set now tenant key subj val db) = map ?upd (sd_kv db)"
      using True by (simp add: state_kv_set_def Let_def)
    ultimately show ?thesis using ok rows by (simp only: state_ok_def)
  next
    case False
    then have "(tenant, key, subj) \<notin> kv_id ` set (sd_kv db)" by (auto simp: list_ex_iff kv_id_def)
    moreover have "sd_kv (state_kv_set now tenant key subj val db) =
        sd_kv db @ [\<lparr>kv_tenant = tenant, kv_key = key, kv_subject = subj, kv_value = val, kv_updated = now\<rparr>]"
      unfolding state_kv_set_def Let_def using False by simp
    ultimately show ?thesis using ok rows by (simp add: state_ok_def kv_id_def)
  qed
qed

lemma kv_delete_only: "only_touches tenant subj db (snd (state_kv_delete tenant key subj db))"
  by (auto simp: only_touches_def kv_of_def rows_of_def state_kv_delete_def Let_def intro!: filter_cong)

lemma kv_delete_ok: "state_ok db \<Longrightarrow> state_ok (snd (state_kv_delete tenant key subj db))"
  by (simp add: state_ok_def state_kv_delete_def Let_def distinct_map_filter)

definition owned_ids :: "int \<Rightarrow> string \<Rightarrow> int list \<Rightarrow> state_db \<Rightarrow> bool" where
  "owned_ids tenant subj ids db \<longleftrightarrow>
     (\<forall>r \<in> set (sd_rows db). sr_id r \<in> set ids \<longrightarrow> sr_tenant r = tenant \<and> sr_subject r = subj)"

lemma delete_ids_only:
  assumes "owned_ids tenant subj ids db"
  shows "only_touches tenant subj db (snd (state_rows_delete_by_ids tenant table ids db))"
proof -
  have "rows_of t s (snd (state_rows_delete_by_ids tenant table ids db)) = rows_of t s db" if "(t, s) \<noteq> (tenant, subj)" for t s
    using assms that by (auto simp: rows_of_def state_rows_delete_by_ids_def owned_ids_def Let_def intro!: filter_cong)
  moreover have "kv_of t s (snd (state_rows_delete_by_ids tenant table ids db)) = kv_of t s db" for t s
    by (simp add: kv_of_def state_rows_delete_by_ids_def Let_def)
  moreover have "sd_tables (snd (state_rows_delete_by_ids tenant table ids db)) = sd_tables db"
    by (simp add: state_rows_delete_by_ids_def Let_def)
  ultimately show ?thesis unfolding only_touches_def by blast
qed

lemma delete_ids_ok: "state_ok db \<Longrightarrow> state_ok (snd (state_rows_delete_by_ids tenant table ids db))"
  by (simp add: state_ok_def state_rows_delete_by_ids_def Let_def distinct_map_filter)

lemma delete_ids_owned: "owned_ids tenant subj ids' db \<Longrightarrow> owned_ids tenant subj ids' (snd (state_rows_delete_by_ids t table ids db))"
  by (auto simp: owned_ids_def state_rows_delete_by_ids_def Let_def)

lemma fold_max_bound: "x \<in> set xs \<Longrightarrow> x \<le> fold max xs (a::int)" "a \<le> fold max xs a"
proof (induction xs arbitrary: a)
  case (Cons y ys)
  { case 1 then show ?case using Cons.IH(1)[of a] Cons.IH(1)[of "max y a"] Cons.IH(2)[of "max y a"] by auto }
  { case 2 show ?case using Cons.IH(2)[of "max y a"] by simp }
qed simp_all

lemma next_row_id_fresh: "r \<in> set (sd_rows db) \<Longrightarrow> sr_id r < next_row_id db"
  using fold_max_bound(1)[of "sr_id r" "map sr_id (sd_rows db)" 0] by (simp add: next_row_id_def)

lemma row_insert_only: "only_touches tenant subj db (snd (state_row_insert tenant table j subj db))"
  by (auto simp: only_touches_def kv_of_def rows_of_def state_row_insert_def)

lemma row_insert_ok: "state_ok db \<Longrightarrow> state_ok (snd (state_row_insert tenant table j subj db))"
  using next_row_id_fresh[of _ db] by (fastforce simp: state_ok_def state_row_insert_def)

lemma row_insert_owned: "owned_ids tenant subj ids db \<Longrightarrow> owned_ids tenant subj ids (snd (state_row_insert tenant table j subj db))"
  by (auto simp: owned_ids_def state_row_insert_def)

lemma own_rows_owned: "state_ok db \<Longrightarrow> owned_ids tenant subj (map fst (state_rows_for_end_user tenant table subj db)) db"
  by (auto simp: owned_ids_def state_ok_def state_rows_for_end_user_def distinct_map inj_on_def)

lemma insert_rows_only:
  "insert_rows fns tenant table pk subj rows_max existing rows it db = (res, db') \<Longrightarrow> state_ok db \<Longrightarrow>
     owned_ids tenant subj (map fst existing) db \<Longrightarrow> only_touches tenant subj db db' \<and> state_ok db'"
proof (induction rows arbitrary: it db)
  case (Cons row rows)
  define hits where "hits = replaced_rows fns pk existing row"
  define db1 where "db1 = (if hits = [] then db else snd (state_rows_delete_by_ids tenant table (map fst hits) db))"
  define db2 where "db2 = snd (state_row_insert tenant table (sf_ser fns (JObj row)) subj db1)"
  have sub: "set (map fst hits) \<subseteq> set (map fst existing)"
    by (auto simp: hits_def replaced_rows_def split: option.splits)
  then have "owned_ids tenant subj (map fst hits) db"
    using Cons.prems(3) unfolding owned_ids_def by blast
  then have one: "only_touches tenant subj db db1" "state_ok db1" "owned_ids tenant subj (map fst existing) db1"
    using Cons.prems(2,3) by (auto simp: db1_def delete_ids_only delete_ids_ok delete_ids_owned)
  then have two: "only_touches tenant subj db db2" "state_ok db2" "owned_ids tenant subj (map fst existing) db2"
    unfolding db2_def by (auto intro: only_touches_trans row_insert_only row_insert_ok row_insert_owned)
  show ?case
  proof (cases "db' = db1")
    case False
    with Cons.prems(1) obtain it' where
        "insert_rows fns tenant table pk subj rows_max existing rows it' db2 = (res, db')"
      by (auto simp: Let_def hits_def[symmetric] db1_def[symmetric] db2_def split: if_splits prod.splits)
    from Cons.IH[OF this two(2,3)] two(1) show ?thesis using only_touches_trans by blast
  qed (use one in simp)
qed simp

text \<open>What a call that writes reaches: the end user its arguments resolve to.\<close>

definition call_subject :: "state_call \<Rightarrow> json \<Rightarrow> string option" where
  "call_subject c args = (case resolve_end_user args (sc_end_user c) of Inl _ \<Rightarrow> None | Inr (subj, _) \<Rightarrow> Some subj)"

datatype state_op = OSet | ODelete | OInsert | ODeleteRows

fun run_op :: "state_op \<Rightarrow> state_fns \<Rightarrow> state_call \<Rightarrow> json \<Rightarrow> state_db \<Rightarrow> (app_error + json) \<times> state_db" where
  "run_op OSet fns c args db = state_set fns c args db"
| "run_op ODelete fns c args db = state_delete c args db"
| "run_op OInsert fns c args db = state_insert fns c args db"
| "run_op ODeleteRows fns c args db = state_delete_rows fns c args db"

lemma no_subject_no_change: "call_subject c args = None \<Longrightarrow> snd (run_op op fns c args db) = db"
  by (cases op) (auto simp: call_subject_def state_set_def state_delete_def state_insert_def state_delete_rows_def split: sum.splits option.splits)

lemma set_only:
  assumes "call_subject c args = Some subj" "state_ok db"
  shows "only_touches (sc_tenant c) subj db (snd (state_set fns c args db)) \<and> state_ok (snd (state_set fns c args db))"
  using assms
  by (auto simp: call_subject_def state_set_def Let_def split: sum.splits option.splits
      intro!: only_touches_touch kv_set_only kv_set_ok simp: touch_only(2))

lemma delete_only:
  assumes "call_subject c args = Some subj" "state_ok db"
  shows "only_touches (sc_tenant c) subj db (snd (state_delete c args db)) \<and> state_ok (snd (state_delete c args db))"
  using assms kv_delete_only kv_delete_ok
  by (auto simp: call_subject_def state_delete_def Let_def split: sum.splits prod.splits) (metis snd_conv)+

lemma delete_rows_only:
  assumes "call_subject c args = Some subj" "state_ok db"
  shows "only_touches (sc_tenant c) subj db (snd (state_delete_rows fns c args db)) \<and> state_ok (snd (state_delete_rows fns c args db))"
proof -
  have own: "owned_ids (sc_tenant c) subj (map fst (filter P (state_rows_for_end_user (sc_tenant c) table subj db))) db" for P table
    using own_rows_owned[OF assms(2), of "sc_tenant c" subj table] by (fastforce simp: owned_ids_def)
  have r: "only_touches (sc_tenant c) subj db db' \<and> state_ok db'"
    if "state_rows_delete_by_ids (sc_tenant c) table (map fst (filter P (state_rows_for_end_user (sc_tenant c) table subj db))) db = (n, db')"
    for table P n db'
    using delete_ids_only[OF own[of P table], of table] delete_ids_ok[OF assms(2), of "sc_tenant c" table] that by (metis snd_conv)
  show ?thesis using assms
    by (auto simp: call_subject_def state_delete_rows_def Let_def split: sum.splits prod.splits dest!: r)
qed

lemma insert_only:
  assumes "call_subject c args = Some subj" "state_ok db"
  shows "only_touches (sc_tenant c) subj db (snd (state_insert fns c args db)) \<and> state_ok (snd (state_insert fns c args db))"
proof -
  have r: "only_touches (sc_tenant c) subj db db' \<and> state_ok db'"
    if "insert_rows fns (sc_tenant c) table pk subj m (state_rows_for_end_user (sc_tenant c) table subj db) rows it db = (res, db')"
    for table pk m rows it res db'
    using insert_rows_only[OF that assms(2) own_rows_owned[OF assms(2)]] .
  show ?thesis using assms
    by (auto simp: call_subject_def state_insert_def Let_def touch_only(2) split: sum.splits option.splits prod.splits
        dest!: r)
qed

lemma run_op_only:
  assumes "state_ok db"
  shows "state_ok (snd (run_op op fns c args db))"
    and "call_subject c args = Some subj \<Longrightarrow> only_touches (sc_tenant c) subj db (snd (run_op op fns c args db))"
proof -
  show only: "only_touches (sc_tenant c) subj db (snd (run_op op fns c args db))" if "call_subject c args = Some subj" for subj
    using set_only[OF that assms] delete_only[OF that assms] insert_only[OF that assms] delete_rows_only[OF that assms]
    by (cases op) simp_all
  show "state_ok (snd (run_op op fns c args db))"
  proof (cases "call_subject c args")
    case None
    with assms show ?thesis by (simp add: no_subject_no_change)
  next
    case (Some subj)
    then show ?thesis
      using set_only[OF Some assms] delete_only[OF Some assms] insert_only[OF Some assms] delete_rows_only[OF Some assms]
      by (cases op) simp_all
  qed
qed

lemma find_filter: "find P (filter Q xs) = find (\<lambda>x. Q x \<and> P x) xs"
  by (induction xs) auto

lemma kv_get_own: "state_kv_get t key s db = map_option (\<lambda>r. (kv_value r, kv_updated r)) (find (\<lambda>r. kv_key r = key) (kv_of t s db))"
  by (simp add: state_kv_get_def kv_of_def find_filter conj_ac)

lemma kv_list_own:
  "state_kv_list t prefix n s db =
     take n (map (\<lambda>r. (kv_key r, kv_value r, kv_updated r)) (sort_key kv_key
       (filter (\<lambda>r. case prefix of None \<Rightarrow> True | Some p \<Rightarrow> like_match (like_pattern p) (kv_key r)) (kv_of t s db))))"
  by (simp add: state_kv_list_def kv_of_def conj_ac)

lemma rows_for_end_user_own:
  "state_rows_for_end_user t table s db =
     map (\<lambda>r. (sr_id r, sr_json r)) (sort_key sr_id (filter (\<lambda>r. sr_table r = table) (rows_of t s db)))"
  by (simp add: state_rows_for_end_user_def rows_of_def conj_ac)

datatype state_read = OGet | OList | OQuery

fun run_read :: "state_read \<Rightarrow> state_fns \<Rightarrow> state_call \<Rightarrow> json \<Rightarrow> state_db \<Rightarrow> app_error + json" where
  "run_read OGet fns c args db = state_get fns c args db"
| "run_read OList fns c args db = state_list fns c args db"
| "run_read OQuery fns c args db = state_query fns c args db"

lemma read_own:
  assumes "\<And>subj. call_subject c args = Some subj \<Longrightarrow> kv_of (sc_tenant c) subj db' = kv_of (sc_tenant c) subj db"
    and "\<And>subj. call_subject c args = Some subj \<Longrightarrow> rows_of (sc_tenant c) subj db' = rows_of (sc_tenant c) subj db"
    and "sd_tables db' = sd_tables db"
  shows "run_read op fns c args db' = run_read op fns c args db"
proof (cases "resolve_end_user args (sc_end_user c)")
  case (Inl e)
  then show ?thesis using assms(3)
    by (cases op) (auto simp: state_get_def state_list_def state_query_def load_table_def state_table_get_def split: sum.splits)
next
  case (Inr p)
  then obtain subj imp where p: "resolve_end_user args (sc_end_user c) = Inr (subj, imp)" by (cases p) auto
  then have "call_subject c args = Some subj" by (simp add: call_subject_def)
  note own = assms(1)[OF this] assms(2)[OF this]
  have "load_table fns (sc_tenant c) table db' = load_table fns (sc_tenant c) table db" for table
    by (simp add: load_table_def state_table_get_def assms(3))
  then show ?thesis using own p
    by (cases op) (auto simp: state_get_def state_list_def state_query_def kv_get_own kv_list_own rows_for_end_user_own split: sum.splits)
qed

text \<open>The calls that write: those of an end user, and the two that declare and drop a table for the whole tenant.\<close>

datatype state_write = EndUserCall state_op | TableCreate | TableDrop

fun run_write :: "state_write \<Rightarrow> state_fns \<Rightarrow> state_call \<Rightarrow> json \<Rightarrow> state_db \<Rightarrow> (app_error + json) \<times> state_db" where
  "run_write (EndUserCall op) fns c args db = run_op op fns c args db"
| "run_write TableCreate fns c args db = state_table_create fns c args db"
| "run_write TableDrop fns c args db = state_table_drop c args db"

definition run_calls :: "state_fns \<Rightarrow> (state_write \<times> state_call \<times> json) list \<Rightarrow> state_db \<Rightarrow> state_db" where
  "run_calls fns calls db = fold (\<lambda>(op, c, args) db. snd (run_write op fns c args db)) calls db"

text \<open>What a call can reach of a read: an end user's call what the same end user of the same tenant reads, a call that
  declares or drops a table the queries its tenant's end users make of that table.\<close>

fun reaches :: "state_read \<Rightarrow> state_call \<Rightarrow> json \<Rightarrow> state_write \<Rightarrow> state_call \<Rightarrow> json \<Rightarrow> bool" where
  "reaches r me my_args (EndUserCall op) c args \<longleftrightarrow> sc_tenant c = sc_tenant me \<and> call_subject c args = call_subject me my_args"
| "reaches r me my_args _ c args \<longleftrightarrow>
     sc_tenant c = sc_tenant me \<and> r = OQuery \<and> state_arg_str args ''name'' = state_arg_str my_args ''table''"

lemma end_user_call_read:
  assumes "state_ok db" "\<not> reaches r me my_args (EndUserCall op) c args"
  shows "run_read r fns me my_args (snd (run_op op fns c args db)) = run_read r fns me my_args db"
proof (cases "call_subject c args")
  case None
  then show ?thesis by (simp add: no_subject_no_change)
next
  case (Some subj)
  from run_op_only(2)[OF assms(1) Some, of op fns] have only: "only_touches (sc_tenant c) subj db (snd (run_op op fns c args db))" .
  from assms(2) Some have "(sc_tenant me, s) \<noteq> (sc_tenant c, subj)" if "call_subject me my_args = Some s" for s
    using that by auto
  with only show ?thesis by (intro read_own) (auto simp: only_touches_def)
qed

text \<open>A statement on the table \<open>name\<close> of a tenant: the key-value store, the other tables and their rows are as before.\<close>

definition about_table :: "int \<Rightarrow> string \<Rightarrow> state_db \<Rightarrow> state_db \<Rightarrow> bool" where
  "about_table tenant name db db' \<longleftrightarrow>
     sd_kv db' = sd_kv db
   \<and> (\<forall>t n. (t, n) = (tenant, name) \<or> (state_table_get t n db' = state_table_get t n db
        \<and> (\<forall>s. state_rows_for_end_user t n s db' = state_rows_for_end_user t n s db)))"

lemma find_map_outside: "(\<And>r. hit r \<Longrightarrow> \<not> P r \<and> \<not> P (f r)) \<Longrightarrow> find P (map (\<lambda>r. if hit r then f r else r) rs) = find P rs"
  by (induction rs) auto

lemma find_snoc_outside: "\<not> P r \<Longrightarrow> find P (rs @ [r]) = find P rs"
  by (induction rs) auto

lemma table_put_about: "about_table tenant name db (state_table_put tenant name schema pk db)"
proof -
  have "state_table_get t n (state_table_put tenant name schema pk db) = state_table_get t n db" if o: "\<not> (t = tenant \<and> n = name)" for t n
  proof -
    have "find (\<lambda>r. tt_tenant r = t \<and> tt_name r = n) (sd_tables (state_table_put tenant name schema pk db))
        = find (\<lambda>r. tt_tenant r = t \<and> tt_name r = n) (sd_tables db)"
      using o unfolding state_table_put_def Let_def
      by (cases "list_ex (\<lambda>r. tt_tenant r = tenant \<and> tt_name r = name) (sd_tables db)")
        (auto simp: find_snoc_outside intro!: find_map_outside)
    then show ?thesis by (simp add: state_table_get_def)
  qed
  moreover have "sd_kv (state_table_put tenant name schema pk db) = sd_kv db" "sd_rows (state_table_put tenant name schema pk db) = sd_rows db"
    by (simp_all add: state_table_put_def)
  ultimately show ?thesis unfolding about_table_def state_rows_for_end_user_def by (metis Pair_inject)
qed

lemma table_delete_about: "about_table tenant name db (snd (state_table_delete tenant name db))"
proof -
  have "find (\<lambda>r. tt_tenant r = t \<and> tt_name r = n) (sd_tables (snd (state_table_delete tenant name db)))
      = find (\<lambda>r. tt_tenant r = t \<and> tt_name r = n) (sd_tables db)
    \<and> filter (\<lambda>r. sr_tenant r = t \<and> sr_table r = n \<and> sr_subject r = s) (sd_rows (snd (state_table_delete tenant name db)))
      = filter (\<lambda>r. sr_tenant r = t \<and> sr_table r = n \<and> sr_subject r = s) (sd_rows db)"
    if "\<not> (t = tenant \<and> n = name)" for t n s
    using that by (auto simp: state_table_delete_def find_filter intro!: arg_cong2[of _ _ _ _ find] filter_cong)
  moreover have "sd_kv (snd (state_table_delete tenant name db)) = sd_kv db" by (simp add: state_table_delete_def)
  ultimately show ?thesis
    unfolding about_table_def state_table_get_def state_rows_for_end_user_def by (metis (no_types, lifting))
qed

lemma table_call_about:
  assumes "op = TableCreate \<or> op = TableDrop"
  shows "snd (run_write op fns c args db) = db
    \<or> (\<exists>name. state_arg_str args ''name'' = Inr name \<and> about_table (sc_tenant c) name db (snd (run_write op fns c args db)))"
  using assms table_put_about table_delete_about[of "sc_tenant c" _ db]
  by (elim disjE) (auto simp: state_table_create_def state_table_drop_def Let_def prod.case_eq_if split: sum.splits option.splits)

lemma about_table_read:
  assumes "about_table tenant name db db'"
    and "tenant = sc_tenant me \<and> r = OQuery \<longrightarrow> state_arg_str my_args ''table'' \<noteq> Inr name"
  shows "run_read r fns me my_args db' = run_read r fns me my_args db"
proof (cases r)
  case OQuery
  have "load_table fns (sc_tenant me) n db' = load_table fns (sc_tenant me) n db
      \<and> state_rows_for_end_user (sc_tenant me) n s db' = state_rows_for_end_user (sc_tenant me) n s db"
    if "state_arg_str my_args ''table'' = Inr n" for n s
  proof -
    from assms(2) that OQuery have "(sc_tenant me, n) \<noteq> (tenant, name)" by auto
    with assms(1) show ?thesis unfolding about_table_def load_table_def by metis
  qed
  then show ?thesis using OQuery by (auto simp: state_query_def split: sum.split)
qed (use assms(1) in \<open>auto simp: about_table_def state_get_def state_list_def state_kv_get_def state_kv_list_def split: sum.split\<close>)

lemma distinct_map_filtered: "distinct (map f xs) \<Longrightarrow> distinct (map f (filter P xs))"
  by (simp add: distinct_map inj_on_def)

lemma table_call_ok:
  assumes "op = TableCreate \<or> op = TableDrop" "state_ok db"
  shows "state_ok (snd (run_write op fns c args db))"
  using assms
  by (elim disjE) (auto simp: state_table_create_def state_table_drop_def state_table_put_def state_table_delete_def
      state_ok_def Let_def distinct_map_filtered split: sum.splits option.splits)

lemma write_read:
  assumes "state_ok db" "\<not> reaches r me my_args op c args"
  shows "run_read r fns me my_args (snd (run_write op fns c args db)) = run_read r fns me my_args db"
    and "state_ok (snd (run_write op fns c args db))"
proof -
  have "run_read r fns me my_args (snd (run_write op fns c args db)) = run_read r fns me my_args db
    \<and> state_ok (snd (run_write op fns c args db))"
  proof (cases "op = TableCreate \<or> op = TableDrop")
    case True
    from assms(2) have out: "state_arg_str my_args ''table'' \<noteq> Inr n"
      if "state_arg_str args ''name'' = Inr n" "sc_tenant c = sc_tenant me \<and> r = OQuery" for n using that True by auto
    from table_call_about[OF True, of fns c args db] out about_table_read[of "sc_tenant c" _ db _ me r my_args fns]
    have "run_read r fns me my_args (snd (run_write op fns c args db)) = run_read r fns me my_args db" by metis
    with table_call_ok[OF True assms(1)] show ?thesis by blast
  next
    case False
    then obtain w where w: "op = EndUserCall w" by (cases op) auto
    show ?thesis using end_user_call_read[OF assms(1), of r me my_args w c args fns] assms(2) run_op_only(1)[OF assms(1)] by (simp add: w)
  qed
  then show "run_read r fns me my_args (snd (run_write op fns c args db)) = run_read r fns me my_args db"
    "state_ok (snd (run_write op fns c args db))" by blast+
qed

text \<open>C19. End users do not interfere through the state calls. Take any sequence of \<open>set\<close>, \<open>delete\<close>, \<open>insert\<close> and \<open>delete_rows\<close>
  calls for other tenants or other end users of the same tenant, of \<open>table_create\<close> and \<open>table_drop\<close> calls of other tenants, and of
  those of her own tenant on tables other than the one she queries, each succeeding or failing. What an end user reads with \<open>get\<close>, \<open>list\<close>
  and \<open>query\<close> is what she read before, and the keys of the tables stay unique. (Dropping the table she queries does take her rows,
  whoever calls it; \<open>host.enduser.purge\<close> and the expiry of notes are outside these calls.)\<close>

theorem end_users_do_not_interfere:
  assumes "state_ok db"
    and "list_all (\<lambda>(op, c, args). \<not> reaches r me my_args op c args) calls"
  shows "run_read r fns me my_args (run_calls fns calls db) = run_read r fns me my_args db \<and> state_ok (run_calls fns calls db)"
  using assms
proof (induction calls arbitrary: db)
  case (Cons x calls)
  obtain op c args where x: "x = (op, c, args)" by (cases x) auto
  with Cons.prems(2) have "\<not> reaches r me my_args op c args" by simp
  note step = write_read[OF Cons.prems(1) this, of fns]
  from Cons.IH[OF step(2)] Cons.prems(2) x step(1) show ?case by (simp add: run_calls_def)
qed (simp add: run_calls_def)

text \<open>A table that is dropped takes the rows of every end user of the tenant with it.\<close>

lemma table_drop_takes_all_rows:
  "state_arg_str args ''name'' = Inr name \<Longrightarrow> r \<in> set (sd_rows (snd (state_table_drop c args db))) \<Longrightarrow>
     \<not> (sr_tenant r = sc_tenant c \<and> sr_table r = name)"
  by (simp add: state_table_drop_def state_table_delete_def)

text \<open>A printer and parser for the examples: a text is itself, every other value one character.\<close>

fun plain_print :: "json \<Rightarrow> string" where
  "plain_print (JStr s) = s"
| "plain_print v = ''v''"

definition plain_state :: state_fns where
  "plain_state = \<lparr>sf_ser = plain_print, sf_de = (\<lambda>s. Inr (JStr s)), sf_float = (\<lambda>_. None), sf_f64 = of_int, sf_nearest = (\<lambda>_ _. None)\<rparr>"

definition call_as :: "string option \<Rightarrow> int \<Rightarrow> state_call" where
  "call_as end_user bytes =
     \<lparr>sc_now = 1000, sc_tenant = 1, sc_plan_name = ''free'',
      sc_plan = Some \<lparr>sp_bytes_max = bytes, sp_rows_max = 10, sp_ops_per_call_max = 5, sp_end_users_max = 9\<rparr>,
      sc_end_user = end_user\<rparr>"

definition self_args :: "(string \<times> json) list \<Rightarrow> json" where
  "self_args kvs = mk_obj ((''end_user'', JStr ''self'') # kvs)"

definition set_args :: "string \<Rightarrow> string \<Rightarrow> json" where
  "set_args key val = mk_obj [(''key'', JStr key), (''value'', JStr val)]"

definition empty_state :: state_db where
  "empty_state = \<lparr>sd_kv = [], sd_tables = [], sd_rows = [], sd_activity = []\<rparr>"

definition bob_calls :: "(state_write \<times> state_call \<times> json) list" where
  "bob_calls = [(EndUserCall OSet, call_as (Some ''bob'') 99, self_args [(''key'', JStr ''k''), (''value'', JStr ''2'')]),
                (EndUserCall ODelete, call_as (Some ''bob'') 99, self_args [(''key'', JStr ''k'')]),
                (TableDrop, call_as (Some ''bob'') 99, mk_obj [(''name'', JStr ''notes'')])]"

definition alice_state :: state_db where
  "alice_state = snd (state_set plain_state (call_as (Some ''alice'') 99) (self_args [(''key'', JStr ''k''), (''value'', JStr ''1'')]) empty_state)"

lemma end_users_do_not_interfere_witness:
  "run_read OGet plain_state (call_as (Some ''alice'') 99) (self_args [(''key'', JStr ''k'')]) (run_calls plain_state bob_calls alice_state)
     = run_read OGet plain_state (call_as (Some ''alice'') 99) (self_args [(''key'', JStr ''k'')]) alice_state"
proof -
  have ok: "state_ok alice_state"
    using run_op_only(1)[of empty_state OSet plain_state "call_as (Some ''alice'') 99" "self_args [(''key'', JStr ''k''), (''value'', JStr ''1'')]"]
    by (simp add: alice_state_def state_ok_def empty_state_def)
  have subj: "call_subject (call_as (Some u) n) (self_args kvs) = Some u" if "''end_user'' \<notin> fst ` set kvs" "distinct (map fst kvs)" for u n kvs
    using that by (simp add: call_subject_def self_args_def resolve_end_user_def call_as_def)
  show ?thesis
    by (rule end_users_do_not_interfere[OF ok, THEN conjunct1]) (simp add: bob_calls_def subj)
qed

section \<open>Quotas\<close>

lemma find_set:
  assumes "\<And>r. hit r \<Longrightarrow> P (f r)" "\<And>r. hit r \<longleftrightarrow> P r"
  shows "find P (map (\<lambda>r. if hit r then f r else r) rs) = map_option f (find P rs)"
  using assms(1) by (induction rs) (simp_all add: assms(2))

lemma find_set_other:
  assumes "\<And>r. hit r \<Longrightarrow> \<not> P (f r)" "\<And>r. hit r \<Longrightarrow> \<not> P r"
  shows "find P (map (\<lambda>r. if hit r then f r else r) rs) = find P rs"
  using assms by (induction rs) simp_all

lemma kv_get_set:
  "state_kv_get t k s (state_kv_set now t key s val db) = (if k = key then Some (val, now) else state_kv_get t k s db)"
proof -
  let ?hit = "\<lambda>k r. kv_tenant r = t \<and> kv_key r = k \<and> kv_subject r = s"
  let ?f = "\<lambda>r. r\<lparr>kv_value := val, kv_updated := now\<rparr>"
  have set: "find (?hit k) (map (\<lambda>r. if ?hit key r then ?f r else r) (sd_kv db))
      = (if k = key then map_option ?f (find (?hit k) (sd_kv db)) else find (?hit k) (sd_kv db))"
  proof (cases "k = key")
    case True
    show ?thesis unfolding True by (subst find_set) simp_all
  next
    case False
    then show ?thesis by (subst find_set_other) auto
  qed
  have app: "find P (rs @ [r]) = (case find P rs of Some x \<Rightarrow> Some x | None \<Rightarrow> if P r then Some r else None)"
    for P :: "kv_row \<Rightarrow> bool" and rs r
    by (induction rs) auto
  show ?thesis
  proof (cases "find (?hit key) (sd_kv db)")
    case None
    then have "\<not> list_ex (?hit key) (sd_kv db)" by (auto simp: list_ex_iff find_None_iff)
    then have upd: "sd_kv (state_kv_set now t key s val db) =
        sd_kv db @ [\<lparr>kv_tenant = t, kv_key = key, kv_subject = s, kv_value = val, kv_updated = now\<rparr>]"
      unfolding state_kv_set_def Let_def by simp
    show ?thesis unfolding state_kv_get_def upd app using None by (auto split: option.splits)
  next
    case (Some r)
    then have "find (?hit key) (sd_kv db) \<noteq> None" by simp
    then have "list_ex (?hit key) (sd_kv db)" unfolding find_None_iff list_ex_iff by blast
    then have upd: "sd_kv (state_kv_set now t key s val db) = map (\<lambda>r. if ?hit key r then ?f r else r) (sd_kv db)"
      unfolding state_kv_set_def Let_def by simp
    show ?thesis unfolding state_kv_get_def upd set using Some by auto
  qed
qed

lemma kv_length_set:
  assumes "distinct (map kv_id rs)"
  shows "sum_list (map (\<lambda>r. int (length (kv_value r))) (filter (\<lambda>r. kv_tenant r = t)
        (map (\<lambda>r. if kv_tenant r = t \<and> kv_key r = key \<and> kv_subject r = s then r\<lparr>kv_value := val, kv_updated := now\<rparr> else r) rs)))
      = sum_list (map (\<lambda>r. int (length (kv_value r))) (filter (\<lambda>r. kv_tenant r = t) rs))
        + (case find (\<lambda>r. kv_tenant r = t \<and> kv_key r = key \<and> kv_subject r = s) rs of
             Some r \<Rightarrow> int (length val) - int (length (kv_value r)) | None \<Rightarrow> 0)"
  using assms
proof (induction rs)
  case (Cons r rs)
  have "find (\<lambda>r. kv_tenant r = t \<and> kv_key r = key \<and> kv_subject r = s) rs = None" if "kv_id r = (t, key, s)"
    using that Cons.prems by (auto simp: kv_id_def find_None_iff image_iff)
  with Cons show ?case by (auto simp: kv_id_def split: option.splits)
qed simp

lemma int_sum_list: "int (sum_list (map f xs)) = sum_list (map (\<lambda>x. int (f x)) xs)"
  by (induction xs) auto

lemma bytes_used_set:
  assumes "state_ok db"
  shows "state_bytes_used t (state_kv_set now t key s val db) = state_bytes_used t db + int (length val)
    - (case state_kv_get t key s db of Some (v, _) \<Rightarrow> int (length v) | None \<Rightarrow> 0)"
proof -
  let ?hit = "\<lambda>r. kv_tenant r = t \<and> kv_key r = key \<and> kv_subject r = s"
  have miss: "list_ex ?hit (sd_kv db) = (find ?hit (sd_kv db) \<noteq> None)"
    unfolding find_None_iff list_ex_iff by blast
  have rows: "sd_rows (state_kv_set now t key s val db) = sd_rows db"
    by (simp add: state_kv_set_def Let_def)
  show ?thesis
  proof (cases "find ?hit (sd_kv db)")
    case None
    then have "sd_kv (state_kv_set now t key s val db) =
        sd_kv db @ [\<lparr>kv_tenant = t, kv_key = key, kv_subject = s, kv_value = val, kv_updated = now\<rparr>]"
      unfolding state_kv_set_def Let_def miss by simp
    with None show ?thesis by (simp add: state_bytes_used_def state_kv_get_def rows)
  next
    case (Some r)
    then have upd: "sd_kv (state_kv_set now t key s val db) =
        map (\<lambda>r. if ?hit r then r\<lparr>kv_value := val, kv_updated := now\<rparr> else r) (sd_kv db)"
      unfolding state_kv_set_def Let_def miss by simp
    have "distinct (map kv_id (sd_kv db))" using assms by (simp add: state_ok_def)
    note kv_length_set[OF this, where t = t and key = key and s = s and val = val and now = now]
    then show ?thesis by (simp only: state_bytes_used_def upd rows int_sum_list) (simp add: Some state_kv_get_def)
  qed
qed

definition ascii :: "string \<Rightarrow> bool" where
  "ascii s \<longleftrightarrow> list_all (\<lambda>c. scalar c < 128) s"

lemma str_len_bounds: "length s \<le> str_len s" "ascii s \<Longrightarrow> str_len s = length s"
  by (induction s) (auto simp: ascii_def str_len_def as_bytes_def utf8_char_def Let_def)

lemma bytes_used_touch [simp]: "state_bytes_used t (touch_if_named t' subj now db) = state_bytes_used t db"
  "state_kv_get t k s (touch_if_named t' subj now db) = state_kv_get t k s db"
  by (simp_all add: state_bytes_used_def state_kv_get_def)

lemma state_setE:
  assumes "state_set fns c args db = (Inr answer, db')"
  obtains key v subj imp plan where
    "state_arg_str args ''key'' = Inr key" "json_get ''value'' args = Some v"
    "resolve_end_user args (sc_end_user c) = Inr (subj, imp)" "sc_plan c = Some plan"
    "check_end_user_quota plan (sc_now c) (sc_tenant c) subj db = None"
    "check_bytes_quota plan (sc_tenant c) (int (str_len (sf_ser fns v)) - existing_bytes (sc_tenant c) key subj db) db = None"
    "db' = touch_if_named (sc_tenant c) subj (sc_now c) (state_kv_set (sc_now c) (sc_tenant c) key subj (sf_ser fns v) db)"
  using assms by (auto simp: state_set_def Let_def split: sum.splits option.splits)

lemma set_within_quota:
  assumes "state_ok db" "check_bytes_quota plan t (int (str_len val) - existing_bytes t key subj db) db = None"
    and "\<And>old u. state_kv_get t key subj db = Some (old, u) \<Longrightarrow> ascii old"
  shows "state_bytes_used t (state_kv_set now t key subj val db) \<le> sp_bytes_max plan"
proof -
  have "existing_bytes t key subj db = (case state_kv_get t key subj db of Some (v, _) \<Rightarrow> int (length v) | None \<Rightarrow> 0)"
    using assms(3) str_len_bounds(2) by (auto simp: existing_bytes_def split: option.split)
  then show ?thesis
    using bytes_used_set[OF assms(1), of t now key subj val] assms(2) str_len_bounds(1)[of val]
    by (simp add: check_bytes_quota_def Let_def split: if_splits)
qed

text \<open>A value that was set is the value read. After a \<open>host.state.set\<close> that succeeded, \<open>host.state.get\<close> of the
  same key for the same end user answers that value with the time of the call; every other key reads as before;
  and, where the text it replaces is ASCII, what the tenant stores is within the plan's bytes.\<close>

theorem state_set_then_get:
  assumes "state_ok db" "state_set fns c args db = (Inr answer, db')"
    and "state_arg_str args ''key'' = Inr key" "json_get ''value'' args = Some v"
    and "resolve_end_user args (sc_end_user c) = Inr (subj, imp)" "sc_plan c = Some plan"
    and "sf_de fns (sf_ser fns v) = Inr v"
  shows "state_get fns c args db' = Inr (with_impersonated imp (mk_obj
          [(''key'', JStr key), (''value'', v), (''updated_unix'', JInt (sc_now c)), (''found'', JBool True)]))
    \<and> (\<forall>k. k = key \<or> state_kv_get (sc_tenant c) k subj db' = state_kv_get (sc_tenant c) k subj db)
    \<and> ((case state_kv_get (sc_tenant c) key subj db of Some (old, _) \<Rightarrow> ascii old | None \<Rightarrow> True)
        \<longrightarrow> state_bytes_used (sc_tenant c) db' \<le> sp_bytes_max plan)"
proof -
  from assms(2) have quota: "check_bytes_quota plan (sc_tenant c)
        (int (str_len (sf_ser fns v)) - existing_bytes (sc_tenant c) key subj db) db = None"
    and db': "db' = touch_if_named (sc_tenant c) subj (sc_now c) (state_kv_set (sc_now c) (sc_tenant c) key subj (sf_ser fns v) db)"
    using assms(3-6) by (auto elim!: state_setE)
  have "state_get fns c args db' = Inr (with_impersonated imp (mk_obj
          [(''key'', JStr key), (''value'', v), (''updated_unix'', JInt (sc_now c)), (''found'', JBool True)]))"
    using assms(3,5,7) by (simp add: state_get_def db' kv_get_set)
  moreover have "\<forall>k. k = key \<or> state_kv_get (sc_tenant c) k subj db' = state_kv_get (sc_tenant c) k subj db"
    by (simp add: db' kv_get_set)
  moreover have "state_bytes_used (sc_tenant c) db' \<le> sp_bytes_max plan"
    if "case state_kv_get (sc_tenant c) key subj db of Some (old, _) \<Rightarrow> ascii old | None \<Rightarrow> True"
    unfolding db' bytes_used_touch by (rule set_within_quota[OF assms(1) quota]) (use that in simp)
  ultimately show ?thesis by blast
qed

lemma state_set_then_get_witness:
  "state_get plain_state (call_as (Some ''alice'') 99) (self_args [(''key'', JStr ''k''), (''value'', JStr ''1'')]) alice_state =
     Inr (mk_obj [(''key'', JStr ''k''), (''value'', JStr ''1''), (''updated_unix'', JInt 1000), (''found'', JBool True)])"
proof -
  let ?c = "call_as (Some ''alice'') 99" and ?args = "self_args [(''key'', JStr ''k''), (''value'', JStr ''1'')]"
  have args: "json_get ''key'' ?args = Some (JStr ''k'')" "json_get ''value'' ?args = Some (JStr ''1'')"
      "json_get ''end_user'' ?args = Some (JStr ''self'')"
    by (simp_all add: self_args_def)
  then have arg: "state_arg_str ?args ''key'' = Inr ''k''" "resolve_end_user ?args (sc_end_user ?c) = Inr (''alice'', False)"
    by (simp_all add: state_arg_str_def resolve_end_user_def call_as_def)
  obtain answer where "state_set plain_state ?c ?args empty_state = (Inr answer, alice_state)"
    using arg args by (simp add: state_set_def alice_state_def call_as_def check_end_user_quota_def end_user_active_since_def
        count_distinct_end_users_since_def check_bytes_quota_def state_bytes_used_def existing_bytes_def state_kv_get_def
        empty_state_def plain_state_def str_len_def as_bytes_def utf8_char_def scalar_def Let_def)
  from state_set_then_get[OF _ this arg(1) args(2) arg(2)]
  show ?thesis by (simp add: state_ok_def empty_state_def call_as_def plain_state_def with_impersonated_def mk_obj_def)
qed

section \<open>Inserting by primary key\<close>

lemma sort_snoc_max:
  assumes "\<forall>y \<in> set xs. (k y :: 'b::linorder) < k x"
  shows "sort_key k (xs @ [x]) = sort_key k xs @ [x]"
  using assms
proof (induction xs)
  case (Cons y ys)
  have "k y < k x \<Longrightarrow> insort_key k y (zs @ [x]) = insort_key k y zs @ [x]" for zs
    by (induction zs) auto
  with Cons show ?case by simp
qed simp

lemma own_rows_after_delete:
  "state_rows_for_end_user t table s (snd (state_rows_delete_by_ids t table ids db)) =
     filter (\<lambda>(i, _). i \<notin> set ids) (state_rows_for_end_user t table s db)"
  unfolding state_rows_for_end_user_def state_rows_delete_by_ids_def Let_def
  by (simp add: filter_map o_def flip: filter_sort)
       (auto intro!: arg_cong[of _ _ "map (\<lambda>r. (sr_id r, sr_json r))"] filter_cong)

lemma own_rows_after_insert:
  "state_rows_for_end_user t table s (snd (state_row_insert t table j s db)) =
     state_rows_for_end_user t table s db @ [(next_row_id db, j)]"
proof -
  have "\<forall>r \<in> set (filter (\<lambda>r. sr_tenant r = t \<and> sr_table r = table \<and> sr_subject r = s) (sd_rows db)). sr_id r < next_row_id db"
    using next_row_id_fresh by auto
  from sort_snoc_max[of _ sr_id "\<lparr>sr_id = next_row_id db, sr_tenant = t, sr_table = table, sr_json = j, sr_subject = s\<rparr>"] this
  show ?thesis by (simp add: state_rows_for_end_user_def state_row_insert_def)
qed

lemma own_rows_touch [simp]:
  "state_rows_for_end_user t table s (touch_if_named t' s' now db) = state_rows_for_end_user t table s db"
  by (simp add: state_rows_for_end_user_def)

lemma own_rows_distinct: "state_ok db \<Longrightarrow> distinct (map fst (state_rows_for_end_user t table s db))"
  by (auto simp: state_ok_def state_rows_for_end_user_def distinct_map inj_on_def)

definition same_pk :: "state_fns \<Rightarrow> string \<Rightarrow> json \<Rightarrow> int \<times> string \<Rightarrow> bool" where
  "same_pk fns k v r \<longleftrightarrow> (case parse_value fns (snd r) of Some e \<Rightarrow> json_get k e = Some v | None \<Rightarrow> False)"

lemma filter_by_id:
  assumes "distinct (map fst rs)"
  shows "filter (\<lambda>(i, _). i \<notin> set (map fst (filter P rs))) rs = filter (\<lambda>r. \<not> P r) rs"
proof (rule filter_cong[OF refl])
  fix r
  assume r: "r \<in> set rs"
  then have "r' = r" if "r' \<in> set rs" "fst r' = fst r" for r'
    using assms that unfolding distinct_map inj_on_def by blast
  then have "fst r \<in> fst ` {x \<in> set rs. P x} \<longleftrightarrow> P r" using r by (metis (no_types, lifting) image_iff mem_Collect_eq)
  then show "(case r of (i, _) \<Rightarrow> i \<notin> set (map fst (filter P rs))) = (\<not> P r)"
    by (simp add: case_prod_beta')
qed

text \<open>C20. An insert replaces by primary key. After a \<open>host.state.insert\<close> of one row that succeeded, the caller's rows
  of the table are those it had whose primary key differs from the row's, in their order, and then the row.\<close>

theorem insert_replaces_by_primary_key:
  assumes "state_ok db" "state_insert fns c args db = (Inr answer, db')"
    and "state_arg_str args ''table'' = Inr table" "load_table fns (sc_tenant c) table db = Inr schema"
    and "resolve_end_user args (sc_end_user c) = Inr (subj, imp)"
    and "rows_arg args = Inr raw" "validate_all fns table (ts_columns schema) 0 raw = Inr ([row], coerced)"
    and "ts_primary_key schema = Some k" "map_of row k = Some v"
  shows "\<exists>i. state_rows_for_end_user (sc_tenant c) table subj db' =
      filter (\<lambda>r. \<not> same_pk fns k v r) (state_rows_for_end_user (sc_tenant c) table subj db) @ [(i, sf_ser fns (JObj row))]"
proof -
  let ?old = "state_rows_for_end_user (sc_tenant c) table subj db"
  define hits where "hits = replaced_rows fns (Some k) ?old row"
  define db1 where "db1 = (if hits = [] then db else snd (state_rows_delete_by_ids (sc_tenant c) table (map fst hits) db))"
  define db2 where "db2 = snd (state_row_insert (sc_tenant c) table (sf_ser fns (JObj row)) subj db1)"
  have hits: "hits = filter (same_pk fns k v) ?old"
    using assms(9) by (simp add: hits_def replaced_rows_def) (auto simp: same_pk_def intro!: filter_cong)
  have "db' = touch_if_named (sc_tenant c) subj (sc_now c) db2"
    using assms(2-9)
    by (auto simp: state_insert_def Let_def hits_def[symmetric] db1_def[symmetric] db2_def split: option.splits if_splits prod.splits)
  moreover have "state_rows_for_end_user (sc_tenant c) table subj db1 = filter (\<lambda>r. \<not> same_pk fns k v r) ?old"
    using filter_by_id[OF own_rows_distinct[OF assms(1)], of "same_pk fns k v" "sc_tenant c" table subj]
    by (auto simp: db1_def hits own_rows_after_delete filter_empty_conv)
  ultimately show ?thesis by (simp add: db2_def own_rows_after_insert)
qed

text \<open>Examples: a printer and parser of objects of one text field, and a table of one column.\<close>

fun field_print :: "json \<Rightarrow> string" where
  "field_print (JObj [(k, JStr s)]) = k @ '':'' @ s"
| "field_print v = plain_print v"

definition field_parse :: "string \<Rightarrow> string + json" where
  "field_parse s = Inr (case split_once_by (\<lambda>x. x = CHR '':'') s of Some (k, v) \<Rightarrow> JObj [(k, JStr v)] | None \<Rightarrow> JStr s)"

definition field_state :: "state_fns" where
  "field_state = plain_state\<lparr>sf_ser := field_print, sf_de := field_parse\<rparr>"

definition notes_db :: "state_row list \<Rightarrow> state_db" where
  "notes_db rows = \<lparr>sd_kv = [],
     sd_tables = [\<lparr>tt_tenant = 1, tt_name = ''notes'', tt_schema_json = ''a:text'', tt_primary_key = Some ''a''\<rparr>],
     sd_rows = rows, sd_activity = []\<rparr>"

definition notes_row :: "int \<Rightarrow> string \<Rightarrow> state_row" where
  "notes_row i j = \<lparr>sr_id = i, sr_tenant = 1, sr_table = ''notes'', sr_json = j, sr_subject = []\<rparr>"

definition notes_args :: "string list \<Rightarrow> json" where
  "notes_args vals = mk_obj [(''table'', JStr ''notes''), (''rows'', JArr (map (\<lambda>v. JObj [(''a'', JStr v)]) vals))]"

lemma notes_eval:
  "state_arg_str (notes_args vals) ''table'' = Inr ''notes''"
  "load_table field_state 1 ''notes'' (notes_db rows) = Inr \<lparr>ts_columns = [(''a'', CText)], ts_primary_key = Some ''a''\<rparr>"
  "resolve_end_user (notes_args vals) eu = Inr ([], False)"
  "rows_arg (notes_args vals) = Inr (map (\<lambda>v. [(''a'', JStr v)]) vals)"
  "validate_all field_state ''notes'' [(''a'', CText)] n (map (\<lambda>v. [(''a'', JStr v)]) vals) = Inr (map (\<lambda>v. [(''a'', JStr v)]) vals, [])"
proof -
  show "state_arg_str (notes_args vals) ''table'' = Inr ''notes''" "resolve_end_user (notes_args vals) eu = Inr ([], False)"
    by (simp_all add: notes_args_def state_arg_str_def resolve_end_user_def)
  show "load_table field_state 1 ''notes'' (notes_db rows) = Inr \<lparr>ts_columns = [(''a'', CText)], ts_primary_key = Some ''a''\<rparr>"
    by (simp add: load_table_def state_table_get_def notes_db_def parse_schema_def field_state_def field_parse_def column_parse_def)
  have "as_objects (map (\<lambda>v. JObj [(''a'', JStr v)]) vals) = Inr (map (\<lambda>v. [(''a'', JStr v)]) vals)"
    by (induction vals) auto
  then show "rows_arg (notes_args vals) = Inr (map (\<lambda>v. [(''a'', JStr v)]) vals)"
    by (simp add: rows_arg_def notes_args_def)
  show "validate_all field_state ''notes'' [(''a'', CText)] n (map (\<lambda>v. [(''a'', JStr v)]) vals) = Inr (map (\<lambda>v. [(''a'', JStr v)]) vals, [])"
    by (induction vals arbitrary: n) simp_all
qed

lemmas insert_eval = replaced_rows_def state_rows_for_end_user_def state_rows_all_def state_rows_delete_by_ids_def
  state_row_insert_def next_row_id_def parse_value_def check_bytes_quota_def check_end_user_quota_def state_bytes_used_def
  call_as_def field_state_def field_parse_def str_len_def as_bytes_def utf8_char_def scalar_def touch_if_named_def Let_def

definition insert_notes :: "int \<Rightarrow> string list \<Rightarrow> state_row list \<Rightarrow> (app_error + json) \<times> state_db" where
  "insert_notes bytes vals rows = state_insert field_state (call_as None bytes) (notes_args vals) (notes_db rows)"

lemma insert_notes_eval:
  "insert_notes bytes vals rows =
     (if int (length vals) > 5 then (Inl (state_quota_exceeded ''state_ops_per_call_max'' 5 (int (length vals))), notes_db rows)
      else (case insert_rows field_state 1 ''notes'' (Some ''a'') [] 10 (state_rows_for_end_user 1 ''notes'' [] (notes_db rows))
              (map (\<lambda>v. [(''a'', JStr v)]) vals)
              \<lparr>it_row_count = int (length (state_rows_all 1 ''notes'' (notes_db rows))), it_new_bytes = 0, it_replaced_bytes = 0, it_ids = []\<rparr>
              (notes_db rows) of
          (Inl e, db) \<Rightarrow> (Inl e, db)
        | (Inr it, db) \<Rightarrow> (case check_bytes_quota \<lparr>sp_bytes_max = bytes, sp_rows_max = 10, sp_ops_per_call_max = 5, sp_end_users_max = 9\<rparr> 1 (it_new_bytes it) db of
              Some e \<Rightarrow> (Inl e, db)
            | None \<Rightarrow> (Inr (mk_obj [(''table'', JStr ''notes''), (''inserted'', JInt (int (length (it_ids it)))),
                  (''ids'', JArr (map JInt (it_ids it))), (''bytes_delta'', JInt (it_new_bytes it - it_replaced_bytes it))]), db))))"
proof -
  have c: "sc_tenant (call_as None bytes) = 1" "sc_end_user (call_as None bytes) = None"
    "sc_plan (call_as None bytes) = Some \<lparr>sp_bytes_max = bytes, sp_rows_max = 10, sp_ops_per_call_max = 5, sp_end_users_max = 9\<rparr>"
    by (simp_all add: call_as_def)
  show ?thesis
    by (simp add: insert_notes_def state_insert_def c notes_eval check_end_user_quota_def touch_if_named_def with_impersonated_def
        mk_obj_def Let_def split: prod.split sum.split option.split)
qed

lemma insert_replaces_by_primary_key_witness:
  "\<exists>i. state_rows_for_end_user 1 ''notes'' [] (snd (insert_notes 99 [''x''] [notes_row 1 ''a:x'', notes_row 2 ''a:y''])) = [(2, ''a:y''), (i, ''a:x'')]"
proof -
  let ?rows = "[notes_row 1 ''a:x'', notes_row 2 ''a:y'']"
  have run: "\<exists>answer. fst (insert_notes 99 [''x''] ?rows) = Inr answer"
    by (simp add: insert_notes_eval insert_eval notes_db_def notes_row_def)
  have ok: "state_ok (notes_db ?rows)" by (simp add: state_ok_def notes_db_def notes_row_def)
  obtain answer where ins: "state_insert field_state (call_as None 99) (notes_args [''x'']) (notes_db ?rows)
      = (Inr answer, snd (insert_notes 99 [''x''] ?rows))"
    using run by (auto simp: insert_notes_def prod_eq_iff)
  have t: "sc_tenant (call_as None 99) = 1" by (simp add: call_as_def)
  have old: "state_rows_for_end_user 1 ''notes'' [] (notes_db ?rows) = [(1, ''a:x''), (2, ''a:y'')]"
    by (simp add: state_rows_for_end_user_def notes_db_def notes_row_def)
  from insert_replaces_by_primary_key[OF ok ins notes_eval(1), unfolded t, OF notes_eval(2,3,4), of "[(''a'', JStr ''x'')]" "[]" "''a''" "JStr ''x''"]
  show ?thesis
    using notes_eval(5)[of 0 "[''x'']"] unfolding old
    by (simp add: same_pk_def parse_value_def field_state_def field_parse_def)
qed

text \<open>A refused insert is kept. A row of four bytes fits a plan of five, and is refused: the check of the bytes runs
  after the rows are written and counts them again. The refused row stays in the table.\<close>

theorem rejected_insert_is_kept:
  "insert_notes 5 [''xy''] [] = (Inl (state_quota_exceeded ''state_bytes_max'' 5 4), notes_db [notes_row 1 ''a:xy''])"
  by (simp add: insert_notes_eval insert_eval notes_db_def notes_row_def)

text \<open>Two rows of one call with the same primary key are both kept, for the rows to replace are read before the loop.\<close>

lemma same_key_twice_is_kept:
  "sd_rows (snd (insert_notes 99 [''x'', ''x''] [])) = [notes_row 1 ''a:x'', notes_row 2 ''a:x'']"
  by (simp add: insert_notes_eval insert_eval notes_db_def notes_row_def)

text \<open>The byte quota counts the stored characters and the new bytes: two calls that both pass store four bytes of three.\<close>

definition put_k :: "string \<Rightarrow> state_write \<times> state_call \<times> json" where
  "put_k v = (EndUserCall OSet, call_as None 3, set_args ''k'' v)"

lemma quota_counts_characters:
  "state_bytes_used 1 (run_calls plain_state [put_k [CHR 0xE9], put_k ''abcd''] empty_state) = 4"
proof -
  have step: "snd (state_set plain_state (call_as None 3) (set_args k v) db) =
      (if state_bytes_used 1 db + (int (str_len v) - existing_bytes 1 k [] db) > 3 then db else state_kv_set 1000 1 k [] v db)" for k v db
    by (simp add: state_set_def set_args_def state_arg_str_def resolve_end_user_def call_as_def check_end_user_quota_def
        check_bytes_quota_def touch_if_named_def plain_state_def Let_def)
  have chars: "str_len [CHR 0xE9] = 2" "str_len ''abcd'' = 4"
    by (simp_all add: str_len_def as_bytes_def utf8_char_def scalar_def)
  have one: "snd (state_set plain_state (call_as None 3) (set_args ''k'' [CHR 0xE9]) empty_state) =
      \<lparr>sd_kv = [\<lparr>kv_tenant = 1, kv_key = ''k'', kv_subject = [], kv_value = [CHR 0xE9], kv_updated = 1000\<rparr>],
       sd_tables = [], sd_rows = [], sd_activity = []\<rparr>"
    by (simp add: step chars existing_bytes_def state_bytes_used_def state_kv_get_def state_kv_set_def empty_state_def)
  show ?thesis
    by (simp add: run_calls_def put_k_def one) (simp add: step chars existing_bytes_def state_bytes_used_def state_kv_get_def state_kv_set_def)
qed

text \<open>The order and the filter are read from the text alone: a field whose name ends in a direction, and a quoted
  \<open>and\<close>.\<close>

lemma order_by_suffix: "parse_order_by ''lastdesc'' = (''last'', True)"
  by (simp add: parse_order_by_def strip_suffix_def trim_def trim_end_def trim_start_def is_whitespace_def scalar_def Let_def)

lemma quoted_and_splits: "split_and ''n = x and y'' = [''n = x'', ''y'']"
  by (simp add: split_and_def to_ascii_lowercase_def is_ascii_upper_def scalar_def)

end
