(* ===== verification/Confirm.thy ===== *)
theory Confirm
  imports Idempotency
begin

text \<open>
  Destructive calls behind a preview: \<open>src/write_verbs.rs\<close> (the registry of verbs that write), the alias table of
  \<open>tool_aliases.rs\<close>, \<open>confirm.rs\<close>, the statements on \<open>confirm_tokens\<close> in \<open>db.rs\<close> and \<open>dispatch_tenant_tool_dry_run\<close>
  of \<open>handler.rs\<close> with its helpers.

  The tool behind the gate is an argument, \<open>inner\<close>: from the arguments and the world it gives the answer, the
  notes a dry run collects (\<open>dryrun::note_would\<close>) and the next world. A dry run is that function with its world
  thrown away: \<open>dryrun::finish\<close> rolls back every connection of the scope. SHA-256, the JSON printer, the base-64
  encoding of the random bytes and the error of a failing \<open>INSERT\<close> are arguments too.
\<close>

section \<open>Verbs that write\<close>

datatype verb_kind = KDelete | KDrop | KRevoke | KRemove | KWrite | KPublish | KRotate

datatype dry_run_mode = Supported | NoDryRun string

record write_verb =
  wv_name :: string
  wv_kind :: verb_kind
  wv_dry_run :: dry_run_mode

definition sv :: "string \<Rightarrow> verb_kind \<Rightarrow> write_verb" where
  "sv name kind = \<lparr>wv_name = name, wv_kind = kind, wv_dry_run = Supported\<rparr>"

definition nd :: "string \<Rightarrow> verb_kind \<Rightarrow> string \<Rightarrow> write_verb" where
  "nd name kind reason = \<lparr>wv_name = name, wv_kind = kind, wv_dry_run = NoDryRun reason\<rparr>"

definition WRITE_VERBS :: "write_verb list" where
  "WRITE_VERBS =
    [sv ''host.table.create'' KWrite,
     sv ''host.table.append'' KWrite,
     sv ''host.table.drop'' KDrop,
     sv ''host.table.handle_drop'' KDrop,
     sv ''host.table.model_set'' KWrite,
     sv ''host.state.set'' KWrite,
     sv ''host.state.insert'' KWrite,
     sv ''host.state.delete'' KDelete,
     sv ''host.state.delete_rows'' KDelete,
     sv ''host.state.table_create'' KWrite,
     sv ''host.state.table_drop'' KDrop,
     sv ''host.docs.put'' KWrite,
     sv ''host.docs.put_many'' KWrite,
     sv ''host.docs.delete'' KDelete,
     sv ''host.docs.purge'' KDelete,
     sv ''host.index.create'' KWrite,
     sv ''host.index.delete'' KDelete,
     sv ''host.enduser.purge'' KDelete,
     sv ''host.enduser.revoke'' KRevoke,
     sv ''host.enduser.unrevoke'' KRevoke,
     sv ''host.oauth.revoke_all'' KRevoke,
     sv ''host.oauth.grant_revoke'' KRevoke,
     sv ''host.oauth.issuer_set'' KWrite,
     sv ''host.oauth.issuer_remove'' KRemove,
     sv ''host.oauth.scope_set'' KWrite,
     sv ''host.oauth.policy_set'' KWrite,
     sv ''host.oauth.trusted_issuer_set'' KWrite,
     sv ''host.oauth.trusted_issuer_remove'' KRemove,
     sv ''host.runs.purge'' KDelete,
     sv ''host.tool.remove'' KRemove,
     sv ''host.tool.publish'' KPublish,
     sv ''host.trigger.set'' KWrite,
     sv ''host.trigger.pause'' KWrite,
     sv ''host.trigger.resume'' KWrite,
     sv ''host.trigger.remove'' KRemove,
     sv ''host.group.create'' KWrite,
     sv ''host.group.remove'' KRemove,
     sv ''host.invite.create'' KWrite,
     sv ''host.ask.create'' KWrite,
     sv ''host.invite.revoke'' KRevoke,
     sv ''host.secret.set'' KWrite,
     sv ''host.policy.set'' KWrite,
     sv ''host.policy.attrs_set'' KWrite,
     sv ''host.agent.profile_set'' KWrite,
     sv ''host.share.caller_limit_remove'' KRemove,
     nd ''host.key.rotate'' KRotate ''external_effect'',
     nd ''host.key.mint'' KWrite ''external_effect'',
     nd ''host.key.delegate'' KWrite ''external_effect'',
     nd ''host.key.revoke'' KRevoke ''irreversible_by_design'',
     nd ''host.blob.put'' KWrite ''external_effect'',
     nd ''host.blob.delete'' KDelete ''external_effect'',
     nd ''host.feedback.send'' KWrite ''external_effect'',
     nd ''host.example.propose'' KWrite ''external_effect'',
     nd ''host.self.offboard'' KDelete ''irreversible_by_design'',
     nd ''host.enduser.assertion_secret_rotate'' KRotate ''external_effect'',
     nd ''host.registry.publish'' KPublish ''external_effect'',
     nd ''host.index.refresh'' KWrite ''external_effect'',
     nd ''host.trigger.fire'' KWrite ''external_effect'',
     nd ''host.msg.send'' KWrite ''external_effect'',
     nd ''host.notify.channel_add'' KWrite ''external_effect'',
     nd ''host.notify.channel_remove'' KRemove ''external_effect'',
     nd ''host.notify.send'' KWrite ''external_effect'',
     nd ''host.email.send'' KWrite ''external_effect'',
     nd ''host.task.post'' KWrite ''external_effect'',
     nd ''host.channel.post'' KWrite ''external_effect'',
     nd ''host.uptime.create'' KWrite ''external_effect'',
     nd ''host.webhook_inbox.create'' KWrite ''external_effect'',
     nd ''host.connect.revoke'' KRevoke ''external_effect'',
     nd ''host.sync.create'' KWrite ''external_effect'',
     nd ''host.sync.delete'' KDelete ''external_effect'',
     nd ''host.sync.run_now'' KWrite ''external_effect'',
     nd ''host.vault.provider_set'' KWrite ''external_effect'',
     nd ''host.vault.provider_remove'' KRemove ''external_effect'',
     nd ''host.oauth.provider_set'' KWrite ''external_effect'',
     nd ''host.oauth.provider_remove'' KRemove ''external_effect'',
     nd ''host.note.put'' KWrite ''external_effect'',
     nd ''host.note.delete'' KDelete ''external_effect'',
     nd ''host.org.create'' KWrite ''external_effect'',
     nd ''host.org.join'' KWrite ''irreversible_by_design'',
     nd ''host.org.remove'' KRemove ''irreversible_by_design'',
     nd ''host.client.revoke'' KRevoke ''irreversible_by_design'',
     nd ''host.org.leave'' KRemove ''irreversible_by_design'',
     sv ''host.org.digest.set'' KWrite,
     nd ''host.org.digest.send'' KWrite ''external_effect'',
     nd ''host.resume'' KWrite ''read_only_shape'']"

definition TOOL_ALIASES :: "(string \<times> string) list" where
  "TOOL_ALIASES =
    [(''host.key_rotate'', ''host.key.rotate''),
     (''host.self_offboard'', ''host.self.offboard''),
     (''host.tool_publish'', ''host.tool.publish''),
     (''host.tool_list'', ''host.tool.list''),
     (''host.tool_remove'', ''host.tool.remove''),
     (''host.tool_logs'', ''host.tool.logs''),
     (''host.tool_test'', ''host.tool.test''),
     (''host.bridge_test'', ''host.bridge.test''),
     (''host.tool_run'', ''host.tool.run''),
     (''host.tool_call'', ''host.tool.call''),
     (''host.tool_history'', ''host.tool.history''),
     (''host.tool_rollback'', ''host.tool.rollback''),
     (''host.tool_diff'', ''host.tool.diff''),
     (''host.tool_share'', ''host.tool.share''),
     (''host.tool_spec_shared'', ''host.tool.spec_shared''),
     (''host.tool_list_shared'', ''host.tool.list_shared''),
     (''host.tool_fork'', ''host.tool.fork''),
     (''host.tool_unshare'', ''host.tool.unshare''),
     (''host.secret_set'', ''host.secret.set''),
     (''host.secret_list'', ''host.secret.list''),
     (''host.registry_publish'', ''host.registry.publish''),
     (''host.spec_test'', ''host.spec.test''),
     (''host.job_timeline'', ''host.job.timeline'')]"

definition resolve_alias :: "string \<Rightarrow> string option" where
  "resolve_alias name = map_option snd (find (\<lambda>(a, _). a = name) TOOL_ALIASES)"

definition lookup_verb :: "string \<Rightarrow> write_verb option" where
  "lookup_verb name =
     (let canonical_name = (case resolve_alias name of Some c \<Rightarrow> c | None \<Rightarrow> name)
      in find (\<lambda>v. wv_name v = canonical_name) WRITE_VERBS)"

definition dry_run_requested :: "json \<Rightarrow> bool" where
  "dry_run_requested args = (case Option.bind (json_get ''dry_run'' args) as_bool of Some b \<Rightarrow> b | None \<Rightarrow> False)"

definition no_dry_run_error :: "write_verb \<Rightarrow> string \<Rightarrow> app_error" where
  "no_dry_run_error verb reason =
     Structured ''args_invalid'' (wv_name verb @ '' does not support dry_run ('' @ reason @ '')'')
       (mk_obj [(''no_dry_run_reason'', JStr reason), (''verb'', JStr (wv_name verb))])"

fun kind_lower :: "verb_kind \<Rightarrow> string" where
  "kind_lower KDelete = ''delete''"
| "kind_lower KDrop = ''drop''"
| "kind_lower KRevoke = ''revoke''"
| "kind_lower KRemove = ''remove''"
| "kind_lower KWrite = ''write''"
| "kind_lower KPublish = ''publish''"
| "kind_lower KRotate = ''rotate''"

type_synonym would_notes = "(string \<times> json) list"

fun add_note :: "string \<times> json \<Rightarrow> (string \<times> json list) list \<Rightarrow> (string \<times> json list) list" where
  "add_note (c, item) m = obj_insert c ((case map_of m c of Some xs \<Rightarrow> xs | None \<Rightarrow> []) @ [item]) m"

fun find_map :: "('a \<Rightarrow> 'b option) \<Rightarrow> 'a list \<Rightarrow> 'b option" where
  "find_map f [] = None"
| "find_map f (x # xs) = (case f x of Some y \<Rightarrow> Some y | None \<Rightarrow> find_map f xs)"

definition build_would :: "write_verb \<Rightarrow> json \<Rightarrow> would_notes \<Rightarrow> json" where
  "build_would verb args noted =
     (let would = map (\<lambda>(c, items). (c, JArr items)) (fold add_note noted []);
          target = (case find_map (\<lambda>k. Option.bind (json_get k args) as_str)
              [''name'', ''id'', ''table'', ''handle'', ''subject'', ''invite'', ''group'', ''key'', ''grant_id'']
            of Some t \<Rightarrow> t | None \<Rightarrow> ''*'');
          would = (if would = [] then [(''state'', JArr [mk_obj [(''key'', JStr (wv_name verb @ '':'' @ target)),
                     (''action'', JStr (kind_lower (wv_kind verb)))]])] else would)
      in mk_obj [(''would'', JObj would), (''_meta'', mk_obj [(''dry_run'', JBool True)])])"

section \<open>Tokens\<close>

definition TOKEN_TTL_S :: int where
  "TOKEN_TTL_S = 600"

definition gated :: "write_verb \<Rightarrow> bool" where
  "gated verb \<longleftrightarrow> wv_dry_run verb = Supported \<and> wv_kind verb \<in> {KDelete, KDrop, KRevoke, KRemove}"

definition gated_name :: "string \<Rightarrow> bool" where
  "gated_name name \<longleftrightarrow> (case lookup_verb name of Some v \<Rightarrow> gated v | None \<Rightarrow> False)"

text \<open>The sum of the counted notes, if any counts. (\<open>+=\<close> wraps in a release build.)\<close>

definition note_rows :: "string \<times> json \<Rightarrow> int option" where
  "note_rows n = (let (c, item) = n in
     if c = ''rows'' then Option.bind (json_get ''delete'' item) as_i64
     else if c = ''tables'' then Option.bind (json_get ''rows'' item) as_i64 else None)"

fun rows_total :: "would_notes \<Rightarrow> int option \<Rightarrow> int option" where
  "rows_total [] acc = acc"
| "rows_total (n # ns) acc =
     rows_total ns (case note_rows n of None \<Rightarrow> acc
       | Some k \<Rightarrow> Some (wrap_i64 ((case acc of Some t \<Rightarrow> t | None \<Rightarrow> 0) + k)))"

definition rows_affected :: "would_notes \<Rightarrow> int option" where
  "rows_affected noted = rows_total noted None"

definition needs_confirm :: "would_notes \<Rightarrow> int \<Rightarrow> bool" where
  "needs_confirm noted confirm_rows_min \<longleftrightarrow>
     confirm_rows_min > 0 \<and> (case rows_affected noted of Some n \<Rightarrow> n \<ge> confirm_rows_min | None \<Rightarrow> False)"

record confirm_fns =
  cf_ser :: "json \<Rightarrow> string"
  cf_sha :: "nat list \<Rightarrow> nat list"
  cf_base64 :: "nat list \<Rightarrow> string"
  cf_db_error :: app_error

fun canonical_value :: "json \<Rightarrow> json" where
  "canonical_value (JObj m) = JObj (fold (\<lambda>(k, v). obj_insert k v) (map (\<lambda>(k, v). (k, canonical_value v)) m) [])"
| "canonical_value (JArr items) = JArr (map canonical_value items)"
| "canonical_value other = other"

definition sha256_hex :: "confirm_fns \<Rightarrow> string \<Rightarrow> string" where
  "sha256_hex fns s = concat (map hex_byte (cf_sha fns (as_bytes s)))"

definition hash_value :: "confirm_fns \<Rightarrow> json \<Rightarrow> string" where
  "hash_value fns v = sha256_hex fns (cf_ser fns (canonical_value v))"

definition without :: "string list \<Rightarrow> json \<Rightarrow> json" where
  "without ks v = (case v of JObj m \<Rightarrow> JObj (filter (\<lambda>(k, _). k \<notin> set ks) m) | _ \<Rightarrow> v)"

definition args_hash :: "confirm_fns \<Rightarrow> json \<Rightarrow> string" where
  "args_hash fns args = hash_value fns (without [''confirm'', ''dry_run''] args)"

definition diff_value :: "would_notes \<Rightarrow> json" where
  "diff_value noted = JArr (map (\<lambda>(c, v). JArr [JStr c, v]) noted)"

definition diff_hash :: "confirm_fns \<Rightarrow> would_notes \<Rightarrow> string" where
  "diff_hash fns noted = hash_value fns (diff_value noted)"

definition confirm_arg :: "json \<Rightarrow> string option" where
  "confirm_arg args = Option.bind (json_get ''confirm'' args) as_str"

definition new_token :: "confirm_fns \<Rightarrow> nat list \<Rightarrow> string" where
  "new_token fns bytes = ''c_'' @ cf_base64 fns bytes"

definition token_hash :: "confirm_fns \<Rightarrow> string \<Rightarrow> string" where
  "token_hash fns token = sha256_hex fns token"

definition put_arg :: "string \<Rightarrow> json \<Rightarrow> json \<Rightarrow> json" where
  "put_arg k x v = (case v of JObj m \<Rightarrow> JObj (obj_insert k x m) | _ \<Rightarrow> v)"

definition dry_run_first :: "string \<Rightarrow> json \<Rightarrow> json" where
  "dry_run_first tool args =
     mk_obj [(''tool'', JStr tool), (''args'', put_arg ''dry_run'' (JBool True) (without [''confirm''] args))]"

definition required_error :: "string \<Rightarrow> json \<Rightarrow> json \<Rightarrow> int \<Rightarrow> app_error" where
  "required_error tool args would confirm_rows_min =
     Structured ''confirm_required''
       (tool @ '' would affect at least '' @ show_int confirm_rows_min @ '' rows or a whole object; call dry_run_first.tool with dry_run_first.args, read `would`, then repeat this call with the returned `confirm`'')
       (mk_obj [(''dry_run_first'', dry_run_first tool args), (''would'', would), (''confirm_rows_min'', JInt confirm_rows_min)])"

definition invalid_error :: "string \<Rightarrow> json option \<Rightarrow> app_error" where
  "invalid_error reason would =
     Structured ''confirm_invalid'' (''confirm token refused: '' @ reason)
       (mk_obj ((''reason'', JStr reason) # (case would of Some w \<Rightarrow> [(''would'', w)] | None \<Rightarrow> [])))"

section \<open>The table \<open>confirm_tokens\<close>\<close>

record token_row =
  ct_hash :: string
  ct_tenant :: int
  ct_verb :: string
  ct_args_hash :: string
  ct_diff_hash :: string
  ct_expires :: int
  ct_used :: "int option"

text \<open>The primary key is the hash.\<close>

definition confirm_token_mint ::
  "confirm_fns \<Rightarrow> int \<Rightarrow> string \<Rightarrow> string \<Rightarrow> string \<Rightarrow> string \<Rightarrow> int \<Rightarrow> token_row list \<Rightarrow> (app_error + unit) \<times> token_row list" where
  "confirm_token_mint fns tenant h verb ah dh expires rows =
     (if h \<in> set (map ct_hash rows) then (Inl (cf_db_error fns), rows)
      else (Inr (), rows @ [\<lparr>ct_hash = h, ct_tenant = tenant, ct_verb = verb, ct_args_hash = ah, ct_diff_hash = dh,
                              ct_expires = expires, ct_used = None\<rparr>]))"

definition confirm_token_get :: "int \<Rightarrow> string \<Rightarrow> token_row list \<Rightarrow> token_row option" where
  "confirm_token_get tenant h rows = find (\<lambda>r. ct_hash r = h \<and> ct_tenant r = tenant) rows"

definition confirm_token_consume :: "string \<Rightarrow> int \<Rightarrow> token_row list \<Rightarrow> bool \<times> token_row list" where
  "confirm_token_consume h now rows =
     (let hit = (\<lambda>r. ct_hash r = h \<and> ct_used r = None) in
      (length (filter hit rows) = 1, map (\<lambda>r. if hit r then r\<lparr>ct_used := Some now\<rparr> else r) rows))"

definition confirm_token_release :: "string \<Rightarrow> token_row list \<Rightarrow> token_row list" where
  "confirm_token_release h rows = map (\<lambda>r. if ct_hash r = h then r\<lparr>ct_used := None\<rparr> else r) rows"

definition confirm_tokens_prune :: "int \<Rightarrow> token_row list \<Rightarrow> nat \<times> token_row list" where
  "confirm_tokens_prune cutoff rows =
     (length (filter (\<lambda>r. ct_expires r < cutoff) rows), filter (\<lambda>r. \<not> ct_expires r < cutoff) rows)"

section \<open>The gate\<close>

definition confirm_stripped :: "json \<Rightarrow> json" where
  "confirm_stripped args = (if confirm_arg args \<noteq> None then without [''confirm''] args else args)"

definition mark_scratch :: "json \<Rightarrow> json" where
  "mark_scratch v = (case v of
       JObj m \<Rightarrow>
         (case obj_entry_or ''_meta'' (mk_obj []) m of m' \<Rightarrow>
           (case map_of m' ''_meta'' of
              Some (JObj meta) \<Rightarrow>
                JObj (obj_insert ''_meta'' (JObj (obj_entry_or ''dry_run'' (JBool False) (obj_insert ''scratch'' (JBool True) meta))) m')
            | _ \<Rightarrow> JObj m'))
     | _ \<Rightarrow> v)"

text \<open>What the dispatch reads of the caller: the clock, the tenant, whether it is a scratch tenant, its plan's
  \<open>confirm_rows_min\<close> (0 when the plan is unknown) and the random bytes of a new token.\<close>

record confirm_call =
  cc_now :: int
  cc_tenant :: int
  cc_scratch :: bool
  cc_min :: int
  cc_random :: "nat list"

type_synonym 'w tool = "json \<Rightarrow> 'w \<Rightarrow> (app_error + json) \<times> would_notes \<times> 'w"

definition dry_run_notes :: "'w tool \<Rightarrow> json \<Rightarrow> 'w \<Rightarrow> app_error + would_notes" where
  "dry_run_notes inner args w =
     (let inner_args = without [''dry_run''] (confirm_stripped args);
          inner_args = (if confirm_arg args \<noteq> None then put_arg ''confirm'' (JBool True) inner_args else inner_args)
      in case inner inner_args w of
           (Inl e, _, _) \<Rightarrow> Inl e
         | (Inr _, noted, _) \<Rightarrow> Inr noted)"

definition confirm_decorate_dry_run ::
  "confirm_fns \<Rightarrow> confirm_call \<Rightarrow> write_verb \<Rightarrow> json \<Rightarrow> would_notes \<Rightarrow> json \<Rightarrow> token_row list \<Rightarrow> (app_error + json) \<times> token_row list" where
  "confirm_decorate_dry_run fns c verb args noted would rows =
     (if cc_scratch c then (Inr (mark_scratch would), rows)
      else if \<not> needs_confirm noted (cc_min c) then (Inr would, rows)
      else
        (let token = new_token fns (cc_random c) in
         case confirm_token_mint fns (cc_tenant c) (token_hash fns token) (wv_name verb) (args_hash fns args) (diff_hash fns noted)
                (wrap_i64 (cc_now c + TOKEN_TTL_S)) rows of
           (Inl e, rows) \<Rightarrow> (Inl e, rows)
         | (Inr _, rows) \<Rightarrow> (Inr (put_arg ''confirm'' (JStr token) would), rows)))"

definition would_of :: "write_verb \<Rightarrow> json \<Rightarrow> would_notes \<Rightarrow> json" where
  "would_of verb args noted = (case json_get ''would'' (build_would verb args noted) of Some v \<Rightarrow> v | None \<Rightarrow> JNull)"

definition token_refusal :: "confirm_fns \<Rightarrow> confirm_call \<Rightarrow> write_verb \<Rightarrow> json \<Rightarrow> would_notes \<Rightarrow> token_row \<Rightarrow> (string \<times> json option) option" where
  "token_refusal fns c verb args noted row =
     (if ct_verb row \<noteq> wv_name verb then Some (''unknown'', None)
      else if ct_used row \<noteq> None then Some (''used'', None)
      else if ct_expires row \<le> cc_now c then Some (''expired'', None)
      else if ct_args_hash row \<noteq> args_hash fns args then Some (''args_changed'', None)
      else if ct_diff_hash row \<noteq> diff_hash fns noted then Some (''state_changed'', Some (would_of verb args noted))
      else None)"

definition confirm_check ::
  "confirm_fns \<Rightarrow> confirm_call \<Rightarrow> write_verb \<Rightarrow> string \<Rightarrow> json \<Rightarrow> would_notes \<Rightarrow> token_row list \<Rightarrow> (app_error + string) \<times> token_row list" where
  "confirm_check fns c verb name args noted rows =
     (case confirm_arg args of
        None \<Rightarrow> (Inl (required_error name args (would_of verb args noted) (cc_min c)), rows)
      | Some token \<Rightarrow>
          (let h = token_hash fns token in
           case confirm_token_get (cc_tenant c) h rows of
             None \<Rightarrow> (Inl (invalid_error ''unknown'' None), rows)
           | Some row \<Rightarrow>
               (case token_refusal fns c verb args noted row of
                  Some (reason, would) \<Rightarrow> (Inl (invalid_error reason would), rows)
                | None \<Rightarrow>
                    (case confirm_token_consume h (cc_now c) rows of
                       (False, rows) \<Rightarrow> (Inl (invalid_error ''used'' None), rows)
                     | (True, rows) \<Rightarrow> (Inr h, rows)))))"

text \<open>The real call of a gated verb: the token it consumed, if any, its answer, the world and the tokens.\<close>

definition gated_call ::
  "confirm_fns \<Rightarrow> 'w tool \<Rightarrow> confirm_call \<Rightarrow> write_verb \<Rightarrow> string \<Rightarrow> json \<Rightarrow> 'w \<Rightarrow> token_row list
     \<Rightarrow> string option \<times> (app_error + json) \<times> 'w \<times> token_row list" where
  "gated_call fns inner c verb name args w rows =
     (if cc_scratch c then
        (let (res, _, w') = inner (confirm_stripped args) w in
         (None, (case res of Inl e \<Rightarrow> Inl e | Inr v \<Rightarrow> Inr (mark_scratch v)), w', rows))
      else
        (let gate =
           (if cc_min c > 0 then
              (case dry_run_notes inner args w of
                 Inr noted \<Rightarrow>
                   if needs_confirm noted (cc_min c) then
                     (case confirm_check fns c verb name args noted rows of
                        (Inl e, rows) \<Rightarrow> (Inl e, rows)
                      | (Inr h, rows) \<Rightarrow> (Inr (Some h), rows))
                   else (Inr None, rows)
               | Inl _ \<Rightarrow> (Inr None, rows))
            else (Inr None, rows))
         in case gate of
              (Inl e, rows) \<Rightarrow> (None, Inl e, w, rows)
            | (Inr consumed, rows) \<Rightarrow>
                (let inner_args = (if consumed \<noteq> None then put_arg ''confirm'' (JBool True) (confirm_stripped args)
                                   else confirm_stripped args);
                     (res, _, w') = inner inner_args w
                 in (consumed, res, w',
                     (case (res, consumed) of (Inl _, Some h) \<Rightarrow> confirm_token_release h rows | _ \<Rightarrow> rows)))))"

definition dispatch_dry_run ::
  "confirm_fns \<Rightarrow> 'w tool \<Rightarrow> confirm_call \<Rightarrow> string \<Rightarrow> json \<Rightarrow> 'w \<Rightarrow> token_row list
     \<Rightarrow> string option \<times> (app_error + json) \<times> 'w \<times> token_row list" where
  "dispatch_dry_run fns inner c name args w rows =
     (let plain = (let (res, _, w') = inner args w in (None, res, w', rows)) in
      case lookup_verb name of
        None \<Rightarrow> plain
      | Some verb \<Rightarrow>
          if dry_run_requested args then
            (case wv_dry_run verb of
               NoDryRun reason \<Rightarrow> (None, Inl (no_dry_run_error verb reason), w, rows)
             | Supported \<Rightarrow>
                 if wv_kind verb \<noteq> KPublish then
                   (case dry_run_notes inner args w of
                      Inl e \<Rightarrow> (None, Inl e, w, rows)
                    | Inr noted \<Rightarrow>
                        (let would = build_would verb args noted in
                         if gated verb then
                           (let (res, rows') = confirm_decorate_dry_run fns c verb args noted would rows in (None, res, w, rows'))
                         else (None, Inr would, w, rows)))
                 else plain)
          else if gated verb then gated_call fns inner c verb name args w rows
          else plain)"

section \<open>The table\<close>

definition tokens_ok :: "token_row list \<Rightarrow> bool" where
  "tokens_ok rows \<longleftrightarrow> distinct (map ct_hash rows)"

definition spent :: "string \<Rightarrow> token_row list \<Rightarrow> bool" where
  "spent h rows \<longleftrightarrow> (\<exists>r \<in> set rows. ct_hash r = h \<and> ct_used r \<noteq> None)"

definition fresh :: "token_row \<Rightarrow> token_row" where
  "fresh r = r\<lparr>ct_used := None\<rparr>"

lemma fresh_eq: "fresh r = fresh r' \<longleftrightarrow>
    ct_hash r = ct_hash r' \<and> ct_tenant r = ct_tenant r' \<and> ct_verb r = ct_verb r' \<and> ct_args_hash r = ct_args_hash r'
      \<and> ct_diff_hash r = ct_diff_hash r' \<and> ct_expires r = ct_expires r'"
  by (cases r; cases r') (simp add: fresh_def)

lemma fresh_kept [simp]:
  "map fresh (snd (confirm_token_consume h now rows)) = map fresh rows"
  "map fresh (confirm_token_release h rows) = map fresh rows"
  unfolding confirm_token_consume_def confirm_token_release_def Let_def snd_conv
  by (induction rows) (auto simp: fresh_def)

lemma fresh_hash: "map fresh rows = map fresh rows' \<Longrightarrow> map ct_hash rows = map ct_hash rows'"
proof -
  assume "map fresh rows = map fresh rows'"
  then have "map ct_hash (map fresh rows) = map ct_hash (map fresh rows')" by simp
  then show ?thesis by (simp add: fresh_def o_def)
qed

lemma consume_keeps_spent: "spent k rows \<Longrightarrow> spent k (snd (confirm_token_consume h now rows))"
proof -
  assume "spent k rows"
  then obtain q where "q \<in> set rows" "ct_hash q = k" "ct_used q \<noteq> None" by (auto simp: spent_def)
  then show ?thesis unfolding spent_def confirm_token_consume_def Let_def snd_conv by (intro bexI[of _ q]) auto
qed

lemma consume_spends:
  assumes "confirm_token_consume h now rows = (True, rows')"
  shows "spent h rows'"
proof -
  have rows': "rows' = map (\<lambda>r. if ct_hash r = h \<and> ct_used r = None then r\<lparr>ct_used := Some now\<rparr> else r) rows"
    and "filter (\<lambda>r. ct_hash r = h \<and> ct_used r = None) rows \<noteq> []"
    using assms by (auto simp: confirm_token_consume_def Let_def)
  then obtain r where "r \<in> set rows" "ct_hash r = h" "ct_used r = None" by (auto simp: filter_empty_conv)
  then show "spent h rows'" unfolding spent_def rows' by (intro bexI[of _ "r\<lparr>ct_used := Some now\<rparr>"]) auto
qed

lemma release_keeps_spent: "spent k rows \<Longrightarrow> k \<noteq> h \<Longrightarrow> spent k (confirm_token_release h rows)"
  unfolding spent_def confirm_token_release_def by force

lemma get_unspent:
  assumes "tokens_ok rows" "confirm_token_get t h rows = Some r" "ct_used r = None"
  shows "\<not> spent h rows"
proof
  assume "spent h rows"
  then obtain q where q: "q \<in> set rows" "ct_hash q = h" "ct_used q \<noteq> None" by (auto simp: spent_def)
  have r: "r \<in> set rows" "ct_hash r = h" using find_hit[OF assms(2)[unfolded confirm_token_get_def]] by auto
  have "q = r" using assms(1) q r unfolding tokens_ok_def distinct_map inj_on_def by metis
  with q assms(3) show False by simp
qed

section \<open>The check\<close>

lemma token_refusal_None: "token_refusal fns c verb args noted row = None \<longleftrightarrow>
    ct_verb row = wv_name verb \<and> ct_used row = None \<and> cc_now c < ct_expires row
      \<and> ct_args_hash row = args_hash fns args \<and> ct_diff_hash row = diff_hash fns noted"
  by (auto simp: token_refusal_def)

lemma confirm_check_ok:
  assumes "confirm_check fns c verb name args noted rows = (Inr h, rows')"
  obtains token r where "confirm_arg args = Some token" "h = token_hash fns token"
    "confirm_token_get (cc_tenant c) h rows = Some r" "token_refusal fns c verb args noted r = None"
    "confirm_token_consume h (cc_now c) rows = (True, rows')"
  using assms by (auto simp: confirm_check_def Let_def split: option.splits prod.splits bool.splits)

lemma confirm_check_rows:
  assumes "confirm_check fns c verb name args noted rows = (res, rows')"
  shows "map fresh rows' = map fresh rows" "spent k rows \<Longrightarrow> spent k rows'"
proof -
  have "rows' = rows \<or> (\<exists>h. rows' = snd (confirm_token_consume h (cc_now c) rows))"
    using assms by (auto simp: confirm_check_def Let_def split: option.splits prod.splits bool.splits) (metis snd_conv)+
  then show "map fresh rows' = map fresh rows" "spent k rows \<Longrightarrow> spent k rows'"
    using consume_keeps_spent by auto
qed

definition large :: "'w tool \<Rightarrow> confirm_call \<Rightarrow> json \<Rightarrow> 'w \<Rightarrow> bool" where
  "large inner c args w \<longleftrightarrow> \<not> cc_scratch c \<and>
     (case dry_run_notes inner args w of Inr noted \<Rightarrow> needs_confirm noted (cc_min c) | Inl _ \<Rightarrow> False)"

lemma gated_call_small:
  assumes "\<not> large inner c args w"
  shows "\<exists>res w'. gated_call fns inner c verb name args w rows = (None, res, w', rows)"
proof -
  have "cc_min c > 0 \<Longrightarrow> \<not> cc_scratch c \<Longrightarrow> dry_run_notes inner args w = Inr noted \<Longrightarrow> \<not> needs_confirm noted (cc_min c)" for noted
    using assms by (simp add: large_def)
  then show ?thesis
    by (auto simp: gated_call_def Let_def split: prod.splits sum.splits)
qed

lemma gated_call_large:
  assumes "large inner c args w" "dry_run_notes inner args w = Inr noted"
  shows "gated_call fns inner c verb name args w rows =
    (case confirm_check fns c verb name args noted rows of
       (Inl e, rows1) \<Rightarrow> (None, Inl e, w, rows1)
     | (Inr h, rows1) \<Rightarrow>
         (let (res, _, w') = inner (put_arg ''confirm'' (JBool True) (confirm_stripped args)) w
          in (Some h, res, w', (case res of Inl _ \<Rightarrow> confirm_token_release h rows1 | Inr _ \<Rightarrow> rows1))))"
proof -
  have "\<not> cc_scratch c" "needs_confirm noted (cc_min c)" using assms by (auto simp: large_def)
  moreover from this(2) have "cc_min c > 0" by (simp add: needs_confirm_def)
  ultimately show ?thesis
    by (simp add: gated_call_def assms(2) Let_def split: prod.splits sum.splits)
qed

lemma large_notes: "large inner c args w \<Longrightarrow> \<exists>noted. dry_run_notes inner args w = Inr noted"
  by (auto simp: large_def split: sum.splits)

text \<open>What a real call of a gated verb does to the tokens: a token that is spent stays spent and is not consumed
  again, and only the use of a token changes.\<close>

lemma gated_call_rows:
  assumes "gated_call fns inner c verb name args w rows = (consumed, res, w', rows')" "tokens_ok rows"
  shows "map fresh rows' = map fresh rows" "spent k rows \<Longrightarrow> spent k rows'"
    "consumed = Some h \<Longrightarrow> \<not> spent h rows" "consumed = Some h \<Longrightarrow> res = Inr v \<Longrightarrow> spent h rows'"
proof -
  have "map fresh rows' = map fresh rows \<and> (\<forall>k. spent k rows \<longrightarrow> spent k rows')
      \<and> (\<forall>h. consumed = Some h \<longrightarrow> \<not> spent h rows \<and> (\<forall>v. res = Inr v \<longrightarrow> spent h rows'))"
  proof (cases "large inner c args w")
    case False
    from gated_call_small[OF this, of fns verb name rows] assms(1) show ?thesis by auto
  next
    case True
    from large_notes[OF this] obtain noted where noted: "dry_run_notes inner args w = Inr noted" ..
    obtain check rows1 where check: "confirm_check fns c verb name args noted rows = (check, rows1)" by fastforce
    note kept = confirm_check_rows[OF check]
    show ?thesis
    proof (cases check)
      case (Inl e)
      with assms(1) check have "consumed = None" "rows' = rows1" by (auto simp: gated_call_large[OF True noted])
      with kept show ?thesis by simp
    next
      case (Inr h)
      with assms(1) check have c: "consumed = Some h"
        and rows': "rows' = (case res of Inl _ \<Rightarrow> confirm_token_release h rows1 | Inr _ \<Rightarrow> rows1)"
        by (auto simp: gated_call_large[OF True noted] Let_def split: prod.splits)
      from check Inr obtain token r where r: "confirm_token_get (cc_tenant c) h rows = Some r"
          "token_refusal fns c verb args noted r = None" "confirm_token_consume h (cc_now c) rows = (True, rows1)"
        by (auto elim: confirm_check_ok)
      have new: "\<not> spent h rows" using get_unspent[OF assms(2) r(1)] r(2) by (simp add: token_refusal_None)
      have "spent k rows'" if "spent k rows" for k
        using kept(2)[OF that] that new release_keeps_spent[of k rows1 h] by (auto simp: rows' split: sum.splits)
      with new kept(1) consume_spends[OF r(3)] show ?thesis by (auto simp: c rows' split: sum.splits)
    qed
  qed
  then show "map fresh rows' = map fresh rows" "spent k rows \<Longrightarrow> spent k rows'"
    "consumed = Some h \<Longrightarrow> \<not> spent h rows" "consumed = Some h \<Longrightarrow> res = Inr v \<Longrightarrow> spent h rows'"
    by blast+
qed

section \<open>Runs\<close>

record 'w gate_call =
  gc_inner :: "'w tool"
  gc_call :: confirm_call
  gc_name :: string
  gc_args :: json

fun run_gate ::
  "confirm_fns \<Rightarrow> 'w gate_call list \<Rightarrow> 'w \<Rightarrow> token_row list \<Rightarrow> (string option \<times> (app_error + json)) list \<times> 'w \<times> token_row list" where
  "run_gate fns [] w rows = ([], w, rows)"
| "run_gate fns (g # gs) w rows =
     (let (consumed, res, w', rows') = dispatch_dry_run fns (gc_inner g) (gc_call g) (gc_name g) (gc_args g) w rows;
          (log, w'', rows'') = run_gate fns gs w' rows'
      in ((consumed, res) # log, w'', rows''))"

text \<open>The call is a dry run of a verb whose measured notes need a confirmation, and the row is the token it mints.\<close>

definition mints :: "confirm_fns \<Rightarrow> 'w gate_call \<Rightarrow> 'w \<Rightarrow> token_row \<Rightarrow> bool" where
  "mints fns g w r \<longleftrightarrow> dry_run_requested (gc_args g)
     \<and> (\<exists>verb noted. lookup_verb (gc_name g) = Some verb \<and> gated verb \<and> \<not> cc_scratch (gc_call g)
         \<and> dry_run_notes (gc_inner g) (gc_args g) w = Inr noted \<and> needs_confirm noted (cc_min (gc_call g))
         \<and> fresh r = \<lparr>ct_hash = token_hash fns (new_token fns (cc_random (gc_call g))), ct_tenant = cc_tenant (gc_call g),
              ct_verb = wv_name verb, ct_args_hash = args_hash fns (gc_args g), ct_diff_hash = diff_hash fns noted,
              ct_expires = wrap_i64 (cc_now (gc_call g) + TOKEN_TTL_S), ct_used = None\<rparr>)"

lemma dispatch_cases:
  assumes "dispatch_dry_run fns inner c name args w rows = (consumed, res, w', rows')"
  obtains (same) "consumed = None" "rows' = rows"
  | (minted) r where "consumed = None" "rows' = rows @ [r]" "ct_hash r \<notin> set (map ct_hash rows)"
      "mints fns \<lparr>gc_inner = inner, gc_call = c, gc_name = name, gc_args = args\<rparr> w r"
  | (real) verb where "gated_call fns inner c verb name args w rows = (consumed, res, w', rows')"
proof (cases "lookup_verb name")
  case None
  with assms show ?thesis by (auto simp: dispatch_dry_run_def Let_def split: prod.splits intro: same)
next
  case (Some verb)
  show ?thesis
  proof (cases "dry_run_requested args")
    case False
    with assms Some show ?thesis
      by (auto simp: dispatch_dry_run_def Let_def split: prod.splits if_splits intro: same real)
  next
    case True
    show ?thesis
    proof (cases "gated verb \<and> (\<exists>noted. dry_run_notes inner args w = Inr noted \<and> needs_confirm noted (cc_min c)) \<and> \<not> cc_scratch c")
      case False
      with assms Some True show ?thesis
        by (auto simp: dispatch_dry_run_def confirm_decorate_dry_run_def Let_def
            split: prod.splits if_splits sum.splits dry_run_mode.splits intro: same)
    next
      case big: True
      then obtain noted where n: "dry_run_notes inner args w = Inr noted" "needs_confirm noted (cc_min c)" by blast
      define r where "r = \<lparr>ct_hash = token_hash fns (new_token fns (cc_random c)), ct_tenant = cc_tenant c,
          ct_verb = wv_name verb, ct_args_hash = args_hash fns args, ct_diff_hash = diff_hash fns noted,
          ct_expires = wrap_i64 (cc_now c + TOKEN_TTL_S), ct_used = None\<rparr>"
      have v: "wv_dry_run verb = Supported" "wv_kind verb \<noteq> KPublish" using big by (auto simp: gated_def)
      have r: "consumed = None" "rows' = rows \<and> res = Inl (cf_db_error fns) \<or> rows' = rows @ [r] \<and> ct_hash r \<notin> set (map ct_hash rows)"
        using assms Some True big n v
        by (auto simp: dispatch_dry_run_def confirm_decorate_dry_run_def confirm_token_mint_def Let_def r_def split: if_splits)
      have "mints fns \<lparr>gc_inner = inner, gc_call = c, gc_name = name, gc_args = args\<rparr> w r"
        unfolding mints_def using Some True big n by (simp add: r_def fresh_def)
      with r show ?thesis using same minted by blast
    qed
  qed
qed

lemma dispatch_rows:
  assumes "dispatch_dry_run fns inner c name args w rows = (consumed, res, w', rows')" "tokens_ok rows"
  shows "tokens_ok rows'" "spent k rows \<Longrightarrow> spent k rows'"
    "consumed = Some h \<Longrightarrow> \<not> spent h rows" "consumed = Some h \<Longrightarrow> res = Inr v \<Longrightarrow> spent h rows'"
    "r \<in> set rows' \<Longrightarrow> fresh r \<in> fresh ` set rows
       \<or> mints fns \<lparr>gc_inner = inner, gc_call = c, gc_name = name, gc_args = args\<rparr> w r"
proof -
  have "tokens_ok rows' \<and> (\<forall>k. spent k rows \<longrightarrow> spent k rows')
      \<and> (\<forall>h. consumed = Some h \<longrightarrow> \<not> spent h rows \<and> (\<forall>v. res = Inr v \<longrightarrow> spent h rows'))
      \<and> (\<forall>r \<in> set rows'. fresh r \<in> fresh ` set rows
           \<or> mints fns \<lparr>gc_inner = inner, gc_call = c, gc_name = name, gc_args = args\<rparr> w r)"
    using assms(1)
  proof (cases rule: dispatch_cases)
    case same
    with assms(2) show ?thesis by simp
  next
    case (minted r)
    with assms(2) show ?thesis by (auto simp: tokens_ok_def spent_def)
  next
    case (real verb)
    note g = gated_call_rows[OF real assms(2)]
    have "map ct_hash rows' = map ct_hash rows" using fresh_hash[OF g(1)] .
    moreover have "fresh ` set rows' = fresh ` set rows" using arg_cong[OF g(1), of set] by simp
    ultimately show ?thesis using assms(2) g(2-4) unfolding tokens_ok_def by (auto simp: image_iff)
  qed
  then show "tokens_ok rows'" "spent k rows \<Longrightarrow> spent k rows'"
    "consumed = Some h \<Longrightarrow> \<not> spent h rows" "consumed = Some h \<Longrightarrow> res = Inr v \<Longrightarrow> spent h rows'"
    "r \<in> set rows' \<Longrightarrow> fresh r \<in> fresh ` set rows
       \<or> mints fns \<lparr>gc_inner = inner, gc_call = c, gc_name = name, gc_args = args\<rparr> w r"
    by blast+
qed

lemma run_gate_step:
  assumes "dispatch_dry_run fns (gc_inner g) (gc_call g) (gc_name g) (gc_args g) w rows = (consumed, res, w1, rows1)"
    and "run_gate fns gs w1 rows1 = (hist, w', rows')"
  shows "run_gate fns (g # gs) w rows = ((consumed, res) # hist, w', rows')"
  using assms by simp

lemma gate_call_eta: "\<lparr>gc_inner = gc_inner g, gc_call = gc_call g, gc_name = gc_name g, gc_args = gc_args g\<rparr> = g"
  by simp

text \<open>Every token of a run was there before, up to its use, or was minted by one of its dry runs.\<close>

lemma run_gate_rows:
  assumes "run_gate fns gs w rows = (hist, w', rows')" "tokens_ok rows"
  shows "tokens_ok rows' \<and> (\<forall>k. spent k rows \<longrightarrow> spent k rows')
    \<and> (\<forall>r \<in> set rows'. fresh r \<in> fresh ` set rows \<or> (\<exists>g \<in> set gs. \<exists>w0. mints fns g w0 r))"
  using assms
proof (induction gs arbitrary: w rows hist)
  case (Cons g gs)
  obtain consumed res w1 rows1 where d:
    "dispatch_dry_run fns (gc_inner g) (gc_call g) (gc_name g) (gc_args g) w rows = (consumed, res, w1, rows1)"
    by (metis prod_cases4)
  obtain hist' where r: "run_gate fns gs w1 rows1 = (hist', w', rows')"
    using Cons.prems(1) by (auto simp: d split: prod.splits)
  note one = dispatch_rows[OF d Cons.prems(2), unfolded gate_call_eta]
  note rest = Cons.IH[OF r one(1)]
  have "fresh r \<in> fresh ` set rows \<or> (\<exists>g \<in> set (g # gs). \<exists>w0. mints fns g w0 r)" if "r \<in> set rows'" for r
  proof (cases "\<exists>g \<in> set gs. \<exists>w0. mints fns g w0 r")
    case False
    with rest that obtain r1 where r1: "r1 \<in> set rows1" "fresh r = fresh r1" by blast
    from one(5)[OF r1(1)] have "fresh r \<in> fresh ` set rows \<or> mints fns g w r"
      unfolding mints_def r1(2)[symmetric] by simp
    then show ?thesis by auto
  qed auto
  with rest one(1,2) show ?case by blast
qed simp

definition winners :: "(string option \<times> (app_error + json)) list \<Rightarrow> string list" where
  "winners hist = List.map_filter (\<lambda>(consumed, res). case res of Inr _ \<Rightarrow> consumed | Inl _ \<Rightarrow> None) hist"

lemma winners_new:
  assumes "run_gate fns gs w rows = (hist, w', rows')" "tokens_ok rows"
  shows "distinct (winners hist) \<and> (\<forall>h \<in> set (winners hist). \<not> spent h rows)"
  using assms
proof (induction gs arbitrary: w rows hist)
  case (Cons g gs)
  obtain consumed res w1 rows1 where d:
    "dispatch_dry_run fns (gc_inner g) (gc_call g) (gc_name g) (gc_args g) w rows = (consumed, res, w1, rows1)"
    by (metis prod_cases4)
  obtain hist' where r: "run_gate fns gs w1 rows1 = (hist', w', rows')" and hist: "hist = (consumed, res) # hist'"
    using Cons.prems(1) by (auto simp: d split: prod.splits)
  note one = dispatch_rows[OF d Cons.prems(2)]
  note rest = Cons.IH[OF r one(1)]
  show ?case
  proof (cases "\<exists>h v. consumed = Some h \<and> res = Inr v")
    case True
    then obtain h v where h: "consumed = Some h" "res = Inr v" by blast
    then have "winners hist = h # winners hist'" by (simp add: hist winners_def map_filter_def)
    with rest one(2) one(3)[OF h(1)] one(4)[OF h] show ?thesis by auto
  next
    case False
    then have "winners hist = winners hist'" by (auto simp: hist winners_def map_filter_def split: sum.splits option.splits)
    with rest one(2) show ?thesis by auto
  qed
qed (simp add: winners_def map_filter_def)

lemma verb_by_name:
  assumes "lookup_verb a = Some v" "lookup_verb b = Some v'" "wv_name v = wv_name v'"
  shows "v = v'"
proof -
  have "find (\<lambda>x. wv_name x = wv_name u) WRITE_VERBS = Some u" if "lookup_verb n = Some u" for n u
  proof -
    from that have f: "find (\<lambda>x. wv_name x = (case resolve_alias n of Some c \<Rightarrow> c | None \<Rightarrow> n)) WRITE_VERBS = Some u"
      unfolding lookup_verb_def Let_def .
    from find_hit[OF f] have name: "wv_name u = (case resolve_alias n of Some c \<Rightarrow> c | None \<Rightarrow> n)" by blast
    show ?thesis unfolding name by (rule f)
  qed
  from this[OF assms(1)] this[OF assms(2)] show ?thesis unfolding assms(3) by (rule option.inject[THEN iffD1, OF trans[OF sym]])
qed

text \<open>C21. A large destructive call is one that was previewed. In any sequence of calls of any verbs by any tenants, a real
  call of a gated verb whose measured effect reaches the plan's \<open>confirm_rows_min\<close> either is refused and changes
  nothing, or carries a token that an earlier dry run minted: of the same verb, for the same tenant, less than ten
  minutes before, with the same hash of the arguments and the same hash of the measured effect.\<close>

theorem large_write_was_previewed:
  assumes "run_gate fns calls w [] = (hist, w1, rows)"
    and "lookup_verb name = Some verb" "gated verb" "\<not> dry_run_requested args" "\<not> cc_scratch c"
    and "dry_run_notes inner args w1 = Inr noted" "needs_confirm noted (cc_min c)"
    and "dispatch_dry_run fns inner c name args w1 rows = (consumed, res, w2, rows2)"
  shows "(\<exists>e. res = Inl e \<and> w2 = w1) \<or>
    (\<exists>token g w0 noted0. confirm_arg args = Some token \<and> g \<in> set calls \<and> dry_run_requested (gc_args g)
       \<and> token_hash fns token = token_hash fns (new_token fns (cc_random (gc_call g)))
       \<and> lookup_verb (gc_name g) = Some verb \<and> cc_tenant (gc_call g) = cc_tenant c
       \<and> cc_now c < wrap_i64 (cc_now (gc_call g) + TOKEN_TTL_S)
       \<and> args_hash fns (gc_args g) = args_hash fns args
       \<and> dry_run_notes (gc_inner g) (gc_args g) w0 = Inr noted0 \<and> diff_hash fns noted0 = diff_hash fns noted)"
proof -
  have large: "large inner c args w1" using assms(5-7) by (simp add: large_def)
  have d: "gated_call fns inner c verb name args w1 rows = (consumed, res, w2, rows2)"
    using assms(2-4,8) by (simp add: dispatch_dry_run_def Let_def)
  obtain check rows1 where check: "confirm_check fns c verb name args noted rows = (check, rows1)" by fastforce
  show ?thesis
  proof (cases check)
    case (Inl e)
    with d check show ?thesis by (auto simp: gated_call_large[OF large assms(6)])
  next
    case (Inr h)
    with check obtain token r where token: "confirm_arg args = Some token" "h = token_hash fns token"
        and r: "confirm_token_get (cc_tenant c) h rows = Some r" "token_refusal fns c verb args noted r = None"
      by (auto elim: confirm_check_ok)
    have hit: "r \<in> set rows" "ct_hash r = h" "ct_tenant r = cc_tenant c"
      using find_hit[OF r(1)[unfolded confirm_token_get_def]] by auto
    have "tokens_ok []" by (simp add: tokens_ok_def)
    from run_gate_rows[OF assms(1) this] hit(1) obtain g w0 where g: "g \<in> set calls" "mints fns g w0 r" by auto
    then obtain verb0 noted0 where m: "lookup_verb (gc_name g) = Some verb0" "dry_run_notes (gc_inner g) (gc_args g) w0 = Inr noted0"
        "ct_hash r = token_hash fns (new_token fns (cc_random (gc_call g)))" "ct_tenant r = cc_tenant (gc_call g)"
        "ct_verb r = wv_name verb0" "ct_args_hash r = args_hash fns (gc_args g)" "ct_diff_hash r = diff_hash fns noted0"
        "ct_expires r = wrap_i64 (cc_now (gc_call g) + TOKEN_TTL_S)" "dry_run_requested (gc_args g)"
      by (cases r) (auto simp: mints_def fresh_def)
    have "verb0 = verb"
      using verb_by_name[OF m(1) assms(2)] m(5) r(2) by (simp add: token_refusal_None)
    with token g(1) m hit r(2) show ?thesis by (auto simp: token_refusal_None)
  qed
qed

text \<open>C22. A token authorises one write. In any sequence of calls no token is consumed by two calls that succeed, and
  none that was spent before. (A call that fails gives its token back.)\<close>

theorem token_authorises_once:
  assumes "run_gate fns calls w rows = (hist, w', rows')" "tokens_ok rows"
  shows "distinct (winners hist) \<and> (\<forall>h \<in> set (winners hist). \<not> spent h rows)"
  using winners_new[OF assms] .

lemma find_append0: "find P xs = None \<Longrightarrow> find P (xs @ ys) = find P ys"
  by (induction xs) (auto split: if_splits)

text \<open>C23. The token of a preview opens the gate. After a dry run that answers with a token, the real call that carries
  it, with the same arguments, by the same tenant and within ten minutes, runs the tool with \<open>confirm: true\<close> if it
  measures the same effect, and answers what the tool answers.\<close>

theorem preview_token_opens:
  assumes "dispatch_dry_run fns inner c0 name args0 w0 rows = (None, Inr would, w, rows1)" "tokens_ok rows"
    and "lookup_verb name = Some verb" "gated verb" "dry_run_requested args0" "json_get ''confirm'' would = Some (JStr token)"
    and "dry_run_notes inner args0 w0 = Inr noted" "needs_confirm noted (cc_min c0)" "\<not> cc_scratch c0"
    and "\<not> dry_run_requested args" "confirm_arg args = Some token" "args_hash fns args = args_hash fns args0"
    and "cc_tenant c = cc_tenant c0" "\<not> cc_scratch c" "cc_min c = cc_min c0"
    and "cc_now c < cc_now c0 + TOKEN_TTL_S" "in_i64 (cc_now c0 + TOKEN_TTL_S)"
    and "dry_run_notes inner args w1 = Inr noted"
    and "inner (put_arg ''confirm'' (JBool True) (confirm_stripped args)) w1 = (res, noted1, w2)"
  shows "\<exists>rows2. dispatch_dry_run fns inner c name args w1 rows1 = (Some (token_hash fns token), res, w2, rows2)"
proof -
  have v: "wv_dry_run verb = Supported" "wv_kind verb \<noteq> KPublish" using assms(4) by (auto simp: gated_def)
  let ?h = "token_hash fns (new_token fns (cc_random c0))"
  let ?r = "\<lparr>ct_hash = ?h, ct_tenant = cc_tenant c0, ct_verb = wv_name verb, ct_args_hash = args_hash fns args0,
      ct_diff_hash = diff_hash fns noted, ct_expires = wrap_i64 (cc_now c0 + TOKEN_TTL_S), ct_used = None\<rparr>"
  have fresh: "?h \<notin> set (map ct_hash rows)" and rows1: "rows1 = rows @ [?r]"
    and would: "would = put_arg ''confirm'' (JStr (new_token fns (cc_random c0))) (build_would verb args0 noted)"
    using assms(1,3-5,7-9) v
    by (auto simp: dispatch_dry_run_def confirm_decorate_dry_run_def confirm_token_mint_def Let_def split: if_splits)
  have token: "token = new_token fns (cc_random c0)"
    using assms(6) by (simp add: would build_would_def put_arg_def mk_obj_def Let_def)
  have miss: "find (\<lambda>r. ct_hash r = ?h \<and> ct_tenant r = cc_tenant c0) rows = None"
    "filter (\<lambda>r. ct_hash r = ?h \<and> ct_used r = None) rows = []"
    using fresh by (force simp: find_None_iff filter_empty_conv)+
  have get: "confirm_token_get (cc_tenant c) (token_hash fns token) rows1 = Some ?r"
    using miss(1) by (simp add: confirm_token_get_def rows1 token assms(13) find_append0)
  have "cc_now c < wrap_i64 (cc_now c0 + TOKEN_TTL_S)" using assms(16,17) by (simp add: wrap_i64_id)
  then have "token_refusal fns c verb args noted ?r = None"
    using assms(12) by (simp add: token_refusal_None)
  moreover have "fst (confirm_token_consume (token_hash fns token) (cc_now c) rows1)"
    using miss(2) by (simp add: confirm_token_consume_def rows1 token Let_def)
  ultimately obtain rows2 where check: "confirm_check fns c verb name args noted rows1 = (Inr (token_hash fns token), rows2)"
    using get assms(11) by (cases "confirm_token_consume (token_hash fns token) (cc_now c) rows1")
      (auto simp: confirm_check_def Let_def)
  have "large inner c args w1" using assms(8,14,15,18) by (simp add: large_def)
  from gated_call_large[OF this assms(18), of fns verb name rows1] check assms(3,4,10,19)
  show ?thesis by (simp add: dispatch_dry_run_def Let_def)
qed

section \<open>Examples\<close>

text \<open>A world of \<open>n\<close> rows and a verb that deletes them all.\<close>

definition demo_fns :: confirm_fns where
  "demo_fns = \<lparr>cf_ser = (\<lambda>_. []), cf_sha = (\<lambda>bs. bs), cf_base64 = (\<lambda>_. ''a''), cf_db_error = Internal ''constraint''\<rparr>"

definition demo_tool :: "int tool" where
  "demo_tool args w = (Inr (JInt w), [(''rows'', mk_obj [(''delete'', JInt w)])], 0)"

definition demo_call :: "int \<Rightarrow> confirm_call" where
  "demo_call now = \<lparr>cc_now = now, cc_tenant = 1, cc_scratch = False, cc_min = 5, cc_random = [97]\<rparr>"

definition preview_args :: json where
  "preview_args = JObj [(''dry_run'', JBool True)]"

definition confirmed_args :: json where
  "confirmed_args = JObj [(''confirm'', JStr ''c_a'')]"

definition delete_verb :: write_verb where
  "delete_verb = sv ''host.state.delete_rows'' KDelete"

lemma demo_verb: "lookup_verb ''host.state.delete_rows'' = Some delete_verb" "gated delete_verb"
  by (simp_all add: lookup_verb_def resolve_alias_def TOOL_ALIASES_def WRITE_VERBS_def sv_def nd_def delete_verb_def gated_def)

lemma demo_args:
  "dry_run_requested preview_args" "\<not> dry_run_requested confirmed_args"
  "confirm_arg preview_args = None" "confirm_arg confirmed_args = Some ''c_a''"
  by (simp_all add: preview_args_def confirmed_args_def dry_run_requested_def confirm_arg_def)

lemma demo_notes: "dry_run_notes demo_tool args w = Inr [(''rows'', mk_obj [(''delete'', JInt w)])]"
  by (simp add: dry_run_notes_def demo_tool_def)

lemma demo_needs: "needs_confirm [(''rows'', mk_obj [(''delete'', JInt 9)])] 5"
  by (simp add: needs_confirm_def rows_affected_def note_rows_def wrap_i64_def in_i64_def i64_min_def i64_max_def)

lemma demo_token: "new_token demo_fns [97] = ''c_a''"
  by (simp add: new_token_def demo_fns_def)

definition demo_rows :: "token_row list" where
  "demo_rows = [\<lparr>ct_hash = token_hash demo_fns ''c_a'', ct_tenant = 1, ct_verb = ''host.state.delete_rows'',
      ct_args_hash = args_hash demo_fns preview_args, ct_diff_hash = diff_hash demo_fns [(''rows'', mk_obj [(''delete'', JInt 9)])],
      ct_expires = 1600, ct_used = None\<rparr>]"

lemma demo_preview:
  "\<exists>would. json_get ''confirm'' would = Some (JStr ''c_a'') \<and>
     dispatch_dry_run demo_fns demo_tool (demo_call 1000) ''host.state.delete_rows'' preview_args 9 [] = (None, Inr would, 9, demo_rows)"
proof -
  have "wv_dry_run delete_verb = Supported" "wv_kind delete_verb \<noteq> KPublish" "wv_name delete_verb = ''host.state.delete_rows''"
    by (simp_all add: delete_verb_def sv_def)
  then have "dispatch_dry_run demo_fns demo_tool (demo_call 1000) ''host.state.delete_rows'' preview_args 9 [] =
      (None, Inr (put_arg ''confirm'' (JStr ''c_a'') (build_would delete_verb preview_args [(''rows'', mk_obj [(''delete'', JInt 9)])])), 9, demo_rows)"
    using demo_needs
    by (simp add: dispatch_dry_run_def demo_verb demo_args demo_notes confirm_decorate_dry_run_def demo_call_def confirm_token_mint_def
        demo_token demo_rows_def TOKEN_TTL_S_def wrap_i64_def Let_def)
  then show ?thesis by (simp add: put_arg_def build_would_def mk_obj_def Let_def)
qed

lemma demo_hash: "args_hash demo_fns confirmed_args = args_hash demo_fns preview_args"
  by (simp add: args_hash_def hash_value_def demo_fns_def)

lemma demo_real:
  "\<exists>rows2. dispatch_dry_run demo_fns demo_tool (demo_call 1100) ''host.state.delete_rows'' confirmed_args 9 demo_rows
     = (Some (token_hash demo_fns ''c_a''), Inr (JInt 9), 0, rows2)"
proof -
  have c: "cc_now (demo_call 1100) = 1100" "cc_tenant (demo_call 1100) = 1" "cc_min (demo_call 1100) = 5" "\<not> cc_scratch (demo_call 1100)"
    by (simp_all add: demo_call_def)
  have v: "wv_name delete_verb = ''host.state.delete_rows''" by (simp add: delete_verb_def sv_def)
  have "large demo_tool (demo_call 1100) confirmed_args 9" using demo_needs c by (simp add: large_def demo_notes)
  note g = gated_call_large[OF this demo_notes]
  define r where "r = hd demo_rows"
  then have rows: "demo_rows = [r]" and r: "ct_hash r = token_hash demo_fns ''c_a''" "ct_tenant r = 1" "ct_used r = None"
    "ct_verb r = ''host.state.delete_rows''" "ct_args_hash r = args_hash demo_fns preview_args"
    "ct_diff_hash r = diff_hash demo_fns [(''rows'', mk_obj [(''delete'', JInt 9)])]" "ct_expires r = 1600"
    by (simp_all add: demo_rows_def)
  have "token_refusal demo_fns (demo_call 1100) delete_verb confirmed_args [(''rows'', mk_obj [(''delete'', JInt 9)])] r = None"
    by (simp add: token_refusal_None c v r demo_hash)
  then have "confirm_check demo_fns (demo_call 1100) delete_verb ''host.state.delete_rows'' confirmed_args [(''rows'', mk_obj [(''delete'', JInt 9)])] [r]
      = (Inr (token_hash demo_fns ''c_a''), [r\<lparr>ct_used := Some 1100\<rparr>])"
    by (simp add: confirm_check_def demo_args confirm_token_get_def confirm_token_consume_def c r)
  then show ?thesis
    by (simp add: dispatch_dry_run_def demo_verb demo_args g rows demo_tool_def)
qed

lemma preview_token_opens_witness:
  "\<exists>rows2. dispatch_dry_run demo_fns demo_tool (demo_call 1100) ''host.state.delete_rows'' confirmed_args 9 demo_rows
     = (Some (token_hash demo_fns ''c_a''), Inr (JInt 9), 0, rows2)"
proof -
  obtain would where would: "json_get ''confirm'' would = Some (JStr ''c_a'')"
    "dispatch_dry_run demo_fns demo_tool (demo_call 1000) ''host.state.delete_rows'' preview_args 9 [] = (None, Inr would, 9, demo_rows)"
    using demo_preview by blast
  show ?thesis
    using preview_token_opens[OF would(2) _ demo_verb demo_args(1) would(1) demo_notes _ _ demo_args(2,4) demo_hash _ _ _ _ _ demo_notes,
        of "demo_call 1100" "Inr (JInt 9)" "[(''rows'', mk_obj [(''delete'', JInt 9)])]" 0] demo_needs
    by (simp add: demo_call_def tokens_ok_def TOKEN_TTL_S_def in_i64_def i64_min_def i64_max_def demo_tool_def)
qed

definition demo_gate_call :: "json \<Rightarrow> int \<Rightarrow> int gate_call" where
  "demo_gate_call args now = \<lparr>gc_inner = demo_tool, gc_call = demo_call now, gc_name = ''host.state.delete_rows'', gc_args = args\<rparr>"

lemma token_authorises_once_witness:
  "distinct (winners (fst (run_gate demo_fns [demo_gate_call preview_args 1000, demo_gate_call confirmed_args 1100,
     demo_gate_call confirmed_args 1100] 9 [])))"
proof -
  obtain hist w' rows' where "run_gate demo_fns [demo_gate_call preview_args 1000, demo_gate_call confirmed_args 1100,
     demo_gate_call confirmed_args 1100] 9 [] = (hist, w', rows')" by (metis prod_cases3)
  from token_authorises_once[OF this] this show ?thesis by (simp add: tokens_ok_def)
qed

lemma large_write_was_previewed_witness:
  "\<exists>token g. confirm_arg confirmed_args = Some token \<and> g \<in> {demo_gate_call preview_args 1000}
     \<and> token_hash demo_fns token = token_hash demo_fns (new_token demo_fns (cc_random (gc_call g)))"
proof -
  obtain would where "dispatch_dry_run demo_fns demo_tool (demo_call 1000) ''host.state.delete_rows'' preview_args 9 [] = (None, Inr would, 9, demo_rows)"
    using demo_preview by blast
  then have run: "run_gate demo_fns [demo_gate_call preview_args 1000] 9 [] = ([(None, Inr would)], 9, demo_rows)"
    by (simp add: demo_gate_call_def)
  obtain rows2 where real: "dispatch_dry_run demo_fns demo_tool (demo_call 1100) ''host.state.delete_rows'' confirmed_args 9 demo_rows
     = (Some (token_hash demo_fns ''c_a''), Inr (JInt 9), 0, rows2)"
    using demo_real by blast
  show ?thesis
    using large_write_was_previewed[OF run demo_verb demo_args(2) _ demo_notes _ real] demo_needs
    by (auto simp: demo_call_def)
qed

end
