(* ===== verification/NetGuard.thy ===== *)
theory NetGuard
  imports Errors "HOL-Library.Word"
begin

text \<open>
  Which addresses an outgoing request may reach: \<open>src/net/fetch_guard.rs\<close> (the guard of \<open>source_url\<close> imports), the
  host checks of \<open>src/kinds/http.rs\<close>, and their users \<open>check_url\<close> of \<open>index.rs\<close>, \<open>check_url_ref\<close> of \<open>sync/mod.rs\<close>,
  \<open>url_allowed\<close> of \<open>notify.rs\<close> and \<open>cimd_host_allowed\<close> of \<open>authz.rs\<close>.

  Octets are 8-bit and segments 16-bit words; an IPv6 address is the list of its eight segments. The parser of
  addresses is that of \<open>std::net\<close>. A parsed URL (of the \<open>url\<close> crate) is its scheme, its host text (an IPv6 literal
  in brackets) and its path; the URL parser and the name resolver are arguments.
\<close>

unbundle bit_operations_syntax

section \<open>Addresses\<close>

type_synonym octet = "8 word"
type_synonym segment = "16 word"

datatype ip_addr = V4 octet octet octet octet | V6 "segment list"

definition to_digit :: "nat \<Rightarrow> char \<Rightarrow> nat option" where
  "to_digit radix c =
     (let n = scalar c;
          v = (if 48 \<le> n \<and> n \<le> 57 then n - 48 else if 97 \<le> n \<and> n \<le> 122 then n - 87 else if 65 \<le> n \<and> n \<le> 90 then n - 55 else radix)
      in if v < radix then Some v else None)"

definition read_number :: "nat \<Rightarrow> nat \<Rightarrow> bool \<Rightarrow> nat \<Rightarrow> string \<Rightarrow> (nat \<times> string) option" where
  "read_number radix max_digits allow_zero_prefix bound s =
     (let ds = takeWhile (\<lambda>c. to_digit radix c \<noteq> None) s;
          v = foldl (\<lambda>n c. n * radix + (case to_digit radix c of Some d \<Rightarrow> d | None \<Rightarrow> 0)) 0 ds
      in if length ds > max_digits then None
         else if ds = [] then None
         else if \<not> allow_zero_prefix \<and> hd ds = CHR ''0'' \<and> length ds > 1 then None
         else if v < bound then Some (v, drop (length ds) s) else None)"

definition read_separator :: "char \<Rightarrow> nat \<Rightarrow> (string \<Rightarrow> ('a \<times> string) option) \<Rightarrow> string \<Rightarrow> ('a \<times> string) option" where
  "read_separator sep index f s =
     (if index > 0 then (case s of c # cs \<Rightarrow> if c = sep then f cs else None | [] \<Rightarrow> None) else f s)"

definition read_octet :: "string \<Rightarrow> (octet \<times> string) option" where
  "read_octet s = map_option (\<lambda>(n, r). (of_nat n, r)) (read_number 10 3 False 256 s)"

definition read_ipv4 :: "string \<Rightarrow> ((octet \<times> octet \<times> octet \<times> octet) \<times> string) option" where
  "read_ipv4 s =
     (case read_octet s of None \<Rightarrow> None | Some (a, s) \<Rightarrow>
      case read_separator CHR ''.'' 1 read_octet s of None \<Rightarrow> None | Some (b, s) \<Rightarrow>
      case read_separator CHR ''.'' 2 read_octet s of None \<Rightarrow> None | Some (c, s) \<Rightarrow>
      case read_separator CHR ''.'' 3 read_octet s of None \<Rightarrow> None | Some (d, s) \<Rightarrow> Some ((a, b, c, d), s))"

definition read_segment :: "string \<Rightarrow> (segment \<times> string) option" where
  "read_segment s = map_option (\<lambda>(n, r). (of_nat n, r)) (read_number 16 4 True 65536 s)"

definition two_octets :: "octet \<Rightarrow> octet \<Rightarrow> segment" where
  "two_octets a b = of_nat (unat a * 256 + unat b)"

text \<open>The groups from position \<open>i\<close> on, at most \<open>n\<close> more: an IPv4 part takes two and ends the address.\<close>

fun read_groups :: "nat \<Rightarrow> nat \<Rightarrow> string \<Rightarrow> segment list \<times> bool \<times> string" where
  "read_groups 0 i s = ([], False, s)"
| "read_groups (Suc n) i s =
     (case (if n > 0 then read_separator CHR '':'' i read_ipv4 s else None) of
        Some ((a, b, c, d), r) \<Rightarrow> ([two_octets a b, two_octets c d], True, r)
      | None \<Rightarrow>
          (case read_separator CHR '':'' i read_segment s of
             Some (g, r) \<Rightarrow> (let (gs, v4, r') = read_groups n (Suc i) r in (g # gs, v4, r'))
           | None \<Rightarrow> ([], False, s)))"

definition read_ipv6 :: "string \<Rightarrow> (segment list \<times> string) option" where
  "read_ipv6 s =
     (let (head, v4, r) = read_groups 8 0 s in
      if length head = 8 then Some (head, r)
      else if v4 then None
      else if \<not> starts_with r ''::'' then None
      else (let (rest, _, r') = read_groups (7 - length head) 0 (drop 2 r)
            in Some (head @ replicate (8 - length head - length rest) 0 @ rest, r')))"

definition parse_ip :: "string \<Rightarrow> ip_addr option" where
  "parse_ip s =
     (case (case read_ipv4 s of
              Some ((a, b, c, d), r) \<Rightarrow> Some (V4 a b c d, r)
            | None \<Rightarrow> map_option (\<lambda>(gs, r). (V6 gs, r)) (read_ipv6 s)) of
        Some (ip, r) \<Rightarrow> if r = [] then Some ip else None
      | None \<Rightarrow> None)"

text \<open>The classes of addresses of \<open>std::net\<close>.\<close>

fun v4_loopback :: "octet \<times> octet \<times> octet \<times> octet \<Rightarrow> bool" where "v4_loopback (a, b, c, d) \<longleftrightarrow> a = 127"

fun v4_private :: "octet \<times> octet \<times> octet \<times> octet \<Rightarrow> bool" where
  "v4_private (a, b, c, d) \<longleftrightarrow> a = 10 \<or> (a = 172 \<and> 16 \<le> b \<and> b \<le> 31) \<or> (a = 192 \<and> b = 168)"

fun v4_link_local :: "octet \<times> octet \<times> octet \<times> octet \<Rightarrow> bool" where "v4_link_local (a, b, c, d) \<longleftrightarrow> a = 169 \<and> b = 254"

fun v4_documentation :: "octet \<times> octet \<times> octet \<times> octet \<Rightarrow> bool" where
  "v4_documentation (a, b, c, d) \<longleftrightarrow>
     (a = 192 \<and> b = 0 \<and> c = 2) \<or> (a = 198 \<and> b = 51 \<and> c = 100) \<or> (a = 203 \<and> b = 0 \<and> c = 113)"

fun v4_multicast :: "octet \<times> octet \<times> octet \<times> octet \<Rightarrow> bool" where "v4_multicast (a, b, c, d) \<longleftrightarrow> 224 \<le> a \<and> a \<le> 239"

definition v6_loopback :: "segment list \<Rightarrow> bool" where "v6_loopback g \<longleftrightarrow> g = [0, 0, 0, 0, 0, 0, 0, 1]"
definition v6_unspecified :: "segment list \<Rightarrow> bool" where "v6_unspecified g \<longleftrightarrow> g = [0, 0, 0, 0, 0, 0, 0, 0]"
definition v6_multicast :: "segment list \<Rightarrow> bool" where "v6_multicast g \<longleftrightarrow> g ! 0 AND 0xff00 = 0xff00"

definition to_ipv4_mapped :: "segment list \<Rightarrow> ip_addr option" where
  "to_ipv4_mapped g =
     (if take 6 g = [0, 0, 0, 0, 0, 0xffff]
      then Some (V4 (of_nat (unat (g ! 6) div 256)) (of_nat (unat (g ! 6) mod 256)) (of_nat (unat (g ! 7) div 256)) (of_nat (unat (g ! 7) mod 256)))
      else None)"

section \<open>Host checks of the \<open>http\<close> kind\<close>

definition is_ipv6_link_local :: "segment list \<Rightarrow> bool" where
  "is_ipv6_link_local g \<longleftrightarrow> g ! 0 AND 0xffc0 = 0xfe80"

definition is_ipv6_unique_local :: "segment list \<Rightarrow> bool" where
  "is_ipv6_unique_local g \<longleftrightarrow> g ! 0 AND 0xfe00 = 0xfc00"

fun is_disallowed_ip :: "ip_addr \<Rightarrow> bool \<Rightarrow> bool" where
  "is_disallowed_ip (V4 a b c d) allow_loopback \<longleftrightarrow>
     (\<not> allow_loopback \<and> v4_loopback (a, b, c, d)) \<or> v4_private (a, b, c, d) \<or> v4_link_local (a, b, c, d)
     \<or> (a, b, c, d) = (0, 0, 0, 0) \<or> (a, b, c, d) = (255, 255, 255, 255) \<or> v4_documentation (a, b, c, d)"
| "is_disallowed_ip (V6 g) allow_loopback \<longleftrightarrow>
     (\<not> allow_loopback \<and> v6_loopback g) \<or> v6_unspecified g \<or> v6_multicast g \<or> is_ipv6_link_local g \<or> is_ipv6_unique_local g"

definition ends_with :: "string \<Rightarrow> string \<Rightarrow> bool" where
  "ends_with s suffix \<longleftrightarrow> length suffix \<le> length s \<and> drop (length s - length suffix) s = suffix"

definition trim_end_char :: "char \<Rightarrow> string \<Rightarrow> string" where
  "trim_end_char c s = rev (dropWhile (\<lambda>x. x = c) (rev s))"

text \<open>The text up to the first character of \<open>stop\<close>.\<close>

definition until_any :: "char list \<Rightarrow> string \<Rightarrow> string" where
  "until_any stop s = takeWhile (\<lambda>c. c \<notin> set stop) s"

definition split_scheme_host :: "string \<Rightarrow> (string \<times> string) option" where
  "split_scheme_host url =
     (case split_once_str ''://'' url of
        None \<Rightarrow> None
      | Some (scheme, rest) \<Rightarrow>
          (let authority = until_any ''/?#'' rest;
               host_port = rev (until_any ''@'' (rev authority));
               host = (case host_port of
                         c # stripped \<Rightarrow> if c = CHR ''['' then until_any '']'' stripped else until_any '':'' host_port
                       | [] \<Rightarrow> [])
           in Some (scheme, host)))"

definition own_domain_from_url :: "string \<Rightarrow> string" where
  "own_domain_from_url url = (case split_scheme_host url of Some (_, host) \<Rightarrow> to_ascii_lowercase host | None \<Rightarrow> [])"

definition names_domain :: "string \<Rightarrow> string \<Rightarrow> bool" where
  "names_domain host domain \<longleftrightarrow> host = domain \<or> ends_with host (''.'' @ domain)"

definition is_disallowed_literal_host :: "string \<Rightarrow> string \<Rightarrow> bool \<Rightarrow> bool" where
  "is_disallowed_literal_host host own_domain allow_loopback =
     (let host_lc = to_ascii_lowercase (trim_end_char CHR ''.'' host) in
      case parse_ip host_lc of
        Some ip \<Rightarrow> is_disallowed_ip ip allow_loopback
      | None \<Rightarrow>
          (\<not> allow_loopback \<and> names_domain host_lc ''localhost'')
          \<or> names_domain host_lc ''internal''
          \<or> (let own_lc = to_ascii_lowercase (trim_end_char CHR ''.'' own_domain) in own_lc \<noteq> [] \<and> names_domain host_lc own_lc))"

text \<open>\<open>VettingResolver\<close>: the addresses \<open>reqwest\<close> connects to, or a refusal of the host.\<close>

datatype resolution = Addrs "ip_addr list" | HostNotAllowed string | LookupFailed string

definition vetting_resolve :: "(string \<Rightarrow> string + ip_addr list) \<Rightarrow> string \<Rightarrow> bool \<Rightarrow> string \<Rightarrow> resolution" where
  "vetting_resolve lookup own_domain allow_loopback host =
     (if is_disallowed_literal_host host own_domain allow_loopback then HostNotAllowed host
      else case lookup host of
        Inl e \<Rightarrow> LookupFailed e
      | Inr ips \<Rightarrow> if list_ex (\<lambda>ip. is_disallowed_ip ip allow_loopback) ips then HostNotAllowed host else Addrs ips)"

section \<open>The guard of imports\<close>

record parsed_url =
  pu_scheme :: string
  pu_host :: "string option"
  pu_path :: string

definition MAX_REDIRECTS :: nat where
  "MAX_REDIRECTS = 3"

definition DEFAULT_CAP_BYTES :: nat where
  "DEFAULT_CAP_BYTES = 25 * 1024 * 1024"

datatype fetch_error =
    FForbidden string string
  | FFailed string string "nat option" "string option"
  | FTooLarge string nat

definition extra_v4_forbidden :: "octet \<Rightarrow> octet \<Rightarrow> octet \<Rightarrow> octet \<Rightarrow> bool" where
  "extra_v4_forbidden a b c d \<longleftrightarrow>
     v4_multicast (a, b, c, d) \<or> a = 0 \<or> (a = 100 \<and> b AND 0xc0 = 0x40) \<or> (a = 192 \<and> b = 0 \<and> c = 0)
     \<or> (a = 198 \<and> b AND 0xfe = 18) \<or> 240 \<le> a"

text \<open>An IPv4-mapped IPv6 address is judged as the IPv4 address it holds.\<close>

fun ip_forbidden :: "ip_addr \<Rightarrow> bool \<Rightarrow> bool" where
  "ip_forbidden (V4 a b c d) loopback_dev \<longleftrightarrow> is_disallowed_ip (V4 a b c d) loopback_dev \<or> extra_v4_forbidden a b c d"
| "ip_forbidden (V6 g) loopback_dev \<longleftrightarrow>
     (case to_ipv4_mapped g of
        Some v4 \<Rightarrow> is_disallowed_ip v4 loopback_dev \<or> (case v4 of V4 a b c d \<Rightarrow> extra_v4_forbidden a b c d | V6 _ \<Rightarrow> False)
      | None \<Rightarrow> is_disallowed_ip (V6 g) loopback_dev \<or> (v6_loopback g \<and> \<not> loopback_dev))"

text \<open>\<open>trim_matches(['[', ']'])\<close>\<close>

definition trim_brackets :: "string \<Rightarrow> string" where
  "trim_brackets s = (let t = dropWhile (\<lambda>c. c \<in> set ''[]'') s in rev (dropWhile (\<lambda>c. c \<in> set ''[]'') (rev t)))"

definition bare_host :: "parsed_url \<Rightarrow> string" where
  "bare_host url = trim_brackets (case pu_host url of Some h \<Rightarrow> h | None \<Rightarrow> [])"

definition refusal_for :: "parsed_url \<Rightarrow> bool \<Rightarrow> bool \<Rightarrow> (string \<times> string) option" where
  "refusal_for url first_hop loopback_dev =
     (let host = bare_host url;
          https = (pu_scheme url = ''https'');
          http_ok = (first_hop \<and> loopback_dev \<and> pu_scheme url = ''http'')
      in if \<not> https \<and> \<not> http_ok then Some (host, pu_scheme url @ '' is not https'')
         else if host = [] then Some (host, ''no host'')
         else case parse_ip host of
           Some ip \<Rightarrow> if ip_forbidden ip loopback_dev then Some (host, ''private or reserved address'') else None
         | None \<Rightarrow>
             (let d = to_ascii_lowercase (trim_end_char CHR ''.'' host);
                  local = (\<not> loopback_dev \<and> (d = ''localhost'' \<or> ends_with d ''.localhost''))
              in if local \<or> d = ''internal'' \<or> ends_with d ''.internal'' then Some (host, ''internal host name'') else None))"

definition hop_refusal :: "parsed_url \<Rightarrow> nat \<Rightarrow> bool \<Rightarrow> (string \<times> string) option" where
  "hop_refusal url visited loopback_dev =
     (if visited > MAX_REDIRECTS then Some (bare_host url, ''more than '' @ show_nat MAX_REDIRECTS @ '' redirects'')
      else refusal_for url False loopback_dev)"

definition fetch_check_url :: "(string \<Rightarrow> string + parsed_url) \<Rightarrow> string \<Rightarrow> bool \<Rightarrow> fetch_error + parsed_url" where
  "fetch_check_url parse_url raw loopback_dev =
     (case parse_url raw of
        Inl e \<Rightarrow> Inl (FForbidden (take 80 raw) (''not a valid url: '' @ e))
      | Inr url \<Rightarrow>
          (case refusal_for url True loopback_dev of
             Some (host, reason) \<Rightarrow> Inl (FForbidden host reason)
           | None \<Rightarrow> Inr url))"

definition guard_resolve :: "(string \<Rightarrow> string + ip_addr list) \<Rightarrow> string \<Rightarrow> resolution" where
  "guard_resolve lookup host =
     (case lookup host of
        Inl e \<Rightarrow> LookupFailed e
      | Inr ips \<Rightarrow> if list_ex (\<lambda>ip. ip_forbidden ip False) ips then HostNotAllowed host else Addrs ips)"

definition sheets_export_hint :: "parsed_url \<Rightarrow> string option" where
  "sheets_export_hint url =
     (if pu_host url \<noteq> Some ''docs.google.com'' then None
      else case split_char CHR ''/'' (tl (pu_path url)) of
        a # b # i # _ \<Rightarrow>
          if a = ''spreadsheets'' \<and> b = ''d'' \<and> i \<noteq> []
          then Some (''https://docs.google.com/spreadsheets/d/'' @ i @ ''/export?format=csv'') else None
      | _ \<Rightarrow> None)"

text \<open>Where a request connects to: a literal address skips the resolver, a name goes through it, and an instance on
  loopback uses the resolver of the system, which vets nothing.\<close>

datatype connection = Connects "ip_addr list" | Refuses string string | Fails string

definition connect_to :: "bool \<Rightarrow> (string \<Rightarrow> string + ip_addr list) \<Rightarrow> parsed_url \<Rightarrow> connection" where
  "connect_to loopback_dev lookup url =
     (case parse_ip (bare_host url) of
        Some ip \<Rightarrow> Connects [ip]
      | None \<Rightarrow>
          if loopback_dev then (case lookup (bare_host url) of Inl e \<Rightarrow> Fails e | Inr ips \<Rightarrow> Connects ips)
          else (case guard_resolve lookup (bare_host url) of
              Addrs ips \<Rightarrow> Connects ips
            | HostNotAllowed host \<Rightarrow> Refuses host ''resolves to a private or reserved address''
            | LookupFailed e \<Rightarrow> Fails e))"

text \<open>The client follows redirects while the policy lets it and reads the answer. \<open>respond\<close> is the other side: for a
  URL and the addresses connected to, the next URL, or an answer with its status, its announced length and its
  chunks, each the bytes read or the error of reading them. \<open>visited\<close> counts the URLs fetched, this one included. The contacts are the URLs with their addresses.\<close>

datatype response = Redirect parsed_url | Answer nat "nat option" "(string + nat list) list" | Broken string

fun read_body ::
  "nat \<Rightarrow> string \<Rightarrow> string option \<Rightarrow> (string + nat list) list \<Rightarrow> nat list \<Rightarrow> nat \<Rightarrow> (fetch_error + nat list) \<times> nat" where
  "read_body cap host hint [] bytes received = (Inr bytes, received)"
| "read_body cap host hint (Inl detail # rest) bytes received = (Inl (FFailed host detail None hint), received)"
| "read_body cap host hint (Inr chunk # rest) bytes received =
     (let acc = received + length chunk in
      if acc > cap then (Inl (FTooLarge host cap), acc) else read_body cap host hint rest (bytes @ chunk) acc)"

type_synonym contact = "parsed_url \<times> ip_addr list"

function follow ::
  "bool \<Rightarrow> (string \<Rightarrow> string + ip_addr list) \<Rightarrow> (parsed_url \<Rightarrow> ip_addr list \<Rightarrow> response) \<Rightarrow> nat \<Rightarrow> parsed_url
     \<Rightarrow> contact list \<times> (string \<times> string + response)" where
  "follow loopback_dev lookup respond visited url =
     (case connect_to loopback_dev lookup url of
        Refuses h reason \<Rightarrow> ([], Inl (h, reason))
      | Fails e \<Rightarrow> ([], Inr (Broken e))
      | Connects ips \<Rightarrow>
          (case respond url ips of
             Redirect next_url \<Rightarrow>
               (case hop_refusal next_url visited loopback_dev of
                  Some r \<Rightarrow> ([(url, ips)], Inl r)
                | None \<Rightarrow>
                    (let (contacts, res) = follow loopback_dev lookup respond (Suc visited) next_url
                     in ((url, ips) # contacts, res)))
           | r \<Rightarrow> ([(url, ips)], Inr r)))"
  by pat_completeness auto
termination
  by (relation "measure (\<lambda>(_, _, _, visited, _). Suc MAX_REDIRECTS - visited)")
     (auto simp: hop_refusal_def split: if_splits)

declare follow.simps [simp del]

text \<open>The answer of \<open>fetch_capped\<close> comes after the contacts and before the count of bytes received.\<close>

definition fetch_capped ::
  "(string \<Rightarrow> string + parsed_url) \<Rightarrow> bool \<Rightarrow> (string \<Rightarrow> string + ip_addr list) \<Rightarrow> (parsed_url \<Rightarrow> ip_addr list \<Rightarrow> response)
     \<Rightarrow> string \<Rightarrow> nat \<Rightarrow> contact list \<times> (fetch_error + nat list \<times> string) \<times> nat" where
  "fetch_capped parse_url loopback_dev lookup respond raw cap =
     (case fetch_check_url parse_url raw loopback_dev of
        Inl e \<Rightarrow> ([], Inl e, 0)
      | Inr url \<Rightarrow>
          (let host = (case pu_host url of Some h \<Rightarrow> h | None \<Rightarrow> []); hint = sheets_export_hint url in
           if hint \<noteq> None \<and> \<not> ends_with (pu_path url) ''/export''
           then ([], Inl (FFailed host ''a Google Sheets edit URL is not a CSV'' None hint), 0)
           else
             (case follow loopback_dev lookup respond 1 url of
                (contacts, Inl (h, reason)) \<Rightarrow> (contacts, Inl (FForbidden h reason), 0)
              | (contacts, Inr (Answer status announced chunks)) \<Rightarrow>
                  if status < 200 \<or> status \<ge> 300 then (contacts, Inl (FFailed host (''upstream answered HTTP '' @ show_nat status) (Some status) hint), 0)
                  else if (case announced of Some n \<Rightarrow> n > cap | None \<Rightarrow> False) then (contacts, Inl (FTooLarge host cap), 0)
                  else (case read_body cap host hint chunks [] 0 of
                          (Inl e, n) \<Rightarrow> (contacts, Inl e, n)
                        | (Inr bytes, n) \<Rightarrow> (contacts, Inr (bytes, host), n))
              | (contacts, Inr (Broken detail)) \<Rightarrow> (contacts, Inl (FFailed host detail None hint), 0)
              | (contacts, Inr (Redirect _)) \<Rightarrow> (contacts, Inl (FFailed host [] None hint), 0))))"

section \<open>Other users of the host checks\<close>

definition trim_url_brackets :: "string \<Rightarrow> string" where
  "trim_url_brackets h = trim_end_char CHR '']'' (dropWhile (\<lambda>c. c = CHR ''['') h)"

definition sync_hop_allowed :: "string \<Rightarrow> bool \<Rightarrow> parsed_url \<Rightarrow> nat \<Rightarrow> bool" where
  "sync_hop_allowed own allow_loopback url visited \<longleftrightarrow>
     visited < 5 \<and> \<not> is_disallowed_literal_host (trim_url_brackets (case pu_host url of Some h \<Rightarrow> h | None \<Rightarrow> [])) own allow_loopback"

definition url_policy :: "(string \<Rightarrow> string + parsed_url) \<Rightarrow> string \<Rightarrow> string \<times> bool" where
  "url_policy parse_url public_url =
     (let own_host = (case parse_url public_url of Inr u \<Rightarrow> (case pu_host u of Some h \<Rightarrow> h | None \<Rightarrow> []) | Inl _ \<Rightarrow> []);
          loopback = (own_host = ''localhost'' \<or> (case parse_ip own_host of
            Some (V4 a b c d) \<Rightarrow> v4_loopback (a, b, c, d) | Some (V6 g) \<Rightarrow> v6_loopback g | None \<Rightarrow> False))
      in if loopback then ([], True) else (own_host, False))"

definition index_host_not_allowed :: "string \<Rightarrow> app_error" where
  "index_host_not_allowed host =
     Structured ''host_not_allowed'' (''host '' @ [CHR 0x27] @ host @ [CHR 0x27] @ '' is not allowed as an index url source'')
       (mk_obj [(''field'', JStr ''url''), (''host'', JStr host)])"

definition index_check_url :: "(string \<Rightarrow> string + parsed_url) \<Rightarrow> string \<Rightarrow> string \<Rightarrow> app_error option" where
  "index_check_url parse_url public_url raw =
     (case parse_url raw of
        Inl e \<Rightarrow> Some (InvalidArgs (''source url is not a valid url: '' @ e))
      | Inr url \<Rightarrow>
          if pu_scheme url \<notin> {''http'', ''https''} then Some (InvalidArgs ''source url must be http or https'')
          else (case pu_host url of
              None \<Rightarrow> Some (InvalidArgs ''source url has no host'')
            | Some host \<Rightarrow>
                (let (own_domain, allow_loopback) = url_policy parse_url public_url in
                 if is_disallowed_literal_host host own_domain allow_loopback then Some (index_host_not_allowed host) else None)))"

definition sync_host_not_allowed :: "string \<Rightarrow> app_error" where
  "sync_host_not_allowed host =
     Structured ''host_not_allowed'' (''host '' @ [CHR 0x27] @ host @ [CHR 0x27] @ '' is not allowed as a sync source'')
       (mk_obj [(''field'', JStr ''source.ref''), (''host'', JStr host)])"

definition check_url_ref :: "(string \<Rightarrow> string + parsed_url) \<Rightarrow> string \<Rightarrow> string \<Rightarrow> app_error option" where
  "check_url_ref parse_url public_url reference =
     (case parse_url reference of
        Inl e \<Rightarrow> Some (InvalidArgs (''source.ref is not a valid url: '' @ e))
      | Inr url \<Rightarrow>
          if pu_scheme url \<notin> {''http'', ''https''} then Some (InvalidArgs ''source.ref must be an http or https url'')
          else (case pu_host url of
              None \<Rightarrow> Some (InvalidArgs ''source.ref has no host'')
            | Some h \<Rightarrow>
                (let host = trim_url_brackets h; (own_domain, allow_loopback) = url_policy parse_url public_url in
                 if is_disallowed_literal_host host own_domain allow_loopback then Some (sync_host_not_allowed host) else None)))"

text \<open>\<open>url_allowed\<close> of \<open>notify.rs\<close>; \<open>allow_loopback\<close> is the \<open>test-support\<close> feature of the build.\<close>

definition url_allowed ::
  "bool \<Rightarrow> (string \<Rightarrow> string + parsed_url) \<Rightarrow> (string \<Rightarrow> string + ip_addr list) \<Rightarrow> string \<Rightarrow> string \<Rightarrow> string option" where
  "url_allowed allow_loopback parse_url lookup public_url url =
     (case parse_url url of
        Inl e \<Rightarrow> Some (''not a valid URL: '' @ e)
      | Inr parsed \<Rightarrow>
          if \<not> (pu_scheme parsed = ''https'' \<or> (allow_loopback \<and> pu_scheme parsed = ''http'')) then Some ''must be an https URL''
          else (case pu_host parsed of
              None \<Rightarrow> Some ''has no host''
            | Some h \<Rightarrow>
                (let host = trim_url_brackets h in
                 if is_disallowed_literal_host host (own_domain_from_url public_url) allow_loopback
                 then Some (''host '' @ [CHR 0x27] @ host @ [CHR 0x27] @ '' is private, loopback, internal or this host'' @ [CHR 0x27] @ ''s own domain'')
                 else if parse_ip host = None then
                   (case lookup host of
                      Inl e \<Rightarrow> Some (''dns lookup of '' @ [CHR 0x27] @ host @ [CHR 0x27] @ '' failed: '' @ e)
                    | Inr ips \<Rightarrow>
                        if ips = [] \<or> list_ex (\<lambda>ip. is_disallowed_ip ip allow_loopback) ips
                        then Some (''host '' @ [CHR 0x27] @ host @ [CHR 0x27] @ '' resolves to a private or unresolvable address'')
                        else None)
                 else None)))"

text \<open>\<open>cimd_host_allowed\<close> of \<open>authz.rs\<close> and \<open>discovery_host_allowed\<close> of \<open>federation.rs\<close>, which have the same body.\<close>

definition cimd_host_allowed :: "bool \<Rightarrow> (string \<Rightarrow> string + ip_addr list) \<Rightarrow> string \<Rightarrow> bool" where
  "cimd_host_allowed allow_loopback lookup url =
     (case split_scheme_host url of
        None \<Rightarrow> False
      | Some (_, host) \<Rightarrow>
          if is_disallowed_literal_host host [] allow_loopback then False
          else if parse_ip host \<noteq> None then True
          else (case lookup host of
              Inr ips \<Rightarrow> ips \<noteq> [] \<and> \<not> list_ex (\<lambda>ip. is_disallowed_ip ip allow_loopback) ips
            | Inl _ \<Rightarrow> False))"

section \<open>The ranges\<close>

lemma and_high: "n AND push_bit k (mask m) = push_bit k (take_bit m (drop_bit k n))" for n :: nat
  by (rule bit_eqI) (auto simp: bit_and_iff bit_push_bit_iff bit_mask_iff bit_take_bit_iff bit_drop_bit_eq)

lemma and_high_div:
  fixes n :: nat
  assumes "n < 2 ^ (k + m)"
  shows "n AND push_bit k (mask m) = 2 ^ k * (n div 2 ^ k)"
proof -
  have "n div 2 ^ k < 2 ^ m" using assms by (simp add: power_add less_mult_imp_div_less mult.commute)
  then show ?thesis unfolding and_high by (simp add: push_bit_eq_mult drop_bit_eq_div take_bit_eq_mod)
qed

lemma word_and_high:
  fixes w :: "'a::len word"
  assumes "k + m = LENGTH('a)" "unat msk = push_bit k (mask m)"
  shows "unat (w AND msk) = 2 ^ k * (unat w div 2 ^ k)"
  using and_high_div[of "unat w" k m] unsigned_less[of w] assms by (simp add: unsigned_and_eq)

lemma octet_and: "b AND 0xc0 = 0x40 \<longleftrightarrow> unat b div 64 = 1" "b AND 0xfe = 18 \<longleftrightarrow> unat b div 2 = 9" for b :: octet
proof -
  have "unat (b AND 0xc0) = 2 ^ 6 * (unat b div 2 ^ 6)"
    by (rule word_and_high[where m = 2]) (simp_all add: mask_eq_exp_minus_1 push_bit_eq_mult)
  then show "b AND 0xc0 = 0x40 \<longleftrightarrow> unat b div 64 = 1" unfolding word_unat_eq_iff by simp
  have "unat (b AND 0xfe) = 2 ^ 1 * (unat b div 2 ^ 1)"
    by (rule word_and_high[where m = 7]) (simp_all add: mask_eq_exp_minus_1 push_bit_eq_mult)
  then show "b AND 0xfe = 18 \<longleftrightarrow> unat b div 2 = 9" unfolding word_unat_eq_iff by simp
qed
lemma segment_and: "g AND 0xff00 = 0xff00 \<longleftrightarrow> unat g div 256 = 255" "g AND 0xffc0 = 0xfe80 \<longleftrightarrow> unat g div 64 = 1018"
   "g AND 0xfe00 = 0xfc00 \<longleftrightarrow> unat g div 512 = 126" for g :: segment
proof -
  have "unat (g AND 0xff00) = 2 ^ 8 * (unat g div 2 ^ 8)"
    by (rule word_and_high[where m = 8]) (simp_all add: mask_eq_exp_minus_1 push_bit_eq_mult)
  then show "g AND 0xff00 = 0xff00 \<longleftrightarrow> unat g div 256 = 255" unfolding word_unat_eq_iff by simp
  have "unat (g AND 0xffc0) = 2 ^ 6 * (unat g div 2 ^ 6)"
    by (rule word_and_high[where m = 10]) (simp_all add: mask_eq_exp_minus_1 push_bit_eq_mult)
  then show "g AND 0xffc0 = 0xfe80 \<longleftrightarrow> unat g div 64 = 1018" unfolding word_unat_eq_iff by simp
  have "unat (g AND 0xfe00) = 2 ^ 9 * (unat g div 2 ^ 9)"
    by (rule word_and_high[where m = 7]) (simp_all add: mask_eq_exp_minus_1 push_bit_eq_mult)
  then show "g AND 0xfe00 = 0xfc00 \<longleftrightarrow> unat g div 512 = 126" unfolding word_unat_eq_iff by simp
qed
lemma octet_nat: "unat (a :: octet) < 256" 
  using unsigned_less[of a] by simp

lemma segment_nat: "unat (g :: segment) < 65536"
  using unsigned_less[of g] by simp

text \<open>An address as a number, and a prefix: the number of its first address and its length.\<close>

definition quad :: "nat \<Rightarrow> nat \<Rightarrow> nat \<Rightarrow> nat \<Rightarrow> nat" where
  "quad a b c d = a * 16777216 + b * 65536 + c * 256 + d"

definition v6_number :: "segment list \<Rightarrow> nat" where
  "v6_number g = foldl (\<lambda>n x. n * 65536 + unat x) 0 g"

definition in_prefix :: "nat \<Rightarrow> nat \<Rightarrow> nat \<times> nat \<Rightarrow> bool" where
  "in_prefix width n r \<longleftrightarrow> n div 2 ^ (width - snd r) = fst r div 2 ^ (width - snd r)"

definition reserved_v4 :: "(nat \<times> nat) list" where
  "reserved_v4 =
    [(quad 0 0 0 0, 8), (quad 10 0 0 0, 8), (quad 100 64 0 0, 10), (quad 127 0 0 0, 8), (quad 169 254 0 0, 16),
     (quad 172 16 0 0, 12), (quad 192 0 0 0, 24), (quad 192 0 2 0, 24), (quad 192 168 0 0, 16), (quad 198 18 0 0, 15),
     (quad 198 51 100 0, 24), (quad 203 0 113 0, 24), (quad 224 0 0 0, 4), (quad 240 0 0 0, 4)]"

definition reserved_v6 :: "(nat \<times> nat) list" where
  "reserved_v6 = [(0, 128), (1, 128), (0xfe80 * 2 ^ 112, 10), (0xfc00 * 2 ^ 112, 7), (0xff00 * 2 ^ 112, 8)]"

text \<open>The ranges an import may not reach: an IPv6 address in \<open>::ffff:0:0/96\<close> is the IPv4 address in its last 32 bits.\<close>

fun reserved :: "ip_addr \<Rightarrow> bool" where
  "reserved (V4 a b c d) \<longleftrightarrow> list_ex (in_prefix 32 (quad (unat a) (unat b) (unat c) (unat d))) reserved_v4"
| "reserved (V6 g) \<longleftrightarrow>
     (if v6_number g div 2 ^ 32 = 0xffff then list_ex (in_prefix 32 (v6_number g mod 2 ^ 32)) reserved_v4
      else list_ex (in_prefix 128 (v6_number g)) reserved_v6)"

fun ip_ok :: "ip_addr \<Rightarrow> bool" where
  "ip_ok (V4 a b c d) = True"
| "ip_ok (V6 g) \<longleftrightarrow> length g = 8"

lemma quad_div:
  assumes "b < 256" "c < 256" "d < 256"
  shows "quad a b c d div 16777216 = a" "quad a b c d div 65536 = a * 256 + b" "quad a b c d div 256 = a * 65536 + b * 256 + c"
    "quad a b c d div 268435456 = a div 16" "quad a b c d div 4194304 = a * 4 + b div 64"
    "quad a b c d div 1048576 = a * 16 + b div 16" "quad a b c d div 131072 = a * 128 + b div 2"
  using assms unfolding quad_def by simp_all

lemma in_ranges:
  assumes "a < 256" "b < 256" "c < 256" "d < 256"
  shows "in_prefix 32 (quad a b c d) (quad x 0 0 0, 8) \<longleftrightarrow> a = x"
    "y < 256 \<Longrightarrow> in_prefix 32 (quad a b c d) (quad x y 0 0, 16) \<longleftrightarrow> a = x \<and> b = y"
    "y < 256 \<Longrightarrow> z < 256 \<Longrightarrow> in_prefix 32 (quad a b c d) (quad x y z 0, 24) \<longleftrightarrow> a = x \<and> b = y \<and> c = z"
    "in_prefix 32 (quad a b c d) (quad x 0 0 0, 4) \<longleftrightarrow> a div 16 = x div 16"
    "in_prefix 32 (quad a b c d) (quad 100 64 0 0, 10) \<longleftrightarrow> a = 100 \<and> b div 64 = 1"
    "in_prefix 32 (quad a b c d) (quad 172 16 0 0, 12) \<longleftrightarrow> a = 172 \<and> b div 16 = 1"
    "in_prefix 32 (quad a b c d) (quad 198 18 0 0, 15) \<longleftrightarrow> a = 198 \<and> b div 2 = 9"
proof -
  note div = quad_div[OF assms(2-4)]
  have split: "p * k + q = r * k + t \<longleftrightarrow> p = r \<and> q = t" if "q < k" "t < k" for p q r t k :: nat
    using that by (metis add.commute div_mult_self3 less_nat_zero_code mod_less mod_mult_self3 mult.commute nat_neq_iff div_less add_cancel_left_left)
  show "in_prefix 32 (quad a b c d) (quad x 0 0 0, 8) \<longleftrightarrow> a = x"
    "in_prefix 32 (quad a b c d) (quad x 0 0 0, 4) \<longleftrightarrow> a div 16 = x div 16"
    by (simp_all add: in_prefix_def div quad_div)
  show "in_prefix 32 (quad a b c d) (quad x y 0 0, 16) \<longleftrightarrow> a = x \<and> b = y" if "y < 256"
    using split[OF assms(2) that] that by (simp add: in_prefix_def div quad_div)
  show "in_prefix 32 (quad a b c d) (quad x y z 0, 24) \<longleftrightarrow> a = x \<and> b = y \<and> c = z" if "y < 256" "z < 256"
    using split[OF assms(3) that(2), of "a * 256 + b" "x * 256 + y"] split[OF assms(2) that(1), of a x] that
    by (simp add: in_prefix_def div quad_div add_mult_distrib mult.commute)
  have "b div 64 < 4" "b div 16 < 16" "b div 2 < 128" using assms(2) by auto
  note s = split[OF this(1), of 1 a 100] split[OF this(2), of 1 a 172] split[OF this(3), of 9 a 198]
  show "in_prefix 32 (quad a b c d) (quad 100 64 0 0, 10) \<longleftrightarrow> a = 100 \<and> b div 64 = 1"
    "in_prefix 32 (quad a b c d) (quad 172 16 0 0, 12) \<longleftrightarrow> a = 172 \<and> b div 16 = 1"
    "in_prefix 32 (quad a b c d) (quad 198 18 0 0, 15) \<longleftrightarrow> a = 198 \<and> b div 2 = 9"
    using s by (simp_all add: in_prefix_def div quad_div)
qed

lemma v4_forbidden_ranges:
  "ip_forbidden (V4 a b c d) False \<longleftrightarrow> list_ex (in_prefix 32 (quad (unat a) (unat b) (unat c) (unat d))) reserved_v4"
proof -
  define A B C D where "A = unat a" and "B = unat b" and "C = unat c" and "D = unat d"
  have lt: "A < 256" "B < 256" "C < 256" "D < 256" unfolding A_def B_def C_def D_def by (rule octet_nat)+
  have "ip_forbidden (V4 a b c d) False \<longleftrightarrow>
      (A = 127 \<or> (A = 10 \<or> A = 172 \<and> (16 \<le> B \<and> B \<le> 31) \<or> A = 192 \<and> B = 168) \<or> (A = 169 \<and> B = 254)
        \<or> (A = 0 \<and> B = 0 \<and> C = 0 \<and> D = 0) \<or> (A = 255 \<and> B = 255 \<and> C = 255 \<and> D = 255)
        \<or> (A = 192 \<and> B = 0 \<and> C = 2 \<or> A = 198 \<and> B = 51 \<and> C = 100 \<or> A = 203 \<and> B = 0 \<and> C = 113))
      \<or> ((224 \<le> A \<and> A \<le> 239) \<or> A = 0 \<or> (A = 100 \<and> B div 64 = 1) \<or> (A = 192 \<and> B = 0 \<and> C = 0)
        \<or> (A = 198 \<and> B div 2 = 9) \<or> 240 \<le> A)"
    unfolding ip_forbidden.simps is_disallowed_ip.simps extra_v4_forbidden_def octet_and v4_loopback.simps v4_private.simps
      v4_link_local.simps v4_documentation.simps v4_multicast.simps prod.inject
    unfolding word_unat_eq_iff word_le_nat_alt A_def B_def C_def D_def by simp
  moreover have "16 \<le> B \<and> B \<le> 31 \<longleftrightarrow> B div 16 = 1" "224 \<le> A \<and> A \<le> 239 \<longleftrightarrow> A div 16 = 14" "240 \<le> A \<longleftrightarrow> A div 16 = 15"
    using lt(1) by linarith+
  moreover have "A = 255 \<Longrightarrow> A div 16 = 15" by simp
  moreover have "list_ex (in_prefix 32 (quad A B C D)) reserved_v4 \<longleftrightarrow>
      A = 0 \<or> A = 10 \<or> (A = 100 \<and> B div 64 = 1) \<or> A = 127 \<or> (A = 169 \<and> B = 254) \<or> (A = 172 \<and> B div 16 = 1)
      \<or> (A = 192 \<and> B = 0 \<and> C = 0) \<or> (A = 192 \<and> B = 0 \<and> C = 2) \<or> (A = 192 \<and> B = 168) \<or> (A = 198 \<and> B div 2 = 9)
      \<or> (A = 198 \<and> B = 51 \<and> C = 100) \<or> (A = 203 \<and> B = 0 \<and> C = 113) \<or> A div 16 = 14 \<or> A div 16 = 15"
    by (simp add: reserved_v4_def in_ranges[OF lt])
  ultimately show ?thesis unfolding A_def[symmetric] B_def[symmetric] C_def[symmetric] D_def[symmetric] by argo
qed

lemma horner:
  assumes "x < 65536"
  shows "(n * 65536 + x) div 65536 = (n :: nat)" "(n * 65536 + x) mod 65536 = x"
    "n * 65536 + x = 0 \<longleftrightarrow> n = 0 \<and> x = 0" "n * 65536 + x = 1 \<longleftrightarrow> n = 0 \<and> x = 1"
    "n * 65536 + x = 65535 \<longleftrightarrow> n = 0 \<and> x = 65535"
proof -
  have "n = 0 \<or> 65536 \<le> n * 65536" by (cases n) auto
  then show "(n * 65536 + x) div 65536 = n" "(n * 65536 + x) mod 65536 = x" "n * 65536 + x = 0 \<longleftrightarrow> n = 0 \<and> x = 0"
    "n * 65536 + x = 1 \<longleftrightarrow> n = 0 \<and> x = 1" "n * 65536 + x = 65535 \<longleftrightarrow> n = 0 \<and> x = 65535"
    using assms by auto
qed

lemma length_8: "length g = 8 \<Longrightarrow> \<exists>a b c d e f p q. g = [a, b, c, d, e, f, p, q]"
  by (simp add: length_Suc_conv numeral_eq_Suc) blast

lemma v6_forbidden_ranges:
  assumes "length g = 8"
  shows "ip_forbidden (V6 g) False \<longleftrightarrow> reserved (V6 g)"
proof -
  obtain a b c d e f p q where g: "g = [a, b, c, d, e, f, p, q]" using length_8[OF assms] by blast
  let ?n = "\<lambda>x :: segment. unat x"
  define hi where "hi = ((((?n a * 65536 + ?n b) * 65536 + ?n c) * 65536 + ?n d) * 65536 + ?n e) * 65536 + ?n f"
  note lt = segment_nat
  have num: "v6_number g = (hi * 65536 + ?n p) * 65536 + ?n q"
    by (simp add: v6_number_def g hi_def)
  have div32: "v6_number g div 2 ^ 32 = hi" and mod32: "v6_number g mod 2 ^ 32 = ?n p * 65536 + ?n q"
  proof -
    have "(2 :: nat) ^ 32 = 65536 * 65536" by simp
    then show "v6_number g div 2 ^ 32 = hi" by (simp only: num div_mult2_eq horner(1)[OF lt])
    have "v6_number g = hi * 2 ^ 32 + (?n p * 65536 + ?n q)" by (simp add: num)
    moreover have "?n p * 65536 + ?n q < 2 ^ 32" using lt[of p] lt[of q] by simp
    ultimately show "v6_number g mod 2 ^ 32 = ?n p * 65536 + ?n q" by simp
  qed
  have div112: "v6_number g div 2 ^ 112 = ?n a"
  proof -
    have "(2 :: nat) ^ 112 = 65536 * 65536 * 65536 * 65536 * 65536 * 65536 * 65536" by simp
    then show ?thesis by (simp only: num hi_def div_mult2_eq horner(1)[OF lt])
  qed
  have mapped: "hi = 65535 \<longleftrightarrow> take 6 g = [0, 0, 0, 0, 0, 0xffff]"
    unfolding hi_def horner(3,5)[OF lt] by (auto simp: g word_unat_eq_iff)
  show ?thesis
  proof (cases "hi = 65535")
    case True
    then have "take 6 g = [0, 0, 0, 0, 0, 0xffff]" using mapped by simp
    moreover define v where "v = V4 (of_nat (?n p div 256)) (of_nat (?n p mod 256)) (of_nat (?n q div 256)) (of_nat (?n q mod 256))"
    ultimately have "to_ipv4_mapped g = Some v" by (simp add: to_ipv4_mapped_def g)
    then have "ip_forbidden (V6 g) False \<longleftrightarrow> ip_forbidden v False" by (simp add: v_def)
    also have "\<dots> \<longleftrightarrow> list_ex (in_prefix 32 (quad (?n p div 256) (?n p mod 256) (?n q div 256) (?n q mod 256))) reserved_v4"
    proof -
      have "unat (of_nat k :: octet) = k" if "k < 256" for k using that by (simp add: unsigned_of_nat take_bit_nat_eq_self)
      moreover have "?n p div 256 < 256" "?n q div 256 < 256" using lt[of p] lt[of q] by auto
      ultimately show ?thesis unfolding v_def v4_forbidden_ranges by simp
    qed
    also have "quad (?n p div 256) (?n p mod 256) (?n q div 256) (?n q mod 256) = ?n p * 65536 + ?n q"
      unfolding quad_def using div_mult_mod_eq[of "?n p" 256] div_mult_mod_eq[of "?n q" 256] by linarith
    finally show ?thesis using True by (simp only: reserved.simps div32 mod32) simp
  next
    case False
    then have "to_ipv4_mapped g = None" using mapped by (simp add: to_ipv4_mapped_def)
    then have "ip_forbidden (V6 g) False \<longleftrightarrow> g = [0, 0, 0, 0, 0, 0, 0, 0] \<or> g = [0, 0, 0, 0, 0, 0, 0, 1]
        \<or> ?n a div 64 = 1018 \<or> ?n a div 512 = 126 \<or> ?n a div 256 = 255"
      by (auto simp: v6_loopback_def v6_unspecified_def v6_multicast_def is_ipv6_link_local_def is_ipv6_unique_local_def g segment_and)
    also have "g = [0, 0, 0, 0, 0, 0, 0, 0] \<longleftrightarrow> v6_number g = 0"
      unfolding num hi_def horner(3)[OF lt] by (auto simp: g word_unat_eq_iff)
    also have "g = [0, 0, 0, 0, 0, 0, 0, 1] \<longleftrightarrow> v6_number g = 1"
      unfolding num hi_def horner(3,4)[OF lt] by (auto simp: g word_unat_eq_iff)
    also have "?n a div 64 = 1018 \<longleftrightarrow> v6_number g div 2 ^ 118 = 1018"
      by (simp only: div112[symmetric] div_mult2_eq[symmetric]) simp
    also have "?n a div 512 = 126 \<longleftrightarrow> v6_number g div 2 ^ 121 = 126"
      by (simp only: div112[symmetric] div_mult2_eq[symmetric]) simp
    also have "?n a div 256 = 255 \<longleftrightarrow> v6_number g div 2 ^ 120 = 255"
      by (simp only: div112[symmetric] div_mult2_eq[symmetric]) simp
    finally show ?thesis using False
      by (simp only: reserved.simps div32) (simp add: reserved_v6_def in_prefix_def)
  qed
qed

text \<open>C25. The import guard is its table. Outside a loopback instance an address is refused exactly when it lies in one
  of the reserved ranges, given as prefixes; an IPv6 address that carries an IPv4 one is judged by that.\<close>

theorem import_guard_is_the_table:
  assumes "ip_ok ip"
  shows "ip_forbidden ip False \<longleftrightarrow> reserved ip"
proof (cases ip)
  case (V4 a b c d)
  then show ?thesis using v4_forbidden_ranges by simp
next
  case (V6 g)
  with assms have "length g = 8" by simp
  then show ?thesis unfolding V6 by (rule v6_forbidden_ranges)
qed

lemma import_guard_is_the_table_witness:
  "ip_forbidden (V6 [0, 0, 0, 0, 0, 0xffff, 0xa9fe, 0xa9fe]) False \<longleftrightarrow> reserved (V6 [0, 0, 0, 0, 0, 0xffff, 0xa9fe, 0xa9fe])"
  by (rule import_guard_is_the_table) simp

section \<open>Fetching\<close>

lemma read_groups_length: "read_groups n i s = (gs, v4, r) \<Longrightarrow> length gs \<le> n"
  by (induction n i s arbitrary: gs v4 r rule: read_groups.induct) (fastforce split: option.splits prod.splits if_splits)+

lemma parse_ip_ok: "parse_ip s = Some ip \<Longrightarrow> ip_ok ip"
proof -
  have "length g = 8" if "read_ipv6 t = Some (g, r)" for t g r
  proof -
    obtain head v4 r0 where h: "read_groups 8 0 t = (head, v4, r0)" by (metis prod_cases3)
    note le = read_groups_length[OF h]
    obtain rest v4' r1 where t: "read_groups (7 - length head) 0 (drop 2 r0) = (rest, v4', r1)" by (metis prod_cases3)
    show ?thesis using that le read_groups_length[OF t] by (auto simp: read_ipv6_def h t split: if_splits)
  qed
  then show "parse_ip s = Some ip \<Longrightarrow> ip_ok ip"
    by (auto simp: parse_ip_def split: option.splits prod.splits if_splits)
qed

text \<open>What a contacted URL satisfies.\<close>

definition outside :: "contact \<Rightarrow> bool" where
  "outside x \<longleftrightarrow> pu_scheme (fst x) = ''https'' \<and> (\<forall>ip \<in> set (snd x). \<not> ip_forbidden ip False)
     \<and> (let d = to_ascii_lowercase (trim_end_char CHR ''.'' (bare_host (fst x)))
        in parse_ip (bare_host (fst x)) \<noteq> None \<or> \<not> names_domain d ''localhost'' \<and> \<not> names_domain d ''internal'')"

lemma connected_outside:
  assumes "refusal_for url first_hop False = None" "connect_to False lookup url = Connects ips"
  shows "outside (url, ips)"
proof -
  have "pu_scheme url = ''https''" using assms(1) by (auto simp: refusal_for_def Let_def split: if_splits)
  moreover have "\<forall>ip \<in> set ips. \<not> ip_forbidden ip False"
  proof (cases "parse_ip (bare_host url)")
    case None
    with assms(2) show ?thesis
      by (auto simp: connect_to_def guard_resolve_def list_ex_iff split: sum.splits resolution.splits if_splits)
  next
    case (Some ip)
    with assms show ?thesis by (auto simp: connect_to_def refusal_for_def Let_def split: if_splits)
  qed
  moreover have "parse_ip (bare_host url) \<noteq> None \<or> \<not> names_domain d ''localhost'' \<and> \<not> names_domain d ''internal''"
    if "d = to_ascii_lowercase (trim_end_char CHR ''.'' (bare_host url))" for d
    using assms(1) that by (auto simp: refusal_for_def names_domain_def Let_def split: if_splits option.splits)
  ultimately show ?thesis by (simp add: outside_def Let_def)
qed

lemma follow_outside:
  assumes "refusal_for url first_hop False = None" "visited \<le> Suc MAX_REDIRECTS"
    and "follow False lookup respond visited url = (contacts, res)"
  shows "list_all outside contacts \<and> length contacts + visited \<le> MAX_REDIRECTS + 2"
  using assms
proof (induction "Suc MAX_REDIRECTS - visited" arbitrary: visited url first_hop contacts res rule: less_induct)
  case less
  show ?case
  proof (cases "\<exists>ips next_url. connect_to False lookup url = Connects ips \<and> respond url ips = Redirect next_url
      \<and> hop_refusal next_url visited False = None")
    case True
    then obtain ips next_url where c: "connect_to False lookup url = Connects ips" "respond url ips = Redirect next_url"
        "hop_refusal next_url visited False = None" by blast
    from c(3) have v: "visited \<le> MAX_REDIRECTS" "refusal_for next_url False False = None"
      by (auto simp: hop_refusal_def split: if_splits)
    obtain contacts' res' where f: "follow False lookup respond (Suc visited) next_url = (contacts', res')" by fastforce
    have "list_all outside contacts' \<and> length contacts' + Suc visited \<le> MAX_REDIRECTS + 2"
      by (rule less.hyps[OF _ v(2) _ f]) (use v(1) in auto)
    moreover have "contacts = (url, ips) # contacts'" using less.prems(3) c f by (simp add: follow.simps[of _ _ _ _ url])
    ultimately show ?thesis using connected_outside[OF less.prems(1) c(1)] by simp
  next
    case False
    then have "contacts = [] \<or> (\<exists>ips. connect_to False lookup url = Connects ips \<and> contacts = [(url, ips)])"
      using less.prems(3) by (auto simp: follow.simps[of _ _ _ _ url] split: connection.splits response.splits option.splits)
    with less.prems(1,2) show ?thesis by (auto intro: connected_outside)
  qed
qed

text \<open>The chunks an answer of the other side brings are of at most \<open>m\<close> bytes.\<close>

definition chunks_upto :: "nat \<Rightarrow> response \<Rightarrow> bool" where
  "chunks_upto m r = (case r of Answer _ _ chunks \<Rightarrow> list_all (\<lambda>x. case x of Inl _ \<Rightarrow> True | Inr chunk \<Rightarrow> length chunk \<le> m) chunks | _ \<Rightarrow> True)"

lemma read_body_cap:
  assumes "read_body cap host hint chunks bytes n = (res, received)" "length bytes = n" "n \<le> cap"
    and "chunks_upto m (Answer status announced chunks)"
  shows "received \<le> cap + m"
    and "case res of Inr body \<Rightarrow> received = length body \<and> received \<le> cap | Inl e \<Rightarrow> cap < received \<longrightarrow> e = FTooLarge host cap"
proof -
  have "received \<le> cap + m \<and> (case res of Inr body \<Rightarrow> received = length body \<and> received \<le> cap | Inl e \<Rightarrow> cap < received \<longrightarrow> e = FTooLarge host cap)"
    using assms
  proof (induction cap host hint chunks bytes n rule: read_body.induct)
    case (3 cap host hint chunk rest bytes received)
    then show ?case by (cases "received + length chunk > cap") (auto simp: chunks_upto_def)
  qed auto
  then show "received \<le> cap + m"
    "case res of Inr body \<Rightarrow> received = length body \<and> received \<le> cap | Inl e \<Rightarrow> cap < received \<longrightarrow> e = FTooLarge host cap" by blast+
qed

lemma follow_answer:
  assumes "follow loopback_dev lookup respond visited url = (contacts, Inr (Answer status announced chunks))"
  shows "contacts \<noteq> [] \<and> respond (fst (last contacts)) (snd (last contacts)) = Answer status announced chunks"
  using assms
proof (induction loopback_dev lookup respond visited url arbitrary: contacts rule: follow.induct)
  case (1 loopback_dev lookup respond visited url)
  from "1.prems" obtain ips where c: "connect_to loopback_dev lookup url = Connects ips"
    by (auto simp: follow.simps[of _ _ _ _ url] split: connection.splits)
  show ?case
  proof (cases "respond url ips")
    case (Redirect next_url)
    with "1.prems" c obtain cs where n: "hop_refusal next_url visited loopback_dev = None" "contacts = (url, ips) # cs"
        "follow loopback_dev lookup respond (Suc visited) next_url = (cs, Inr (Answer status announced chunks))"
      by (auto simp: follow.simps[of _ _ _ _ url] split: option.splits prod.splits)
    from "1.IH"[OF c Redirect n(1) n(3)] n(2) show ?thesis by simp
  qed (use "1.prems" c in \<open>auto simp: follow.simps[of _ _ _ _ url]\<close>)
qed

lemma fetch_capped_cases:
  assumes "fetch_capped parse_url loopback_dev lookup respond raw cap = (contacts, res, received)" "received \<noteq> 0 \<or> (\<exists>x. res = Inr x)"
  obtains url h hint status announced chunks r where
    "fetch_check_url parse_url raw loopback_dev = Inr url"
    "follow loopback_dev lookup respond 1 url = (contacts, Inr (Answer status announced chunks))"
    "200 \<le> status" "status < 300" "read_body cap h hint chunks [] 0 = (r, received)"
    "res = (case r of Inl e \<Rightarrow> Inl e | Inr bytes \<Rightarrow> Inr (bytes, h))"
  using assms
  by (auto simp: fetch_capped_def Let_def split: if_splits sum.splits response.splits prod.splits option.splits)

text \<open>C24. A fetch stays outside. Whatever the other side answers and whatever the names resolve to, an import of an instance
  that is not on loopback contacts at most four URLs, all of them https, none of them at a reserved address or under a
  local name. Whether it succeeds or is refused, it has received at most the cap and one chunk more, and more than the cap only
  when it answers that the body is too large; a body it returns is within the cap, was counted to the byte and came with a
  success status from the last URL contacted.\<close>

theorem guarded_fetch_stays_outside:
  assumes "fetch_capped parse_url False lookup respond raw cap = (contacts, res, received)"
    and "\<And>url ips. chunks_upto m (respond url ips)"
  shows "length contacts \<le> 4 \<and> list_all outside contacts \<and> received \<le> cap + m
    \<and> (case res of
         Inr (bytes, host) \<Rightarrow> length bytes \<le> cap \<and> received = length bytes \<and>
           (\<exists>status announced chunks. 200 \<le> status \<and> status < 300 \<and>
              respond (fst (last contacts)) (snd (last contacts)) = Answer status announced chunks)
       | Inl e \<Rightarrow> received \<le> cap \<or> (\<exists>host. e = FTooLarge host cap))"
proof -
  have "length contacts \<le> 4 \<and> list_all outside contacts"
  proof (cases "fetch_check_url parse_url raw False")
    case (Inl e)
    with assms(1) show ?thesis by (auto simp: fetch_capped_def)
  next
    case (Inr url)
    then have ok: "refusal_for url True False = None" by (auto simp: fetch_check_url_def split: sum.splits option.splits)
    obtain cs r where f: "follow False lookup respond 1 url = (cs, r)" by fastforce
    have "contacts = [] \<or> contacts = cs"
      using assms(1) Inr f by (auto simp: fetch_capped_def Let_def split: if_splits sum.splits response.splits prod.splits)
    then show ?thesis using follow_outside[OF ok _ f] by (auto simp: MAX_REDIRECTS_def)
  qed
  moreover have "received \<le> cap + m \<and> (case res of
         Inr (bytes, host) \<Rightarrow> length bytes \<le> cap \<and> received = length bytes \<and>
           (\<exists>status announced chunks. 200 \<le> status \<and> status < 300 \<and>
              respond (fst (last contacts)) (snd (last contacts)) = Answer status announced chunks)
       | Inl e \<Rightarrow> received \<le> cap \<or> (\<exists>host. e = FTooLarge host cap))"
  proof (cases "received \<noteq> 0 \<or> (\<exists>x. res = Inr x)")
    case True
    obtain url h hint status announced chunks r where "fetch_check_url parse_url raw False = Inr url"
      and f: "follow False lookup respond 1 url = (contacts, Inr (Answer status announced chunks))" "200 \<le> status" "status < 300"
      and b: "read_body cap h hint chunks [] 0 = (r, received)" "res = (case r of Inl e \<Rightarrow> Inl e | Inr bytes \<Rightarrow> Inr (bytes, h))"
      by (rule fetch_capped_cases[OF assms(1) True])
    note last = follow_answer[OF f(1)]
    have "chunks_upto m (Answer status announced chunks)" using assms(2) last by metis
    note cap = read_body_cap[OF b(1) _ _ this]
    show ?thesis using cap b(2) last f(2,3) by (cases r) auto
  qed (auto split: sum.splits)
  ultimately show ?thesis by blast
qed

text \<open>A URL of scheme \<open>https\<close> and an answer of three bytes.\<close>

definition plain_url :: "string \<Rightarrow> string + parsed_url" where
  "plain_url raw = Inr \<lparr>pu_scheme = ''https'', pu_host = Some raw, pu_path = ''/''\<rparr>"

definition three_bytes :: "parsed_url \<Rightarrow> ip_addr list \<Rightarrow> response" where
  "three_bytes _ _ = Answer 200 None [Inr [1, 2], Inr [3]]"

lemma guarded_fetch_stays_outside_witness:
  "length (fst (fetch_capped plain_url False (\<lambda>_. Inr [V4 93 184 216 34]) three_bytes ''example.com'' 1)) \<le> 4
    \<and> snd (snd (fetch_capped plain_url False (\<lambda>_. Inr [V4 93 184 216 34]) three_bytes ''example.com'' 1)) \<le> 3"
proof -
  obtain contacts res n where f: "fetch_capped plain_url False (\<lambda>_. Inr [V4 93 184 216 34]) three_bytes ''example.com'' 1 = (contacts, res, n)"
    by (metis prod_cases3)
  have "chunks_upto 2 (three_bytes url ips)" for url ips by (simp add: chunks_upto_def three_bytes_def)
  from guarded_fetch_stays_outside[OF f this] show ?thesis unfolding f fst_conv snd_conv by simp
qed

section \<open>Literal hosts\<close>

definition dotted :: "octet \<Rightarrow> octet \<Rightarrow> octet \<Rightarrow> octet \<Rightarrow> string" where
  "dotted a b c d = show_nat (unat a) @ ''.'' @ show_nat (unat b) @ ''.'' @ show_nat (unat c) @ ''.'' @ show_nat (unat d)"

lemma to_digit_10: "to_digit 10 x = (if is_ascii_digit x then Some (digit_value x) else None)"
  by (auto simp: to_digit_def is_ascii_digit_def digit_value_def Let_def)

lemma read_show:
  assumes "n < 256" "case r of [] \<Rightarrow> True | x # _ \<Rightarrow> \<not> is_ascii_digit x"
  shows "read_number 10 3 False 256 (show_nat n @ r) = Some (n, r)"
proof -
  have r: "takeWhile is_ascii_digit r = []" using assms(2) by (cases r) auto
  have dig: "(\<lambda>x. to_digit 10 x \<noteq> None) = is_ascii_digit" by (auto simp: to_digit_10 fun_eq_iff)
  have all: "list_all is_ascii_digit (show_nat n)" by (rule show_nat_digits)
  then have take: "takeWhile is_ascii_digit (show_nat n @ r) = show_nat n"
    using r by (simp add: takeWhile_append list_all_iff)
  have val: "foldl (\<lambda>k x. k * 10 + (case to_digit 10 x of Some d \<Rightarrow> d | None \<Rightarrow> 0)) k xs = foldl (\<lambda>a x. 10 * a + digit_value x) k xs"
    if "list_all is_ascii_digit xs" for xs k
    using that by (induction xs arbitrary: k) (auto simp: to_digit_10 mult.commute)
  have "length (show_nat n) \<le> 3 \<and> (hd (show_nat n) = CHR ''0'' \<longrightarrow> length (show_nat n) \<le> 1)"
  proof -
    have zero: "m < 10 \<Longrightarrow> digit_char m = CHR ''0'' \<longleftrightarrow> m = 0" for m by (metis digit_char_0 digit_char_props(2) zero_less_numeral)
    consider "n < 10" | "10 \<le> n" "n < 100" | "100 \<le> n" "n < 1000" using assms(1) by linarith
    then show ?thesis
    proof cases
      case 2
      then have "0 < n div 10" "n div 10 < 10" by auto
      with 2 zero[of "n div 10"] show ?thesis by (simp add: show_nat_2)
    next
      case 3
      then have "0 < n div 100" "n div 100 < 10" by auto
      with 3 zero[of "n div 100"] show ?thesis by (simp add: show_nat_3)
    qed (simp add: show_nat_1)
  qed
  then show ?thesis
    using assms(1) show_nat_digits(2)[of n]
    unfolding read_number_def dig take Let_def val[OF all] digits_value_def[symmetric] by auto
qed

lemma read_octet_show:
  "case r of [] \<Rightarrow> True | x # _ \<Rightarrow> \<not> is_ascii_digit x \<Longrightarrow> read_octet (show_nat (unat a) @ r) = Some (a, r)"
  using read_show[OF octet_nat, of r a] by (simp add: read_octet_def)

lemma parse_dotted: "parse_ip (dotted a b c d) = Some (V4 a b c d)"
proof -
  have dot: "\<not> is_ascii_digit CHR ''.''" by code_simp
  have "read_octet (show_nat (unat d)) = Some (d, [])" using read_octet_show[of "[]" d] by simp
  then have "read_ipv4 (dotted a b c d) = Some ((a, b, c, d), [])"
    by (simp add: read_ipv4_def dotted_def read_octet_show dot read_separator_def)
  then show ?thesis by (simp add: parse_ip_def)
qed

lemma to_ascii_lowercase_id: "list_all (\<lambda>x. \<not> is_ascii_upper x) s \<Longrightarrow> to_ascii_lowercase s = s"
  by (induction s) (auto simp: to_ascii_lowercase_def)

lemma dotted_chars: "list_all (\<lambda>x. is_ascii_digit x \<or> x = CHR ''.'') (dotted a b c d)"
  using show_nat_digits(1) unfolding dotted_def list_all_iff by auto

lemma trim_end_char_last: "last s \<noteq> c \<Longrightarrow> trim_end_char c s = s"
  by (cases s rule: rev_cases) (simp_all add: trim_end_char_def)

lemma dotted_trim: "to_ascii_lowercase (trim_end_char CHR ''.'' (dotted a b c d @ replicate n CHR ''.'')) = dotted a b c d"
proof -
  have rep: "trim_end_char CHR ''.'' (s @ replicate n CHR ''.'') = trim_end_char CHR ''.'' s" for s
  proof -
    have "dropWhile (\<lambda>x. x = CHR ''.'') (replicate n CHR ''.'' @ t) = dropWhile (\<lambda>x. x = CHR ''.'') t" for t
      by (induction n) auto
    then show ?thesis by (simp add: trim_end_char_def)
  qed
  have "is_ascii_digit (last (show_nat (unat d)))"
    using show_nat_digits[of "unat d"] by (simp add: list_all_iff)
  moreover have "\<not> is_ascii_digit CHR ''.''" by code_simp
  ultimately have "last (dotted a b c d) \<noteq> CHR ''.''" using show_nat_digits(2)[of "unat d"] by (auto simp: dotted_def)
  then have "trim_end_char CHR ''.'' (dotted a b c d) = dotted a b c d" by (rule trim_end_char_last)
  moreover have "list_all (\<lambda>x. \<not> is_ascii_upper x) (dotted a b c d)"
    using dotted_chars[of a b c d] by (auto simp: list_all_iff is_ascii_digit_def is_ascii_upper_def scalar_def)
  ultimately show ?thesis using rep by (simp add: to_ascii_lowercase_id)
qed

text \<open>A dotted address is judged by its range. The host check of the \<open>http\<close> kind reads the decimal dotted text of
  every IPv4 address, with any number of dots at its end, as that address: it is refused exactly when the address is
  private, loopback, link-local, unspecified, broadcast or documentation, whatever the own domain is.\<close>

theorem dotted_host_by_range:
  "is_disallowed_literal_host (dotted a b c d @ replicate n CHR ''.'') own allow_loopback \<longleftrightarrow> is_disallowed_ip (V4 a b c d) allow_loopback"
  by (simp add: is_disallowed_literal_host_def dotted_trim parse_dotted)

lemma digits:
  "to_digit r CHR '':'' = None" "to_digit r CHR ''.'' = None"
  "to_digit 10 CHR ''0'' = Some 0" "to_digit 10 CHR ''1'' = Some 1" "to_digit 10 CHR ''2'' = Some 2" "to_digit 10 CHR ''3'' = Some 3"
  "to_digit 10 CHR ''4'' = Some 4" "to_digit 10 CHR ''6'' = Some 6" "to_digit 10 CHR ''7'' = Some 7" "to_digit 10 CHR ''f'' = None"
  "to_digit 16 CHR ''0'' = Some 0" "to_digit 16 CHR ''1'' = Some 1" "to_digit 16 CHR ''2'' = Some 2" "to_digit 16 CHR ''3'' = Some 3"
  "to_digit 16 CHR ''4'' = Some 4" "to_digit 16 CHR ''6'' = Some 6" "to_digit 16 CHR ''7'' = Some 7" "to_digit 16 CHR ''f'' = Some 15"
  by (simp_all add: to_digit_def scalar_def)

lemmas number_eval = read_number_def digits read_octet_def read_segment_def read_separator_def read_ipv4_def

lemma eights: "read_groups 8 = read_groups (Suc 7)" "read_groups 7 = read_groups (Suc 6)" "read_groups 6 = read_groups (Suc 5)"
  by simp_all

lemma parse_mapped: "parse_ip ''::ffff:127.0.0.1'' = Some (V6 [0, 0, 0, 0, 0, 0xffff, 0x7f00, 1])"
proof -
  have head: "read_groups 8 0 ''::ffff:127.0.0.1'' = ([], False, ''::ffff:127.0.0.1'')"
    unfolding eights(1) read_groups.simps by (simp add: number_eval)
  have last: "read_groups 6 (Suc 0) '':127.0.0.1'' = ([0x7f00, 1], True, [])"
    unfolding eights(3) read_groups.simps by (simp add: number_eval two_octets_def)
  have "read_groups 7 0 ''ffff:127.0.0.1'' = ([0xffff, 0x7f00, 1], True, [])"
    unfolding eights(2) read_groups.simps by (simp add: number_eval last)
  with head have "read_ipv6 ''::ffff:127.0.0.1'' = Some ([0, 0, 0, 0, 0, 0xffff, 0x7f00, 1], [])"
    by (simp add: read_ipv6_def numeral_eq_Suc)
  moreover have "read_ipv4 ''::ffff:127.0.0.1'' = None" by (simp add: number_eval)
  ultimately show ?thesis by (simp add: parse_ip_def)
qed

lemma parse_one: "parse_ip ''::1'' = Some (V6 [0, 0, 0, 0, 0, 0, 0, 1])"
proof -
  have head: "read_groups 8 0 ''::1'' = ([], False, ''::1'')"
    unfolding eights(1) read_groups.simps by (simp add: number_eval)
  have last: "read_groups 6 (Suc 0) [] = ([], False, [])"
    unfolding eights(3) read_groups.simps by (simp add: number_eval)
  have "read_groups 7 0 ''1'' = ([1], False, [])"
    unfolding eights(2) read_groups.simps by (simp add: number_eval last)
  with head have "read_ipv6 ''::1'' = Some ([0, 0, 0, 0, 0, 0, 0, 1], [])"
    by (simp add: read_ipv6_def numeral_eq_Suc)
  moreover have "read_ipv4 ''::1'' = None" by (simp add: number_eval)
  ultimately show ?thesis by (simp add: parse_ip_def)
qed

lemma parse_none: "parse_ip ''[::1]'' = None" "parse_ip ''2130706433'' = None" "parse_ip ''mcphost.dev'' = None"
proof -
  have bad: "to_digit r CHR ''['' = None" "to_digit 10 CHR ''m'' = None" "to_digit 16 CHR ''m'' = None" for r
    by (simp_all add: to_digit_def scalar_def)
  have none: "parse_ip s = None" if "read_ipv4 s = None" "read_segment s = None" "\<not> starts_with s ''::''" for s
  proof -
    from that(1,2) have "read_groups 8 0 s = ([], False, s)"
      unfolding eights(1) read_groups.simps by (simp add: read_separator_def)
    with that show ?thesis by (simp add: parse_ip_def read_ipv6_def)
  qed
  show "parse_ip ''[::1]'' = None" "parse_ip ''2130706433'' = None" "parse_ip ''mcphost.dev'' = None"
    by (rule none; simp add: number_eval bad)+
qed

text \<open>C0. Hosts the checks let through. The text \<open>::ffff:127.0.0.1\<close> is loopback, and the import guard refuses it; the host
  check of the \<open>http\<close> kind, of synced sources, of notification targets and of client documents does not. An index
  source is checked with the brackets of an IPv6 literal on, so that \<open>https://[::1]/\<close> passes; and the host of a URL
  template is checked as it is written, so that \<open>2130706433\<close>, which a URL parser reads as 127.0.0.1, passes too.\<close>

theorem loopback_passes_host_checks:
  "parse_ip ''::ffff:127.0.0.1'' = Some (V6 [0, 0, 0, 0, 0, 0xffff, 0x7f00, 1])
   \<and> ip_forbidden (V6 [0, 0, 0, 0, 0, 0xffff, 0x7f00, 1]) False
   \<and> \<not> is_disallowed_literal_host ''::ffff:127.0.0.1'' ''mcphost.dev'' False
   \<and> parse_ip ''::1'' = Some (V6 [0, 0, 0, 0, 0, 0, 0, 1]) \<and> is_disallowed_ip (V6 [0, 0, 0, 0, 0, 0, 0, 1]) False
   \<and> index_check_url (\<lambda>raw. Inr \<lparr>pu_scheme = ''https'', pu_host = Some raw, pu_path = ''/''\<rparr>) ''mcphost.dev'' ''[::1]'' = None
   \<and> split_scheme_host ''https://2130706433/'' = Some (''https'', ''2130706433'')
   \<and> \<not> is_disallowed_literal_host ''2130706433'' ''mcphost.dev'' False"
proof -
  have lower: "to_ascii_lowercase (trim_end_char CHR ''.'' s) = s"
    if "s \<in> {''::ffff:127.0.0.1'', ''[::1]'', ''2130706433'', ''mcphost.dev''}" for s
    using that by (auto simp: trim_end_char_def to_ascii_lowercase_def is_ascii_upper_def scalar_def)
  have host: "\<not> is_disallowed_literal_host s ''mcphost.dev'' False" if "s \<in> {''[::1]'', ''2130706433''}" for s
    using that by (auto simp: is_disallowed_literal_host_def lower parse_none names_domain_def ends_with_def)
  have "url_policy (\<lambda>raw. Inr \<lparr>pu_scheme = ''https'', pu_host = Some raw, pu_path = ''/''\<rparr>) ''mcphost.dev'' = (''mcphost.dev'', False)"
    by (simp add: url_policy_def parse_none)
  then have "index_check_url (\<lambda>raw. Inr \<lparr>pu_scheme = ''https'', pu_host = Some raw, pu_path = ''/''\<rparr>) ''mcphost.dev'' ''[::1]'' = None"
    using host[of "''[::1]''"] by (simp add: index_check_url_def)
  moreover have "ip_forbidden (V6 [0, 0, 0, 0, 0, 0xffff, 0x7f00, 1]) False"
    by (simp add: to_ipv4_mapped_def)
  moreover have "\<not> is_disallowed_literal_host ''::ffff:127.0.0.1'' ''mcphost.dev'' False"
    by (simp add: is_disallowed_literal_host_def lower parse_mapped v6_loopback_def v6_unspecified_def v6_multicast_def
        is_ipv6_link_local_def is_ipv6_unique_local_def)
  moreover have "split_scheme_host ''https://2130706433/'' = Some (''https'', ''2130706433'')"
    by (simp add: split_scheme_host_def split_once_str.simps until_any_def)
  moreover have "is_disallowed_ip (V6 [0, 0, 0, 0, 0, 0, 0, 1]) False" by (simp add: v6_loopback_def)
  ultimately show ?thesis using parse_mapped parse_one host[of "''2130706433''"] by blast
qed

end
