(* ===== verification/Paths.thy ===== *)
theory Paths
  imports Errors
begin

text \<open>
  The mapping paths and the declared outputs of a tool, from \<open>src/kinds/mod.rs\<close>: \<open>Path::parse\<close> and
  \<open>Path::resolve\<close> (\<open>$.a.b[0].c\<close>), the normal form of a spec's \<open>outputs\<close>, the projection of a result into its
  payload (\<open>apply_output_decls\<close>, \<open>promote_declared_outputs_with\<close>) and the report of what is missing
  (\<open>envelope_report\<close>, \<open>find_seen_at\<close>). \<open>print\<close> is \<open>serde_json::to_string\<close>.
\<close>

section \<open>Paths\<close>

datatype path_segment = PKey string | PIndex nat

record path =
  path_raw :: string
  path_segments :: "path_segment list"

datatype path_error = PWildcard | PFilter | PRecursiveDescent | PMalformed

fun path_reason :: "path_error \<Rightarrow> string" where
  "path_reason PWildcard = ''uses a wildcard''"
| "path_reason PFilter = ''uses a filter expression''"
| "path_reason PRecursiveDescent = ''uses recursive descent''"
| "path_reason PMalformed = ''is not a valid path''"

text \<open>\<open>str::contains\<close> of a string, and \<open>str::parse\<close> into \<open>usize\<close>.\<close>

fun has_infix :: "string \<Rightarrow> string \<Rightarrow> bool" where
  "has_infix p [] \<longleftrightarrow> p = []"
| "has_infix p (c # cs) \<longleftrightarrow> starts_with (c # cs) p \<or> has_infix p cs"

definition parse_usize :: "string \<Rightarrow> nat option" where
  "parse_usize s =
     (case parse_digits (case s of c # cs \<Rightarrow> if c = CHR ''+'' then cs else s | [] \<Rightarrow> []) of
        Some n \<Rightarrow> if n \<le> u64_max then Some n else None
      | None \<Rightarrow> None)"

definition path_key_char :: "char \<Rightarrow> bool" where
  "path_key_char c \<longleftrightarrow> is_ascii_alphanumeric c \<or> c = CHR ''_'' \<or> c = CHR ''-''"

definition at_segment :: "char \<Rightarrow> bool" where
  "at_segment c \<longleftrightarrow> c = CHR ''.'' \<or> c = CHR ''[''"

function parse_segments :: "string \<Rightarrow> path_segment list option" where
  "parse_segments [] = Some []"
| "parse_segments (c # cs) =
     (if c = CHR ''.'' then
        (let key = takeWhile (\<lambda>x. \<not> at_segment x) cs; rest = dropWhile (\<lambda>x. \<not> at_segment x) cs in
         if key = [] \<or> \<not> list_all path_key_char key then None
         else map_option (\<lambda>segs. PKey key # segs) (parse_segments rest))
      else if c = CHR ''['' then
        (let digits = takeWhile (\<lambda>x. x \<noteq> CHR '']'') cs; rest = dropWhile (\<lambda>x. x \<noteq> CHR '']'') cs in
         if rest = [] then None
         else (case parse_usize digits of
             None \<Rightarrow> None
           | Some i \<Rightarrow> map_option (\<lambda>segs. PIndex i # segs) (parse_segments (tl rest))))
      else None)"
  by pat_completeness auto
termination
  by (relation "measure length")
     (auto simp: less_Suc_eq_le intro: order_trans[OF length_dropWhile_le] order_trans[OF diff_le_self])

definition path_parse :: "string \<Rightarrow> path_error + path" where
  "path_parse raw =
     (case raw of
        c # rest \<Rightarrow>
          if c \<noteq> CHR ''$'' then Inl PMalformed
          else if has_infix ''[*]'' rest \<or> has_infix ''.*'' rest then Inl PWildcard
          else if has_infix ''[?'' rest then Inl PFilter
          else if has_infix ''..'' rest then Inl PRecursiveDescent
          else (case parse_segments rest of
              Some segs \<Rightarrow> Inr \<lparr>path_raw = raw, path_segments = segs\<rparr>
            | None \<Rightarrow> Inl PMalformed)
      | [] \<Rightarrow> Inl PMalformed)"

fun resolve_segments :: "path_segment list \<Rightarrow> json \<Rightarrow> json option" where
  "resolve_segments [] cur = Some cur"
| "resolve_segments (PKey k # segs) cur =
     (case as_object cur of
        None \<Rightarrow> None
      | Some m \<Rightarrow> (case map_of m k of None \<Rightarrow> None | Some v \<Rightarrow> resolve_segments segs v))"
| "resolve_segments (PIndex i # segs) cur =
     (case as_array cur of
        None \<Rightarrow> None
      | Some xs \<Rightarrow> if i < length xs then resolve_segments segs (xs ! i) else None)"

definition path_resolve :: "path \<Rightarrow> json \<Rightarrow> json option" where
  "path_resolve p source = resolve_segments (path_segments p) source"

text \<open>\<open>Path::parse(raw).ok().and_then(|p| p.resolve(source))\<close>\<close>

definition value_at :: "string \<Rightarrow> json \<Rightarrow> json option" where
  "value_at raw source = (case path_parse raw of Inr p \<Rightarrow> path_resolve p source | Inl _ \<Rightarrow> None)"

section \<open>Declared outputs\<close>

fun plain_json_type_name :: "json \<Rightarrow> string" where
  "plain_json_type_name JNull = ''null''"
| "plain_json_type_name (JBool _) = ''boolean''"
| "plain_json_type_name (JInt _) = ''number''"
| "plain_json_type_name (JFloat _) = ''number''"
| "plain_json_type_name (JStr _) = ''string''"
| "plain_json_type_name (JArr _) = ''array''"
| "plain_json_type_name (JObj _) = ''object''"

record output_decl =
  od_name :: string
  od_path :: "path option"

definition ENVELOPE_WRAPPER_KEYS :: "string list" where
  "ENVELOPE_WRAPPER_KEYS = [''data'', ''result'', ''response'']"

text \<open>The first of the wrappers that is an object with the field.\<close>

fun first_wrapped :: "string \<Rightarrow> json option list \<Rightarrow> json option" where
  "first_wrapped field [] = None"
| "first_wrapped field (w # ws) =
     (case Option.bind (Option.bind w as_object) (\<lambda>m. map_of m field) of
        Some v \<Rightarrow> Some v
      | None \<Rightarrow> first_wrapped field ws)"

definition find_declared_field :: "json \<Rightarrow> string \<Rightarrow> string list option \<Rightarrow> json option" where
  "find_declared_field source field wrapper_keys =
     (case as_object source of
        None \<Rightarrow> None
      | Some obj \<Rightarrow>
          (case map_of obj field of
             Some v \<Rightarrow> Some v
           | None \<Rightarrow>
               (case wrapper_keys of
                  Some keys \<Rightarrow> first_wrapped field (map (map_of obj) keys)
                | None \<Rightarrow> first_wrapped field (map (\<lambda>(_, v). Some v) obj))))"

fun promote_declared_outputs_with ::
  "(string \<times> json) list \<Rightarrow> json \<Rightarrow> string list \<Rightarrow> string list option \<Rightarrow> (string \<times> json) list" where
  "promote_declared_outputs_with payload source [] wrapper_keys = payload"
| "promote_declared_outputs_with payload source (field # rest) wrapper_keys =
     promote_declared_outputs_with
       (if map_of payload field \<noteq> None then payload
        else case find_declared_field source field wrapper_keys of
          Some v \<Rightarrow> obj_insert field v payload
        | None \<Rightarrow> payload)
       source rest wrapper_keys"

definition obj_remove :: "string \<Rightarrow> (string \<times> json) list \<Rightarrow> (string \<times> json) list" where
  "obj_remove k m = filter (\<lambda>(k', _). k' \<noteq> k) m"

text \<open>The loop of \<open>apply_output_decls\<close>: the payload and the names left for the search.\<close>

fun apply_decls ::
  "(string \<times> json) list \<Rightarrow> json \<Rightarrow> output_decl list \<Rightarrow> (string \<times> json) list \<times> string list" where
  "apply_decls payload source [] = (payload, [])"
| "apply_decls payload source (d # ds) =
     (case od_path d of
        Some path \<Rightarrow>
          (case path_resolve path source of
             Some v \<Rightarrow> apply_decls (obj_insert (od_name d) v payload) source ds
           | None \<Rightarrow> apply_decls (obj_remove (od_name d) payload) source ds)
      | None \<Rightarrow>
          (let (p, names) = apply_decls payload source ds
           in (p, if map_of payload (od_name d) = None then od_name d # names else names)))"

definition apply_output_decls ::
  "(string \<times> json) list \<Rightarrow> json \<Rightarrow> output_decl list \<Rightarrow> string list option \<Rightarrow> (string \<times> json) list" where
  "apply_output_decls payload source declared wrapper_keys =
     (let (p, names) = apply_decls payload source declared
      in promote_declared_outputs_with p source names wrapper_keys)"

definition apply_declared_outputs :: "json \<Rightarrow> output_decl list \<Rightarrow> json" where
  "apply_declared_outputs value declared =
     (if declared = [] then value
      else let names = map od_name declared in
        case value of
          JObj obj \<Rightarrow> JObj (obj_insert ''payload'' (JObj (apply_output_decls obj (JObj obj) declared None)) obj)
        | other \<Rightarrow>
            mk_obj [(''value'', other),
                    (''payload'', mk_obj [(hd names, other),
                       (''_envelope_warning'', JStr (''tool returned a bare '' @ plain_json_type_name other
                          @ '' but declares outputs '' @ debug_strs names @ ''; the whole value was promoted to ''
                          @ [CHR 0x27] @ hd names @ [CHR 0x27]
                          @ '' since there are no object keys to match the rest against -- return an object with matching keys instead''))])])"

definition invalid_spec_error :: "(json \<Rightarrow> string) \<Rightarrow> string \<Rightarrow> string \<Rightarrow> string \<Rightarrow> json \<Rightarrow> kind_error" where
  "invalid_spec_error print field got expected example =
     KStructured ''invalid_spec'' (''invalid spec: '' @ field @ '': expected '' @ expected @ '', got '' @ got @ ''; e.g. '' @ print example)
       (mk_obj [(''field'', JStr field), (''got'', JStr got), (''expected'', JStr expected), (''example'', example)])"

definition invalid_path_error :: "string \<Rightarrow> string \<Rightarrow> string \<Rightarrow> kind_error" where
  "invalid_path_error field raw_path reason =
     (let expected = ''dotted keys and integer indices, e.g. '' @ debug_str ''$.items[0].ok'' in
      KStructured ''invalid_spec''
        (''invalid spec: '' @ field @ '': path '' @ [CHR 0x22] @ raw_path @ [CHR 0x22] @ '' '' @ reason @ ''; supported: '' @ expected)
        (mk_obj [(''field'', JStr field), (''got'', JStr ''string''), (''expected'', JStr expected), (''example'', JStr ''$.items[0].ok'')]))"

text \<open>The two loops of \<open>normalize_outputs\<close>.\<close>

fun outputs_of_list :: "(json \<Rightarrow> string) \<Rightarrow> nat \<Rightarrow> json list \<Rightarrow> kind_error + output_decl list" where
  "outputs_of_list print i [] = Inr []"
| "outputs_of_list print i (item # items) =
     (case as_str item of
        None \<Rightarrow> Inl (invalid_spec_error print (''outputs['' @ show_nat i @ '']'') (plain_json_type_name item) ''a field name string'' (JStr ''status''))
      | Some name \<Rightarrow>
          (case outputs_of_list print (Suc i) items of
             Inl e \<Rightarrow> Inl e
           | Inr ds \<Rightarrow> Inr (\<lparr>od_name = name, od_path = None\<rparr> # ds)))"

fun outputs_of_map :: "(json \<Rightarrow> string) \<Rightarrow> (string \<times> json) list \<Rightarrow> kind_error + output_decl list" where
  "outputs_of_map print [] = Inr []"
| "outputs_of_map print ((name, path_val) # kvs) =
     (let field = ''outputs.'' @ name in
      case as_str path_val of
        None \<Rightarrow> Inl (invalid_spec_error print field (plain_json_type_name path_val)
                  (''a path string (dotted keys and integer indices, e.g. '' @ debug_str ''$.a.b[0].c'' @ '')'') (JStr ''$.json.a''))
      | Some raw_path \<Rightarrow>
          (case path_parse raw_path of
             Inl e \<Rightarrow> Inl (invalid_path_error field raw_path (path_reason e))
           | Inr path \<Rightarrow>
               (case outputs_of_map print kvs of
                  Inl e \<Rightarrow> Inl e
                | Inr ds \<Rightarrow> Inr (\<lparr>od_name = name, od_path = Some path\<rparr> # ds))))"

definition normalize_outputs :: "(json \<Rightarrow> string) \<Rightarrow> json \<Rightarrow> kind_error + output_decl list" where
  "normalize_outputs print value =
     (case value of
        JArr items \<Rightarrow> outputs_of_list print 0 items
      | JObj kvs \<Rightarrow> outputs_of_map print kvs
      | other \<Rightarrow> Inl (invalid_spec_error print ''outputs'' (plain_json_type_name other)
          ''a list of field names or an object mapping field names to path strings'' (mk_obj [(''status'', JStr ''$.data.status'')])))"

definition spec_declared_outputs :: "(json \<Rightarrow> string) \<Rightarrow> json \<Rightarrow> kind_error + output_decl list" where
  "spec_declared_outputs print spec =
     (case json_get ''outputs'' spec of None \<Rightarrow> Inr [] | Some v \<Rightarrow> normalize_outputs print v)"

section \<open>The report\<close>

text \<open>The walk of \<open>find_seen_at_walk\<close> over the entries of one object; \<open>ks\<close> is the path to it.\<close>

function seen_at_walk :: "string \<Rightarrow> nat \<Rightarrow> nat \<Rightarrow> string list \<Rightarrow> nat \<Rightarrow> (string \<times> json) list \<Rightarrow> string list \<Rightarrow> string list" where
  "seen_at_walk field max_depth max_results ks depth [] out = out"
| "seen_at_walk field max_depth max_results ks depth ((k, v) # kvs) out =
     (if length out \<ge> max_results then out
      else
        (let path = ks @ [k];
             out1 = (if k = field then out @ [''$.'' @ join ''.'' path] else out);
             out2 = (if length out1 < max_results \<and> depth < max_depth
                     then seen_at_walk field max_depth max_results path (Suc depth) (case v of JObj m \<Rightarrow> m | _ \<Rightarrow> []) out1
                     else out1)
         in seen_at_walk field max_depth max_results ks depth kvs out2))"
  by pat_completeness auto
termination
  by (relation "measures [\<lambda>(_, max_depth, _, _, depth, _, _). max_depth - depth, \<lambda>(_, _, _, _, _, kvs, _). length kvs]") auto

definition find_seen_at :: "json \<Rightarrow> string \<Rightarrow> nat \<Rightarrow> nat \<Rightarrow> string list" where
  "find_seen_at source field max_depth max_results =
     seen_at_walk field max_depth max_results [] 1 (case source of JObj m \<Rightarrow> m | _ \<Rightarrow> []) []"

definition missing_detail :: "json option \<Rightarrow> output_decl \<Rightarrow> json" where
  "missing_detail seen_at_source d =
     mk_obj ([(''name'', JStr (od_name d))]
       @ (case od_path d of
            Some p \<Rightarrow> [(''path'', JStr (path_raw p))]
          | None \<Rightarrow>
              (case seen_at_source of
                 None \<Rightarrow> []
               | Some source \<Rightarrow>
                   (let hints = find_seen_at source (od_name d) 3 3
                    in if hints = [] then [] else [(''seen_at'', JStrs hints)]))))"

definition envelope_report :: "output_decl list \<Rightarrow> json option \<Rightarrow> json option \<Rightarrow> json option" where
  "envelope_report declared payload seen_at_source =
     (if declared = [] then None
      else
        (let present = (\<lambda>d. case Option.bind payload as_object of Some m \<Rightarrow> map_of m (od_name d) \<noteq> None | None \<Rightarrow> False);
             found = filter present declared; missing = filter (\<lambda>d. \<not> present d) declared
         in Some (mk_obj [(''declared'', JStrs (map od_name declared)),
                          (''found_at_contract_path'', JStrs (map od_name found)),
                          (''missing'', JStrs (map od_name missing)),
                          (''missing_detail'', JArr (map (missing_detail seen_at_source) missing)),
                          (''green'', JBool (missing = []))])))"


section \<open>Lemmas on paths\<close>

lemma has_infix_iff: "has_infix p s \<longleftrightarrow> (\<exists>a b. s = a @ p @ b)"
proof (induction s)
  case (Cons c cs)
  have "(\<exists>a b. c # cs = a @ p @ b) \<longleftrightarrow> (\<exists>b. c # cs = p @ b) \<or> (\<exists>a b. cs = a @ p @ b)"
    by (metis Cons_eq_append_conv append_Cons append_Nil)
  with Cons show ?case by (simp add: starts_with_iff)
qed auto

lemma has_infix_set: "has_infix p s \<Longrightarrow> set p \<subseteq> set s"
  by (auto simp: has_infix_iff)

lemma has_infix_pair: "has_infix [c, c] s \<longleftrightarrow> \<not> successively (\<lambda>a b. \<not> (a = c \<and> b = c)) s"
proof (induction s)
  case (Cons x s)
  then show ?case by (cases s) auto
qed simp

fun render_segment :: "path_segment \<Rightarrow> string" where
  "render_segment (PKey k) = CHR ''.'' # k"
| "render_segment (PIndex i) = CHR ''['' # show_nat i @ '']''"

definition render_segments :: "path_segment list \<Rightarrow> string" where
  "render_segments segs = concat (map render_segment segs)"

fun segment_ok :: "path_segment \<Rightarrow> bool" where
  "segment_ok (PKey k) \<longleftrightarrow> k \<noteq> [] \<and> list_all path_key_char k"
| "segment_ok (PIndex i) \<longleftrightarrow> i \<le> u64_max"

lemma digit_not_special:
  "is_ascii_digit c \<Longrightarrow> c \<noteq> CHR ''+'' \<and> c \<noteq> CHR '']'' \<and> c \<noteq> CHR ''['' \<and> c \<noteq> CHR ''.'' \<and> c \<noteq> CHR ''*'' \<and> c \<noteq> CHR ''?''"
  by (auto simp: is_ascii_digit_def scalar_def)

lemma path_key_char_not_special:
  "path_key_char c \<Longrightarrow> c \<noteq> CHR '']'' \<and> c \<noteq> CHR ''['' \<and> c \<noteq> CHR ''.'' \<and> c \<noteq> CHR ''*'' \<and> c \<noteq> CHR ''?'' \<and> c \<noteq> CHR ''$''"
  by (auto simp: path_key_char_def is_ascii_alphanumeric_def is_ascii_digit_def is_ascii_lower_def is_ascii_upper_def scalar_def)

lemma parse_usize_show: "n \<le> u64_max \<Longrightarrow> parse_usize (show_nat n) = Some n"
  using show_nat_no_sign[of n] parse_digits_show_nat[of n] show_nat_digits(2)[of n]
  by (cases "show_nat n") (auto simp: parse_usize_def)

lemma takeWhile_all: "list_all P xs \<Longrightarrow> (ys = [] \<or> \<not> P (hd ys)) \<Longrightarrow> takeWhile P (xs @ ys) = xs \<and> dropWhile P (xs @ ys) = ys"
  by (induction xs) (cases ys; auto)+

lemma render_hd: "render_segments segs = [] \<or> at_segment (hd (render_segments segs))"
proof (cases segs)
  case (Cons s t)
  then show ?thesis by (cases s) (auto simp: render_segments_def at_segment_def)
qed (simp add: render_segments_def)

lemma parse_render: "list_all segment_ok segs \<Longrightarrow> parse_segments (render_segments segs) = Some segs"
proof (induction segs)
  case (Cons s segs)
  show ?case
  proof (cases s)
    case (PKey k)
    have "list_all (\<lambda>x. \<not> at_segment x) k"
      using Cons.prems PKey by (auto simp: list_all_iff at_segment_def dest: path_key_char_not_special)
    then have "takeWhile (\<lambda>x. \<not> at_segment x) (k @ render_segments segs) = k \<and>
               dropWhile (\<lambda>x. \<not> at_segment x) (k @ render_segments segs) = render_segments segs"
      using render_hd[of segs] by (intro takeWhile_all) auto
    with Cons PKey show ?thesis by (simp add: render_segments_def)
  next
    case (PIndex i)
    have "list_all (\<lambda>x. x \<noteq> CHR '']'') (show_nat i)"
      using show_nat_digits(1)[of i] by (auto simp: list_all_iff dest: digit_not_special)
    then have "takeWhile (\<lambda>x. x \<noteq> CHR '']'') (show_nat i @ CHR '']'' # render_segments segs) = show_nat i \<and>
               dropWhile (\<lambda>x. x \<noteq> CHR '']'') (show_nat i @ CHR '']'' # render_segments segs) = CHR '']'' # render_segments segs"
      by (intro takeWhile_all) auto
    with Cons PIndex show ?thesis by (simp add: render_segments_def parse_usize_show)
  qed
qed (simp add: render_segments_def)

lemma render_chars: "list_all segment_ok segs \<Longrightarrow> CHR ''*'' \<notin> set (render_segments segs) \<and> CHR ''?'' \<notin> set (render_segments segs)"
proof (induction segs)
  case (Cons s segs)
  then show ?case using show_nat_digits(1)
    by (cases s) (auto simp: render_segments_def list_all_iff dest: path_key_char_not_special digit_not_special)
qed (simp add: render_segments_def)

lemma successively_all: "list_all (\<lambda>x. x \<noteq> c) xs \<Longrightarrow> successively (\<lambda>a b. \<not> (a = c \<and> b = c)) xs"
  by (induction xs) (auto simp: successively_Cons)

lemma render_no_dots:
  "list_all segment_ok segs \<Longrightarrow> successively (\<lambda>a b. \<not> (a = CHR ''.'' \<and> b = CHR ''.'')) (render_segments segs)"
proof (induction segs)
  case (Cons s segs)
  let ?R = "\<lambda>a b. \<not> (a = CHR ''.'' \<and> b = CHR ''.'')"
  have "successively ?R (render_segment s) \<and> last (render_segment s) \<noteq> CHR ''.''"
  proof (cases s)
    case (PKey k)
    then have "list_all (\<lambda>x. x \<noteq> CHR ''.'') k" "k \<noteq> []" using Cons.prems by (auto simp: list_all_iff dest: path_key_char_not_special)
    with PKey show ?thesis using successively_all[of "CHR ''.''" k] by (cases k) (auto simp: list_all_iff)
  next
    case (PIndex i)
    have "list_all (\<lambda>x. x \<noteq> CHR ''.'') (show_nat i @ '']'')"
      using show_nat_digits(1)[of i] by (auto simp: list_all_iff dest: digit_not_special)
    with PIndex show ?thesis using successively_all[of "CHR ''.''" "show_nat i @ '']''"] by (auto simp: successively_Cons)
  qed
  with Cons show ?case by (auto simp: render_segments_def successively_append_iff)
qed (simp add: render_segments_def)

lemma parse_segments_ok: "parse_segments s = Some segs \<Longrightarrow> list_all segment_ok segs"
proof (induction s arbitrary: segs rule: parse_segments.induct)
  case (2 c cs)
  then show ?case by (auto simp: Let_def parse_usize_def split: if_splits option.splits)
qed simp

lemma resolve_append: "resolve_segments (p @ q) v = Option.bind (resolve_segments p v) (resolve_segments q)"
  by (induction p v rule: resolve_segments.induct) (auto split: option.splits)

text \<open>Mapping paths round-trip: every list of keys over the allowed characters and of indices that fit
  \<open>usize\<close> is what its written form parses to, and whatever \<open>Path::parse\<close> accepts is such a list.\<close>

theorem path_roundtrip:
  "(list_all segment_ok segs \<longrightarrow>
      path_parse (CHR ''$'' # render_segments segs) = Inr \<lparr>path_raw = CHR ''$'' # render_segments segs, path_segments = segs\<rparr>)
   \<and> (path_parse raw = Inr p \<longrightarrow> path_raw p = raw \<and> list_all segment_ok (path_segments p))"
proof (intro conjI impI)
  assume ok: "list_all segment_ok segs"
  let ?r = "render_segments segs"
  have "\<not> has_infix ''[*]'' ?r" "\<not> has_infix ''.*'' ?r" "\<not> has_infix ''[?'' ?r"
    using render_chars[OF ok] has_infix_set[of _ ?r] by fastforce+
  moreover have "\<not> has_infix ''..'' ?r" using render_no_dots[OF ok] has_infix_pair[of "CHR ''.''" ?r] by simp
  ultimately show "path_parse (CHR ''$'' # ?r) = Inr \<lparr>path_raw = CHR ''$'' # ?r, path_segments = segs\<rparr>"
    using parse_render[OF ok] by (simp add: path_parse_def)
next
  assume "path_parse raw = Inr p"
  then show "path_raw p = raw" "list_all segment_ok (path_segments p)"
    by (auto simp: path_parse_def parse_segments_ok split: list.splits if_splits option.splits)
qed

lemma path_roundtrip_witness:
  "path_parse ''$.rows[7].id'' = Inr \<lparr>path_raw = ''$.rows[7].id'', path_segments = [PKey ''rows'', PIndex 7, PKey ''id'']\<rparr>"
proof -
  have "list_all segment_ok [PKey ''rows'', PIndex 7, PKey ''id'']"
    by (simp add: path_key_char_def is_ascii_alphanumeric_def is_ascii_lower_def scalar_def u64_max_def)
  moreover have "render_segments [PKey ''rows'', PIndex 7, PKey ''id''] = ''.rows[7].id''"
  proof -
    have "digit_char 7 = CHR ''7''" by code_simp
    then show ?thesis by (simp add: render_segments_def show_nat_1)
  qed
  ultimately show ?thesis using path_roundtrip[of "[PKey ''rows'', PIndex 7, PKey ''id'']"] by simp
qed

section \<open>Lemmas on outputs\<close>

lemma map_of_obj_remove [simp]: "map_of (obj_remove k m) = (map_of m)(k := None)"
  by (induction m) (auto simp: obj_remove_def fun_eq_iff)

lemma obj_ok_remove: "obj_ok m \<Longrightarrow> obj_ok (obj_remove k m)"
  by (simp add: obj_remove_def obj_ok_filter)

lemma outputs_of_map_names: "outputs_of_map print kvs = Inr ds \<Longrightarrow> map od_name ds = map fst kvs"
  by (induction print kvs arbitrary: ds rule: outputs_of_map.induct) (auto simp: Let_def split: option.splits sum.splits)

lemma outputs_of_map_paths:
  "outputs_of_map print kvs = Inr ds \<Longrightarrow> d \<in> set ds \<Longrightarrow> \<exists>raw p. (od_name d, JStr raw) \<in> set kvs \<and> od_path d = Some p \<and> path_parse raw = Inr p"
proof (induction print kvs arbitrary: ds rule: outputs_of_map.induct)
  case (2 print name v kvs)
  then show ?case by (cases v) (fastforce simp: Let_def split: option.splits sum.splits)+
qed simp

lemma find_fresh: "n \<notin> od_name ` set ds \<Longrightarrow> find (\<lambda>d. od_name d = n) ds = None"
  by (auto simp: find_None_iff)

lemma find_named: "find (\<lambda>d. od_name d = n) ds = Some e \<Longrightarrow> e \<in> set ds \<and> od_name e = n"
  using find_hit[of "\<lambda>d. od_name d = n" ds e] by simp

lemma apply_decls_paths:
  "list_all (\<lambda>d. od_path d \<noteq> None) ds \<Longrightarrow> distinct (map od_name ds) \<Longrightarrow>
     snd (apply_decls payload source ds) = []
     \<and> map_of (fst (apply_decls payload source ds)) n =
         (case find (\<lambda>d. od_name d = n) ds of Some d \<Rightarrow> path_resolve (the (od_path d)) source | None \<Rightarrow> map_of payload n)"
proof (induction ds arbitrary: payload)
  case (Cons d ds)
  have "od_name d = n \<Longrightarrow> find (\<lambda>d. od_name d = n) ds = None" using find_fresh[of n ds] Cons.prems by auto
  with Cons show ?case by (cases "od_name d = n") (auto split: option.splits)
qed simp

lemma find_distinct: "d \<in> set ds \<Longrightarrow> distinct (map od_name ds) \<Longrightarrow> find (\<lambda>d'. od_name d' = od_name d) ds = Some d"
  by (induction ds) force+

lemma promote_nil [simp]: "promote_declared_outputs_with payload source [] w = payload"
  by simp

definition declared_value :: "(string \<times> json) list \<Rightarrow> json \<Rightarrow> string \<Rightarrow> json option" where
  "declared_value outputs source n = (case map_of outputs n of Some (JStr raw) \<Rightarrow> value_at raw source | _ \<Rightarrow> None)"

lemma outputs_by_path:
  assumes norm: "normalize_outputs print (JObj kvs) = Inr ds" and dist: "distinct (map fst kvs)"
  shows "map_of (apply_output_decls payload source ds w) n =
           (if n \<in> fst ` set kvs then declared_value kvs source n else map_of payload n)"
proof -
  have ds: "outputs_of_map print kvs = Inr ds" using norm by (simp add: normalize_outputs_def)
  note names = outputs_of_map_names[OF ds] and paths = outputs_of_map_paths[OF ds]
  have "list_all (\<lambda>d. od_path d \<noteq> None) ds" using paths by (force simp: list_all_iff)
  note dec = apply_decls_paths[OF this, of payload source n, unfolded names, OF dist]
  then have eq: "map_of (apply_output_decls payload source ds w) n = map_of (fst (apply_decls payload source ds)) n"
    by (simp add: apply_output_decls_def split: prod.splits) (metis fst_conv promote_nil snd_conv)
  show ?thesis
  proof (cases "n \<in> fst ` set kvs")
    case True
    then obtain d where d: "d \<in> set ds" "od_name d = n" using names by (metis imageE list.set_map)
    then obtain raw p where r: "(n, JStr raw) \<in> set kvs" "od_path d = Some p" "path_parse raw = Inr p" using paths by blast
    then have "map_of kvs n = Some (JStr raw)" using dist by simp
    moreover have "find (\<lambda>d. od_name d = n) ds = Some d" using find_distinct[of d ds] d names dist by simp
    ultimately show ?thesis using dec eq r True by (simp add: declared_value_def value_at_def)
  next
    case False
    then have "find (\<lambda>d. od_name d = n) ds = None" using names by (metis (mono_tags, lifting) find_None_iff image_eqI list.set_map)
    with dec eq False show ?thesis by simp
  qed
qed

text \<open>A map of declared outputs is a contract: each declared field of the payload is exactly what its path reads
  from the result, absent when the path reads nothing, whatever the result had under that name; the other fields
  are those of the payload; and the report is green exactly when every path reads something.\<close>

theorem declared_paths_contract:
  assumes "normalize_outputs print (JObj kvs) = Inr ds" "distinct (map fst kvs)" "kvs \<noteq> []"
  shows "(let result = apply_output_decls payload source ds w in
      map_of result n = (if n \<in> fst ` set kvs then declared_value kvs source n else map_of payload n)
    \<and> Option.bind (envelope_report ds (Some (JObj result)) seen) (json_get ''green'')
        = Some (JBool (\<forall>f \<in> set (map fst kvs). declared_value kvs source f \<noteq> None)))"
proof -
  let ?result = "apply_output_decls payload source ds w"
  have "outputs_of_map print kvs = Inr ds" using assms(1) by (simp add: normalize_outputs_def)
  note names = outputs_of_map_names[OF this]
  then have ne: "ds \<noteq> []" using assms(3) by auto
  have "(filter (\<lambda>d. map_of ?result (od_name d) = None) ds = []) \<longleftrightarrow> (\<forall>f \<in> set (map od_name ds). map_of ?result f \<noteq> None)"
    by (auto simp: filter_empty_conv)
  also have "\<dots> \<longleftrightarrow> (\<forall>f \<in> set (map fst kvs). declared_value kvs source f \<noteq> None)"
    unfolding names by (auto simp: outputs_by_path[OF assms(1,2)])
  finally have "Option.bind (envelope_report ds (Some (JObj ?result)) seen) (json_get ''green'')
        = Some (JBool (\<forall>f \<in> set (map fst kvs). declared_value kvs source f \<noteq> None))"
    using ne by (simp add: envelope_report_def Let_def)
  with outputs_by_path[OF assms(1,2)] show ?thesis by (simp add: Let_def)
qed

lemma declared_paths_contract_witness:
  "map_of (apply_output_decls [(''id'', JInt 1)] (JObj [(''id'', JInt 1)]) [\<lparr>od_name = ''id'', od_path = Some \<lparr>path_raw = ''$.row'', path_segments = [PKey ''row'']\<rparr>\<rparr>] None) ''id'' = None"
proof -
  have p: "path_parse ''$.row'' = Inr \<lparr>path_raw = ''$.row'', path_segments = [PKey ''row'']\<rparr>"
    by (simp add: path_parse_def at_segment_def path_key_char_def is_ascii_alphanumeric_def is_ascii_lower_def scalar_def)
  show ?thesis
    using declared_paths_contract[of "\<lambda>_. []" "[(''id'', JStr ''$.row'')]" "[\<lparr>od_name = ''id'', od_path = Some \<lparr>path_raw = ''$.row'', path_segments = [PKey ''row'']\<rparr>\<rparr>]"
        "[(''id'', JInt 1)]" "JObj [(''id'', JInt 1)]" None "''id''" None]
    by (simp add: normalize_outputs_def p declared_value_def value_at_def path_resolve_def Let_def)
qed

end
