(* ===== verification/ChainSpec.thy ===== *)
theory ChainSpec
  imports Paths RetryPolicy
begin

text \<open>
  The \<open>chain\<close> kind before it runs, from \<open>src/kinds/chain.rs\<close>: the context a step's mappings read, the references
  into it, the values that look like one and are not (\<open>near_miss\<close> with its rewrite), the parser of \<open>spec.steps\<close>, the
  inputs a chain needs, and the verdict \<open>host.tool_publish\<close> gives on every mapping (\<open>steps_verdict\<close>). What is known
  of the tenant's tools (declared outputs and the keys of finished runs, \<open>ObservedOutputs\<close> of \<open>db.rs\<close>) is an argument.
\<close>

section \<open>The context of a step\<close>

definition strip_prefix :: "string \<Rightarrow> string \<Rightarrow> string option" where
  "strip_prefix p s = (if starts_with s p then Some (drop (length p) s) else None)"

definition strip_suffix :: "string \<Rightarrow> string \<Rightarrow> string option" where
  "strip_suffix p s = map_option rev (strip_prefix (rev p) (rev s))"

text \<open>\<open>char::is_alphabetic\<close> and \<open>char::is_numeric\<close> up to U+00FF.\<close>

definition is_alphabetic :: "char \<Rightarrow> bool" where
  "is_alphabetic c \<longleftrightarrow> is_ascii_lower c \<or> is_ascii_upper c
     \<or> (let n = scalar c in n = 170 \<or> n = 181 \<or> n = 186 \<or> (192 \<le> n \<and> n \<noteq> 215 \<and> n \<noteq> 247))"

definition is_alphanumeric :: "char \<Rightarrow> bool" where
  "is_alphanumeric c \<longleftrightarrow> is_alphabetic c \<or> is_ascii_digit c
     \<or> (let n = scalar c in n = 178 \<or> n = 179 \<or> n = 185 \<or> (188 \<le> n \<and> n \<le> 190))"

record context_root =
  cr_name :: string
  cr_has_result :: bool
  cr_indexed :: bool

definition plain_root :: "string \<Rightarrow> context_root" where
  "plain_root name = \<lparr>cr_name = name, cr_has_result = False, cr_indexed = False\<rparr>"

definition reference_roots :: "context_root list" where
  "reference_roots =
     [plain_root ''input'',
      \<lparr>cr_name = ''prev'', cr_has_result = True, cr_indexed = False\<rparr>,
      \<lparr>cr_name = ''steps'', cr_has_result = True, cr_indexed = True\<rparr>,
      plain_root ''event'', plain_root ''result'', plain_root ''item'', plain_root ''index'']"

definition root_named :: "string \<Rightarrow> context_root option" where
  "root_named name = find (\<lambda>r. cr_name r = name) reference_roots"

text \<open>\<open>event_fired\<close> is the task-local \<open>EVENT_FIRED\<close>; \<open>json_at\<close> and \<open>json_nth\<close> are the indexing of a \<open>Value\<close>.\<close>

definition json_at :: "string \<Rightarrow> json \<Rightarrow> json" where
  "json_at k v = (case json_get k v of Some x \<Rightarrow> x | None \<Rightarrow> JNull)"

definition json_nth :: "nat \<Rightarrow> json \<Rightarrow> json" where
  "json_nth i v = (case as_array v of Some xs \<Rightarrow> if i < length xs then xs ! i else JNull | None \<Rightarrow> JNull)"

definition result_holder :: "json \<Rightarrow> json" where
  "result_holder r = mk_obj [(''result'', r)]"

definition step_context :: "bool \<Rightarrow> json \<Rightarrow> json option \<Rightarrow> json list \<Rightarrow> json" where
  "step_context event_fired input prev steps =
     mk_obj [(''input'', input), (''prev'', opt_json result_holder prev), (''steps'', JArr (map result_holder steps)),
             (''event'', if event_fired then json_at ''event'' input else JNull)]"

definition item_context :: "json \<Rightarrow> json \<Rightarrow> nat \<Rightarrow> json" where
  "item_context base item index =
     (case base of JObj m \<Rightarrow> JObj (obj_insert ''index'' (JInt (int index)) (obj_insert ''item'' item m)) | v \<Rightarrow> v)"

definition at_boundary :: "string \<Rightarrow> bool" where
  "at_boundary tail \<longleftrightarrow> tail = [] \<or> at_segment (hd tail)"

definition is_item_ref :: "string \<Rightarrow> bool" where
  "is_item_ref raw \<longleftrightarrow>
     list_ex (\<lambda>key. case Option.bind (strip_prefix ''$.'' raw) (strip_prefix key) of Some tail \<Rightarrow> at_boundary tail | None \<Rightarrow> False)
       [''item'', ''index'']"

definition is_event_ref :: "string \<Rightarrow> bool" where
  "is_event_ref raw \<longleftrightarrow> (case strip_prefix ''$.event'' raw of Some tail \<Rightarrow> at_boundary tail | None \<Rightarrow> False)"

definition object_keys :: "json \<Rightarrow> string list" where
  "object_keys v = (case as_object v of Some m \<Rightarrow> map fst m | None \<Rightarrow> [])"

definition accepted_prev_keys :: "string list" where
  "accepted_prev_keys = object_keys (json_at ''prev'' (step_context False JNull (Some JNull) []))"

definition accepted_step_keys :: "string list" where
  "accepted_step_keys = object_keys (json_nth 0 (json_at ''steps'' (step_context False JNull None [JNull])))"

section \<open>References\<close>

record step_ref =
  sr_predecessor_no :: nat
  sr_is_prev :: bool
  sr_prefix :: string
  sr_tokens :: "string list"

function path_tokens :: "string \<Rightarrow> string list" where
  "path_tokens [] = []"
| "path_tokens (c # cs) =
     (if c = CHR ''.'' then
        (let name = takeWhile (\<lambda>x. \<not> at_segment x) cs in
         if name = [] then [] else (c # name) # path_tokens (dropWhile (\<lambda>x. \<not> at_segment x) cs))
      else if c = CHR ''['' then
        (let rest = dropWhile (\<lambda>x. x \<noteq> CHR '']'') cs in
         if rest = [] then []
         else (c # takeWhile (\<lambda>x. x \<noteq> CHR '']'') cs @ '']'') # path_tokens (tl rest))
      else [])"
  by pat_completeness auto
termination
  by (relation "measure length")
     (auto simp: less_Suc_eq_le intro: order_trans[OF length_dropWhile_le] order_trans[OF diff_le_self])

text \<open>\<open>idx + 1\<close> wraps in a release build.\<close>

definition step_ref_parse :: "string \<Rightarrow> nat \<Rightarrow> step_ref option" where
  "step_ref_parse raw this_step_no =
     (case strip_prefix ''$.prev'' raw of
        Some rest \<Rightarrow>
          if this_step_no \<le> 1 then None
          else Some \<lparr>sr_predecessor_no = this_step_no - 1, sr_is_prev = True, sr_prefix = ''$.prev'', sr_tokens = path_tokens rest\<rparr>
      | None \<Rightarrow>
          (case strip_prefix ''$.steps['' raw of
             None \<Rightarrow> None
           | Some rest \<Rightarrow>
               (let digits = takeWhile (\<lambda>x. x \<noteq> CHR '']'') rest; after = dropWhile (\<lambda>x. x \<noteq> CHR '']'') rest in
                if after = [] then None
                else (case parse_usize digits of
                    None \<Rightarrow> None
                  | Some idx \<Rightarrow> Some \<lparr>sr_predecessor_no = wrap_u64 (idx + 1), sr_is_prev = False,
                      sr_prefix = ''$.steps['' @ show_nat idx @ '']'', sr_tokens = path_tokens (tl after)\<rparr>))))"

definition pred_index :: "step_ref \<Rightarrow> nat" where
  "pred_index r = (if sr_predecessor_no r = 0 then u64_max else sr_predecessor_no r - 1)"

definition step_ref_name :: "step_ref \<Rightarrow> nat \<Rightarrow> string option" where
  "step_ref_name r i = (if i < length (sr_tokens r) then strip_prefix ''.'' (sr_tokens r ! i) else None)"

definition accepted_keys :: "step_ref \<Rightarrow> string list" where
  "accepted_keys r = (if sr_is_prev r then accepted_prev_keys else accepted_step_keys)"

definition base_result :: "step_ref \<Rightarrow> json \<Rightarrow> json option" where
  "base_result r context =
     (let holder = (if sr_is_prev r then json_at ''prev'' context else json_nth (pred_index r) (json_at ''steps'' context))
      in case json_get ''result'' holder of Some v \<Rightarrow> if is_null v then None else Some v | None \<Rightarrow> None)"

fun rebuilt_tokens :: "nat \<Rightarrow> string list \<Rightarrow> (nat \<times> string) option \<Rightarrow> string" where
  "rebuilt_tokens i [] put = []"
| "rebuilt_tokens i (t # ts) put =
     (case put of Some (idx, name) \<Rightarrow> if idx = i then CHR ''.'' # name else t | None \<Rightarrow> t) @ rebuilt_tokens (Suc i) ts put"

definition rebuilt :: "step_ref \<Rightarrow> string list \<Rightarrow> (nat \<times> string) option \<Rightarrow> string" where
  "rebuilt r hop put = sr_prefix r @ concat (map (\<lambda>h. CHR ''.'' # h) hop) @ rebuilt_tokens 0 (sr_tokens r) put"

section \<open>Near misses\<close>

datatype string_kind = ShapePath | ShapeUnknownRoot | ShapeBare | ShapeDollar

definition split_root :: "string \<Rightarrow> string \<times> string" where
  "split_root s = (takeWhile (\<lambda>x. \<not> at_segment x) s, dropWhile (\<lambda>x. \<not> at_segment x) s)"

definition valid_token :: "string \<Rightarrow> bool" where
  "valid_token token \<longleftrightarrow>
     (case strip_prefix ''.'' token of
        Some name \<Rightarrow> name \<noteq> [] \<and> list_all (\<lambda>c. is_alphanumeric c \<or> c = CHR ''_'' \<or> c = CHR ''-'') name
      | None \<Rightarrow>
          (case Option.bind (strip_prefix ''['' token) (strip_suffix '']'') of
             Some digits \<Rightarrow> digits \<noteq> [] \<and> list_all is_ascii_digit digits
           | None \<Rightarrow> False))"

definition well_formed_tail :: "string \<Rightarrow> string list option" where
  "well_formed_tail tail =
     (let tokens = path_tokens tail in if concat tokens = tail \<and> list_all valid_token tokens then Some tokens else None)"

definition string_shape :: "string \<Rightarrow> string_kind option" where
  "string_shape s =
     (case strip_prefix ''$.'' s of
        Some rest \<Rightarrow>
          (let name = fst (split_root rest) in
           if root_named name \<noteq> None then Some ShapePath
           else if (case name of c # cs \<Rightarrow> (is_alphabetic c \<or> c = CHR ''_'') \<and> list_all (\<lambda>c. is_alphanumeric c \<or> c = CHR ''_'') cs | [] \<Rightarrow> False)
           then Some ShapeUnknownRoot else None)
      | None \<Rightarrow>
          (let (dollar, body) = (case strip_prefix ''$'' s of Some b \<Rightarrow> (True, b) | None \<Rightarrow> (False, s));
               (name, tail) = split_root body
           in case root_named name of
                None \<Rightarrow> None
              | Some cr \<Rightarrow>
                  (case well_formed_tail tail of
                     None \<Rightarrow> None
                   | Some tokens \<Rightarrow>
                       if dollar then Some ShapeDollar
                       else (let dotted = length (filter (\<lambda>t. starts_with t ''.'') tokens);
                                 shaped = cr_has_result cr \<or> (tokens \<noteq> [] \<and> starts_with (hd tokens) ''['') \<or> dotted \<ge> 2
                             in if shaped then Some ShapeBare else None))))"

definition rewrite_reference :: "string \<Rightarrow> string option" where
  "rewrite_reference raw =
     (let body = (case strip_prefix ''$.'' raw of Some b \<Rightarrow> b | None \<Rightarrow> (case strip_prefix ''$'' raw of Some b \<Rightarrow> b | None \<Rightarrow> raw));
          (name, tail) = split_root body
      in case root_named name of
           None \<Rightarrow> None
         | Some cr \<Rightarrow>
             (case well_formed_tail tail of
                None \<Rightarrow> None
              | Some tokens0 \<Rightarrow>
                  (case (if cr_indexed cr
                         then (case tokens0 of
                                 [] \<Rightarrow> None
                               | t # ts \<Rightarrow>
                                   if starts_with t ''['' then Some tokens0
                                   else if list_all is_ascii_digit (tl t) then Some ((''['' @ tl t @ '']'') # ts)
                                   else None)
                         else if cr_has_result cr \<and> tokens0 = [] then None
                         else Some tokens0) of
                     None \<Rightarrow> None
                   | Some tokens \<Rightarrow>
                       (let plain = ''$.'' @ cr_name cr @ concat tokens in
                        case (if cr_has_result cr
                              then (case step_ref_parse plain u64_max of
                                      None \<Rightarrow> None
                                    | Some r \<Rightarrow>
                                        (case step_ref_name r 0 of
                                           Some first \<Rightarrow> if first \<notin> set (accepted_keys r) then Some (rebuilt r [''result''] None) else Some plain
                                         | None \<Rightarrow> Some plain))
                              else Some plain) of
                          None \<Rightarrow> None
                        | Some rewritten \<Rightarrow> if isl (path_parse rewritten) then None else Some rewritten))))"

record near_miss_report =
  nm_path :: string
  nm_reason :: string
  nm_rewrite :: "string option"
  nm_verbatim :: bool

text \<open>A string, or the one string of a one-key object.\<close>

definition inspected :: "json \<Rightarrow> (string \<times> bool) option" where
  "inspected v =
     (case v of
        JStr s \<Rightarrow> Some (s, False)
      | JObj [(_, x)] \<Rightarrow> map_option (\<lambda>s. (s, True)) (as_str x)
      | _ \<Rightarrow> None)"

fun miss_of :: "string \<Rightarrow> bool \<Rightarrow> string_kind \<Rightarrow> near_miss_report option" where
  "miss_of s False ShapePath = None"
| "miss_of s True ShapePath = Some \<lparr>nm_path = s, nm_reason = ''path inside a literal object'', nm_rewrite = Some s, nm_verbatim = True\<rparr>"
| "miss_of s False ShapeUnknownRoot = Some \<lparr>nm_path = s, nm_reason = ''unknown root'', nm_rewrite = None, nm_verbatim = False\<rparr>"
| "miss_of s True ShapeUnknownRoot = None"
| "miss_of s wrapped _ = Some \<lparr>nm_path = s, nm_reason = ''not a path'', nm_rewrite = rewrite_reference s, nm_verbatim = False\<rparr>"

definition near_miss :: "json \<Rightarrow> near_miss_report option" where
  "near_miss v =
     (case inspected v of
        None \<Rightarrow> None
      | Some (s, wrapped) \<Rightarrow> (case string_shape s of None \<Rightarrow> None | Some sh \<Rightarrow> miss_of s wrapped sh))"

section \<open>Steps\<close>

record parsed_step =
  ps_tool :: string
  ps_args :: "(string \<times> json) list"
  ps_prev_whole :: bool
  ps_continue_on_error :: bool
  ps_for_each :: "string option"
  ps_concurrency :: "nat option"

definition wrong_json_type :: "string \<Rightarrow> string \<Rightarrow> json \<Rightarrow> kind_error" where
  "wrong_json_type site requirement got =
     (let received = plain_json_type_name got in
      KStructured ''invalid_spec'' (''invalid spec: '' @ site @ '': '' @ requirement @ '', received '' @ received)
        (mk_obj [(''field'', JStr site), (''expected'', JStr (requirement @ '', received '' @ received)), (''received_type'', JStr received)]))"

definition not_a_json_object :: "string \<Rightarrow> json \<Rightarrow> kind_error" where
  "not_a_json_object site got = wrong_json_type site ''must be a JSON object'' got"

definition step_site :: "nat \<Rightarrow> string" where
  "step_site i = ''spec.steps['' @ show_nat i @ '']''"

definition validate_retry_on :: "nat \<Rightarrow> json \<Rightarrow> kind_error option" where
  "validate_retry_on i retry =
     (case Option.bind (json_get ''on'' retry) as_array of
        None \<Rightarrow> Some (KInvalidSpec (step_site i @ ''.retry.on: must be an array of error codes''))
      | Some on_codes \<Rightarrow>
          (let refused = concat (map (\<lambda>c. case as_str c of
                   Some rc \<Rightarrow> if is_retryable_code rc then [] else [rc]
                 | None \<Rightarrow> [''<non-string>'']) on_codes)
           in if refused = [] then None
              else Some (KStructured ''invalid_spec''
                (step_site i @ ''.retry.on: '' @ join '', '' refused @ '' not retryable; accepted codes are listed in data.accepted'')
                (mk_obj [(''step'', JInt (int i + 1)), (''field'', JStr (''steps['' @ show_nat i @ ''].retry.on'')),
                         (''refused'', JStrs refused), (''accepted'', JStrs retryable_codes)]))))"

text \<open>One turn of the loop of \<open>parse_steps\<close>, split at its early returns.\<close>

definition parse_step_args :: "nat \<Rightarrow> (string \<times> json) list \<Rightarrow> kind_error + (string \<times> json) list \<times> bool" where
  "parse_step_args i step_obj =
     (case map_of step_obj ''args'' of
        None \<Rightarrow> Inr ([], False)
      | Some (JObj m) \<Rightarrow> Inr (m, False)
      | Some other \<Rightarrow>
          if other = JStr ''$.prev'' \<and> i > 0 then Inr ([], True)
          else Inl (wrong_json_type (step_site i @ ''.args'')
            (''must be a JSON object, or the string '' @ debug_str ''$.prev'' @ '' on a step after the first'') other))"

definition parse_on_error :: "nat \<Rightarrow> (string \<times> json) list \<Rightarrow> kind_error + bool" where
  "parse_on_error i step_obj =
     (case map_of step_obj ''on_error'' of
        None \<Rightarrow> Inr False
      | Some v \<Rightarrow>
          if v = JStr ''stop'' then Inr False
          else if v = JStr ''continue'' then Inr True
          else Inl (KInvalidSpec (step_site i @ ''.on_error: must be '' @ debug_str ''stop'' @ '' or '' @ debug_str ''continue'')))"

definition parse_for_each :: "nat \<Rightarrow> (string \<times> json) list \<Rightarrow> kind_error + string option" where
  "parse_for_each i step_obj =
     (case map_of step_obj ''for_each'' of
        None \<Rightarrow> Inr None
      | Some v \<Rightarrow>
          (case as_str v of
             Some s \<Rightarrow> if isl (path_parse s)
               then Inl (KInvalidSpec (step_site i @ ''.for_each: must be a mapping path string such as '' @ debug_str ''$.prev.result.items''))
               else Inr (Some s)
           | None \<Rightarrow> Inl (KInvalidSpec (step_site i @ ''.for_each: must be a mapping path string such as '' @ debug_str ''$.prev.result.items''))))"

definition parse_concurrency :: "nat \<Rightarrow> (string \<times> json) list \<Rightarrow> string option \<Rightarrow> kind_error + nat option" where
  "parse_concurrency i step_obj for_each =
     (case map_of step_obj ''concurrency'' of
        None \<Rightarrow> Inr None
      | Some v \<Rightarrow>
          if for_each = None then Inl (KInvalidSpec (step_site i @ ''.concurrency: only a for_each step may set it''))
          else (case as_u64 v of
              Some n \<Rightarrow> if n \<ge> 1 then Inr (Some n) else Inl (KInvalidSpec (step_site i @ ''.concurrency: must be an integer of at least 1''))
            | None \<Rightarrow> Inl (KInvalidSpec (step_site i @ ''.concurrency: must be an integer of at least 1''))))"

definition first_item_ref :: "(string \<times> json) list \<Rightarrow> string option" where
  "first_item_ref args = Option.bind (find (\<lambda>(_, v). case as_str v of Some s \<Rightarrow> is_item_ref s | None \<Rightarrow> False) args) (\<lambda>(_, v). as_str v)"

definition parse_chain_step :: "nat \<Rightarrow> json \<Rightarrow> kind_error + parsed_step" where
  "parse_chain_step i raw =
     (case as_object raw of
        None \<Rightarrow> Inl (not_a_json_object (step_site i) raw)
      | Some step_obj \<Rightarrow>
     (case Option.bind (map_of step_obj ''tool'') as_str of
        None \<Rightarrow> Inl (KInvalidSpec (step_site i @ ''.tool: is required''))
      | Some tool \<Rightarrow>
     (case parse_step_args i step_obj of Inl e \<Rightarrow> Inl e | Inr (args, prev_whole) \<Rightarrow>
     (case parse_on_error i step_obj of Inl e \<Rightarrow> Inl e | Inr continue_on_error \<Rightarrow>
     (case Option.bind (map_of step_obj ''retry'') (validate_retry_on i) of Some e \<Rightarrow> Inl e | None \<Rightarrow>
     (case parse_for_each i step_obj of Inl e \<Rightarrow> Inl e | Inr for_each \<Rightarrow>
     (case parse_concurrency i step_obj for_each of Inl e \<Rightarrow> Inl e | Inr concurrency \<Rightarrow>
        (case (if for_each = None then first_item_ref args else None) of
           Some r \<Rightarrow> Inl (KStructured ''compose_item_outside_for_each''
             (step_site i @ '': '' @ [CHR 0x27] @ r @ [CHR 0x27] @ '' is only available inside a step that declares for_each'')
             (mk_obj [(''step'', JInt (int i + 1)), (''path'', JStr r)]))
         | None \<Rightarrow>
             if prev_whole \<and> for_each \<noteq> None
             then Inl (KInvalidSpec (step_site i @ ''.args: '' @ debug_str ''$.prev'' @ '' cannot be combined with for_each''))
             else Inr \<lparr>ps_tool = tool, ps_args = args, ps_prev_whole = prev_whole, ps_continue_on_error = continue_on_error,
                       ps_for_each = for_each, ps_concurrency = concurrency\<rparr>))))))))"

fun parse_step_list :: "nat \<Rightarrow> json list \<Rightarrow> kind_error + parsed_step list" where
  "parse_step_list i [] = Inr []"
| "parse_step_list i (raw # raws) =
     (case parse_chain_step i raw of
        Inl e \<Rightarrow> Inl e
      | Inr step \<Rightarrow> (case parse_step_list (Suc i) raws of Inl e \<Rightarrow> Inl e | Inr steps \<Rightarrow> Inr (step # steps)))"

definition parse_steps :: "json \<Rightarrow> kind_error + parsed_step list" where
  "parse_steps spec =
     (case as_object spec of
        None \<Rightarrow> Inl (not_a_json_object ''spec'' spec)
      | Some obj \<Rightarrow>
          (case map_of obj ''steps'' of
             None \<Rightarrow> Inl (KInvalidSpec ''spec.steps: is required'')
           | Some v \<Rightarrow>
               (case as_array v of
                  None \<Rightarrow> Inl (KInvalidSpec ''spec.steps: must be an array'')
                | Some raws \<Rightarrow>
                    if raws = [] then Inl (KInvalidSpec ''spec.steps: must have at least one step'')
                    else parse_step_list 0 raws)))"

definition chain_validate :: "(json \<Rightarrow> string) \<Rightarrow> json \<Rightarrow> kind_error option" where
  "chain_validate print spec =
     (case parse_steps spec of
        Inl e \<Rightarrow> Some e
      | Inr _ \<Rightarrow> (case spec_declared_outputs print spec of Inl e \<Rightarrow> Some e | Inr _ \<Rightarrow> None))"

section \<open>Inputs\<close>

record input_ref =
  ir_name :: string
  ir_step_no :: nat
  ir_tool :: string

definition input_arg_name :: "string \<Rightarrow> string option" where
  "input_arg_name raw =
     (case strip_prefix ''$.input.'' raw of
        None \<Rightarrow> None
      | Some rest \<Rightarrow> (let name = takeWhile (\<lambda>x. \<not> at_segment x) rest in if name = [] then None else Some name))"

text \<open>The mappings of a step: the string values of its arguments, then its \<open>for_each\<close> path.\<close>

definition step_mappings :: "parsed_step \<Rightarrow> string list" where
  "step_mappings step =
     List.map_filter (\<lambda>(_, v). as_str v) (ps_args step) @ (case ps_for_each step of Some p \<Rightarrow> [p] | None \<Rightarrow> [])"

fun input_refs_from :: "string set \<Rightarrow> (nat \<times> string \<times> string) list \<Rightarrow> input_ref list" where
  "input_refs_from seen [] = []"
| "input_refs_from seen ((step_no, tool, s) # rest) =
     (case input_arg_name s of
        None \<Rightarrow> input_refs_from seen rest
      | Some name \<Rightarrow>
          if name \<in> seen then input_refs_from seen rest
          else \<lparr>ir_name = name, ir_step_no = step_no, ir_tool = tool\<rparr> # input_refs_from (insert name seen) rest)"

definition numbered :: "'a list \<Rightarrow> (nat \<times> 'a) list" where
  "numbered steps = zip [1..<Suc (length steps)] steps"

definition collect_input_refs :: "parsed_step list \<Rightarrow> input_ref list" where
  "collect_input_refs steps =
     input_refs_from {} (concat (map (\<lambda>(n, step). map (\<lambda>s. (n, ps_tool step, s)) (step_mappings step)) (numbered steps)))"

definition chain_input_schema :: "parsed_step list \<Rightarrow> json" where
  "chain_input_schema steps =
     (let refs = collect_input_refs steps in
      if refs = [] then mk_obj [(''type'', JStr ''object'')]
      else mk_obj [(''type'', JStr ''object''), (''properties'', mk_obj (map (\<lambda>r. (ir_name r, mk_obj [])) refs)),
                   (''required'', JStrs (map ir_name refs))])"

text \<open>The refusal of a call that misses an input.\<close>

definition missing_inputs :: "parsed_step list \<Rightarrow> json \<Rightarrow> input_ref list" where
  "missing_inputs steps args = filter (\<lambda>r. json_get (ir_name r) args = None) (collect_input_refs steps)"

definition input_missing_error :: "string option \<Rightarrow> input_ref list \<Rightarrow> kind_error" where
  "input_missing_error tool_name missing =
     KStructured ''compose_input_missing''
       (''chain '' @ [CHR 0x27] @ (case tool_name of Some t \<Rightarrow> t | None \<Rightarrow> ''chain'') @ [CHR 0x27] @ '' needs input(s) [''
         @ join '', '' (map ir_name missing) @ ''] (used by step '' @ show_nat (ir_step_no (hd missing)) @ '' '' @ [CHR 0x27]
         @ ir_tool (hd missing) @ [CHR 0x27] @ '')'')
       (mk_obj [(''missing'', JStrs (map ir_name missing)), (''step'', JInt (int (ir_step_no (hd missing)))), (''tool'', JStr (ir_tool (hd missing)))])"

text \<open>\<open>resolve_args\<close>: the arguments of a step, or the path that resolves to nothing.\<close>

fun resolve_arg_list :: "(string \<times> json) list \<Rightarrow> json \<Rightarrow> string + (string \<times> json) list" where
  "resolve_arg_list [] context = Inr []"
| "resolve_arg_list ((k, v) # kvs) context =
     (case (case v of
              JStr s \<Rightarrow> if starts_with s ''$.'' then (case value_at s context of Some x \<Rightarrow> Inr x | None \<Rightarrow> Inl s) else Inr v
            | _ \<Rightarrow> Inr v) of
        Inl bad \<Rightarrow> Inl bad
      | Inr x \<Rightarrow> (case resolve_arg_list kvs context of Inl bad \<Rightarrow> Inl bad | Inr out \<Rightarrow> Inr (obj_insert k x out)))"

definition resolve_args :: "(string \<times> json) list \<Rightarrow> json \<Rightarrow> string + json" where
  "resolve_args raw context = (case resolve_arg_list raw context of Inl bad \<Rightarrow> Inl bad | Inr m \<Rightarrow> Inr (JObj m))"

section \<open>What is known of a tool\<close>

record observed_outputs =
  oo_keys :: "(string \<times> string) list"
  oo_runs_sampled :: int

definition OBSERVED_KEYS_CAP :: nat where
  "OBSERVED_KEYS_CAP = 64"

definition observed_shape :: "json \<Rightarrow> (string \<times> string) list" where
  "observed_shape result =
     (case as_object result of
        None \<Rightarrow> []
      | Some m \<Rightarrow>
          take OBSERVED_KEYS_CAP
            (fold (\<lambda>(k, v) out.
               fold (\<lambda>(sk, sv). obj_insert (k @ ''.'' @ sk) (plain_json_type_name sv))
                 (case v of JObj sub \<Rightarrow> sub | _ \<Rightarrow> []) (obj_insert k (plain_json_type_name v) out)) m []))"

text \<open>\<open>merge_observed_outputs\<close> on the stored value (its \<open>last_unix\<close> is read by nothing here).\<close>

definition merge_observed_outputs :: "observed_outputs option \<Rightarrow> (string \<times> string) list \<Rightarrow> observed_outputs" where
  "merge_observed_outputs prior shape =
     (let o0 = (case prior of Some p \<Rightarrow> p | None \<Rightarrow> \<lparr>oo_keys = [], oo_runs_sampled = 0\<rparr>) in
      \<lparr>oo_keys = fold (\<lambda>(k, ty) keys. if length keys \<ge> OBSERVED_KEYS_CAP \<and> map_of keys k = None then keys else obj_insert k ty keys)
         shape (oo_keys o0),
       oo_runs_sampled = oo_runs_sampled o0 + 1\<rparr>)"

record tool_lookup =
  tl_declared :: "string \<Rightarrow> string list option"
  tl_observed :: "string \<Rightarrow> observed_outputs option"

record path_basis =
  pb_names :: "string list"
  pb_array_names :: "string list"
  pb_source :: string
  pb_types :: "(string \<times> string) list"
  pb_runs_sampled :: "int option"
  pb_drift :: "string list"

definition path_basis_of :: "tool_lookup \<Rightarrow> string \<Rightarrow> bool \<Rightarrow> path_basis option" where
  "path_basis_of lookup tool use_observed =
     (let declared = (case tl_declared lookup tool of Some d \<Rightarrow> d | None \<Rightarrow> []);
          observed = (if use_observed then tl_observed lookup tool else None);
          types = (case observed of Some ob \<Rightarrow> filter (\<lambda>(k, _). \<not> str_contains CHR ''.'' k) (oo_keys ob) | None \<Rightarrow> []);
          observed_top = map fst types;
          runs = map_option oo_runs_sampled observed
      in if declared \<noteq> []
         then Some \<lparr>pb_names = declared, pb_array_names = [], pb_source = ''declared'', pb_types = types, pb_runs_sampled = runs,
                pb_drift = (if observed \<noteq> None then filter (\<lambda>d. d \<notin> set observed_top) declared else [])\<rparr>
         else if observed = None \<or> observed_top = [] then None
         else Some \<lparr>pb_names = observed_top, pb_array_names = map fst (filter (\<lambda>(_, t). t = ''array'') types), pb_source = ''observed'',
                pb_types = types, pb_runs_sampled = runs, pb_drift = []\<rparr>)"

text \<open>The nearest name within two edits; of equals the smaller.\<close>

fun closest :: "string \<Rightarrow> string list \<Rightarrow> (nat \<times> string) option" where
  "closest name [] = None"
| "closest name (k # ks) =
     (let d = levenshtein name k; rest = closest name ks in
      if d > 2 then rest
      else case rest of
        None \<Rightarrow> Some (d, k)
      | Some (d', k') \<Rightarrow> if d < d' \<or> (d = d' \<and> k \<le> k') then Some (d, k) else rest)"

definition closest_name :: "string \<Rightarrow> string list \<Rightarrow> string option" where
  "closest_name name known = map_option snd (closest name known)"

definition suggest :: "path_basis \<Rightarrow> string \<Rightarrow> string option" where
  "suggest b name =
     (if name \<in> set (pb_names b) then None
      else case closest_name name (pb_names b) of
        Some near \<Rightarrow> Some near
      | None \<Rightarrow> (case pb_array_names b of [a] \<Rightarrow> Some a | _ \<Rightarrow> None))"

definition observed_field_type :: "tool_lookup \<Rightarrow> string \<Rightarrow> step_ref \<Rightarrow> bool \<Rightarrow> string option" where
  "observed_field_type lookup predecessor_tool r use_observed =
     (case step_ref_name r 0 of
        None \<Rightarrow> None
      | Some first \<Rightarrow>
          if length (sr_tokens r) \<noteq> 2 \<or> first \<notin> set (accepted_keys r) then None
          else (case path_basis_of lookup predecessor_tool use_observed of
              None \<Rightarrow> None
            | Some b \<Rightarrow> Option.bind (step_ref_name r 1) (map_of (pb_types b))))"

datatype ref_check = RefPass | RefWillFail "(string \<times> json) list" | RefUnverifiable

definition basis_evidence :: "path_basis option \<Rightarrow> (string \<times> json) list" where
  "basis_evidence basis =
     (case basis of
        None \<Rightarrow> []
      | Some b \<Rightarrow>
          fold (\<lambda>(k, v). obj_insert k v)
            ([(''available'', JStrs (pb_names b)), (''predecessor_keys'', JStrs (pb_names b))]
             @ (if pb_source b = ''observed'' \<or> pb_runs_sampled b \<noteq> None then [(''prev_fields_source'', JStr (pb_source b))] else [])
             @ (case pb_runs_sampled b of Some n \<Rightarrow> [(''runs_sampled'', JInt n)] | None \<Rightarrow> [])) [])"

definition check_step_ref :: "tool_lookup option \<Rightarrow> string \<Rightarrow> step_ref \<Rightarrow> bool \<Rightarrow> ref_check" where
  "check_step_ref lookup predecessor_tool r use_observed =
     (let basis = Option.bind lookup (\<lambda>l. path_basis_of l predecessor_tool use_observed); evidence = basis_evidence basis in
      case step_ref_name r 0 of
        None \<Rightarrow> RefUnverifiable
      | Some first \<Rightarrow>
          if first \<notin> set (accepted_keys r)
          then RefWillFail (obj_insert ''did_you_mean''
            (JStr (rebuilt r [''result'']
              (case Option.bind basis (\<lambda>b. suggest b first) of Some near \<Rightarrow> Some (0, near) | None \<Rightarrow> None))) evidence)
          else (case step_ref_name r 1 of
              None \<Rightarrow> if basis = None then RefUnverifiable else RefPass
            | Some field \<Rightarrow>
                (case basis of
                   None \<Rightarrow> RefUnverifiable
                 | Some b \<Rightarrow>
                     if field \<in> set (pb_names b) \<or> field \<in> set ENVELOPE_WRAPPER_KEYS then RefPass
                     else RefWillFail (case suggest b field of
                         Some near \<Rightarrow> obj_insert ''did_you_mean'' (JStr (rebuilt r [] (Some (1, near)))) evidence
                       | None \<Rightarrow> evidence))))"

definition accepted_rewrite ::
  "tool_lookup option \<Rightarrow> parsed_step list \<Rightarrow> nat \<Rightarrow> string option \<Rightarrow> bool \<Rightarrow> bool \<Rightarrow> json" where
  "accepted_rewrite lookup steps step_no rewrite verbatim use_observed =
     (case rewrite of
        None \<Rightarrow> JNull
      | Some rw \<Rightarrow>
          (let name = fst (split_root (case strip_prefix ''$.'' rw of Some b \<Rightarrow> b | None \<Rightarrow> rw)) in
           if \<not> (case root_named name of Some cr \<Rightarrow> cr_has_result cr | None \<Rightarrow> False) then JStr rw
           else (case step_ref_parse rw step_no of
               None \<Rightarrow> JNull
             | Some r \<Rightarrow>
                 if sr_predecessor_no r \<ge> step_no then JNull
                 else if sr_tokens r = [] \<or> verbatim then JStr rw
                 else if pred_index r \<ge> length steps then JNull
                 else (case check_step_ref lookup (ps_tool (steps ! pred_index r)) r use_observed of
                     RefWillFail extra \<Rightarrow> (case map_of extra ''did_you_mean'' of Some v \<Rightarrow> v | None \<Rightarrow> JNull)
                   | _ \<Rightarrow> JStr rw))))"

section \<open>The verdict\<close>

record verdict_state =
  vs_failures :: "json list"
  vs_unverifiable_step :: "nat option"
  vs_event_ref :: "(nat \<times> string) option"
  vs_passes :: "(nat \<times> string) set"

definition check_near_miss ::
  "tool_lookup option \<Rightarrow> parsed_step list \<Rightarrow> bool \<Rightarrow> nat \<Rightarrow> json \<Rightarrow> verdict_state \<Rightarrow> verdict_state" where
  "check_near_miss lookup steps use_observed step_no value vs =
     (case near_miss value of
        None \<Rightarrow> vs
      | Some nm \<Rightarrow>
          vs\<lparr>vs_failures := vs_failures vs @
            [mk_obj [(''step'', JInt (int step_no)), (''path'', JStr (nm_path nm)), (''reason'', JStr (nm_reason nm)),
               (''did_you_mean'', accepted_rewrite lookup steps step_no (nm_rewrite nm) (nm_verbatim nm) use_observed)]]\<rparr>)"

text \<open>One mapping: what the check of the reference says, and for a \<open>for_each\<close> path whether it was seen to be an array.\<close>

definition checked_mapping :: "tool_lookup option \<Rightarrow> string \<Rightarrow> step_ref \<Rightarrow> string \<Rightarrow> bool \<Rightarrow> bool \<Rightarrow> ref_check" where
  "checked_mapping lookup predecessor_tool r raw wants_array use_observed =
     (let checked = check_step_ref lookup predecessor_tool r use_observed in
      case (if wants_array then Option.bind lookup (\<lambda>l. observed_field_type l predecessor_tool r use_observed) else None) of
        Some actual \<Rightarrow>
          (case checked of
             RefWillFail _ \<Rightarrow> checked
           | _ \<Rightarrow>
               if actual \<noteq> ''array''
               then RefWillFail (fold (\<lambda>(k, v). obj_insert k v)
                      [(''expected'', JStr ''array''), (''actual'', JStr actual),
                       (''reason'', JStr (''for_each needs an array but '' @ raw @ '' is '' @ actual))] [])
               else checked)
      | None \<Rightarrow> checked)"

definition check_mapping ::
  "tool_lookup option \<Rightarrow> parsed_step list \<Rightarrow> bool \<Rightarrow> nat \<Rightarrow> string \<times> bool \<Rightarrow> verdict_state \<Rightarrow> verdict_state" where
  "check_mapping lookup steps use_observed step_no m vs0 =
     (let (raw, wants_array) = m;
          vs = (if is_event_ref raw \<and> vs_event_ref vs0 = None then vs0\<lparr>vs_event_ref := Some (step_no, raw)\<rparr> else vs0)
      in case step_ref_parse raw step_no of
           None \<Rightarrow> vs
         | Some r \<Rightarrow>
             if sr_tokens r = [] then vs
             else if sr_predecessor_no r \<ge> step_no
             then vs\<lparr>vs_failures := vs_failures vs @
               [mk_obj [(''step'', JInt (int step_no)), (''path'', JStr raw), (''reason'', JStr ''forward reference''), (''available'', JArr [])]]\<rparr>
             else if pred_index r \<ge> length steps then vs
             else (case checked_mapping lookup (ps_tool (steps ! pred_index r)) r raw wants_array use_observed of
                 RefPass \<Rightarrow> vs\<lparr>vs_passes := insert (step_no, raw) (vs_passes vs)\<rparr>
               | RefWillFail extra \<Rightarrow>
                   vs\<lparr>vs_failures := vs_failures vs @
                     [JObj (fold (\<lambda>(k, v). obj_insert k v) ([(''step'', JInt (int step_no)), (''path'', JStr raw)] @ extra) [])]\<rparr>
               | RefUnverifiable \<Rightarrow>
                   if vs_unverifiable_step vs = None then vs\<lparr>vs_unverifiable_step := Some (sr_predecessor_no r)\<rparr> else vs))"

definition check_step :: "tool_lookup option \<Rightarrow> parsed_step list \<Rightarrow> bool \<Rightarrow> nat \<times> parsed_step \<Rightarrow> verdict_state \<Rightarrow> verdict_state" where
  "check_step lookup steps use_observed ns vs =
     (let (step_no, step) = ns in
      fold (check_mapping lookup steps use_observed step_no)
        (map (\<lambda>raw. (raw, False)) (List.map_filter (\<lambda>(_, v). as_str v) (ps_args step))
           @ (case ps_for_each step of Some p \<Rightarrow> [(p, True)] | None \<Rightarrow> []))
        (fold (\<lambda>(_, v). check_near_miss lookup steps use_observed step_no v) (ps_args step) vs))"

definition steps_state :: "tool_lookup option \<Rightarrow> parsed_step list \<Rightarrow> bool \<Rightarrow> verdict_state" where
  "steps_state lookup steps use_observed =
     fold (check_step lookup steps use_observed) (numbered steps)
       \<lparr>vs_failures = [], vs_unverifiable_step = None, vs_event_ref = None, vs_passes = {}\<rparr>"

definition overall_verdict :: "verdict_state \<Rightarrow> json" where
  "overall_verdict vs =
     (if vs_failures vs \<noteq> []
      then mk_obj [(''verdict'', JStr ''will_fail''), (''failures'', JArr (vs_failures vs)), (''evidence'', JArr (vs_failures vs))]
      else case vs_event_ref vs of
        Some (step_no, path) \<Rightarrow>
          mk_obj [(''verdict'', JStr ''unverifiable''),
            (''reason'', JStr (''step '' @ show_nat step_no @ '': '' @ [CHR 0x27] @ path @ [CHR 0x27]
               @ '' resolves only when an event or webhook trigger fires this chain (trigger kind: event, delivery shape {headers, body, received_unix}); a manual call has $.event = null'')),
            (''next'', mk_obj [(''tool'', JStr ''host_trigger_set''), (''kind'', JStr ''event'')])]
      | None \<Rightarrow>
          (case vs_unverifiable_step vs of
             Some predecessor_no \<Rightarrow>
               mk_obj [(''verdict'', JStr ''unverifiable''), (''reason'', JStr (''no output schema for step '' @ show_nat predecessor_no)),
                       (''next'', mk_obj [(''tool'', JStr ''host_tool_call'')])]
           | None \<Rightarrow> mk_obj [(''verdict'', JStr ''pass'')]))"

text \<open>\<open>verdict\<close>: the gate of \<open>host.tool_publish\<close>.\<close>

definition chain_verdict :: "tool_lookup \<Rightarrow> json \<Rightarrow> json" where
  "chain_verdict lookup spec =
     (case parse_steps spec of
        Inl _ \<Rightarrow> mk_obj [(''verdict'', JStr ''unverifiable''), (''reason'', JStr ''spec does not parse'')]
      | Inr steps \<Rightarrow>
          (let overall = overall_verdict (steps_state (Some lookup) steps True) in
           if json_get ''verdict'' overall = Some (JStr ''unverifiable'')
           then (case overall of JObj m \<Rightarrow> JObj (obj_insert ''next'' (mk_obj [(''tool'', JStr ''host.tool_test'')]) m) | v \<Rightarrow> v)
           else overall))"

definition prev_fields_entry :: "tool_lookup \<Rightarrow> parsed_step list \<Rightarrow> nat \<Rightarrow> json" where
  "prev_fields_entry lookup steps i =
     (case path_basis_of lookup (ps_tool (steps ! (i - 1))) True of
        None \<Rightarrow>
          mk_obj [(''step'', JInt (int i + 1)), (''tool'', JStr (ps_tool (steps ! i))), (''prev_fields'', JNull),
            (''hint'', JStr ''predecessor declares no outputs and has no completed run; host.tool_test reports prev_fields from its dry-run result''),
            (''next'', mk_obj [(''tool'', JStr ''host.tool_test'')])]
      | Some b \<Rightarrow>
          mk_obj ([(''step'', JInt (int i + 1)), (''tool'', JStr (ps_tool (steps ! i))), (''prev_fields'', JStrs (pb_names b)), (''prev_fields_source'', JStr (pb_source b))]
            @ (case pb_runs_sampled b of
                 None \<Rightarrow> []
               | Some n \<Rightarrow> [(''runs_sampled'', JInt n)] @ (if pb_source b = ''declared'' then [(''observed_drift'', JStrs (pb_drift b))] else []))))"

definition chain_prev_fields :: "tool_lookup \<Rightarrow> json \<Rightarrow> json" where
  "chain_prev_fields lookup spec =
     (case parse_steps spec of
        Inl _ \<Rightarrow> JArr []
      | Inr steps \<Rightarrow> JArr (map (prev_fields_entry lookup steps) [1..<length steps]))"

section \<open>The tools of the steps\<close>

definition HOST_STEPS_ALLOWED :: "string list" where
  "HOST_STEPS_ALLOWED =
     [''host.table.append'', ''host.table.query'', ''host.table.create'', ''host.state.get'', ''host.state.set'', ''host.state.delete'',
      ''host.channel.post'', ''host.msg.send'', ''host.docs.put'', ''host.docs.search'', ''host.tool_call'']"

text \<open>\<open>sort_by\<close> is stable; the names of a tenant are distinct.\<close>

fun insert_scored :: "nat \<times> string \<Rightarrow> (nat \<times> string) list \<Rightarrow> (nat \<times> string) list" where
  "insert_scored x [] = [x]"
| "insert_scored (d, n) ((d', n') # ys) =
     (if d < d' \<or> (d = d' \<and> n \<le> n') then (d, n) # (d', n') # ys else (d', n') # insert_scored (d, n) ys)"

definition nearest_sibling_names :: "string \<Rightarrow> string list \<Rightarrow> string list" where
  "nearest_sibling_names name tenant_names =
     map snd (take 3 (foldr insert_scored (map (\<lambda>n. (levenshtein name n, n)) tenant_names) []))"

definition resolve_step_tool :: "string list \<Rightarrow> nat \<Rightarrow> string \<Rightarrow> app_error option" where
  "resolve_step_tool tenant_names step_no tool =
     (if tool \<in> set tenant_names then None
      else if tool \<in> set HOST_STEPS_ALLOWED then None
      else if starts_with tool ''host.'' \<or> starts_with tool ''billing.''
      then Some (Structured ''step_tool_not_allowed''
        (''step '' @ show_nat step_no @ '' ('' @ [CHR 0x27] @ tool @ [CHR 0x27] @ ''): not an allowlisted host step; allowed: '' @ join '', '' HOST_STEPS_ALLOWED)
        (mk_obj [(''step'', JInt (int step_no)), (''name'', JStr tool), (''allowed'', JStrs HOST_STEPS_ALLOWED)]))
      else Some (Structured ''step_tool_not_found''
        (''step '' @ show_nat step_no @ '' ('' @ [CHR 0x27] @ tool @ [CHR 0x27] @ ''): no such tool'')
        (mk_obj [(''step'', JInt (int step_no)), (''name'', JStr tool), (''suggestions'', JStrs (nearest_sibling_names tool tenant_names))])))"

fun first_refusal :: "('a \<Rightarrow> 'e option) \<Rightarrow> 'a list \<Rightarrow> 'e option" where
  "first_refusal f [] = None"
| "first_refusal f (x # xs) = (case f x of Some e \<Rightarrow> Some e | None \<Rightarrow> first_refusal f xs)"

definition resolve_steps :: "string list \<Rightarrow> json \<Rightarrow> app_error option" where
  "resolve_steps tenant_names spec =
     (case parse_steps spec of
        Inl e \<Rightarrow> Some (app_of_kind e)
      | Inr steps \<Rightarrow> first_refusal (\<lambda>(step_no, step). resolve_step_tool tenant_names step_no (ps_tool step)) (numbered steps))"

section \<open>Lemmas on references\<close>

lemma strip_prefix_iff: "strip_prefix p s = Some r \<longleftrightarrow> s = p @ r"
  by (auto simp: strip_prefix_def starts_with_iff)

lemma strip_prefix_append [simp]: "strip_prefix p (p @ r) = Some r"
  by (simp add: strip_prefix_iff)

lemma accepted_keys_result [simp]: "accepted_keys r = [''result'']"
  by (simp add: accepted_keys_def accepted_prev_keys_def accepted_step_keys_def object_keys_def json_at_def json_nth_def
      step_context_def opt_json_def result_holder_def mk_obj_def)

lemma split_root_append:
  "list_all (\<lambda>x. \<not> at_segment x) name \<Longrightarrow> at_boundary tail \<Longrightarrow> split_root (name @ tail) = (name, tail)"
  unfolding split_root_def at_boundary_def using takeWhile_all[of "\<lambda>x. \<not> at_segment x" name tail] by auto

lemma root_name: "root_named name = Some cr \<Longrightarrow> cr_name cr = name \<and> list_all (\<lambda>x. \<not> at_segment x) name"
proof -
  assume "root_named name = Some cr"
  then have "cr \<in> set reference_roots" "cr_name cr = name" by (auto simp: root_named_def dest: find_hit)
  then show ?thesis by (auto simp: reference_roots_def plain_root_def at_segment_def)
qed

lemma root_kind: "root_named name = Some cr \<Longrightarrow> (cr_has_result cr \<longleftrightarrow> name = ''prev'' \<or> name = ''steps'') \<and> (cr_indexed cr \<longleftrightarrow> name = ''steps'')"
proof -
  assume "root_named name = Some cr"
  then have "cr \<in> set reference_roots" "cr_name cr = name" by (auto simp: root_named_def dest: find_hit)
  then show ?thesis by (auto simp: reference_roots_def plain_root_def)
qed

lemma token_hd: "list_all valid_token ts \<Longrightarrow> at_boundary (concat ts)"
proof (cases ts)
  case (Cons t ts')
  assume "list_all valid_token ts"
  then have "valid_token t" using Cons by simp
  then have "\<exists>c u. t = c # u \<and> at_segment c"
    by (auto simp: valid_token_def strip_prefix_iff at_segment_def split: option.splits bind_splits)
  then show ?thesis using Cons by (auto simp: at_boundary_def)
qed (simp add: at_boundary_def)

lemma shape_path: "list_all (\<lambda>x. \<not> at_segment x) name \<Longrightarrow> at_boundary tail \<Longrightarrow> root_named name \<noteq> None \<Longrightarrow>
    string_shape (''$.'' @ name @ tail) = Some ShapePath"
  using split_root_append[of name tail] strip_prefix_append[of "''$.''" "name @ tail"] by (simp add: string_shape_def Let_def)

lemma tokens_boundary: "path_tokens s \<noteq> [] \<Longrightarrow> s \<noteq> [] \<and> at_segment (hd s)"
  by (cases s) (auto simp: at_segment_def split: if_splits)

definition token_of :: "string \<Rightarrow> path_segment \<Rightarrow> bool" where
  "token_of t seg = (case seg of PKey k \<Rightarrow> t = CHR ''.'' # k | PIndex i \<Rightarrow> \<exists>ds. t = CHR ''['' # ds @ '']'' \<and> parse_usize ds = Some i)"

lemma tokens_of_segments: "parse_segments s = Some segs \<Longrightarrow> list_all2 token_of (path_tokens s) segs"
proof (induction s arbitrary: segs rule: parse_segments.induct)
  case (2 c cs)
  show ?case
  proof (cases "c = CHR ''.''")
    case True
    with 2 show ?thesis by (auto simp: Let_def token_of_def split: if_splits)
  next
    case False
    with 2 show ?thesis by (auto simp: Let_def token_of_def split: if_splits option.splits)
  qed
qed simp

text \<open>The part of the context a reference reads from, and what follows it in the path.\<close>

definition ref_holder :: "step_ref \<Rightarrow> json \<Rightarrow> json option" where
  "ref_holder r context =
     (if sr_is_prev r then json_get ''prev'' context
      else Option.bind (Option.bind (json_get ''steps'' context) as_array) (\<lambda>xs. if pred_index r < length xs then Some (xs ! pred_index r) else None))"

lemma parse_key_then:
  assumes "list_all (\<lambda>x. \<not> at_segment x) k" "at_boundary rest" "parse_segments (CHR ''.'' # k @ rest) = Some segs"
  shows "\<exists>segs'. segs = PKey k # segs' \<and> parse_segments rest = Some segs'"
  using assms takeWhile_all[of "\<lambda>x. \<not> at_segment x" k rest] by (auto simp: at_boundary_def Let_def split: if_splits)

lemma ref_value:
  assumes parse: "path_parse raw = Inr p" and r: "step_ref_parse raw n = Some r" and ne: "sr_tokens r \<noteq> []"
  obtains segs where "list_all2 token_of (sr_tokens r) segs"
    "\<And>ctx. value_at raw ctx = Option.bind (ref_holder r ctx) (resolve_segments segs)"
proof -
  from parse obtain rest where raw: "raw = CHR ''$'' # rest" and ps: "parse_segments rest = Some (path_segments p)"
    by (auto simp: path_parse_def split: list.splits if_splits option.splits)
  have val: "value_at raw ctx = resolve_segments (path_segments p) ctx" for ctx
    using parse by (simp add: value_at_def path_resolve_def)
  show ?thesis
  proof (cases "strip_prefix ''$.prev'' raw")
    case (Some tail)
    then have tail: "raw = ''$.prev'' @ tail" by (simp add: strip_prefix_iff)
    with Some r have toks: "sr_tokens r = path_tokens tail" "sr_is_prev r" by (auto simp: step_ref_parse_def split: if_splits)
    then have "at_boundary tail" using ne tokens_boundary[of tail] by (simp add: at_boundary_def)
    then obtain segs' where s: "path_segments p = PKey ''prev'' # segs'" "parse_segments tail = Some segs'"
      using parse_key_then[of "''prev''" tail "path_segments p"] ps tail raw by (auto simp: at_segment_def)
    show ?thesis
    proof (rule that)
      show "list_all2 token_of (sr_tokens r) segs'" using tokens_of_segments[OF s(2)] toks by simp
      show "value_at raw ctx = Option.bind (ref_holder r ctx) (resolve_segments segs')" for ctx
        using toks s by (cases ctx) (auto simp: val ref_holder_def split: option.splits)
    qed
  next
    case None
    with r obtain tl0 where "strip_prefix ''$.steps['' raw = Some tl0" by (auto simp: step_ref_parse_def split: option.splits)
    then have tl0: "raw = ''$.steps['' @ tl0" by (simp add: strip_prefix_iff)
    define digits where "digits = takeWhile (\<lambda>x. x \<noteq> CHR '']'') tl0"
    define after where "after = dropWhile (\<lambda>x. x \<noteq> CHR '']'') tl0"
    from None r tl0 obtain idx where idx: "after \<noteq> []" "parse_usize digits = Some idx"
      "r = \<lparr>sr_predecessor_no = wrap_u64 (idx + 1), sr_is_prev = False, sr_prefix = ''$.steps['' @ show_nat idx @ '']'', sr_tokens = path_tokens (tl after)\<rparr>"
      by (auto simp: step_ref_parse_def digits_def after_def Let_def strip_prefix_iff split: if_splits option.splits)
    then have le: "idx \<le> u64_max" by (auto simp: parse_usize_def split: option.splits if_splits)
    have "rest = CHR ''.'' # ''steps'' @ CHR ''['' # tl0" using raw tl0 by simp
    with ps parse_key_then[of "''steps''" "CHR ''['' # tl0" "path_segments p"] obtain segs1
      where s1: "path_segments p = PKey ''steps'' # segs1" "parse_segments (CHR ''['' # tl0) = Some segs1"
      by (auto simp: at_segment_def at_boundary_def)
    then obtain segs' where s: "segs1 = PIndex idx # segs'" "parse_segments (tl after) = Some segs'"
      using idx by (auto simp: Let_def digits_def after_def split: if_splits option.splits)
    have pi: "pred_index r = idx"
    proof (cases "idx = u64_max")
      case False
      then have "wrap_u64 (idx + 1) = idx + 1" using le by (intro wrap_u64_id) simp
      then show ?thesis using idx(3) by (simp add: pred_index_def)
    qed (use idx(3) in \<open>simp add: pred_index_def wrap_u64_def u64_max_def\<close>)
    show ?thesis
    proof (rule that)
      show "list_all2 token_of (sr_tokens r) segs'" using tokens_of_segments[OF s(2)] idx by simp
      show "value_at raw ctx = Option.bind (ref_holder r ctx) (resolve_segments segs')" for ctx
        using s1 s idx(3) pi by (cases ctx) (auto simp: val ref_holder_def split: option.splits bind_splits)
    qed
  qed
qed

section \<open>Rewrites are accepted\<close>

lemma valid_tokens_tail: "well_formed_tail tail = Some ts \<Longrightarrow> list_all valid_token ts \<and> concat ts = tail \<and> ts = path_tokens tail"
  by (auto simp: well_formed_tail_def Let_def split: if_splits)

lemma strip_suffix_iff: "strip_suffix p s = Some r \<longleftrightarrow> s = r @ p"
proof -
  have "strip_suffix p s = Some r \<longleftrightarrow> rev s = rev p @ rev r"
    unfolding strip_suffix_def by (auto simp: strip_prefix_iff)
  also have "\<dots> \<longleftrightarrow> s = r @ p" by (metis rev_append rev_rev_ident)
  finally show ?thesis .
qed

lemma alphanumeric_not_segment: "is_alphanumeric c \<Longrightarrow> \<not> at_segment c"
  by (auto simp: is_alphanumeric_def is_alphabetic_def at_segment_def is_ascii_digit_def is_ascii_lower_def is_ascii_upper_def scalar_def Let_def)

lemma valid_token_cases:
  assumes "valid_token t"
  obtains (key) k where "t = CHR ''.'' # k" "k \<noteq> []" "list_all (\<lambda>x. \<not> at_segment x) k"
  | (index) ds where "t = CHR ''['' # ds @ '']''" "ds \<noteq> []" "list_all is_ascii_digit ds"
proof (cases "strip_prefix ''.'' t")
  case (Some k)
  then have "list_all (\<lambda>c. is_alphanumeric c \<or> c = CHR ''_'' \<or> c = CHR ''-'') k" "k \<noteq> []" using assms by (auto simp: valid_token_def)
  have "\<not> at_segment c" if "is_alphanumeric c \<or> c = CHR ''_'' \<or> c = CHR ''-''" for c
    using that alphanumeric_not_segment[of c] by (cases "is_alphanumeric c") (auto simp: at_segment_def)
  with \<open>list_all _ k\<close> have "list_all (\<lambda>x. \<not> at_segment x) k" by (auto simp: list_all_iff)
  with key Some \<open>k \<noteq> []\<close> show thesis by (auto simp: strip_prefix_iff)
next
  case None
  then show thesis using assms index
    by (auto simp: valid_token_def strip_prefix_iff strip_suffix_iff split: option.splits bind_splits)
qed

lemma path_tokens_concat: "list_all valid_token ts \<Longrightarrow> path_tokens (concat ts) = ts"
proof (induction ts)
  case (Cons t ts)
  then have b: "at_boundary (concat ts)" by (intro token_hd) simp
  from Cons.prems have "valid_token t" by simp
  then show ?case
  proof (cases rule: valid_token_cases)
    case (key k)
    then have "takeWhile (\<lambda>x. \<not> at_segment x) (k @ concat ts) = k \<and> dropWhile (\<lambda>x. \<not> at_segment x) (k @ concat ts) = concat ts"
      using b by (intro takeWhile_all) (auto simp: at_boundary_def)
    with key Cons show ?thesis by (simp add: Let_def)
  next
    case (index ds)
    then have "list_all (\<lambda>x. x \<noteq> CHR '']'') ds" by (auto simp: list_all_iff dest: digit_not_special)
    then have "takeWhile (\<lambda>x. x \<noteq> CHR '']'') (ds @ CHR '']'' # concat ts) = ds \<and> dropWhile (\<lambda>x. x \<noteq> CHR '']'') (ds @ CHR '']'' # concat ts) = CHR '']'' # concat ts"
      by (intro takeWhile_all) auto
    with index Cons show ?thesis by (simp add: Let_def)
  qed
qed simp

lemma rebuilt_none [simp]: "rebuilt r hop None = sr_prefix r @ concat (map (\<lambda>h. CHR ''.'' # h) hop) @ concat (sr_tokens r)"
proof -
  have "rebuilt_tokens i ts None = concat ts" for i ts by (induction ts arbitrary: i) auto
  then show ?thesis by (simp add: rebuilt_def)
qed

lemma valid_result_token: "valid_token ''.result''"
  by (simp add: valid_token_def strip_prefix_def is_alphanumeric_def is_alphabetic_def is_ascii_lower_def scalar_def)

lemma result_token [simp]: "strip_prefix ''.'' ''.result'' = Some ''result''"
  by (simp add: strip_prefix_def)

lemma parse_usize_digits: "parse_usize ds = Some i \<Longrightarrow> parse_usize (show_nat i) = Some i"
  by (rule parse_usize_show) (auto simp: parse_usize_def split: option.splits if_splits)

lemma ref_of_prev: "list_all valid_token ts \<Longrightarrow> 1 < n \<Longrightarrow>
    step_ref_parse (''$.prev'' @ concat ts) n
      = Some \<lparr>sr_predecessor_no = n - 1, sr_is_prev = True, sr_prefix = ''$.prev'', sr_tokens = ts\<rparr>"
  using strip_prefix_append[of "''$.prev''" "concat ts"] by (simp add: step_ref_parse_def path_tokens_concat)

lemma ref_of_steps:
  assumes "list_all valid_token ts" "list_all is_ascii_digit ds" "parse_usize ds = Some i"
  shows "step_ref_parse (''$.steps['' @ ds @ '']'' @ concat ts) n
      = Some \<lparr>sr_predecessor_no = wrap_u64 (i + 1), sr_is_prev = False, sr_prefix = ''$.steps['' @ show_nat i @ '']'', sr_tokens = ts\<rparr>"
proof -
  have "list_all (\<lambda>x. x \<noteq> CHR '']'') ds" using assms(2) by (auto simp: list_all_iff dest: digit_not_special)
  then have "takeWhile (\<lambda>x. x \<noteq> CHR '']'') (ds @ CHR '']'' # concat ts) = ds \<and> dropWhile (\<lambda>x. x \<noteq> CHR '']'') (ds @ CHR '']'' # concat ts) = CHR '']'' # concat ts"
    by (intro takeWhile_all) auto
  then show ?thesis using strip_prefix_append[of "''$.steps[''" "ds @ CHR '']'' # concat ts"] assms(1,3)
    by (simp add: step_ref_parse_def path_tokens_concat Let_def strip_prefix_def)
qed

text \<open>The shapes a rewrite can have.\<close>

lemma rewrite_cases:
  assumes "rewrite_reference raw = Some p"
  obtains (plain) name cr ts where "p = ''$.'' @ name @ concat ts" "root_named name = Some cr" "list_all valid_token ts" "\<not> cr_has_result cr"
  | (prev) ts where "p = ''$.prev'' @ concat ts" "list_all valid_token ts" "ts \<noteq> []" "strip_prefix ''.'' (hd ts) \<in> {None, Some ''result''}"
  | (steps) ds ts i where "p = ''$.steps['' @ ds @ '']'' @ concat ts" "list_all is_ascii_digit ds" "parse_usize ds = Some i"
      "list_all valid_token ts" "ts = [] \<or> strip_prefix ''.'' (hd ts) \<in> {None, Some ''result''}"
proof -
  define body where "body = (case strip_prefix ''$.'' raw of Some b \<Rightarrow> b | None \<Rightarrow> (case strip_prefix ''$'' raw of Some b \<Rightarrow> b | None \<Rightarrow> raw))"
  obtain name tail where nt: "split_root body = (name, tail)" by fastforce
  from assms obtain cr ts0 where cr: "root_named name = Some cr" and ts0: "well_formed_tail tail = Some ts0"
    unfolding rewrite_reference_def Let_def body_def[symmetric] nt by (auto split: option.splits)
  note v0 = valid_tokens_tail[OF ts0] and nm = root_name[OF cr] and kind = root_kind[OF cr]
  note eq = assms[unfolded rewrite_reference_def Let_def body_def[symmetric] nt prod.case cr option.case ts0]
  show thesis
  proof (cases "cr_has_result cr")
    case False
    then have "p = ''$.'' @ name @ concat ts0" using eq kind nm by (auto split: option.splits if_splits)
    with cr v0 False show thesis by (intro plain) auto
  next
    case True
    show thesis
    proof (cases "cr_indexed cr")
      case False
      then have "name = ''prev''" using kind True by auto
      then have plain': "''$.'' @ cr_name cr @ concat ts0 = ''$.prev'' @ concat ts0" using nm by simp
      have ne: "ts0 \<noteq> []" using eq True False by auto
      have r: "step_ref_parse (''$.prev'' @ concat ts0) u64_max
        = Some \<lparr>sr_predecessor_no = u64_max - 1, sr_is_prev = True, sr_prefix = ''$.prev'', sr_tokens = ts0\<rparr>"
        using v0 by (intro ref_of_prev) (auto simp: u64_max_def)
      show thesis
      proof (cases "strip_prefix ''.'' (hd ts0) \<in> {None, Some ''result''}")
        case True
        then have "p = ''$.prev'' @ concat ts0"
          using eq \<open>cr_has_result cr\<close> False ne plain' r by (auto simp: step_ref_name_def hd_conv_nth split: option.splits if_splits)
        with True ne v0 show thesis by (intro prev) auto
      next
        case False
        then have "p = ''$.prev'' @ concat (''.result'' # ts0)"
          using eq \<open>cr_has_result cr\<close> \<open>\<not> cr_indexed cr\<close> ne plain' r by (auto simp: step_ref_name_def hd_conv_nth split: option.splits if_splits)
        with v0 valid_result_token show thesis by (intro prev[of "''.result'' # ts0"]) auto
      qed
    next
      case True
      then have nam: "cr_name cr = ''steps''" using kind nm by auto
      have "ts0 \<noteq> []" using eq True by auto
      then obtain t ts where ts: "ts0 = t # ts" by (cases ts0) auto
      have vt: "valid_token t" "list_all valid_token ts" using v0 ts by auto
      obtain ds where ds: "(if starts_with t ''['' then Some ts0 else if list_all is_ascii_digit (tl t) then Some ((''['' @ tl t @ '']'') # ts) else None)
          = Some ((''['' @ ds @ '']'') # ts)" "list_all is_ascii_digit ds"
        using vt(1) eq True ts by (cases rule: valid_token_cases) (auto split: if_splits)
      have plain': "''$.'' @ cr_name cr @ concat ((''['' @ ds @ '']'') # ts) = ''$.steps['' @ ds @ '']'' @ concat ts" using nam by simp
      have "step_ref_parse (''$.steps['' @ ds @ '']'' @ concat ts) u64_max \<noteq> None"
        using eq \<open>cr_has_result cr\<close> True ts ds plain' by (auto split: option.splits if_splits)
      then obtain i where i: "parse_usize ds = Some i"
      proof -
        have "list_all (\<lambda>x. x \<noteq> CHR '']'') ds" using ds(2) by (auto simp: list_all_iff dest: digit_not_special)
        then have "takeWhile (\<lambda>x. x \<noteq> CHR '']'') (ds @ CHR '']'' # concat ts) = ds \<and> dropWhile (\<lambda>x. x \<noteq> CHR '']'') (ds @ CHR '']'' # concat ts) = CHR '']'' # concat ts"
          by (intro takeWhile_all) auto
        then show thesis using that \<open>step_ref_parse _ _ \<noteq> None\<close> strip_prefix_append[of "''$.steps[''" "ds @ CHR '']'' # concat ts"]
          by (auto simp: step_ref_parse_def Let_def strip_prefix_def split: option.splits)
      qed
      note r = ref_of_steps[OF vt(2) ds(2) i, of u64_max]
      have ds': "list_all is_ascii_digit (show_nat i)" by (rule show_nat_digits)
      show thesis
      proof (cases "ts = [] \<or> strip_prefix ''.'' (hd ts) \<in> {None, Some ''result''}")
        case True
        then have "p = ''$.steps['' @ ds @ '']'' @ concat ts"
          using eq \<open>cr_has_result cr\<close> \<open>cr_indexed cr\<close> ts ds plain' r by (auto simp: step_ref_name_def hd_conv_nth split: option.splits if_splits)
        with True ds i vt show thesis by (intro steps) auto
      next
        case False
        then have "p = ''$.steps['' @ show_nat i @ '']'' @ concat (''.result'' # ts)"
          using eq \<open>cr_has_result cr\<close> \<open>cr_indexed cr\<close> ts ds plain' r by (auto simp: step_ref_name_def hd_conv_nth split: option.splits if_splits)
        with vt ds' parse_usize_digits[OF i] valid_result_token show thesis by (intro steps[of "show_nat i" "''.result'' # ts" i]) auto
      qed
    qed
  qed
qed

lemma rewrite_parses: "rewrite_reference raw = Some p \<Longrightarrow> \<not> isl (path_parse p)"
  by (auto simp: rewrite_reference_def Let_def split: option.splits if_splits prod.splits)

lemma rewrite_is_path: "rewrite_reference raw = Some p \<Longrightarrow> string_shape p = Some ShapePath"
proof (erule rewrite_cases)
  fix name cr ts
  assume "p = ''$.'' @ name @ concat ts" "root_named name = Some cr" "list_all valid_token ts"
  then show ?thesis using shape_path[of name "concat ts"] root_name[of name cr] token_hd[of ts] by simp
next
  fix ts
  assume "p = ''$.prev'' @ concat ts" "list_all valid_token ts"
  then show ?thesis using shape_path[of "''prev''" "concat ts"] token_hd[of ts]
    by (simp add: at_segment_def root_named_def reference_roots_def plain_root_def)
next
  fix ds ts
  assume "p = ''$.steps['' @ ds @ '']'' @ concat ts"
  then show ?thesis using shape_path[of "''steps''" "''['' @ ds @ '']'' @ concat ts"]
    by (simp add: at_segment_def at_boundary_def root_named_def reference_roots_def plain_root_def)
qed

text \<open>A reference that is not refused for a missing \<open>result\<close> hop.\<close>

definition hop_given :: "step_ref \<Rightarrow> bool" where
  "hop_given r \<longleftrightarrow> (case step_ref_name r 0 of Some first \<Rightarrow> first \<in> set (accepted_keys r) | None \<Rightarrow> True)"

lemma plain_roots:
  assumes "root_named name = Some cr" "\<not> cr_has_result cr"
  shows "name \<in> {''input'', ''event'', ''result'', ''item'', ''index''}"
proof -
  from assms have "cr \<in> set reference_roots" "cr_name cr = name" by (auto simp: root_named_def dest: find_hit)
  with assms(2) show ?thesis by (auto simp: reference_roots_def plain_root_def)
qed

lemma rewrite_hop:
  assumes "rewrite_reference raw = Some p" "step_ref_parse p n = Some r"
  shows "hop_given r"
  using assms(1)
proof (cases rule: rewrite_cases)
  case (plain name cr ts)
  have "step_ref_parse p n = None" unfolding plain(1) using plain_roots[OF plain(2,4)]
    by (elim insertE emptyE) (simp_all add: step_ref_parse_def strip_prefix_def)
  with assms show ?thesis by simp
next
  case (prev ts)
  with assms(2) have "r = \<lparr>sr_predecessor_no = n - 1, sr_is_prev = True, sr_prefix = ''$.prev'', sr_tokens = ts\<rparr>"
    using ref_of_prev[of ts n] by (cases "1 < n") (auto simp: step_ref_parse_def strip_prefix_def)
  with prev show ?thesis by (auto simp: hop_given_def step_ref_name_def hd_conv_nth)
next
  case (steps ds ts i)
  with assms(2) ref_of_steps[of ts ds i n] show ?thesis by (auto simp: hop_given_def step_ref_name_def hd_conv_nth)
qed

text \<open>The correction offered for a value that looks like a reference is accepted in its place: it is a path of the
  grammar, no near miss itself, and where it reads a step it names the \<open>result\<close> the check asks for. (A path inside a
  literal object is offered as it was written.)\<close>

theorem rewrite_is_accepted:
  assumes "near_miss v = Some nm" "nm_rewrite nm = Some p"
  shows "near_miss (JStr p) = None \<and>
    (nm_verbatim nm \<or> (\<not> isl (path_parse p) \<and> (\<forall>n r. step_ref_parse p n = Some r \<longrightarrow> hop_given r)))"
proof -
  from assms(1) obtain s w sh where s: "string_shape s = Some sh" "miss_of s w sh = Some nm"
    by (auto simp: near_miss_def split: option.splits)
  have path: "string_shape p = Some ShapePath \<Longrightarrow> near_miss (JStr p) = None" by (simp add: near_miss_def inspected_def)
  show ?thesis
  proof (cases "nm_verbatim nm")
    case True
    with s assms(2) show ?thesis by (cases sh; cases w) (auto intro: path)
  next
    case False
    with s assms(2) have "rewrite_reference s = Some p" by (cases sh; cases w) auto
    with rewrite_is_path[OF this] rewrite_parses[OF this] rewrite_hop[OF this] show ?thesis by (simp add: path)
  qed
qed

lemmas text_eval = strip_prefix_def strip_suffix_def split_root_def at_segment_def root_named_def reference_roots_def plain_root_def
  well_formed_tail_def valid_token_def is_alphanumeric_def is_alphabetic_def is_ascii_lower_def is_ascii_upper_def is_ascii_digit_def
  scalar_def Let_def path_key_char_def is_ascii_alphanumeric_def

lemma bare_prev: "near_miss (JStr ''prev.rows'')
    = Some \<lparr>nm_path = ''prev.rows'', nm_reason = ''not a path'', nm_rewrite = Some ''$.prev.result.rows'', nm_verbatim = False\<rparr>"
proof -
  have tail: "well_formed_tail ''.rows'' = Some [''.rows'']" by (simp add: text_eval)
  have shape: "string_shape ''prev.rows'' = Some ShapeBare"
    using tail by (simp add: string_shape_def strip_prefix_def split_root_def at_segment_def root_named_def reference_roots_def plain_root_def)
  have "\<not> isl (path_parse ''$.prev.result.rows'')" by (simp add: path_parse_def text_eval)
  then have "rewrite_reference ''prev.rows'' = Some ''$.prev.result.rows''"
    using tail ref_of_prev[of "[''.rows'']" u64_max]
    by (simp add: rewrite_reference_def text_eval u64_max_def step_ref_name_def)
  with shape show ?thesis by (simp add: near_miss_def inspected_def)
qed

lemma rewrite_is_accepted_witness: "near_miss (JStr ''$.prev.result.rows'') = None"
  using rewrite_is_accepted[OF bare_prev] by simp

section \<open>What a passing verdict says\<close>

definition clean :: "verdict_state \<Rightarrow> bool" where
  "clean vs \<longleftrightarrow> vs_failures vs = [] \<and> vs_unverifiable_step vs = None \<and> vs_event_ref vs = None"

lemma fold_clean:
  assumes "\<And>x s. clean (f x s) \<Longrightarrow> clean s"
    and "\<And>x s. clean (f x s) \<Longrightarrow> Q x (f x s)"
    and "\<And>x y s. Q x s \<Longrightarrow> Q x (f y s)"
    and "clean (fold f xs s)"
  shows "clean s \<and> (\<forall>x \<in> set xs. Q x (fold f xs s))"
  using assms(4)
proof (induction xs arbitrary: s)
  case (Cons x xs)
  then have IH: "clean (f x s)" "\<forall>x' \<in> set xs. Q x' (fold f (x # xs) s)" by auto
  have keep: "Q x t \<Longrightarrow> Q x (fold f ys t)" for ys t by (induction ys arbitrary: t) (simp_all add: assms(3))
  from assms(1)[OF IH(1)] IH(2) keep[OF assms(2)[OF IH(1)], of xs] show ?case by simp
qed simp

text \<open>What the check of one mapping leaves when it finds nothing wrong.\<close>

definition mapping_passed :: "parsed_step list \<Rightarrow> nat \<Rightarrow> string \<Rightarrow> verdict_state \<Rightarrow> bool" where
  "mapping_passed steps n raw vs \<longleftrightarrow>
     (\<forall>r. step_ref_parse raw n = Some r \<and> sr_tokens r \<noteq> [] \<longrightarrow>
        sr_predecessor_no r < n \<and> (pred_index r < length steps \<longrightarrow> (n, raw) \<in> vs_passes vs))"

definition pass_checked :: "tool_lookup option \<Rightarrow> parsed_step list \<Rightarrow> bool \<Rightarrow> nat \<times> string \<Rightarrow> bool" where
  "pass_checked lookup steps obs x \<longleftrightarrow>
     (case x of (n, raw) \<Rightarrow>
        \<exists>r. step_ref_parse raw n = Some r \<and> sr_predecessor_no r < n \<and> pred_index r < length steps
          \<and> check_step_ref lookup (ps_tool (steps ! pred_index r)) r obs = RefPass)"

lemma checked_mapping_pass: "checked_mapping lookup t r raw w obs = RefPass \<Longrightarrow> check_step_ref lookup t r obs = RefPass"
  by (auto simp: checked_mapping_def Let_def split: option.splits if_splits ref_check.splits)

lemma check_mapping_clean:
  assumes "clean (check_mapping lookup steps obs n m vs)"
  shows "clean vs" "mapping_passed steps n (fst m) (check_mapping lookup steps obs n m vs)"
  using assms
  by (auto simp: clean_def check_mapping_def mapping_passed_def Let_def split: option.splits if_splits ref_check.splits prod.splits)

lemma check_mapping_passes: "vs_passes vs \<subseteq> vs_passes (check_mapping lookup steps obs n m vs)"
  by (auto simp: check_mapping_def Let_def split: option.splits if_splits ref_check.splits prod.splits)

lemma pass_checkedI:
  "step_ref_parse raw n = Some r \<Longrightarrow> \<not> n \<le> sr_predecessor_no r \<Longrightarrow> \<not> length steps \<le> pred_index r \<Longrightarrow>
     checked_mapping lookup (ps_tool (steps ! pred_index r)) r raw w obs = RefPass \<Longrightarrow> pass_checked lookup steps obs (n, raw)"
  using checked_mapping_pass by (auto simp: pass_checked_def)

lemma check_mapping_checked:
  "vs_passes (check_mapping lookup steps obs n m vs) \<subseteq> vs_passes vs \<union> Collect (pass_checked lookup steps obs)"
  by (auto simp: check_mapping_def Let_def intro: pass_checkedI split: option.splits if_splits ref_check.splits prod.splits)

lemma check_near_miss_clean:
  "clean (check_near_miss lookup steps obs n v vs) \<Longrightarrow> clean vs \<and> near_miss v = None"
  "vs_passes (check_near_miss lookup steps obs n v vs) = vs_passes vs"
  by (auto simp: clean_def check_near_miss_def split: option.splits)

lemma fold_subset: "(\<And>x s. vs_passes s \<subseteq> vs_passes (f x s)) \<Longrightarrow> vs_passes s \<subseteq> vs_passes (fold f xs s)"
proof (induction xs arbitrary: s)
  case (Cons x xs)
  have "vs_passes s \<subseteq> vs_passes (f x s)" by (rule Cons.prems)
  also have "\<dots> \<subseteq> vs_passes (fold f xs (f x s))" by (rule Cons.IH[OF Cons.prems])
  finally show ?case by simp
qed simp

lemma fold_checked:
  "\<forall>x s. vs_passes (f x s) \<subseteq> vs_passes s \<union> P \<Longrightarrow> vs_passes (fold f xs s) \<subseteq> vs_passes s \<union> P"
  by (induction xs arbitrary: s) fastforce+

lemma fold_near_miss:
  "vs_passes (fold (\<lambda>(_, v). check_near_miss lookup steps obs n v) kvs vs) = vs_passes vs"
  "clean (fold (\<lambda>(_, v). check_near_miss lookup steps obs n v) kvs vs) \<Longrightarrow> clean vs \<and> (\<forall>v \<in> snd ` set kvs. near_miss v = None)"
  by (induction kvs arbitrary: vs) (auto simp: check_near_miss_clean(2) dest!: check_near_miss_clean(1) split: prod.splits)

definition verdict_mappings :: "parsed_step \<Rightarrow> (string \<times> bool) list" where
  "verdict_mappings step =
     map (\<lambda>raw. (raw, False)) (List.map_filter (\<lambda>(_, v). as_str v) (ps_args step))
       @ (case ps_for_each step of Some p \<Rightarrow> [(p, True)] | None \<Rightarrow> [])"

lemma verdict_mappings_texts: "map fst (verdict_mappings step) = step_mappings step"
  by (auto simp: verdict_mappings_def step_mappings_def comp_def split: option.splits)

lemma mapping_passed_mono: "mapping_passed steps n raw s \<Longrightarrow> vs_passes s \<subseteq> vs_passes t \<Longrightarrow> mapping_passed steps n raw t"
  by (auto simp: mapping_passed_def)

definition step_passed :: "parsed_step list \<Rightarrow> nat \<times> parsed_step \<Rightarrow> verdict_state \<Rightarrow> bool" where
  "step_passed steps ns vs \<longleftrightarrow>
     (\<forall>raw \<in> set (step_mappings (snd ns)). mapping_passed steps (fst ns) raw vs) \<and> (\<forall>v \<in> snd ` set (ps_args (snd ns)). near_miss v = None)"

lemma check_step_unfold:
  "check_step lookup steps obs ns vs =
     fold (check_mapping lookup steps obs (fst ns)) (verdict_mappings (snd ns))
       (fold (\<lambda>(_, v). check_near_miss lookup steps obs (fst ns) v) (ps_args (snd ns)) vs)"
  by (simp add: check_step_def verdict_mappings_def split: prod.splits)

lemma check_step_passes: "vs_passes vs \<subseteq> vs_passes (check_step lookup steps obs ns vs)"
  unfolding check_step_unfold
  using fold_subset[OF check_mapping_passes, of "fold (\<lambda>(_, v). check_near_miss lookup steps obs (fst ns) v) (ps_args (snd ns)) vs"]
  by (simp add: fold_near_miss)

lemma check_step_clean:
  assumes "clean (check_step lookup steps obs ns vs)"
  shows "clean vs" "step_passed steps ns (check_step lookup steps obs ns vs)"
proof -
  let ?f = "check_mapping lookup steps obs (fst ns)"
  let ?s = "fold (\<lambda>(_, v). check_near_miss lookup steps obs (fst ns) v) (ps_args (snd ns)) vs"
  have "clean ?s \<and> (\<forall>m \<in> set (verdict_mappings (snd ns)). mapping_passed steps (fst ns) (fst m) (fold ?f (verdict_mappings (snd ns)) ?s))"
  proof (rule fold_clean[where Q = "\<lambda>m s. mapping_passed steps (fst ns) (fst m) s"])
    show "mapping_passed steps (fst ns) (fst x) s \<Longrightarrow> mapping_passed steps (fst ns) (fst x) (?f y s)" for x y s
      by (rule mapping_passed_mono[OF _ check_mapping_passes])
  qed (use assms check_mapping_clean in \<open>auto simp: check_step_unfold\<close>)
  moreover have "set (step_mappings (snd ns)) = fst ` set (verdict_mappings (snd ns))"
    by (metis list.set_map verdict_mappings_texts)
  moreover have "clean ?s \<Longrightarrow> clean vs \<and> (\<forall>v \<in> snd ` set (ps_args (snd ns)). near_miss v = None)" by (rule fold_near_miss)
  ultimately show "clean vs" "step_passed steps ns (check_step lookup steps obs ns vs)"
    unfolding step_passed_def check_step_unfold by auto
qed

lemma steps_state_passed:
  assumes "clean (steps_state lookup steps obs)" "ns \<in> set (numbered steps)"
  shows "step_passed steps ns (steps_state lookup steps obs)"
proof -
  have "\<forall>ns \<in> set (numbered steps). step_passed steps ns (steps_state lookup steps obs)"
    unfolding steps_state_def
  proof (rule conjunct2[OF fold_clean[where Q = "\<lambda>ns s. step_passed steps ns s"]])
    show "step_passed steps x s \<Longrightarrow> step_passed steps x (check_step lookup steps obs y s)" for x y s
      using mapping_passed_mono[OF _ check_step_passes] by (auto simp: step_passed_def)
  qed (use assms check_step_clean in \<open>auto simp: steps_state_def\<close>)
  with assms(2) show ?thesis by simp
qed

lemma check_step_checked:
  "vs_passes (check_step lookup steps obs ns vs) \<subseteq> vs_passes vs \<union> Collect (pass_checked lookup steps obs)"
  unfolding check_step_unfold using check_mapping_checked
  by (subst fold_near_miss(1)[symmetric, where lookup = lookup and steps = steps and obs = obs and n = "fst ns" and kvs = "ps_args (snd ns)"]) (rule fold_checked, blast)

lemma steps_state_checked: "x \<in> vs_passes (steps_state lookup steps obs) \<Longrightarrow> pass_checked lookup steps obs x"
  using fold_checked[of "check_step lookup steps obs" "Collect (pass_checked lookup steps obs)"] check_step_checked
  by (fastforce simp: steps_state_def)

lemma verdict_pass_clean: "json_get ''verdict'' (overall_verdict vs) = Some (JStr ''pass'') \<longleftrightarrow> clean vs"
  by (auto simp: overall_verdict_def clean_def split: option.splits)

text \<open>The results of the steps before step \<open>n + 1\<close> are objects that hold at least the names the check went by.\<close>

definition conforms :: "tool_lookup \<Rightarrow> parsed_step list \<Rightarrow> nat \<Rightarrow> json list \<Rightarrow> bool" where
  "conforms lookup steps n results \<longleftrightarrow>
     length results = n \<and>
     (\<forall>j < n. \<exists>m. results ! j = JObj m \<and>
        (\<forall>b. path_basis_of lookup (ps_tool (steps ! j)) True = Some b \<longrightarrow> set (pb_names b) \<subseteq> fst ` set m))"

text \<open>A mapping the check settles: a well-formed path to a result or to one field of it.\<close>

definition settled_path :: "nat \<Rightarrow> string \<Rightarrow> bool" where
  "settled_path n raw \<longleftrightarrow> \<not> isl (path_parse raw) \<and>
     (\<exists>r. step_ref_parse raw n = Some r \<and> 0 < sr_predecessor_no r \<and>
        (sr_tokens r = [''.result''] \<or> (\<exists>f. sr_tokens r = [''.result'', CHR ''.'' # f] \<and> f \<notin> set ENVELOPE_WRAPPER_KEYS)))"

definition given_input :: "json \<Rightarrow> string \<Rightarrow> bool" where
  "given_input input raw \<longleftrightarrow>
     (\<exists>p name. path_parse raw = Inr p \<and> path_segments p = [PKey ''input'', PKey name] \<and> json_get name input \<noteq> None)"

lemma context_parts [simp]:
  "json_get ''input'' (step_context ev input prev results) = Some input"
  "json_get ''prev'' (step_context ev input prev results) = Some (opt_json result_holder prev)"
  "json_get ''steps'' (step_context ev input prev results) = Some (JArr (map result_holder results))"
  by (simp_all add: step_context_def)

lemma holder_result [simp]: "resolve_segments (PKey ''result'' # segs) (result_holder v) = resolve_segments segs v"
  by (simp add: result_holder_def mk_obj_def)

lemma field_of_result: "resolve_segments [PKey ''result'', PKey f] (result_holder (JObj m)) = map_of m f"
  by (simp add: result_holder_def mk_obj_def split: option.splits)

lemma given_input_resolves: "given_input input raw \<Longrightarrow> value_at raw (step_context ev input prev results) \<noteq> None"
proof -
  assume "given_input input raw"
  then obtain p name where p: "path_parse raw = Inr p" "path_segments p = [PKey ''input'', PKey name]" "json_get name input \<noteq> None"
    by (auto simp: given_input_def)
  obtain m where m: "step_context ev input prev results = JObj m" by (simp add: step_context_def mk_obj_def)
  then have "map_of m ''input'' = Some input" using context_parts(1)[of ev input prev results] by simp
  with p m show ?thesis by (cases input) (auto simp: value_at_def path_resolve_def split: option.splits)
qed

lemma token_key: "token_of (CHR ''.'' # k) seg \<Longrightarrow> seg = PKey k"
  by (auto simp: token_of_def split: path_segment.splits)

lemma settled_resolves:
  assumes sp: "settled_path n raw" and passed: "(n, raw) \<in> vs_passes (steps_state (Some lookup) steps True)"
    and conf: "conforms lookup steps (n - 1) results" and prev: "n > 1 \<longrightarrow> prev = Some (last results)"
  shows "value_at raw (step_context ev input prev results) \<noteq> None"
proof -
  let ?c = "step_context ev input prev results"
  obtain p r where p: "path_parse raw = Inr p" and r: "step_ref_parse raw n = Some r" "0 < sr_predecessor_no r"
    and toks: "sr_tokens r = [''.result''] \<or> (\<exists>f. sr_tokens r = [''.result'', CHR ''.'' # f] \<and> f \<notin> set ENVELOPE_WRAPPER_KEYS)"
    using sp by (cases "path_parse raw") (auto simp: settled_path_def)
  let ?j = "pred_index r"
  from steps_state_checked[OF passed] r have chk: "sr_predecessor_no r < n" "?j < length steps"
    "check_step_ref (Some lookup) (ps_tool (steps ! ?j)) r True = RefPass" by (auto simp: pass_checked_def)
  have j: "?j < n - 1" using chk(1) r(2) by (auto simp: pred_index_def)
  then obtain m where m: "results ! ?j = JObj m" "\<And>b. path_basis_of lookup (ps_tool (steps ! ?j)) True = Some b \<Longrightarrow> set (pb_names b) \<subseteq> fst ` set m"
    and len: "length results = n - 1" using conf by (auto simp: conforms_def)
  have holder: "ref_holder r ?c = Some (result_holder (JObj m))"
  proof (cases "sr_is_prev r")
    case True
    then have "1 < n" "sr_predecessor_no r = n - 1"
      using r by (auto simp: step_ref_parse_def Let_def split: option.splits if_splits)
    moreover from this have "results \<noteq> []" using len by auto
    ultimately have "last results = results ! ?j" using len last_conv_nth[of results] r(2) by (simp add: pred_index_def)
    with True prev m \<open>1 < n\<close> show ?thesis by (simp add: ref_holder_def opt_json_def)
  next
    case False
    with j len m show ?thesis by (simp add: ref_holder_def)
  qed
  have "sr_tokens r \<noteq> []" using toks by auto
  from ref_value[OF p r(1) this] obtain segs where segs: "list_all2 token_of (sr_tokens r) segs"
    "\<And>c. value_at raw c = Option.bind (ref_holder r c) (resolve_segments segs)" by metis
  from toks show ?thesis
  proof
    assume "sr_tokens r = [''.result'']"
    with segs(1) have "segs = [PKey ''result'']" by (auto simp: list_all2_Cons1 dest: token_key)
    then show ?thesis using segs(2)[of ?c] holder by (simp del: resolve_segments.simps(2))
  next
    assume "\<exists>f. sr_tokens r = [''.result'', CHR ''.'' # f] \<and> f \<notin> set ENVELOPE_WRAPPER_KEYS"
    then obtain f where f: "sr_tokens r = [''.result'', CHR ''.'' # f]" "f \<notin> set ENVELOPE_WRAPPER_KEYS" by auto
    with segs(1) have s: "segs = [PKey ''result'', PKey f]" by (auto simp: list_all2_Cons1 dest: token_key)
    have names: "step_ref_name r 0 = Some ''result''" "step_ref_name r 1 = Some f"
      using f(1) by (simp_all add: step_ref_name_def strip_prefix_def)
    obtain b where b: "path_basis_of lookup (ps_tool (steps ! ?j)) True = Some b" "f \<in> set (pb_names b)"
      using chk(3) names f(2) by (auto simp: check_step_ref_def Let_def split: option.splits if_splits)
    then have "map_of m f \<noteq> None" using m(2)[OF b(1)] by (auto simp: map_of_eq_None_iff)
    then show ?thesis using segs(2)[of ?c] holder s by (simp add: field_of_result del: resolve_segments.simps holder_result)
  qed
qed

lemma resolve_args_ok:
  assumes "\<forall>s. JStr s \<in> snd ` set kvs \<and> starts_with s ''$.'' \<longrightarrow> value_at s c \<noteq> None"
  shows "\<exists>m. resolve_args kvs c = Inr m"
proof -
  have "\<exists>m. resolve_arg_list kvs c = Inr m"
    using assms
  proof (induction kvs)
    case (Cons kv kvs)
    obtain k v where kv: "kv = (k, v)" by fastforce
    from Cons obtain m where "resolve_arg_list kvs c = Inr m" by auto
    with Cons.prems kv show ?case by (cases v) auto
  qed simp
  then show ?thesis by (auto simp: resolve_args_def)
qed

lemma chain_verdict_pass:
  assumes "json_get ''verdict'' (chain_verdict lookup spec) = Some (JStr ''pass'')" "parse_steps spec = Inr steps"
  shows "clean (steps_state (Some lookup) steps True)"
proof -
  let ?o = "overall_verdict (steps_state (Some lookup) steps True)"
  have "json_get ''verdict'' ?o = Some (JStr ''pass'')"
    using assms by (cases ?o) (auto simp: chain_verdict_def Let_def split: if_splits)
  then show ?thesis by (simp only: verdict_pass_clean)
qed

lemma numbered_iff: "(n, x) \<in> set (numbered xs) \<longleftrightarrow> 1 \<le> n \<and> n \<le> length xs \<and> x = xs ! (n - 1)"
proof -
  have "numbered xs = enumerate 1 xs" by (simp add: numbered_def enumerate_eq_zip)
  then show ?thesis using in_set_enumerate_eq[of "(n, x)" 1 xs] by auto
qed

text \<open>C28. What a pass of the publish check means. When every earlier step returned an object with the names the check knew of it,
  each step whose mappings are paths to a result, to a field of one that is no wrapper name, or to an input that was
  given, resolves all its arguments. And every reference that goes on behind its step, as \<open>$.steps[0].result\<close> does, computes a number
  of the step it reads below its own. (A reference to a whole step, as \<open>$.steps[5]\<close>, is not looked at:
  \<open>whole_forward_reference_passes\<close> below.)\<close>

theorem publish_pass_resolves:
  assumes "json_get ''verdict'' (chain_verdict lookup spec) = Some (JStr ''pass'')" "parse_steps spec = Inr steps"
    and "(n, step) \<in> set (numbered steps)"
  shows "(\<forall>raw \<in> set (step_mappings step). \<forall>r. step_ref_parse raw n = Some r \<and> sr_tokens r \<noteq> [] \<longrightarrow> sr_predecessor_no r < n)
    \<and> (conforms lookup steps (n - 1) results \<and> (n > 1 \<longrightarrow> prev = Some (last results))
        \<and> (\<forall>raw. JStr raw \<in> snd ` set (ps_args step) \<and> starts_with raw ''$.'' \<longrightarrow> settled_path n raw \<or> given_input input raw)
        \<longrightarrow> (\<exists>args. resolve_args (ps_args step) (step_context ev input prev results) = Inr args))"
proof (intro conjI impI)
  note sp = steps_state_passed[OF chain_verdict_pass[OF assms(1,2)] assms(3), unfolded step_passed_def fst_conv snd_conv]
  then show "\<forall>raw \<in> set (step_mappings step). \<forall>r. step_ref_parse raw n = Some r \<and> sr_tokens r \<noteq> [] \<longrightarrow> sr_predecessor_no r < n"
    by (auto simp: mapping_passed_def)
  assume H: "conforms lookup steps (n - 1) results \<and> (n > 1 \<longrightarrow> prev = Some (last results))
        \<and> (\<forall>raw. JStr raw \<in> snd ` set (ps_args step) \<and> starts_with raw ''$.'' \<longrightarrow> settled_path n raw \<or> given_input input raw)"
  then have conf: "conforms lookup steps (n - 1) results" "n > 1 \<longrightarrow> prev = Some (last results)" by blast+
  show "\<exists>args. resolve_args (ps_args step) (step_context ev input prev results) = Inr args"
  proof (rule resolve_args_ok, intro allI impI)
    fix raw assume raw: "JStr raw \<in> snd ` set (ps_args step) \<and> starts_with raw ''$.''"
    then have "raw \<in> set (step_mappings step)" by (force simp: step_mappings_def List.map_filter_def)
    with sp have mp: "mapping_passed steps n raw (steps_state (Some lookup) steps True)" by blast
    have "n \<le> length steps" using assms(3) by (simp add: numbered_iff)
    show "value_at raw (step_context ev input prev results) \<noteq> None"
    proof (cases "given_input input raw")
      case False
      with H raw have st: "settled_path n raw" by blast
      then obtain r where r: "step_ref_parse raw n = Some r" "0 < sr_predecessor_no r" "sr_tokens r \<noteq> []"
        by (auto simp: settled_path_def)
      then have "(n, raw) \<in> vs_passes (steps_state (Some lookup) steps True)"
        using mp \<open>n \<le> length steps\<close> by (auto simp: mapping_passed_def pred_index_def)
      from settled_resolves[OF st this conf] show ?thesis .
    qed (rule given_input_resolves)
  qed
qed

text \<open>A chain of two steps, the second reading a field the first declares.\<close>

definition two_steps :: "string \<Rightarrow> json" where
  "two_steps mapping =
     JObj [(''steps'', JArr [JObj [(''tool'', JStr ''a'')], JObj [(''args'', JObj [(''x'', JStr mapping)]), (''tool'', JStr ''b'')]])]"

definition declares_rows :: tool_lookup where
  "declares_rows = \<lparr>tl_declared = (\<lambda>t. if t = ''a'' then Some [''rows''] else None), tl_observed = (\<lambda>_. None)\<rparr>"

definition two_parsed :: "string \<Rightarrow> parsed_step list" where
  "two_parsed mapping =
     [\<lparr>ps_tool = ''a'', ps_args = [], ps_prev_whole = False, ps_continue_on_error = False, ps_for_each = None, ps_concurrency = None\<rparr>,
      \<lparr>ps_tool = ''b'', ps_args = [(''x'', JStr mapping)], ps_prev_whole = False, ps_continue_on_error = False, ps_for_each = None, ps_concurrency = None\<rparr>]"

lemma two_steps_parse: "\<not> is_item_ref mapping \<Longrightarrow> parse_steps (two_steps mapping) = Inr (two_parsed mapping)"
  by (simp add: parse_steps_def two_steps_def two_parsed_def parse_chain_step_def parse_step_args_def parse_on_error_def
      parse_for_each_def parse_concurrency_def first_item_ref_def)

lemma two_steps_state:
  assumes "string_shape m = Some ShapePath" "\<not> is_event_ref m" "step_ref_parse m 2 = Some r" "sr_tokens r \<noteq> []"
    "sr_predecessor_no r = 1" "check_step_ref (Some declares_rows) ''a'' r True = RefPass"
  shows "clean (steps_state (Some declares_rows) (two_parsed m) True)"
  using assms
  by (simp add: steps_state_def numbered_def two_parsed_def check_step_def check_near_miss_def near_miss_def inspected_def
      check_mapping_def checked_mapping_def clean_def pred_index_def List.map_filter_def
      numeral_2_eq_2 Let_def)

lemma basis_rows: "path_basis_of declares_rows ''a'' True
    = Some \<lparr>pb_names = [''rows''], pb_array_names = [], pb_source = ''declared'', pb_types = [], pb_runs_sampled = None, pb_drift = []\<rparr>"
  by (simp add: path_basis_of_def declares_rows_def)

lemma ref_prev_2:
  "list_all valid_token ts \<Longrightarrow> step_ref_parse (''$.prev'' @ concat ts) 2
    = Some \<lparr>sr_predecessor_no = 1, sr_is_prev = True, sr_prefix = ''$.prev'', sr_tokens = ts\<rparr>"
  using ref_of_prev[of ts 2] by simp

lemma prev_shape: "list_all valid_token ts \<Longrightarrow> string_shape (''$.prev'' @ concat ts) = Some ShapePath"
  using shape_path[of "''prev''" "concat ts"] token_hd[of ts] by (simp add: at_segment_def root_named_def reference_roots_def plain_root_def)

lemma prev_not_event: "\<not> is_event_ref (''$.prev'' @ s)" "\<not> is_item_ref (''$.prev'' @ s)"
  by (simp_all add: is_event_ref_def is_item_ref_def strip_prefix_def)

lemma rows_pass:
  assumes "list_all valid_token ts" "ts = [''.result'', t] @ us" "t = ''.rows'' \<or> strip_prefix ''.'' t = None"
  shows "json_get ''verdict'' (chain_verdict declares_rows (two_steps (''$.prev'' @ concat ts))) = Some (JStr ''pass'')"
proof -
  let ?m = "''$.prev'' @ concat ts"
  have "strip_prefix ''.'' ''.rows'' = Some ''rows''" by (simp add: strip_prefix_def)
  then have "check_step_ref (Some declares_rows) ''a'' \<lparr>sr_predecessor_no = 1, sr_is_prev = True, sr_prefix = ''$.prev'', sr_tokens = ts\<rparr> True = RefPass"
    using assms(2,3) by (auto simp: check_step_ref_def basis_rows step_ref_name_def Let_def)
  then have "clean (steps_state (Some declares_rows) (two_parsed ?m) True)"
    using assms(1,2) prev_not_event by (intro two_steps_state[OF prev_shape _ ref_prev_2]) auto
  then have "json_get ''verdict'' (overall_verdict (steps_state (Some declares_rows) (two_parsed ?m) True)) = Some (JStr ''pass'')"
    by (simp only: verdict_pass_clean)
  then show ?thesis using two_steps_parse[OF prev_not_event(2)] by (simp add: chain_verdict_def Let_def)
qed

lemma rows_token: "valid_token ''.rows''" "valid_token ''[0]''"
  by (simp_all add: text_eval)

lemma publish_pass_resolves_witness:
  "\<exists>args. resolve_args [(''x'', JStr ''$.prev.result.rows'')]
     (step_context False JNull (Some (JObj [(''rows'', JArr [])])) [JObj [(''rows'', JArr [])]]) = Inr args"
proof -
  let ?m = "''$.prev.result.rows''"
  have toks: "list_all valid_token [''.result'', ''.rows'']" using rows_token valid_result_token by simp
  have pass: "json_get ''verdict'' (chain_verdict declares_rows (two_steps ?m)) = Some (JStr ''pass'')"
    using rows_pass[OF toks, of "''.rows''" "[]"] by simp
  have parse: "parse_steps (two_steps ?m) = Inr (two_parsed ?m)"
    using two_steps_parse[of ?m] prev_not_event(2)[of "''.result.rows''"] by simp
  have "path_parse ?m = Inr \<lparr>path_raw = ?m, path_segments = [PKey ''prev'', PKey ''result'', PKey ''rows'']\<rparr>"
    by (simp add: path_parse_def text_eval)
  then have "settled_path 2 ?m"
    using ref_prev_2[OF toks] by (simp add: settled_path_def ENVELOPE_WRAPPER_KEYS_def)
  moreover have "conforms declares_rows (two_parsed ?m) (2 - 1) [JObj [(''rows'', JArr [])]]"
    by (simp add: conforms_def two_parsed_def basis_rows)
  moreover have "(2, two_parsed ?m ! 1) \<in> set (numbered (two_parsed ?m))" by (simp add: numbered_iff two_parsed_def)
  ultimately show ?thesis
    using publish_pass_resolves[OF pass parse, of 2 "two_parsed ?m ! 1" "[JObj [(''rows'', JArr [])]]" "Some (JObj [(''rows'', JArr [])])" JNull False]
    by (simp add: two_parsed_def)
qed

text \<open>The limit of the verdict: it passes an index into a result it knows to be an object, which no object
  resolves.\<close>

theorem pass_despite_index:
  "json_get ''verdict'' (chain_verdict declares_rows (two_steps ''$.prev.result[0]'')) = Some (JStr ''pass'')
   \<and> value_at ''$.prev.result[0]'' (step_context ev input (Some (JObj m)) results) = None"
proof
  show "json_get ''verdict'' (chain_verdict declares_rows (two_steps ''$.prev.result[0]'')) = Some (JStr ''pass'')"
    using rows_pass[of "[''.result'', ''[0]'']" "''[0]''" "[]"] rows_token valid_result_token by (simp add: strip_prefix_def)
  have "path_parse ''$.prev.result[0]'' = Inr \<lparr>path_raw = ''$.prev.result[0]'', path_segments = [PKey ''prev'', PKey ''result'', PIndex 0]\<rparr>"
    by (simp add: path_parse_def text_eval parse_usize_def parse_digits_def digits_value_def digit_value_def)
  then show "value_at ''$.prev.result[0]'' (step_context ev input (Some (JObj m)) results) = None"
    by (simp add: value_at_def path_resolve_def step_context_def mk_obj_def result_holder_def opt_json_def)
qed

text \<open>A forward reference to a whole step passes too: the second of two steps maps the sixth, and fails on it when it runs.\<close>

theorem whole_forward_reference_passes:
  "json_get ''verdict'' (chain_verdict declares_rows (two_steps ''$.steps[5]'')) = Some (JStr ''pass'')
   \<and> resolve_args (ps_args (two_parsed ''$.steps[5]'' ! 1)) (step_context ev input prev [r]) = Inl ''$.steps[5]''"
proof
  let ?m = "''$.steps[5]''"
  have five: "parse_usize ''5'' = Some 5" by (simp add: parse_usize_def parse_digits_def digits_value_def digit_value_def is_ascii_digit_def scalar_def u64_max_def)
  have ref: "step_ref_parse ?m n = Some \<lparr>sr_predecessor_no = wrap_u64 6, sr_is_prev = False, sr_prefix = ''$.steps['' @ show_nat 5 @ '']'', sr_tokens = []\<rparr>" for n
    using ref_of_steps[of "[]" "''5''" 5 n] five by (simp add: is_ascii_digit_def scalar_def)
  have shape: "string_shape ?m = Some ShapePath"
    using shape_path[of "''steps''" "''[5]''"] by (simp add: at_boundary_def at_segment_def root_named_def reference_roots_def plain_root_def)
  have plain: "\<not> is_event_ref ?m" "\<not> is_item_ref ?m" by (simp_all add: is_event_ref_def is_item_ref_def strip_prefix_def)
  have "clean (steps_state (Some declares_rows) (two_parsed ?m) True)"
    using shape plain(1) ref
    by (simp add: steps_state_def numbered_def two_parsed_def check_step_def check_near_miss_def near_miss_def inspected_def
        check_mapping_def clean_def List.map_filter_def numeral_2_eq_2 Let_def)
  then have "json_get ''verdict'' (overall_verdict (steps_state (Some declares_rows) (two_parsed ?m) True)) = Some (JStr ''pass'')"
    by (simp only: verdict_pass_clean)
  then show "json_get ''verdict'' (chain_verdict declares_rows (two_steps ?m)) = Some (JStr ''pass'')"
    using two_steps_parse[OF plain(2)] by (simp add: chain_verdict_def Let_def)
  have "path_parse ?m = Inr \<lparr>path_raw = ?m, path_segments = [PKey ''steps'', PIndex 5]\<rparr>"
    using five by (simp add: path_parse_def text_eval)
  then have "value_at ?m (step_context ev input prev [r]) = None"
    by (simp add: value_at_def path_resolve_def step_context_def mk_obj_def result_holder_def opt_json_def)
  then show "resolve_args (ps_args (two_parsed ?m ! 1)) (step_context ev input prev [r]) = Inl ?m"
    by (simp add: two_parsed_def resolve_args_def)
qed

end
