(* ===== verification/ChainRun.thy ===== *)
theory ChainRun
  imports ChainSpec Budget
begin

text \<open>
  A \<open>chain\<close> as it runs: \<open>compose_call_ref\<close> and \<open>compose_dispatch\<close> of \<open>src/kinds/mod.rs\<close>, through which a tool calls
  another with the ceilings of a call tree, and \<open>ChainKind::call\<close>, \<open>run_fanout\<close> and \<open>dry_run_report\<close> of \<open>kinds/chain.rs\<close>.

  The world is what a call can change: the counter of child calls its tree shares, the run rows, the stored results,
  the observed outputs, the lineage edges reported, the shared budget, and whatever else the tools see. A tool of a
  kind other than \<open>chain\<close> is any program of effects, readings and nested calls (\<open>mcphost.call\<close>). The clock, the tools
  stored, the argument validation of the other kinds and the \<open>host.*\<close> verbs are arguments. \<open>cx_fixtures\<close> is the task-local \<open>DRY_RUN_FIXTURES\<close>. A dispatch is one step of
  an interleaving, at the moment it ends; the order in which the items of a \<open>for_each\<close> step start and end is an
  argument too.
\<close>

section \<open>The world\<close>

record composed_run =
  cr_run_id :: string
  cr_parent_run_id :: string
  cr_trigger_ref :: string
  cr_tool_name :: string
  cr_step_no :: "nat option"
  cr_item_index :: "nat option"
  cr_parent_tool :: string
  cr_status :: string
  cr_error_class :: "string option"
  cr_result_ref :: "json option"

record 'w compose_world =
  cw_children :: nat
  cw_next_id :: nat
  cw_runs :: "composed_run list"
  cw_parts :: "(string \<times> json) list"
  cw_observed :: "string \<Rightarrow> observed_outputs option"
  cw_edges :: "(string \<times> bool \<times> string) list"
  cw_budget :: "budget_tracker option"
  cw_progress :: "json option"
  cw_alerts :: "budget_alert list"
  cw_env :: 'w

text \<open>The call context: the fields composition reads. \<open>cx_counted\<close>, \<open>cx_db\<close> and \<open>cx_kinds\<close> say whether
  \<open>compose_children\<close>, \<open>compose_db\<close> and \<open>compose_kinds\<close> are there.\<close>

record call_ctx =
  cx_tool_name :: "string option"
  cx_compose_depth :: nat
  cx_counted :: bool
  cx_db :: bool
  cx_kinds :: bool
  cx_host_dispatch :: bool
  cx_test_mode :: bool
  cx_deadline :: int
  cx_chain_fanout_max :: nat
  cx_concurrent_calls :: nat
  cx_parent_run_id :: "string option"
  cx_prev_result :: "json option"
  cx_event_fired :: bool
  cx_fixtures :: "(string \<times> json) list option"

text \<open>What a tool of another kind does: it ends with a result, reads and changes what it sees, or calls a tool with a
  timeout of its own.\<close>

datatype (dead 'w) tool_prog =
    ToolDone "kind_error + json"
  | ToolAct "'w \<Rightarrow> 'w" "'w \<Rightarrow> 'w tool_prog"
  | ToolCall string json "nat option" "kind_error + json \<Rightarrow> 'w tool_prog"

datatype fan_event = FanStart nat | FanFinish nat

record 'w services =
  sv_get_tool :: "string \<Rightarrow> string + (string \<times> json) option"
  sv_registered :: "string \<Rightarrow> bool"
  sv_declared :: "string \<Rightarrow> json \<Rightarrow> string list"
  sv_args_error :: "string \<Rightarrow> json \<Rightarrow> json \<Rightarrow> kind_error option"
  sv_run :: "string \<Rightarrow> json \<Rightarrow> json \<Rightarrow> call_ctx \<Rightarrow> 'w tool_prog"
  sv_host :: "string \<Rightarrow> json \<Rightarrow> 'w \<Rightarrow> (kind_error + json) \<times> 'w"
  sv_instant :: "'w \<Rightarrow> int"
  sv_unix_ms :: "'w \<Rightarrow> int"
  sv_schedule :: "'w \<Rightarrow> fan_event list"
  sv_ulid :: "nat \<Rightarrow> string"
  sv_print :: "json \<Rightarrow> string"
  sv_next_upgrade :: "string \<Rightarrow> int \<Rightarrow> int \<Rightarrow> json"

type_synonym 'w outcome = "(kind_error + json) \<times> 'w compose_world"

type_synonym 'w dispatcher =
  "string \<Rightarrow> json \<Rightarrow> nat option \<Rightarrow> nat option \<Rightarrow> nat option \<Rightarrow> json option \<Rightarrow> 'w compose_world \<Rightarrow> 'w outcome"

primrec run_prog :: "'w dispatcher \<Rightarrow> 'w tool_prog \<Rightarrow> 'w compose_world \<Rightarrow> 'w outcome" where
  "run_prog call (ToolDone r) w = (r, w)"
| "run_prog call (ToolAct f k) w = (let e = f (cw_env w) in run_prog call (k e) (w\<lparr>cw_env := e\<rparr>))"
| "run_prog call (ToolCall target args timeout_s k) w =
     (let (r, w') = call target args timeout_s None None None w in run_prog call (k r) w')"

fun kind_error_parts :: "kind_error \<Rightarrow> string \<times> string \<times> json" where
  "kind_error_parts (KStructured c m d) = (c, m, d)"
| "kind_error_parts (KInvalidSpec m) = (''invalid_spec'', m, JNull)"
| "kind_error_parts (KInvalidArgs m) = (''args_invalid'', m, JNull)"
| "kind_error_parts (KExec m) = (''exec'', m, JNull)"

fun kind_error_display :: "kind_error \<Rightarrow> string" where
  "kind_error_display (KStructured c m d) = m"
| "kind_error_display (KInvalidSpec m) = ''invalid spec: '' @ m"
| "kind_error_display (KInvalidArgs m) = ''invalid arguments: '' @ m"
| "kind_error_display (KExec m) = ''execution failed: '' @ m"

definition kstruct :: "string \<Rightarrow> string \<Rightarrow> kind_error" where
  "kstruct c m = KStructured c m JNull"

definition in_quotes :: "string \<Rightarrow> string" where
  "in_quotes s = [CHR 0x27] @ s @ [CHR 0x27]"

section \<open>Calls of a tree\<close>

definition COMPOSE_DEPTH_MAX :: nat where
  "COMPOSE_DEPTH_MAX = 4"

definition COMPOSE_CHILDREN_MAX :: nat where
  "COMPOSE_CHILDREN_MAX = 50"

definition COMPOSED_IN_FLIGHT :: string where
  "COMPOSED_IN_FLIGHT = ''in_flight''"

text \<open>The budget is asked before a child runs (\<open>None\<close>: go on), and told of it when it succeeded.\<close>

definition budget_refusal :: "'w services \<Rightarrow> 'w compose_world \<Rightarrow> kind_error option \<times> 'w compose_world" where
  "budget_refusal sv w =
     (case cw_budget w of
        None \<Rightarrow> (None, w)
      | Some t \<Rightarrow>
          (let now_ms = sv_unix_ms sv (cw_env w) in
           case tracker_check t now_ms of
             VExceeded d \<Rightarrow>
               (let detail = exceeded_detail (sv_next_upgrade sv) t d now_ms;
                    (t', progress, alert) = persist now_ms (now_ms div 1000) (cw_progress w) t
                in (Some (KStructured ''budget_exceeded'' (''this run'' @ [CHR 0x27] @ ''s budget is exceeded on dimension '' @ in_quotes (dimension_as_str d)) detail),
                    w\<lparr>cw_budget := Some t', cw_progress := (case progress of Some p \<Rightarrow> Some p | None \<Rightarrow> cw_progress w),
                      cw_alerts := cw_alerts w @ (case alert of Some a \<Rightarrow> [a] | None \<Rightarrow> [])\<rparr>))
           | _ \<Rightarrow> (None, w)))"

definition budget_account :: "'w services \<Rightarrow> json \<Rightarrow> json \<Rightarrow> int \<Rightarrow> 'w compose_world \<Rightarrow> 'w compose_world" where
  "budget_account sv args result latency_ms w =
     (case cw_budget w of
        None \<Rightarrow> w
      | Some t \<Rightarrow>
          (let now_ms = sv_unix_ms sv (cw_env w);
               (t', progress, alert) = persist now_ms (now_ms div 1000) (cw_progress w)
                 (tracker_record (estimate_tokens (sv_print sv) args result) latency_ms t)
           in w\<lparr>cw_budget := Some t', cw_progress := (case progress of Some p \<Rightarrow> Some p | None \<Rightarrow> cw_progress w),
                cw_alerts := cw_alerts w @ (case alert of Some a \<Rightarrow> [a] | None \<Rightarrow> [])\<rparr>))"

text \<open>The context of the child.\<close>

definition child_ctx :: "'w services \<Rightarrow> call_ctx \<Rightarrow> string \<Rightarrow> nat option \<Rightarrow> string \<Rightarrow> json option \<Rightarrow> 'w compose_world \<Rightarrow> call_ctx" where
  "child_ctx sv ctx target timeout_s child_run_id prev w =
     ctx\<lparr>cx_tool_name := Some target, cx_compose_depth := cx_compose_depth ctx + 1,
         cx_deadline := (case timeout_s of
            Some secs \<Rightarrow> min (cx_deadline ctx) (sv_instant sv (cw_env w) + int secs * 1000)
          | None \<Rightarrow> cx_deadline ctx),
         cx_parent_run_id := (if cx_parent_run_id ctx \<noteq> None then Some child_run_id else None),
         cx_prev_result := prev\<rparr>"

text \<open>\<open>compose_dispatch\<close>, from its end: the run of the child, the choice of what runs, and the ceilings before it.
  \<open>run\<close> runs a tool of a kind in a child context.\<close>

type_synonym 'w runner = "string \<Rightarrow> json \<Rightarrow> json \<Rightarrow> call_ctx \<Rightarrow> 'w compose_world \<Rightarrow> 'w outcome"

definition run_child :: "'w services \<Rightarrow> 'w runner \<Rightarrow> string \<Rightarrow> json \<Rightarrow> json \<Rightarrow> call_ctx \<Rightarrow> 'w compose_world \<Rightarrow> 'w outcome" where
  "run_child sv run kind spec args child w =
     (case budget_refusal sv w of
        (Some e, w') \<Rightarrow> (Inl e, w')
      | (None, w') \<Rightarrow>
          (case run kind spec args child w' of
             (Inl e, w'') \<Rightarrow> (Inl e, w'')
           | (Inr v, w'') \<Rightarrow> (Inr v, budget_account sv args v (sv_instant sv (cw_env w'') - sv_instant sv (cw_env w')) w'')))"

definition dispatch_target ::
  "'w services \<Rightarrow> 'w runner \<Rightarrow> call_ctx \<Rightarrow> string \<Rightarrow> json \<Rightarrow> nat option \<Rightarrow> string \<Rightarrow> json option \<Rightarrow> 'w compose_world \<Rightarrow> 'w outcome" where
  "dispatch_target sv run ctx target args timeout_s child_run_id prev w =
     (if \<not> cx_db ctx \<or> \<not> cx_kinds ctx then (Inl (KExec ''composition is unavailable in this call context''), w)
      else (case sv_get_tool sv target of
          Inl e \<Rightarrow> (Inl (KExec (''tool lookup failed: '' @ e)), w)
        | Inr None \<Rightarrow>
            if target \<in> set HOST_STEPS_ALLOWED
            then (if \<not> cx_host_dispatch ctx then (Inl (KExec ''host-step dispatch is unavailable in this call context''), w)
                  else (let (r, e) = sv_host sv target args (cw_env w) in (r, w\<lparr>cw_env := e\<rparr>)))
            else (Inl (kstruct ''tool_not_found'' (''no such tool: '' @ target)), w)
        | Inr (Some (kind, spec)) \<Rightarrow>
            if \<not> sv_registered sv kind
            then (Inl (KExec (''published tool names unregistered kind '' @ in_quotes kind)), w)
            else (case (if kind = ''chain'' then None else sv_args_error sv kind spec args) of
                Some e \<Rightarrow> (Inl e, w)
              | None \<Rightarrow> run_child sv run kind spec args (child_ctx sv ctx target timeout_s child_run_id prev w) w)))"

definition compose_dispatch ::
  "'w services \<Rightarrow> 'w runner \<Rightarrow> call_ctx \<Rightarrow> string \<Rightarrow> json \<Rightarrow> nat option \<Rightarrow> string \<Rightarrow> json option \<Rightarrow> 'w compose_world \<Rightarrow> 'w outcome" where
  "compose_dispatch sv run ctx target args timeout_s child_run_id prev w =
     (if cx_tool_name ctx = Some target
      then (Inl (kstruct ''compose_self_call'' (''tool '' @ in_quotes target @ '' cannot call itself'')), w)
      else if cx_compose_depth ctx + 1 > COMPOSE_DEPTH_MAX
      then (Inl (KStructured ''compose_depth_exceeded'' (''composition nesting exceeds the limit of '' @ show_nat COMPOSE_DEPTH_MAX)
                  (mk_obj [(''limit'', JInt (int COMPOSE_DEPTH_MAX))])), w)
      else if \<not> cx_counted ctx then (Inl (KExec ''composition is unavailable in this call context''), w)
      else
        (let used = cw_children w + 1; w1 = w\<lparr>cw_children := used\<rparr> in
         if used > COMPOSE_CHILDREN_MAX
         then (Inl (KStructured ''compose_children_exceeded'' (''this call tree has exceeded '' @ show_nat COMPOSE_CHILDREN_MAX @ '' child calls'')
                     (mk_obj [(''limit'', JInt (int COMPOSE_CHILDREN_MAX))])), w1)
         else dispatch_target sv run ctx target args timeout_s child_run_id prev w1))"

text \<open>The row of a dispatch, written when it starts and settled when it ends. Its times and its end user are left out.\<close>

definition row_for :: "call_ctx \<Rightarrow> string \<Rightarrow> string \<Rightarrow> string \<Rightarrow> nat option \<Rightarrow> nat option \<Rightarrow> composed_run" where
  "row_for ctx run_id parent target step_no item_index =
     \<lparr>cr_run_id = run_id, cr_parent_run_id = parent,
      cr_trigger_ref = (case (item_index, step_no) of
         (Some index, Some step) \<Rightarrow> parent @ ''#'' @ show_nat step @ '':'' @ show_nat index
       | _ \<Rightarrow> parent),
      cr_tool_name = target, cr_step_no = step_no, cr_item_index = item_index,
      cr_parent_tool = (case cx_tool_name ctx of Some t \<Rightarrow> t | None \<Rightarrow> []),
      cr_status = COMPOSED_IN_FLIGHT, cr_error_class = None, cr_result_ref = None\<rparr>"

text \<open>The \<open>UPDATE\<close> of the observed outputs finds a row only for a stored tool.\<close>

definition stored_tool :: "'w services \<Rightarrow> string \<Rightarrow> bool" where
  "stored_tool sv target \<longleftrightarrow> (case sv_get_tool sv target of Inr (Some _) \<Rightarrow> True | _ \<Rightarrow> False)"

text \<open>\<open>finish_composed_run\<close> settles the rows in flight under the id, or else the row is inserted whole.\<close>

definition finish_composed_run :: "composed_run \<Rightarrow> composed_run list \<Rightarrow> composed_run list" where
  "finish_composed_run done rows =
     (let hit = (\<lambda>r. cr_run_id r = cr_run_id done \<and> cr_status r = COMPOSED_IN_FLIGHT) in
      if list_ex hit rows
      then map (\<lambda>r. if hit r then r\<lparr>cr_status := cr_status done, cr_error_class := cr_error_class done, cr_result_ref := cr_result_ref done\<rparr> else r) rows
      else rows @ [done])"

definition settle_run :: "'w services \<Rightarrow> call_ctx \<Rightarrow> composed_run \<Rightarrow> string \<Rightarrow> kind_error + json \<Rightarrow> 'w compose_world \<Rightarrow> 'w compose_world" where
  "settle_run sv ctx row target result w =
     (case result of
        Inl e \<Rightarrow>
          w\<lparr>cw_runs := finish_composed_run (row\<lparr>cr_status := ''failed'', cr_error_class := Some (code (app_of_kind e))\<rparr>) (cw_runs w)\<rparr>
      | Inr v \<Rightarrow>
          (let shape = observed_shape v; bytes = int (str_len (sv_print sv v)) in
           w\<lparr>cw_observed := (if shape \<noteq> [] \<and> stored_tool sv target
                then (cw_observed w)(target \<mapsto> merge_observed_outputs (cw_observed w target) shape) else cw_observed w),
             cw_parts := cw_parts w @ [(cr_run_id row, v)],
             cw_runs := finish_composed_run (row\<lparr>cr_status := ''done'',
                cr_result_ref := Some (mk_obj [(''parts'', JInt 1), (''bytes'', JInt bytes), (''content_type'', JStr ''application/json'')])\<rparr>) (cw_runs w)\<rparr>))"

definition compose_call_ref ::
  "'w services \<Rightarrow> 'w runner \<Rightarrow> call_ctx \<Rightarrow> 'w dispatcher" where
  "compose_call_ref sv run ctx target args timeout_s step_no item_index prev w =
     (let child_run_id = sv_ulid sv (cw_next_id w);
          w0 = w\<lparr>cw_next_id := cw_next_id w + 1\<rparr>;
          row = map_option (\<lambda>parent. row_for ctx child_run_id parent target step_no item_index)
                  (if cx_db ctx then cx_parent_run_id ctx else None);
          w1 = w0\<lparr>cw_runs := cw_runs w0 @ (case row of Some r \<Rightarrow> [r] | None \<Rightarrow> [])\<rparr>;
          (result, w2) = compose_dispatch sv run ctx target args timeout_s child_run_id prev w1;
          w3 = (case cx_tool_name ctx of
                  Some caller \<Rightarrow> if cx_test_mode ctx then w2 else w2\<lparr>cw_edges := cw_edges w2 @ [(caller, step_no \<noteq> None, target)]\<rparr>
                | None \<Rightarrow> w2)
      in (result, case row of Some r \<Rightarrow> settle_run sv ctx r target result w3 | None \<Rightarrow> w3))"

definition record_undispatched_step :: "'w services \<Rightarrow> call_ctx \<Rightarrow> string \<Rightarrow> nat \<Rightarrow> string \<Rightarrow> 'w compose_world \<Rightarrow> 'w compose_world" where
  "record_undispatched_step sv ctx target step_no error_class w =
     (case (if cx_db ctx then cx_parent_run_id ctx else None) of
        None \<Rightarrow> w
      | Some parent \<Rightarrow>
          w\<lparr>cw_next_id := cw_next_id w + 1,
            cw_runs := cw_runs w @ [(row_for ctx (sv_ulid sv (cw_next_id w)) parent target (Some step_no) None)
              \<lparr>cr_status := ''failed'', cr_error_class := Some error_class\<rparr>]\<rparr>)"

section \<open>A step per item\<close>

datatype item_end = ItemDone json | ItemFailed string string | ItemSkipped

datatype item_state = ItemWaiting | ItemRunning json | ItemEnded item_end

record 'w fan_state =
  fs_items :: "item_state list"
  fs_stop :: bool
  fs_world :: "'w compose_world"

definition is_running :: "item_state \<Rightarrow> bool" where
  "is_running s \<longleftrightarrow> (case s of ItemRunning _ \<Rightarrow> True | _ \<Rightarrow> False)"

definition in_flight :: "'w fan_state \<Rightarrow> nat" where
  "in_flight f = length (filter is_running (fs_items f))"

definition deadline_message :: string where
  "deadline_message = ''the chain'' @ [CHR 0x27] @ ''s deadline passed before this item could start''"

text \<open>An item that gets a permit is skipped after a stop, fails past the deadline or on a mapping, and is dispatched
  otherwise.\<close>

definition start_item :: "'w services \<Rightarrow> call_ctx \<Rightarrow> parsed_step \<Rightarrow> json \<Rightarrow> json list \<Rightarrow> nat \<Rightarrow> 'w fan_state \<Rightarrow> item_state" where
  "start_item sv ctx step context items index f =
     (if fs_stop f then ItemEnded ItemSkipped
      else if sv_instant sv (cw_env (fs_world f)) \<ge> cx_deadline ctx then ItemEnded (ItemFailed ''deadline_exceeded'' deadline_message)
      else (case resolve_args (ps_args step) (item_context context (items ! index) index) of
          Inl bad \<Rightarrow> ItemEnded (ItemFailed ''compose_mapping_missing'' (''mapping path '' @ in_quotes bad @ '' resolved to nothing''))
        | Inr args \<Rightarrow> ItemRunning args))"

fun fan_step ::
  "'w services \<Rightarrow> call_ctx \<Rightarrow> 'w dispatcher \<Rightarrow> parsed_step \<Rightarrow> nat \<Rightarrow> json \<Rightarrow> json list \<Rightarrow> nat \<Rightarrow> fan_event \<Rightarrow> 'w fan_state \<Rightarrow> 'w fan_state" where
  "fan_step sv ctx call step step_no context items width (FanStart i) f =
     (if i < length (fs_items f) \<and> fs_items f ! i = ItemWaiting \<and> in_flight f < width
      then f\<lparr>fs_items := (fs_items f)[i := start_item sv ctx step context items i f]\<rparr> else f)"
| "fan_step sv ctx call step step_no context items width (FanFinish i) f =
     (if i < length (fs_items f)
      then (case fs_items f ! i of
          ItemRunning args \<Rightarrow>
            (let (r, w) = call (ps_tool step) args None (Some step_no) (Some i) (json_get ''result'' (json_at ''prev'' context)) (fs_world f)
             in case r of
                  Inr v \<Rightarrow> f\<lparr>fs_items := (fs_items f)[i := ItemEnded (ItemDone v)], fs_world := w\<rparr>
                | Inl e \<Rightarrow> (let (c, m, _) = kind_error_parts e in
                    f\<lparr>fs_items := (fs_items f)[i := ItemEnded (ItemFailed c m)],
                      fs_stop := fs_stop f \<or> \<not> ps_continue_on_error step, fs_world := w\<rparr>))
        | _ \<Rightarrow> f)
      else f)"

text \<open>The schedule may leave items: they are then run to their end in order, so that every item has ended.\<close>

definition drain :: "nat \<Rightarrow> fan_event list" where
  "drain n = map FanFinish [0..<n] @ concat (map (\<lambda>i. [FanStart i, FanFinish i]) [0..<n])"

definition run_items ::
  "'w services \<Rightarrow> call_ctx \<Rightarrow> 'w dispatcher \<Rightarrow> parsed_step \<Rightarrow> nat \<Rightarrow> json \<Rightarrow> json list \<Rightarrow> nat \<Rightarrow> fan_event list \<Rightarrow> 'w compose_world \<Rightarrow> 'w fan_state" where
  "run_items sv ctx call step step_no context items width events w =
     fold (fan_step sv ctx call step step_no context items width) (events @ drain (length items))
       \<lparr>fs_items = replicate (length items) ItemWaiting, fs_stop = False, fs_world = w\<rparr>"

record fanout_outcome =
  fo_join :: json
  fo_failed_count :: nat
  fo_first_failure :: "(nat \<times> string \<times> string) option"
  fo_concurrency :: nat

fun end_value :: "item_state \<Rightarrow> json" where
  "end_value (ItemEnded (ItemDone v)) = v"
| "end_value _ = JNull"

fun end_failure :: "nat \<times> item_state \<Rightarrow> (nat \<times> string \<times> string) option" where
  "end_failure (i, ItemEnded (ItemFailed c m)) = Some (i, c, m)"
| "end_failure _ = None"

definition is_done :: "item_state \<Rightarrow> bool" where
  "is_done s \<longleftrightarrow> (case s of ItemEnded (ItemDone _) \<Rightarrow> True | _ \<Rightarrow> False)"

definition join_items :: "item_state list \<Rightarrow> nat \<Rightarrow> fanout_outcome" where
  "join_items ends width =
     (let failures = List.map_filter end_failure (zip [0..<length ends] ends);
          failed = map (\<lambda>(i, c, m). mk_obj [(''index'', JInt (int i)), (''error_code'', JStr c), (''message'', JStr m)]) failures
      in \<lparr>fo_join = mk_obj [(''items'', JArr (map end_value ends)), (''failed'', JArr failed),
             (''ok'', JInt (int (length (filter is_done ends)))), (''failed_count'', JInt (int (length failed)))],
          fo_failed_count = length failed,
          fo_first_failure = (case failures of x # _ \<Rightarrow> Some x | [] \<Rightarrow> None),
          fo_concurrency = width\<rparr>)"

text \<open>\<open>clamp(1, MAX_PERMITS)\<close> of the smaller of the step's and the plan's limit.\<close>

definition fan_width :: "call_ctx \<Rightarrow> parsed_step \<Rightarrow> nat" where
  "fan_width ctx step =
     max 1 (min (min (case ps_concurrency step of Some c \<Rightarrow> c | None \<Rightarrow> u64_max) (cx_concurrent_calls ctx)) (u64_max div 8))"

definition fan_error_data :: "string \<Rightarrow> nat \<Rightarrow> parsed_step \<Rightarrow> (string \<times> json) list \<Rightarrow> json" where
  "fan_error_data path step_no step extra =
     mk_obj ([(''path'', JStr path), (''failed_step'', JInt (int step_no)), (''step_tool'', JStr (ps_tool step))] @ extra)"

definition step_label :: "nat \<Rightarrow> parsed_step \<Rightarrow> string" where
  "step_label step_no step = ''step '' @ show_nat step_no @ '' ('' @ in_quotes (ps_tool step) @ ''): ''"

definition run_fanout ::
  "'w services \<Rightarrow> call_ctx \<Rightarrow> 'w dispatcher \<Rightarrow> parsed_step \<Rightarrow> nat \<Rightarrow> json \<Rightarrow> string \<Rightarrow> 'w compose_world
     \<Rightarrow> (kind_error + fanout_outcome) \<times> 'w compose_world" where
  "run_fanout sv ctx call step step_no context path w =
     (case value_at path context of
        None \<Rightarrow> (Inl (KStructured ''compose_mapping_missing'' (step_label step_no step @ ''for_each path '' @ in_quotes path @ '' resolved to nothing'')
                   (fan_error_data path step_no step [])), w)
      | Some v \<Rightarrow>
          (case as_array v of
             None \<Rightarrow> (Inl (KStructured ''compose_mapping_type''
                        (step_label step_no step @ ''for_each path '' @ in_quotes path @ '' is '' @ plain_json_type_name v @ '', expected an array'')
                        (fan_error_data path step_no step [(''expected'', JStr ''array''), (''actual'', JStr (plain_json_type_name v))])), w)
           | Some items \<Rightarrow>
               if length items > cx_chain_fanout_max ctx
               then (Inl (KStructured ''compose_fanout_exceeded''
                      (step_label step_no step @ show_nat (length items) @ '' items exceed this plan'' @ [CHR 0x27] @ ''s chain_fanout_max of ''
                         @ show_nat (cx_chain_fanout_max ctx))
                      (mk_obj [(''limit'', JInt (int (cx_chain_fanout_max ctx))), (''actual'', JInt (int (length items)))])), w)
               else
                 (let width = fan_width ctx step;
                      f = run_items sv ctx call step step_no context items width (sv_schedule sv (cw_env w)) w
                  in (Inr (join_items (fs_items f) width), fs_world f))))"

section \<open>The call of a chain\<close>

definition actual_result_evidence :: "step_ref \<Rightarrow> json \<Rightarrow> (string \<times> json) list" where
  "actual_result_evidence r base =
     (let available = object_keys base;
          suggestion = (case step_ref_name r 0 of
              None \<Rightarrow> None
            | Some seg \<Rightarrow>
                if seg \<notin> set (accepted_keys r)
                then map_option (\<lambda>near. rebuilt r [''result''] (Some (0, near))) (closest_name seg available)
                else (case step_ref_name r 1 of
                    None \<Rightarrow> None
                  | Some field \<Rightarrow>
                      if seg = ''result'' \<and> field \<notin> set available
                      then map_option (\<lambda>near. rebuilt r [] (Some (1, near))) (closest_name field available)
                      else None))
      in obj_insert ''available'' (JStrs available)
           (case suggestion of Some sg \<Rightarrow> [(''did_you_mean'', JStr sg)] | None \<Rightarrow> []))"

definition project_outputs :: "bool \<Rightarrow> output_decl list \<Rightarrow> json \<Rightarrow> json option \<Rightarrow> json list \<Rightarrow> json \<Rightarrow> json option" where
  "project_outputs event_fired declared input prev step_results last_result =
     (if declared = [] then None
      else
        (let with_path = filter (\<lambda>d. od_path d \<noteq> None) declared;
             bare = filter (\<lambda>d. od_path d = None) declared;
             payload = (case as_object last_result of Some m \<Rightarrow> m | None \<Rightarrow> []);
             payload1 = apply_output_decls payload (step_context event_fired input prev step_results) with_path None
         in Some (JObj (apply_output_decls payload1 last_result bare None))))"

record chain_state =
  cs_trace :: "json list"
  cs_results :: "json list"
  cs_prev :: "json option"
  cs_failed :: "nat list"
  cs_last_ok :: "json option"

definition error_entry :: "nat \<Rightarrow> parsed_step \<Rightarrow> string \<Rightarrow> json" where
  "error_entry step_no step error_class =
     mk_obj [(''step'', JInt (int step_no)), (''tool'', JStr (ps_tool step)), (''status'', JStr ''error''), (''error_class'', JStr error_class)]"

text \<open>A tolerated failure leaves no result.\<close>

definition step_failed :: "nat \<Rightarrow> parsed_step \<Rightarrow> string \<Rightarrow> chain_state \<Rightarrow> chain_state" where
  "step_failed step_no step error_class st =
     st\<lparr>cs_failed := cs_failed st @ [step_no], cs_trace := cs_trace st @ [error_entry step_no step error_class],
        cs_results := cs_results st @ [JNull], cs_prev := None\<rparr>"

definition step_done :: "json \<Rightarrow> json \<Rightarrow> chain_state \<Rightarrow> chain_state" where
  "step_done entry result st =
     st\<lparr>cs_trace := cs_trace st @ [entry], cs_results := cs_results st @ [result], cs_prev := Some result, cs_last_ok := Some result\<rparr>"

definition fanout_entry :: "nat \<Rightarrow> parsed_step \<Rightarrow> string \<Rightarrow> fanout_outcome \<Rightarrow> json" where
  "fanout_entry step_no step path out =
     mk_obj ([(''step'', JInt (int step_no)), (''tool'', JStr (ps_tool step)),
              (''status'', JStr (if fo_failed_count out = 0 then ''done'' else ''error'')), (''result'', fo_join out),
              (''fanout'', mk_obj [(''path'', JStr path), (''concurrency'', JInt (int (fo_concurrency out)))])]
             @ (if fo_failed_count out > 0 then [(''error_class'', JStr ''compose_fanout_item_failed'')] else []))"

definition chain_fan_step ::
  "'w services \<Rightarrow> call_ctx \<Rightarrow> 'w dispatcher \<Rightarrow> nat \<Rightarrow> parsed_step \<Rightarrow> string \<Rightarrow> json \<Rightarrow> chain_state \<Rightarrow> 'w compose_world
     \<Rightarrow> (kind_error + chain_state) \<times> 'w compose_world" where
  "chain_fan_step sv ctx call step_no step path context st w =
     (case run_fanout sv ctx call step step_no context path w of
        (Inr out, w') \<Rightarrow>
          (case (if ps_continue_on_error step then None else fo_first_failure out) of
             Some (index, c, m) \<Rightarrow>
               (Inl (KStructured ''compose_fanout_item_failed'' (step_label step_no step @ ''item '' @ show_nat index @ '' failed with '' @ c @ '': '' @ m)
                  (mk_obj [(''step'', JInt (int step_no)), (''index'', JInt (int index)), (''item_error_code'', JStr c), (''message'', JStr m),
                           (''failed_step'', JInt (int step_no)), (''step_tool'', JStr (ps_tool step))])), w')
           | None \<Rightarrow>
               (Inr (step_done (fanout_entry step_no step path out) (fo_join out)
                  (if fo_failed_count out > 0 then st\<lparr>cs_failed := cs_failed st @ [step_no]\<rparr> else st)), w'))
      | (Inl e, w') \<Rightarrow>
          (let (c, _, _) = kind_error_parts e in
           if ps_continue_on_error step \<and> c \<noteq> ''compose_fanout_exceeded'' then (Inr (step_failed step_no step c st), w') else (Inl e, w')))"

definition mapping_error :: "'w services \<Rightarrow> nat \<Rightarrow> parsed_step \<Rightarrow> json \<Rightarrow> string \<Rightarrow> kind_error" where
  "mapping_error sv step_no step context path =
     (let data = [(''path'', JStr path), (''failed_step'', JInt (int step_no)), (''step_tool'', JStr (ps_tool step))];
          evidence = Option.bind (step_ref_parse path step_no) (\<lambda>r. map_option (actual_result_evidence r) (base_result r context))
      in KStructured ''compose_mapping_missing''
           (step_label step_no step @ ''mapping path '' @ in_quotes path @ '' resolved to nothing''
              @ (case evidence of
                   None \<Rightarrow> []
                 | Some ev \<Rightarrow>
                     ''; available: '' @ sv_print sv (the (map_of ev ''available''))
                       @ (case Option.bind (map_of ev ''did_you_mean'') as_str of Some d \<Rightarrow> ''; did you mean '' @ in_quotes d | None \<Rightarrow> [])))
           (mk_obj (data @ (case evidence of Some ev \<Rightarrow> ev | None \<Rightarrow> []))))"

definition dispatch_error :: "nat \<Rightarrow> parsed_step \<Rightarrow> kind_error \<Rightarrow> kind_error" where
  "dispatch_error step_no step e =
     (let (c, m, data) = kind_error_parts e in
      KStructured c (step_label step_no step @ m)
        (case data of
           JObj obj \<Rightarrow> JObj (obj_insert ''step_tool'' (JStr (ps_tool step)) (obj_insert ''failed_step'' (JInt (int step_no)) obj))
         | _ \<Rightarrow> mk_obj [(''failed_step'', JInt (int step_no)), (''step_tool'', JStr (ps_tool step))]))"

text \<open>One turn of the loop of \<open>ChainKind::call\<close>.\<close>

definition chain_step ::
  "'w services \<Rightarrow> call_ctx \<Rightarrow> 'w dispatcher \<Rightarrow> json \<Rightarrow> nat \<times> parsed_step \<Rightarrow> chain_state \<Rightarrow> 'w compose_world
     \<Rightarrow> (kind_error + chain_state) \<times> 'w compose_world" where
  "chain_step sv ctx call input ns st w =
     (let (step_no, step) = ns; context = step_context (cx_event_fired ctx) input (cs_prev st) (cs_results st) in
      case ps_for_each step of
        Some path \<Rightarrow> chain_fan_step sv ctx call step_no step path context st w
      | None \<Rightarrow>
          (case (if ps_prev_whole step then (case cs_prev st of Some v \<Rightarrow> Inr v | None \<Rightarrow> Inl ''$.prev'') else resolve_args (ps_args step) context) of
             Inl path \<Rightarrow>
               if ps_continue_on_error step
               then (Inr (step_failed step_no step ''compose_mapping_missing'' st),
                     record_undispatched_step sv ctx (ps_tool step) step_no ''compose_mapping_missing'' w)
               else (Inl (mapping_error sv step_no step context path), w)
           | Inr args \<Rightarrow>
               (case call (ps_tool step) args None (Some step_no) None (cs_prev st) w of
                  (Inr result, w') \<Rightarrow>
                    (Inr (step_done (mk_obj [(''step'', JInt (int step_no)), (''tool'', JStr (ps_tool step)), (''status'', JStr ''done''), (''result'', result)]) result st), w')
                | (Inl e, w') \<Rightarrow>
                    if ps_continue_on_error step then (Inr (step_failed step_no step (fst (kind_error_parts e)) st), w')
                    else (Inl (dispatch_error step_no step e), w'))))"

fun chain_loop ::
  "'w services \<Rightarrow> call_ctx \<Rightarrow> 'w dispatcher \<Rightarrow> json \<Rightarrow> (nat \<times> parsed_step) list \<Rightarrow> chain_state \<Rightarrow> 'w compose_world
     \<Rightarrow> (kind_error + chain_state) \<times> 'w compose_world" where
  "chain_loop sv ctx call input [] st w = (Inr st, w)"
| "chain_loop sv ctx call input (ns # rest) st w =
     (case chain_step sv ctx call input ns st w of
        (Inl e, w') \<Rightarrow> (Inl e, w')
      | (Inr st', w') \<Rightarrow> chain_loop sv ctx call input rest st' w')"

definition chain_result :: "'w services \<Rightarrow> call_ctx \<Rightarrow> json \<Rightarrow> json \<Rightarrow> chain_state \<Rightarrow> kind_error + json" where
  "chain_result sv ctx spec input st =
     (let result = (case cs_last_ok st of Some v \<Rightarrow> v | None \<Rightarrow> JNull) in
      case spec_declared_outputs (sv_print sv) spec of
        Inl e \<Rightarrow> Inl e
      | Inr declared \<Rightarrow>
          Inr (mk_obj ([(''result'', result), (''steps'', JArr (cs_trace st)), (''failed_steps'', JArr (map (\<lambda>n. JInt (int n)) (cs_failed st)))]
                @ (case project_outputs (cx_event_fired ctx) declared input (cs_prev st) (cs_results st) result of
                     Some payload \<Rightarrow> [(''payload'', payload)] | None \<Rightarrow> []))))"

text \<open>\<open>ChainKind::call\<close> outside a test.\<close>

definition chain_call :: "'w services \<Rightarrow> call_ctx \<Rightarrow> 'w dispatcher \<Rightarrow> json \<Rightarrow> json \<Rightarrow> 'w compose_world \<Rightarrow> 'w outcome" where
  "chain_call sv ctx call spec args w =
     (case parse_steps spec of
        Inl e \<Rightarrow> (Inl e, w)
      | Inr steps \<Rightarrow>
          (let missing = missing_inputs steps args in
           if missing \<noteq> [] then (Inl (input_missing_error (cx_tool_name ctx) missing), w)
           else (case chain_loop sv ctx call args (numbered steps)
                        \<lparr>cs_trace = [], cs_results = [], cs_prev = None, cs_failed = [], cs_last_ok = None\<rparr> w of
               (Inl e, w') \<Rightarrow> (Inl e, w')
             | (Inr st, w') \<Rightarrow> (chain_result sv ctx spec args st, w'))))"

section \<open>The dry run\<close>

definition tenant_lookup :: "'w services \<Rightarrow> 'w compose_world \<Rightarrow> tool_lookup" where
  "tenant_lookup sv w =
     \<lparr>tl_declared = (\<lambda>tool. case sv_get_tool sv tool of
          Inr (Some (kind, spec)) \<Rightarrow>
            if \<not> sv_registered sv kind then None
            else if kind = ''chain'' then Some (case spec_declared_outputs (sv_print sv) spec of Inr ds \<Rightarrow> map od_name ds | Inl _ \<Rightarrow> [])
            else Some (sv_declared sv kind spec)
        | _ \<Rightarrow> None),
      tl_observed = cw_observed w\<rparr>"

definition ctx_lookup :: "'w services \<Rightarrow> call_ctx \<Rightarrow> 'w compose_world \<Rightarrow> tool_lookup option" where
  "ctx_lookup sv ctx w = (if cx_db ctx \<and> cx_kinds ctx then Some (tenant_lookup sv w) else None)"

text \<open>A predecessor is run once, in the context of the dry run; past the deadline its result is not waited for.\<close>

definition dry_run_predecessor :: "'w services \<Rightarrow> call_ctx \<Rightarrow> 'w dispatcher \<Rightarrow> string \<Rightarrow> json \<Rightarrow> 'w compose_world \<Rightarrow> (string + json) \<times> 'w compose_world" where
  "dry_run_predecessor sv ctx call tool args w =
     (if \<not> cx_db ctx \<or> \<not> cx_kinds ctx then (Inl ''no tool lookup available in this call context'', w)
      else (case sv_get_tool sv tool of
          Inl e \<Rightarrow> (Inl (''tool lookup failed: '' @ e), w)
        | Inr None \<Rightarrow> (Inl (''no such tool: '' @ tool), w)
        | Inr (Some (kind, spec)) \<Rightarrow>
            if \<not> sv_registered sv kind then (Inl (''unregistered kind '' @ in_quotes kind), w)
            else if kind = ''chain'' then (Inl ''a nested chain has no single result shape to dry-run'', w)
            else (let (r, w') = run_prog call (sv_run sv kind spec args ctx) w in
              if sv_instant sv (cw_env w') > cx_deadline ctx then (Inl ''dry run deadline reached'', w')
              else (case r of
                  Inl e \<Rightarrow> (Inl (kind_error_display e), w')
                | Inr v \<Rightarrow> (Inr (if kind = ''http'' \<and> json_get ''response'' v \<noteq> None then json_at ''response'' v else v), w')))))"

definition steps_using :: "parsed_step list \<Rightarrow> string \<Rightarrow> nat list" where
  "steps_using steps tool = map fst (filter (\<lambda>(_, st). ps_tool st = tool) (numbered steps))"

definition fixture_step :: "parsed_step list \<Rightarrow> string \<Rightarrow> kind_error + nat" where
  "fixture_step steps key =
     (let unknown = (\<lambda>m. KStructured ''fixture_step_unknown'' (''fixture key '' @ in_quotes key @ '': '' @ m)
            (mk_obj [(''key'', JStr key), (''steps'', JInt (int (length steps)))]))
      in case parse_usize key of
           Some n \<Rightarrow> if n = 0 \<or> n > length steps then Inl (unknown (''the chain has '' @ show_nat (length steps) @ '' steps'')) else Inr n
         | None \<Rightarrow>
             (case steps_using steps key of
                [] \<Rightarrow> Inl (unknown ''no step uses a tool with that name'')
              | [n] \<Rightarrow> Inr n
              | ns \<Rightarrow> Inl (KStructured ''fixture_step_ambiguous''
                  (''fixture key '' @ in_quotes key @ '': steps ['' @ join '', '' (map show_nat ns) @ ''] all use that tool; use the step number'')
                  (mk_obj [(''key'', JStr key), (''steps'', JArr (map (\<lambda>n. JInt (int n)) ns))]))))"

fun resolve_fixture_steps :: "parsed_step list \<Rightarrow> (string \<times> json) list \<Rightarrow> (nat \<times> json) list \<Rightarrow> kind_error + (nat \<times> json) list" where
  "resolve_fixture_steps steps [] out = Inr out"
| "resolve_fixture_steps steps ((key, value) # raw) out =
     (case fixture_step steps key of
        Inl e \<Rightarrow> Inl e
      | Inr n \<Rightarrow> resolve_fixture_steps steps raw (obj_insert n value out))"

definition fixture_shape_error :: "tool_lookup \<Rightarrow> parsed_step list \<Rightarrow> nat \<times> json \<Rightarrow> kind_error option" where
  "fixture_shape_error lookup steps nf =
     (let (step_no, fixture) = nf; tool = ps_tool (steps ! (step_no - 1));
          expected = (case tl_declared lookup tool of Some d \<Rightarrow> d | None \<Rightarrow> []); given = object_keys fixture
      in if expected = [] \<or> list_ex (\<lambda>k. k \<in> set given) expected then None
         else Some (KStructured ''fixture_shape_mismatch''
           (''fixture for step '' @ show_nat step_no @ '' ('' @ in_quotes tool @ '') carries none of the declared outputs '' @ debug_strs expected
              @ '' (given keys '' @ debug_strs given @ '')'')
           (mk_obj [(''step'', JInt (int step_no)), (''expected'', JStrs expected), (''given'', JStrs given)])))"

text \<open>The steps whose result a mapping reads that the static check did not settle, as numbers.\<close>

definition needed_steps :: "parsed_step list \<Rightarrow> (nat \<times> string) set \<Rightarrow> nat set" where
  "needed_steps steps passes =
     set (concat (map (\<lambda>(n, step).
       (if ps_prev_whole step then [n - 1] else [])
       @ List.map_filter (\<lambda>raw. case step_ref_parse raw n of
             Some r \<Rightarrow> if sr_tokens r \<noteq> [] \<and> (n, raw) \<notin> passes then Some (sr_predecessor_no r) else None
           | None \<Rightarrow> None) (step_mappings step)) (numbered steps)))"

record dry_state =
  ds_report :: "json list"
  ds_results :: "json list"
  ds_prev :: "json option"
  ds_failures :: "json list"
  ds_not_runnable :: "(nat \<times> string \<times> string) list"
  ds_unresolved :: "(nat \<times> string) option"

definition note_unresolved :: "nat \<Rightarrow> string \<Rightarrow> dry_state \<Rightarrow> dry_state" where
  "note_unresolved step_no path ds = (if ds_unresolved ds = None then ds\<lparr>ds_unresolved := Some (step_no, path)\<rparr> else ds)"

text \<open>The arguments of one step: the map, whether one is unresolved, and the state.\<close>

fun dry_args ::
  "nat \<Rightarrow> (nat \<times> string) set \<Rightarrow> json \<Rightarrow> (string \<times> json) list \<Rightarrow> (string \<times> json) list \<times> bool \<times> dry_state \<Rightarrow> (string \<times> json) list \<times> bool \<times> dry_state" where
  "dry_args step_no passes context [] acc = acc"
| "dry_args step_no passes context ((k, v) # kvs) (out, unresolved, ds) =
     dry_args step_no passes context kvs
       (case v of
          JStr raw \<Rightarrow>
            if \<not> starts_with raw ''$.'' then (obj_insert k v out, unresolved, ds)
            else (case value_at raw context of
                Some x \<Rightarrow> (obj_insert k x out, unresolved, ds)
              | None \<Rightarrow>
                  if (step_no, raw) \<in> passes then (obj_insert k JNull out, unresolved, ds)
                  else
                    (let ds1 = note_unresolved step_no raw ds;
                         ds2 = (case Option.bind (step_ref_parse raw step_no) (\<lambda>r. map_option (actual_result_evidence r) (base_result r context)) of
                                  Some ev \<Rightarrow> ds1\<lparr>ds_failures := ds_failures ds1 @
                                    [JObj (fold (\<lambda>(k, v). obj_insert k v) ([(''step'', JInt (int step_no)), (''path'', JStr raw)] @ ev) [])]\<rparr>
                                | None \<Rightarrow> ds1)
                     in (obj_insert k (mk_obj [(''unresolved_path'', JStr raw)]) out, True, ds2)))
        | _ \<Rightarrow> (obj_insert k v out, unresolved, ds))"

definition push_dry :: "(string \<times> json) list \<Rightarrow> json option \<Rightarrow> dry_state \<Rightarrow> dry_state" where
  "push_dry entry result ds =
     ds\<lparr>ds_report := ds_report ds @ [mk_obj entry],
        ds_results := ds_results ds @ [case result of Some v \<Rightarrow> v | None \<Rightarrow> JNull], ds_prev := result\<rparr>"

definition dry_step ::
  "'w services \<Rightarrow> call_ctx \<Rightarrow> 'w dispatcher \<Rightarrow> json \<Rightarrow> (nat \<times> string) set \<Rightarrow> nat set \<Rightarrow> (nat \<times> json) list
     \<Rightarrow> nat \<times> parsed_step \<Rightarrow> dry_state \<times> 'w compose_world \<Rightarrow> dry_state \<times> 'w compose_world" where
  "dry_step sv ctx call input passes needed fixtures ns dw =
     (let (step_no, step) = ns; (ds0, w) = dw; prev = ds_prev ds0;
          base = step_context (cx_event_fired ctx) input prev (ds_results ds0);
          found = Option.bind (ps_for_each step) (\<lambda>path. value_at path base);
          array = Option.bind found as_array;
          bad_fan = (case ps_for_each step of Some path \<Rightarrow> array = None \<and> (step_no, path) \<notin> passes | None \<Rightarrow> False);
          ds1 = (if bad_fan then note_unresolved step_no (the (ps_for_each step)) ds0 else ds0);
          context = (if ps_for_each step = None then base
                     else item_context base (case array of Some (x # _) \<Rightarrow> x | _ \<Rightarrow> JNull) 0);
          (out, unresolved1, ds2) = dry_args step_no passes context (ps_args step) ([], bad_fan, ds1);
          unresolved = (unresolved1 \<or> (ps_prev_whole step \<and> prev = None));
          ds = (if ps_prev_whole step \<and> prev = None then note_unresolved step_no ''$.prev'' ds2 else ds2);
          resolved = (if ps_prev_whole step then (case prev of Some v \<Rightarrow> v | None \<Rightarrow> mk_obj [(''unresolved_path'', JStr ''$.prev'')]) else JObj out);
          prev_fields = (case prev of Some (JObj m) \<Rightarrow> if step_no > 1 then [(''prev_fields'', JStrs (map fst m))] else [] | _ \<Rightarrow> []);
          is_host = (ps_tool step \<in> set HOST_STEPS_ALLOWED);
          head = [(''step'', JInt (int step_no)), (''tool'', JStr (ps_tool step)), (''resolved_args'', resolved),
                  (''resolved'', JStr (if is_host then ''host'' else ''tenant''))];
          skipped = (\<lambda>reason. [(''source'', JStr ''skipped''), (''reason'', JStr reason)])
      in case map_of fixtures step_no of
           Some fixture \<Rightarrow> (push_dry (head @ [(''source'', JStr ''fixture''), (''result'', fixture)] @ prev_fields) (Some fixture) ds, w)
         | None \<Rightarrow>
             (case ps_for_each step of
                Some path \<Rightarrow>
                  (push_dry (head @ [(''fanout'', mk_obj [(''path'', JStr path),
                       (''concurrency'', JInt (int (min (case ps_concurrency step of Some c \<Rightarrow> c | None \<Rightarrow> u64_max) (cx_concurrent_calls ctx)))),
                       (''limit'', JInt (int (cx_chain_fanout_max ctx)))])]
                     @ skipped ''a for_each step executes no item in a dry run'' @ prev_fields) None ds, w)
              | None \<Rightarrow>
                  if is_host \<and> \<not> unresolved \<and> cx_host_dispatch ctx
                  then (let (r, e) = sv_host sv (ps_tool step) resolved (cw_env w); w' = w\<lparr>cw_env := e\<rparr>;
                            host = head @ [(''source'', JStr ''dry_run''), (''side_effects'', JBool True), (''dispatched'', JBool True)]
                        in case r of
                             Inr result \<Rightarrow> (push_dry (host @ [(''result'', result)] @ prev_fields) (Some result) ds, w')
                           | Inl err \<Rightarrow>
                               (push_dry (host @ [(''error'', JStr (kind_error_display err))] @ prev_fields) None
                                  (ds\<lparr>ds_not_runnable := ds_not_runnable ds @ [(step_no, ps_tool step, kind_error_display err)]\<rparr>), w'))
                  else if is_host
                  then (push_dry (head @ [(''side_effects'', JBool True)] @ prev_fields
                          @ skipped ''a host step is dispatched only when its arguments resolve'') None ds, w)
                  else if fixtures \<noteq> [] \<or> step_no \<in> needed
                  then (case (if unresolved then (Inl ''its own arguments did not resolve'', w)
                              else dry_run_predecessor sv ctx call (ps_tool step) resolved w) of
                          (Inr result, w') \<Rightarrow>
                            (push_dry (head @ prev_fields @ [(''source'', JStr ''dry_run''), (''dispatched'', JBool True), (''result'', result)]) (Some result) ds, w')
                        | (Inl why, w') \<Rightarrow>
                            (push_dry (head @ prev_fields @ [(''error'', JStr why)] @ skipped why) None
                               (ds\<lparr>ds_not_runnable := ds_not_runnable ds @ [(step_no, ps_tool step, why)]\<rparr>), w'))
                  else (push_dry (head @ prev_fields @ skipped ''no later step reads its result'') None ds, w)))"

text \<open>Of the predecessors that could not be run the source reports one in the order of a \<open>HashSet\<close>; here it is the first.\<close>

definition dry_verdict :: "nat set \<Rightarrow> dry_state \<Rightarrow> string \<times> string option" where
  "dry_verdict needed ds =
     (if ds_failures ds \<noteq> [] then (''will_fail'', None)
      else case find (\<lambda>(n, _). n \<in> needed) (ds_not_runnable ds) of
        Some (n, tool, why) \<Rightarrow>
          (''unverifiable'', Some (''no output schema for step '' @ show_nat n @ '' ('' @ in_quotes tool @ ''), and it could not be dry-run: '' @ why))
      | None \<Rightarrow>
          (case ds_unresolved ds of
             Some (n, path) \<Rightarrow> (''unverifiable'', Some (''step '' @ show_nat n @ '': mapping path '' @ in_quotes path @ '' did not resolve in the dry run''))
           | None \<Rightarrow> (''pass'', None)))"

definition count_source :: "string \<Rightarrow> dry_state \<Rightarrow> json" where
  "count_source source ds = JInt (int (length (filter (\<lambda>e. json_get ''source'' e = Some (JStr source)) (ds_report ds))))"

definition dry_run_report ::
  "'w services \<Rightarrow> call_ctx \<Rightarrow> 'w dispatcher \<Rightarrow> parsed_step list \<Rightarrow> json \<Rightarrow> 'w compose_world \<Rightarrow> 'w outcome" where
  "dry_run_report sv ctx call steps input w =
     (let inputs_required = JStrs (map ir_name (collect_input_refs steps));
          vs = steps_state (ctx_lookup sv ctx w) steps False
      in case (case cx_fixtures ctx of Some raw \<Rightarrow> resolve_fixture_steps steps raw [] | None \<Rightarrow> Inr []) of
           Inl e \<Rightarrow> (Inl e, w)
         | Inr fixtures \<Rightarrow>
             (case Option.bind (ctx_lookup sv ctx w) (\<lambda>l. first_refusal (fixture_shape_error l steps) fixtures) of
                Some e \<Rightarrow> (Inl e, w)
              | None \<Rightarrow>
                  if vs_failures vs \<noteq> []
                  then (Inr (mk_obj [(''chain_dry_run'', JBool True), (''steps'', JArr []), (''inputs_required'', inputs_required),
                               (''verdict'', JStr ''will_fail''), (''failures'', JArr (vs_failures vs)), (''evidence'', JArr (vs_failures vs))]), w)
                  else
                    (let needed = needed_steps steps (vs_passes vs);
                         (ds, w') = fold (dry_step sv ctx call input (vs_passes vs) needed fixtures) (numbered steps)
                           (\<lparr>ds_report = [], ds_results = [], ds_prev = None, ds_failures = [], ds_not_runnable = [], ds_unresolved = None\<rparr>, w);
                         (verdict, reason) = dry_verdict needed ds
                     in (Inr (mk_obj ([(''chain_dry_run'', JBool True), (''steps'', JArr (ds_report ds)), (''inputs_required'', inputs_required),
                               (''executed'', count_source ''dry_run'' ds), (''fixtured'', count_source ''fixture'' ds), (''skipped'', count_source ''skipped'' ds),
                               (''verdict'', JStr verdict)]
                             @ (if verdict = ''will_fail'' then [(''failures'', JArr (ds_failures ds)), (''evidence'', JArr (ds_failures ds))] else [])
                             @ (case reason of Some rs \<Rightarrow> [(''reason'', JStr rs), (''next'', mk_obj [(''tool'', JStr ''host_tool_call'')])] | None \<Rightarrow> []))),
                         w'))))"

definition chain_kind_call :: "'w services \<Rightarrow> call_ctx \<Rightarrow> 'w dispatcher \<Rightarrow> json \<Rightarrow> json \<Rightarrow> 'w compose_world \<Rightarrow> 'w outcome" where
  "chain_kind_call sv ctx call spec args w =
     (if cx_test_mode ctx
      then (case parse_steps spec of Inl e \<Rightarrow> (Inl e, w) | Inr steps \<Rightarrow> dry_run_report sv ctx call steps args w)
      else chain_call sv ctx call spec args w)"

text \<open>The whole call tree. A child at depth \<open>d\<close> may nest \<open>COMPOSE_DEPTH_MAX - d\<close> more levels, and that is how often
  the dispatcher below can be unfolded: the limit is refused before it runs out.\<close>

primrec tree_run :: "'w services \<Rightarrow> nat \<Rightarrow> string \<Rightarrow> json \<Rightarrow> json \<Rightarrow> call_ctx \<Rightarrow> 'w compose_world \<Rightarrow> 'w outcome" where
  "tree_run sv 0 = (\<lambda>kind spec args ctx w. (Inl (KExec ''unreachable''), w))"
| "tree_run sv (Suc levels) =
     (\<lambda>kind spec args ctx w.
        (let call = compose_call_ref sv (tree_run sv levels) ctx in
         if kind = ''chain'' then chain_kind_call sv ctx call spec args w
         else run_prog call (sv_run sv kind spec args ctx) w))"

definition compose_call :: "'w services \<Rightarrow> call_ctx \<Rightarrow> 'w dispatcher" where
  "compose_call sv ctx = compose_call_ref sv (tree_run sv (COMPOSE_DEPTH_MAX - cx_compose_depth ctx)) ctx"

section \<open>Ceilings\<close>

text \<open>Nesting is refused before the levels of the dispatcher are used up: more levels give the same answers.\<close>

lemma dispatch_ignores_run:
  assumes "COMPOSE_DEPTH_MAX \<le> cx_compose_depth ctx"
  shows "compose_call_ref sv run ctx = compose_call_ref sv run' ctx"
proof -
  have "compose_dispatch sv run ctx target args timeout_s rid prev w = compose_dispatch sv run' ctx target args timeout_s rid prev w"
    for target args timeout_s rid prev w
    using assms by (simp add: compose_dispatch_def)
  then show ?thesis by (intro ext) (simp add: compose_call_ref_def)
qed

lemma child_depth [simp]:
  "cx_compose_depth (child_ctx sv ctx target timeout_s rid prev w) = cx_compose_depth ctx + 1"
  "cx_test_mode (child_ctx sv ctx target timeout_s rid prev w) = cx_test_mode ctx"
  by (simp_all add: child_ctx_def)

lemma dispatch_cong:
  assumes "\<And>kind spec args c w. cx_compose_depth c = cx_compose_depth ctx + 1 \<Longrightarrow> run kind spec args c w = run' kind spec args c w"
  shows "compose_call_ref sv run ctx = compose_call_ref sv run' ctx"
proof -
  have "compose_dispatch sv run ctx target args timeout_s rid prev w = compose_dispatch sv run' ctx target args timeout_s rid prev w"
    for target args timeout_s rid prev w
    unfolding compose_dispatch_def dispatch_target_def run_child_def
    by (simp add: assms Let_def cong: if_cong option.case_cong sum.case_cong)
  then show ?thesis by (intro ext) (simp add: compose_call_ref_def)
qed

lemma levels_enough:
  "COMPOSE_DEPTH_MAX \<le> cx_compose_depth ctx + n \<Longrightarrow>
     compose_call_ref sv (tree_run sv (n + k)) ctx = compose_call_ref sv (tree_run sv n) ctx"
proof (induction n arbitrary: ctx)
  case 0
  then show ?case by (intro dispatch_ignores_run) simp
next
  case (Suc n)
  show ?case
  proof (rule dispatch_cong)
    fix kind spec args and c :: call_ctx and w :: "'a compose_world"
    assume "cx_compose_depth c = cx_compose_depth ctx + 1"
    with Suc.prems have "compose_call_ref sv (tree_run sv (n + k)) c = compose_call_ref sv (tree_run sv n) c"
      by (intro Suc.IH) simp
    then show "tree_run sv (Suc n + k) kind spec args c w = tree_run sv (Suc n) kind spec args c w" by simp
  qed
qed

text \<open>What one tool does by itself, its nested calls aside, raises a quantity by at most \<open>n\<close>.\<close>

primrec raises :: "('w \<Rightarrow> nat) \<Rightarrow> 'w tool_prog \<Rightarrow> nat \<Rightarrow> bool" where
  "raises q (ToolDone r) n = True"
| "raises q (ToolAct f k) n = (\<forall>e. \<exists>m \<le> n. q (f e) \<le> q e + m \<and> raises q (k (f e)) (n - m))"
| "raises q (ToolCall target args timeout_s k) n = (\<forall>r. raises q (k r) n)"

definition potential :: "('w \<Rightarrow> nat) \<Rightarrow> nat \<Rightarrow> 'w compose_world \<Rightarrow> nat" where
  "potential q c w = q (cw_env w) + c * (COMPOSE_CHILDREN_MAX - cw_children w)"

definition no_gain :: "('w \<Rightarrow> nat) \<Rightarrow> nat \<Rightarrow> 'w dispatcher \<Rightarrow> bool" where
  "no_gain q c call \<longleftrightarrow>
     (\<forall>target args timeout_s step_no item prev w. potential q c (snd (call target args timeout_s step_no item prev w)) \<le> potential q c w)"

lemma run_prog_gain:
  assumes "no_gain q c call" "raises q prog n"
  shows "potential q c (snd (run_prog call prog w)) \<le> potential q c w + n"
  using assms(2)
proof (induction prog arbitrary: n w)
  case (ToolAct f k)
  let ?e = "f (cw_env w)"
  from ToolAct.prems obtain m where m: "m \<le> n" "q ?e \<le> q (cw_env w) + m" "raises q (k ?e) (n - m)" by auto
  have "potential q c (snd (run_prog call (k ?e) (w\<lparr>cw_env := ?e\<rparr>))) \<le> potential q c (w\<lparr>cw_env := ?e\<rparr>) + (n - m)"
    using m(3) by (rule ToolAct.IH[OF rangeI])
  with m(1,2) show ?case by (simp add: Let_def potential_def)
next
  case (ToolCall target args timeout_s k)
  obtain r w' where call: "call target args timeout_s None None None w = (r, w')" by fastforce
  then have "potential q c w' \<le> potential q c w" using assms(1) unfolding no_gain_def by (metis snd_conv)
  moreover have "potential q c (snd (run_prog call (k r) w')) \<le> potential q c w' + n"
    using ToolCall.prems by (intro ToolCall.IH[OF rangeI]) simp
  ultimately show ?case by (simp add: call)
qed simp

lemma potential_same: "cw_env w' = cw_env w \<Longrightarrow> cw_children w' = cw_children w \<Longrightarrow> potential q c w' = potential q c w"
  by (simp add: potential_def)

lemma budget_frame [simp]:
  "cw_env (snd (budget_refusal sv w)) = cw_env w" "cw_children (snd (budget_refusal sv w)) = cw_children w"
  "cw_env (budget_account sv args r l w) = cw_env w" "cw_children (budget_account sv args r l w) = cw_children w"
  by (auto simp: budget_refusal_def budget_account_def Let_def split: option.splits verdict.splits prod.splits)

lemma settle_frame [simp]:
  "cw_env (settle_run sv ctx row target r w) = cw_env w" "cw_children (settle_run sv ctx row target r w) = cw_children w"
  "cw_env (record_undispatched_step sv ctx target n e w) = cw_env w"
  "cw_children (record_undispatched_step sv ctx target n e w) = cw_children w"
  by (auto simp: settle_run_def record_undispatched_step_def Let_def split: option.splits sum.splits)

lemma potential_frame [simp]:
  "potential q c (w\<lparr>cw_next_id := i\<rparr>) = potential q c w" "potential q c (w\<lparr>cw_runs := rs\<rparr>) = potential q c w"
  "potential q c (w\<lparr>cw_edges := es\<rparr>) = potential q c w"
  "potential q c (snd (budget_refusal sv w)) = potential q c w" "potential q c (budget_account sv args r l w) = potential q c w"
  "potential q c (settle_run sv ctx row target x w) = potential q c w"
  "potential q c (record_undispatched_step sv ctx target n e w) = potential q c w"
  by (simp_all add: potential_def)

definition run_gain :: "('w \<Rightarrow> nat) \<Rightarrow> nat \<Rightarrow> 'w runner \<Rightarrow> bool" where
  "run_gain q n run \<longleftrightarrow>
     (\<forall>kind spec args c w. \<not> cx_test_mode c \<longrightarrow> potential q n (snd (run kind spec args c w)) \<le> potential q n w + n)"

lemma run_child_gain:
  "run_gain q n run \<Longrightarrow> \<not> cx_test_mode c \<Longrightarrow> potential q n (snd (run_child sv run kind spec args c w)) \<le> potential q n w + n"
proof -
  assume run: "run_gain q n run" "\<not> cx_test_mode c"
  obtain e w' where b: "budget_refusal sv w = (e, w')" by fastforce
  then have w': "potential q n w' = potential q n w" using potential_frame(4)[of q n sv w] by simp
  obtain r w'' where r: "run kind spec args c w' = (r, w'')" by fastforce
  with run have "potential q n w'' \<le> potential q n w' + n" unfolding run_gain_def by (metis snd_conv)
  with b w' r show ?thesis by (auto simp: run_child_def split: option.splits sum.splits)
qed

lemma target_gain:
  assumes "run_gain q n run" "\<not> cx_test_mode ctx" and host: "\<And>t a e. q (snd (sv_host sv t a e)) \<le> q e + n"
  shows "potential q n (snd (dispatch_target sv run ctx target args timeout_s rid prev w)) \<le> potential q n w + n"
proof -
  have "potential q n (w\<lparr>cw_env := snd (sv_host sv target args (cw_env w))\<rparr>) \<le> potential q n w + n"
    using host[of target args "cw_env w"] by (simp add: potential_def)
  with run_child_gain[OF assms(1)] assms(2) show ?thesis
    by (auto simp: dispatch_target_def Let_def split: option.splits sum.splits prod.splits)
qed

lemma dispatch_gain:
  assumes "run_gain q n run" "\<not> cx_test_mode ctx" and host: "\<And>t a e. q (snd (sv_host sv t a e)) \<le> q e + n"
  shows "potential q n (snd (compose_dispatch sv run ctx target args timeout_s rid prev w)) \<le> potential q n w"
proof -
  define w1 where "w1 = w\<lparr>cw_children := cw_children w + 1\<rparr>"
  have le: "potential q n w1 \<le> potential q n w" by (simp add: w1_def potential_def diff_le_mono2)
  show ?thesis
  proof (cases "cw_children w + 1 > COMPOSE_CHILDREN_MAX")
    case True
    with le show ?thesis by (simp add: compose_dispatch_def w1_def)
  next
    case False
    then have "COMPOSE_CHILDREN_MAX - cw_children w = Suc (COMPOSE_CHILDREN_MAX - (cw_children w + 1))" by simp
    then have "potential q n w1 + n \<le> potential q n w" by (simp add: w1_def potential_def)
    with False target_gain[OF assms, of target args timeout_s rid prev w1] show ?thesis
      by (simp add: compose_dispatch_def Let_def w1_def)
  qed
qed

lemma call_gain:
  fixes sv :: "'a services"
  assumes "run_gain q n run" "\<not> cx_test_mode ctx" and host: "\<And>t a e. q (snd (sv_host sv t a e)) \<le> q e + n"
  shows "no_gain q n (compose_call_ref sv run ctx)"
  unfolding no_gain_def
proof (intro allI)
  fix target args timeout_s step_no item prev and w :: "'a compose_world"
  define w1 where "w1 = (let w0 = w\<lparr>cw_next_id := cw_next_id w + 1\<rparr> in w0\<lparr>cw_runs := cw_runs w0 @
    (case map_option (\<lambda>parent. row_for ctx (sv_ulid sv (cw_next_id w)) parent target step_no item) (if cx_db ctx then cx_parent_run_id ctx else None)
     of Some r \<Rightarrow> [r] | None \<Rightarrow> [])\<rparr>)"
  obtain r w2 where d: "compose_dispatch sv run ctx target args timeout_s (sv_ulid sv (cw_next_id w)) prev w1 = (r, w2)" by fastforce
  then have "potential q n w2 \<le> potential q n w1"
    using dispatch_gain[OF assms, of target args timeout_s "sv_ulid sv (cw_next_id w)" prev w1] by simp
  moreover have "potential q n w1 = potential q n w" by (simp add: w1_def Let_def)
  ultimately show "potential q n (snd (compose_call_ref sv run ctx target args timeout_s step_no item prev w)) \<le> potential q n w"
    unfolding compose_call_ref_def Let_def w1_def[unfolded Let_def, symmetric] d
    by (auto split: option.splits)
qed

lemma no_gainD: "no_gain q n call \<Longrightarrow> call target args t sn it prev w = (r, w') \<Longrightarrow> potential q n w' \<le> potential q n w"
  unfolding no_gain_def by (metis snd_conv)

lemma fan_step_gain:
  assumes "no_gain q n call"
  shows "potential q n (fs_world (fan_step sv ctx call step step_no context items width ev f)) \<le> potential q n (fs_world f)"
proof (cases ev)
  case (FanFinish i)
  show ?thesis
  proof (cases "i < length (fs_items f) \<and> (\<exists>a. fs_items f ! i = ItemRunning a)")
    case True
    then obtain a where a: "i < length (fs_items f)" "fs_items f ! i = ItemRunning a" by auto
    obtain r w where c: "call (ps_tool step) a None (Some step_no) (Some i) (json_get ''result'' (json_at ''prev'' context)) (fs_world f) = (r, w)"
      by fastforce
    from no_gainD[OF assms this] a c FanFinish show ?thesis by (auto simp: Let_def split: sum.splits prod.splits)
  qed (use FanFinish in \<open>auto split: item_state.splits\<close>)
qed simp

lemma run_items_gain:
  assumes "no_gain q n call"
  shows "potential q n (fs_world (run_items sv ctx call step step_no context items width events w)) \<le> potential q n w"
proof -
  have "potential q n (fs_world (fold (fan_step sv ctx call step step_no context items width) evs f)) \<le> potential q n (fs_world f)" for evs f
  proof (induction evs arbitrary: f)
    case (Cons ev evs)
    from Cons.IH[of "fan_step sv ctx call step step_no context items width ev f"] fan_step_gain[OF assms, of sv ctx step step_no "context" items width ev f]
    show ?case by simp
  qed simp
  from this[of "events @ drain (length items)" "\<lparr>fs_items = replicate (length items) ItemWaiting, fs_stop = False, fs_world = w\<rparr>"]
  show ?thesis by (simp only: run_items_def fan_state.simps)
qed

lemma run_fanout_gain:
  assumes "no_gain q n call"
  shows "potential q n (snd (run_fanout sv ctx call step step_no context path w)) \<le> potential q n w"
  using run_items_gain[OF assms] by (auto simp: run_fanout_def Let_def split: option.splits)

lemma chain_step_gain:
  assumes "no_gain q n call"
  shows "potential q n (snd (chain_step sv ctx call input ns st w)) \<le> potential q n w"
proof -
  obtain step_no step where ns: "ns = (step_no, step)" by fastforce
  define c where "c = step_context (cx_event_fired ctx) input (cs_prev st) (cs_results st)"
  show ?thesis
  proof (cases "ps_for_each step")
    case (Some path)
    obtain r w' where r: "run_fanout sv ctx call step step_no c path w = (r, w')" by fastforce
    with run_fanout_gain[OF assms, of sv ctx step step_no c path w] have "potential q n w' \<le> potential q n w" by simp
    with Some ns r show ?thesis
      by (auto simp: chain_step_def c_def[symmetric] chain_fan_step_def Let_def split: sum.splits option.splits prod.splits)
  next
    case None
    note def = chain_step_def[of sv ctx call input ns st w, unfolded ns prod.case Let_def c_def[symmetric] None option.case]
    show ?thesis
    proof (cases "if ps_prev_whole step then (case cs_prev st of Some v \<Rightarrow> Inr v | None \<Rightarrow> Inl ''$.prev'') else resolve_args (ps_args step) c")
      case (Inl path)
      then show ?thesis unfolding ns def by simp
    next
      case (Inr args)
      obtain r w' where r: "call (ps_tool step) args None (Some step_no) None (cs_prev st) w = (r, w')" by fastforce
      from no_gainD[OF assms r] show ?thesis unfolding ns def Inr by (cases r) (simp_all add: r)
    qed
  qed
qed

lemma chain_loop_gain:
  assumes "no_gain q n call"
  shows "potential q n (snd (chain_loop sv ctx call input nss st w)) \<le> potential q n w"
proof (induction nss arbitrary: st w)
  case (Cons ns nss)
  obtain r w' where r: "chain_step sv ctx call input ns st w = (r, w')" by fastforce
  with chain_step_gain[OF assms, of sv ctx input ns st w] have "potential q n w' \<le> potential q n w" by simp
  with Cons.IH r show ?case by (cases r) (auto intro: order_trans)
qed simp

lemma chain_call_gain:
  assumes "no_gain q n call"
  shows "potential q n (snd (chain_call sv ctx call spec args w)) \<le> potential q n w"
proof -
  have "potential q n w' \<le> potential q n w" if "chain_loop sv ctx call args nss st w = (r, w')" for nss st r w'
    using chain_loop_gain[OF assms, of sv ctx args nss st w] that by simp
  then show ?thesis by (auto simp: chain_call_def Let_def split: sum.splits prod.splits)
qed

lemma tree_gain:
  assumes raise: "\<And>kind spec args c. raises q (sv_run sv kind spec args c) n"
    and host: "\<And>t a e. q (snd (sv_host sv t a e)) \<le> q e + n"
  shows "run_gain q n (tree_run sv levels)"
proof (induction levels)
  case 0
  then show ?case by (simp add: run_gain_def)
next
  case (Suc levels)
  show ?case
    unfolding run_gain_def
  proof (intro allI impI)
    fix kind spec args and c :: call_ctx and w
    assume c: "\<not> cx_test_mode c"
    note call = call_gain[OF Suc.IH c host]
    show "potential q n (snd (tree_run sv (Suc levels) kind spec args c w)) \<le> potential q n w + n"
    proof (cases "kind = ''chain''")
      case True
      with c chain_call_gain[OF call, of sv c spec args w] show ?thesis by (simp add: chain_kind_call_def Let_def)
    next
      case False
      with run_prog_gain[OF call raise] show ?thesis by (simp add: Let_def)
    qed
  qed
qed

text \<open>C26. A call tree is bounded. Take a call that is no dry run, and any quantity that one run of a tool (its own calls aside) and
  one \<open>host.*\<close> verb each raise by at most \<open>n\<close>. A whole tree that starts with a fresh counter raises it by at most \<open>50 * n\<close>,
  however its chains, fan-outs and nested calls are arranged; and past the deepest level nothing runs, so that more levels change
  nothing. The tree is the one of \<open>compose_call\<close>: what \<open>host.tool_call\<close> starts is a tree of its own, which counts here only as
  the one verb, and meets the condition only when that tree is itself within \<open>n\<close> (\<open>host_tool_call_escapes\<close> below).\<close>

theorem call_tree_bounded:
  assumes "\<And>kind spec args c. raises q (sv_run sv kind spec args c) n"
    and "\<And>t a e. q (snd (sv_host sv t a e)) \<le> q e + n"
    and "\<not> cx_test_mode ctx"
  shows "potential q n (snd (compose_call sv ctx target args timeout_s step_no item prev w)) \<le> potential q n w
    \<and> (cw_children w = 0 \<longrightarrow> q (cw_env (snd (compose_call sv ctx target args timeout_s step_no item prev w))) \<le> q (cw_env w) + COMPOSE_CHILDREN_MAX * n)
    \<and> compose_call_ref sv (tree_run sv (COMPOSE_DEPTH_MAX - cx_compose_depth ctx + k)) ctx = compose_call sv ctx"
proof (intro conjI impI)
  have "no_gain q n (compose_call sv ctx)"
    unfolding compose_call_def by (rule call_gain[OF tree_gain[OF assms(1,2)] assms(3,2)])
  then show pot: "potential q n (snd (compose_call sv ctx target args timeout_s step_no item prev w)) \<le> potential q n w"
    unfolding no_gain_def by blast
  show "q (cw_env (snd (compose_call sv ctx target args timeout_s step_no item prev w))) \<le> q (cw_env w) + COMPOSE_CHILDREN_MAX * n"
    if "cw_children w = 0" using pot that by (simp add: potential_def mult.commute)
  show "compose_call_ref sv (tree_run sv (COMPOSE_DEPTH_MAX - cx_compose_depth ctx + k)) ctx = compose_call sv ctx"
    unfolding compose_call_def by (rule levels_enough) simp
qed

text \<open>A tool that counts its runs.\<close>

definition counting :: "nat services" where
  "counting =
     \<lparr>sv_get_tool = (\<lambda>t. if t = ''count'' then Inr (Some (''echo'', JNull)) else Inr None), sv_registered = (\<lambda>_. True), sv_declared = (\<lambda>_ _. []),
      sv_args_error = (\<lambda>_ _ _. None), sv_run = (\<lambda>_ _ _ _. ToolAct Suc (\<lambda>e. ToolDone (Inr (JInt (int e))))), sv_host = (\<lambda>_ _ e. (Inr JNull, e)),
      sv_instant = (\<lambda>_. 0), sv_unix_ms = (\<lambda>_. 0), sv_schedule = (\<lambda>_. []), sv_ulid = show_nat, sv_print = (\<lambda>_. []), sv_next_upgrade = (\<lambda>_ _ _. JNull)\<rparr>"

definition root_ctx :: call_ctx where
  "root_ctx =
     \<lparr>cx_tool_name = Some ''caller'', cx_compose_depth = 0, cx_counted = True, cx_db = True, cx_kinds = True, cx_host_dispatch = True, cx_test_mode = False,
      cx_deadline = 30000, cx_chain_fanout_max = 100, cx_concurrent_calls = 4, cx_parent_run_id = None, cx_prev_result = None, cx_event_fired = False,
      cx_fixtures = None\<rparr>"

definition fresh_world :: "'w \<Rightarrow> 'w compose_world" where
  "fresh_world e =
     \<lparr>cw_children = 0, cw_next_id = 0, cw_runs = [], cw_parts = [], cw_observed = (\<lambda>_. None), cw_edges = [], cw_budget = None, cw_progress = None,
      cw_alerts = [], cw_env = e\<rparr>"

lemma call_tree_bounded_witness:
  "cw_env (snd (compose_call counting root_ctx ''count'' JNull None None None None (fresh_world 0))) \<le> 50"
proof -
  have "raises id (sv_run counting kind spec args c) 1" for kind spec args c by (auto simp: counting_def)
  moreover have "id (snd (sv_host counting t a e)) \<le> id e + 1" for t a e by (simp add: counting_def)
  ultimately show ?thesis
    using call_tree_bounded[where q = id and sv = counting and n = 1 and ctx = root_ctx and w = "fresh_world 0" and target = "''count''" and args = JNull
        and timeout_s = None and step_no = None and item = None and prev = None and k = 0]
    by (simp add: root_ctx_def fresh_world_def COMPOSE_CHILDREN_MAX_def)
qed

text \<open>The bridge of the handler runs \<open>host.tool_call\<close> with a depth of 0 and a counter of its own. So a tool that calls itself through it
  meets neither ceiling, nor the check of a self-call: \<open>k\<close> nested calls run the tool \<open>k + 1\<close> times, with one child in each tree.\<close>

definition loop_ctx :: call_ctx where
  "loop_ctx = root_ctx\<lparr>cx_tool_name := Some ''loop''\<rparr>"

definition loop_prog :: "nat tool_prog" where
  "loop_prog = ToolAct Suc (\<lambda>_. ToolCall ''host.tool_call'' (mk_obj [(''name'', JStr ''loop'')]) None ToolDone)"

primrec bridged :: "nat \<Rightarrow> nat services" where
  "bridged 0 = counting"
| "bridged (Suc k) = counting\<lparr>sv_host := (\<lambda>verb args e.
     if verb = ''host.tool_call'' then (let (r, w) = run_prog (compose_call (bridged k) loop_ctx) loop_prog (fresh_world e) in (r, cw_env w))
     else (Inr JNull, e))\<rparr>"

lemma bridged_lookup: "sv_get_tool (bridged k) = (\<lambda>t. if t = ''count'' then Inr (Some (''echo'', JNull)) else Inr None)"
  by (cases k) (simp_all add: counting_def)

lemma bridge_call:
  "cw_env (snd (run_prog (compose_call (bridged k) loop_ctx) loop_prog (fresh_world e))) = snd (sv_host (bridged k) ''host.tool_call'' (mk_obj [(''name'', JStr ''loop'')]) (Suc e))"
  "cw_children (snd (run_prog (compose_call (bridged k) loop_ctx) loop_prog (fresh_world e))) = 1"
  by (simp_all add: loop_prog_def loop_ctx_def root_ctx_def fresh_world_def compose_call_def compose_call_ref_def compose_dispatch_def
      dispatch_target_def bridged_lookup HOST_STEPS_ALLOWED_def COMPOSE_DEPTH_MAX_def COMPOSE_CHILDREN_MAX_def settle_run_def
      Let_def prod.case_eq_if split: sum.split)

theorem host_tool_call_escapes:
  "cw_env (snd (run_prog (compose_call (bridged k) loop_ctx) loop_prog (fresh_world e))) = e + k + 1
    \<and> cw_children (snd (run_prog (compose_call (bridged k) loop_ctx) loop_prog (fresh_world e))) = 1"
proof (induction k arbitrary: e)
  case 0
  have "snd (sv_host (bridged 0) verb args n) = n" for verb args n by (simp add: counting_def)
  then show ?case unfolding bridge_call by simp
next
  case (Suc k)
  have "snd (sv_host (bridged (Suc k)) ''host.tool_call'' args n) = n + k + 1" for args n
    using Suc.IH[of n] by (simp add: prod.case_eq_if)
  then show ?case unfolding bridge_call by simp
qed

section \<open>The items of a step\<close>

definition item_args :: "parsed_step \<Rightarrow> json \<Rightarrow> json list \<Rightarrow> nat \<Rightarrow> string + json" where
  "item_args step c items i = resolve_args (ps_args step) (item_context c (items ! i) i)"

definition prev_value :: "json \<Rightarrow> json option" where
  "prev_value c = json_get ''result'' (json_at ''prev'' c)"

text \<open>How an item ended: done or failed by a dispatch of its own arguments under its own index, failed on a mapping or past
  the deadline, or skipped.\<close>

definition item_ended :: "'w dispatcher \<Rightarrow> parsed_step \<Rightarrow> nat \<Rightarrow> json \<Rightarrow> json list \<Rightarrow> nat \<Rightarrow> item_end \<Rightarrow> bool" where
  "item_ended call step step_no c items i e \<longleftrightarrow>
     (case e of
        ItemDone v \<Rightarrow> \<exists>a w w'. item_args step c items i = Inr a
          \<and> call (ps_tool step) a None (Some step_no) (Some i) (prev_value c) w = (Inr v, w')
      | ItemFailed ec m \<Rightarrow>
          (ec = ''deadline_exceeded'' \<and> m = deadline_message)
          \<or> (\<exists>bad. item_args step c items i = Inl bad \<and> ec = ''compose_mapping_missing'')
          \<or> (\<exists>a w w' err. item_args step c items i = Inr a
              \<and> call (ps_tool step) a None (Some step_no) (Some i) (prev_value c) w = (Inl err, w') \<and> fst (kind_error_parts err) = ec)
      | ItemSkipped \<Rightarrow> \<not> ps_continue_on_error step)"

definition fan_inv :: "'w dispatcher \<Rightarrow> parsed_step \<Rightarrow> nat \<Rightarrow> json \<Rightarrow> json list \<Rightarrow> nat \<Rightarrow> 'w fan_state \<Rightarrow> bool" where
  "fan_inv call step step_no c items width f \<longleftrightarrow>
     length (fs_items f) = length items \<and> in_flight f \<le> width
     \<and> (\<forall>i < length items. case fs_items f ! i of
          ItemWaiting \<Rightarrow> True
        | ItemRunning a \<Rightarrow> item_args step c items i = Inr a
        | ItemEnded e \<Rightarrow> item_ended call step step_no c items i e)
     \<and> (fs_stop f \<longrightarrow> \<not> ps_continue_on_error step \<and> (\<exists>i < length items. \<exists>ec m. fs_items f ! i = ItemEnded (ItemFailed ec m)))
     \<and> ((\<exists>i < length items. fs_items f ! i = ItemEnded ItemSkipped) \<longrightarrow> fs_stop f)"

lemma filter_update_le:
  "i < length xs \<Longrightarrow> length (filter P (xs[i := x])) \<le> Suc (length (filter P xs))"
  "i < length xs \<Longrightarrow> \<not> P x \<Longrightarrow> length (filter P (xs[i := x])) \<le> length (filter P xs)"
proof (induction xs arbitrary: i)
  case (Cons y ys)
  { case 1 then show ?case using Cons.IH(1)[of "i - 1"] by (cases i) auto }
  { case 2 then show ?case using Cons.IH(2)[of "i - 1"] by (cases i) auto }
qed simp_all

lemma in_flight_start: "i < length (fs_items f) \<Longrightarrow> in_flight f < width \<Longrightarrow> in_flight (f\<lparr>fs_items := (fs_items f)[i := s]\<rparr>) \<le> width"
  using filter_update_le(1)[of i "fs_items f" is_running s] by (simp add: in_flight_def)

lemma in_flight_end: "i < length (fs_items f) \<Longrightarrow> in_flight f \<le> width \<Longrightarrow> length (filter is_running ((fs_items f)[i := ItemEnded e])) \<le> width"
  using filter_update_le(2)[of i "fs_items f" is_running "ItemEnded e"] by (simp add: in_flight_def is_running_def)

lemma fan_step_inv:
  assumes "fan_inv call step step_no c items width f"
  shows "fan_inv call step step_no c items width (fan_step sv ctx call step step_no c items width ev f)"
proof (cases ev)
  case (FanStart i)
  show ?thesis
  proof (cases "i < length (fs_items f) \<and> fs_items f ! i = ItemWaiting \<and> in_flight f < width")
    case True
    define st where "st = start_item sv ctx step c items i f"
    have st: "case st of ItemWaiting \<Rightarrow> True | ItemRunning a \<Rightarrow> item_args step c items i = Inr a
        | ItemEnded e \<Rightarrow> item_ended call step step_no c items i e \<and> (e = ItemSkipped \<longrightarrow> fs_stop f)"
      using assms by (auto simp: st_def start_item_def item_args_def item_ended_def fan_inv_def split: sum.splits)
    have "in_flight (f\<lparr>fs_items := (fs_items f)[i := st]\<rparr>) \<le> width" using True by (intro in_flight_start) auto
    moreover have "\<exists>j < length items. \<exists>ec m. (fs_items f)[i := st] ! j = ItemEnded (ItemFailed ec m)"
      if "\<exists>j < length items. \<exists>ec m. fs_items f ! j = ItemEnded (ItemFailed ec m)"
      using that True assms by (metis item_state.distinct(3) nth_list_update_neq)
    ultimately show ?thesis
      using True assms st FanStart
      by (auto simp: fan_inv_def st_def[symmetric] nth_list_update split: item_state.splits)
  next
    case False
    then have "fan_step sv ctx call step step_no c items width ev f = f" unfolding FanStart fan_step.simps by (rule if_not_P)
    with assms show ?thesis by simp
  qed
next
  case (FanFinish i)
  show ?thesis
  proof (cases "i < length (fs_items f) \<and> (\<exists>a. fs_items f ! i = ItemRunning a)")
    case True
    then obtain a where a: "i < length (fs_items f)" "fs_items f ! i = ItemRunning a" by auto
    with assms have args: "item_args step c items i = Inr a" by (force simp: fan_inv_def)
    obtain r w where r: "call (ps_tool step) a None (Some step_no) (Some i) (prev_value c) (fs_world f) = (r, w)" by fastforce
    define e where "e = (case r of Inr v \<Rightarrow> ItemDone v | Inl err \<Rightarrow> ItemFailed (fst (kind_error_parts err)) (fst (snd (kind_error_parts err))))"
    have e: "item_ended call step step_no c items i e" "e \<noteq> ItemSkipped"
      using args r by (auto simp: e_def item_ended_def split: sum.splits)
    define f' where "f' = f\<lparr>fs_items := (fs_items f)[i := ItemEnded e], fs_stop := (fs_stop f \<or> (isl r \<and> \<not> ps_continue_on_error step)), fs_world := w\<rparr>"
    have eq: "fan_step sv ctx call step step_no c items width ev f = f'"
      using FanFinish a r by (cases r) (auto simp: f'_def e_def prev_value_def split: prod.splits)
    have "\<exists>j < length items. \<exists>ec m. (fs_items f)[i := ItemEnded e] ! j = ItemEnded (ItemFailed ec m)" if "fs_stop f'"
    proof (cases "isl r")
      case True
      then show ?thesis using a assms by (intro exI[of _ i]) (auto simp: e_def fan_inv_def split: sum.splits)
    next
      case False
      with that assms obtain j ec m where "j < length items" "fs_items f ! j = ItemEnded (ItemFailed ec m)" by (auto simp: f'_def fan_inv_def)
      with a show ?thesis by (intro exI[of _ j]) (auto simp: nth_list_update)
    qed
    moreover have "length (filter is_running ((fs_items f)[i := ItemEnded e])) \<le> width"
      using assms a by (intro in_flight_end) (auto simp: fan_inv_def)
    ultimately show ?thesis
      unfolding eq using assms a e
      by (auto simp: fan_inv_def f'_def in_flight_def nth_list_update split: item_state.splits if_splits)
  next
    case False
    with FanFinish have "fan_step sv ctx call step step_no c items width ev f = f" by (auto split: item_state.splits)
    with assms show ?thesis by simp
  qed
qed


lemma fan_inv_start: "fan_inv call step step_no c items width \<lparr>fs_items = replicate (length items) ItemWaiting, fs_stop = False, fs_world = w\<rparr>"
  by (simp add: fan_inv_def in_flight_def is_running_def filter_replicate)

lemma fan_fold_inv:
  assumes "fan_inv call step step_no c items width f"
  shows "fan_inv call step step_no c items width (fold (fan_step sv ctx call step step_no c items width) evs f)"
  using assms by (induction evs arbitrary: f) (simp_all add: fan_step_inv)

text \<open>Once ended, an item stays as it is; and the events that drain the schedule end every item.\<close>

definition ended :: "item_state \<Rightarrow> bool" where
  "ended s \<longleftrightarrow> (case s of ItemEnded _ \<Rightarrow> True | _ \<Rightarrow> False)"

lemma fan_step_length [simp]: "length (fs_items (fan_step sv ctx call step n c items width ev f)) = length (fs_items f)"
  by (cases ev) (auto simp: Let_def split: item_state.splits prod.splits sum.splits)

lemma fan_fold_length [simp]: "length (fs_items (fold (fan_step sv ctx call step n c items width) evs f)) = length (fs_items f)"
  by (induction evs arbitrary: f) simp_all

lemma fan_step_keeps_end: "fs_items f ! i = ItemEnded e \<Longrightarrow> fs_items (fan_step sv ctx call step n c items width ev f) ! i = ItemEnded e"
  by (cases ev) (auto simp: Let_def nth_list_update split: item_state.splits prod.splits sum.splits)

lemma fan_fold_keeps_end:
  "fs_items f ! i = ItemEnded e \<Longrightarrow> fs_items (fold (fan_step sv ctx call step n c items width) evs f) ! i = ItemEnded e"
  by (induction evs arbitrary: f) (simp_all add: fan_step_keeps_end)

lemma fan_finish_other: "j \<noteq> i \<Longrightarrow> fs_items (fan_step sv ctx call step n c items width (FanFinish i) f) ! j = fs_items f ! j"
  by (auto simp: Let_def split: item_state.splits prod.splits sum.splits)

lemma fan_finish_this: "i < length (fs_items f) \<Longrightarrow> \<not> is_running (fs_items (fan_step sv ctx call step n c items width (FanFinish i) f) ! i)"
  by (auto simp: Let_def is_running_def split: item_state.splits prod.splits sum.splits)

lemma finish_all:
  "k \<le> length (fs_items f) \<Longrightarrow>
     \<forall>i < k. \<not> is_running (fs_items (fold (fan_step sv ctx call step n c items width) (map FanFinish [0..<k]) f) ! i)"
proof (induction k)
  case (Suc k)
  let ?g = "fold (fan_step sv ctx call step n c items width) (map FanFinish [0..<k]) f"
  have "\<not> is_running (fs_items (fan_step sv ctx call step n c items width (FanFinish k) ?g) ! i)" if "i < Suc k" for i
  proof (cases "i = k")
    case True
    then show ?thesis using Suc.prems fan_finish_this[of k ?g sv ctx call step n c items width] by (simp del: fan_step.simps)
  next
    case False
    with that Suc show ?thesis by (simp add: fan_finish_other del: fan_step.simps)
  qed
  then show ?case by (simp del: fan_step.simps)
qed simp

lemma none_in_flight: "(\<forall>i < length (fs_items f). \<not> is_running (fs_items f ! i)) \<Longrightarrow> in_flight f = 0"
  by (auto simp: in_flight_def filter_empty_conv in_set_conv_nth)

lemma ended_not_running: "ended s \<Longrightarrow> \<not> is_running s"
  by (cases s) (simp_all add: ended_def is_running_def)

text \<open>With none in flight an item is started and finished in two events.\<close>

lemma start_and_finish:
  assumes idle: "\<forall>i < length (fs_items f). \<not> is_running (fs_items f ! i)" and k: "k < length (fs_items f)" and width: "0 < width"
    and g_def: "g = fan_step sv ctx call step n c items width (FanFinish k) (fan_step sv ctx call step n c items width (FanStart k) f)"
  shows "ended (fs_items g ! k)" "\<forall>i < length (fs_items f). \<not> is_running (fs_items g ! i)"
    "\<forall>i < length (fs_items f). i \<noteq> k \<longrightarrow> fs_items g ! i = fs_items f ! i"
proof -
  let ?h = "fan_step sv ctx call step n c items width (FanStart k) f"
  have h: "fs_items ?h ! k \<noteq> ItemWaiting"
    using none_in_flight[OF idle] k width
    by (cases "fs_items f ! k") (auto simp: start_item_def split: sum.splits)
  have others: "fs_items ?h ! i = fs_items f ! i" if "i \<noteq> k" for i using that by simp
  show E: "ended (fs_items g ! k)"
    using h k unfolding g_def
    by (cases "fs_items ?h ! k") (simp_all add: ended_def Let_def del: fan_step.simps(1) split: prod.split sum.split)
  show O: "\<forall>i < length (fs_items f). i \<noteq> k \<longrightarrow> fs_items g ! i = fs_items f ! i"
    unfolding g_def using others by (simp add: fan_finish_other del: fan_step.simps)
  show "\<forall>i < length (fs_items f). \<not> is_running (fs_items g ! i)"
    using ended_not_running[OF E] O idle by metis
qed

lemma drain_ends:
  assumes "k \<le> length (fs_items f)" "\<forall>i < length (fs_items f). \<not> is_running (fs_items f ! i)" "0 < width"
    and g_def: "g = fold (fan_step sv ctx call step n c items width) (concat (map (\<lambda>i. [FanStart i, FanFinish i]) [0..<k])) f"
  shows "(\<forall>i < k. ended (fs_items g ! i)) \<and> (\<forall>i < length (fs_items f). \<not> is_running (fs_items g ! i))"
  using assms(1) unfolding g_def
proof (induction k)
  case 0
  then show ?case using assms(2) by simp
next
  case (Suc k)
  let ?h = "fold (fan_step sv ctx call step n c items width) (concat (map (\<lambda>i. [FanStart i, FanFinish i]) [0..<k])) f"
  have idle: "\<forall>i < length (fs_items ?h). \<not> is_running (fs_items ?h ! i)" and fin: "\<forall>i < k. ended (fs_items ?h ! i)" and "k < length (fs_items ?h)"
    using Suc by auto
  note one = start_and_finish[OF idle this(3) assms(3) refl, of sv ctx call step n c items]
  have "ended (fs_items (fan_step sv ctx call step n c items width (FanFinish k) (fan_step sv ctx call step n c items width (FanStart k) ?h)) ! i)"
    if "i < Suc k" for i
    using that one(1,3) fin Suc.prems by (cases "i = k") (simp_all del: fan_step.simps)
  with one(2) show ?case by (simp del: fan_step.simps)
qed

lemma run_items_ended:
  assumes "0 < width" "i < length items"
  shows "ended (fs_items (run_items sv ctx call step n c items width events w) ! i)"
proof -
  let ?step = "fan_step sv ctx call step n c items width"
  let ?f = "fold ?step events \<lparr>fs_items = replicate (length items) ItemWaiting, fs_stop = False, fs_world = w\<rparr>"
  let ?g = "fold ?step (map FanFinish [0..<length items]) ?f"
  have "\<forall>i < length (fs_items ?g). \<not> is_running (fs_items ?g ! i)"
    using finish_all[of "length items" ?f sv ctx call step n c items width] by (simp del: fan_step.simps)
  from drain_ends[OF _ this assms(1) refl, of "length items" sv ctx call step n c items] assms(2) show ?thesis
    by (simp add: run_items_def drain_def del: fan_step.simps)
qed

lemma run_items_inv: "fan_inv call step n c items width (run_items sv ctx call step n c items width events w)"
  unfolding run_items_def by (rule fan_fold_inv[OF fan_inv_start])

lemma run_items_length [simp]: "length (fs_items (run_items sv ctx call step n c items width events w)) = length items"
  by (simp add: run_items_def)

lemma failure_of_ends:
  assumes "i < length ends" "ends ! i = ItemEnded (ItemFailed ec m)"
  shows "fo_first_failure (join_items ends width) \<noteq> None"
proof -
  have "(i, ends ! i) \<in> set (zip [0..<length ends] ends)" using assms(1) by (force simp: set_zip)
  with assms(2) have "(i, ec, m) \<in> set (List.map_filter end_failure (zip [0..<length ends] ends))"
    by (force simp: List.map_filter_def)
  then show ?thesis by (auto simp: join_items_def Let_def split: list.split)
qed

lemma all_ended: "(\<And>i. i < length ss \<Longrightarrow> ended (ss ! i)) \<Longrightarrow> \<exists>ends. ss = map ItemEnded ends"
proof (induction ss)
  case (Cons s ss)
  obtain e where "s = ItemEnded e" using Cons.prems[of 0] by (cases s) (simp_all add: ended_def)
  moreover obtain ends where "ss = map ItemEnded ends" using Cons.IH Cons.prems[of "Suc _"] by auto
  ultimately show ?case by (intro exI[of _ "e # ends"]) simp
qed simp

text \<open>C27. A \<open>for_each\<close> step that answers took its items from the path, no more of them than the plan allows; every item
  ended, in its own place in the result, by a dispatch of its own arguments, by a mapping that resolves to nothing or by
  the deadline; at no moment were more items in flight than the width; and an item is skipped only under
  \<open>on_error: stop\<close>, with a failed item to report.\<close>

theorem run_fanout_correct:
  assumes "run_fanout sv ctx call step n c path w = (Inr out, w')"
  shows "\<exists>items ends. value_at path c = Some (JArr items) \<and> length items \<le> cx_chain_fanout_max ctx \<and> length ends = length items
    \<and> out = join_items (map ItemEnded ends) (fan_width ctx step)
    \<and> json_get ''items'' (fo_join out) = Some (JArr (map (\<lambda>e. end_value (ItemEnded e)) ends))
    \<and> (\<forall>i < length items. item_ended call step n c items i (ends ! i))
    \<and> (ItemSkipped \<in> set ends \<longrightarrow> \<not> ps_continue_on_error step \<and> fo_first_failure out \<noteq> None)
    \<and> (\<forall>evs rest. sv_schedule sv (cw_env w) @ drain (length items) = evs @ rest \<longrightarrow>
         in_flight (fold (fan_step sv ctx call step n c items (fan_width ctx step)) evs
           \<lparr>fs_items = replicate (length items) ItemWaiting, fs_stop = False, fs_world = w\<rparr>) \<le> fan_width ctx step)"
proof -
  let ?width = "fan_width ctx step"
  have width: "0 < ?width" by (simp add: fan_width_def)
  obtain items where v: "value_at path c = Some (JArr items)" "length items \<le> cx_chain_fanout_max ctx"
    and out: "out = join_items (fs_items (run_items sv ctx call step n c items ?width (sv_schedule sv (cw_env w)) w)) ?width"
  proof (cases "value_at path c")
    case (Some v)
    with assms that show ?thesis by (cases v) (simp_all add: run_fanout_def Let_def split: if_splits)
  qed (use assms in \<open>simp add: run_fanout_def\<close>)
  define f where "f = run_items sv ctx call step n c items ?width (sv_schedule sv (cw_env w)) w"
  have inv: "fan_inv call step n c items ?width f" unfolding f_def by (rule run_items_inv)
  have len: "length (fs_items f) = length items" by (simp add: f_def)
  have "\<exists>ends. fs_items f = map ItemEnded ends"
  proof (rule all_ended)
    fix i assume "i < length (fs_items f)"
    with len have "i < length items" by simp
    then show "ended (fs_items f ! i)" unfolding f_def by (rule run_items_ended[OF width])
  qed
  then obtain ends where ends: "fs_items f = map ItemEnded ends" by blast
  have ended: "\<forall>i < length items. item_ended call step n c items i (ends ! i)"
    using inv len by (auto simp: fan_inv_def ends)
  have skip: "\<not> ps_continue_on_error step \<and> fo_first_failure out \<noteq> None" if "ItemSkipped \<in> set ends"
  proof -
    from that len inv have "fs_stop f" by (auto simp: fan_inv_def ends in_set_conv_nth)
    with inv obtain j ec m where "\<not> ps_continue_on_error step" "j < length items" "fs_items f ! j = ItemEnded (ItemFailed ec m)"
      by (auto simp: fan_inv_def)
    then show ?thesis using failure_of_ends[of j "fs_items f"] len by (simp add: out f_def)
  qed
  have "in_flight (fold (fan_step sv ctx call step n c items ?width) evs
      \<lparr>fs_items = replicate (length items) ItemWaiting, fs_stop = False, fs_world = w\<rparr>) \<le> ?width" for evs
    using fan_fold_inv[OF fan_inv_start, where evs = evs and call = call and step = step and step_no = n and width = ?width] unfolding fan_inv_def by blast
  with v ended skip ends len out show ?thesis
    by (intro exI[of _ items] exI[of _ ends]) (simp add: f_def[symmetric] join_items_def Let_def comp_def)
qed

lemma run_fanout_returns:
  "value_at path c = Some (JArr items) \<Longrightarrow> length items \<le> cx_chain_fanout_max ctx \<Longrightarrow>
     run_fanout sv ctx call step n c path w
     = (let f = run_items sv ctx call step n c items (fan_width ctx step) (sv_schedule sv (cw_env w)) w
        in (Inr (join_items (fs_items f) (fan_width ctx step)), fs_world f))"
  by (simp add: run_fanout_def Let_def)

text \<open>A step that reads a field of each item and stops at an error.\<close>

definition stop_step :: parsed_step where
  "stop_step = \<lparr>ps_tool = ''count'', ps_args = [(''x'', JStr ''$.item.x'')], ps_prev_whole = False, ps_continue_on_error = False,
     ps_for_each = Some ''$.input'', ps_concurrency = Some 1\<rparr>"

definition two_items :: json where
  "two_items = mk_obj [(''input'', JArr [JNull, mk_obj [(''x'', JInt 7)]])]"

lemma two_items_path: "value_at ''$.input'' two_items = Some (JArr [JNull, mk_obj [(''x'', JInt 7)]])"
  by (simp add: value_at_def path_parse_def path_resolve_def text_eval two_items_def mk_obj_def)

lemma run_fanout_correct_witness:
  "\<exists>out w' ends. run_fanout counting root_ctx (compose_call counting root_ctx) stop_step 1 two_items ''$.input'' (fresh_world 0) = (Inr out, w')
     \<and> length ends = 2 \<and> out = join_items (map ItemEnded ends) 1"
proof -
  have w: "fan_width root_ctx stop_step = 1" by (simp add: fan_width_def stop_step_def root_ctx_def u64_max_def)
  obtain out w' where r: "run_fanout counting root_ctx (compose_call counting root_ctx) stop_step 1 two_items ''$.input'' (fresh_world 0) = (Inr out, w')"
    by (simp add: run_fanout_returns[OF two_items_path] Let_def root_ctx_def)
  from run_fanout_correct[OF this] obtain items ends where "value_at ''$.input'' two_items = Some (JArr items)" "length ends = length items"
    "out = join_items (map ItemEnded ends) (fan_width root_ctx stop_step)" by blast
  with two_items_path w have "length ends = 2" "out = join_items (map ItemEnded ends) 1" by simp_all
  with r show ?thesis by blast
qed

text \<open>The item of which the mapping fails, and the one that runs.\<close>

lemma stop_step_args:
  "resolve_args (ps_args stop_step) (item_context two_items JNull 0) = Inl ''$.item.x''"
  "resolve_args (ps_args stop_step) (item_context two_items (mk_obj [(''x'', JInt 7)]) 1) = Inr (mk_obj [(''x'', JInt 7)])"
  by (simp_all add: stop_step_def two_items_def item_context_def resolve_args_def value_at_def path_parse_def path_resolve_def text_eval mk_obj_def)

lemma count_runs:
  "\<exists>w'. compose_call counting root_ctx ''count'' args None (Some 1) (Some i) prev (fresh_world 0) = (Inr (JInt 1), w') \<and> cw_env w' = 1"
  by (simp add: compose_call_def compose_call_ref_def root_ctx_def fresh_world_def counting_def compose_dispatch_def COMPOSE_DEPTH_MAX_def
      COMPOSE_CHILDREN_MAX_def dispatch_target_def run_child_def budget_refusal_def budget_account_def numeral_eq_Suc child_ctx_def Let_def)

lemma counting_fields:
  "sv_instant counting e = 0" "sv_schedule counting e = []" "cx_deadline root_ctx = 30000" "cx_chain_fanout_max root_ctx = 100"
  "ps_tool stop_step = ''count''" "\<not> ps_continue_on_error stop_step" "fan_width root_ctx stop_step = 1"
  by (simp_all add: counting_def root_ctx_def stop_step_def fan_width_def u64_max_def)

lemma stop_step_items:
  assumes "compose_call counting root_ctx ''count'' (mk_obj [(''x'', JInt 7)]) None (Some 1) (Some 1) (prev_value two_items) (fresh_world 0) = (Inr (JInt 1), w')"
  shows "run_items counting root_ctx (compose_call counting root_ctx) stop_step 1 two_items [JNull, mk_obj [(''x'', JInt 7)]] 1 [] (fresh_world 0)
      = \<lparr>fs_items = [ItemEnded (ItemFailed ''compose_mapping_missing'' (''mapping path '' @ in_quotes ''$.item.x'' @ '' resolved to nothing'')),
           ItemEnded (ItemDone (JInt 1))], fs_stop = False, fs_world = w'\<rparr>"
proof -
  let ?step = "fan_step counting root_ctx (compose_call counting root_ctx) stop_step 1 two_items [JNull, mk_obj [(''x'', JInt 7)]] 1"
  let ?w = "fresh_world (0 :: nat)"
  let ?bad = "ItemEnded (ItemFailed ''compose_mapping_missing'' (''mapping path '' @ in_quotes ''$.item.x'' @ '' resolved to nothing''))"
  have drain: "drain 2 = [FanFinish 0, FanFinish 1, FanStart 0, FanFinish 0, FanStart 1, FanFinish 1]"
    by (simp add: drain_def upt_rec)
  have s0: "?step (FanFinish i) \<lparr>fs_items = [ItemWaiting, ItemWaiting], fs_stop = False, fs_world = ?w\<rparr>
      = \<lparr>fs_items = [ItemWaiting, ItemWaiting], fs_stop = False, fs_world = ?w\<rparr>" if "i = 0 \<or> i = 1" for i
    using that by auto
  have s1: "?step (FanStart 0) \<lparr>fs_items = [ItemWaiting, ItemWaiting], fs_stop = False, fs_world = ?w\<rparr>
      = \<lparr>fs_items = [?bad, ItemWaiting], fs_stop = False, fs_world = ?w\<rparr>"
    by (simp add: in_flight_def is_running_def start_item_def counting_fields stop_step_args)
  have s2: "?step (FanFinish 0) \<lparr>fs_items = [?bad, ItemWaiting], fs_stop = False, fs_world = ?w\<rparr>
      = \<lparr>fs_items = [?bad, ItemWaiting], fs_stop = False, fs_world = ?w\<rparr>" by simp
  have s3: "?step (FanStart 1) \<lparr>fs_items = [?bad, ItemWaiting], fs_stop = False, fs_world = ?w\<rparr>
      = \<lparr>fs_items = [?bad, ItemRunning (mk_obj [(''x'', JInt 7)])], fs_stop = False, fs_world = ?w\<rparr>"
    using stop_step_args(2) by (simp add: in_flight_def is_running_def start_item_def counting_fields)
  have s4: "?step (FanFinish 1) \<lparr>fs_items = [?bad, ItemRunning (mk_obj [(''x'', JInt 7)])], fs_stop = False, fs_world = ?w\<rparr>
      = \<lparr>fs_items = [?bad, ItemEnded (ItemDone (JInt 1))], fs_stop = False, fs_world = w'\<rparr>"
    using assms by (simp add: counting_fields prev_value_def)
  have two: "length [JNull, mk_obj [(''x'', JInt 7)]] = 2" "replicate 2 ItemWaiting = [ItemWaiting, ItemWaiting]"
    by (simp_all add: numeral_2_eq_2)
  show ?thesis
    unfolding run_items_def two drain append_Nil fold_simps s0[OF disjI1[OF refl]] s0[OF disjI2[OF refl]] s1 s2 s3 s4 by (rule refl)
qed

text \<open>An item that fails on its mapping does not stop the step: under \<open>on_error: stop\<close> the items behind it are still
  dispatched, and the step fails only after.\<close>

theorem mapping_failure_does_not_stop:
  "\<not> ps_continue_on_error stop_step
   \<and> (\<exists>out w'. run_fanout counting root_ctx (compose_call counting root_ctx) stop_step 1 two_items ''$.input'' (fresh_world 0) = (Inr out, w')
        \<and> map_option fst (fo_first_failure out) = Some 0 \<and> json_get ''ok'' (fo_join out) = Some (JInt 1) \<and> cw_env w' = 1)"
proof
  show "\<not> ps_continue_on_error stop_step" by (rule counting_fields)
  obtain w' where c: "compose_call counting root_ctx ''count'' (mk_obj [(''x'', JInt 7)]) None (Some 1) (Some 1) (prev_value two_items) (fresh_world 0)
      = (Inr (JInt 1), w')" "cw_env w' = 1"
    using count_runs by blast
  show "\<exists>out w'. run_fanout counting root_ctx (compose_call counting root_ctx) stop_step 1 two_items ''$.input'' (fresh_world 0) = (Inr out, w')
        \<and> map_option fst (fo_first_failure out) = Some 0 \<and> json_get ''ok'' (fo_join out) = Some (JInt 1) \<and> cw_env w' = 1"
    using c(2) stop_step_items[OF c(1)]
    by (simp add: run_fanout_returns[OF two_items_path] Let_def counting_fields join_items_def List.map_filter_def is_done_def)
qed

section \<open>The report of a chain\<close>

text \<open>The entry of a step in the trace.\<close>

definition step_entry :: "nat \<Rightarrow> parsed_step \<Rightarrow> json \<Rightarrow> bool" where
  "step_entry step_no step e \<longleftrightarrow>
     json_get ''step'' e = Some (JInt (int step_no)) \<and> json_get ''tool'' e = Some (JStr (ps_tool step))
     \<and> (json_get ''status'' e = Some (JStr ''done'') \<and> json_get ''result'' e \<noteq> None
        \<or> json_get ''status'' e = Some (JStr ''error'') \<and> json_get ''error_class'' e \<noteq> None \<and> ps_continue_on_error step)"

definition entry_failed :: "json \<Rightarrow> bool" where
  "entry_failed e \<longleftrightarrow> json_get ''status'' e = Some (JStr ''error'')"

definition step_added :: "nat \<Rightarrow> parsed_step \<Rightarrow> chain_state \<Rightarrow> chain_state \<Rightarrow> bool" where
  "step_added step_no step st st' \<longleftrightarrow>
     (\<exists>e. cs_trace st' = cs_trace st @ [e] \<and> step_entry step_no step e
        \<and> cs_failed st' = cs_failed st @ (if entry_failed e then [step_no] else [])
        \<and> cs_last_ok st' = (case json_get ''result'' e of Some v \<Rightarrow> Some v | None \<Rightarrow> cs_last_ok st))"

lemma step_failed_added: "ps_continue_on_error step \<Longrightarrow> step_added n step st (step_failed n step c st)"
  by (simp add: step_added_def step_failed_def error_entry_def step_entry_def entry_failed_def)

lemma fanout_failures:
  assumes "run_fanout sv ctx call step n c path w = (Inr out, w')"
  shows "fo_first_failure out = None \<longleftrightarrow> fo_failed_count out = 0"
proof -
  obtain ends width where "out = join_items ends width"
    using assms by (auto simp: run_fanout_def Let_def split: option.splits if_splits)
  then show ?thesis by (simp add: join_items_def Let_def split: list.split)
qed

lemma fan_step_added:
  assumes "chain_fan_step sv ctx call n step path c st w = (Inr st', w')"
  shows "step_added n step st st'"
proof (cases "run_fanout sv ctx call step n c path w")
  case (Pair r w1)
  show ?thesis
  proof (cases r)
    case (Inl e)
    obtain ec m d where e: "kind_error_parts e = (ec, m, d)" using prod_cases3 by blast
    with assms Pair Inl have "ps_continue_on_error step" "st' = step_failed n step ec st"
      by (auto simp: chain_fan_step_def split: if_splits)
    then show ?thesis by (simp add: step_failed_added)
  next
    case (Inr out)
    note fails = fanout_failures[OF Pair[unfolded Inr]]
    have ok: "ps_continue_on_error step \<or> fo_failed_count out = 0"
      and st': "st' = step_done (fanout_entry n step path out) (fo_join out) (if fo_failed_count out > 0 then st\<lparr>cs_failed := cs_failed st @ [n]\<rparr> else st)"
      using assms Pair Inr fails by (auto simp: chain_fan_step_def split: if_splits option.splits)
    show ?thesis
      unfolding step_added_def
      using ok by (intro exI[of _ "fanout_entry n step path out"]) (auto simp: st' step_done_def fanout_entry_def step_entry_def entry_failed_def)
  qed
qed

lemma chain_step_added:
  assumes "chain_step sv ctx call input (n, step) st w = (Inr st', w')"
  shows "step_added n step st st'"
proof -
  define c where "c = step_context (cx_event_fired ctx) input (cs_prev st) (cs_results st)"
  note def = chain_step_def[of sv ctx call input "(n, step)" st w, unfolded prod.case Let_def c_def[symmetric]]
  show ?thesis
  proof (cases "ps_for_each step")
    case (Some path)
    with assms def fan_step_added show ?thesis by auto
  next
    case None
    note def = def[unfolded None option.case]
    show ?thesis
    proof (cases "if ps_prev_whole step then (case cs_prev st of Some v \<Rightarrow> Inr v | None \<Rightarrow> Inl ''$.prev'') else resolve_args (ps_args step) c")
      case (Inl path)
      with assms def step_failed_added show ?thesis by (auto split: if_splits)
    next
      case (Inr args)
      obtain r w1 where r: "call (ps_tool step) args None (Some n) None (cs_prev st) w = (r, w1)" by fastforce
      show ?thesis
      proof (cases r)
        case (Inl e)
        with assms def[unfolded Inr] r step_failed_added show ?thesis by (auto split: if_splits)
      next
        case (Inr v)
        with assms def[unfolded \<open>_ = Inr args\<close>] r show ?thesis by (auto simp: step_added_def step_done_def step_entry_def entry_failed_def)
      qed
    qed
  qed
qed

text \<open>The result of the last entry that has one.\<close>

definition last_result :: "json list \<Rightarrow> json option" where
  "last_result trace = Option.bind (find (\<lambda>e. json_get ''result'' e \<noteq> None) (rev trace)) (json_get ''result'')"

definition chain_inv :: "parsed_step list \<Rightarrow> nat \<Rightarrow> chain_state \<Rightarrow> bool" where
  "chain_inv steps k st \<longleftrightarrow>
     length (cs_trace st) = k \<and> k \<le> length steps \<and> (\<forall>i < k. step_entry (i + 1) (steps ! i) (cs_trace st ! i))
     \<and> cs_failed st = map Suc (filter (\<lambda>i. entry_failed (cs_trace st ! i)) [0..<k])
     \<and> cs_last_ok st = last_result (cs_trace st)"

lemma step_added_inv:
  assumes "chain_inv steps k st" "step_added (Suc k) (steps ! k) st st'" "k < length steps"
  shows "chain_inv steps (Suc k) st'"
proof -
  from assms(2) obtain e where e: "cs_trace st' = cs_trace st @ [e]" "step_entry (Suc k) (steps ! k) e"
    "cs_failed st' = cs_failed st @ (if entry_failed e then [Suc k] else [])"
    "cs_last_ok st' = (case json_get ''result'' e of Some v \<Rightarrow> Some v | None \<Rightarrow> cs_last_ok st)"
    unfolding step_added_def by blast
  have len: "length (cs_trace st) = k" using assms(1) by (simp add: chain_inv_def)
  have "filter (\<lambda>i. entry_failed (cs_trace st' ! i)) [0..<k] = filter (\<lambda>i. entry_failed (cs_trace st ! i)) [0..<k]"
    by (rule filter_cong) (simp_all add: e(1) nth_append len)
  then have "cs_failed st' = map Suc (filter (\<lambda>i. entry_failed (cs_trace st' ! i)) [0..<Suc k])"
    using assms(1) e(1,3) by (simp add: chain_inv_def nth_append)
  moreover have "\<forall>i < Suc k. step_entry (i + 1) (steps ! i) (cs_trace st' ! i)"
    using assms(1) e(1,2) len by (auto simp: chain_inv_def nth_append less_Suc_eq)
  moreover have "cs_last_ok st' = last_result (cs_trace st')"
    using assms(1) e(1,4) by (cases "json_get ''result'' e") (simp_all add: chain_inv_def last_result_def)
  ultimately show ?thesis using assms(3) e(1) len by (simp add: chain_inv_def)
qed

lemma chain_loop_inv:
  assumes "chain_loop sv ctx call input (zip [Suc k..<Suc (length steps)] (drop k steps)) st w = (Inr st', w')" "chain_inv steps k st"
  shows "chain_inv steps (length steps) st'"
  using assms
proof (induction "length steps - k" arbitrary: k st w)
  case 0
  then have "k = length steps" by (auto simp: chain_inv_def)
  with 0 show ?case by simp
next
  case (Suc m)
  then have k: "k < length steps" by simp
  then have list: "zip [Suc k..<Suc (length steps)] (drop k steps) = (Suc k, steps ! k) # zip [Suc (Suc k)..<Suc (length steps)] (drop (Suc k) steps)"
    by (simp add: Cons_nth_drop_Suc[symmetric] upt_conv_Cons del: upt_Suc)
  obtain r w1 where r: "chain_step sv ctx call input (Suc k, steps ! k) st w = (r, w1)" by fastforce
  then obtain st1 where st1: "r = Inr st1" using Suc.prems(1) list by (cases r) (simp_all del: upt_Suc)
  have "chain_inv steps (Suc k) st1" using step_added_inv[OF Suc.prems(2) chain_step_added[OF r[unfolded st1]] k] .
  moreover have "chain_loop sv ctx call input (zip [Suc (Suc k)..<Suc (length steps)] (drop (Suc k) steps)) st1 w1 = (Inr st', w')"
    using Suc.prems(1) list r st1 by (simp del: upt_Suc)
  ultimately show ?case using Suc.hyps(1)[of "Suc k" st1 w1] Suc.hyps(2) by (simp del: upt_Suc)
qed

lemma chain_inv_start: "chain_inv steps 0 \<lparr>cs_trace = [], cs_results = [], cs_prev = None, cs_failed = [], cs_last_ok = None\<rparr>"
  by (simp add: chain_inv_def last_result_def)

text \<open>What a finished chain reports: every input it reads was given, its trace has an entry for every step, in order, with
  the step's number and tool; \<open>failed_steps\<close> are the steps with an error entry, each of them one that tolerates errors;
  and the result is that of the last step that has one.\<close>

theorem chain_outcome:
  assumes "chain_call sv ctx call spec args w = (Inr v, w')"
  shows "\<exists>steps trace failed. parse_steps spec = Inr steps \<and> missing_inputs steps args = []
    \<and> json_get ''steps'' v = Some (JArr trace) \<and> length trace = length steps
    \<and> (\<forall>i < length steps. step_entry (i + 1) (steps ! i) (trace ! i))
    \<and> json_get ''failed_steps'' v = Some (JArr (map (\<lambda>n. JInt (int n)) failed))
    \<and> set failed = {i + 1 |i. i < length steps \<and> entry_failed (trace ! i)} \<and> sorted failed
    \<and> json_get ''result'' v = Some (case last_result trace of Some r \<Rightarrow> r | None \<Rightarrow> JNull)"
proof -
  obtain steps st where s: "parse_steps spec = Inr steps" "missing_inputs steps args = []"
    and loop: "chain_loop sv ctx call args (numbered steps) \<lparr>cs_trace = [], cs_results = [], cs_prev = None, cs_failed = [], cs_last_ok = None\<rparr> w = (Inr st, w')"
    and res: "chain_result sv ctx spec args st = Inr v"
    using assms by (auto simp: chain_call_def Let_def split: sum.splits if_splits prod.splits)
  from loop have "chain_loop sv ctx call args (zip [Suc 0..<Suc (length steps)] (drop 0 steps))
      \<lparr>cs_trace = [], cs_results = [], cs_prev = None, cs_failed = [], cs_last_ok = None\<rparr> w = (Inr st, w')"
    by (simp add: numbered_def del: upt_Suc)
  from chain_loop_inv[OF this chain_inv_start] have inv: "chain_inv steps (length steps) st" .
  have out: "json_get ''steps'' v = Some (JArr (cs_trace st))" "json_get ''failed_steps'' v = Some (JArr (map (\<lambda>n. JInt (int n)) (cs_failed st)))"
    "json_get ''result'' v = Some (case cs_last_ok st of Some r \<Rightarrow> r | None \<Rightarrow> JNull)"
    using res by (auto simp: chain_result_def Let_def split: sum.splits option.splits)
  have "sorted (cs_failed st)" using inv by (simp add: chain_inv_def sorted_map sorted_wrt_filter)
  moreover have "set (cs_failed st) = {i + 1 |i. i < length steps \<and> entry_failed (cs_trace st ! i)}"
    using inv by (auto simp: chain_inv_def)
  ultimately show ?thesis
    using s out inv by (intro exI[of _ steps] exI[of _ "cs_trace st"] exI[of _ "cs_failed st"]) (simp add: chain_inv_def)
qed

lemma chain_outcome_witness:
  "\<exists>trace. json_get ''steps'' (mk_obj [(''result'', JInt 1), (''steps'', JArr [mk_obj [(''step'', JInt 1), (''tool'', JStr ''count''), (''status'', JStr ''done''), (''result'', JInt 1)]]),
      (''failed_steps'', JArr [])]) = Some (JArr trace) \<and> length trace = 1"
proof -
  let ?spec = "JObj [(''steps'', JArr [JObj [(''tool'', JStr ''count'')]])]"
  let ?steps = "[\<lparr>ps_tool = ''count'', ps_args = [], ps_prev_whole = False, ps_continue_on_error = False, ps_for_each = None, ps_concurrency = None\<rparr>]"
  have parse: "parse_steps ?spec = Inr ?steps"
    by (simp add: parse_steps_def parse_chain_step_def parse_step_args_def parse_on_error_def parse_for_each_def parse_concurrency_def first_item_ref_def)
  have missing: "missing_inputs ?steps JNull = []"
    by (simp add: missing_inputs_def collect_input_refs_def numbered_def step_mappings_def List.map_filter_def)
  obtain w' where c: "compose_call counting root_ctx ''count'' (JObj []) None (Some 1) None None (fresh_world 0) = (Inr (JInt 1), w')"
    by (simp add: compose_call_def compose_call_ref_def root_ctx_def fresh_world_def counting_def compose_dispatch_def COMPOSE_DEPTH_MAX_def
      COMPOSE_CHILDREN_MAX_def dispatch_target_def run_child_def budget_refusal_def budget_account_def numeral_eq_Suc child_ctx_def Let_def)
  have "chain_call counting root_ctx (compose_call counting root_ctx) ?spec JNull (fresh_world 0)
      = (Inr (mk_obj [(''result'', JInt 1), (''steps'', JArr [mk_obj [(''step'', JInt 1), (''tool'', JStr ''count''), (''status'', JStr ''done''), (''result'', JInt 1)]]),
          (''failed_steps'', JArr [])]), w')"
    using c by (simp add: chain_call_def parse missing numbered_def chain_step_def resolve_args_def step_done_def chain_result_def project_outputs_def spec_declared_outputs_def Let_def)
  from chain_outcome[OF this] parse show ?thesis by auto
qed

end
