(* ===== verification/SubKeys.thy ===== *)
theory SubKeys
  imports Delegation Auth Confirm
begin

text \<open>
  Sub-keys: \<open>subkeys.rs\<close>, the resolution of a sub-key and its gate in \<open>handler.rs\<close>, and the statements of \<open>db.rs\<close>
  that end a run. The table \<open>tenant_keys\<close> is a list of rows in the order of their ids, every statement a function on
  it. A key is a tree node: its parent is the key that delegated it, none for a child of the primary key.

  The hash, the tools of a tenant, those shared with it, the tenants and the plans are arguments. A handler reads the
  clock once here; the source reads it a few times within one call. \<open>mint\<close> and \<open>delegate\<close> are split where the source waits: what they
  read, and the insert. A sequence of \<open>key_event\<close>s is then any interleaving of calls, sweeps and run ends.
\<close>

section \<open>The table\<close>

definition TTL_MIN_S :: int where "TTL_MIN_S = 60"

definition TTL_MAX_S :: int where "TTL_MAX_S = 7776000"

definition TTL_DEFAULT_S :: int where "TTL_DEFAULT_S = 2592000"

definition TOOLS_MAX :: nat where "TOOLS_MAX = 64"

definition LABEL_MAX :: nat where "LABEL_MAX = 64"

definition SESSION_IDLE_S :: int where "SESSION_IDLE_S = 30 * 60"

definition SESSION_TOUCH_S :: int where "SESSION_TOUCH_S = 60"

record tenant_key =
  tk_id :: nat
  tk_tenant :: int
  tk_hash :: string
  tk_label :: string
  tk_tools :: "string list"
  tk_created_at :: int
  tk_expires_at :: int
  tk_revoked_at :: "int option"
  tk_last_used_at :: "int option"
  tk_parent :: "nat option"
  tk_scopes :: "scope list"
  tk_can_delegate :: bool
  tk_depth :: int
  tk_revoked_by :: "string option"
  tk_bound :: "(string \<times> string) option"
  tk_bound_seen :: "int option"
  tk_minted_session :: "string option"
  tk_revoked_reason :: "string option"
  tk_unrestricted :: bool

text \<open>The columns of \<open>runs\<close> a bound key depends on.\<close>

record key_run =
  ru_id :: string
  ru_tenant :: int
  ru_status :: string
  ru_deadline_s :: "int option"
  ru_started :: "int option"

record key_audit =
  ka_tenant :: int
  ka_subject :: string
  ka_action :: string
  ka_detail :: json
  ka_unix :: int

record keys_db =
  kd_keys :: "tenant_key list"
  kd_next :: nat
  kd_runs :: "key_run list"
  kd_audit :: "key_audit list"
  kd_chain :: "key_audit list"

text \<open>The stored scopes are read back as they were.\<close>

lemma scopes_stored: "scopes_parse_json (scopes_json scs) = scs"
proof -
  have "scope_parse (scope_as_str sc) = Some sc" for sc by (cases sc) (simp_all add: scope_parse_def scope_all_def)
  then show ?thesis by (simp add: scopes_json_def scopes_parse_json_def JStrs_def List.map_filter_def list_all_iff comp_def)
qed

section \<open>Statements\<close>

definition find_key :: "tenant_key list \<Rightarrow> nat \<Rightarrow> tenant_key option" where
  "find_key keys i = find (\<lambda>k. tk_id k = i) keys"

definition find_sub_key_by_hash :: "tenant_key list \<Rightarrow> string \<Rightarrow> tenant_key option" where
  "find_sub_key_by_hash keys h = find (\<lambda>k. tk_hash k = h) keys"

definition update_keys :: "(tenant_key \<Rightarrow> bool) \<Rightarrow> (tenant_key \<Rightarrow> tenant_key) \<Rightarrow> keys_db \<Rightarrow> keys_db" where
  "update_keys p f db = db\<lparr>kd_keys := map (\<lambda>k. if p k then f k else k) (kd_keys db)\<rparr>"

definition revoke_bound_key :: "int \<Rightarrow> string \<Rightarrow> string \<times> string \<Rightarrow> string \<Rightarrow> int \<Rightarrow> keys_db \<Rightarrow> keys_db" where
  "revoke_bound_key tenant label bound reason now db =
     (let (kind, bound_ref) = bound;
          db1 = update_keys (\<lambda>k. tk_tenant k = tenant \<and> tk_label k = label \<and> map_option fst (tk_bound k) = Some kind \<and> tk_revoked_at k = None)
            (\<lambda>k. k\<lparr>tk_revoked_at := Some now, tk_revoked_by := Some (tk_label k), tk_revoked_reason := Some reason\<rparr>) db
      in db1\<lparr>kd_audit := kd_audit db1 @
        [\<lparr>ka_tenant = tenant, ka_subject = ''key:'' @ label, ka_action = ''revoke_bound'',
          ka_detail = mk_obj [(''label'', JStr label), (''bound'', mk_obj [(''kind'', JStr kind), (''ref'', JStr bound_ref)]), (''reason'', JStr reason)],
          ka_unix = now\<rparr>]\<rparr>)"

definition revoke_bound_on :: "int \<Rightarrow> string \<times> string \<Rightarrow> string \<Rightarrow> int \<Rightarrow> keys_db \<Rightarrow> nat \<times> keys_db" where
  "revoke_bound_on tenant bound reason now db =
     (let labels = map tk_label (filter (\<lambda>k. tk_tenant k = tenant \<and> tk_bound k = Some bound \<and> tk_revoked_at k = None) (kd_keys db))
      in (length labels, fold (\<lambda>label. revoke_bound_key tenant label bound reason now) labels db))"

definition touch_bound_session :: "nat \<Rightarrow> int \<Rightarrow> keys_db \<Rightarrow> keys_db" where
  "touch_bound_session i now =
     update_keys (\<lambda>k. tk_id k = i \<and> map_option fst (tk_bound k) = Some ''session'' \<and> tk_revoked_at k = None
         \<and> (case tk_bound_seen k of None \<Rightarrow> True | Some s \<Rightarrow> s \<le> now - SESSION_TOUCH_S))
       (\<lambda>k. k\<lparr>tk_bound_seen := Some now\<rparr>)"

definition revoke_session_bound :: "string \<Rightarrow> int \<Rightarrow> keys_db \<Rightarrow> nat \<times> keys_db" where
  "revoke_session_bound session_id now db =
     (let tenants = remdups (map tk_tenant (filter (\<lambda>k. tk_bound k = Some (''session'', session_id) \<and> tk_revoked_at k = None) (kd_keys db)))
      in fold (\<lambda>tenant (n, d). let (m, d') = revoke_bound_on tenant (''session'', session_id) ''session_closed'' now d in (n + m, d')) tenants (0, db))"

definition sweep_idle_bound_sessions :: "int \<Rightarrow> keys_db \<Rightarrow> nat \<times> keys_db" where
  "sweep_idle_bound_sessions now db =
     (let idle = filter (\<lambda>k. map_option fst (tk_bound k) = Some ''session'' \<and> tk_revoked_at k = None
              \<and> (case tk_bound_seen k of Some s \<Rightarrow> s | None \<Rightarrow> tk_created_at k) < now - SESSION_IDLE_S) (kd_keys db)
      in (length idle,
          fold (\<lambda>k. revoke_bound_key (tk_tenant k) (tk_label k) (''session'', snd (the (tk_bound k))) ''session_idle'' now) idle db))"

record new_sub_key =
  nk_hash :: string
  nk_label :: string
  nk_tools :: "string list"
  nk_created_at :: int
  nk_expires_at :: int
  nk_parent :: "nat option"
  nk_scopes :: "scope list"
  nk_can_delegate :: bool
  nk_depth :: int
  nk_unrestricted :: bool
  nk_bound :: "(string \<times> string) option"
  nk_minted_session :: "string option"

text \<open>The row that is written: a list of tools that is not stored is read back as none.\<close>

definition key_row :: "nat \<Rightarrow> int \<Rightarrow> new_sub_key \<Rightarrow> tenant_key" where
  "key_row i tenant n =
     \<lparr>tk_id = i, tk_tenant = tenant, tk_hash = nk_hash n, tk_label = nk_label n,
      tk_tools = (if nk_unrestricted n then [] else nk_tools n), tk_created_at = nk_created_at n, tk_expires_at = nk_expires_at n,
      tk_revoked_at = None, tk_last_used_at = None, tk_parent = nk_parent n, tk_scopes = nk_scopes n, tk_can_delegate = nk_can_delegate n,
      tk_depth = nk_depth n, tk_revoked_by = None, tk_bound = nk_bound n,
      tk_bound_seen = (if nk_bound n = None then None else Some (nk_created_at n)), tk_minted_session = nk_minted_session n,
      tk_revoked_reason = None, tk_unrestricted = nk_unrestricted n\<rparr>"

definition insert_sub_key :: "int \<Rightarrow> new_sub_key \<Rightarrow> keys_db \<Rightarrow> (app_error + nat) \<times> keys_db" where
  "insert_sub_key tenant n db =
     (if list_ex (\<lambda>k. tk_tenant k = tenant \<and> tk_label k = nk_label n) (kd_keys db)
      then (Inl (Structured ''label_taken'' (''this tenant already has a sub-key labelled '' @ [CHR 0x27] @ nk_label n @ [CHR 0x27])
                  (mk_obj [(''label'', JStr (nk_label n))])), db)
      else if list_ex (\<lambda>k. tk_hash k = nk_hash n) (kd_keys db)
      then (Inl (constraint_conflict 2067 ''UNIQUE constraint failed: tenant_keys.key_hash''), db)
      else (Inr (kd_next db), db\<lparr>kd_keys := kd_keys db @ [key_row (kd_next db) tenant n], kd_next := Suc (kd_next db)\<rparr>))"

definition touch_sub_key :: "nat \<Rightarrow> int \<Rightarrow> keys_db \<Rightarrow> keys_db" where
  "touch_sub_key i now =
     update_keys (\<lambda>k. tk_id k = i \<and> (case tk_last_used_at k of None \<Rightarrow> True | Some u \<Rightarrow> u \<le> now - 60)) (\<lambda>k. k\<lparr>tk_last_used_at := Some now\<rparr>)"

definition list_sub_keys :: "keys_db \<Rightarrow> int \<Rightarrow> tenant_key list" where
  "list_sub_keys db tenant = filter (\<lambda>k. tk_tenant k = tenant) (kd_keys db)"

definition count_live_sub_keys :: "keys_db \<Rightarrow> int \<Rightarrow> int \<Rightarrow> int" where
  "count_live_sub_keys db tenant now =
     int (length (filter (\<lambda>k. tk_tenant k = tenant \<and> tk_revoked_at k = None \<and> tk_expires_at k > now) (kd_keys db)))"

definition count_active_sub_keys :: "keys_db \<Rightarrow> int \<Rightarrow> int \<Rightarrow> int" where
  "count_active_sub_keys db tenant now =
     int (length (filter (\<lambda>k. tk_tenant k = tenant \<and> tk_revoked_at k = None \<and> tk_expires_at k > now) (kd_keys db)))"

definition count_sub_keys :: "keys_db \<Rightarrow> int \<Rightarrow> int" where
  "count_sub_keys db tenant = int (length (list_sub_keys db tenant))"

text \<open>The recursive queries: down the tree from a key, a level a turn, and up to its root. A level adds keys as long
  as there are new ones, so as many turns as there are rows are enough.\<close>

definition grow :: "tenant_key list \<Rightarrow> nat set \<Rightarrow> nat set" where
  "grow keys ids = ids \<union> set (map tk_id (filter (\<lambda>k. case tk_parent k of Some p \<Rightarrow> p \<in> ids | None \<Rightarrow> False) keys))"

definition subtree :: "tenant_key list \<Rightarrow> nat \<Rightarrow> nat set" where
  "subtree keys i = ((grow keys) ^^ length keys) {i}"

fun key_chain :: "nat \<Rightarrow> tenant_key list \<Rightarrow> nat option \<Rightarrow> tenant_key list" where
  "key_chain 0 keys up = []"
| "key_chain (Suc n) keys up =
     (case Option.bind up (find_key keys) of
        None \<Rightarrow> []
      | Some a \<Rightarrow> a # key_chain n keys (tk_parent a))"

definition ancestry :: "tenant_key list \<Rightarrow> nat option \<Rightarrow> tenant_key list" where
  "ancestry keys up = key_chain (length keys) keys up"

record revoked =
  rv_revoked_at :: int
  rv_labels :: "string list"

text \<open>\<open>ORDER BY depth, id\<close> of rows that are in the order of their ids.\<close>

definition by_depth :: "tenant_key list \<Rightarrow> tenant_key list" where
  "by_depth = sort_key tk_depth"

definition revoke_sub_key_tree :: "int \<Rightarrow> string \<Rightarrow> bool \<Rightarrow> int \<Rightarrow> keys_db \<Rightarrow> (app_error + revoked option) \<times> keys_db" where
  "revoke_sub_key_tree tenant label cascade now db =
     (case find (\<lambda>k. tk_tenant k = tenant \<and> tk_label k = label) (kd_keys db) of
        None \<Rightarrow> (Inr None, db)
      | Some apex \<Rightarrow>
          (let sub = subtree (kd_keys db) (tk_id apex);
               live = length (filter (\<lambda>k. tk_id k \<in> sub \<and> tk_id k \<noteq> tk_id apex \<and> tk_revoked_at k = None) (kd_keys db))
           in if \<not> cascade \<and> live > 0
              then (Inl (Structured ''has_children''
                      (''sub-key '' @ [CHR 0x27] @ label @ [CHR 0x27] @ '' has '' @ show_nat live
                         @ '' live descendant(s); pass cascade: true to revoke them too'')
                      (mk_obj [(''label'', JStr label), (''count'', JInt (int live))])), db)
              else
                (let hit = (\<lambda>k. (if cascade then tk_id k \<in> sub else tk_id k = tk_id apex) \<and> tk_revoked_at k = None)
                 in (Inr (Some \<lparr>rv_revoked_at = (case tk_revoked_at apex of Some s \<Rightarrow> s | None \<Rightarrow> now),
                       rv_labels = map tk_label (by_depth (filter hit (kd_keys db)))\<rparr>),
                     update_keys hit (\<lambda>k. k\<lparr>tk_revoked_at := Some now, tk_revoked_by := Some label\<rparr>) db))))"

section \<open>The rules of a key\<close>

definition as_sub_key :: "tenant_key \<Rightarrow> sub_key" where
  "as_sub_key k = \<lparr>sk_label = tk_label k, sk_tools = tk_tools k, sk_unrestricted = tk_unrestricted k\<rparr>"

definition bound_json :: "tenant_key \<Rightarrow> json" where
  "bound_json k =
     (case tk_bound k of
        Some (kind, i) \<Rightarrow> mk_obj [(''kind'', JStr kind), (''ref'', JStr i), (''last_seen_unix'', opt_json JInt (tk_bound_seen k))]
      | None \<Rightarrow> JNull)"

definition check_bound :: "tenant_key \<Rightarrow> string option \<Rightarrow> string option \<Rightarrow> app_error option" where
  "check_bound k session_id run_id =
     (case tk_bound k of
        None \<Rightarrow> None
      | Some (kind, i) \<Rightarrow>
          (let seen = (if kind = ''run'' then run_id else session_id) in
           if seen = Some i then None
           else Some (Structured ''key_bound_elsewhere''
             (''sub-key '' @ [CHR 0x27] @ tk_label k @ [CHR 0x27] @ '' is bound to '' @ kind @ '' '' @ i @ '' and cannot be used here'')
             (mk_obj [(''bound'', mk_obj [(''kind'', JStr kind), (''ref'', JStr i)]),
                      (''seen'', mk_obj [(''kind'', JStr kind), (''ref'', opt_json JStr seen)]), (''key_label'', JStr (tk_label k))]))))"

definition key_dead_reason :: "tenant_key \<Rightarrow> int \<Rightarrow> app_error option" where
  "key_dead_reason k now =
     (case tk_revoked_at k of
        Some at_unix \<Rightarrow> Some (Structured ''key_revoked'' (''sub-key '' @ [CHR 0x27] @ tk_label k @ [CHR 0x27] @ '' was revoked'')
          (mk_obj [(''key_label'', JStr (tk_label k)), (''revoked_at'', JInt at_unix),
                   (''revoked_by'', JStr (case tk_revoked_by k of Some b \<Rightarrow> b | None \<Rightarrow> tk_label k)),
                   (''reason'', opt_json JStr (tk_revoked_reason k))]))
      | None \<Rightarrow>
          if now \<ge> tk_expires_at k
          then Some (Structured ''key_expired'' (''sub-key '' @ [CHR 0x27] @ tk_label k @ [CHR 0x27] @ '' expired'')
            (mk_obj [(''key_label'', JStr (tk_label k)), (''expires_at'', JInt (tk_expires_at k))]))
          else None)"

definition scope_ok :: "tenant_key \<Rightarrow> string \<Rightarrow> bool" where
  "scope_ok k name = (case required_for name of None \<Rightarrow> True | Some need \<Rightarrow> held_implies (tk_scopes k) need)"

definition scope_denied :: "tenant_key \<Rightarrow> string \<Rightarrow> app_error" where
  "scope_denied k name =
     (let need = map_option scope_as_str (required_for name) in
      Structured ''permission_denied''
        (''this key ('' @ [CHR 0x27] @ tk_label k @ [CHR 0x27] @ '') lacks the scope '' @ (case need of Some s \<Rightarrow> s | None \<Rightarrow> ''-'') @ '' for '' @ name)
        (mk_obj [(''reason'', JStr ''missing_scope''), (''required_scope'', opt_json JStr need), (''scopes'', scopes_json (tk_scopes k)),
                 (''key_label'', JStr (tk_label k)), (''tool'', JStr name)]))"

definition key_authority :: "tenant_key \<Rightarrow> authority" where
  "key_authority k =
     \<lparr>auth_scopes = tk_scopes k, auth_tools = (if tk_unrestricted k then None else Some (tk_tools k)), auth_expires_at = Some (tk_expires_at k),
      auth_depth = tk_depth k, auth_can_delegate = tk_can_delegate k\<rparr>"

record acting_for =
  af_key_id :: nat
  af_label :: string
  af_parent_label :: "string option"
  af_root_label :: string
  af_depth :: int

definition acting_for_json :: "acting_for \<Rightarrow> json" where
  "acting_for_json a =
     mk_obj [(''key_id'', JInt (int (af_key_id a))), (''label'', JStr (af_label a)), (''parent_label'', opt_json JStr (af_parent_label a)),
             (''root_label'', JStr (af_root_label a)), (''depth'', JInt (af_depth a))]"

definition acting_for_key :: "tenant_key list \<Rightarrow> nat \<Rightarrow> acting_for option" where
  "acting_for_key keys i =
     (case ancestry keys (Some i) of
        [] \<Rightarrow> None
      | k # up \<Rightarrow> Some \<lparr>af_key_id = tk_id k, af_label = tk_label k, af_parent_label = (case up of p # _ \<Rightarrow> Some (tk_label p) | [] \<Rightarrow> None),
          af_root_label = tk_label (last (k # up)), af_depth = tk_depth k\<rparr>)"

section \<open>Calls\<close>

record key_plan =
  kp_name :: string
  kp_sub_keys_max :: int
  kp_delegated_keys_max :: int
  kp_delegated_ttl_max_s :: int

record key_tenant =
  kt_id :: int
  kt_namespace :: string
  kt_plan :: string

record key_env =
  ke_hash :: "string \<Rightarrow> string"
  ke_tenant :: "int \<Rightarrow> (string \<times> string) option"
  ke_own_tools :: "int \<Rightarrow> string list"
  ke_shared :: "int \<Rightarrow> string \<Rightarrow> string \<Rightarrow> bool"
  ke_plan :: "string \<Rightarrow> key_plan option"

definition all_strs :: "(string \<Rightarrow> bool) \<Rightarrow> json list \<Rightarrow> string list option" where
  "all_strs ok vs =
     (if list_all (\<lambda>v. case as_str v of Some s \<Rightarrow> ok s | None \<Rightarrow> False) vs then Some (List.map_filter as_str vs) else None)"

definition mint_tools :: "json \<Rightarrow> app_error + string list" where
  "mint_tools args =
     (case Option.bind (json_get ''tools'' args) as_array of
        Some a \<Rightarrow>
          if a \<noteq> [] \<and> length a \<le> TOOLS_MAX
          then (case all_strs (\<lambda>_. True) a of
                  Some ts \<Rightarrow> Inr ts
                | None \<Rightarrow> Inl (InvalidParams ''tools: every entry must be a tool name string''))
          else Inl (InvalidParams (''tools: an array of 1..'' @ show_nat TOOLS_MAX @ '' tool names is required''))
      | None \<Rightarrow> Inl (InvalidParams (''tools: an array of 1..'' @ show_nat TOOLS_MAX @ '' tool names is required'')))"

definition is_absent :: "json option \<Rightarrow> bool" where
  "is_absent v \<longleftrightarrow> v = None \<or> v = Some JNull"

definition mint_ttl :: "json \<Rightarrow> app_error + int" where
  "mint_ttl args =
     (if is_absent (json_get ''ttl_s'' args) then Inr TTL_DEFAULT_S
      else (case Option.bind (json_get ''ttl_s'' args) as_i64 of
          Some t \<Rightarrow>
            if TTL_MIN_S \<le> t \<and> t \<le> TTL_MAX_S then Inr t
            else Inl (InvalidParams (''ttl_s: an integer in '' @ show_int TTL_MIN_S @ ''..'' @ show_int TTL_MAX_S @ '' seconds''))
        | None \<Rightarrow> Inl (InvalidParams (''ttl_s: an integer in '' @ show_int TTL_MIN_S @ ''..'' @ show_int TTL_MAX_S @ '' seconds''))))"

text \<open>A label is given, or made from the key. Its length is in bytes.\<close>

definition label_arg :: "json \<Rightarrow> string \<Rightarrow> app_error + string" where
  "label_arg args key =
     (if is_absent (json_get ''label'' args) then Inr (''key-'' @ take 8 (drop 3 key))
      else (case Option.bind (json_get ''label'' args) as_str of
          Some l \<Rightarrow>
            if l \<noteq> [] \<and> str_len l \<le> LABEL_MAX then Inr l
            else Inl (InvalidParams (''label: a string of 1..'' @ show_nat LABEL_MAX @ '' characters''))
        | None \<Rightarrow> Inl (InvalidParams (''label: a string of 1..'' @ show_nat LABEL_MAX @ '' characters''))))"

definition tool_resolves :: "key_env \<Rightarrow> key_tenant \<Rightarrow> string \<Rightarrow> bool" where
  "tool_resolves env t name \<longleftrightarrow>
     (if name \<in> set (ke_own_tools env (kt_id t)) then True
      else (case split_once (CHR ''.'') name of
          Some (ns, loc) \<Rightarrow>
            if ns = kt_namespace t then loc \<in> set (ke_own_tools env (kt_id t)) else ke_shared env (kt_id t) ns loc
        | None \<Rightarrow> False))"

definition not_in_catalog :: "string \<Rightarrow> string \<Rightarrow> string \<Rightarrow> app_error" where
  "not_in_catalog before plan after = Internal (before @ [CHR 0x27] @ plan @ [CHR 0x27] @ after)"

text \<open>What \<open>mint\<close> reads and decides, and its answer once the row is in.\<close>

definition mint_prepare :: "key_env \<Rightarrow> key_tenant \<Rightarrow> json \<Rightarrow> string \<Rightarrow> int \<Rightarrow> keys_db \<Rightarrow> app_error + new_sub_key" where
  "mint_prepare env t args key now db =
     (case mint_tools args of
        Inl e \<Rightarrow> Inl e
      | Inr tools \<Rightarrow>
     (case mint_ttl args of
        Inl e \<Rightarrow> Inl e
      | Inr ttl_s \<Rightarrow>
     (case find (\<lambda>n. \<not> tool_resolves env t n) tools of
        Some n \<Rightarrow> Inl (Structured ''not_found''
          (''tool '' @ [CHR 0x27] @ n @ [CHR 0x27] @ '' is not one of your tools or shared with you; no sub-key was minted'')
          (mk_obj [(''tool'', JStr n)]))
      | None \<Rightarrow>
     (case ke_plan env (kt_plan t) of
        None \<Rightarrow> Inl (not_in_catalog (''tenant'' @ [CHR 0x27] @ ''s plan '') (kt_plan t) '' is not in the loaded plan catalog'')
      | Some plan \<Rightarrow>
          (let active = count_active_sub_keys db (kt_id t) now in
           if active \<ge> kp_sub_keys_max plan
           then Inl (Structured ''plan_required''
             (''sub_keys_max: the '' @ kt_plan t @ '' plan allows '' @ show_int (kp_sub_keys_max plan) @ '' active sub-keys and this tenant holds ''
                @ show_int active @ '' -- revoke one with host.key.revoke, or upgrade'')
             (mk_obj [(''field'', JStr ''sub_keys_max''), (''plan'', JStr (kt_plan t)), (''limit'', JInt (kp_sub_keys_max plan)), (''used'', JInt active)]))
           else (case label_arg args key of
               Inl e \<Rightarrow> Inl e
             | Inr label \<Rightarrow>
                 Inr \<lparr>nk_hash = ke_hash env key, nk_label = label, nk_tools = tools, nk_created_at = now, nk_expires_at = wrap_i64 (now + ttl_s),
                   nk_parent = None, nk_scopes = [Mcp], nk_can_delegate = False, nk_depth = 1, nk_unrestricted = False,
                   nk_bound = None, nk_minted_session = None\<rparr>))))))"

definition mint_usage :: string where
  "mint_usage = ''Hand this key to the other agent: pass it as the tenant_key argument or an Authorization: Bearer header. '' @
     ''It is shown once. It opens only the named tools (plus host.whoami and host.quickstart) until expires_at, and survives host.key.rotate.''"

definition mint :: "key_env \<Rightarrow> key_tenant \<Rightarrow> json \<Rightarrow> string \<Rightarrow> int \<Rightarrow> keys_db \<Rightarrow> (app_error + json) \<times> keys_db" where
  "mint env t args key now db =
     (case mint_prepare env t args key now db of
        Inl e \<Rightarrow> (Inl e, db)
      | Inr n \<Rightarrow>
          (case insert_sub_key (kt_id t) n db of
             (Inl e, db') \<Rightarrow> (Inl e, db')
           | (Inr _, db') \<Rightarrow>
               (Inr (mk_obj [(''key'', JStr key), (''label'', JStr (nk_label n)), (''tools'', JStrs (nk_tools n)),
                             (''expires_at'', JInt (nk_expires_at n)), (''usage'', JStr mint_usage)]), db')))"

text \<open>\<open>bind\<close>: kind, id, and the deadline of the run.\<close>

definition run_open :: "key_run \<Rightarrow> bool" where
  "run_open r \<longleftrightarrow> ru_status r = ''queued'' \<or> ru_status r = ''running''"

definition parse_bind :: "int \<Rightarrow> json option \<Rightarrow> string option \<Rightarrow> int \<Rightarrow> keys_db \<Rightarrow> app_error + (string \<times> string \<times> int option) option" where
  "parse_bind tenant bind session_id now db =
     (let one_of = InvalidParams ''bind: exactly one of run_id, session_id, session (\"current\")'';
          current = (case session_id of
              Some s \<Rightarrow> Inr (Some (''session'', s, None))
            | None \<Rightarrow> Inl (InvalidParams ''bind: this call carries no MCP session id to bind to''))
      in if is_absent bind then Inr None
         else (case Option.bind bind as_object of
             None \<Rightarrow> Inl (InvalidParams ''bind: an object'')
           | Some [(k, v)] \<Rightarrow>
               if k = ''session'' \<and> as_str v = Some ''current'' then current
               else if k = ''session_id''
               then (case as_str v of
                   Some (c # cs) \<Rightarrow>
                     if session_id \<noteq> Some (c # cs)
                     then Inl (Structured ''permission_denied'' (''bind.session_id must be this connection'' @ [CHR 0x27] @ ''s own session id'')
                            (mk_obj [(''reason'', JStr ''foreign_session'')]))
                     else current
                 | _ \<Rightarrow> Inl (InvalidParams ''bind.session_id: a non-empty string''))
               else if k = ''run_id''
               then (case as_str v of
                   Some (c # cs) \<Rightarrow>
                     (case find (\<lambda>r. ru_id r = c # cs \<and> ru_tenant r = tenant \<and> run_open r) (kd_runs db) of
                        None \<Rightarrow> Inl (Structured ''not_found''
                          (''bind.run_id: no open run '' @ [CHR 0x27] @ (c # cs) @ [CHR 0x27] @ '' of yours; no key was minted'')
                          (mk_obj [(''run_id'', JStr (c # cs))]))
                      | Some r \<Rightarrow>
                          Inr (Some (''run'', c # cs, map_option (\<lambda>d. wrap_i64 ((case ru_started r of Some s \<Rightarrow> s | None \<Rightarrow> now) + d)) (ru_deadline_s r))))
                 | _ \<Rightarrow> Inl (InvalidParams ''bind.run_id: a non-empty string''))
               else Inl one_of
           | Some _ \<Rightarrow> Inl one_of))"

definition delegate_scopes :: "json \<Rightarrow> bool \<Rightarrow> app_error + scope list" where
  "delegate_scopes args is_bound =
     (case Option.bind (json_get ''scopes'' args) as_array of
        None \<Rightarrow>
          if is_bound \<and> is_absent (json_get ''scopes'' args) then Inr [Mcp]
          else Inl (InvalidParams ''scopes: an array of 1.. scope names is required'')
      | Some a \<Rightarrow>
          if a = [] then Inl (InvalidParams ''scopes: an array of 1.. scope names is required'')
          else if list_all (\<lambda>v. Option.bind (as_str v) scope_parse \<noteq> None) a
          then Inr (List.map_filter (\<lambda>v. Option.bind (as_str v) scope_parse) a)
          else Inl (InvalidParams ''scopes: every entry must be one of mcp, tools:call, tools:write''))"

definition delegate_tools :: "json \<Rightarrow> app_error + string list option" where
  "delegate_tools args =
     (if is_absent (json_get ''tools'' args) then Inr None
      else (case Option.bind (json_get ''tools'' args) as_array of
          Some a \<Rightarrow>
            if a \<noteq> [] \<and> length a \<le> TOOLS_MAX
            then (case all_strs (\<lambda>s. s \<noteq> []) a of
                    Some ts \<Rightarrow> Inr (Some ts)
                  | None \<Rightarrow> Inl (InvalidParams ''tools: every entry must be a tool name string''))
            else Inl (InvalidParams (''tools: an array of 1..'' @ show_nat TOOLS_MAX @ '' tool names''))
        | None \<Rightarrow> Inl (InvalidParams (''tools: an array of 1..'' @ show_nat TOOLS_MAX @ '' tool names''))))"

text \<open>A bound key lives as long as its run, the plan and the parent allow, and a minute at least.\<close>

definition bound_ttl :: "int option \<Rightarrow> int option \<Rightarrow> int option \<Rightarrow> int \<Rightarrow> int" where
  "bound_ttl plan_max deadline parent_expires now =
     (let caps = List.map_filter id [Some TTL_DEFAULT_S, plan_max, map_option (\<lambda>d. wrap_i64 (d - now)) deadline,
            map_option (\<lambda>e. wrap_i64 (e - now)) parent_expires]
      in max (fold min caps TTL_DEFAULT_S) TTL_MIN_S)"

definition delegate_ttl :: "json \<Rightarrow> (string \<times> string \<times> int option) option \<Rightarrow> int option \<Rightarrow> int option \<Rightarrow> int \<Rightarrow> app_error + int" where
  "delegate_ttl args bound plan_max parent_expires now =
     (case (is_absent (json_get ''ttl_s'' args), bound) of
        (True, Some (_, _, deadline)) \<Rightarrow> Inr (bound_ttl plan_max deadline parent_expires now)
      | _ \<Rightarrow>
          (case Option.bind (json_get ''ttl_s'' args) as_i64 of
             Some t \<Rightarrow>
               if t \<ge> TTL_MIN_S then Inr t
               else Inl (InvalidParams (''ttl_s: an integer of at least '' @ show_int TTL_MIN_S @ '' seconds is required''))
           | None \<Rightarrow> Inl (InvalidParams (''ttl_s: an integer of at least '' @ show_int TTL_MIN_S @ '' seconds is required''))))"

definition can_delegate_arg :: "json \<Rightarrow> app_error + bool" where
  "can_delegate_arg args =
     (if is_absent (json_get ''can_delegate'' args) then Inr False
      else (case Option.bind (json_get ''can_delegate'' args) as_bool of
          Some b \<Rightarrow> Inr b
        | None \<Rightarrow> Inl (InvalidParams ''can_delegate: a boolean'')))"

definition key_plan_required :: "string \<Rightarrow> int \<Rightarrow> int \<Rightarrow> string \<Rightarrow> app_error" where
  "key_plan_required field limit requested plan =
     Structured ''plan_required''
       (field @ '' is '' @ show_int limit @ '' on the '' @ plan @ '' plan (requested '' @ show_int requested @ ''); upgrade the plan or revoke keys'')
       (mk_obj [(''field'', JStr field), (''limit'', JInt limit), (''requested'', JInt requested), (''plan'', JStr plan)])"

definition caller_row :: "keys_db \<Rightarrow> nat option \<Rightarrow> tenant_key option" where
  "caller_row db key_id = Option.bind key_id (find_key (kd_keys db))"

definition no_delegation :: "tenant_key option \<Rightarrow> app_error" where
  "no_delegation caller =
     Structured ''permission_denied'' ''this key may not delegate: it was minted with can_delegate=false; ask the key that minted it''
       (mk_obj [(''reason'', JStr ''can_delegate=false''), (''key_label'', opt_json (JStr \<circ> tk_label) caller)])"

text \<open>The arguments of \<open>delegate\<close>, in the order they are looked at; and what it decides with them.\<close>

definition delegate_request ::
  "key_env \<Rightarrow> key_tenant \<Rightarrow> authority \<Rightarrow> json \<Rightarrow> string option \<Rightarrow> string \<Rightarrow> int \<Rightarrow> keys_db
     \<Rightarrow> app_error + ((string \<times> string \<times> int option) option \<times> string \<times> delegate_req)" where
  "delegate_request env t parent args session_id key now db =
     (case parse_bind (kt_id t) (json_get ''bind'' args) session_id now db of
        Inl e \<Rightarrow> Inl e
      | Inr bound \<Rightarrow>
     (case delegate_scopes args (bound \<noteq> None) of
        Inl e \<Rightarrow> Inl e
      | Inr scopes \<Rightarrow>
     (case delegate_tools args of
        Inl e \<Rightarrow> Inl e
      | Inr tools \<Rightarrow>
     (case delegate_ttl args bound (map_option kp_delegated_ttl_max_s (ke_plan env (kt_plan t))) (auth_expires_at parent) now of
        Inl e \<Rightarrow> Inl e
      | Inr ttl_s \<Rightarrow>
     (case label_arg args key of
        Inl e \<Rightarrow> Inl e
      | Inr label \<Rightarrow>
     (case can_delegate_arg args of
        Inl e \<Rightarrow> Inl e
      | Inr can_delegate \<Rightarrow>
          Inr (bound, label, \<lparr>req_scopes = scopes, req_tools = tools, req_ttl_s = ttl_s, req_now = now, req_can_delegate = can_delegate\<rparr>)))))))"

definition delegate_prepare ::
  "key_env \<Rightarrow> key_tenant \<Rightarrow> nat option \<Rightarrow> json \<Rightarrow> string option \<Rightarrow> string \<Rightarrow> int \<Rightarrow> keys_db \<Rightarrow> app_error + (int \<times> new_sub_key)" where
  "delegate_prepare env t key_id args session_id key now db =
     (let caller = caller_row db key_id;
          parent = (case caller of Some c \<Rightarrow> key_authority c | None \<Rightarrow> primary_authority)
      in if \<not> auth_can_delegate parent then Inl (no_delegation caller)
         else (case delegate_request env t parent args session_id key now db of
             Inl e \<Rightarrow> Inl e
           | Inr (bound, label, req) \<Rightarrow>
               (case narrow parent req of
                  Inl x \<Rightarrow> Inl (excess_into_error x)
                | Inr child \<Rightarrow>
                    (let expires0 = (case auth_expires_at child of Some e \<Rightarrow> e | None \<Rightarrow> wrap_i64 (now + req_ttl_s req));
                         expires_at = (case bound of Some (_, _, Some deadline) \<Rightarrow> min expires0 deadline | _ \<Rightarrow> expires0)
                     in case ke_plan env (kt_plan t) of
                          None \<Rightarrow> Inl (not_in_catalog ''tenant plan '' (kt_plan t) '' not in catalog'')
                        | Some plan \<Rightarrow>
                            if req_ttl_s req > kp_delegated_ttl_max_s plan
                            then Inl (key_plan_required ''delegated_ttl_max_s'' (kp_delegated_ttl_max_s plan) (req_ttl_s req) (kp_name plan))
                            else if count_live_sub_keys db (kt_id t) now \<ge> kp_delegated_keys_max plan
                            then Inl (key_plan_required ''delegated_keys_max'' (kp_delegated_keys_max plan) (count_live_sub_keys db (kt_id t) now) (kp_name plan))
                            else Inr (req_ttl_s req,
                              \<lparr>nk_hash = ke_hash env key, nk_label = label, nk_tools = (case auth_tools child of Some ts \<Rightarrow> ts | None \<Rightarrow> []),
                               nk_created_at = now, nk_expires_at = expires_at, nk_parent = map_option tk_id caller, nk_scopes = auth_scopes child,
                               nk_can_delegate = req_can_delegate req, nk_depth = auth_depth child, nk_unrestricted = (auth_tools child = None),
                               nk_bound = map_option (\<lambda>(k, i, _). (k, i)) bound, nk_minted_session = session_id\<rparr>)))))"

text \<open>An audit row written during a sub-key's call names whom it acted for.\<close>

definition key_audit_row :: "acting_for option \<Rightarrow> int \<Rightarrow> string \<Rightarrow> string \<Rightarrow> (string \<times> json) list \<Rightarrow> int \<Rightarrow> key_audit" where
  "key_audit_row acting tenant label action detail now =
     \<lparr>ka_tenant = tenant, ka_subject = ''key:'' @ label, ka_action = action,
      ka_detail = mk_obj (detail @ (case acting of Some a \<Rightarrow> [(''acting_for'', acting_for_json a)] | None \<Rightarrow> [])), ka_unix = now\<rparr>"

definition tools_json :: "new_sub_key \<Rightarrow> json" where
  "tools_json n = (if nk_unrestricted n then JNull else JStrs (nk_tools n))"

definition delegate_usage :: string where
  "delegate_usage = ''Hand this key to the other agent: pass it as the tenant_key argument or an Authorization: Bearer header. '' @
     ''It is shown once. It can do no more than the key that minted it, and revoking that key (cascade) revokes it.''"

definition delegate ::
  "key_env \<Rightarrow> key_tenant \<Rightarrow> nat option \<Rightarrow> json \<Rightarrow> string option \<Rightarrow> string \<Rightarrow> int \<Rightarrow> keys_db \<Rightarrow> (app_error + json) \<times> keys_db" where
  "delegate env t key_id args session_id key now db =
     (case delegate_prepare env t key_id args session_id key now db of
        Inl e \<Rightarrow> (Inl e, db)
      | Inr (ttl_s, n) \<Rightarrow>
          (case insert_sub_key (kt_id t) n db of
             (Inl e, db') \<Rightarrow> (Inl e, db')
           | (Inr _, db') \<Rightarrow>
               (let parent = opt_json (JStr \<circ> tk_label) (caller_row db key_id);
                    row = key_audit_row (Option.bind key_id (acting_for_key (kd_keys db))) (kt_id t) (nk_label n) ''delegate''
                      [(''scopes'', scopes_json (nk_scopes n)), (''tools'', tools_json n), (''ttl_s'', JInt ttl_s), (''label'', JStr (nk_label n)),
                       (''can_delegate'', JBool (nk_can_delegate n)), (''parent'', parent)] now
                in (Inr (mk_obj [(''key'', JStr key), (''label'', JStr (nk_label n)), (''parent'', parent), (''scopes'', scopes_json (nk_scopes n)),
                          (''tools'', tools_json n), (''expires_at'', JInt (nk_expires_at n)), (''depth'', JInt (nk_depth n)),
                          (''can_delegate'', JBool (nk_can_delegate n)),
                          (''bound'', opt_json (\<lambda>(k, i). mk_obj [(''kind'', JStr k), (''ref'', JStr i)]) (nk_bound n)),
                          (''usage'', JStr delegate_usage)]),
                    db'\<lparr>kd_audit := kd_audit db' @ [row]\<rparr>))))"

text \<open>\<open>host.key.revoke\<close>: a cascade writes a record per key, also in the hash chain.\<close>

definition revoke_key :: "key_tenant \<Rightarrow> acting_for option \<Rightarrow> json \<Rightarrow> int \<Rightarrow> keys_db \<Rightarrow> (app_error + json) \<times> keys_db" where
  "revoke_key t acting args now db =
     (case Option.bind (json_get ''label'' args) as_str of
        None \<Rightarrow> (Inl (InvalidParams ''label: the sub-key label to revoke is required''), db)
      | Some label \<Rightarrow>
          (case (if is_absent (json_get ''cascade'' args) then Some False else Option.bind (json_get ''cascade'' args) as_bool) of
             None \<Rightarrow> (Inl (InvalidParams ''cascade: a boolean''), db)
           | Some cascade \<Rightarrow>
               (case revoke_sub_key_tree (kt_id t) label cascade now db of
                  (Inl e, db') \<Rightarrow> (Inl e, db')
                | (Inr None, db') \<Rightarrow>
                    (Inl (Structured ''not_found'' (''no sub-key labelled '' @ [CHR 0x27] @ label @ [CHR 0x27]) (mk_obj [(''label'', JStr label)])), db')
                | (Inr (Some d), db') \<Rightarrow>
                    (let member = (\<lambda>l. [(''label'', JStr l), (''revoked_by'', JStr label), (''cascade'', JBool True)]);
                         rows = (if cascade then map (\<lambda>l. key_audit_row acting (kt_id t) label ''revoke_cascade'' (member l) now) (rv_labels d)
                                 else if rv_labels d = [] then []
                                 else [key_audit_row acting (kt_id t) label ''revoke'' [(''label'', JStr label), (''cascade'', JBool cascade)] now]);
                         chained = (if cascade then map (\<lambda>l. key_audit_row None (kt_id t) label ''revoke_cascade'' (member l) (rv_revoked_at d)) (rv_labels d) else [])
                     in (Inr (mk_obj [(''label'', JStr label), (''revoked_at'', JInt (rv_revoked_at d)), (''revoked'', JInt (int (length (rv_labels d)))),
                                      (''labels'', JStrs (rv_labels d))]),
                         db'\<lparr>kd_audit := kd_audit db' @ rows, kd_chain := kd_chain db' @ chained\<rparr>)))))"

text \<open>\<open>host.key.list\<close>: the tree under the primary key. As many levels as there are rows are enough.\<close>

definition node_json :: "tenant_key \<Rightarrow> string option \<Rightarrow> (string \<times> json) list" where
  "node_json k parent_label =
     [(''label'', JStr (tk_label k)), (''depth'', JInt (tk_depth k)), (''parent'', opt_json JStr parent_label), (''scopes'', scopes_json (tk_scopes k)),
      (''tools'', if tk_unrestricted k then JNull else JStrs (tk_tools k)), (''can_delegate'', JBool (tk_can_delegate k)),
      (''created_at'', JInt (tk_created_at k)), (''expires_at'', JInt (tk_expires_at k)), (''revoked_at'', opt_json JInt (tk_revoked_at k)),
      (''last_used_at'', opt_json JInt (tk_last_used_at k)), (''bound'', bound_json k), (''revoked_reason'', opt_json JStr (tk_revoked_reason k))]"

fun attach_keys :: "nat \<Rightarrow> tenant_key list \<Rightarrow> nat option \<Rightarrow> string option \<Rightarrow> json list" where
  "attach_keys 0 keys parent parent_label = []"
| "attach_keys (Suc n) keys parent parent_label =
     map (\<lambda>k. mk_obj (node_json k parent_label @ [(''children'', JArr (attach_keys n keys (Some (tk_id k)) (Some (tk_label k))))]))
       (filter (\<lambda>k. tk_parent k = parent) keys)"

definition list_keys :: "keys_db \<Rightarrow> int \<Rightarrow> json" where
  "list_keys db tenant =
     (let all = list_sub_keys db tenant in mk_obj [(''keys'', JArr (attach_keys (length all) all None None))])"

definition whoami_key :: "keys_db \<Rightarrow> nat option \<Rightarrow> string option \<Rightarrow> json option" where
  "whoami_key db key_id session_id =
     map_option (\<lambda>k.
         mk_obj (node_json k (map_option tk_label (Option.bind (tk_parent k) (find_key (kd_keys db)))) @ [(''kind'', JStr ''delegated'')]
           @ (case (tk_minted_session k, session_id) of
                (Some minted, Some seen) \<Rightarrow>
                  if minted \<noteq> seen
                  then [(''hint'', JStr (''this key was delegated for '' @ tk_label k @ ''; ask your lead for a run-bound key if you need more''))] else []
              | _ \<Rightarrow> [])))
       (caller_row db key_id)"

definition seen_run_id :: "string \<Rightarrow> json \<Rightarrow> json option \<Rightarrow> string option" where
  "seen_run_id tool args meta =
     (case (if starts_with tool ''host.runs.'' then Option.bind (json_get ''run_id'' args) as_str else None) of
        Some r \<Rightarrow> Some r
      | None \<Rightarrow> Option.bind (Option.bind meta (json_get ''run_id'')) as_str)"

text \<open>\<open>resolve_sub_key_tenant\<close>: no sub-key (\<open>Inr None\<close>), a dead one, or the row and its tenant. A dead ancestor kills.\<close>

definition resolve_sub_key_tenant :: "key_env \<Rightarrow> string \<Rightarrow> int \<Rightarrow> keys_db \<Rightarrow> (app_error + (tenant_key \<times> key_tenant) option) \<times> keys_db" where
  "resolve_sub_key_tenant env key now db =
     (if \<not> starts_with key sub_key_prefix then (Inr None, db)
      else (case find_sub_key_by_hash (kd_keys db) (ke_hash env key) of
          None \<Rightarrow> (Inr None, db)
        | Some found \<Rightarrow>
            (case ke_tenant env (tk_tenant found) of
               None \<Rightarrow> (Inr None, db)
             | Some (namespace, plan) \<Rightarrow>
                 (case List.map_filter (\<lambda>k. key_dead_reason k now) (found # ancestry (kd_keys db) (tk_parent found)) of
                    dead # _ \<Rightarrow> (Inl dead, db)
                  | [] \<Rightarrow> (Inr (Some (found, \<lparr>kt_id = tk_tenant found, kt_namespace = namespace, kt_plan = plan\<rparr>)),
                            touch_sub_key (tk_id found) now db)))))"

text \<open>The checks of \<open>call_tool_inner\<close> on a call with a sub-key: allowlist, scope, binding.\<close>

definition sub_key_gate :: "tenant_key \<Rightarrow> key_tenant \<Rightarrow> string \<Rightarrow> json \<Rightarrow> json option \<Rightarrow> string option \<Rightarrow> int \<Rightarrow> keys_db \<Rightarrow> app_error option \<times> keys_db" where
  "sub_key_gate sk t body_name args meta session_id now db =
     (let name = (case resolve_alias body_name of Some c \<Rightarrow> c | None \<Rightarrow> body_name) in
      if name \<noteq> ''host.key.delegate'' \<and> \<not> permits (as_sub_key sk) (kt_namespace t) name
      then (Some (sub_key_denied (as_sub_key sk) name), db)
      else if \<not> scope_ok sk name then (Some (scope_denied sk name), db)
      else if name = ''host.whoami'' then (None, db)
      else (case check_bound sk session_id (seen_run_id name args meta) of
          Some e \<Rightarrow> (Some e, db)
        | None \<Rightarrow>
            (None, if map_option fst (tk_bound sk) = Some ''session'' then touch_bound_session (tk_id sk) now db else db)))"

text \<open>Who calls: the primary key of a tenant, or a sub-key that is resolved and passes its gate.\<close>

datatype credential = Primary key_tenant | SubKey string

definition admit ::
  "key_env \<Rightarrow> credential \<Rightarrow> string \<Rightarrow> json \<Rightarrow> json option \<Rightarrow> string option \<Rightarrow> int \<Rightarrow> keys_db
     \<Rightarrow> (app_error option + (nat option \<times> key_tenant)) \<times> keys_db" where
  "admit env cred name args meta session_id now db =
     (case cred of
        Primary t \<Rightarrow> (Inr (None, t), db)
      | SubKey key \<Rightarrow>
          (case resolve_sub_key_tenant env key now db of
             (Inl e, db') \<Rightarrow> (Inl (Some e), db')
           | (Inr None, db') \<Rightarrow> (Inl None, db')
           | (Inr (Some (sk, t)), db') \<Rightarrow>
               (case sub_key_gate sk t name args meta session_id now db' of
                  (Some e, db'') \<Rightarrow> (Inl (Some e), db'')
                | (None, db'') \<Rightarrow> (Inr (Some (tk_id sk), t), db''))))"

section \<open>The end of a run\<close>

definition set_status :: "(key_run \<Rightarrow> bool) \<Rightarrow> string \<Rightarrow> keys_db \<Rightarrow> keys_db" where
  "set_status p status db = db\<lparr>kd_runs := map (\<lambda>r. if p r then r\<lparr>ru_status := status\<rparr> else r) (kd_runs db)\<rparr>"

definition finalize_run :: "string \<Rightarrow> int \<Rightarrow> string \<Rightarrow> int \<Rightarrow> keys_db \<Rightarrow> bool \<times> keys_db" where
  "finalize_run run_id tenant status finished db =
     (let hit = (\<lambda>r. ru_id r = run_id \<and> ru_tenant r = tenant \<and> run_open r) in
      if list_ex hit (kd_runs db)
      then (True, snd (revoke_bound_on tenant (''run'', run_id) (''run_'' @ status) finished (set_status hit status db)))
      else (False, db))"

definition cancel_run :: "string \<Rightarrow> int \<Rightarrow> int \<Rightarrow> keys_db \<Rightarrow> key_run option \<times> keys_db" where
  "cancel_run run_id tenant now db =
     (let hit = (\<lambda>r. ru_id r = run_id \<and> ru_tenant r = tenant \<and> run_open r) in
      case find hit (kd_runs db) of
        None \<Rightarrow> (None, db)
      | Some before \<Rightarrow>
          (Some before, snd (revoke_bound_on tenant (''run'', run_id) ''run_cancelled'' now (set_status hit ''cancelled'' db))))"

definition end_runs :: "(key_run \<Rightarrow> bool) \<Rightarrow> int \<Rightarrow> keys_db \<Rightarrow> keys_db" where
  "end_runs hit now db =
     fold (\<lambda>r d. snd (revoke_bound_on (ru_tenant r) (''run'', ru_id r) ''run_error'' now d)) (filter hit (kd_runs db)) (set_status hit ''error'' db)"

definition reap_expired_runs :: "int \<Rightarrow> keys_db \<Rightarrow> int \<times> keys_db" where
  "reap_expired_runs now db =
     (let hit = (\<lambda>r. ru_status r = ''running'' \<and> (case (ru_deadline_s r, ru_started r) of (Some d, Some s) \<Rightarrow> s + d < now | _ \<Rightarrow> False))
      in (int (length (filter hit (kd_runs db))), end_runs hit now db))"

definition interrupt_running_runs :: "int \<Rightarrow> keys_db \<Rightarrow> int \<times> keys_db" where
  "interrupt_running_runs now db =
     (let hit = (\<lambda>r. ru_status r = ''running'') in (int (length (filter hit (kd_runs db))), end_runs hit now db))"

section \<open>Any interleaving\<close>

text \<open>A call is admitted and reads in one event and inserts in a later one. Runs start by other parts of the program.\<close>

datatype key_event =
    KMint credential json "json option" "string option" string int
  | KDelegate credential json "json option" "string option" string int
  | KInsert nat
  | KRevoke credential json "json option" "string option" int
  | KCall credential string json "json option" "string option" int
  | KSessionEnd string int
  | KSweep int
  | KRunStart key_run
  | KRunEnd string int string int
  | KRunCancel string int int
  | KReap int
  | KInterrupt int

record key_world =
  kw_db :: keys_db
  kw_pending :: "(int \<times> new_sub_key) list"

definition key_prepare :: "key_env \<Rightarrow> credential \<Rightarrow> string \<Rightarrow> json \<Rightarrow> json option \<Rightarrow> string option \<Rightarrow> int
    \<Rightarrow> (nat option \<Rightarrow> key_tenant \<Rightarrow> keys_db \<Rightarrow> app_error + new_sub_key) \<Rightarrow> key_world \<Rightarrow> key_world" where
  "key_prepare env cred name args meta session now prepare w =
     (case admit env cred name args meta session now (kw_db w) of
        (Inl _, db) \<Rightarrow> w\<lparr>kw_db := db\<rparr>
      | (Inr (key_id, t), db) \<Rightarrow>
          (case prepare key_id t db of
             Inl _ \<Rightarrow> w\<lparr>kw_db := db\<rparr>
           | Inr n \<Rightarrow> w\<lparr>kw_db := db, kw_pending := kw_pending w @ [(kt_id t, n)]\<rparr>))"

fun key_apply :: "key_env \<Rightarrow> key_event \<Rightarrow> key_world \<Rightarrow> key_world" where
  "key_apply env (KMint cred args meta session key now) w =
     key_prepare env cred ''host.key.mint'' args meta session now (\<lambda>_ t db. mint_prepare env t args key now db) w"
| "key_apply env (KDelegate cred args meta session key now) w =
     key_prepare env cred ''host.key.delegate'' args meta session now
       (\<lambda>key_id t db. map_sum id snd (delegate_prepare env t key_id args session key now db)) w"
| "key_apply env (KInsert i) w =
     (if i < length (kw_pending w)
      then (let (tenant, n) = kw_pending w ! i
            in w\<lparr>kw_db := snd (insert_sub_key tenant n (kw_db w)), kw_pending := take i (kw_pending w) @ drop (Suc i) (kw_pending w)\<rparr>)
      else w)"
| "key_apply env (KRevoke cred args meta session now) w =
     (case admit env cred ''host.key.revoke'' args meta session now (kw_db w) of
        (Inl _, db) \<Rightarrow> w\<lparr>kw_db := db\<rparr>
      | (Inr (key_id, t), db) \<Rightarrow> w\<lparr>kw_db := snd (revoke_key t (Option.bind key_id (acting_for_key (kd_keys db))) args now db)\<rparr>)"
| "key_apply env (KCall cred name args meta session now) w = w\<lparr>kw_db := snd (admit env cred name args meta session now (kw_db w))\<rparr>"
| "key_apply env (KSessionEnd session now) w = w\<lparr>kw_db := snd (revoke_session_bound session now (kw_db w))\<rparr>"
| "key_apply env (KSweep now) w = w\<lparr>kw_db := snd (sweep_idle_bound_sessions now (kw_db w))\<rparr>"
| "key_apply env (KRunStart r) w = w\<lparr>kw_db := (kw_db w)\<lparr>kd_runs := kd_runs (kw_db w) @ [r]\<rparr>\<rparr>"
| "key_apply env (KRunEnd run tenant status now) w = w\<lparr>kw_db := snd (finalize_run run tenant status now (kw_db w))\<rparr>"
| "key_apply env (KRunCancel run tenant now) w = w\<lparr>kw_db := snd (cancel_run run tenant now (kw_db w))\<rparr>"
| "key_apply env (KReap now) w = w\<lparr>kw_db := snd (reap_expired_runs now (kw_db w))\<rparr>"
| "key_apply env (KInterrupt now) w = w\<lparr>kw_db := snd (interrupt_running_runs now (kw_db w))\<rparr>"

definition key_run_events :: "key_env \<Rightarrow> key_event list \<Rightarrow> key_world \<Rightarrow> key_world" where
  "key_run_events env = fold (key_apply env)"

definition empty_keys :: key_world where
  "empty_keys = \<lparr>kw_db = \<lparr>kd_keys = [], kd_next = 1, kd_runs = [], kd_audit = [], kd_chain = []\<rparr>, kw_pending = []\<rparr>"

section \<open>What the statements keep\<close>

text \<open>The columns no statement changes, and rows that may differ in the others, the first stamp of a revocation kept.\<close>

definition static :: "tenant_key \<Rightarrow> tenant_key" where
  "static k = k\<lparr>tk_revoked_at := None, tk_last_used_at := None, tk_revoked_by := None, tk_bound_seen := None, tk_revoked_reason := None\<rparr>"

definition same_key :: "tenant_key \<Rightarrow> tenant_key \<Rightarrow> bool" where
  "same_key k k' \<longleftrightarrow> static k = static k' \<and> (\<forall>s. tk_revoked_at k = Some s \<longrightarrow> tk_revoked_at k' = Some s)"

definition steady :: "keys_db \<Rightarrow> keys_db \<Rightarrow> bool" where
  "steady db db' \<longleftrightarrow> list_all2 same_key (kd_keys db) (kd_keys db') \<and> kd_next db' = kd_next db"

named_theorems steady_intros

lemma static_fields:
  assumes "static k = static k'"
  shows "tk_id k = tk_id k'" "tk_tenant k = tk_tenant k'" "tk_hash k = tk_hash k'" "tk_label k = tk_label k'" "tk_parent k = tk_parent k'"
    "tk_expires_at k = tk_expires_at k'" "tk_depth k = tk_depth k'" "tk_bound k = tk_bound k'" "key_authority k = key_authority k'"
  using assms by (cases k; cases k'; simp add: static_def key_authority_def)+

lemma same_key_refl [simp]: "same_key k k"
  by (simp add: same_key_def)

lemma same_key_trans: "same_key a b \<Longrightarrow> same_key b c \<Longrightarrow> same_key a c"
  by (auto simp: same_key_def)

lemma steady_refl [simp, steady_intros]: "steady db db"
  by (simp add: steady_def list_all2_refl)

lemma steady_trans: "steady a b \<Longrightarrow> steady b c \<Longrightarrow> steady a c"
  unfolding steady_def by (auto intro: list_all2_trans[OF same_key_trans])

lemma steady_update:
  assumes "\<And>k. p k \<Longrightarrow> same_key k (f k)"
  shows "steady db (update_keys p f db)"
  using assms by (simp add: steady_def update_keys_def list_all2_conv_all_nth)

lemma steady_other [steady_intros]:
  "steady db d \<Longrightarrow> steady db (d\<lparr>kd_audit := a\<rparr>)" "steady db d \<Longrightarrow> steady db (d\<lparr>kd_chain := a\<rparr>)"
  "steady db d \<Longrightarrow> steady db (d\<lparr>kd_runs := r\<rparr>)" "steady db d \<Longrightarrow> steady db (set_status hit s d)"
  by (simp_all add: steady_def set_status_def)

lemma steady_fold: "(\<And>x d. steady d (f x d)) \<Longrightarrow> steady db (fold f xs db)"
  by (induction xs arbitrary: db) (auto intro: steady_trans)

lemma steady_revoke_bound_key [steady_intros]: "steady db (revoke_bound_key tenant label bound reason now db)"
  unfolding revoke_bound_key_def Let_def
  by (cases bound) (auto intro!: steady_intros steady_update simp: same_key_def static_def)

lemma steady_revoke_bound_on [steady_intros]: "steady db (snd (revoke_bound_on tenant bound reason now db))"
  by (simp add: revoke_bound_on_def Let_def steady_fold steady_revoke_bound_key)

lemma steady_touch [steady_intros]: "steady db (touch_bound_session i now db)" "steady db (touch_sub_key i now db)"
  by (auto intro!: steady_update simp: touch_bound_session_def touch_sub_key_def same_key_def static_def)

lemma steady_sweep [steady_intros]: "steady db (snd (sweep_idle_bound_sessions now db))"
  by (simp add: sweep_idle_bound_sessions_def Let_def steady_fold steady_revoke_bound_key)

lemma steady_session [steady_intros]: "steady db (snd (revoke_session_bound session now db))"
proof -
  have "steady db (snd (fold (\<lambda>tenant (n, d). let (m, d') = revoke_bound_on tenant b r now d in (n + m, d')) ts (n, db)))" for ts n b r
  proof (induction ts arbitrary: n db)
    case (Cons t ts)
    obtain m d' where r: "revoke_bound_on t b r now db = (m, d')" by fastforce
    then have "steady db d'" using steady_revoke_bound_on[of db t b r now] by simp
    with Cons.IH[of d' "n + m"] r show ?case by (auto intro: steady_trans)
  qed simp
  then show ?thesis by (simp add: revoke_session_bound_def Let_def)
qed

lemma steady_runs [steady_intros]:
  "steady db (snd (finalize_run run tenant status now db))" "steady db (snd (cancel_run run tenant now db))"
  "steady db (snd (reap_expired_runs now db))" "steady db (snd (interrupt_running_runs now db))"
proof -
  have "steady db (end_runs hit now db)" for hit
    unfolding end_runs_def
    by (rule steady_trans[OF steady_other(4)[OF steady_refl] steady_fold]) (rule steady_revoke_bound_on)
  then show "steady db (snd (reap_expired_runs now db))" "steady db (snd (interrupt_running_runs now db))"
    by (simp_all add: reap_expired_runs_def interrupt_running_runs_def Let_def)
  have "steady db (snd (revoke_bound_on t b r now (set_status hit s db)))" for t b r hit s
    by (rule steady_trans[OF steady_other(4)[OF steady_refl] steady_revoke_bound_on])
  then show "steady db (snd (finalize_run run tenant status now db))" "steady db (snd (cancel_run run tenant now db))"
    by (auto simp: finalize_run_def cancel_run_def Let_def split: option.splits)
qed

lemma steady_tree [steady_intros]: "steady db (snd (revoke_sub_key_tree tenant label cascade now db))"
  unfolding revoke_sub_key_tree_def Let_def
  by (auto intro!: steady_update simp: same_key_def static_def split: option.splits)

lemma steady_revoke [steady_intros]: "steady db (snd (revoke_key t acting args now db))"
proof (cases "Option.bind (json_get ''label'' args) as_str")
  case (Some label)
  show ?thesis
  proof (cases "if is_absent (json_get ''cascade'' args) then Some False else Option.bind (json_get ''cascade'' args) as_bool")
    case cascade: (Some cascade)
    obtain r db' where tree: "revoke_sub_key_tree (kt_id t) label cascade now db = (r, db')" by fastforce
    then have "steady db db'" using steady_tree[of db "kt_id t" label cascade now] by simp
    then show ?thesis
      unfolding revoke_key_def Some cascade option.case tree prod.case Let_def
      by (auto intro!: steady_other split: sum.splits option.splits)
  qed (simp add: revoke_key_def Some)
qed (simp add: revoke_key_def)

lemma steady_resolve [steady_intros]: "steady db (snd (resolve_sub_key_tenant env key now db))"
  by (auto simp: resolve_sub_key_tenant_def steady_touch split: option.splits list.splits)

lemma steady_gate [steady_intros]: "steady db (snd (sub_key_gate sk t name args meta session now db))"
  by (auto simp: sub_key_gate_def Let_def steady_touch split: option.splits)

lemma steady_admit [steady_intros]: "steady db (snd (admit env cred name args meta session now db))"
proof (cases cred)
  case (SubKey key)
  obtain r db' where r: "resolve_sub_key_tenant env key now db = (r, db')" by fastforce
  with steady_resolve[of db env key now] have db': "steady db db'" by simp
  have gate: "steady db (snd (sub_key_gate sk t name args meta session now db'))" for sk t
    by (rule steady_trans[OF db' steady_gate])
  from SubKey r db' show ?thesis
    by (auto simp: admit_def split: sum.splits option.splits prod.splits) (metis gate snd_conv)+
qed (simp add: admit_def)

section \<open>The tree\<close>

text \<open>A child within its parent's authority, as the subset rule leaves it.\<close>

definition narrowed :: "authority \<Rightarrow> authority \<Rightarrow> bool" where
  "narrowed a b \<longleftrightarrow>
     auth_can_delegate a \<and> sg.covers (auth_scopes a) (auth_scopes b) \<and> auth_depth b = auth_depth a + 1 \<and> auth_depth b \<le> depth_max
     \<and> (\<forall>ts. auth_tools a = Some ts \<longrightarrow> (\<exists>ts'. auth_tools b = Some ts' \<and> set ts' \<subseteq> set ts))
     \<and> (\<exists>e'. auth_expires_at b = Some e' \<and> (\<forall>e. auth_expires_at a = Some e \<longrightarrow> e' \<le> e))"

definition fits :: "tenant_key list \<Rightarrow> int \<Rightarrow> nat option \<Rightarrow> authority \<Rightarrow> bool" where
  "fits keys tenant parent auth \<longleftrightarrow>
     (case parent of
        None \<Rightarrow> narrowed primary_authority auth
      | Some p \<Rightarrow> \<exists>a. find_key keys p = Some a \<and> tk_tenant a = tenant \<and> narrowed (key_authority a) auth)"

definition tree_ok :: "keys_db \<Rightarrow> bool" where
  "tree_ok db \<longleftrightarrow>
     sorted_wrt (<) (map tk_id (kd_keys db)) \<and> distinct (map tk_hash (kd_keys db))
     \<and> distinct (map (\<lambda>k. (tk_tenant k, tk_label k)) (kd_keys db))
     \<and> (\<forall>k \<in> set (kd_keys db). tk_id k < kd_next db \<and> fits (kd_keys db) (tk_tenant k) (tk_parent k) (key_authority k)
          \<and> (\<forall>p. tk_parent k = Some p \<longrightarrow> p < tk_id k))"

definition new_authority :: "new_sub_key \<Rightarrow> authority" where
  "new_authority n = key_authority (key_row 0 0 n)"

definition world_ok :: "key_world \<Rightarrow> bool" where
  "world_ok w \<longleftrightarrow> tree_ok (kw_db w) \<and> (\<forall>(t, n) \<in> set (kw_pending w). fits (kd_keys (kw_db w)) t (nk_parent n) (new_authority n))"

lemma key_row_authority: "key_authority (key_row i t n) = new_authority n"
  by (simp add: new_authority_def key_authority_def key_row_def)

lemma find_key_Some: "find_key keys p = Some a \<Longrightarrow> a \<in> set keys \<and> tk_id a = p"
  by (auto simp: find_key_def find_Some_iff)

lemma find_key_in: "sorted_wrt (<) (map tk_id keys) \<Longrightarrow> k \<in> set keys \<Longrightarrow> find_key keys (tk_id k) = Some k"
  by (induction keys) (auto simp: find_key_def)

lemma same_find:
  assumes "list_all2 same_key keys keys'" "find_key keys p = Some a"
  shows "\<exists>a'. find_key keys' p = Some a' \<and> same_key a a'"
  using assms
proof (induction rule: list_all2_induct)
  case (Cons k ks k' ks')
  then show ?case by (auto simp: find_key_def same_key_def dest: static_fields(1) split: if_splits)
qed (simp add: find_key_def)

lemma fits_same:
  assumes "list_all2 same_key keys keys'" "fits keys t p auth"
  shows "fits keys' t p auth"
proof (cases p)
  case (Some i)
  with assms(2) obtain a where a: "find_key keys i = Some a" "tk_tenant a = t" "narrowed (key_authority a) auth" by (auto simp: fits_def)
  from same_find[OF assms(1) a(1)] obtain a' where "find_key keys' i = Some a'" "static a = static a'" by (auto simp: same_key_def)
  with a(2,3) Some static_fields[of a a'] show ?thesis by (auto simp: fits_def)
qed (use assms(2) in \<open>simp add: fits_def\<close>)

lemma find_key_append: "find_key keys p = Some a \<Longrightarrow> find_key (keys @ ks) p = Some a"
  by (induction keys) (auto simp: find_key_def)

lemma fits_append: "fits keys t p auth \<Longrightarrow> fits (keys @ ks) t p auth"
  by (auto simp: fits_def dest: find_key_append[of _ _ _ ks] split: option.splits)

lemma same_map:
  assumes "list_all2 same_key keys keys'"
  shows "map tk_id keys' = map tk_id keys" "map tk_hash keys' = map tk_hash keys"
    "map (\<lambda>k. (tk_tenant k, tk_label k)) keys' = map (\<lambda>k. (tk_tenant k, tk_label k)) keys"
  using assms by (induction rule: list_all2_induct) (auto simp: same_key_def dest: static_fields)

lemma same_mem:
  "list_all2 same_key keys keys' \<Longrightarrow> k' \<in> set keys' \<Longrightarrow> \<exists>k \<in> set keys. same_key k k'"
  "list_all2 same_key keys keys' \<Longrightarrow> k \<in> set keys \<Longrightarrow> \<exists>k' \<in> set keys'. same_key k k'"
  by (induction rule: list_all2_induct) auto

lemma tree_ok_steady:
  assumes "tree_ok db" "steady db db'"
  shows "tree_ok db'"
proof -
  have same: "list_all2 same_key (kd_keys db) (kd_keys db')" and nx: "kd_next db' = kd_next db" using assms(2) by (simp_all add: steady_def)
  have "tk_id k' < kd_next db' \<and> fits (kd_keys db') (tk_tenant k') (tk_parent k') (key_authority k') \<and> (\<forall>p. tk_parent k' = Some p \<longrightarrow> p < tk_id k')"
    if "k' \<in> set (kd_keys db')" for k'
  proof -
    from same_mem(1)[OF same that] obtain k where k: "k \<in> set (kd_keys db)" "static k = static k'" by (auto simp: same_key_def)
    note f = static_fields[OF k(2)]
    from assms(1) k(1) have "tk_id k < kd_next db" "fits (kd_keys db) (tk_tenant k) (tk_parent k) (key_authority k)" "\<forall>p. tk_parent k = Some p \<longrightarrow> p < tk_id k"
      by (auto simp: tree_ok_def)
    with fits_same[OF same] show ?thesis by (simp add: f nx)
  qed
  with assms(1) show ?thesis unfolding tree_ok_def by (simp add: same_map[OF same] del: map_map)
qed

lemma world_ok_steady: "world_ok w \<Longrightarrow> steady (kw_db w) db \<Longrightarrow> world_ok (w\<lparr>kw_db := db\<rparr>)"
  unfolding world_ok_def by (auto intro: tree_ok_steady fits_same simp: steady_def)

lemma tree_ok_insert:
  assumes "tree_ok db" "fits (kd_keys db) t (nk_parent n) (new_authority n)"
  shows "tree_ok (snd (insert_sub_key t n db)) \<and> (\<exists>new. kd_keys (snd (insert_sub_key t n db)) = kd_keys db @ new)"
proof -
  let ?row = "key_row (kd_next db) t n"
  have "tree_ok (db\<lparr>kd_keys := kd_keys db @ [?row], kd_next := Suc (kd_next db)\<rparr>)"
    if free: "\<not> list_ex (\<lambda>k. tk_tenant k = t \<and> tk_label k = nk_label n) (kd_keys db)" "\<not> list_ex (\<lambda>k. tk_hash k = nk_hash n) (kd_keys db)"
  proof -
    have parent: "p < kd_next db" if "nk_parent n = Some p" for p
    proof -
      from assms(2) that obtain a where "find_key (kd_keys db) p = Some a" by (auto simp: fits_def)
      with find_key_Some assms(1) show ?thesis by (force simp: tree_ok_def)
    qed
    have "fits (kd_keys db @ [?row]) (tk_tenant k) (tk_parent k) (key_authority k)" if "k \<in> set (kd_keys db)" for k
      using assms(1) that by (intro fits_append) (auto simp: tree_ok_def)
    moreover have "fits (kd_keys db @ [?row]) t (nk_parent n) (key_authority ?row)"
      unfolding key_row_authority using assms(2) by (rule fits_append)
    ultimately show ?thesis
      using assms(1) free parent
      by (auto simp: tree_ok_def key_row_def sorted_wrt_append list_ex_iff less_Suc_eq)
  qed
  with assms(1) show ?thesis by (auto simp: insert_sub_key_def)
qed

lemma mint_prepare_fits:
  assumes "mint_prepare env t args key now db = Inr n"
  shows "nk_parent n = None \<and> narrowed primary_authority (new_authority n)"
  using assms
  by (auto simp: mint_prepare_def Let_def new_authority_def key_authority_def key_row_def narrowed_def primary_authority_def depth_max_def
      sg.covers_def held_implies_holds[symmetric] held_implies_def implies_def split: sum.splits option.splits if_splits)

lemma delegate_prepare_Inr:
  assumes "delegate_prepare env t key_id args session key now db = Inr (ttl, n)"
  defines "parent \<equiv> (case caller_row db key_id of Some c \<Rightarrow> key_authority c | None \<Rightarrow> primary_authority)"
  shows "nk_parent n = map_option tk_id (caller_row db key_id) \<and> nk_hash n = ke_hash env key \<and> narrowed parent (new_authority n)"
proof -
  obtain bound label req child where b: "delegate_request env t parent args session key now db = Inr (bound, label, req)"
    "narrow parent req = Inr child" "auth_can_delegate parent"
    using assms by (auto simp: delegate_prepare_def Let_def split: sum.splits if_splits)
  note c = narrow_Inr[OF b(2)]
  from c(5) obtain e' where e': "auth_expires_at child = Some e'" "\<forall>e. auth_expires_at parent = Some e \<longrightarrow> e' \<le> e" by auto
  have n: "nk_parent n = map_option tk_id (caller_row db key_id)" "nk_hash n = ke_hash env key" "nk_scopes n = auth_scopes child" "nk_depth n = auth_depth child"
    "nk_unrestricted n = (auth_tools child = None)" "auth_tools child = Some ts \<Longrightarrow> nk_tools n = ts" "nk_expires_at n \<le> e'" for ts
    using assms b e' by (auto simp: delegate_prepare_def Let_def split: option.splits if_splits)
  have "auth_tools (new_authority n) = auth_tools child"
    using n(5,6) by (cases "auth_tools child") (simp_all add: new_authority_def key_authority_def key_row_def)
  moreover have "auth_scopes (new_authority n) = auth_scopes child" "auth_depth (new_authority n) = auth_depth child"
    "auth_expires_at (new_authority n) = Some (nk_expires_at n)"
    by (simp_all add: new_authority_def key_authority_def key_row_def n)
  ultimately show ?thesis
    using n(1,2,7) e'(2) b(3) c(1-4) by (auto simp: narrowed_def intro: order_trans)
qed

lemma admit_caller:
  assumes "admit env cred name args meta session now db = (Inr (Some i, t), db')" "tree_ok db"
  shows "\<exists>k. find_key (kd_keys db') i = Some k \<and> tk_tenant k = kt_id t"
proof -
  from assms(1) obtain key where cred: "cred = SubKey key" by (cases cred) (simp_all add: admit_def)
  obtain r db1 where r: "resolve_sub_key_tenant env key now db = (r, db1)" by fastforce
  with assms(1) cred obtain sk where sk: "r = Inr (Some (sk, t))" "tk_id sk = i" "steady db1 db'"
    by (auto simp: admit_def split: sum.splits option.splits prod.splits)
       (metis snd_conv steady_gate)+
  have "steady db db1" using steady_resolve[of db env key now] r by simp
  then have st: "steady db db'" using sk(3) by (rule steady_trans)
  from r sk(1) have found: "sk \<in> set (kd_keys db)" "tk_tenant sk = kt_id t"
    by (auto simp: resolve_sub_key_tenant_def find_sub_key_by_hash_def find_Some_iff split: if_splits option.splits list.splits)
  have "find_key (kd_keys db) i = Some sk" using find_key_in[OF _ found(1)] assms(2) sk(2) by (simp add: tree_ok_def)
  from st same_find[OF _ this] obtain a where a: "find_key (kd_keys db') i = Some a" "static sk = static a"
    by (auto simp: steady_def same_key_def)
  with found(2) static_fields(2)[OF a(2)] show ?thesis by simp
qed

lemma prepare_ok:
  assumes w: "world_ok w"
    and p: "\<And>key_id t db n. prepare key_id t db = Inr n \<Longrightarrow> (\<And>i. key_id = Some i \<Longrightarrow> \<exists>k. find_key (kd_keys db) i = Some k \<and> tk_tenant k = kt_id t)
      \<Longrightarrow> fits (kd_keys db) (kt_id t) (nk_parent n) (new_authority n)"
  shows "world_ok (key_prepare env cred name args meta session now prepare w)"
proof -
  obtain r db where r: "admit env cred name args meta session now (kw_db w) = (r, db)" by fastforce
  then have "steady (kw_db w) db" using steady_admit[of "kw_db w" env cred name args meta session now] by simp
  with w have ok: "world_ok (w\<lparr>kw_db := db\<rparr>)" by (rule world_ok_steady)
  show ?thesis
  proof (cases r)
    case (Inr kt)
    obtain key_id t where kt: "kt = (key_id, t)" by fastforce
    show ?thesis
    proof (cases "prepare key_id t db")
      case n: (Inr n)
      have "fits (kd_keys db) (kt_id t) (nk_parent n) (new_authority n)"
        using n by (rule p) (use r Inr kt admit_caller w in \<open>auto simp: world_ok_def\<close>)
      with ok show ?thesis using r Inr kt n by (auto simp: key_prepare_def world_ok_def)
    qed (use r Inr kt ok in \<open>simp add: key_prepare_def\<close>)
  qed (use r ok in \<open>simp add: key_prepare_def\<close>)
qed

lemma world_ok_apply: "world_ok w \<Longrightarrow> world_ok (key_apply env ev w)"
proof (cases ev)
  case (KMint cred args meta session key now)
  assume "world_ok w"
  then show ?thesis unfolding KMint key_apply.simps
    by (rule prepare_ok) (auto dest!: mint_prepare_fits simp: fits_def)
next
  case (KDelegate cred args meta session key now)
  assume "world_ok w"
  then show ?thesis unfolding KDelegate key_apply.simps
  proof (rule prepare_ok)
    fix key_id t db n
    assume n: "map_sum id snd (delegate_prepare env t key_id args session key now db) = Inr n"
      and caller: "\<And>i. key_id = Some i \<Longrightarrow> \<exists>k. find_key (kd_keys db) i = Some k \<and> tk_tenant k = kt_id t"
    then obtain ttl where "delegate_prepare env t key_id args session key now db = Inr (ttl, n)"
      by (cases "delegate_prepare env t key_id args session key now db") auto
    from delegate_prepare_Inr[OF this] caller show "fits (kd_keys db) (kt_id t) (nk_parent n) (new_authority n)"
      by (cases key_id) (auto simp: fits_def caller_row_def dest: find_key_Some split: option.splits)
  qed
next
  case (KInsert i)
  assume w: "world_ok w"
  show ?thesis
  proof (cases "i < length (kw_pending w)")
    case True
    obtain t n where tn: "kw_pending w ! i = (t, n)" by fastforce
    with True have "(t, n) \<in> set (kw_pending w)" by (metis nth_mem)
    with w have "fits (kd_keys (kw_db w)) t (nk_parent n) (new_authority n)" by (auto simp: world_ok_def)
    with w obtain new where new: "tree_ok (snd (insert_sub_key t n (kw_db w)))" "kd_keys (snd (insert_sub_key t n (kw_db w))) = kd_keys (kw_db w) @ new"
      using tree_ok_insert by (metis world_ok_def)
    have "set (take i (kw_pending w) @ drop (Suc i) (kw_pending w)) \<subseteq> set (kw_pending w)" by (auto dest: in_set_takeD in_set_dropD)
    then have "\<forall>(t, n) \<in> set (take i (kw_pending w) @ drop (Suc i) (kw_pending w)). fits (kd_keys (kw_db w) @ new) t (nk_parent n) (new_authority n)"
      using w fits_append by (fastforce simp: world_ok_def)
    with new True tn KInsert show ?thesis by (simp add: world_ok_def Let_def)
  qed (use w KInsert in simp)
next
  case (KRevoke cred args meta session now)
  assume w: "world_ok w"
  obtain r db where r: "admit env cred ''host.key.revoke'' args meta session now (kw_db w) = (r, db)" by fastforce
  then have st: "steady (kw_db w) db" using steady_admit[of "kw_db w" env cred "''host.key.revoke''" args meta session now] by simp
  have "steady (kw_db w) (snd (revoke_key t acting args now db))" for t acting by (rule steady_trans[OF st steady_revoke])
  with w st r KRevoke show ?thesis by (auto intro: world_ok_steady split: sum.splits)
next
  case (KRunStart r)
  assume "world_ok w"
  then have "world_ok (w\<lparr>kw_db := (kw_db w)\<lparr>kd_runs := kd_runs (kw_db w) @ [r]\<rparr>\<rparr>)"
    by (rule world_ok_steady[OF _ steady_other(3)[OF steady_refl]])
  with KRunStart show ?thesis by simp
qed (simp_all add: world_ok_steady steady_intros)

lemma world_ok_empty: "world_ok empty_keys"
  by (simp add: world_ok_def empty_keys_def tree_ok_def)

lemma world_ok_run: "world_ok w \<Longrightarrow> world_ok (key_run_events env evs w)"
  by (induction evs arbitrary: w) (simp_all add: key_run_events_def world_ok_apply)

section \<open>Above and below\<close>

inductive above :: "tenant_key list \<Rightarrow> tenant_key \<Rightarrow> tenant_key \<Rightarrow> bool" for keys where
  parent: "k \<in> set keys \<Longrightarrow> tk_parent k = Some (tk_id a) \<Longrightarrow> a \<in> set keys \<Longrightarrow> above keys a k"
| further: "above keys a p \<Longrightarrow> k \<in> set keys \<Longrightarrow> tk_parent k = Some (tk_id p) \<Longrightarrow> above keys a k"

lemma above_mem: "above keys a k \<Longrightarrow> a \<in> set keys \<and> k \<in> set keys"
  by (induction rule: above.induct) auto

text \<open>The facts about the ids of a table the walks need.\<close>

definition ids_ok :: "tenant_key list \<Rightarrow> bool" where
  "ids_ok keys \<longleftrightarrow> sorted_wrt (<) (map tk_id keys) \<and> (\<forall>k \<in> set keys. \<forall>p. tk_parent k = Some p \<longrightarrow> p < tk_id k)"

lemma tree_ids: "tree_ok db \<Longrightarrow> ids_ok (kd_keys db)"
  by (auto simp: tree_ok_def ids_ok_def)

lemma ids_filter: "ids_ok keys \<Longrightarrow> sorted_wrt (<) (map tk_id (filter P keys))"
  by (simp add: ids_ok_def sorted_wrt_map sorted_wrt_filter)

lemma same_id: "ids_ok keys \<Longrightarrow> a \<in> set keys \<Longrightarrow> b \<in> set keys \<Longrightarrow> tk_id a = tk_id b \<Longrightarrow> a = b"
  using find_key_in unfolding ids_ok_def by (metis option.inject)

text \<open>How many rows come before an id: the walk up has that many turns left.\<close>

definition rank :: "tenant_key list \<Rightarrow> nat \<Rightarrow> nat" where
  "rank keys i = length (filter (\<lambda>k. tk_id k < i) keys)"

lemma rank_less:
  assumes "a \<in> set keys" "tk_id a < i"
  shows "rank keys (tk_id a) < rank keys i"
  using assms
proof (induction keys)
  case (Cons x xs)
  have mono: "rank xs (tk_id a) \<le> rank xs i" using Cons.prems(2) unfolding rank_def by (induction xs) auto
  show ?case
  proof (cases "x = a")
    case True
    with mono Cons.prems(2) show ?thesis by (simp add: rank_def)
  next
    case False
    with Cons mono show ?thesis by (auto simp: rank_def)
  qed
qed simp

lemma rank_le: "rank keys i \<le> length keys"
  by (simp add: rank_def)

lemma above_cases:
  assumes "ids_ok keys" "k \<in> set keys"
  shows "above keys a k \<longleftrightarrow> (case Option.bind (tk_parent k) (find_key keys) of None \<Rightarrow> False | Some p \<Rightarrow> a = p \<or> above keys a p)"
proof -
  have find: "find_key keys (tk_id p) = Some p" if "p \<in> set keys" for p using find_key_in[OF _ that] assms(1) by (simp add: ids_ok_def)
  show ?thesis
  proof
    assume "above keys a k"
    then show "(case Option.bind (tk_parent k) (find_key keys) of None \<Rightarrow> False | Some p \<Rightarrow> a = p \<or> above keys a p)"
    proof cases
      case (further p)
      then have "find_key keys (tk_id p) = Some p" using above_mem find by blast
      with further show ?thesis by simp
    qed (simp add: find)
  next
    assume "(case Option.bind (tk_parent k) (find_key keys) of None \<Rightarrow> False | Some p \<Rightarrow> a = p \<or> above keys a p)"
    then obtain i p where p: "tk_parent k = Some i" "find_key keys i = Some p" "a = p \<or> above keys a p"
      by (cases "tk_parent k") (auto split: option.splits)
    from find_key_Some[OF p(2)] p assms(2) show "above keys a k" by (auto intro: above.intros)
  qed
qed

lemma chain_up:
  assumes "ids_ok keys" "k \<in> set keys" "rank keys (tk_id k) \<le> n"
  shows "above keys a k \<longleftrightarrow> a \<in> set (key_chain n keys (tk_parent k))"
  using assms(2,3)
proof (induction n arbitrary: k)
  case 0
  have "find_key keys p = None" if "tk_parent k = Some p" for p
  proof (rule ccontr)
    assume "find_key keys p \<noteq> None"
    then obtain b where b: "b \<in> set keys" "tk_id b = p" using find_key_Some by blast
    moreover have "p < tk_id k" using assms(1) 0(1) that by (simp add: ids_ok_def)
    ultimately have "rank keys p < rank keys (tk_id k)" using rank_less by blast
    with 0 show False by simp
  qed
  then show ?case using above_cases[OF assms(1) 0(1)] by (cases "tk_parent k") simp_all
next
  case (Suc n)
  show ?case
  proof (cases "Option.bind (tk_parent k) (find_key keys)")
    case None
    with above_cases[OF assms(1) Suc.prems(1)] show ?thesis by simp
  next
    case (Some p)
    then obtain i where i: "tk_parent k = Some i" "find_key keys i = Some p" by (cases "tk_parent k") simp_all
    from find_key_Some[OF i(2)] have p: "p \<in> set keys" "tk_id p = i" by simp_all
    moreover have "i < tk_id k" using assms(1) Suc.prems(1) i(1) by (simp add: ids_ok_def)
    ultimately have "rank keys (tk_id p) < rank keys (tk_id k)" using rank_less by blast
    with Suc.prems(2) have "rank keys (tk_id p) \<le> n" by simp
    from Suc.IH[OF p(1) this] above_cases[OF assms(1) Suc.prems(1)] Some show ?thesis by simp
  qed
qed

lemma ancestry_above:
  assumes "ids_ok keys" "k \<in> set keys"
  shows "set (ancestry keys (tk_parent k)) = {a. above keys a k}"
  using chain_up[OF assms rank_le] by (auto simp: ancestry_def)

lemma grow_iff: "i \<in> grow keys ids \<longleftrightarrow> i \<in> ids \<or> (\<exists>k \<in> set keys. \<exists>p. tk_id k = i \<and> tk_parent k = Some p \<and> p \<in> ids)"
  by (auto simp: grow_def split: option.splits)

lemma grow_Suc: "i \<in> (grow keys ^^ Suc n) s \<longleftrightarrow>
    i \<in> (grow keys ^^ n) s \<or> (\<exists>k \<in> set keys. \<exists>p. tk_id k = i \<and> tk_parent k = Some p \<and> p \<in> (grow keys ^^ n) s)"
  by (simp add: grow_iff)

lemma subtree_sound:
  assumes "apex \<in> set keys"
  shows "i \<in> (grow keys ^^ n) {tk_id apex} \<Longrightarrow> \<exists>k \<in> set keys. tk_id k = i \<and> (k = apex \<or> above keys apex k)"
proof (induction n arbitrary: i)
  case 0
  with assms show ?case by auto
next
  case (Suc n)
  show ?case
  proof (cases "i \<in> (grow keys ^^ n) {tk_id apex}")
    case False
    with Suc.prems obtain k p where k: "k \<in> set keys" "tk_id k = i" "tk_parent k = Some p" "p \<in> (grow keys ^^ n) {tk_id apex}"
      unfolding grow_Suc by blast
    from Suc.IH[OF k(4)] obtain b where "b \<in> set keys" "tk_id b = p" "b = apex \<or> above keys apex b" by blast
    with k show ?thesis by (auto intro: above.intros)
  qed (rule Suc.IH)
qed

lemma subtree_complete:
  assumes "ids_ok keys" "apex \<in> set keys"
  shows "k \<in> set keys \<Longrightarrow> k = apex \<or> above keys apex k \<Longrightarrow> rank keys (tk_id k) \<le> n \<Longrightarrow> tk_id k \<in> (grow keys ^^ n) {tk_id apex}"
proof (induction n arbitrary: k)
  case 0
  have "\<not> above keys apex k" using 0 chain_up[OF assms(1) 0(1), of 0 apex] by simp
  with 0 show ?case by simp
next
  case (Suc n)
  have start: "tk_id apex \<in> (grow keys ^^ m) {tk_id apex}" for m by (induction m) (simp_all add: grow_iff)
  show ?case
  proof (cases "k = apex")
    case False
    with Suc.prems(2) above_cases[OF assms(1) Suc.prems(1), of apex] obtain i p where
      i: "tk_parent k = Some i" "find_key keys i = Some p" "apex = p \<or> above keys apex p"
      by (cases "tk_parent k") (auto split: option.splits)
    from find_key_Some[OF i(2)] have p: "p \<in> set keys" "tk_id p = i" by simp_all
    moreover have "i < tk_id k" using assms(1) Suc.prems(1) i(1) by (simp add: ids_ok_def)
    ultimately have "rank keys (tk_id p) < rank keys (tk_id k)" using rank_less by blast
    with Suc.prems(3) have "rank keys (tk_id p) \<le> n" by simp
    with Suc.IH[OF p(1)] i(3) have "i \<in> (grow keys ^^ n) {tk_id apex}" by (auto simp: p(2))
    with i(1) Suc.prems(1) show ?thesis unfolding grow_Suc by blast
  qed (simp add: start del: funpow.simps)
qed

lemma subtree_iff:
  assumes "ids_ok keys" "apex \<in> set keys" "k \<in> set keys"
  shows "tk_id k \<in> subtree keys (tk_id apex) \<longleftrightarrow> k = apex \<or> above keys apex k"
proof
  assume "tk_id k \<in> subtree keys (tk_id apex)"
  with subtree_sound[OF assms(2)] obtain k' where "k' \<in> set keys" "tk_id k' = tk_id k" "k' = apex \<or> above keys apex k'"
    unfolding subtree_def by blast
  with same_id[OF assms(1) _ assms(3)] show "k = apex \<or> above keys apex k" by blast
next
  assume "k = apex \<or> above keys apex k"
  then show "tk_id k \<in> subtree keys (tk_id apex)" unfolding subtree_def by (rule subtree_complete[OF assms(1-3) _ rank_le])
qed

section \<open>Who may use a key\<close>

lemma narrowed_use:
  assumes "narrowed a b"
  shows "holds_at b sc time \<Longrightarrow> holds_at a sc time"
    and "permits (authority_key b) ns name \<Longrightarrow> permits (authority_key a) ns name \<or> reserved_tool name"
proof -
  show "holds_at a sc time" if "holds_at b sc time"
    using that assms by (auto simp: narrowed_def holds_at_def held_implies_holds intro: sg.holds_covered split: option.splits)
  show "permits (authority_key a) ns name \<or> reserved_tool name" if "permits (authority_key b) ns name"
    by (rule permits_narrower[OF _ that]) (use assms in \<open>simp add: narrowed_def\<close>)
qed

lemma permits_row: "permits (authority_key (key_authority k)) ns name = permits (as_sub_key k) ns name"
  by (auto simp: permits_def authority_key_def key_authority_def as_sub_key_def Let_def)

lemma parent_narrowed:
  assumes "tree_ok db" "k \<in> set (kd_keys db)" "tk_parent k = Some (tk_id p)" "p \<in> set (kd_keys db)"
  shows "tk_tenant p = tk_tenant k \<and> narrowed (key_authority p) (key_authority k)"
proof -
  have "find_key (kd_keys db) (tk_id p) = Some p" using find_key_in assms(1,4) by (simp add: tree_ok_def)
  with assms show ?thesis by (auto simp: tree_ok_def fits_def)
qed

lemma narrowed_keys:
  assumes "narrowed (key_authority a) (key_authority b)"
  shows "tk_can_delegate a" "tk_depth b = tk_depth a + 1" "tk_depth b \<le> depth_max"
  using assms by (auto simp: narrowed_def key_authority_def)

lemma above_narrowed:
  assumes "tree_ok db" "above (kd_keys db) a k"
  shows "tk_tenant a = tk_tenant k \<and> tk_depth a < tk_depth k \<and> tk_depth k \<le> depth_max \<and> tk_can_delegate a
    \<and> (\<forall>sc time. holds_at (key_authority k) sc time \<longrightarrow> holds_at (key_authority a) sc time)
    \<and> (\<forall>ns name. permits (as_sub_key k) ns name \<longrightarrow> permits (as_sub_key a) ns name \<or> reserved_tool name)"
  using assms(2)
proof (induction rule: above.induct)
  case (parent k a)
  with parent_narrowed[OF assms(1)] have n: "tk_tenant a = tk_tenant k" "narrowed (key_authority a) (key_authority k)" by auto
  from narrowed_keys[OF n(2)] n(1) narrowed_use[OF n(2), unfolded permits_row] show ?case by simp
next
  case (further a p k)
  then have n: "tk_tenant p = tk_tenant k" "narrowed (key_authority p) (key_authority k)"
    using parent_narrowed[OF assms(1)] above_mem by blast+
  note up = narrowed_use[OF n(2), unfolded permits_row]
  have "\<forall>sc time. holds_at (key_authority k) sc time \<longrightarrow> holds_at (key_authority a) sc time" using up(1) further.IH by blast
  moreover have "\<forall>ns name. permits (as_sub_key k) ns name \<longrightarrow> permits (as_sub_key a) ns name \<or> reserved_tool name"
    using up(2) further.IH by blast
  ultimately show ?case using narrowed_keys[OF n(2)] n(1) further.IH by simp
qed

text \<open>What a resolved key is.\<close>

lemma resolve_live:
  assumes "fst (resolve_sub_key_tenant env key now db) = Inr (Some (k, t))"
  shows "k \<in> set (kd_keys db)" "tk_hash k = ke_hash env key" "kt_id t = tk_tenant k" "key_dead_reason k now = None"
    "\<forall>a \<in> set (ancestry (kd_keys db) (tk_parent k)). key_dead_reason a now = None"
  using assms
  by (auto simp: resolve_sub_key_tenant_def find_sub_key_by_hash_def find_Some_iff List.map_filter_def filter_empty_conv
      split: if_splits option.splits list.splits)

lemma same_hash: "tree_ok db \<Longrightarrow> a \<in> set (kd_keys db) \<Longrightarrow> b \<in> set (kd_keys db) \<Longrightarrow> tk_hash a = tk_hash b \<Longrightarrow> a = b"
  unfolding tree_ok_def by (meson distinct_map inj_onD)

lemma same_label:
  "tree_ok db \<Longrightarrow> a \<in> set (kd_keys db) \<Longrightarrow> b \<in> set (kd_keys db) \<Longrightarrow> tk_tenant a = tk_tenant b \<Longrightarrow> tk_label a = tk_label b \<Longrightarrow> a = b"
  unfolding tree_ok_def by (auto simp: distinct_map inj_on_def)

text \<open>A row is never lost, nor are its fixed columns and its first stamp.\<close>

lemma apply_keeps: "k \<in> set (kd_keys (kw_db w)) \<Longrightarrow> \<exists>k' \<in> set (kd_keys (kw_db (key_apply env ev w))). same_key k k'"
proof -
  assume k: "k \<in> set (kd_keys (kw_db w))"
  have keep: "\<exists>k' \<in> set (kd_keys db). same_key k k'" if "steady (kw_db w) db" for db
    using same_mem(2)[OF _ k] that by (simp add: steady_def)
  have prep: "steady (kw_db w) (kw_db (key_prepare env cred name args meta session now prepare w))" for cred name args meta session now prepare
    using steady_admit[of "kw_db w" env cred name args meta session now]
    by (auto simp: key_prepare_def split: sum.splits prod.splits)
  show ?thesis
  proof (cases ev)
    case (KInsert i)
    obtain t n where tn: "kw_pending w ! i = (t, n)" by fastforce
    have "set (kd_keys (kw_db w)) \<subseteq> set (kd_keys (snd (insert_sub_key t n (kw_db w))))" by (auto simp: insert_sub_key_def)
    with k KInsert tn show ?thesis by (auto simp: Let_def intro: bexI[of _ k])
  next
    case (KRevoke cred args meta session now)
    obtain r db where r: "admit env cred ''host.key.revoke'' args meta session now (kw_db w) = (r, db)" by fastforce
    then have st: "steady (kw_db w) db" using steady_admit[of "kw_db w" env cred "''host.key.revoke''" args meta session now] by simp
    have "steady (kw_db w) (snd (revoke_key t acting args now db))" for t acting by (rule steady_trans[OF st steady_revoke])
    with keep st r KRevoke show ?thesis by (auto split: sum.splits)
  next
    case (KRunStart r)
    have "steady (kw_db w) ((kw_db w)\<lparr>kd_runs := kd_runs (kw_db w) @ [r]\<rparr>)" by (rule steady_other(3)[OF steady_refl])
    from keep[OF this] KRunStart show ?thesis by simp
  qed (simp_all add: keep prep steady_intros)
qed

lemma run_keeps: "k \<in> set (kd_keys (kw_db w)) \<Longrightarrow> \<exists>k' \<in> set (kd_keys (kw_db (key_run_events env evs w))). same_key k k'"
proof (induction evs arbitrary: k w)
  case (Cons ev evs)
  from apply_keeps[OF Cons.prems] obtain k1 where k1: "k1 \<in> set (kd_keys (kw_db (key_apply env ev w)))" "same_key k k1" by blast
  from Cons.IH[OF k1(1)] k1(2) show ?case by (auto simp: key_run_events_def intro: same_key_trans)
qed (simp add: key_run_events_def, blast intro: same_key_refl)


text \<open>Below a key: the same keys, by ids, in a later table; and a revoked key has its stamp.\<close>

lemma dead_stamp: "tk_revoked_at k = Some s \<Longrightarrow> key_dead_reason k now \<noteq> None"
  by (simp add: key_dead_reason_def)

lemma tree_cases:
  assumes "revoke_sub_key_tree tenant label cascade now db = (Inr (Some d), db')"
  obtains apex where "find (\<lambda>k. tk_tenant k = tenant \<and> tk_label k = label) (kd_keys db) = Some apex"
    "rv_revoked_at d = (case tk_revoked_at apex of Some s \<Rightarrow> s | None \<Rightarrow> now)"
    "db' = update_keys (\<lambda>k. (if cascade then tk_id k \<in> subtree (kd_keys db) (tk_id apex) else tk_id k = tk_id apex) \<and> tk_revoked_at k = None)
       (\<lambda>k. k\<lparr>tk_revoked_at := Some now, tk_revoked_by := Some label\<rparr>) db"
  using assms by (auto simp: revoke_sub_key_tree_def Let_def split: option.splits if_splits)

lemma subtree_self: "i \<in> subtree keys i"
proof -
  have "i \<in> (grow keys ^^ n) {i}" for n by (induction n) (simp_all add: grow_iff)
  then show ?thesis by (simp add: subtree_def)
qed

lemma tree_stamps:
  assumes "revoke_sub_key_tree tenant label cascade now db = (Inr (Some d), db')"
  shows "\<exists>a \<in> set (kd_keys db'). tk_tenant a = tenant \<and> tk_label a = label \<and> tk_revoked_at a = Some (rv_revoked_at d)"
proof (rule tree_cases[OF assms])
  fix apex
  assume apex: "find (\<lambda>k. tk_tenant k = tenant \<and> tk_label k = label) (kd_keys db) = Some apex"
    and d: "rv_revoked_at d = (case tk_revoked_at apex of Some s \<Rightarrow> s | None \<Rightarrow> now)"
    and db': "db' = update_keys (\<lambda>k. (if cascade then tk_id k \<in> subtree (kd_keys db) (tk_id apex) else tk_id k = tk_id apex) \<and> tk_revoked_at k = None)
       (\<lambda>k. k\<lparr>tk_revoked_at := Some now, tk_revoked_by := Some label\<rparr>) db"
  from apex have mem: "apex \<in> set (kd_keys db)" "tk_tenant apex = tenant" "tk_label apex = label" by (auto simp: find_Some_iff)
  show ?thesis
  proof (cases "tk_revoked_at apex")
    case None
    have "apex\<lparr>tk_revoked_at := Some now, tk_revoked_by := Some label\<rparr> \<in> set (kd_keys db')"
      using mem(1) None subtree_self by (force simp: db' update_keys_def image_iff)
    then show ?thesis by (rule bexI[rotated]) (simp add: mem d None)
  next
    case (Some s)
    have "apex \<in> set (kd_keys db')" using mem(1) Some by (force simp: db' update_keys_def image_iff)
    then show ?thesis by (rule bexI[rotated]) (simp add: mem d Some)
  qed
qed

section \<open>Properties\<close>

text \<open>C29. A sub-key never does more than the keys above it: whenever the server resolves a key, after any
  interleaving of mints, delegations, inserts, revocations, calls, sweeps and run ends, every key above it is
  live and of the same tenant, may delegate, lies less deep (three levels at most), holds at any time whatever scope the resolved
  key holds then, and is permitted by its own row whatever tool the resolved key's row permits, the reserved names apart: a key with
  an allowlist may be permitted \<open>host.key.mint\<close> or another of these, a key above it without an allowlist never is.\<close>

theorem sub_key_within_ancestors:
  assumes "fst (resolve_sub_key_tenant env key now (kw_db (key_run_events env evs empty_keys))) = Inr (Some (k, t))"
    and "above (kd_keys (kw_db (key_run_events env evs empty_keys))) a k"
  shows "key_dead_reason a now = None \<and> tk_tenant a = kt_id t \<and> tk_can_delegate a \<and> tk_depth a < tk_depth k \<and> tk_depth k \<le> 3
    \<and> (\<forall>sc time. holds_at (key_authority k) sc time \<longrightarrow> holds_at (key_authority a) sc time)
    \<and> (\<forall>ns name. permits (as_sub_key k) ns name \<longrightarrow> permits (as_sub_key a) ns name \<or> reserved_tool name)"
proof -
  have ok: "tree_ok (kw_db (key_run_events env evs empty_keys))" using world_ok_run[OF world_ok_empty] by (simp add: world_ok_def)
  note live = resolve_live[OF assms(1)]
  have "a \<in> set (ancestry (kd_keys (kw_db (key_run_events env evs empty_keys))) (tk_parent k))"
    using ancestry_above[OF tree_ids[OF ok] live(1)] assms(2) by simp
  with live(3,5) above_narrowed[OF ok assms(2)] show ?thesis by (simp add: depth_max_def)
qed

text \<open>C30. A revocation is final and reaches down: once a key was revoked, whatever is called, inserted, swept or ended
  afterwards, the row of that label keeps its stamp, and neither it nor a key that hangs below it then, even one that was
  still being written when the revocation ran, is ever resolved again.\<close>

theorem revoked_tree_stays_dead:
  assumes "revoke_sub_key_tree tenant label cascade now (kw_db (key_run_events env evs empty_keys)) = (Inr (Some d), db)"
    and "w = key_run_events env later ((key_run_events env evs empty_keys)\<lparr>kw_db := db\<rparr>)"
    and "a \<in> set (kd_keys (kw_db w))" "tk_tenant a = tenant" "tk_label a = label"
    and "k = a \<or> above (kd_keys (kw_db w)) a k" "tk_hash k = ke_hash env key"
  shows "tk_revoked_at a = Some (rv_revoked_at d) \<and> (\<forall>time r. fst (resolve_sub_key_tenant env key time (kw_db w)) \<noteq> Inr (Some r))"
proof -
  let ?w0 = "key_run_events env evs empty_keys"
  have ok0: "world_ok ?w0" by (rule world_ok_run[OF world_ok_empty])
  have "steady (kw_db ?w0) db" using steady_tree[of "kw_db ?w0" tenant label cascade now] assms(1) by simp
  then have "world_ok (?w0\<lparr>kw_db := db\<rparr>)" by (rule world_ok_steady[OF ok0])
  then have ok: "tree_ok (kw_db w)" using world_ok_run assms(2) by (auto simp: world_ok_def)
  from tree_stamps[OF assms(1)] obtain a0 where a0: "a0 \<in> set (kd_keys db)" "tk_tenant a0 = tenant" "tk_label a0 = label"
    "tk_revoked_at a0 = Some (rv_revoked_at d)" by blast
  from run_keeps[of a0 "?w0\<lparr>kw_db := db\<rparr>" env later] a0(1) assms(2) obtain a1 where
    a1: "a1 \<in> set (kd_keys (kw_db w))" "same_key a0 a1" by auto
  then have "a1 = a" using same_label[OF ok _ assms(3)] assms(4,5) a0(2,3) static_fields[of a0 a1] by (auto simp: same_key_def)
  with a1(2) a0(4) have stamp: "tk_revoked_at a = Some (rv_revoked_at d)" by (simp add: same_key_def)
  have "fst (resolve_sub_key_tenant env key time (kw_db w)) \<noteq> Inr (Some r)" for time r
  proof
    assume res: "fst (resolve_sub_key_tenant env key time (kw_db w)) = Inr (Some r)"
    obtain k' t where r: "r = (k', t)" by fastforce
    note live = resolve_live[OF res[unfolded r]]
    have "k \<in> set (kd_keys (kw_db w))" using assms(3,6) above_mem by blast
    then have "k' = k" using same_hash[OF ok live(1)] live(2) assms(7) by simp
    have dead: "key_dead_reason a time \<noteq> None" by (rule dead_stamp[OF stamp])
    from assms(6) show False
    proof
      assume "k = a"
      with \<open>k' = k\<close> live(4) dead show False by simp
    next
      assume "above (kd_keys (kw_db w)) a k"
      with \<open>k' = k\<close> ancestry_above[OF tree_ids[OF ok] live(1)] live(5) dead show False by simp
    qed
  qed
  with stamp show ?thesis by blast
qed


lemma find_by_label:
  assumes "tree_ok db" "a \<in> set (kd_keys db)" "tk_tenant a = tenant" "tk_label a = label"
  shows "find (\<lambda>k. tk_tenant k = tenant \<and> tk_label k = label) (kd_keys db) = Some a"
proof (cases "find (\<lambda>k. tk_tenant k = tenant \<and> tk_label k = label) (kd_keys db)")
  case None
  with assms(2-4) show ?thesis by (auto simp: find_None_iff)
next
  case (Some b)
  then have "b \<in> set (kd_keys db)" "tk_tenant b = tenant" "tk_label b = label" by (auto simp: find_Some_iff)
  then have "b = a" using same_label[OF assms(1) _ assms(2)] assms(3,4) by simp
  with Some show ?thesis by simp
qed

lemma in_subtree:
  assumes "tree_ok db" "a \<in> set (kd_keys db)" "k \<in> set (kd_keys db)"
  shows "tk_id k \<in> subtree (kd_keys db) (tk_id a) \<longleftrightarrow> k = a \<or> above (kd_keys db) a k" "tk_id k = tk_id a \<longleftrightarrow> k = a"
  using subtree_iff[OF tree_ids[OF assms(1)] assms(2,3)] same_id[OF tree_ids[OF assms(1)] assms(3,2)] by auto

text \<open>What the count of a revocation without cascade finds.\<close>

lemma live_below:
  assumes "tree_ok db" "a \<in> set (kd_keys db)"
  shows "length (filter (\<lambda>k. tk_id k \<in> subtree (kd_keys db) (tk_id a) \<and> tk_id k \<noteq> tk_id a \<and> tk_revoked_at k = None) (kd_keys db)) > 0
    \<longleftrightarrow> (\<exists>k. above (kd_keys db) a k \<and> tk_revoked_at k = None)" (is "length ?live > 0 \<longleftrightarrow> _")
proof
  assume "length ?live > 0"
  then have "?live ! 0 \<in> set ?live" by (rule nth_mem)
  then obtain k where "k \<in> set ?live" ..
  then have "k \<in> set (kd_keys db)" "tk_id k \<in> subtree (kd_keys db) (tk_id a)" "tk_id k \<noteq> tk_id a" "tk_revoked_at k = None" by auto
  with in_subtree[OF assms] show "\<exists>k. above (kd_keys db) a k \<and> tk_revoked_at k = None" by metis
next
  assume "\<exists>k. above (kd_keys db) a k \<and> tk_revoked_at k = None"
  then obtain k where k: "above (kd_keys db) a k" "tk_revoked_at k = None" by blast
  then have m: "k \<in> set (kd_keys db)" using above_mem by blast
  have "k \<noteq> a" using above_narrowed[OF assms(1) k(1)] by auto
  with in_subtree[OF assms m] k m have "k \<in> set ?live" by simp
  then show "length ?live > 0" by (rule length_pos_if_in_set)
qed

text \<open>C31. \<open>host.key.revoke\<close> reaches exactly the right keys: without \<open>cascade\<close> it is refused, and nothing changes, when a
  live key hangs below; otherwise exactly the key itself and, with \<open>cascade\<close>, the keys above which it lies are stamped, those that
  were revoked before keeping their stamp, and exactly the labels of the newly stamped keys are returned.\<close>

theorem revoke_tree_correct:
  assumes "db = kw_db (key_run_events env evs empty_keys)"
    and "a \<in> set (kd_keys db)" "tk_tenant a = tenant" "tk_label a = label"
    and hit_def: "hit = (\<lambda>k. (k = a \<or> cascade \<and> above (kd_keys db) a k) \<and> tk_revoked_at k = None)"
  shows "if \<not> cascade \<and> (\<exists>k. above (kd_keys db) a k \<and> tk_revoked_at k = None)
    then \<exists>m d. revoke_sub_key_tree tenant label cascade now db = (Inl (Structured ''has_children'' m d), db)
    else \<exists>d. revoke_sub_key_tree tenant label cascade now db =
            (Inr (Some d), db\<lparr>kd_keys := map (\<lambda>k. if hit k then k\<lparr>tk_revoked_at := Some now, tk_revoked_by := Some label\<rparr> else k) (kd_keys db)\<rparr>)
          \<and> set (rv_labels d) = tk_label ` {k \<in> set (kd_keys db). hit k}
          \<and> rv_revoked_at d = (case tk_revoked_at a of Some s \<Rightarrow> s | None \<Rightarrow> now)"
proof -
  have ok: "tree_ok db" using world_ok_run[OF world_ok_empty] assms(1) by (simp add: world_ok_def)
  note find = find_by_label[OF ok assms(2-4)] and live = live_below[OF ok assms(2)]
  let ?h = "\<lambda>k. (if cascade then tk_id k \<in> subtree (kd_keys db) (tk_id a) else tk_id k = tk_id a) \<and> tk_revoked_at k = None"
  have hit: "?h k = hit k" if "k \<in> set (kd_keys db)" for k
    using in_subtree[OF ok assms(2) that] by (auto simp: hit_def)
  let ?live = "filter (\<lambda>k. tk_id k \<in> subtree (kd_keys db) (tk_id a) \<and> tk_id k \<noteq> tk_id a \<and> tk_revoked_at k = None) (kd_keys db)"
  show ?thesis
  proof (cases "\<not> cascade \<and> length ?live > 0")
    case True
    with live show ?thesis by (simp add: revoke_sub_key_tree_def find Let_def)
  next
    case False
    then have no: "\<not> (\<not> cascade \<and> (\<exists>k. above (kd_keys db) a k \<and> tk_revoked_at k = None))" using live by blast
    let ?d = "\<lparr>rv_revoked_at = (case tk_revoked_at a of Some s \<Rightarrow> s | None \<Rightarrow> now), rv_labels = map tk_label (by_depth (filter ?h (kd_keys db)))\<rparr>"
    have "revoke_sub_key_tree tenant label cascade now db =
        (Inr (Some ?d), update_keys ?h (\<lambda>k. k\<lparr>tk_revoked_at := Some now, tk_revoked_by := Some label\<rparr>) db)"
      unfolding revoke_sub_key_tree_def find option.case Let_def if_not_P[OF False] ..
    moreover have "update_keys ?h f db = db\<lparr>kd_keys := map (\<lambda>k. if hit k then f k else k) (kd_keys db)\<rparr>" for f
      unfolding update_keys_def by (intro arg_cong[where f = "\<lambda>ks. db\<lparr>kd_keys := ks\<rparr>"] map_cong[OF refl]) (simp only: hit)
    moreover have "filter ?h (kd_keys db) = filter hit (kd_keys db)" by (rule filter_cong[OF refl]) (simp only: hit)
    then have "set (rv_labels ?d) = tk_label ` {k \<in> set (kd_keys db). hit k}" by (simp add: by_depth_def)
    ultimately show ?thesis unfolding if_not_P[OF no] by (intro exI[of _ ?d]) simp
  qed
qed

section \<open>A run of events\<close>

text \<open>A tenant with one tool, and a hash that keeps keys apart.\<close>

definition demo_tenant :: key_tenant where
  "demo_tenant = \<lparr>kt_id = 1, kt_namespace = ''acme'', kt_plan = ''pro''\<rparr>"

definition demo_env :: key_env where
  "demo_env = \<lparr>ke_hash = (\<lambda>k. k), ke_tenant = (\<lambda>i. if i = 1 then Some (''acme'', ''pro'') else None), ke_own_tools = (\<lambda>_. [''t'']),
     ke_shared = (\<lambda>_ _ _. False),
     ke_plan = (\<lambda>_. Some \<lparr>kp_name = ''pro'', kp_sub_keys_max = 10, kp_delegated_keys_max = 10, kp_delegated_ttl_max_s = 1000\<rparr>)\<rparr>"

definition lead_args :: json where
  "lead_args = JObj [(''can_delegate'', JBool True), (''label'', JStr ''a''), (''scopes'', JArr [JStr ''tools:write'']), (''ttl_s'', JInt 500)]"

definition helper_args :: json where
  "helper_args = JObj [(''label'', JStr ''b''), (''scopes'', JArr [JStr ''tools:write'']), (''tools'', JArr [JStr ''host.key.mint'']), (''ttl_s'', JInt 400)]"

definition stray_args :: json where
  "stray_args = JObj [(''label'', JStr ''c''), (''tools'', JArr [JStr ''t''])]"

definition cascade_args :: json where
  "cascade_args = JObj [(''cascade'', JBool True), (''label'', JStr ''a'')]"

definition row_a :: tenant_key where
  "row_a = \<lparr>tk_id = 1, tk_tenant = 1, tk_hash = ''mk_a'', tk_label = ''a'', tk_tools = [], tk_created_at = 1000, tk_expires_at = 1500,
     tk_revoked_at = None, tk_last_used_at = None, tk_parent = None, tk_scopes = [ToolsWrite], tk_can_delegate = True, tk_depth = 1,
     tk_revoked_by = None, tk_bound = None, tk_bound_seen = None, tk_minted_session = None, tk_revoked_reason = None, tk_unrestricted = True\<rparr>"

definition row_b :: tenant_key where
  "row_b = \<lparr>tk_id = 2, tk_tenant = 1, tk_hash = ''mk_b'', tk_label = ''b'', tk_tools = [''host.key.mint''], tk_created_at = 1010, tk_expires_at = 1410,
     tk_revoked_at = None, tk_last_used_at = None, tk_parent = Some 1, tk_scopes = [ToolsWrite], tk_can_delegate = False, tk_depth = 2,
     tk_revoked_by = None, tk_bound = None, tk_bound_seen = None, tk_minted_session = None, tk_revoked_reason = None, tk_unrestricted = False\<rparr>"

named_theorems demo

lemmas [demo] = demo_tenant_def demo_env_def lead_args_def helper_args_def stray_args_def cascade_args_def empty_keys_def
  key_prepare_def admit_def delegate_prepare_def delegate_request_def parse_bind_def delegate_scopes_def delegate_tools_def delegate_ttl_def
  label_arg_def can_delegate_arg_def caller_row_def is_absent_def narrow_def primary_authority_def key_authority_def all_strs_def
  count_live_sub_keys_def count_active_sub_keys_def insert_sub_key_def  resolve_sub_key_tenant_def find_sub_key_by_hash_def
  ancestry_def find_key_def key_dead_reason_def touch_sub_key_def update_keys_def sub_key_gate_def permits_def scope_ok_def as_sub_key_def
  check_bound_def required_for_def always_listed_def mint_prepare_def mint_tools_def mint_ttl_def tool_resolves_def
  held_implies_def implies_def depth_max_def TTL_MIN_S_def TTL_MAX_S_def TTL_DEFAULT_S_def TOOLS_MAX_def LABEL_MAX_def sub_key_prefix_def
  scope_parse_def scope_all_def
  in_i64_def wrap_i64_id i64_bound_defs revoke_key_def revoke_sub_key_tree_def subtree_def grow_def by_depth_def Let_def

lemma demo_labels [demo]: "str_len ''a'' = 1" "str_len ''b'' = 1" "str_len ''c'' = 1"
  by (simp_all add: str_len_def as_bytes_def utf8_char_def scalar_def)

lemma demo_names [demo]:
  "resolve_alias ''host.key.delegate'' = None" "resolve_alias ''host.key.mint'' = None" "resolve_alias ''host.key.revoke'' = None"
  by (simp_all add: resolve_alias_def TOOL_ALIASES_def)

definition new_a :: new_sub_key where
  "new_a = \<lparr>nk_hash = ''mk_a'', nk_label = ''a'', nk_tools = [], nk_created_at = 1000, nk_expires_at = 1500, nk_parent = None,
     nk_scopes = [ToolsWrite], nk_can_delegate = True, nk_depth = 1, nk_unrestricted = True, nk_bound = None, nk_minted_session = None\<rparr>"

definition new_b :: new_sub_key where
  "new_b = \<lparr>nk_hash = ''mk_b'', nk_label = ''b'', nk_tools = [''host.key.mint''], nk_created_at = 1010, nk_expires_at = 1410, nk_parent = Some 1,
     nk_scopes = [ToolsWrite], nk_can_delegate = False, nk_depth = 2, nk_unrestricted = False, nk_bound = None, nk_minted_session = None\<rparr>"

definition world_1 :: key_world where
  "world_1 = \<lparr>kw_db = \<lparr>kd_keys = [row_a], kd_next = 2, kd_runs = [], kd_audit = [], kd_chain = []\<rparr>, kw_pending = []\<rparr>"

definition used_a :: tenant_key where
  "used_a = row_a\<lparr>tk_last_used_at := Some 1010\<rparr>"

definition world_2 :: key_world where
  "world_2 = \<lparr>kw_db = \<lparr>kd_keys = [used_a, row_b], kd_next = 3, kd_runs = [], kd_audit = [], kd_chain = []\<rparr>, kw_pending = []\<rparr>"

lemma row_a_fields [demo]:
  "tk_id row_a = 1" "tk_tenant row_a = 1" "tk_hash row_a = ''mk_a''" "tk_label row_a = ''a''" "tk_tools row_a = []" "tk_expires_at row_a = 1500"
  "tk_revoked_at row_a = None" "tk_last_used_at row_a = None" "tk_parent row_a = None" "tk_scopes row_a = [ToolsWrite]" "tk_can_delegate row_a"
  "tk_depth row_a = 1" "tk_bound row_a = None" "tk_unrestricted row_a"
  by (simp_all add: row_a_def)

lemma row_b_fields [demo]:
  "tk_id row_b = 2" "tk_tenant row_b = 1" "tk_hash row_b = ''mk_b''" "tk_label row_b = ''b''" "tk_tools row_b = [''host.key.mint'']" "tk_expires_at row_b = 1410"
  "tk_revoked_at row_b = None" "tk_last_used_at row_b = None" "tk_parent row_b = Some 1" "tk_scopes row_b = [ToolsWrite]" "\<not> tk_can_delegate row_b"
  "tk_depth row_b = 2" "tk_bound row_b = None" "\<not> tk_unrestricted row_b"
  by (simp_all add: row_b_def)

lemma escape_1:
  "key_apply demo_env (KInsert 0) (key_apply demo_env (KDelegate (Primary demo_tenant) lead_args None None ''mk_a'' 1000) empty_keys) = world_1"
proof -
  have "key_apply demo_env (KDelegate (Primary demo_tenant) lead_args None None ''mk_a'' 1000) empty_keys = empty_keys\<lparr>kw_pending := [(1, new_a)]\<rparr>"
    by (simp add: demo new_a_def)
  then show ?thesis by (simp add: empty_keys_def insert_sub_key_def key_row_def new_a_def row_a_def world_1_def)
qed

lemma escape_2:
  "key_apply demo_env (KInsert 0) (key_apply demo_env (KDelegate (SubKey ''mk_a'') helper_args None None ''mk_b'' 1010) world_1) = world_2"
proof -
  have "key_apply demo_env (KDelegate (SubKey ''mk_a'') helper_args None None ''mk_b'' 1010) world_1
      = \<lparr>kw_db = \<lparr>kd_keys = [used_a], kd_next = 2, kd_runs = [], kd_audit = [], kd_chain = []\<rparr>, kw_pending = [(1, new_b)]\<rparr>"
    by (simp add: demo new_b_def world_1_def used_a_def)
  then show ?thesis by (simp add: insert_sub_key_def key_row_def new_b_def row_b_def world_2_def used_a_def row_a_def)
qed

definition used_b :: tenant_key where
  "used_b = row_b\<lparr>tk_last_used_at := Some 1020\<rparr>"

definition new_c :: new_sub_key where
  "new_c = \<lparr>nk_hash = ''mk_c'', nk_label = ''c'', nk_tools = [''t''], nk_created_at = 1020, nk_expires_at = 1020 + TTL_DEFAULT_S, nk_parent = None,
     nk_scopes = [Mcp], nk_can_delegate = False, nk_depth = 1, nk_unrestricted = False, nk_bound = None, nk_minted_session = None\<rparr>"

definition world_3 :: key_world where
  "world_3 = \<lparr>kw_db = \<lparr>kd_keys = [used_a, used_b, key_row 3 1 new_c], kd_next = 4, kd_runs = [], kd_audit = [], kd_chain = []\<rparr>, kw_pending = []\<rparr>"

lemma used_fields [demo]:
  "tk_id used_a = 1" "tk_tenant used_a = 1" "tk_hash used_a = ''mk_a''" "tk_label used_a = ''a''" "tk_expires_at used_a = 1500" "tk_revoked_at used_a = None"
  "tk_parent used_a = None" "tk_id used_b = 2" "tk_tenant used_b = 1" "tk_hash used_b = ''mk_b''" "tk_label used_b = ''b''"
  "tk_expires_at used_b = 1410" "tk_revoked_at used_b = None" "tk_parent used_b = Some 1"
  by (simp_all add: used_a_def used_b_def row_a_fields row_b_fields)

lemma escape_3:
  "key_apply demo_env (KInsert 0) (key_apply demo_env (KMint (SubKey ''mk_b'') stray_args None None ''mk_c'' 1020) world_2) = world_3"
proof -
  have "fst (resolve_sub_key_tenant demo_env ''mk_b'' 1020 (kw_db world_2)) = Inr (Some (row_b, demo_tenant))"
    by (simp add: demo world_2_def)
  moreover have "snd (resolve_sub_key_tenant demo_env ''mk_b'' 1020 (kw_db world_2)) = (kw_db world_2)\<lparr>kd_keys := [used_a, used_b]\<rparr>"
    by (simp add: demo world_2_def used_b_def[symmetric])
  ultimately have r: "resolve_sub_key_tenant demo_env ''mk_b'' 1020 (kw_db world_2) = (Inr (Some (row_b, demo_tenant)), (kw_db world_2)\<lparr>kd_keys := [used_a, used_b]\<rparr>)"
    by (metis prod.collapse)
  have g: "sub_key_gate row_b demo_tenant ''host.key.mint'' stray_args None None 1020 db = (None, db)" for db
    by (simp add: demo)
  have p: "mint_prepare demo_env demo_tenant stray_args ''mk_c'' 1020 ((kw_db world_2)\<lparr>kd_keys := [used_a, used_b]\<rparr>) = Inr new_c"
    by (simp add: demo new_c_def)
  have "key_apply demo_env (KMint (SubKey ''mk_b'') stray_args None None ''mk_c'' 1020) world_2
      = \<lparr>kw_db = (kw_db world_2)\<lparr>kd_keys := [used_a, used_b]\<rparr>, kw_pending = [(1, new_c)]\<rparr>"
    by (simp add: key_prepare_def admit_def r g p) (simp add: world_2_def demo_tenant_def)
  then show ?thesis by (simp add: insert_sub_key_def new_c_def world_2_def world_3_def demo)
qed


definition escape_events :: "key_event list" where
  "escape_events =
     [KDelegate (Primary demo_tenant) lead_args None None ''mk_a'' 1000, KInsert 0,
      KDelegate (SubKey ''mk_a'') helper_args None None ''mk_b'' 1010, KInsert 0,
      KMint (SubKey ''mk_b'') stray_args None None ''mk_c'' 1020, KInsert 0,
      KRevoke (Primary demo_tenant) cascade_args None None 1030]"

lemma escape_tree: "key_run_events demo_env (take 4 escape_events) empty_keys = world_2"
  by (simp add: key_run_events_def escape_events_def escape_1 escape_2 del: key_apply.simps)

lemma row_c_fields [demo]:
  "tk_id (key_row 3 1 new_c) = 3" "tk_tenant (key_row 3 1 new_c) = 1" "tk_hash (key_row 3 1 new_c) = ''mk_c''" "tk_label (key_row 3 1 new_c) = ''c''"
  "tk_expires_at (key_row 3 1 new_c) = 1020 + TTL_DEFAULT_S" "tk_revoked_at (key_row 3 1 new_c) = None" "tk_parent (key_row 3 1 new_c) = None"
  by (simp_all add: key_row_def new_c_def)

lemma escape_cascade:
  "kd_keys (kw_db (key_run_events demo_env escape_events empty_keys)) =
     [used_a\<lparr>tk_revoked_at := Some 1030, tk_revoked_by := Some ''a''\<rparr>, used_b\<lparr>tk_revoked_at := Some 1030, tk_revoked_by := Some ''a''\<rparr>, key_row 3 1 new_c]"
proof -
  have "key_run_events demo_env escape_events empty_keys = key_apply demo_env (KRevoke (Primary demo_tenant) cascade_args None None 1030) world_3"
    by (simp add: key_run_events_def escape_events_def escape_1 escape_2 escape_3 del: key_apply.simps)
  moreover have "subtree [used_a, used_b, key_row 3 1 new_c] 1 = {1, 2}"
    by (auto simp: subtree_def grow_def used_fields row_c_fields)
  moreover have "\<exists>d. revoke_sub_key_tree 1 ''a'' True 1030 (kw_db world_3) = (Inr (Some d), update_keys (\<lambda>k. tk_id k \<in> {1, 2} \<and> tk_revoked_at k = None)
      (\<lambda>k. k\<lparr>tk_revoked_at := Some 1030, tk_revoked_by := Some ''a''\<rparr>) (kw_db world_3))"
    using calculation(2) by (simp add: revoke_sub_key_tree_def world_3_def used_fields row_c_fields Let_def)
  ultimately show ?thesis
    by (auto simp: admit_def demo_tenant_def cascade_args_def revoke_key_def is_absent_def Let_def update_keys_def world_3_def used_fields row_c_fields)
qed

text \<open>C32. A helper outlives the revocation of the tree it belongs to. A lead key with no allowlist may not call
  \<open>host.key.mint\<close>, as no sub-key is meant to; but it may delegate a key whose allowlist names that verb, which \<open>narrow\<close> grants because
  the lead has no list to compare with and \<open>permits\<close> lets through because it consults the refused prefixes only for a key
  without a list. That key mints one with no parent and 30 days to live, which survives when the lead is revoked with all its descendants.\<close>

theorem delegated_mint_escapes_revocation:
  "\<not> permits (as_sub_key row_a) ''acme'' ''host.key.mint''
   \<and> find_sub_key_by_hash (kd_keys (kw_db (key_run_events demo_env (take 2 escape_events) empty_keys))) ''mk_a'' = Some row_a
   \<and> map (\<lambda>k. (tk_label k, tk_parent k, tk_revoked_at k)) (kd_keys (kw_db (key_run_events demo_env escape_events empty_keys)))
       = [(''a'', None, Some 1030), (''b'', Some 1, Some 1030), (''c'', None, None)]
   \<and> (\<exists>k t. fst (resolve_sub_key_tenant demo_env ''mk_c'' 2000000 (kw_db (key_run_events demo_env escape_events empty_keys))) = Inr (Some (k, t)))"
proof (intro conjI)
  show "\<not> permits (as_sub_key row_a) ''acme'' ''host.key.mint''" by (simp add: permits_def always_listed_def always_refused_def as_sub_key_def row_a_fields)
  show "find_sub_key_by_hash (kd_keys (kw_db (key_run_events demo_env (take 2 escape_events) empty_keys))) ''mk_a'' = Some row_a"
    by (simp add: key_run_events_def escape_events_def escape_1 world_1_def find_sub_key_by_hash_def row_a_fields del: key_apply.simps)
  show "map (\<lambda>k. (tk_label k, tk_parent k, tk_revoked_at k)) (kd_keys (kw_db (key_run_events demo_env escape_events empty_keys)))
      = [(''a'', None, Some 1030), (''b'', Some 1, Some 1030), (''c'', None, None)]"
    by (simp add: escape_cascade used_fields row_c_fields)
  show "\<exists>k t. fst (resolve_sub_key_tenant demo_env ''mk_c'' 2000000 (kw_db (key_run_events demo_env escape_events empty_keys))) = Inr (Some (k, t))"
    unfolding resolve_sub_key_tenant_def find_sub_key_by_hash_def escape_cascade
    by (simp add: ancestry_def key_dead_reason_def sub_key_prefix_def demo_env_def used_fields row_c_fields TTL_DEFAULT_S_def List.map_filter_def)
qed

text \<open>The hypotheses of the theorems hold: a lead's helper that resolves, and a lead that is revoked.\<close>

lemma sub_key_within_ancestors_witness: "key_dead_reason used_a 1020 = None \<and> tk_depth used_a < tk_depth row_b"
proof -
  have res: "fst (resolve_sub_key_tenant demo_env ''mk_b'' 1020 (kw_db (key_run_events demo_env (take 4 escape_events) empty_keys))) = Inr (Some (row_b, demo_tenant))"
    unfolding escape_tree by (simp add: demo world_2_def)
  have "above (kd_keys (kw_db (key_run_events demo_env (take 4 escape_events) empty_keys))) used_a row_b"
    unfolding escape_tree by (rule above.parent) (simp_all add: world_2_def used_fields row_b_fields)
  from sub_key_within_ancestors[OF res this] show ?thesis by simp
qed

lemma demo_revoke:
  "revoke_sub_key_tree 1 ''a'' True 1030 (kw_db world_2) = (Inr (Some \<lparr>rv_revoked_at = 1030, rv_labels = [''a'', ''b'']\<rparr>),
     (kw_db world_2)\<lparr>kd_keys := [used_a\<lparr>tk_revoked_at := Some 1030, tk_revoked_by := Some ''a''\<rparr>, row_b\<lparr>tk_revoked_at := Some 1030, tk_revoked_by := Some ''a''\<rparr>]\<rparr>)"
proof -
  have "subtree [used_a, row_b] 1 = {1, 2}" by (auto simp: subtree_def grow_def used_fields row_b_fields)
  moreover have "tk_depth used_a = 1" by (simp add: used_a_def row_a_fields)
  ultimately show ?thesis
    by (simp add: revoke_sub_key_tree_def world_2_def update_keys_def by_depth_def used_fields row_b_fields Let_def)
qed

lemma revoked_tree_stays_dead_witness:
  "fst (resolve_sub_key_tenant demo_env ''mk_b'' 1031 ((kw_db world_2)\<lparr>kd_keys := [used_a\<lparr>tk_revoked_at := Some 1030, tk_revoked_by := Some ''a''\<rparr>,
     row_b\<lparr>tk_revoked_at := Some 1030, tk_revoked_by := Some ''a''\<rparr>]\<rparr>)) \<noteq> Inr (Some (row_b, demo_tenant))"
proof -
  let ?a = "used_a\<lparr>tk_revoked_at := Some 1030, tk_revoked_by := Some ''a''\<rparr>"
  let ?b = "row_b\<lparr>tk_revoked_at := Some 1030, tk_revoked_by := Some ''a''\<rparr>"
  let ?w = "world_2\<lparr>kw_db := (kw_db world_2)\<lparr>kd_keys := [?a, ?b]\<rparr>\<rparr>"
  have w: "?w = key_run_events demo_env [] ((key_run_events demo_env (take 4 escape_events) empty_keys)\<lparr>kw_db := (kw_db world_2)\<lparr>kd_keys := [?a, ?b]\<rparr>\<rparr>)"
    unfolding escape_tree by (simp add: key_run_events_def)
  have r: "revoke_sub_key_tree 1 ''a'' True 1030 (kw_db (key_run_events demo_env (take 4 escape_events) empty_keys))
      = (Inr (Some \<lparr>rv_revoked_at = 1030, rv_labels = [''a'', ''b'']\<rparr>), (kw_db world_2)\<lparr>kd_keys := [?a, ?b]\<rparr>)"
    unfolding escape_tree by (rule demo_revoke)
  have below: "?b = ?a \<or> above (kd_keys (kw_db ?w)) ?a ?b"
    by (rule disjI2, rule above.parent) (simp_all add: used_fields row_b_fields)
  show ?thesis
    using revoked_tree_stays_dead[OF r w, where a = ?a and k = ?b and key = "''mk_b''"] below
    by (simp add: used_fields row_b_fields demo_env_def)
qed

lemma revoke_tree_correct_witness:
  "\<exists>m d. revoke_sub_key_tree 1 ''a'' False 1030 (kw_db world_2) = (Inl (Structured ''has_children'' m d), kw_db world_2)"
proof -
  have mem: "used_a \<in> set (kd_keys (kw_db world_2))" by (simp add: world_2_def)
  have "above (kd_keys (kw_db world_2)) used_a row_b"
    by (rule above.parent) (simp_all add: world_2_def used_fields row_b_fields)
  then have "\<exists>k. above (kd_keys (kw_db world_2)) used_a k \<and> tk_revoked_at k = None" using row_b_fields(7) by blast
  with revoke_tree_correct[OF arg_cong[where f = kw_db, OF escape_tree[symmetric]] mem used_fields(2,4) refl, where cascade = False and now = 1030]
  show ?thesis by simp
qed


text \<open>A key bound to a run may outlive it: the run is looked up before the row is written, and a run that ends in
  between finds no key to revoke.\<close>

definition bound_args :: json where
  "bound_args = JObj [(''bind'', JObj [(''run_id'', JStr ''r'')]), (''label'', JStr ''a'')]"

definition late_events :: "key_event list" where
  "late_events =
     [KRunStart \<lparr>ru_id = ''r'', ru_tenant = 1, ru_status = ''running'', ru_deadline_s = None, ru_started = Some 990\<rparr>,
      KDelegate (Primary demo_tenant) bound_args None None ''mk_a'' 1000, KRunEnd ''r'' 1 ''succeeded'' 1001, KInsert 0]"

lemma bound_key_outlives_run:
  "map (\<lambda>k. (tk_bound k, tk_revoked_at k, tk_expires_at k)) (kd_keys (kw_db (key_run_events demo_env late_events empty_keys)))
     = [(Some (''run'', ''r''), None, 2000)]
   \<and> map ru_status (kd_runs (kw_db (key_run_events demo_env late_events empty_keys))) = [''succeeded'']"
  by (simp add: key_run_events_def late_events_def bound_args_def demo run_open_def bound_ttl_def finalize_run_def set_status_def
      revoke_bound_on_def key_row_def map_filter_simps)

text \<open>A bound key's child is bound only when the call says so.\<close>

lemma bound_parent_unbound_child:
  assumes "delegate_prepare env t key_id args session key now db = Inr (ttl, n)" "is_absent (json_get ''bind'' args)"
  shows "check_bound (key_row i tenant n) any_session any_run = None"
proof -
  have "parse_bind tn (json_get ''bind'' args) session now db = Inr None" for tn using assms(2) by (simp add: parse_bind_def)
  with assms(1) have "nk_bound n = None"
    by (auto simp: delegate_prepare_def delegate_request_def Let_def split: sum.splits if_splits option.splits)
  then show ?thesis by (simp add: check_bound_def key_row_def)
qed

end
