(* ===== verification/Paging.thy ===== *)
theory Paging
  imports Errors Sessions
begin

text \<open>
  Paging of every list verb: \<open>paged.rs\<close>. A cursor is the keyset position of a row, signed for its tenant and stamped with the order it
  was minted under; a page is the rows past a cursor in a declared order, cut at its limit. The rows of a query are a
  list, a row is anything with a position (\<open>cursor_of\<close>) and an id column. The base64 engine with the UTF-8 check that follows it and the MAC of
  \<open>session_bind.rs\<close> are arguments. \<open>walk\<close> follows \<open>next_cursor\<close> through any sequence of states of the table.
\<close>

section \<open>Counts, cursors, limits\<close>

definition CURSOR_REMEDY :: string where "CURSOR_REMEDY = ''omit cursor to restart from the first page''"

definition LIMIT_CLAMPED_KEY :: string where "LIMIT_CLAMPED_KEY = ''__limit_clamped''"

definition DEPRECATED_ARG_KEY :: string where "DEPRECATED_ARG_KEY = ''__deprecated_arg''"

definition EXACT_TOTAL_MAX :: nat where "EXACT_TOTAL_MAX = 10000"

definition LIMIT_DESCRIPTION :: string where
  "LIMIT_DESCRIPTION = ''Page size, 1..=max for this verb (a larger value is clamped and reported in _meta.mcphost.limit_clamped).''"

definition CURSOR_DESCRIPTION :: string where
  "CURSOR_DESCRIPTION = ''Opaque keyset cursor: pass the previous page'' @ [CHR 0x27] @ ''s next_cursor verbatim; omit for the first page.''"

definition NEXT_CURSOR_DESCRIPTION :: string where
  "NEXT_CURSOR_DESCRIPTION = ''Opaque cursor for the next page; absent (key omitted) on the last page.''"

definition TRUNCATED_DESCRIPTION :: string where "TRUNCATED_DESCRIPTION = ''true when more rows exist past this page.''"

definition FIELDS_DESCRIPTION :: string where "FIELDS_DESCRIPTION = ''Return only these row fields; default all.''"

definition total_description :: string where
  "total_description = ''Exact row count of the filtered set; present only when the set has at most '' @ show_nat EXACT_TOTAL_MAX @ '' rows.''"

definition total_estimate_description :: string where
  "total_estimate_description =
     ''Estimated row count (exact: false); present instead of total when the set has more than '' @ show_nat EXACT_TOTAL_MAX @ '' rows.''"

record row_count =
  rc_exact :: bool
  rc_n :: nat

text \<open>The bounded count reads one row more than \<open>EXACT_TOTAL_MAX\<close>.\<close>

definition from_bounded :: "nat \<Rightarrow> nat \<Rightarrow> row_count" where
  "from_bounded bounded estimate =
     (if bounded \<le> EXACT_TOTAL_MAX then \<lparr>rc_exact = True, rc_n = bounded\<rparr> else \<lparr>rc_exact = False, rc_n = max estimate bounded\<rparr>)"

definition count_insert_into :: "row_count \<Rightarrow> (string \<times> json) list \<Rightarrow> (string \<times> json) list" where
  "count_insert_into c out =
     (if rc_exact c then obj_insert ''total'' (JInt (int (rc_n c))) out
      else obj_insert ''exact'' (JBool False) (obj_insert ''total_estimate'' (JInt (int (rc_n c))) out))"

record page_env =
  pe_encode :: "string \<Rightarrow> string"
  pe_decode :: "string \<Rightarrow> string option"
  pe_mac :: "nat list \<Rightarrow> nat list"

record cursor =
  cu_seq :: int
  cu_id :: string
  cu_order :: string

definition cursor_new :: "int \<Rightarrow> string \<Rightarrow> cursor" where
  "cursor_new seq i = \<lparr>cu_seq = seq, cu_id = i, cu_order = []\<rparr>"

definition with_order :: "string \<Rightarrow> cursor \<Rightarrow> cursor" where
  "with_order order c = c\<lparr>cu_order := order\<rparr>"

definition cursor_invalid :: "string \<Rightarrow> app_error" where
  "cursor_invalid why = Structured ''cursor_invalid'' (''cursor is not valid ('' @ why @ '')'')
     (mk_obj [(''reason'', JStr why), (''remedy'', JStr CURSOR_REMEDY)])"

definition require_order :: "string \<Rightarrow> cursor \<Rightarrow> app_error option" where
  "require_order want c = (if cu_order c = want then None else Some (cursor_invalid ''order''))"

definition cursor_tag :: "page_env \<Rightarrow> int \<Rightarrow> string \<Rightarrow> string" where
  "cursor_tag env tenant body = to_hex (take 8 (pe_mac env (as_bytes (show_int tenant @ ''|'' @ body))))"

definition cursor_body :: "cursor \<Rightarrow> string" where
  "cursor_body c = ''v1:'' @ cu_order c @ '':'' @ show_int (cu_seq c) @ '':'' @ cu_id c"

definition cursor_encode :: "page_env \<Rightarrow> int \<Rightarrow> cursor \<Rightarrow> string" where
  "cursor_encode env tenant c = pe_encode env (cursor_body c @ '':'' @ cursor_tag env tenant (cursor_body c))"

definition trim_end_pad :: "string \<Rightarrow> string" where
  "trim_end_pad s = rev (dropWhile (\<lambda>c. c = CHR ''='') (rev s))"

text \<open>Past the version: order, position, id and tag.\<close>

definition cursor_parts :: "string \<Rightarrow> (cursor \<times> string) option" where
  "cursor_parts rest =
     (case rsplit_once (CHR '':'') rest of
        None \<Rightarrow> None
      | Some (body_rest, tag) \<Rightarrow>
     (case split_once (CHR '':'') body_rest of
        None \<Rightarrow> None
      | Some (order, rest) \<Rightarrow>
     (case split_once (CHR '':'') rest of
        None \<Rightarrow> None
      | Some (seq, i) \<Rightarrow> map_option (\<lambda>n. (\<lparr>cu_seq = n, cu_id = i, cu_order = order\<rparr>, tag)) (parse_i64 seq))))"

definition cursor_decode :: "page_env \<Rightarrow> string \<Rightarrow> int \<Rightarrow> app_error + cursor" where
  "cursor_decode env raw tenant =
     (case Option.bind (pe_decode env (trim_end_pad raw)) (split_once (CHR '':'')) of
        None \<Rightarrow> Inl (cursor_invalid ''encoding'')
      | Some (version, rest) \<Rightarrow>
          (let digits = (case version of c # ds \<Rightarrow> if c = CHR ''v'' then ds else [] | [] \<Rightarrow> []) in
           if digits = [] \<or> \<not> list_all is_ascii_digit digits then Inl (cursor_invalid ''encoding'')
           else if version \<noteq> ''v1'' then Inl (cursor_invalid ''version'')
           else (case cursor_parts rest of
               None \<Rightarrow> Inl (cursor_invalid ''encoding'')
             | Some (c, tag) \<Rightarrow>
                 if cursor_tag env tenant (cursor_body c) \<noteq> tag then Inl (cursor_invalid ''signature'') else Inr c)))"

definition is_encoding :: "app_error \<Rightarrow> bool" where
  "is_encoding e = (case e of Structured _ _ d \<Rightarrow> json_get ''reason'' d = Some (JStr ''encoding'') | _ \<Rightarrow> False)"

text \<open>A cursor of an older release: read only when the text is no signed cursor at all.\<close>

definition decode_or_legacy :: "page_env \<Rightarrow> string \<Rightarrow> int \<Rightarrow> (string \<Rightarrow> cursor option) \<Rightarrow> app_error + cursor" where
  "decode_or_legacy env raw tenant legacy =
     (case cursor_decode env raw tenant of
        Inr c \<Rightarrow> Inr c
      | Inl e \<Rightarrow>
          if code e = ''cursor_invalid'' \<and> is_encoding e
          then (case legacy raw of Some c \<Rightarrow> Inr c | None \<Rightarrow> Inl e)
          else Inl e)"

record resolved_limit =
  rl_limit :: int
  rl_clamped :: "(int \<times> int) option"

definition arg_present :: "string \<Rightarrow> json \<Rightarrow> json option" where
  "arg_present name args = (case json_get name args of Some v \<Rightarrow> if is_null v then None else Some v | None \<Rightarrow> None)"

definition resolve_limit :: "json \<Rightarrow> int \<Rightarrow> int \<Rightarrow> app_error + resolved_limit" where
  "resolve_limit args dflt mx =
     (case arg_present ''limit'' args of
        None \<Rightarrow> Inr \<lparr>rl_limit = min dflt mx, rl_clamped = None\<rparr>
      | Some raw \<Rightarrow>
          (case as_i64 raw of
             None \<Rightarrow> Inl (InvalidArgs ''limit: must be an integer'')
           | Some asked \<Rightarrow>
               if asked < 1 then Inl (InvalidArgs (''limit: must be at least 1, got '' @ show_int asked))
               else if asked > mx then Inr \<lparr>rl_limit = mx, rl_clamped = Some (asked, mx)\<rparr>
               else Inr \<lparr>rl_limit = asked, rl_clamped = None\<rparr>))"

definition on_object :: "((string \<times> json) list \<Rightarrow> (string \<times> json) list) \<Rightarrow> json \<Rightarrow> json" where
  "on_object f v = (case v of JObj kvs \<Rightarrow> JObj (f kvs) | _ \<Rightarrow> v)"

definition note_clamp :: "resolved_limit \<Rightarrow> json \<Rightarrow> json" where
  "note_clamp rl v =
     (case rl_clamped rl of
        Some (asked, mx) \<Rightarrow> on_object (obj_insert LIMIT_CLAMPED_KEY (mk_obj [(''asked'', JInt asked), (''max'', JInt mx)])) v
      | None \<Rightarrow> v)"

definition note_deprecated_arg :: "string \<Rightarrow> string \<Rightarrow> string \<Rightarrow> json \<Rightarrow> json" where
  "note_deprecated_arg argument replaced_by sunset =
     on_object (obj_insert DEPRECATED_ARG_KEY
       (mk_obj [(''argument'', JStr argument), (''replaced_by'', JStr replaced_by), (''sunset'', JStr sunset)]))"

definition take_key :: "string \<Rightarrow> json \<Rightarrow> json option \<times> json" where
  "take_key k v = (json_get k v, on_object (filter (\<lambda>(k', _). k' \<noteq> k)) v)"

definition take_deprecated_arg :: "json \<Rightarrow> json option \<times> json" where
  "take_deprecated_arg = take_key DEPRECATED_ARG_KEY"

definition take_clamp :: "json \<Rightarrow> json option \<times> json" where
  "take_clamp = take_key LIMIT_CLAMPED_KEY"

text \<open>The page was fetched with one row more than its limit.\<close>

definition split_page :: "'r list \<Rightarrow> int \<Rightarrow> ('r \<Rightarrow> cursor) \<Rightarrow> 'r list \<times> cursor option" where
  "split_page rows limit cursor_of =
     (if int (length rows) > limit
      then (let kept = take (nat limit) rows in (kept, if kept = [] then None else Some (cursor_of (last kept))))
      else (rows, None))"

definition finish_page :: "page_env \<Rightarrow> int \<Rightarrow> cursor option \<Rightarrow> (string \<times> json) list \<Rightarrow> (string \<times> json) list" where
  "finish_page env tenant next_c out =
     (case next_c of Some c \<Rightarrow> obj_insert ''next_cursor'' (JStr (cursor_encode env tenant c)) out | None \<Rightarrow> out)"

section \<open>Declared orders\<close>

datatype dir = Asc | Desc

fun dir_sql :: "dir \<Rightarrow> string" where
  "dir_sql Asc = ''ASC''"
| "dir_sql Desc = ''DESC''"

fun dir_cmp :: "dir \<Rightarrow> string" where
  "dir_cmp Asc = ''>''"
| "dir_cmp Desc = ''<''"

datatype key_kind = Tuple | UniqueInt | UniqueText

record order_spec =
  os_name :: string
  os_col :: string
  os_id_col :: string
  os_dir :: dir
  os_key :: key_kind

text \<open>An order enum is its declared orders and the default.\<close>

record order_enum =
  oe_all :: "order_spec list"
  oe_default :: order_spec

definition declared :: "string \<Rightarrow> string \<Rightarrow> string \<Rightarrow> dir \<Rightarrow> key_kind \<Rightarrow> order_spec" where
  "declared name col i d k = \<lparr>os_name = name, os_col = col, os_id_col = i, os_dir = d, os_key = k\<rparr>"

definition docs_created_desc :: order_spec where "docs_created_desc = declared ''created_desc'' ''seq'' ''id'' Desc Tuple"

definition docs_created_asc :: order_spec where "docs_created_asc = declared ''created_asc'' ''seq'' ''id'' Asc Tuple"

definition docs_name_asc :: order_spec where "docs_name_asc = declared ''name_asc'' ''name'' ''id'' Asc UniqueText"

definition DocsOrder :: order_enum where
  "DocsOrder = \<lparr>oe_all = [docs_created_desc, docs_created_asc, docs_name_asc], oe_default = docs_created_desc\<rparr>"

definition single_order :: "order_spec \<Rightarrow> order_enum" where
  "single_order s = \<lparr>oe_all = [s], oe_default = s\<rparr>"

definition InboxOrder :: order_enum where
  "InboxOrder = single_order (declared ''created_asc'' ''m.created_unix_ms'' ''m.id'' Asc Tuple)"

definition ThreadOrder :: order_enum where
  "ThreadOrder = single_order (declared ''seq_asc'' ''m.seq'' ''m.id'' Asc UniqueInt)"

definition ChannelOrder :: order_enum where
  "ChannelOrder = single_order (declared ''seq_asc'' ''seq'' ''id'' Asc UniqueInt)"

definition RunsOrder :: order_enum where
  "RunsOrder =
     \<lparr>oe_all = [declared ''created_desc'' ''rowid'' ''id'' Desc Tuple, declared ''created_asc'' ''rowid'' ''id'' Asc Tuple],
      oe_default = declared ''created_desc'' ''rowid'' ''id'' Desc Tuple\<rparr>"

definition CallsOrder :: order_enum where
  "CallsOrder = single_order (declared ''newest_first'' ''c.id'' ''c.id'' Desc UniqueInt)"

definition order_parse :: "order_enum \<Rightarrow> string \<Rightarrow> order_spec option" where
  "order_parse od raw = find (\<lambda>s. os_name s = raw) (oe_all od)"

definition order_names :: "order_enum \<Rightarrow> string list" where
  "order_names od = map os_name (oe_all od)"

definition sql_order :: "order_spec \<Rightarrow> string" where
  "sql_order s = ''ORDER BY '' @ os_col s @ '' '' @ dir_sql (os_dir s) @ '', '' @ os_id_col s @ '' '' @ dir_sql (os_dir s)"

definition order_schema_property :: "order_enum \<Rightarrow> json" where
  "order_schema_property od =
     mk_obj [(''type'', JStr ''string''), (''enum'', JStrs (order_names od)), (''default'', JStr (os_name (oe_default od))),
       (''description'', JStr (''Row order; default '' @ os_name (oe_default od) @ ''.''))]"

definition resolve_order :: "order_enum \<Rightarrow> json \<Rightarrow> app_error + order_spec" where
  "resolve_order od args =
     (case arg_present ''order'' args of
        None \<Rightarrow> Inr (oe_default od)
      | Some raw \<Rightarrow>
          (case Option.bind (as_str raw) (order_parse od) of
             Some s \<Rightarrow> Inr s
           | None \<Rightarrow> Inl (InvalidArgs (''order: must be one of '' @ join '', '' (order_names od)))))"

text \<open>The text of the keyset predicate with its bind values, and what the two texts mean to SQLite: a position is
  compared by the columns of the order, texts by their bytes.\<close>

datatype sql_value = SqlInteger int | SqlText string

definition keyset_clause :: "order_spec \<Rightarrow> cursor \<Rightarrow> nat \<Rightarrow> string \<times> sql_value list" where
  "keyset_clause s c first_idx =
     (case os_key s of
        Tuple \<Rightarrow> (''('' @ os_col s @ '', '' @ os_id_col s @ '') '' @ dir_cmp (os_dir s) @ '' (?'' @ show_nat first_idx @ '', ?'' @ show_nat (first_idx + 1) @ '')'',
           [SqlInteger (cu_seq c), SqlText (cu_id c)])
      | UniqueInt \<Rightarrow> (os_col s @ '' '' @ dir_cmp (os_dir s) @ '' ?'' @ show_nat first_idx, [SqlInteger (cu_seq c)])
      | UniqueText \<Rightarrow> (os_col s @ '' '' @ dir_cmp (os_dir s) @ '' ?'' @ show_nat first_idx, [SqlText (cu_id c)]))"

definition position :: "order_spec \<Rightarrow> cursor \<Rightarrow> int \<times> string" where
  "position s c = (case os_key s of Tuple \<Rightarrow> (cu_seq c, cu_id c) | UniqueInt \<Rightarrow> (cu_seq c, []) | UniqueText \<Rightarrow> (0, cu_id c))"

definition keyset_holds :: "order_spec \<Rightarrow> cursor \<Rightarrow> cursor \<Rightarrow> bool" where
  "keyset_holds s c row = (case os_dir s of Asc \<Rightarrow> position s c < position s row | Desc \<Rightarrow> position s row < position s c)"

definition in_order :: "order_spec \<Rightarrow> ('r \<Rightarrow> cursor) \<Rightarrow> ('r \<Rightarrow> string) \<Rightarrow> 'r list \<Rightarrow> 'r list" where
  "in_order s cursor_of id_of rows =
     (let up = sort_key (\<lambda>r. (position s (cursor_of r), id_of r)) rows in case os_dir s of Asc \<Rightarrow> up | Desc \<Rightarrow> rev up)"

text \<open>A query of a list verb: the rows of its \<open>WHERE\<close> past the cursor, in order, with a \<open>LIMIT\<close>.\<close>

definition query_page :: "order_spec \<Rightarrow> ('r \<Rightarrow> cursor) \<Rightarrow> ('r \<Rightarrow> string) \<Rightarrow> cursor option \<Rightarrow> int \<Rightarrow> 'r list \<Rightarrow> 'r list" where
  "query_page s cursor_of id_of after limit rows =
     take (nat limit) (in_order s cursor_of id_of
       (filter (\<lambda>r. case after of Some c \<Rightarrow> keyset_holds s c (cursor_of r) | None \<Rightarrow> True) rows))"

text \<open>\<open>Paged::cursor_at\<close>: the position stamped with its order.\<close>

definition cursor_at :: "('r \<Rightarrow> cursor) \<Rightarrow> order_spec \<Rightarrow> 'r \<Rightarrow> cursor" where
  "cursor_at cursor_of s r = with_order (os_name s) (cursor_of r)"

definition list_page :: "order_spec \<Rightarrow> ('r \<Rightarrow> cursor) \<Rightarrow> ('r \<Rightarrow> string) \<Rightarrow> cursor option \<Rightarrow> int \<Rightarrow> 'r list \<Rightarrow> 'r list \<times> cursor option" where
  "list_page s cursor_of id_of after limit rows =
     split_page (query_page s cursor_of id_of after (limit + 1) rows) limit (cursor_at cursor_of s)"

section \<open>The registry of list verbs\<close>

record paged_spec =
  ps_verb :: string
  ps_key :: string
  ps_default :: int
  ps_max :: int
  ps_order :: order_enum
  ps_fields :: "string list"

definition PAGED_SPECS :: "paged_spec list" where
  "PAGED_SPECS =
     [\<lparr>ps_verb = ''host.channel.read'', ps_key = ''posts'', ps_default = 50, ps_max = 100, ps_order = ChannelOrder,
       ps_fields = [''post_id'', ''channel_id'', ''seq'', ''from_address'', ''body'', ''data'', ''created_at'']\<rparr>,
      \<lparr>ps_verb = ''host.msg.inbox'', ps_key = ''messages'', ps_default = 50, ps_max = 100, ps_order = InboxOrder,
       ps_fields = [''message_id'', ''thread_id'', ''seq'', ''from_address'', ''body'', ''data'', ''in_reply_to'', ''synthetic'',
                    ''source_class'', ''created_at'', ''read_at'', ''urgent'']\<rparr>,
      \<lparr>ps_verb = ''host.msg.thread'', ps_key = ''messages'', ps_default = 50, ps_max = 100, ps_order = ThreadOrder,
       ps_fields = [''message_id'', ''thread_id'', ''seq'', ''from_address'', ''body'', ''data'', ''in_reply_to'', ''synthetic'',
                    ''source_class'', ''created_at'', ''read_at'', ''urgent'']\<rparr>,
      \<lparr>ps_verb = ''host.runs.list'', ps_key = ''runs'', ps_default = 20, ps_max = 200, ps_order = RunsOrder,
       ps_fields = [''run_id'', ''tool'', ''trigger'', ''trigger_ref'', ''status'', ''progress'', ''counters'', ''result'', ''result_ref'',
                    ''purged'', ''error_class'', ''error'', ''started_unix'', ''finished_unix'', ''duration_ms'', ''deadline_s'',
                    ''attempt'', ''manual'', ''test'', ''end_user'', ''parent_run_id'', ''step_no'', ''parent_tool'', ''children'']\<rparr>,
      \<lparr>ps_verb = ''host.calls.list'', ps_key = ''calls'', ps_default = 100, ps_max = 500, ps_order = CallsOrder,
       ps_fields = [''ts'', ''credential'', ''key_label'', ''tool'', ''outcome'', ''error_class'', ''duration_ms'', ''bytes_in'',
                    ''bytes_out'', ''end_user_subject'', ''run_id'']\<rparr>,
      \<lparr>ps_verb = ''host.docs.list'', ps_key = ''documents'', ps_default = 100, ps_max = 1000, ps_order = DocsOrder,
       ps_fields = [''id'', ''name'', ''version'', ''mime'', ''bytes'', ''text_bytes'', ''metadata'', ''seq'', ''created_at'',
                    ''updated_at'', ''deleted'']\<rparr>]"

definition find_paged_spec :: "string \<Rightarrow> paged_spec option" where
  "find_paged_spec verb = find (\<lambda>s. ps_verb s = verb) PAGED_SPECS"

definition TOOL_LIST_FIELDS :: "string list" where
  "TOOL_LIST_FIELDS = [''name'', ''kind'', ''created_at'', ''visibility'', ''share_description'', ''unshared_by'', ''env'', ''advisories'',
                      ''expose_spec'', ''exposed_at'', ''spec_reads'', ''scopes'', ''stub'', ''tags'', ''tested_version'', ''stale_test'',
                      ''forked_from'']"

definition PROJECTED_WINDOWS :: "(string \<times> string \<times> string list) list" where
  "PROJECTED_WINDOWS = [(''host.tool.list'', ''tools'', TOOL_LIST_FIELDS)]"

definition UNPAGED_LEGACY :: string where
  "UNPAGED_LEGACY = ''keeps its own pre-Paged cursor encoding; converges onto paged::Cursor in a follow-up migration''"

definition UNPAGED_WINDOW :: string where
  "UNPAGED_WINDOW = ''limit-only window over a bounded recent set; no keyset cursor is offered yet''"

definition UNPAGED_NOTES :: string where
  "UNPAGED_NOTES = ''newest-first window; its cursor is the previous page's last note key, not a signed keyset cursor''"

definition UNPAGED_EXPORT :: string where
  "UNPAGED_EXPORT = ''export or arbitrary-query semantics: the caller bounds the result, so no page cursor applies''"

definition UNPAGED_BOUNDED :: string where
  "UNPAGED_BOUNDED = ''tenant-quota-bounded set returned whole in one response, never more than a plan-capped few hundred rows''"

definition UNPAGED_NAME_WINDOW :: string where
  "UNPAGED_NAME_WINDOW = ''limit-only name-ordered window with a prefix filter; no keyset cursor is offered yet''"

definition UNPAGED_RANKED :: string where
  "UNPAGED_RANKED = ''relevance-ranked top-k result, not a keyset-ordered list, so there is no stable cursor''"

definition UNPAGED_REGISTRY :: string where
  "UNPAGED_REGISTRY = ''fixed set read whole from providers.toml at build time, a handful of rows; no cursor applies''"

definition UNPAGED_ECHO :: string where
  "UNPAGED_ECHO = ''not a list verb: the array is a field of a single-record or mutation response''"

definition UNPAGED_STATIC :: string where
  "UNPAGED_STATIC = ''static registry returned whole in one response, bounded by the code table, so no page cursor applies''"

definition UNPAGED_SUMMARY :: string where
  "UNPAGED_SUMMARY = ''one byte-budgeted summary (resume::ResumeBudget): every section is cut to its cap and truncated names the cut, so no page cursor applies''"

definition UNPAGED_WAIT :: string where
  "UNPAGED_WAIT = ''long-poll batch of at most 50 rows that advances the shared cursor; wait semantics, not page-through''"

definition UNPAGED_VERBS :: "(string \<times> string) list" where
  "UNPAGED_VERBS =
     [(''billing.plans'', UNPAGED_ECHO), (''host.agent.contacts'', UNPAGED_BOUNDED), (''host.agent.profile_set'', UNPAGED_ECHO),
      (''host.agent.search'', UNPAGED_LEGACY), (''host.ask.list'', UNPAGED_WINDOW), (''host.notify.channel_list'', UNPAGED_BOUNDED),
      (''host.notify.receipts'', UNPAGED_WINDOW), (''host.email.sends'', UNPAGED_WINDOW), (''host.audit.chain'', UNPAGED_WINDOW),
      (''host.audit.export'', UNPAGED_EXPORT), (''host.blob.gc'', UNPAGED_BOUNDED), (''host.blob.list'', UNPAGED_NAME_WINDOW),
      (''host.catalog.search'', UNPAGED_WINDOW), (''host.changelog'', UNPAGED_EXPORT), (''host.connect.list'', UNPAGED_REGISTRY),
      (''host.connect.providers'', UNPAGED_REGISTRY), (''host.docs.search'', UNPAGED_RANKED), (''host.docs.status'', UNPAGED_ECHO),
      (''host.doctor'', UNPAGED_WINDOW), (''host.schedule_receipts'', UNPAGED_WINDOW), (''host.drift.reviews'', UNPAGED_WINDOW),
      (''host.enduser.audit'', UNPAGED_LEGACY), (''host.enduser.list'', UNPAGED_LEGACY), (''host.example.list'', UNPAGED_BOUNDED),
      (''host.errors'', UNPAGED_STATIC), (''host.feedback.list'', UNPAGED_BOUNDED), (''host.group.list'', UNPAGED_BOUNDED),
      (''host.help.search'', UNPAGED_RANKED), (''host.index.list'', UNPAGED_BOUNDED), (''host.index.query'', UNPAGED_RANKED),
      (''host.invite.create'', UNPAGED_ECHO), (''host.invite.list'', UNPAGED_BOUNDED), (''host.key.list'', UNPAGED_BOUNDED),
      (''host.msg.wait'', UNPAGED_WAIT), (''host.note.list'', UNPAGED_NOTES), (''host.oauth.audit'', UNPAGED_LEGACY),
      (''host.oauth.audit_export'', UNPAGED_EXPORT), (''host.oauth.grants'', UNPAGED_BOUNDED), (''host.oauth.issuers'', UNPAGED_BOUNDED),
      (''host.oauth.pending'', UNPAGED_BOUNDED), (''host.oauth.policy'', UNPAGED_BOUNDED), (''host.oauth.policy_set'', UNPAGED_ECHO),
      (''host.oauth.scopes'', UNPAGED_BOUNDED), (''host.oauth.trusted_issuers'', UNPAGED_BOUNDED), (''host.policy.list'', UNPAGED_BOUNDED),
      (''host.secret.list'', UNPAGED_BOUNDED), (''host.state.list'', UNPAGED_WINDOW), (''host.sync.list'', UNPAGED_BOUNDED),
      (''host.state.query'', UNPAGED_WINDOW), (''host.table.charts'', UNPAGED_BOUNDED), (''host.table.graph'', UNPAGED_BOUNDED),
      (''host.table.handles'', UNPAGED_BOUNDED), (''host.table.list'', UNPAGED_BOUNDED), (''host.table.models'', UNPAGED_BOUNDED),
      (''host.table.next_questions'', UNPAGED_EXPORT), (''host.table.query'', UNPAGED_EXPORT), (''host.table.query_log'', UNPAGED_WINDOW),
      (''host.table.query_stats'', UNPAGED_BOUNDED), (''host.task.dead_letters'', UNPAGED_BOUNDED), (''host.tool.list'', UNPAGED_BOUNDED),
      (''host.tool.list_shared'', UNPAGED_WINDOW), (''host.trigger.dead_letters'', UNPAGED_BOUNDED), (''host.trigger.list'', UNPAGED_BOUNDED),
      (''host.vault.providers'', UNPAGED_BOUNDED), (''host.whoami'', UNPAGED_ECHO), (''host.resume'', UNPAGED_SUMMARY)]"

definition unpaged_reason :: "string \<Rightarrow> string option" where
  "unpaged_reason verb = map_option snd (find (\<lambda>(v, _). v = verb) UNPAGED_VERBS)"

definition fields_for :: "string \<Rightarrow> string list option" where
  "fields_for verb =
     (case find_paged_spec verb of
        Some s \<Rightarrow> Some (ps_fields s)
      | None \<Rightarrow> map_option (\<lambda>(_, _, f). f) (find (\<lambda>(v, _, _). v = verb) PROJECTED_WINDOWS))"

definition projected_verbs :: "string list" where
  "projected_verbs = map ps_verb PAGED_SPECS @ map fst PROJECTED_WINDOWS"

definition fields_property :: "string list \<Rightarrow> json" where
  "fields_property names =
     mk_obj [(''type'', JStr ''array''), (''minItems'', JInt 1), (''uniqueItems'', JBool True),
       (''items'', mk_obj [(''type'', JStr ''string''), (''enum'', JStrs names)]), (''description'', JStr FIELDS_DESCRIPTION)]"

definition splice_fields_property :: "string \<Rightarrow> (string \<times> json) list \<Rightarrow> (string \<times> json) list" where
  "splice_fields_property verb properties =
     (case fields_for verb of Some f \<Rightarrow> obj_insert ''fields'' (fields_property f) properties | None \<Rightarrow> properties)"

definition insert_all :: "(string \<times> json) list \<Rightarrow> (string \<times> json) list \<Rightarrow> (string \<times> json) list" where
  "insert_all kvs m = fold (\<lambda>(k, v). obj_insert k v) kvs m"

definition input_properties :: "paged_spec \<Rightarrow> (string \<times> json) list" where
  "input_properties s = insert_all
     [(''limit'', mk_obj [(''type'', JStr ''integer''), (''minimum'', JInt 1), (''maximum'', JInt (ps_max s)), (''default'', JInt (ps_default s)),
         (''description'', JStr LIMIT_DESCRIPTION)]),
      (''cursor'', mk_obj [(''type'', JStr ''string''), (''description'', JStr CURSOR_DESCRIPTION)]),
      (''order'', order_schema_property (ps_order s)),
      (''fields'', fields_property (ps_fields s))] []"

definition output_properties :: "paged_spec \<Rightarrow> (string \<times> json) list" where
  "output_properties s = insert_all
     [(ps_key s, mk_obj [(''type'', JStr ''array'')]),
      (''next_cursor'', mk_obj [(''type'', JStr ''string''), (''description'', JStr NEXT_CURSOR_DESCRIPTION)]),
      (''truncated'', mk_obj [(''type'', JStr ''boolean''), (''description'', JStr TRUNCATED_DESCRIPTION)]),
      (''total'', mk_obj [(''type'', JStr ''integer''), (''description'', JStr total_description)]),
      (''total_estimate'', mk_obj [(''type'', JStr ''integer''), (''description'', JStr total_estimate_description)]),
      (''exact'', mk_obj [(''type'', JStr ''boolean''), (''description'', JStr ''false when only total_estimate is given.'')])] []"

definition splice_input_schema :: "string \<Rightarrow> (string \<times> json) list \<Rightarrow> (string \<times> json) list" where
  "splice_input_schema verb properties =
     (let properties = splice_fields_property verb properties in
      case find_paged_spec verb of
        None \<Rightarrow> properties
      | Some s \<Rightarrow> insert_all (input_properties s) properties)"

section \<open>Projection\<close>

text \<open>The nearest name at a distance of three or less; the first one wins a tie.\<close>

fun nearest_of :: "(nat \<times> string) list \<Rightarrow> (nat \<times> string) option \<Rightarrow> string option" where
  "nearest_of [] best = map_option snd best"
| "nearest_of ((d, c) # rest) best =
     nearest_of rest (if d > 3 then best else (case best of Some (b, _) \<Rightarrow> if d < b then Some (d, c) else best | None \<Rightarrow> Some (d, c)))"

definition nearest_field :: "string \<Rightarrow> string list \<Rightarrow> string option" where
  "nearest_field field valid = nearest_of (map (\<lambda>c. (levenshtein (to_ascii_lowercase field) c, c)) valid) None"

definition field_unknown :: "string \<Rightarrow> string \<Rightarrow> string list \<Rightarrow> app_error" where
  "field_unknown verb field valid =
     Structured ''field_unknown'' (''unknown field '' @ [CHR 0x27] @ field @ [CHR 0x27] @ '' for '' @ verb)
       (mk_obj [(''field'', JStr field), (''nearest'', opt_json JStr (nearest_field field valid)), (''valid'', JStrs valid)])"

fun read_fields :: "string \<Rightarrow> string list \<Rightarrow> json list \<Rightarrow> string list \<Rightarrow> app_error + string list" where
  "read_fields verb valid [] out = Inr out"
| "read_fields verb valid (item # rest) out =
     (case as_str item of
        None \<Rightarrow> Inl (InvalidArgs ''fields: every entry must be a string'')
      | Some name \<Rightarrow>
          if name \<notin> set valid then Inl (field_unknown verb name valid)
          else read_fields verb valid rest (if name \<in> set out then out else out @ [name]))"

definition parse_fields :: "string \<Rightarrow> json \<Rightarrow> app_error + string list option" where
  "parse_fields verb args =
     (case arg_present ''fields'' args of
        None \<Rightarrow> Inr None
      | Some raw \<Rightarrow>
          (case as_array raw of
             None \<Rightarrow> Inl (InvalidArgs ''fields: must be an array of field names'')
           | Some l \<Rightarrow>
               if l = [] then Inl (InvalidArgs ''fields: must name at least one field (omit it to get every field)'')
               else map_sum id Some (read_fields verb (case fields_for verb of Some f \<Rightarrow> f | None \<Rightarrow> []) l [])))"

definition project_row :: "string list \<Rightarrow> json \<Rightarrow> json" where
  "project_row names = on_object (filter (\<lambda>(k, _). k \<in> set names))"

definition project_page :: "string \<Rightarrow> string list \<Rightarrow> json \<Rightarrow> json" where
  "project_page key names page =
     on_object (map (\<lambda>(k, v). (k, if k = key then (case v of JArr rows \<Rightarrow> JArr (map (project_row names) rows) | _ \<Rightarrow> v) else v))) page"

definition refuse_fields_on_unprojected :: "string \<Rightarrow> json \<Rightarrow> app_error option" where
  "refuse_fields_on_unprojected verb args =
     (if arg_present ''fields'' args \<noteq> None \<and> fields_for verb = None \<and> unpaged_reason verb \<noteq> None
      then Some (InvalidArgs (''fields: '' @ verb @ '' returns unpaged rows and does not project; omit fields''))
      else None)"

definition has_top_level_array :: "json \<Rightarrow> bool" where
  "has_top_level_array response = (case as_object response of Some m \<Rightarrow> list_ex (\<lambda>(_, v). as_array v \<noteq> None) m | None \<Rightarrow> False)"

definition drift_violations :: "json list \<Rightarrow> (string \<times> json) list \<Rightarrow> string list" where
  "drift_violations contract_tools recorded =
     List.map_filter (\<lambda>(verb, response).
         if \<not> has_top_level_array response then None
         else if (case find (\<lambda>t. json_get ''name'' t = Some (JStr verb)) contract_tools of
               Some e \<Rightarrow>
                 json_get ''paged'' e = Some (JBool True)
                 \<or> (case Option.bind (json_get ''unpaged_reason'' e) as_str of Some r \<Rightarrow> length r \<ge> 20 | None \<Rightarrow> False)
             | None \<Rightarrow> False)
         then None
         else Some (verb @ '': returns a top-level array but is neither `paged: true` nor carries an `unpaged_reason` (>= 20 chars) -- ''
           @ ''derive Paged in src/paged.rs or excuse it'')) recorded"

section \<open>Cursors are opaque and bound to their tenant\<close>

text \<open>What the code relies on: base64 is read back as it was written, without padding, and a MAC is made of bytes.\<close>

definition engine_ok :: "page_env \<Rightarrow> bool" where
  "engine_ok env \<longleftrightarrow>
     (\<forall>s. pe_decode env (pe_encode env s) = Some s) \<and> (\<forall>s. CHR ''='' \<notin> set (pe_encode env s)) \<and> (\<forall>m. \<forall>b \<in> set (pe_mac env m). b < 256)"

lemma split_once_append: "c \<notin> set a \<Longrightarrow> split_once c (a @ c # b) = Some (a, b)"
  by (induction a) auto

lemma rsplit_once_append: "c \<notin> set b \<Longrightarrow> rsplit_once c (a @ c # b) = Some (a, b)"
  using split_once_append[of c "rev b" "rev a"] by (simp add: rsplit_once_def)

lemma show_int_no_colon: "CHR '':'' \<notin> set (show_int i)"
proof -
  have "CHR '':'' \<notin> set (show_nat n)" for n
    using show_nat_digits(1)[of n] by (auto simp: list_all_iff is_ascii_digit_def scalar_def)
  then show ?thesis by (simp add: show_int_def)
qed

lemma tag_no_colon: "engine_ok env \<Longrightarrow> CHR '':'' \<notin> set (cursor_tag env t body)"
proof
  assume ok: "engine_ok env" and "CHR '':'' \<in> set (cursor_tag env t body)"
  then have "is_hex_digit (CHR '':'')"
    unfolding cursor_tag_def by (rule_tac to_hex_digits) (auto simp: engine_ok_def dest: in_set_takeD)
  then show False by (simp add: is_hex_digit_def)
qed

lemma trim_pad_none: "CHR ''='' \<notin> set s \<Longrightarrow> trim_end_pad s = s"
  by (cases "rev s") (auto simp: trim_end_pad_def rev_swap)

lemma cursor_parts_body:
  assumes "in_i64 (cu_seq c)" "CHR '':'' \<notin> set (cu_order c)" "CHR '':'' \<notin> set tag"
  shows "cursor_parts (cu_order c @ '':'' @ show_int (cu_seq c) @ '':'' @ cu_id c @ '':'' @ tag) = Some (c, tag)"
  using assms rsplit_once_append[of "CHR '':''" tag "cu_order c @ '':'' @ show_int (cu_seq c) @ '':'' @ cu_id c"]
    split_once_append[of "CHR '':''" "cu_order c" "show_int (cu_seq c) @ '':'' @ cu_id c"]
    split_once_append[OF show_int_no_colon, of "cu_seq c" "cu_id c"]
  by (simp add: cursor_parts_def parse_i64_show_int)

lemma decode_encode:
  assumes "engine_ok env" "in_i64 (cu_seq c)" "CHR '':'' \<notin> set (cu_order c)"
  shows "cursor_decode env (cursor_encode env tenant c) other =
    (if cursor_tag env other (cursor_body c) = cursor_tag env tenant (cursor_body c) then Inr c else Inl (cursor_invalid ''signature''))"
proof -
  let ?tag = "cursor_tag env tenant (cursor_body c)"
  have "pe_decode env (trim_end_pad (cursor_encode env tenant c)) = Some (cursor_body c @ '':'' @ ?tag)"
    using assms(1) by (simp add: engine_ok_def cursor_encode_def trim_pad_none)
  moreover have "split_once (CHR '':'') (cursor_body c @ '':'' @ ?tag)
      = Some (''v1'', cu_order c @ '':'' @ show_int (cu_seq c) @ '':'' @ cu_id c @ '':'' @ ?tag)"
    by (simp add: cursor_body_def)
  ultimately show ?thesis
    using cursor_parts_body[OF assms(2,3) tag_no_colon[OF assms(1)], of tenant "cursor_body c"]
    by (simp add: cursor_decode_def is_ascii_digit_def scalar_def)
qed

definition mac_head :: "page_env \<Rightarrow> int \<Rightarrow> string \<Rightarrow> nat list" where
  "mac_head env tenant body = take 8 (pe_mac env (as_bytes (show_int tenant @ ''|'' @ body)))"

lemma same_tag:
  assumes "engine_ok env"
  shows "cursor_tag env a body = cursor_tag env b body \<longleftrightarrow> mac_head env a body = mac_head env b body"
proof
  have "\<forall>x \<in> set (mac_head env t body). x < 256" for t using assms by (auto simp: mac_head_def engine_ok_def dest: in_set_takeD)
  moreover assume "cursor_tag env a body = cursor_tag env b body"
  ultimately show "mac_head env a body = mac_head env b body"
    by (intro to_hex_inj) (simp_all add: cursor_tag_def mac_head_def)
qed (simp add: cursor_tag_def mac_head_def)

text \<open>C35. A signed cursor opens for the tenant it was minted for, as it was; for another tenant it is refused, unless the
  MACs of the two tenants over its body share their first eight bytes.\<close>

theorem cursor_roundtrip:
  assumes "engine_ok env" "in_i64 (cu_seq c)" "CHR '':'' \<notin> set (cu_order c)"
  shows "cursor_decode env (cursor_encode env tenant c) other =
    (if mac_head env other (cursor_body c) = mac_head env tenant (cursor_body c) then Inr c else Inl (cursor_invalid ''signature''))"
  using decode_encode[OF assms] same_tag[OF assms(1)] by simp

section \<open>Walking through the pages\<close>

definition open_cursor :: "page_env \<Rightarrow> int \<Rightarrow> order_spec \<Rightarrow> string option \<Rightarrow> app_error + cursor option" where
  "open_cursor env tenant s raw =
     (case raw of
        None \<Rightarrow> Inr None
      | Some r \<Rightarrow>
          (case cursor_decode env r tenant of
             Inl e \<Rightarrow> Inl e
           | Inr c \<Rightarrow> (case require_order (os_name s) c of Some e \<Rightarrow> Inl e | None \<Rightarrow> Inr (Some c))))"

text \<open>A client that passes each \<open>next_cursor\<close> on, the table being in another state at each call; whether it saw the last page.\<close>

fun walk :: "page_env \<Rightarrow> int \<Rightarrow> order_spec \<Rightarrow> ('r \<Rightarrow> cursor) \<Rightarrow> ('r \<Rightarrow> string) \<Rightarrow> int \<Rightarrow> 'r list list \<Rightarrow> string option
    \<Rightarrow> app_error + 'r list list \<times> bool" where
  "walk env tenant s cursor_of id_of limit [] raw = Inr ([], False)"
| "walk env tenant s cursor_of id_of limit (table # tables) raw =
     (case open_cursor env tenant s raw of
        Inl e \<Rightarrow> Inl e
      | Inr after \<Rightarrow>
          (case list_page s cursor_of id_of after limit table of
             (rows, None) \<Rightarrow> Inr ([rows], True)
           | (rows, Some c) \<Rightarrow>
               map_sum id (\<lambda>(pages, fin). (rows # pages, fin))
                 (walk env tenant s cursor_of id_of limit tables (Some (cursor_encode env tenant c)))))"

text \<open>The same without the encoding.\<close>

fun walk_open :: "order_spec \<Rightarrow> ('r \<Rightarrow> cursor) \<Rightarrow> ('r \<Rightarrow> string) \<Rightarrow> int \<Rightarrow> 'r list list \<Rightarrow> cursor option \<Rightarrow> 'r list list \<times> bool" where
  "walk_open s cursor_of id_of limit [] after = ([], False)"
| "walk_open s cursor_of id_of limit (table # tables) after =
     (case list_page s cursor_of id_of after limit table of
        (rows, None) \<Rightarrow> ([rows], True)
      | (rows, Some c) \<Rightarrow> (let (pages, fin) = walk_open s cursor_of id_of limit tables (Some c) in (rows # pages, fin)))"

definition past :: "order_spec \<Rightarrow> cursor option \<Rightarrow> cursor \<Rightarrow> bool" where
  "past s after c = (case after of Some a \<Rightarrow> keyset_holds s a c | None \<Rightarrow> True)"

definition page_table_ok :: "order_spec \<Rightarrow> ('r \<Rightarrow> cursor) \<Rightarrow> 'r list \<Rightarrow> bool" where
  "page_table_ok s cursor_of t \<longleftrightarrow> distinct (map (position s \<circ> cursor_of) t) \<and> (\<forall>r \<in> set t. in_i64 (cu_seq (cursor_of r)))"

lemma position_order [simp]: "position s (with_order n c) = position s c"
  by (simp add: position_def with_order_def split: key_kind.splits)

lemma keyset_order [simp]: "keyset_holds s (with_order n a) b = keyset_holds s a b" "keyset_holds s a (with_order n b) = keyset_holds s a b"
  by (simp_all add: keyset_holds_def split: dir.splits)

lemma keyset_trans: "keyset_holds s a b \<Longrightarrow> keyset_holds s b c \<Longrightarrow> keyset_holds s a c"
  by (auto simp: keyset_holds_def split: dir.splits)

lemma keyset_irrefl: "\<not> keyset_holds s a a"
  by (simp add: keyset_holds_def split: dir.splits)

lemma keyset_asym: "keyset_holds s a b \<Longrightarrow> \<not> keyset_holds s b a"
  using keyset_trans keyset_irrefl by blast

lemma set_in_order [simp]: "set (in_order s cursor_of id_of rows) = set rows"
  by (simp add: in_order_def Let_def split: dir.splits)

lemma length_in_order [simp]: "length (in_order s cursor_of id_of rows) = length rows"
  by (simp add: in_order_def Let_def split: dir.splits)

lemma in_order_filter: "filter P (in_order s cursor_of id_of rows) = in_order s cursor_of id_of (filter P rows)"
  by (simp add: in_order_def Let_def filter_sort rev_filter[symmetric] split: dir.splits)

abbreviation strictly :: "order_spec \<Rightarrow> ('r \<Rightarrow> cursor) \<Rightarrow> 'r list \<Rightarrow> bool" where
  "strictly s cursor_of \<equiv> sorted_wrt (\<lambda>a b. keyset_holds s (cursor_of a) (cursor_of b))"

lemma fst_mono: "a \<le> b \<Longrightarrow> fst a \<le> fst b" for a b :: "'a::linorder \<times> 'b::linorder"
  by (auto simp: less_eq_prod_def)

lemma in_order_strict:
  assumes "distinct (map (position s \<circ> cursor_of) rows)"
  shows "strictly s cursor_of (in_order s cursor_of id_of rows)"
proof -
  let ?k = "\<lambda>r. (position s (cursor_of r), id_of r)"
  let ?up = "sort_key ?k rows"
  have d: "distinct (map (position s \<circ> cursor_of) ?up)"
    using assms by (simp add: distinct_map)
  have "sorted_wrt (\<lambda>a b. ?k a \<le> ?k b) ?up" using sorted_sort_key[of ?k rows] by (simp add: sorted_map)
  have up: "sorted_wrt (\<lambda>a b. position s (cursor_of a) < position s (cursor_of b)) ?up"
    unfolding sorted_wrt_iff_nth_less
  proof (intro allI impI)
    fix i j
    assume ij: "i < j" "j < length ?up"
    then have "?k (?up ! i) \<le> ?k (?up ! j)" using \<open>sorted_wrt (\<lambda>a b. ?k a \<le> ?k b) ?up\<close> sorted_wrt_nth_less by blast
    from fst_mono[OF this] have "position s (cursor_of (?up ! i)) \<le> position s (cursor_of (?up ! j))" by simp
    moreover have "position s (cursor_of (?up ! i)) \<noteq> position s (cursor_of (?up ! j))"
      using nth_eq_iff_index_eq[OF d, of i j] ij by simp
    ultimately show "position s (cursor_of (?up ! i)) < position s (cursor_of (?up ! j))" by simp
  qed
  show ?thesis
    using up by (cases "os_dir s") (simp_all add: in_order_def keyset_holds_def sorted_wrt_rev)
qed

text \<open>One page of a walk: what is left past it is what is past its last row.\<close>

lemma list_page_cases:
  assumes "page_table_ok s cursor_of t" "1 \<le> limit"
    and xs_def: "xs = in_order s cursor_of id_of (filter (\<lambda>r. past s after (cursor_of r)) t)"
  shows "length xs \<le> nat limit \<and> list_page s cursor_of id_of after limit t = (xs, None)
    \<or> nat limit < length xs \<and> list_page s cursor_of id_of after limit t
        = (take (nat limit) xs, Some (cursor_at cursor_of s (last (take (nat limit) xs))))"
proof -
  have q: "query_page s cursor_of id_of after (limit + 1) t = take (Suc (nat limit)) xs"
    using assms(2) by (simp add: query_page_def xs_def past_def nat_add_distrib)
  show ?thesis
    unfolding list_page_def q using assms(2) by (cases "length xs \<le> nat limit") (auto simp: split_page_def Let_def min_def)
qed

lemma page_strict:
  assumes "page_table_ok s cursor_of t"
  shows "strictly s cursor_of (in_order s cursor_of id_of (filter P t))"
  using assms by (intro in_order_strict) (simp add: page_table_ok_def distinct_map_filter)

lemma strict_split:
  assumes "strictly s cursor_of xs" "0 < n" "n < length xs"
  shows "\<forall>r \<in> set (take n xs). r \<noteq> last (take n xs) \<longrightarrow> keyset_holds s (cursor_of r) (cursor_of (last (take n xs)))"
    "\<forall>r \<in> set (drop n xs). keyset_holds s (cursor_of (last (take n xs))) (cursor_of r)"
proof -
  let ?t = "take n xs"
  have ne: "?t \<noteq> []" using assms(2,3) by (cases xs) auto
  have t: "?t = butlast ?t @ [last ?t]" using ne by simp
  have "strictly s cursor_of (?t @ drop n xs)" using assms(1) by simp
  then have "strictly s cursor_of ?t" "\<forall>a \<in> set ?t. \<forall>b \<in> set (drop n xs). keyset_holds s (cursor_of a) (cursor_of b)"
    unfolding sorted_wrt_append by blast+
  then show "\<forall>r \<in> set (drop n xs). keyset_holds s (cursor_of (last ?t)) (cursor_of r)" using last_in_set[OF ne] by blast
  have "strictly s cursor_of (butlast ?t @ [last ?t])" using \<open>strictly s cursor_of ?t\<close> t by simp
  then have "\<forall>a \<in> set (butlast ?t). keyset_holds s (cursor_of a) (cursor_of (last ?t))" by (simp add: sorted_wrt_append)
  moreover have "set ?t = insert (last ?t) (set (butlast ?t))" by (subst t) simp
  ultimately show "\<forall>r \<in> set ?t. r \<noteq> last ?t \<longrightarrow> keyset_holds s (cursor_of r) (cursor_of (last ?t))" by blast
qed

text \<open>A page that was cut: the pages that follow it come after it, and a row it left out is past its cursor.\<close>

lemma page_then_rest:
  assumes "strictly s cursor_of xs" "\<forall>r \<in> set xs. past s after (cursor_of r)" "0 < n" "n < length xs" "strictly s cursor_of (concat ps)"
    and "\<forall>r \<in> set (concat ps). past s (Some (cursor_at cursor_of s (last (take n xs)))) (cursor_of r)"
  shows "strictly s cursor_of (concat (take n xs # ps)) \<and> (\<forall>r \<in> set (concat (take n xs # ps)). past s after (cursor_of r))"
proof
  let ?l = "last (take n xs)"
  note sp = strict_split[OF assms(1,3,4)]
  have "take n xs \<noteq> []" using assms(3,4) by (cases xs) auto
  then have l: "past s after (cursor_of ?l)" using assms(2) in_set_takeD[OF last_in_set] by blast
  have rest: "keyset_holds s (cursor_of ?l) (cursor_of r)" if "r \<in> set (concat ps)" for r
    using bspec[OF assms(6) that] by (simp only: past_def option.case cursor_at_def keyset_order)
  have "keyset_holds s (cursor_of a) (cursor_of b)" if "a \<in> set (take n xs)" "b \<in> set (concat ps)" for a b
    using sp(1) rest[OF that(2)] that(1) keyset_trans by metis
  then show "strictly s cursor_of (concat (take n xs # ps))"
    unfolding concat.simps sorted_wrt_append using assms(5) sorted_wrt_take[OF assms(1)] by blast
  have "past s after (cursor_of r)" if "r \<in> set (concat ps)" for r
    using rest[OF that] l by (auto simp: past_def intro: keyset_trans split: option.splits)
  moreover have "past s after (cursor_of r)" if "r \<in> set (take n xs)" for r
    using bspec[OF assms(2) in_set_takeD[OF that]] .
  ultimately show "\<forall>r \<in> set (concat (take n xs # ps)). past s after (cursor_of r)"
    unfolding concat.simps set_append by blast
qed

lemma left_out_past:
  assumes "strictly s cursor_of xs" "0 < n" "n < length xs" "r \<in> set xs" "r \<notin> set (take n xs)"
  shows "past s (Some (cursor_at cursor_of s (last (take n xs)))) (cursor_of r)"
proof -
  have "r \<in> set (drop n xs)" using assms(4,5) by (metis Un_iff append_take_drop_id set_append)
  then show ?thesis using strict_split(2)[OF assms(1-3)] by (simp add: past_def cursor_at_def)
qed

lemma walk_open_correct:
  assumes "\<forall>t \<in> set tables. page_table_ok s cursor_of t" "1 \<le> limit" "walk_open s cursor_of id_of limit tables after = (pages, fin)"
  shows "strictly s cursor_of (concat pages) \<and> (\<forall>r \<in> set (concat pages). past s after (cursor_of r)) \<and> (\<forall>p \<in> set pages. int (length p) \<le> limit)
    \<and> (fin \<longrightarrow> (\<forall>r. past s after (cursor_of r) \<longrightarrow> (\<forall>t \<in> set tables. r \<in> set t) \<longrightarrow> r \<in> set (concat pages)))"
  using assms(1,3)
proof (induction tables arbitrary: after pages fin)
  case (Cons t tables)
  let ?xs = "in_order s cursor_of id_of (filter (\<lambda>r. past s after (cursor_of r)) t)"
  have ok: "page_table_ok s cursor_of t" and tabs: "\<forall>t \<in> set tables. page_table_ok s cursor_of t" using Cons.prems(1) by simp_all
  have strict: "strictly s cursor_of ?xs" by (rule page_strict[OF ok])
  from list_page_cases[OF ok assms(2) refl, of id_of after] show ?case
  proof (elim disjE conjE)
    assume "length ?xs \<le> nat limit" "list_page s cursor_of id_of after limit t = (?xs, None)"
    with Cons.prems(2) assms(2) strict show ?thesis by auto
  next
    let ?t = "take (nat limit) ?xs"
    let ?c = "Some (cursor_at cursor_of s (last ?t))"
    assume len: "nat limit < length ?xs" and page: "list_page s cursor_of id_of after limit t = (?t, ?c)"
    obtain ps where w: "walk_open s cursor_of id_of limit tables ?c = (ps, fin)" and pages: "pages = ?t # ps"
      using Cons.prems(2) page by (auto simp: Let_def split: prod.splits)
    have ih: "strictly s cursor_of (concat ps)" "\<forall>r \<in> set (concat ps). past s ?c (cursor_of r)" "\<forall>p \<in> set ps. int (length p) \<le> limit"
      "\<And>r. fin \<Longrightarrow> past s ?c (cursor_of r) \<Longrightarrow> \<forall>t \<in> set tables. r \<in> set t \<Longrightarrow> r \<in> set (concat ps)"
      using Cons.IH[OF tabs w] by blast+
    have n0: "0 < nat limit" using assms(2) by simp
    have xs: "\<forall>r \<in> set ?xs. past s after (cursor_of r)" by simp
    have "r \<in> set (concat pages)" if "fin" "past s after (cursor_of r)" "\<forall>t' \<in> set (t # tables). r \<in> set t'" for r
    proof (cases "r \<in> set ?t")
      case False
      from left_out_past[OF strict n0 len _ False] ih(4)[OF that(1)] that have "r \<in> set (concat ps)" by simp
      then show ?thesis by (simp add: pages)
    qed (simp add: pages)
    moreover have "\<forall>p \<in> set pages. int (length p) \<le> limit" using ih(3) assms(2) pages by simp
    ultimately show ?thesis using page_then_rest[OF strict xs n0 len ih(1,2)] unfolding pages by blast
  qed
qed simp

lemma open_minted:
  assumes "engine_ok env" "CHR '':'' \<notin> set (os_name s)" "in_i64 (cu_seq (cursor_of r))"
  shows "open_cursor env tenant s (Some (cursor_encode env tenant (cursor_at cursor_of s r))) = Inr (Some (cursor_at cursor_of s r))"
  using decode_encode[OF assms(1), of "cursor_at cursor_of s r" tenant tenant] assms(2,3)
  by (simp add: open_cursor_def cursor_at_def with_order_def require_order_def)

lemma walk_eq:
  assumes "engine_ok env" "CHR '':'' \<notin> set (os_name s)" "1 \<le> limit"
  shows "\<forall>t \<in> set tables. page_table_ok s cursor_of t \<Longrightarrow> open_cursor env tenant s raw = Inr after
    \<Longrightarrow> walk env tenant s cursor_of id_of limit tables raw = Inr (walk_open s cursor_of id_of limit tables after)"
proof (induction tables arbitrary: raw after)
  case (Cons t tables)
  let ?xs = "in_order s cursor_of id_of (filter (\<lambda>r. past s after (cursor_of r)) t)"
  have ok: "page_table_ok s cursor_of t" and tabs: "\<forall>t \<in> set tables. page_table_ok s cursor_of t" using Cons.prems(1) by simp_all
  from list_page_cases[OF ok assms(3) refl, of id_of after] show ?case
  proof (elim disjE conjE)
    assume "list_page s cursor_of id_of after limit t = (?xs, None)"
    with Cons.prems(2) show ?thesis by simp
  next
    let ?r = "last (take (nat limit) ?xs)"
    assume len: "nat limit < length ?xs" and page: "list_page s cursor_of id_of after limit t = (take (nat limit) ?xs, Some (cursor_at cursor_of s ?r))"
    have "take (nat limit) ?xs \<noteq> []" using assms(3) len by (cases ?xs) auto
    then have "?r \<in> set ?xs" using in_set_takeD[OF last_in_set] by blast
    then have "in_i64 (cu_seq (cursor_of ?r))" using ok by (simp add: page_table_ok_def)
    from Cons.IH[OF tabs open_minted[where cursor_of = cursor_of and r = ?r, OF assms(1,2) this]] show ?thesis
      using Cons.prems(2) page by (simp split: prod.splits)
  qed
qed simp

text \<open>C33. Paging is complete and repeats nothing, whatever happens to the table between two calls: following \<open>next_cursor\<close> never
  fails, the rows of all pages are in strict order of their position, a page is never longer than the limit, and when the
  last page was reached every row that was in the table throughout has been returned.\<close>

theorem walk_returns_all:
  assumes "engine_ok env" "CHR '':'' \<notin> set (os_name s)" "1 \<le> limit" "\<forall>t \<in> set tables. page_table_ok s cursor_of t"
  shows "\<exists>pages fin. walk env tenant s cursor_of id_of limit tables None = Inr (pages, fin)
    \<and> strictly s cursor_of (concat pages) \<and> (\<forall>p \<in> set pages. int (length p) \<le> limit)
    \<and> (fin \<longrightarrow> (\<forall>r. (\<forall>t \<in> set tables. r \<in> set t) \<longrightarrow> r \<in> set (concat pages)))"
proof -
  obtain pages fin where w: "walk_open s cursor_of id_of limit tables None = (pages, fin)" by fastforce
  have "walk env tenant s cursor_of id_of limit tables None = Inr (pages, fin)"
    using walk_eq[OF assms(1-3) assms(4), of tenant None None] w by (simp add: open_cursor_def)
  with walk_open_correct[OF assms(4,3) w] show ?thesis by (simp add: past_def)
qed

lemma filter_past_split:
  assumes "strictly s cursor_of xs" "0 < n" "n < length xs"
  shows "filter (\<lambda>r. keyset_holds s (cursor_of (last (take n xs))) (cursor_of r)) xs = drop n xs"
proof -
  let ?P = "\<lambda>r. keyset_holds s (cursor_of (last (take n xs))) (cursor_of r)"
  have "\<not> ?P r" if "r \<in> set (take n xs)" for r
    using strict_split(1)[OF assms] that keyset_irrefl keyset_asym by metis
  then have "filter ?P (take n xs) = []" by (simp add: filter_empty_conv)
  moreover have "filter ?P (drop n xs) = drop n xs" using strict_split(2)[OF assms] by (simp add: filter_id_conv)
  moreover have "filter ?P xs = filter ?P (take n xs) @ filter ?P (drop n xs)" by (simp flip: filter_append)
  ultimately show ?thesis by simp
qed

lemma walk_open_static:
  assumes "page_table_ok s cursor_of t" "1 \<le> limit"
  shows "length (filter (\<lambda>r. past s after (cursor_of r)) t) \<le> n \<Longrightarrow>
    \<exists>pages. walk_open s cursor_of id_of limit (replicate (Suc n) t) after = (pages, True)
      \<and> concat pages = in_order s cursor_of id_of (filter (\<lambda>r. past s after (cursor_of r)) t)"
proof (induction n arbitrary: after)
  case 0
  then show ?case using list_page_cases[OF assms refl, of id_of after] by auto
next
  case (Suc n)
  let ?xs = "in_order s cursor_of id_of (filter (\<lambda>r. past s after (cursor_of r)) t)"
  from list_page_cases[OF assms refl, of id_of after] show ?case
  proof (elim disjE conjE)
    let ?m = "nat limit"
    let ?r = "last (take ?m ?xs)"
    let ?c = "Some (cursor_at cursor_of s ?r)"
    assume len: "?m < length ?xs" and page: "list_page s cursor_of id_of after limit t = (take ?m ?xs, ?c)"
    have strict: "strictly s cursor_of ?xs" by (rule page_strict[OF assms(1)])
    have m: "0 < ?m" using assms(2) by simp
    have "take ?m ?xs \<noteq> []" using m len by (cases ?xs) auto
    then have "?r \<in> set ?xs" using in_set_takeD[OF last_in_set] by blast
    then have r: "past s after (cursor_of ?r)" unfolding set_in_order by simp
    have "past s ?c (cursor_of x) \<longleftrightarrow> past s after (cursor_of x) \<and> keyset_holds s (cursor_of ?r) (cursor_of x)" for x
      using r by (cases after) (auto simp: past_def cursor_at_def intro: keyset_trans)
    then have f: "filter (\<lambda>x. past s ?c (cursor_of x)) t
        = filter (\<lambda>x. keyset_holds s (cursor_of ?r) (cursor_of x)) (filter (\<lambda>x. past s after (cursor_of x)) t)"
      by (simp add: conj_commute)
    have rest: "in_order s cursor_of id_of (filter (\<lambda>x. past s ?c (cursor_of x)) t) = drop ?m ?xs"
      unfolding f using in_order_filter[symmetric] filter_past_split[OF strict m len] by (rule trans)
    have "length (filter (\<lambda>x. past s ?c (cursor_of x)) t) = length (drop ?m ?xs)" using rest by (metis length_in_order)
    also have "\<dots> \<le> n" using Suc.prems m by simp
    finally obtain ps where "walk_open s cursor_of id_of limit (replicate (Suc n) t) ?c = (ps, True)" "concat ps = drop ?m ?xs"
      using Suc.IH[of ?c] rest by auto
    with page show ?thesis by (simp add: append_take_drop_id)
  qed auto
qed

text \<open>C34. On a table that does not change, the pages put together are the one ordered list of the query without a limit, and the
  last page is reached after at most one call more than there are rows.\<close>

theorem walk_is_the_query:
  assumes "engine_ok env" "CHR '':'' \<notin> set (os_name s)" "1 \<le> limit" "page_table_ok s cursor_of t"
  shows "\<exists>pages. walk env tenant s cursor_of id_of limit (replicate (Suc (length t)) t) None = Inr (pages, True)
    \<and> concat pages = in_order s cursor_of id_of t"
proof -
  obtain pages where w: "walk_open s cursor_of id_of limit (replicate (Suc (length t)) t) None = (pages, True)"
    "concat pages = in_order s cursor_of id_of (filter (\<lambda>r. past s None (cursor_of r)) t)"
    using walk_open_static[OF assms(4,3), of None "length t" id_of] by (auto simp: past_def)
  have "walk env tenant s cursor_of id_of limit (replicate (Suc (length t)) t) None = Inr (pages, True)"
    using walk_eq[OF assms(1-3), of "replicate (Suc (length t)) t" cursor_of tenant None None id_of] assms(4) w(1)
    by (simp add: open_cursor_def)
  with w(2) show ?thesis by (simp add: past_def)
qed

section \<open>An engine the theorems apply to\<close>

definition demo_encode :: "string \<Rightarrow> string" where
  "demo_encode s = concat (map (\<lambda>c. if c = CHR ''='' then ''!e'' else if c = CHR ''!'' then ''!!'' else [c]) s)"

fun demo_decode :: "string \<Rightarrow> string option" where
  "demo_decode [] = Some []"
| "demo_decode [c] = (if c = CHR ''!'' then None else Some [c])"
| "demo_decode (c # d # cs) =
     (if c = CHR ''!''
      then (if d = CHR ''e'' then map_option (Cons (CHR ''='')) (demo_decode cs)
        else if d = CHR ''!'' then map_option (Cons d) (demo_decode cs) else None)
      else map_option (Cons c) (demo_decode (d # cs)))"

definition demo_pages :: page_env where
  "demo_pages = \<lparr>pe_encode = demo_encode, pe_decode = demo_decode, pe_mac = map (\<lambda>b. b mod 256)\<rparr>"

lemma demo_decode_plain: "c \<noteq> CHR ''!'' \<Longrightarrow> demo_decode (c # cs) = map_option (Cons c) (demo_decode cs)"
  by (cases cs) simp_all

lemma demo_decode_encode: "demo_decode (demo_encode s) = Some s"
proof (induction s)
  case (Cons c s)
  then show ?case
    by (cases "c = CHR ''!''"; cases "c = CHR ''=''") (simp_all add: demo_encode_def demo_decode_plain)
qed (simp add: demo_encode_def)

lemma demo_encode_no_pad: "CHR ''='' \<notin> set (demo_encode s)"
  by (induction s) (auto simp: demo_encode_def)

lemma demo_engine: "engine_ok demo_pages"
  by (simp add: engine_ok_def demo_pages_def demo_decode_encode demo_encode_no_pad)

definition demo_cursor :: "int \<Rightarrow> cursor" where "demo_cursor n = \<lparr>cu_seq = n, cu_id = ''p'', cu_order = ''seq_asc''\<rparr>"

theorem cursor_roundtrip_witness:
  "cursor_decode demo_pages (cursor_encode demo_pages 7 (demo_cursor 5)) 7 = Inr (demo_cursor 5)"
  using cursor_roundtrip[OF demo_engine, of "demo_cursor 5" 7 7] by (simp add: demo_cursor_def in_i64_def i64_min_def i64_max_def)

lemma demo_table: "distinct ns \<Longrightarrow> \<forall>n \<in> set ns. in_i64 n \<Longrightarrow> page_table_ok (oe_default ChannelOrder) id (map demo_cursor ns)"
  by (auto simp: page_table_ok_def demo_cursor_def ChannelOrder_def single_order_def declared_def position_def distinct_map inj_on_def)

lemma seq_asc_no_colon: "CHR '':'' \<notin> set (os_name (oe_default ChannelOrder))"
  by (simp add: ChannelOrder_def single_order_def declared_def)

theorem walk_returns_all_witness:
  "\<exists>pages fin. walk demo_pages 7 (oe_default ChannelOrder) id cu_id 1 [map demo_cursor [1, 2], map demo_cursor [2, 3]] None = Inr (pages, fin)
    \<and> strictly (oe_default ChannelOrder) id (concat pages) \<and> list_all (\<lambda>p. int (length p) \<le> 1) pages
    \<and> (if fin then demo_cursor 2 \<in> set (concat pages) else True)"
proof -
  let ?tables = "[map demo_cursor [1, 2], map demo_cursor [2, 3]]"
  have ok: "\<forall>t \<in> set ?tables. page_table_ok (oe_default ChannelOrder) id t"
    using demo_table[of "[1, 2]"] demo_table[of "[2, 3]"] by (simp add: in_i64_def i64_min_def i64_max_def)
  have two: "\<forall>t \<in> set ?tables. demo_cursor 2 \<in> set t" by simp
  obtain pages fin where w: "walk demo_pages 7 (oe_default ChannelOrder) id cu_id 1 ?tables None = Inr (pages, fin)"
      "strictly (oe_default ChannelOrder) id (concat pages)" "\<forall>p \<in> set pages. int (length p) \<le> 1"
      "fin \<longrightarrow> (\<forall>r. (\<forall>t \<in> set ?tables. r \<in> set t) \<longrightarrow> r \<in> set (concat pages))"
    using walk_returns_all[OF demo_engine seq_asc_no_colon order_refl ok, of 7 cu_id] by (elim exE conjE) (rule that, assumption+)
  have "list_all (\<lambda>p. int (length p) \<le> 1) pages" using w(3) by (simp only: list_all_iff)
  moreover have "if fin then demo_cursor 2 \<in> set (concat pages) else True" using w(4) two by presburger
  ultimately show ?thesis using w(1,2) by (intro exI conjI)
qed

theorem walk_is_the_query_witness:
  "\<exists>pages. walk demo_pages 7 (oe_default ChannelOrder) id cu_id 2 (replicate (Suc (length (map demo_cursor [3, 1, 2]))) (map demo_cursor [3, 1, 2])) None
      = Inr (pages, True)
    \<and> concat pages = in_order (oe_default ChannelOrder) id cu_id (map demo_cursor [3, 1, 2])"
proof (rule walk_is_the_query[OF demo_engine seq_asc_no_colon])
  show "page_table_ok (oe_default ChannelOrder) id (map demo_cursor [3, 1, 2])"
    by (rule demo_table) (simp_all add: in_i64_def i64_min_def i64_max_def)
qed simp

end
