(* ===== verification/Channels.thy ===== *)
theory Channels
  imports Paging
begin

text \<open>
  Channels: \<open>channels.rs\<close>, the groups of \<open>sharing.rs\<close> that gate them, their statements in \<open>db.rs\<close>, the retention tick and
  \<open>admin.mesh.purge\<close>. The database is five tables: channels, groups with their members, posts in the order of insertion, and a stored
  position per channel and reader. The clock, the identifier that is minted, plans, tenants, triggers and the JSON printer and
  parser are arguments. Here every call is a function from the database it finds to the one it leaves: \<open>post_channel\<close> and \<open>read_channel\<close>
  are the calls as they run when nothing comes between their statements. The code takes the lock once per statement, and the theory
  \<open>ChannelCalls\<close> takes them apart.
\<close>

section \<open>Tables\<close>

record chan_tenant =
  ct_id :: int
  ct_namespace :: string
  ct_plan :: string
  ct_synthetic :: "string option"
  ct_source_class :: "string option"
  ct_mesh_frozen :: "string option"

record chan_plan =
  cp_channels_max :: int
  cp_posts_per_hour :: int
  cp_retention_days :: int

record chan_group =
  gr_id :: nat
  gr_owner :: int
  gr_name :: string
  gr_members :: "int list"

record channel =
  ch_id :: string
  ch_name :: string
  ch_group :: "nat option"
  ch_created_by :: "int option"
  ch_created_at :: string
  ch_closed_at :: "string option"
  ch_frozen_at :: "string option"

record chan_post =
  po_id :: string
  po_channel :: string
  po_seq :: int
  po_from :: int
  po_address :: string
  po_body :: string
  po_data :: "string option"
  po_synthetic :: "string option"
  po_source :: string
  po_at :: string
  po_ms :: int

record chan_db =
  cd_channels :: "channel list"
  cd_groups :: "chan_group list"
  cd_next_group :: nat
  cd_posts :: "chan_post list"
  cd_cursors :: "string \<times> int \<Rightarrow> int option"

record trigger_row =
  tr_id :: string
  tr_config :: string

record chan_env =
  ce_pages :: page_env
  ce_plan :: "string \<Rightarrow> chan_plan option"
  ce_tenant_plan :: "int \<Rightarrow> string option"
  ce_by_namespace :: "string \<Rightarrow> int option"
  ce_namespace :: "int \<Rightarrow> string option"
  ce_triggers :: "int \<Rightarrow> trigger_row list"
  ce_print :: "json \<Rightarrow> string"
  ce_parse :: "string \<Rightarrow> json option"

section \<open>Refusals and arguments\<close>

definition mesh_frozen :: app_error where
  "mesh_frozen = Structured ''mesh_frozen'' ''this tenant is frozen by the operator; messaging and posting are paused'' (mk_obj [])"

definition channel_not_found :: "string \<Rightarrow> app_error" where
  "channel_not_found key = Structured ''channel_not_found''
     ''no channel found for that key: tried group channel by id, and channel by id or name'' (mk_obj [(''key'', JStr key)])"

definition channel_closed :: app_error where
  "channel_closed = Structured ''channel_closed'' ''this channel is closed; posting is refused, reads still work'' (mk_obj [])"

definition channel_frozen :: app_error where
  "channel_frozen = Structured ''channel_frozen'' ''this channel is frozen; posting is refused, reads still work'' (mk_obj [])"

definition channel_quota_exceeded :: "string \<Rightarrow> int \<Rightarrow> app_error" where
  "channel_quota_exceeded limit_name limit_value =
     Structured ''quota_exceeded'' (''channel quota exceeded: '' @ limit_name @ '' (limit '' @ show_int limit_value @ '')'')
       (mk_obj [(''limit'', JStr limit_name), (''value'', JInt limit_value)])"

definition chan_arg_opt :: "json \<Rightarrow> string \<Rightarrow> string option" where
  "chan_arg_opt args name = Option.bind (json_get name args) as_str"

definition chan_arg :: "json \<Rightarrow> string \<Rightarrow> app_error + string" where
  "chan_arg args name =
     (case chan_arg_opt args name of
        Some s \<Rightarrow> Inr s
      | None \<Rightarrow> Inl (InvalidArgs (''missing required argument '' @ [CHR 0x27] @ name @ [CHR 0x27])))"

definition chan_flag :: "json \<Rightarrow> string \<Rightarrow> bool" where
  "chan_flag args name = (case Option.bind (json_get name args) as_bool of Some b \<Rightarrow> b | None \<Rightarrow> False)"

definition chan_plan_for :: "chan_env \<Rightarrow> chan_tenant \<Rightarrow> app_error + chan_plan" where
  "chan_plan_for env t =
     (case ce_plan env (ct_plan t) of
        Some p \<Rightarrow> Inr p
      | None \<Rightarrow> Inl (Internal (''tenant'' @ [CHR 0x27] @ ''s plan '' @ [CHR 0x27] @ ct_plan t @ [CHR 0x27] @ '' is not in the loaded plan catalog'')))"

definition parse_data_arg :: "chan_env \<Rightarrow> json \<Rightarrow> app_error + string option" where
  "parse_data_arg env args =
     (case arg_present ''data'' args of
        None \<Rightarrow> Inr None
      | Some v \<Rightarrow> if is_object v then Inr (Some (ce_print env v)) else Inl (InvalidArgs ''data: must be a JSON object''))"

section \<open>Groups\<close>

definition find_group :: "chan_db \<Rightarrow> int \<Rightarrow> string \<Rightarrow> chan_group option" where
  "find_group db owner name = find (\<lambda>g. gr_owner g = owner \<and> gr_name g = name) (cd_groups db)"

definition create_group :: "int \<Rightarrow> string \<Rightarrow> chan_db \<Rightarrow> chan_db" where
  "create_group owner name db =
     (if find_group db owner name \<noteq> None then db
      else db\<lparr>cd_groups := cd_groups db @ [\<lparr>gr_id = cd_next_group db, gr_owner = owner, gr_name = name, gr_members = []\<rparr>],
              cd_next_group := Suc (cd_next_group db)\<rparr>)"

definition update_members :: "nat \<Rightarrow> (int list \<Rightarrow> int list) \<Rightarrow> chan_db \<Rightarrow> chan_db" where
  "update_members i f db = db\<lparr>cd_groups := map (\<lambda>g. if gr_id g = i then g\<lparr>gr_members := f (gr_members g)\<rparr> else g) (cd_groups db)\<rparr>"

definition group_add_member :: "int \<Rightarrow> string \<Rightarrow> int \<Rightarrow> chan_db \<Rightarrow> bool \<times> chan_db" where
  "group_add_member owner name member db =
     (case find_group db owner name of
        None \<Rightarrow> (False, db)
      | Some g \<Rightarrow> (True, update_members (gr_id g) (\<lambda>ms. if member \<in> set ms then ms else ms @ [member]) db))"

definition group_remove_member :: "int \<Rightarrow> string \<Rightarrow> int \<Rightarrow> chan_db \<Rightarrow> bool \<times> chan_db" where
  "group_remove_member owner name member db =
     (case find_group db owner name of
        None \<Rightarrow> (False, db)
      | Some g \<Rightarrow> (True, update_members (gr_id g) (filter (\<lambda>m. m \<noteq> member)) db))"

definition is_group_member :: "chan_db \<Rightarrow> int \<Rightarrow> string \<Rightarrow> int \<Rightarrow> bool" where
  "is_group_member db owner name member \<longleftrightarrow> list_ex (\<lambda>g. gr_owner g = owner \<and> gr_name g = name \<and> member \<in> set (gr_members g)) (cd_groups db)"

definition group_create :: "chan_tenant \<Rightarrow> json \<Rightarrow> chan_db \<Rightarrow> (app_error + json) \<times> chan_db" where
  "group_create t args db =
     (case chan_arg args ''name'' of
        Inl e \<Rightarrow> (Inl e, db)
      | Inr name \<Rightarrow> (Inr (mk_obj [(''name'', JStr name), (''created'', JBool True)]), create_group (ct_id t) name db))"

text \<open>\<open>host.group.add\<close> and \<open>host.group.remove\<close> differ in the statement and the last field.\<close>

definition group_change :: "(int \<Rightarrow> string \<Rightarrow> int \<Rightarrow> chan_db \<Rightarrow> bool \<times> chan_db) \<Rightarrow> string \<Rightarrow> chan_env \<Rightarrow> chan_tenant \<Rightarrow> json \<Rightarrow> chan_db
    \<Rightarrow> (app_error + json) \<times> chan_db" where
  "group_change change word env t args db =
     (case chan_arg args ''name'' of
        Inl e \<Rightarrow> (Inl e, db)
      | Inr name \<Rightarrow>
     (case chan_arg args ''namespace'' of
        Inl e \<Rightarrow> (Inl e, db)
      | Inr ns \<Rightarrow>
     (case ce_by_namespace env ns of
        None \<Rightarrow> (Inl (TenantNotFound ns), db)
      | Some member \<Rightarrow>
          (case change (ct_id t) name member db of
             (False, db') \<Rightarrow> (Inl (GroupNotFound name), db')
           | (True, db') \<Rightarrow> (Inr (mk_obj [(''name'', JStr name), (''namespace'', JStr ns), (word, JBool True)]), db')))))"

definition group_add :: "chan_env \<Rightarrow> chan_tenant \<Rightarrow> json \<Rightarrow> chan_db \<Rightarrow> (app_error + json) \<times> chan_db" where
  "group_add = group_change group_add_member ''added''"

definition group_remove :: "chan_env \<Rightarrow> chan_tenant \<Rightarrow> json \<Rightarrow> chan_db \<Rightarrow> (app_error + json) \<times> chan_db" where
  "group_remove = group_change group_remove_member ''removed''"

definition list_groups :: "chan_env \<Rightarrow> int \<Rightarrow> chan_db \<Rightarrow> (string \<times> string list) list" where
  "list_groups env owner db =
     map (\<lambda>g. (gr_name g, sort (List.map_filter (ce_namespace env) (gr_members g))))
       (sort_key gr_name (filter (\<lambda>g. gr_owner g = owner) (cd_groups db)))"

definition group_list :: "chan_env \<Rightarrow> chan_tenant \<Rightarrow> chan_db \<Rightarrow> json" where
  "group_list env t db =
     mk_obj [(''groups'', JArr (map (\<lambda>(name, members). mk_obj [(''name'', JStr name), (''members'', JArr (map JStr members))])
       (list_groups env (ct_id t) db)))]"

section \<open>Opening and finding a channel\<close>

definition channel_open :: "string \<Rightarrow> string \<Rightarrow> int \<Rightarrow> string \<Rightarrow> chan_db \<Rightarrow> (string \<times> string \<times> string) \<times> chan_db" where
  "channel_open fresh now tenant name db =
     (case find (\<lambda>c. ch_name c = name) (cd_channels db) of
        Some c \<Rightarrow> ((ch_id c, name, ch_created_at c), db)
      | None \<Rightarrow> ((fresh, name, now),
          db\<lparr>cd_channels := cd_channels db @ [\<lparr>ch_id = fresh, ch_name = name, ch_group = None, ch_created_by = Some tenant, ch_created_at = now,
             ch_closed_at = None, ch_frozen_at = None\<rparr>]\<rparr>))"

definition group_of :: "chan_db \<Rightarrow> channel \<Rightarrow> chan_group option" where
  "group_of db c = Option.bind (ch_group c) (\<lambda>i. find (\<lambda>g. gr_id g = i) (cd_groups db))"

definition synthetic_name :: "nat \<Rightarrow> string" where
  "synthetic_name group_id = ''__group_channel__'' @ show_nat group_id"

definition channel_group_open :: "string \<Rightarrow> string \<Rightarrow> int \<Rightarrow> string \<Rightarrow> int \<Rightarrow> chan_db \<Rightarrow> (app_error + string \<times> string) \<times> chan_db" where
  "channel_group_open fresh now owner group_name channels_max db =
     (case find_group db owner group_name of
        None \<Rightarrow> (Inl (GroupNotFound group_name), db)
      | Some g \<Rightarrow>
     (case find (\<lambda>c. ch_group c = Some (gr_id g)) (cd_channels db) of
        Some c \<Rightarrow> (Inr (ch_id c, ch_created_at c), db)
      | None \<Rightarrow>
          (let used = int (length (filter (\<lambda>c. map_option gr_owner (group_of db c) = Some owner) (cd_channels db)))
           in if used \<ge> channels_max then (Inl (channel_quota_exceeded ''channels_max'' channels_max), db)
              else if list_ex (\<lambda>c. ch_name c = synthetic_name (gr_id g)) (cd_channels db)
              then (Inl (constraint_conflict 2067 ''UNIQUE constraint failed: channels.name''), db)
              else (Inr (fresh, now),
                db\<lparr>cd_channels := cd_channels db @ [\<lparr>ch_id = fresh, ch_name = synthetic_name (gr_id g), ch_group = Some (gr_id g), ch_created_by = Some owner,
                   ch_created_at = now, ch_closed_at = None, ch_frozen_at = None\<rparr>]\<rparr>))))"

datatype channel_kind = Group | Named

record resolved_channel =
  re_channel :: string
  re_kind :: channel_kind
  re_owner :: "int option"
  re_group :: "string option"
  re_closed :: "string option"
  re_frozen :: "string option"

definition channel_group_lookup :: "chan_db \<Rightarrow> string \<Rightarrow> (chan_group \<times> channel) option" where
  "channel_group_lookup db i =
     Option.bind (find (\<lambda>c. ch_id c = i) (cd_channels db)) (\<lambda>c. map_option (\<lambda>g. (g, c)) (group_of db c))"

definition channel_named_lookup :: "chan_db \<Rightarrow> string \<Rightarrow> channel option" where
  "channel_named_lookup db key = find (\<lambda>c. (ch_id c = key \<or> ch_name c = key) \<and> ch_group c = None) (cd_channels db)"

definition resolve_channel :: "chan_db \<Rightarrow> string \<Rightarrow> resolved_channel option" where
  "resolve_channel db key =
     (case channel_group_lookup db key of
        Some (g, c) \<Rightarrow> Some \<lparr>re_channel = key, re_kind = Group, re_owner = Some (gr_owner g), re_group = Some (gr_name g),
          re_closed = ch_closed_at c, re_frozen = ch_frozen_at c\<rparr>
      | None \<Rightarrow>
          map_option (\<lambda>c. \<lparr>re_channel = ch_id c, re_kind = Named, re_owner = ch_created_by c, re_group = None,
            re_closed = ch_closed_at c, re_frozen = ch_frozen_at c\<rparr>) (channel_named_lookup db key))"

definition channel_group_is_authorized :: "chan_db \<Rightarrow> resolved_channel \<Rightarrow> int \<Rightarrow> bool" where
  "channel_group_is_authorized db r tenant =
     (let owner = (case re_owner r of Some i \<Rightarrow> i | None \<Rightarrow> 0); name = (case re_group r of Some n \<Rightarrow> n | None \<Rightarrow> [])
      in tenant = owner \<or> is_group_member db owner name tenant)"

definition open_channel :: "chan_env \<Rightarrow> chan_tenant \<Rightarrow> json \<Rightarrow> string \<Rightarrow> string \<Rightarrow> chan_db \<Rightarrow> (app_error + json) \<times> chan_db" where
  "open_channel env t args fresh now db =
     (case chan_arg_opt args ''group'' of
        Some grp \<Rightarrow>
          (case chan_plan_for env t of
             Inl e \<Rightarrow> (Inl e, db)
           | Inr plan \<Rightarrow>
               (case channel_group_open fresh now (ct_id t) grp (cp_channels_max plan) db of
                  (Inl e, db') \<Rightarrow> (Inl e, db')
                | (Inr (i, created), db') \<Rightarrow>
                    (Inr (mk_obj [(''channel_id'', JStr i), (''group'', JStr grp), (''created_at'', JStr created)]), db')))
      | None \<Rightarrow>
          (case chan_arg args ''name'' of
             Inl e \<Rightarrow> (Inl e, db)
           | Inr name \<Rightarrow>
               if trim name = [] then (Inl (InvalidArgs ''name: must be non-empty''), db)
               else (case channel_open fresh now (ct_id t) name db of
                   ((i, n, created), db') \<Rightarrow>
                     (Inr (mk_obj [(''channel_id'', JStr i), (''name'', JStr n), (''created_at'', JStr created)]), db'))))"

section \<open>Posting\<close>

definition channel_posts :: "chan_db \<Rightarrow> string \<Rightarrow> chan_post list" where
  "channel_posts db i = filter (\<lambda>p. po_channel p = i) (cd_posts db)"

definition max_seq :: "chan_post list \<Rightarrow> int" where
  "max_seq ps = (case map po_seq ps of [] \<Rightarrow> 0 | x # xs \<Rightarrow> fold max xs x)"

definition channel_post_insert :: "chan_tenant \<Rightarrow> string \<Rightarrow> string \<Rightarrow> string option \<Rightarrow> string \<Rightarrow> string \<Rightarrow> int \<Rightarrow> chan_db \<Rightarrow> chan_post \<times> chan_db" where
  "channel_post_insert sender i body data fresh now now_ms db =
     (let p = \<lparr>po_id = fresh, po_channel = i, po_seq = max_seq (channel_posts db i) + 1, po_from = ct_id sender, po_address = ct_namespace sender,
        po_body = body, po_data = data, po_synthetic = ct_synthetic sender,
        po_source = (case ct_source_class sender of Some s \<Rightarrow> s | None \<Rightarrow> ''external''), po_at = now, po_ms = now_ms\<rparr>
      in (p, db\<lparr>cd_posts := cd_posts db @ [p]\<rparr>))"

definition count_channel_posts_since :: "chan_db \<Rightarrow> int \<Rightarrow> int \<Rightarrow> int" where
  "count_channel_posts_since db tenant since_ms =
     int (length (filter (\<lambda>p. list_ex (\<lambda>c. ch_id c = po_channel p \<and> ch_group c \<noteq> None) (cd_channels db) \<and> po_from p = tenant \<and> po_ms p \<ge> since_ms) (cd_posts db)))"

definition group_member_ids :: "chan_db \<Rightarrow> int \<Rightarrow> string \<Rightarrow> int list" where
  "group_member_ids db owner name = (case find_group db owner name of Some g \<Rightarrow> gr_members g | None \<Rightarrow> [])"

record trigger_fire =
  fi_member :: int
  fi_trigger :: string
  fi_message :: string
  fi_args :: string

definition config_str :: "chan_env \<Rightarrow> string \<Rightarrow> string \<Rightarrow> string option" where
  "config_str env config key = Option.bind (json_get key (case ce_parse env config of Some v \<Rightarrow> v | None \<Rightarrow> mk_obj [])) as_str"

text \<open>What is put on the trigger queue after a post, member by member; a failure there never fails the post.\<close>

definition fire_channel_message_triggers :: "chan_env \<Rightarrow> resolved_channel \<Rightarrow> chan_tenant \<Rightarrow> chan_post \<Rightarrow> chan_db \<Rightarrow> trigger_fire list" where
  "fire_channel_message_triggers env r poster p db =
     (let owner = (case re_owner r of Some i \<Rightarrow> i | None \<Rightarrow> 0); name = (case re_group r of Some n \<Rightarrow> n | None \<Rightarrow> []);
          envelope = mk_obj [(''message_id'', JStr (po_id p)), (''channel_id'', JStr (re_channel r)), (''seq'', JInt (po_seq p)),
            (''from'', JStr (ct_namespace poster)), (''body'', JStr (po_body p)),
            (''data'', opt_json id (Option.bind (po_data p) (ce_parse env))), (''created_at'', JStr (po_at p))]
      in concat (map (\<lambda>m. if m = ct_id poster \<or> ce_tenant_plan env m = None then []
           else List.map_filter (\<lambda>row.
               if config_str env (tr_config row) ''channel_id'' = Some (re_channel r)
                  \<and> (case config_str env (tr_config row) ''from'' of Some s \<Rightarrow> s = ct_namespace poster | None \<Rightarrow> True)
               then Some \<lparr>fi_member = m, fi_trigger = tr_id row, fi_message = po_id p, fi_args = ce_print env envelope\<rparr>
               else None) (ce_triggers env m)) (group_member_ids db owner name)))"

definition post_outcome_json :: "chan_post \<Rightarrow> string \<Rightarrow> json" where
  "post_outcome_json p from_address =
     mk_obj [(''post_id'', JStr (po_id p)), (''channel_id'', JStr (po_channel p)), (''seq'', JInt (po_seq p)), (''from_address'', JStr from_address),
       (''created_at'', JStr (po_at p))]"

definition post_group :: "chan_env \<Rightarrow> chan_tenant \<Rightarrow> resolved_channel \<Rightarrow> string \<Rightarrow> string option \<Rightarrow> string \<Rightarrow> string \<Rightarrow> int \<Rightarrow> chan_db
    \<Rightarrow> (app_error + json) \<times> trigger_fire list \<times> chan_db" where
  "post_group env t r body data fresh now now_ms db =
     (if \<not> channel_group_is_authorized db r (ct_id t) then (Inl (channel_not_found (re_channel r)), [], db)
      else if re_closed r \<noteq> None then (Inl channel_closed, [], db)
      else if re_frozen r \<noteq> None then (Inl channel_frozen, [], db)
      else (case chan_plan_for env t of
          Inl e \<Rightarrow> (Inl e, [], db)
        | Inr plan \<Rightarrow>
            if count_channel_posts_since db (ct_id t) (now_ms - 3600000) \<ge> cp_posts_per_hour plan
            then (Inl (channel_quota_exceeded ''channel_posts_per_hour'' (cp_posts_per_hour plan)), [], db)
            else (case channel_post_insert t (re_channel r) body data fresh now now_ms db of
                (p, db') \<Rightarrow> (Inr (post_outcome_json p (ct_namespace t)), fire_channel_message_triggers env r t p db', db'))))"

definition post_channel :: "chan_env \<Rightarrow> chan_tenant \<Rightarrow> json \<Rightarrow> string \<Rightarrow> string \<Rightarrow> int \<Rightarrow> chan_db \<Rightarrow> (app_error + json) \<times> trigger_fire list \<times> chan_db" where
  "post_channel env t args fresh now now_ms db =
     (if ct_mesh_frozen t \<noteq> None then (Inl mesh_frozen, [], db)
      else (case chan_arg args ''channel'' of
        Inl e \<Rightarrow> (Inl e, [], db)
      | Inr key \<Rightarrow>
     (case chan_arg args ''body'' of
        Inl e \<Rightarrow> (Inl e, [], db)
      | Inr body \<Rightarrow>
          if trim body = [] then (Inl (InvalidArgs ''body: must be non-empty''), [], db)
          else (case parse_data_arg env args of
              Inl e \<Rightarrow> (Inl e, [], db)
            | Inr data \<Rightarrow>
     (case resolve_channel db key of
        None \<Rightarrow> (Inl (channel_not_found key), [], db)
      | Some r \<Rightarrow>
          (case re_kind r of
             Group \<Rightarrow>
               if \<not> channel_group_is_authorized db r (ct_id t) then (Inl (channel_not_found key), [], db)
               else post_group env t r body data fresh now now_ms db
           | Named \<Rightarrow>
               if re_closed r \<noteq> None then (Inl channel_closed, [], db)
               else if re_frozen r \<noteq> None then (Inl channel_frozen, [], db)
               else (case channel_post_insert t (re_channel r) body data fresh now now_ms db of
                   (p, db') \<Rightarrow>
                     (Inr (mk_obj [(''post_id'', JStr (po_id p)), (''channel_id'', JStr (po_channel p)), (''seq'', JInt (po_seq p)), (''created_at'', JStr (po_at p))]),
                      [], db'))))))))"

section \<open>Reading\<close>

definition post_position :: "chan_post \<Rightarrow> cursor" where
  "post_position p = cursor_new (po_seq p) (po_id p)"

definition seq_order :: order_spec where
  "seq_order = oe_default ChannelOrder"

definition read_cursor_arg :: "page_env \<Rightarrow> int \<Rightarrow> json \<Rightarrow> app_error + int option" where
  "read_cursor_arg pages tenant args =
     (case json_get ''cursor'' args of
        Some (JStr raw) \<Rightarrow>
          (case decode_or_legacy pages raw tenant (\<lambda>raw. map_option (\<lambda>seq. with_order (os_name seq_order) (cursor_new seq [])) (parse_i64 raw)) of
             Inl e \<Rightarrow> Inl e
           | Inr c \<Rightarrow> (case require_order (os_name seq_order) c of Some e \<Rightarrow> Inl e | None \<Rightarrow> Inr (Some (cu_seq c))))
      | Some v \<Rightarrow> Inr (as_i64 v)
      | None \<Rightarrow> Inr None)"

definition channel_posts_after :: "string \<Rightarrow> int \<Rightarrow> int \<Rightarrow> chan_db \<Rightarrow> chan_post list" where
  "channel_posts_after i after_seq limit db =
     query_page seq_order post_position po_id (Some (cursor_new after_seq [])) limit (channel_posts db i)"

definition channel_cursor_ack :: "string \<Rightarrow> int \<Rightarrow> int \<Rightarrow> chan_db \<Rightarrow> chan_db" where
  "channel_cursor_ack i tenant seq db = db\<lparr>cd_cursors := (cd_cursors db)((i, tenant) \<mapsto> seq)\<rparr>"

definition channel_cursor_seq :: "string \<Rightarrow> int \<Rightarrow> chan_db \<Rightarrow> int option" where
  "channel_cursor_seq i tenant db = cd_cursors db (i, tenant)"

definition may_read :: "chan_db \<Rightarrow> resolved_channel \<Rightarrow> int \<Rightarrow> bool" where
  "may_read db r tenant = (case re_kind r of Group \<Rightarrow> channel_group_is_authorized db r tenant | Named \<Rightarrow> re_owner r = Some tenant)"

text \<open>The arguments of \<open>host.channel.read\<close> in the order they are looked at, then the page.\<close>

record read_request =
  rr_fields :: "string list option"
  rr_key :: string
  rr_limit :: resolved_limit
  rr_ack :: bool
  rr_cursor :: "int option"

definition read_request_of :: "chan_env \<Rightarrow> chan_tenant \<Rightarrow> json \<Rightarrow> app_error + read_request" where
  "read_request_of env t args =
     (case parse_fields ''host.channel.read'' args of
        Inl e \<Rightarrow> Inl e
      | Inr names \<Rightarrow>
     (case chan_arg args ''channel_id'' of
        Inl e \<Rightarrow> Inl e
      | Inr key \<Rightarrow>
     (case resolve_limit args 50 100 of
        Inl e \<Rightarrow> Inl e
      | Inr rl \<Rightarrow>
     (case resolve_order ChannelOrder args of
        Inl e \<Rightarrow> Inl e
      | Inr _ \<Rightarrow>
     (case read_cursor_arg (ce_pages env) (ct_id t) args of
        Inl e \<Rightarrow> Inl e
      | Inr c \<Rightarrow> Inr \<lparr>rr_fields = names, rr_key = key, rr_limit = rl, rr_ack = chan_flag args ''ack'', rr_cursor = c\<rparr>)))))"

definition read_page :: "chan_tenant \<Rightarrow> read_request \<Rightarrow> chan_db \<Rightarrow> (app_error + chan_post list \<times> cursor option) \<times> chan_db" where
  "read_page t q db =
     (case resolve_channel db (rr_key q) of
        None \<Rightarrow> (Inl (channel_not_found (rr_key q)), db)
      | Some r \<Rightarrow>
          if \<not> may_read db r (ct_id t) then (Inl (channel_not_found (rr_key q)), db)
          else
            (let i = re_channel r;
                 after = (case rr_cursor q of Some c \<Rightarrow> c | None \<Rightarrow> (case channel_cursor_seq i (ct_id t) db of Some s \<Rightarrow> s | None \<Rightarrow> 0));
                 limit = rl_limit (rr_limit q);
                 (rows, next_c) = split_page (channel_posts_after i after (limit + 1) db) limit (cursor_at post_position seq_order)
             in (Inr (rows, next_c), if rr_ack q \<and> rows \<noteq> [] then channel_cursor_ack i (ct_id t) (po_seq (last rows)) db else db)))"

definition post_row_json :: "chan_env \<Rightarrow> chan_post \<Rightarrow> json" where
  "post_row_json env p =
     mk_obj [(''post_id'', JStr (po_id p)), (''channel_id'', JStr (po_channel p)), (''seq'', JInt (po_seq p)), (''from_address'', JStr (po_address p)),
       (''body'', JStr (po_body p)), (''data'', opt_json id (Option.bind (po_data p) (ce_parse env))), (''created_at'', JStr (po_at p))]"

definition read_channel :: "chan_env \<Rightarrow> chan_tenant \<Rightarrow> json \<Rightarrow> chan_db \<Rightarrow> (app_error + json) \<times> chan_db" where
  "read_channel env t args db =
     (case read_request_of env t args of
        Inl e \<Rightarrow> (Inl e, db)
      | Inr q \<Rightarrow>
          (case read_page t q db of
             (Inl e, db') \<Rightarrow> (Inl e, db')
           | (Inr (rows, next_c), db') \<Rightarrow>
               (let out = finish_page (ce_pages env) (ct_id t) next_c [(''posts'', JArr (map (post_row_json env) rows))];
                    v = (case rr_fields q of Some names \<Rightarrow> project_page ''posts'' names (JObj out) | None \<Rightarrow> JObj out)
                in (Inr (note_clamp (rr_limit q) v), db'))))"

section \<open>Closing, freezing, retention\<close>

definition channel_set_flag :: "int \<Rightarrow> string \<Rightarrow> (channel \<Rightarrow> channel) \<Rightarrow> chan_db \<Rightarrow> bool \<times> chan_db" where
  "channel_set_flag owner i f db =
     (let hit = (\<lambda>c. ch_id c = i \<and> (case ch_group c of
             Some g \<Rightarrow> list_ex (\<lambda>gr. gr_id gr = g \<and> gr_owner gr = owner) (cd_groups db)
           | None \<Rightarrow> ch_created_by c = Some owner))
      in (list_ex hit (cd_channels db), db\<lparr>cd_channels := map (\<lambda>c. if hit c then f c else c) (cd_channels db)\<rparr>))"

definition close_channel :: "chan_tenant \<Rightarrow> json \<Rightarrow> string \<Rightarrow> chan_db \<Rightarrow> (app_error + json) \<times> chan_db" where
  "close_channel t args now db =
     (case chan_arg args ''channel_id'' of
        Inl e \<Rightarrow> (Inl e, db)
      | Inr i \<Rightarrow>
          (case channel_set_flag (ct_id t) i (\<lambda>c. c\<lparr>ch_closed_at := Some now\<rparr>) db of
             (False, db') \<Rightarrow> (Inl (channel_not_found i), db')
           | (True, db') \<Rightarrow> (Inr (mk_obj [(''channel_id'', JStr i), (''closed'', JBool True)]), db')))"

definition set_frozen :: "chan_tenant \<Rightarrow> json \<Rightarrow> bool \<Rightarrow> string \<Rightarrow> chan_db \<Rightarrow> (app_error + json) \<times> chan_db" where
  "set_frozen t args frozen now db =
     (case chan_arg args ''channel_id'' of
        Inl e \<Rightarrow> (Inl e, db)
      | Inr i \<Rightarrow>
          (case channel_set_flag (ct_id t) i (\<lambda>c. c\<lparr>ch_frozen_at := (if frozen then Some now else None)\<rparr>) db of
             (False, db') \<Rightarrow> (Inl (channel_not_found i), db')
           | (True, db') \<Rightarrow> (Inr (mk_obj [(''channel_id'', JStr i), (''frozen'', JBool frozen)]), db')))"

definition delete_channel_posts_older_than :: "string \<Rightarrow> int \<Rightarrow> chan_db \<Rightarrow> chan_db" where
  "delete_channel_posts_older_than i cutoff db = db\<lparr>cd_posts := filter (\<lambda>p. \<not> (po_channel p = i \<and> po_ms p < cutoff)) (cd_posts db)\<rparr>"

definition list_group_channels_with_owner_plan :: "chan_env \<Rightarrow> chan_db \<Rightarrow> (string \<times> string) list" where
  "list_group_channels_with_owner_plan env db =
     List.map_filter (\<lambda>c. map_option (\<lambda>plan. (ch_id c, plan)) (Option.bind (group_of db c) (\<lambda>g. ce_tenant_plan env (gr_owner g)))) (cd_channels db)"

definition retention_tick :: "chan_env \<Rightarrow> int \<Rightarrow> chan_db \<Rightarrow> chan_db" where
  "retention_tick env now_ms db =
     fold (\<lambda>(i, plan_name) d. case ce_plan env plan_name of
           Some plan \<Rightarrow> delete_channel_posts_older_than i (wrap_i64 (now_ms - sat_i64 (cp_retention_days plan * 86400000))) d
         | None \<Rightarrow> d) (list_group_channels_with_owner_plan env db) db"

definition min_seq :: "chan_post list \<Rightarrow> int option" where
  "min_seq ps = (case map po_seq ps of [] \<Rightarrow> None | x # xs \<Rightarrow> Some (fold min xs x))"

definition clamp_cursors :: "string \<Rightarrow> chan_db \<Rightarrow> chan_db" where
  "clamp_cursors i db =
     (case min_seq (channel_posts db i) of
        None \<Rightarrow> db
      | Some m \<Rightarrow> db\<lparr>cd_cursors := (\<lambda>(i', t). case cd_cursors db (i', t) of
            Some s \<Rightarrow> Some (if i' = i \<and> s < m then m else s) | None \<Rightarrow> None)\<rparr>)"

definition mesh_purge :: "int \<Rightarrow> bool \<Rightarrow> chan_db \<Rightarrow> int \<times> chan_db" where
  "mesh_purge cutoff dry_run db =
     (let removed = int (length (filter (\<lambda>p. po_ms p < cutoff) (cd_posts db)))
      in if dry_run then (removed, db)
         else (removed, fold (\<lambda>c. clamp_cursors (ch_id c)) (cd_channels db) (db\<lparr>cd_posts := filter (\<lambda>p. \<not> po_ms p < cutoff) (cd_posts db)\<rparr>)))"

text \<open>\<open>admin.mesh.purge\<close>; the messages it also removes are in other tables, their number is an argument.\<close>

definition admin_mesh_purge :: "(int \<Rightarrow> int) \<Rightarrow> json \<Rightarrow> int \<Rightarrow> chan_db \<Rightarrow> (app_error + json) \<times> chan_db" where
  "admin_mesh_purge messages args now_ms db =
     (case Option.bind (json_get ''older_than_days'' args) as_i64 of
        None \<Rightarrow> (Inl (InvalidArgs (''missing required argument '' @ [CHR 0x27] @ ''older_than_days'' @ [CHR 0x27])), db)
      | Some days \<Rightarrow>
          if days < 1 then (Inl (InvalidParams ''older_than_days must be at least 1''), db)
          else
            (let dry_run = (case Option.bind (json_get ''dry_run'' args) as_bool of Some b \<Rightarrow> b | None \<Rightarrow> True);
                 cutoff = wrap_i64 (now_ms - wrap_i64 (days * 86400000));
                 (removed, db') = mesh_purge cutoff dry_run db
             in (Inr (mk_obj [(''dry_run'', JBool dry_run), (''older_than_days'', JInt days), (''messages_removed'', JInt (messages cutoff)),
                   (''channel_posts_removed'', JInt removed)]), db')))"

text \<open>A database without any channel.\<close>

definition no_channels :: chan_db where
  "no_channels = \<lparr>cd_channels = [], cd_groups = [], cd_next_group = 1, cd_posts = [], cd_cursors = (\<lambda>_. None)\<rparr>"

section \<open>Positions\<close>

definition read_position :: "chan_db \<Rightarrow> string \<Rightarrow> int \<Rightarrow> int" where
  "read_position db i tenant = (case channel_cursor_seq i tenant db of Some s \<Rightarrow> s | None \<Rightarrow> 0)"

text \<open>Posts of a channel carry distinct positive numbers, the reader's position is not past the last of them, and it is what separates
  the delivered posts from the rest.\<close>

definition reader_ok :: "chan_db \<Rightarrow> string \<Rightarrow> int \<Rightarrow> chan_post list \<Rightarrow> bool" where
  "reader_ok db i tenant got \<longleftrightarrow>
     distinct (map po_seq (channel_posts db i)) \<and> (\<forall>p \<in> set (channel_posts db i). 0 < po_seq p)
     \<and> 0 \<le> read_position db i tenant \<and> read_position db i tenant \<le> max_seq (channel_posts db i)
     \<and> sorted_wrt (\<lambda>p q. po_seq p < po_seq q) got \<and> (\<forall>p \<in> set got. po_seq p \<le> read_position db i tenant)
     \<and> (\<forall>p \<in> set (channel_posts db i). po_seq p \<le> read_position db i tenant \<longrightarrow> p \<in> set got)"

lemma fold_max: "fold max xs (a :: int) = Max (insert a (set xs))"
  by (metis List.finite_set Max.set_eq_fold list.simps(15))

lemma max_seq_Nil [simp]: "max_seq [] = 0"
  by (simp add: max_seq_def)

lemma max_seq_ge: "p \<in> set ps \<Longrightarrow> po_seq p \<le> max_seq ps"
  by (cases ps) (auto simp: max_seq_def fold_max intro: Max_ge)

lemma max_seq_snoc: "max_seq ps < po_seq p \<Longrightarrow> 0 < po_seq p \<Longrightarrow> max_seq (ps @ [p]) = po_seq p"
  by (cases ps) (simp_all add: max_seq_def)

lemma max_seq_nonneg: "\<forall>p \<in> set ps. 0 < po_seq p \<Longrightarrow> 0 \<le> max_seq ps"
  by (cases ps) (auto simp: max_seq_def fold_max Max_ge_iff)

lemma channel_posts_cong: "cd_posts db' = cd_posts db \<Longrightarrow> channel_posts db' i = channel_posts db i"
  by (simp add: channel_posts_def)

lemma stored_cong: "cd_cursors db' = cd_cursors db \<Longrightarrow> read_position db' i t = read_position db i t"
  by (simp add: read_position_def channel_cursor_seq_def)

named_theorems chan_frame \<open>operations that leave posts and positions alone\<close>

lemma create_group_frame [chan_frame]: "cd_posts (create_group o' n db) = cd_posts db" "cd_cursors (create_group o' n db) = cd_cursors db"
  by (simp_all add: create_group_def)

lemma update_members_frame [chan_frame]: "cd_posts (update_members g f db) = cd_posts db" "cd_cursors (update_members g f db) = cd_cursors db"
  by (simp_all add: update_members_def)

lemma group_add_member_frame [chan_frame]:
  "cd_posts (snd (group_add_member o' n m db)) = cd_posts db" "cd_cursors (snd (group_add_member o' n m db)) = cd_cursors db"
  by (simp_all add: group_add_member_def chan_frame split: option.split)

lemma group_remove_member_frame [chan_frame]:
  "cd_posts (snd (group_remove_member o' n m db)) = cd_posts db" "cd_cursors (snd (group_remove_member o' n m db)) = cd_cursors db"
  by (simp_all add: group_remove_member_def chan_frame split: option.split)

lemma group_change_frame:
  assumes "\<And>o' n m. cd_posts (snd (f o' n m db)) = cd_posts db \<and> cd_cursors (snd (f o' n m db)) = cd_cursors db"
  shows "cd_posts (snd (group_change f w env t args db)) = cd_posts db" "cd_cursors (snd (group_change f w env t args db)) = cd_cursors db"
  using assms by (auto simp: group_change_def split: sum.split option.split prod.split bool.split) (metis snd_conv)+

lemma group_add_frame [chan_frame]:
  "cd_posts (snd (group_add env t args db)) = cd_posts db" "cd_cursors (snd (group_add env t args db)) = cd_cursors db"
  by (simp_all add: group_add_def group_change_frame chan_frame)

lemma group_remove_frame [chan_frame]:
  "cd_posts (snd (group_remove env t args db)) = cd_posts db" "cd_cursors (snd (group_remove env t args db)) = cd_cursors db"
  by (simp_all add: group_remove_def group_change_frame chan_frame)

lemma group_create_frame [chan_frame]:
  "cd_posts (snd (group_create t args db)) = cd_posts db" "cd_cursors (snd (group_create t args db)) = cd_cursors db"
  by (simp_all add: group_create_def chan_frame split: sum.split)

lemma channel_open_frame [chan_frame]:
  "cd_posts (snd (channel_open fresh now t n db)) = cd_posts db" "cd_cursors (snd (channel_open fresh now t n db)) = cd_cursors db"
  by (simp_all add: channel_open_def split: option.split)

lemma channel_group_open_frame [chan_frame]:
  "cd_posts (snd (channel_group_open fresh now o' n m db)) = cd_posts db" "cd_cursors (snd (channel_group_open fresh now o' n m db)) = cd_cursors db"
  by (simp_all add: channel_group_open_def Let_def split: option.split)

lemma pair_snd: "f = (a, b) \<Longrightarrow> b = snd f"
  by simp

lemma open_channel_frame [chan_frame]:
  "cd_posts (snd (open_channel env t args fresh now db)) = cd_posts db" "cd_cursors (snd (open_channel env t args fresh now db)) = cd_cursors db"
  using channel_group_open_frame[of fresh now "ct_id t" _ _ db] channel_open_frame[of fresh now "ct_id t" _ db]
  by (auto simp: open_channel_def split: option.splits sum.splits prod.splits dest!: pair_snd)

lemma channel_set_flag_frame [chan_frame]:
  "cd_posts (snd (channel_set_flag o' i f db)) = cd_posts db" "cd_cursors (snd (channel_set_flag o' i f db)) = cd_cursors db"
  by (simp_all add: channel_set_flag_def Let_def)

lemma close_channel_frame [chan_frame]:
  "cd_posts (snd (close_channel t args now db)) = cd_posts db" "cd_cursors (snd (close_channel t args now db)) = cd_cursors db"
  using channel_set_flag_frame[of "ct_id t" _ _ db]
  by (auto simp: close_channel_def split: sum.splits prod.splits bool.splits dest!: pair_snd)

lemma set_frozen_frame [chan_frame]:
  "cd_posts (snd (set_frozen t args b now db)) = cd_posts db" "cd_cursors (snd (set_frozen t args b now db)) = cd_cursors db"
  using channel_set_flag_frame[of "ct_id t" _ _ db]
  by (auto simp: set_frozen_def split: sum.splits prod.splits bool.splits dest!: pair_snd)

lemma channel_posts_insert:
  "channel_posts (snd (channel_post_insert t i' body data fresh now now_ms db)) i =
    (if i' = i then channel_posts db i @ [fst (channel_post_insert t i' body data fresh now now_ms db)] else channel_posts db i)"
  by (simp add: channel_posts_def channel_post_insert_def Let_def)

lemma insert_seq: "po_seq (fst (channel_post_insert t i body data fresh now now_ms db)) = max_seq (channel_posts db i) + 1"
  by (simp add: channel_post_insert_def Let_def)

lemma insert_cursors [chan_frame]: "cd_cursors (snd (channel_post_insert t i body data fresh now now_ms db)) = cd_cursors db"
  by (simp add: channel_post_insert_def Let_def)

lemma reader_ok_cong:
  "channel_posts db' i = channel_posts db i \<Longrightarrow> read_position db' i t = read_position db i t \<Longrightarrow> reader_ok db' i t got = reader_ok db i t got"
  by (simp add: reader_ok_def)

lemma reader_ok_insert:
  assumes "reader_ok db i tenant got"
  shows "reader_ok (snd (channel_post_insert t i' body data fresh now now_ms db)) i tenant got"
proof (cases "i' = i")
  case True
  let ?p = "fst (channel_post_insert t i body data fresh now now_ms db)"
  let ?m = "max_seq (channel_posts db i)"
  have old: "distinct (map po_seq (channel_posts db i))" "\<forall>p \<in> set (channel_posts db i). 0 < po_seq p"
      "0 \<le> read_position db i tenant" "read_position db i tenant \<le> ?m" "sorted_wrt (\<lambda>p q. po_seq p < po_seq q) got"
      "\<forall>p \<in> set got. po_seq p \<le> read_position db i tenant"
      "\<forall>p \<in> set (channel_posts db i). po_seq p \<le> read_position db i tenant \<longrightarrow> p \<in> set got"
    using assms by (simp_all add: reader_ok_def)
  have seq: "po_seq ?p = ?m + 1" by (rule insert_seq)
  have new: "\<forall>p \<in> set (channel_posts db i). po_seq p < po_seq ?p" using max_seq_ge by (fastforce simp: seq)
  have d: "distinct (map po_seq (channel_posts db i @ [?p]))" using old(1) new by auto
  have "max_seq (channel_posts db i @ [?p]) = ?m + 1" using old(3,4) by (simp add: max_seq_snoc seq)
  with d old seq show ?thesis
    unfolding reader_ok_def True channel_posts_insert stored_cong[OF insert_cursors] by simp
next
  case False
  then show ?thesis
    using assms by (subst reader_ok_cong[of _ i db]) (simp_all add: channel_posts_insert stored_cong[OF insert_cursors])
qed

definition thinned :: "string \<Rightarrow> chan_db \<Rightarrow> chan_db \<Rightarrow> bool" where
  "thinned i db db' \<longleftrightarrow> cd_cursors db' = cd_cursors db \<and> (\<exists>P. channel_posts db' i = filter P (channel_posts db i))"

lemma thinned_refl: "thinned i db db"
  by (auto simp: thinned_def intro: exI[of _ "\<lambda>_. True"])

lemma thinned_trans: "thinned i a b \<Longrightarrow> thinned i b c \<Longrightarrow> thinned i a c"
  by (force simp: thinned_def)

lemma thinned_delete: "thinned i db (delete_channel_posts_older_than i' c db)"
  by (auto simp: thinned_def delete_channel_posts_older_than_def channel_posts_def intro!: filter_cong
      exI[of _ "\<lambda>p. \<not> (po_channel p = i' \<and> po_ms p < c)"])

lemma thinned_fold: "(\<And>x d. thinned i d (f x d)) \<Longrightarrow> thinned i db (fold f xs db)"
  by (induction xs arbitrary: db) (auto intro: thinned_refl thinned_trans)

lemma thinned_retention: "thinned i db (retention_tick env now_ms db)"
  unfolding retention_tick_def by (rule thinned_fold) (auto simp: thinned_refl thinned_delete split: option.split)

lemma seq_order_simps: "os_dir seq_order = Asc" "os_key seq_order = UniqueInt" "os_name seq_order = ''seq_asc''"
  by (simp_all add: seq_order_def ChannelOrder_def single_order_def declared_def)

lemma position_post: "position seq_order (post_position p) = (po_seq p, [])" "position seq_order (cursor_new n i) = (n, [])"
  by (simp_all add: position_def seq_order_simps post_position_def cursor_new_def)

lemma keyset_post:
  "keyset_holds seq_order (cursor_new n i) (post_position p) \<longleftrightarrow> n < po_seq p"
  "keyset_holds seq_order (post_position p) (post_position q) \<longleftrightarrow> po_seq p < po_seq q"
  by (auto simp: keyset_holds_def seq_order_simps position_post less_prod_def)

definition unread :: "int \<Rightarrow> chan_post list \<Rightarrow> chan_post list" where
  "unread after ps = in_order seq_order post_position po_id (filter (\<lambda>p. after < po_seq p) ps)"

lemma set_unread [simp]: "set (unread after ps) = {p \<in> set ps. after < po_seq p}"
  by (auto simp: unread_def)

lemma unread_sorted:
  assumes "distinct (map po_seq ps)"
  shows "sorted_wrt (\<lambda>p q. po_seq p < po_seq q) (unread after ps)"
proof -
  have "map (position seq_order \<circ> post_position) xs = map (\<lambda>n. (n, [])) (map po_seq xs)" for xs by (simp add: position_post)
  moreover have "distinct (map po_seq (filter (\<lambda>p. after < po_seq p) ps))" using assms by (rule distinct_map_filter)
  ultimately have "distinct (map (position seq_order \<circ> post_position) (filter (\<lambda>p. after < po_seq p) ps))"
    by (simp only: distinct_map[of "\<lambda>n. (n, [])"]) (simp add: inj_on_def)
  from in_order_strict[OF this, of po_id] show ?thesis by (simp add: unread_def keyset_post)
qed

lemma split_page_rows: "fst (split_page (take (nat (limit + 1)) xs) limit f) = take (nat limit) xs"
  by (cases "0 \<le> limit") (auto simp: split_page_def Let_def nat_add_distrib min_def)

text \<open>What an authorised read returns: the unread posts from its position on, up to the limit.\<close>

lemma read_page_rows:
  assumes "fst (read_page t q db) = Inr (rows, next_c)"
  shows "\<exists>r. resolve_channel db (rr_key q) = Some r
    \<and> rows = take (nat (rl_limit (rr_limit q)))
        (unread (case rr_cursor q of Some c \<Rightarrow> c | None \<Rightarrow> read_position db (re_channel r) (ct_id t)) (channel_posts db (re_channel r)))
    \<and> snd (read_page t q db)
        = (if rr_ack q \<and> rows \<noteq> [] then channel_cursor_ack (re_channel r) (ct_id t) (po_seq (last rows)) db else db)"
proof -
  obtain r where r: "resolve_channel db (rr_key q) = Some r" "may_read db r (ct_id t)"
    using assms by (auto simp: read_page_def split: option.splits if_splits)
  let ?after = "case rr_cursor q of Some c \<Rightarrow> c | None \<Rightarrow> read_position db (re_channel r) (ct_id t)"
  let ?limit = "rl_limit (rr_limit q)"
  have after: "(case rr_cursor q of Some c \<Rightarrow> c | None \<Rightarrow> case channel_cursor_seq (re_channel r) (ct_id t) db of Some s \<Rightarrow> s | None \<Rightarrow> 0) = ?after"
    by (simp add: read_position_def split: option.split)
  have posts: "channel_posts_after (re_channel r) ?after (?limit + 1) db
      = take (nat (?limit + 1)) (unread ?after (channel_posts db (re_channel r)))"
    by (simp add: channel_posts_after_def query_page_def keyset_post unread_def)
  obtain rows' next' where s: "split_page (channel_posts_after (re_channel r) ?after (?limit + 1) db) ?limit
      (cursor_at post_position seq_order) = (rows', next')"
    by fastforce
  have "rows' = take (nat ?limit) (unread ?after (channel_posts db (re_channel r)))"
    using split_page_rows[of ?limit] s unfolding posts by (metis fst_conv)
  moreover have "rows' = rows" using assms r s by (simp add: read_page_def after Let_def)
  ultimately show ?thesis using r s by (simp add: read_page_def after Let_def)
qed

lemma read_page_refused: "fst (read_page t q db) = Inl e \<Longrightarrow> snd (read_page t q db) = db"
  by (auto simp: read_page_def Let_def split: option.splits if_splits prod.splits)

lemma read_channel_db: "snd (read_channel env t args db) = (case read_request_of env t args of Inl e \<Rightarrow> db | Inr q \<Rightarrow> snd (read_page t q db))"
  by (simp add: read_channel_def Let_def split: sum.split prod.split)

lemma ack_frame: "cd_posts (channel_cursor_ack i t s db) = cd_posts db"
  by (simp add: channel_cursor_ack_def)

lemma stored_ack: "read_position (channel_cursor_ack i' t s db) i tenant = (if i' = i \<and> t = tenant then s else read_position db i tenant)"
  by (simp add: channel_cursor_ack_def read_position_def channel_cursor_seq_def)

lemma read_page_nothing:
  assumes "resolve_channel db (rr_key q) = Some r" "may_read db r (ct_id t)" "rr_cursor q = None"
    and "\<forall>p \<in> set (channel_posts db (re_channel r)). po_seq p \<le> read_position db (re_channel r) (ct_id t)"
  shows "fst (read_page t q db) = Inr ([], None)"
proof -
  have "unread (read_position db (re_channel r) (ct_id t)) (channel_posts db (re_channel r)) = []"
    using set_unread[of "read_position db (re_channel r) (ct_id t)" "channel_posts db (re_channel r)"] assms(4) by (force simp flip: set_empty)
  then have "channel_posts_after (re_channel r) (read_position db (re_channel r) (ct_id t)) n db = []" for n
    by (simp add: channel_posts_after_def query_page_def keyset_post unread_def)
  then show ?thesis using assms(1-3) by (simp add: read_page_def Let_def read_position_def[symmetric] split_page_def)
qed

text \<open>C38. The numbers of a channel start again at 1 once retention has removed all of its posts, and a reader with a stored
  position never sees the post that then gets number 1: its next read returns an empty last page.\<close>

theorem retention_restarts_numbers:
  assumes "channel_posts (retention_tick env now_ms db) i = []" "1 \<le> read_position db i (ct_id reader)"
    and "channel_post_insert sender i body data fresh now later_ms (retention_tick env now_ms db) = (p, db')"
    and "resolve_channel db' (rr_key q) = Some r" "re_channel r = i" "may_read db' r (ct_id reader)" "rr_cursor q = None"
  shows "po_seq p = 1 \<and> channel_posts db' i = [p] \<and> fst (read_page reader q db') = Inr ([], None)"
proof -
  let ?d = "retention_tick env now_ms db"
  note ins = assms(3)[THEN arg_cong[where f = fst], simplified, symmetric] assms(3)[THEN arg_cong[where f = snd], simplified, symmetric]
  have one: "po_seq p = 1" using insert_seq[of sender i body data fresh now later_ms ?d] assms(1) by (simp add: ins(1))
  have posts: "channel_posts db' i = [p]"
    using channel_posts_insert[of sender i body data fresh now later_ms ?d i] assms(1) by (simp add: ins)
  have "cd_cursors db' = cd_cursors db"
    using thinned_retention[of i db env now_ms] insert_cursors[of sender i body data fresh now later_ms ?d] by (simp add: ins thinned_def)
  then have "1 \<le> read_position db' i (ct_id reader)" using assms(2) stored_cong[of db' db] by simp
  then have "fst (read_page reader q db') = Inr ([], None)"
    using read_page_nothing[OF assms(4,6,7)] one by (simp add: assms(5) posts)
  with one posts show ?thesis by blast
qed

section \<open>Purging\<close>

lemma min_seq_in: "min_seq ps = Some m \<Longrightarrow> \<exists>p \<in> set ps. po_seq p = m"
proof -
  have "fold min xs (a :: int) \<in> set (a # xs)" for a xs
    by (induction xs arbitrary: a) (auto simp: min_def split: if_splits)
  moreover assume "min_seq ps = Some m"
  ultimately have "m \<in> set (map po_seq ps)" by (metis (no_types, lifting) list.case_eq_if list.collapse min_seq_def option.distinct(1) option.inject)
  then show ?thesis by auto
qed

lemma clamp_posts [simp]: "cd_posts (clamp_cursors i db) = cd_posts db"
  by (simp add: clamp_cursors_def split: option.split)

lemma clamp_fold_posts: "cd_posts (fold (\<lambda>c. clamp_cursors (ch_id c)) cs db) = cd_posts db"
  by (induction cs arbitrary: db) simp_all

lemma clamp_cursor:
  assumes "min_seq (channel_posts db i) = Some m"
  shows "cd_cursors (clamp_cursors i' db) (i, t) = (if i' = i then map_option (max m) (cd_cursors db (i, t)) else cd_cursors db (i, t))"
  using assms by (auto simp: clamp_cursors_def split: option.split)

lemma clamp_fold_cursor:
  "min_seq (channel_posts db i) = Some m \<Longrightarrow>
    cd_cursors (fold (\<lambda>c. clamp_cursors (ch_id c)) cs db) (i, t)
      = (if i \<in> ch_id ` set cs then map_option (max m) (cd_cursors db (i, t)) else cd_cursors db (i, t))"
proof (induction cs arbitrary: db)
  case (Cons c cs)
  have m: "min_seq (channel_posts (clamp_cursors (ch_id c) db) i) = Some m" using Cons.prems by (simp add: channel_posts_def)
  show ?case
    using Cons.IH[OF m] clamp_cursor[OF Cons.prems, of "ch_id c" t] by (cases "cd_cursors db (i, t)") auto
qed simp

lemma purge_cursor:
  assumes "snd (mesh_purge cutoff False db) = db'" "min_seq (channel_posts db' i) = Some m"
    and "i \<in> ch_id ` set (cd_channels db)" "cd_cursors db (i, t) = Some s"
  shows "read_position db' i t = max m s"
proof -
  let ?d = "db\<lparr>cd_posts := filter (\<lambda>p. \<not> po_ms p < cutoff) (cd_posts db)\<rparr>"
  have db': "db' = fold (\<lambda>c. clamp_cursors (ch_id c)) (cd_channels db) ?d" using assms(1) by (simp add: mesh_purge_def Let_def)
  have "min_seq (channel_posts ?d i) = Some m"
    using assms(2) channel_posts_cong[OF clamp_fold_posts, of "cd_channels db" ?d i] by (simp only: db')
  from clamp_fold_cursor[OF this, of "cd_channels db" t] show ?thesis
    using assms(3,4) by (simp add: read_position_def channel_cursor_seq_def db')
qed

text \<open>C39. After a purge, a reader whose position was below the first surviving post does not get that post: the purge moves the position onto
  its number, and a read without a cursor returns only posts past the position.\<close>

theorem purge_skips_first_survivor:
  assumes "snd (mesh_purge cutoff False db) = db'" "min_seq (channel_posts db' i) = Some m"
    and "i \<in> ch_id ` set (cd_channels db)" "cd_cursors db (i, ct_id reader) = Some s" "s < m"
    and "resolve_channel db' (rr_key q) = Some r" "re_channel r = i" "rr_cursor q = None" "fst (read_page reader q db') = Inr (rows, next_c)"
  shows "(\<exists>p \<in> set (channel_posts db' i). s < po_seq p \<and> po_seq p = m) \<and> (\<forall>p \<in> set rows. m < po_seq p)"
proof -
  have "read_position db' i (ct_id reader) = m" using purge_cursor[OF assms(1-4)] assms(5) by simp
  moreover obtain n where "rows = take n (unread (read_position db' i (ct_id reader)) (channel_posts db' i))"
    using read_page_rows[OF assms(9)] assms(6-8) by auto
  ultimately have "\<forall>p \<in> set rows. m < po_seq p" by (auto dest!: in_set_takeD)
  then show ?thesis using min_seq_in[OF assms(2)] assms(5) by blast
qed

section \<open>Outsiders\<close>

lemma resolve_no_channels: "resolve_channel no_channels key = None"
  by (simp add: resolve_channel_def channel_group_lookup_def channel_named_lookup_def no_channels_def)

lemma read_request_key: "read_request_of env t args = Inr q \<Longrightarrow> chan_arg_opt args ''channel_id'' = Some (rr_key q)"
  by (auto simp: read_request_of_def chan_arg_def split: sum.splits option.splits)

lemma read_request_no_cursor: "json_get ''cursor'' args = None \<Longrightarrow> read_request_of env t args = Inr q \<Longrightarrow> rr_cursor q = None"
  by (auto simp: read_request_of_def read_cursor_arg_def split: sum.splits)

text \<open>C37. To a tenant that is neither owner nor member, a group channel does not exist: reading and posting under its key give the
  answer they give on a database without any channel, nothing fires and nothing changes.\<close>

theorem outsider_learns_nothing:
  assumes "\<forall>r. resolve_channel db key = Some r \<longrightarrow> re_kind r = Group \<and> \<not> channel_group_is_authorized db r (ct_id t)"
    and "chan_arg_opt args ''channel_id'' \<in> {None, Some key}" "chan_arg_opt args ''channel'' \<in> {None, Some key}"
  shows "read_channel env t args db = (fst (read_channel env t args no_channels), db)
    \<and> post_channel env t args fresh now now_ms db = (fst (post_channel env t args fresh now now_ms no_channels), [], db)"
proof
  have refused: "read_page t q d = (Inl (channel_not_found (rr_key q)), d)" if "rr_key q = key" "d = db \<or> d = no_channels" for q d
    using that assms(1) by (cases "resolve_channel db key") (auto simp: read_page_def may_read_def resolve_no_channels)
  show "read_channel env t args db = (fst (read_channel env t args no_channels), db)"
  proof (cases "read_request_of env t args")
    case (Inr q)
    then have "rr_key q = key" using assms(2) read_request_key[OF Inr] by simp
    then show ?thesis using refused[of q db] refused[of q no_channels] by (simp add: read_channel_def Inr)
  qed (simp add: read_channel_def)
  show "post_channel env t args fresh now now_ms db = (fst (post_channel env t args fresh now now_ms no_channels), [], db)"
  proof (cases "chan_arg_opt args ''channel''")
    case (Some k)
    then have "k = key" using assms(3) by simp
    then show ?thesis
      using assms(1) Some by (cases "resolve_channel db key")
        (simp_all add: post_channel_def chan_arg_def resolve_no_channels split: sum.split option.split)
  qed (simp add: post_channel_def chan_arg_def)
qed

text \<open>The name a group channel is stored under can be taken by anyone who opens a named channel: the owner's open then fails, and the
  other way round the id of the group's channel is given out.\<close>

lemma find_snoc_case: "find P (xs @ [x]) = (case find P xs of Some y \<Rightarrow> Some y | None \<Rightarrow> if P x then Some x else None)"
  by (induction xs) simp_all

lemma synthetic_name_taken:
  assumes "find_group db owner grp = Some g" "find (\<lambda>c. ch_group c = Some (gr_id g)) (cd_channels db) = None"
    and "int (length (filter (\<lambda>c. map_option gr_owner (group_of db c) = Some owner) (cd_channels db))) < m"
  shows "fst (channel_group_open f2 n2 owner grp m (snd (channel_open f1 n1 stranger (synthetic_name (gr_id g)) db)))
    = Inl (constraint_conflict 2067 ''UNIQUE constraint failed: channels.name'')"
proof (cases "find (\<lambda>c. ch_name c = synthetic_name (gr_id g)) (cd_channels db)")
  case None
  then show ?thesis
    using assms by (simp add: channel_open_def channel_group_open_def find_group_def group_of_def find_snoc_case)
next
  case (Some c)
  then have "list_ex (\<lambda>c. ch_name c = synthetic_name (gr_id g)) (cd_channels db)" by (auto simp: find_Some_iff list_ex_iff)
  with Some show ?thesis using assms by (simp add: channel_open_def channel_group_open_def)
qed

section \<open>An instance\<close>

definition demo_chan_env :: chan_env where
  "demo_chan_env = \<lparr>ce_pages = demo_pages, ce_plan = (\<lambda>_. Some \<lparr>cp_channels_max = 2, cp_posts_per_hour = 1, cp_retention_days = 1\<rparr>),
     ce_tenant_plan = (\<lambda>_. Some ''free''), ce_by_namespace = (\<lambda>_. None), ce_namespace = (\<lambda>_. None),
     ce_triggers = (\<lambda>_. []), ce_print = (\<lambda>_. []), ce_parse = (\<lambda>_. None)\<rparr>"

definition demo_reader :: "int \<Rightarrow> chan_tenant" where
  "demo_reader n = \<lparr>ct_id = n, ct_namespace = ''t'', ct_plan = ''free'', ct_synthetic = None, ct_source_class = None, ct_mesh_frozen = None\<rparr>"

definition demo_read :: json where "demo_read = mk_obj [(''channel_id'', JStr ''c''), (''ack'', JBool True)]"

definition demo_post :: json where "demo_post = mk_obj [(''channel'', JStr ''c''), (''body'', JStr ''hi'')]"

definition demo_row :: "int \<Rightarrow> int \<Rightarrow> chan_post" where
  "demo_row n ms = \<lparr>po_id = ''p'', po_channel = ''c'', po_seq = n, po_from = 2, po_address = ''t'', po_body = ''hi'', po_data = None,
     po_synthetic = None, po_source = ''external'', po_at = ''d'', po_ms = ms\<rparr>"

text \<open>A channel of tenant 1 with two posts, the first read.\<close>

definition demo_db :: "nat option \<Rightarrow> chan_db" where
  "demo_db g = \<lparr>cd_channels = [\<lparr>ch_id = ''c'', ch_name = ''n'', ch_group = g, ch_created_by = Some 1, ch_created_at = ''d'', ch_closed_at = None, ch_frozen_at = None\<rparr>],
     cd_groups = [\<lparr>gr_id = 1, gr_owner = 1, gr_name = ''g'', gr_members = [2]\<rparr>], cd_next_group = 2,
     cd_posts = [demo_row 1 0, demo_row 2 9], cd_cursors = (\<lambda>_. None)((''c'', 1) \<mapsto> 1)\<rparr>"

definition demo_request :: read_request where
  "demo_request = \<lparr>rr_fields = None, rr_key = ''c'', rr_limit = \<lparr>rl_limit = 50, rl_clamped = None\<rparr>, rr_ack = True, rr_cursor = None\<rparr>"

lemmas demo_simps = demo_db_def demo_row_def demo_request_def demo_reader_def demo_chan_env_def resolve_channel_def channel_group_lookup_def channel_named_lookup_def
  group_of_def channel_posts_def

lemma demo_retention: "retention_tick demo_chan_env 86400100 (demo_db (Some 1)) = (demo_db (Some 1))\<lparr>cd_posts := []\<rparr>"
  by (simp add: retention_tick_def list_group_channels_with_owner_plan_def demo_simps map_filter_simps delete_channel_posts_older_than_def
      wrap_i64_def sat_i64_def i64_min_def i64_max_def)

theorem retention_restarts_numbers_witness:
  "\<exists>p db'. channel_post_insert (demo_reader 2) ''c'' ''hi'' None ''q'' ''d'' 86400200 (retention_tick demo_chan_env 86400100 (demo_db (Some 1))) = (p, db')
    \<and> po_seq p = 1 \<and> channel_posts db' ''c'' = [p] \<and> fst (read_page (demo_reader 1) demo_request db') = Inr ([], None)"
proof -
  let ?d = "retention_tick demo_chan_env 86400100 (demo_db (Some 1))"
  obtain p db' where ins: "channel_post_insert (demo_reader 2) ''c'' ''hi'' None ''q'' ''d'' 86400200 ?d = (p, db')" by fastforce
  have db': "cd_channels db' = cd_channels (demo_db (Some 1))" "cd_groups db' = cd_groups (demo_db (Some 1))"
    using ins unfolding demo_retention by (auto simp: channel_post_insert_def Let_def)
  define r where "r = \<lparr>re_channel = ''c'', re_kind = Group, re_owner = Some 1, re_group = Some ''g'', re_closed = None, re_frozen = None\<rparr>"
  have r: "resolve_channel db' (rr_key demo_request) = Some r" by (simp add: r_def db' demo_simps)
  have may: "may_read db' r (ct_id (demo_reader 1))" by (simp add: r_def may_read_def channel_group_is_authorized_def demo_simps)
  have empty: "channel_posts ?d ''c'' = []" unfolding demo_retention by (simp add: channel_posts_def)
  have s: "1 \<le> read_position (demo_db (Some 1)) ''c'' (ct_id (demo_reader 1))" by (simp add: read_position_def channel_cursor_seq_def demo_simps)
  show ?thesis
    using ins retention_restarts_numbers[OF empty s ins r _ may] by (simp add: r_def demo_request_def)
qed

lemma demo_purge: "snd (mesh_purge 5 False (demo_db None)) = (demo_db None)\<lparr>cd_posts := [demo_row 2 9], cd_cursors := (\<lambda>_. None)((''c'', 1) \<mapsto> 2)\<rparr>"
  by (auto simp: mesh_purge_def Let_def demo_simps clamp_cursors_def min_seq_def fun_eq_iff)

theorem purge_skips_first_survivor_witness:
  "fst (read_page (demo_reader 1) demo_request (snd (mesh_purge 5 False (demo_db None)))) = Inr ([], None)
    \<and> (\<exists>p \<in> set (channel_posts (snd (mesh_purge 5 False (demo_db None))) ''c''). 1 < po_seq p \<and> po_seq p = 2)"
proof -
  let ?d = "snd (mesh_purge 5 False (demo_db None))"
  define r where "r = \<lparr>re_channel = ''c'', re_kind = Named, re_owner = Some 1, re_group = None, re_closed = None, re_frozen = None\<rparr>"
  have m: "min_seq (channel_posts ?d ''c'') = Some 2" unfolding demo_purge by (simp add: min_seq_def channel_posts_def demo_row_def)
  have r: "resolve_channel ?d (rr_key demo_request) = Some r" unfolding demo_purge by (simp add: r_def demo_simps)
  have may: "may_read ?d r (ct_id (demo_reader 1))" by (simp add: r_def may_read_def demo_reader_def)
  have read: "fst (read_page (demo_reader 1) demo_request ?d) = Inr ([], None)"
    by (rule read_page_nothing[OF r may], unfold demo_purge) (simp_all add: r_def read_position_def channel_cursor_seq_def demo_simps)
  have c: "''c'' \<in> ch_id ` set (cd_channels (demo_db None))" "cd_cursors (demo_db None) (''c'', ct_id (demo_reader 1)) = Some 1"
    by (simp_all add: demo_simps)
  show ?thesis
    using purge_skips_first_survivor[OF refl m c _ r _ _ read] read by (simp add: r_def demo_request_def)
qed

definition demo_outside :: json where
  "demo_outside = mk_obj [(''channel'', JStr ''c''), (''channel_id'', JStr ''c''), (''body'', JStr ''hi'')]"

theorem outsider_learns_nothing_witness:
  "read_channel demo_chan_env (demo_reader 3) demo_outside (demo_db (Some 1))
      = (fst (read_channel demo_chan_env (demo_reader 3) demo_outside no_channels), demo_db (Some 1))
    \<and> post_channel demo_chan_env (demo_reader 3) demo_outside ''q'' ''d'' 7 (demo_db (Some 1))
      = (fst (post_channel demo_chan_env (demo_reader 3) demo_outside ''q'' ''d'' 7 no_channels), [], demo_db (Some 1))"
proof (rule outsider_learns_nothing[where key = "''c''"])
  show "\<forall>r. resolve_channel (demo_db (Some 1)) ''c'' = Some r \<longrightarrow>
      re_kind r = Group \<and> \<not> channel_group_is_authorized (demo_db (Some 1)) r (ct_id (demo_reader 3))"
    by (auto simp: demo_simps channel_group_is_authorized_def is_group_member_def)
qed (simp_all add: demo_outside_def chan_arg_opt_def)

end
