(* ===== verification/ChannelCalls.thy ===== *)
theory ChannelCalls
  imports Channels
begin

text \<open>
  The calls of \<open>channels.rs\<close> that take the database lock more than once, \<open>post\<close> and \<open>read\<close>, one statement at a time: a call in flight
  is a \<open>chan_call\<close>, which \<open>advance\<close> takes through its next statement, and between two statements any other call may run. Uninterrupted
  they are \<open>post_channel\<close> and \<open>read_channel\<close> of the theory \<open>Channels\<close>. The other calls hold the lock once and are single events, as
  is each deletion of a retention tick, which is a sequence of them. What holds of every schedule: a reader whose acknowledging reads
  do not overlap gets each post once, and the hourly quota is exceeded by at most the posts in flight together, less one.
  (\<open>resolve_channel\<close> asks for a group channel and then for a named one; its two lookups are one step here.)
\<close>

section \<open>Calls statement by statement\<close>

datatype chan_call =
    PostBegin chan_tenant json
  | PostResolved chan_tenant string resolved_channel string "string option"
  | PostEntered chan_tenant resolved_channel string "string option"
  | PostChecked chan_tenant resolved_channel string "string option"
  | PostReady chan_tenant resolved_channel string "string option"
  | PostStored chan_tenant resolved_channel chan_post
  | ReadBegin chan_tenant json
  | ReadResolved chan_tenant read_request resolved_channel
  | ReadAllowed chan_tenant read_request string
  | ReadPositioned chan_tenant read_request string int
  | ReadFetched chan_tenant read_request string "chan_post list" "cursor option"

datatype call_result = Continue chan_call | Answered "app_error + json" "trigger_fire list"

abbreviation refuse :: "app_error \<Rightarrow> call_result" where
  "refuse e \<equiv> Answered (Inl e) []"

definition read_answer :: "chan_env \<Rightarrow> chan_tenant \<Rightarrow> read_request \<Rightarrow> chan_post list \<Rightarrow> cursor option \<Rightarrow> json" where
  "read_answer env t q rows next_c =
     (let out = finish_page (ce_pages env) (ct_id t) next_c [(''posts'', JArr (map (post_row_json env) rows))];
          v = (case rr_fields q of Some names \<Rightarrow> project_page ''posts'' names (JObj out) | None \<Rightarrow> JObj out)
      in note_clamp (rr_limit q) v)"

definition post_answer :: "chan_tenant \<Rightarrow> resolved_channel \<Rightarrow> chan_post \<Rightarrow> json" where
  "post_answer t r p =
     (case re_kind r of
        Group \<Rightarrow> post_outcome_json p (ct_namespace t)
      | Named \<Rightarrow> mk_obj [(''post_id'', JStr (po_id p)), (''channel_id'', JStr (po_channel p)), (''seq'', JInt (po_seq p)), (''created_at'', JStr (po_at p))])"

text \<open>The arguments of a post in the order they are looked at: the key of the channel, the body and the data.\<close>

definition post_request_of :: "chan_env \<Rightarrow> chan_tenant \<Rightarrow> json \<Rightarrow> app_error + string \<times> string \<times> string option" where
  "post_request_of env t args =
     (if ct_mesh_frozen t \<noteq> None then Inl mesh_frozen
      else (case chan_arg args ''channel'' of
        Inl e \<Rightarrow> Inl e
      | Inr key \<Rightarrow>
     (case chan_arg args ''body'' of
        Inl e \<Rightarrow> Inl e
      | Inr body \<Rightarrow>
          if trim body = [] then Inl (InvalidArgs ''body: must be non-empty'')
          else (case parse_data_arg env args of Inl e \<Rightarrow> Inl e | Inr data \<Rightarrow> Inr (key, body, data)))))"

text \<open>One statement of a call, with the identifier and the clock readings it would take. Only an insert and an acknowledgement write.\<close>

fun advance :: "chan_env \<Rightarrow> string \<Rightarrow> string \<Rightarrow> int \<Rightarrow> chan_call \<Rightarrow> chan_db \<Rightarrow> call_result \<times> chan_db" where
  "advance env fresh now now_ms (PostBegin t args) db =
     (case post_request_of env t args of
        Inl e \<Rightarrow> (refuse e, db)
      | Inr (key, body, data) \<Rightarrow>
          (case resolve_channel db key of
             None \<Rightarrow> (refuse (channel_not_found key), db)
           | Some r \<Rightarrow> (Continue (PostResolved t key r body data), db)))"
| "advance env fresh now now_ms (PostResolved t key r body data) db =
     (case re_kind r of
        Group \<Rightarrow>
          if \<not> channel_group_is_authorized db r (ct_id t) then (refuse (channel_not_found key), db)
          else (Continue (PostEntered t r body data), db)
      | Named \<Rightarrow>
          if re_closed r \<noteq> None then (refuse channel_closed, db)
          else if re_frozen r \<noteq> None then (refuse channel_frozen, db)
          else (Continue (PostReady t r body data), db))"
| "advance env fresh now now_ms (PostEntered t r body data) db =
     (if \<not> channel_group_is_authorized db r (ct_id t) then (refuse (channel_not_found (re_channel r)), db)
      else (Continue (PostChecked t r body data), db))"
| "advance env fresh now now_ms (PostChecked t r body data) db =
     (if re_closed r \<noteq> None then (refuse channel_closed, db)
      else if re_frozen r \<noteq> None then (refuse channel_frozen, db)
      else (case chan_plan_for env t of
          Inl e \<Rightarrow> (refuse e, db)
        | Inr plan \<Rightarrow>
            if count_channel_posts_since db (ct_id t) (now_ms - 3600000) \<ge> cp_posts_per_hour plan
            then (refuse (channel_quota_exceeded ''channel_posts_per_hour'' (cp_posts_per_hour plan)), db)
            else (Continue (PostReady t r body data), db)))"
| "advance env fresh now now_ms (PostReady t r body data) db =
     (let (p, db') = channel_post_insert t (re_channel r) body data fresh now now_ms db in (Continue (PostStored t r p), db'))"
| "advance env fresh now now_ms (PostStored t r p) db =
     (Answered (Inr (post_answer t r p))
        (case re_kind r of Group \<Rightarrow> fire_channel_message_triggers env r t p db | Named \<Rightarrow> []), db)"
| "advance env fresh now now_ms (ReadBegin t args) db =
     (case read_request_of env t args of
        Inl e \<Rightarrow> (refuse e, db)
      | Inr q \<Rightarrow>
          (case resolve_channel db (rr_key q) of
             None \<Rightarrow> (refuse (channel_not_found (rr_key q)), db)
           | Some r \<Rightarrow> (Continue (ReadResolved t q r), db)))"
| "advance env fresh now now_ms (ReadResolved t q r) db =
     (if \<not> may_read db r (ct_id t) then (refuse (channel_not_found (rr_key q)), db)
      else (Continue (ReadAllowed t q (re_channel r)), db))"
| "advance env fresh now now_ms (ReadAllowed t q i) db =
     (Continue (ReadPositioned t q i (case rr_cursor q of
        Some c \<Rightarrow> c | None \<Rightarrow> (case channel_cursor_seq i (ct_id t) db of Some s \<Rightarrow> s | None \<Rightarrow> 0))), db)"
| "advance env fresh now now_ms (ReadPositioned t q i after) db =
     (let limit = rl_limit (rr_limit q);
          (rows, next_c) = split_page (channel_posts_after i after (limit + 1) db) limit (cursor_at post_position seq_order)
      in (Continue (ReadFetched t q i rows next_c), db))"
| "advance env fresh now now_ms (ReadFetched t q i rows next_c) db =
     (Answered (Inr (read_answer env t q rows next_c)) [],
      if rr_ack q \<and> rows \<noteq> [] then channel_cursor_ack i (ct_id t) (po_seq (last rows)) db else db)"

text \<open>A call that is not interrupted: at most six statements with the same readings.\<close>

fun finish :: "chan_env \<Rightarrow> string \<Rightarrow> string \<Rightarrow> int \<Rightarrow> nat \<Rightarrow> call_result \<times> chan_db \<Rightarrow> call_result \<times> chan_db" where
  "finish env fresh now now_ms (Suc n) (Continue c, db) = finish env fresh now now_ms n (advance env fresh now now_ms c db)"
| "finish env fresh now now_ms n x = x"

lemma finish_step: "0 < n \<Longrightarrow> finish env fresh now now_ms n (Continue c, db) = finish env fresh now now_ms (n - 1) (advance env fresh now now_ms c db)"
  by (cases n) simp_all

abbreviation post_end :: "(app_error + json) \<times> trigger_fire list \<times> chan_db \<Rightarrow> call_result \<times> chan_db" where
  "post_end x \<equiv> (Answered (fst x) (fst (snd x)), snd (snd x))"

lemma group_uninterrupted:
  "re_kind r = Group \<Longrightarrow> finish env fresh now now_ms 4 (Continue (PostEntered t r body data), db) = post_end (post_group env t r body data fresh now now_ms db)"
  by (simp add: eval_nat_numeral post_group_def post_answer_def split: sum.split prod.split)

lemma post_channel_request:
  "post_channel env t args fresh now now_ms db =
     (case post_request_of env t args of
        Inl e \<Rightarrow> (Inl e, [], db)
      | Inr (key, body, data) \<Rightarrow>
     (case resolve_channel db key of
        None \<Rightarrow> (Inl (channel_not_found key), [], db)
      | Some r \<Rightarrow>
          (case re_kind r of
             Group \<Rightarrow>
               if \<not> channel_group_is_authorized db r (ct_id t) then (Inl (channel_not_found key), [], db)
               else post_group env t r body data fresh now now_ms db
           | Named \<Rightarrow>
               if re_closed r \<noteq> None then (Inl channel_closed, [], db)
               else if re_frozen r \<noteq> None then (Inl channel_frozen, [], db)
               else (Inr (post_answer t r (fst (channel_post_insert t (re_channel r) body data fresh now now_ms db))), [],
                     snd (channel_post_insert t (re_channel r) body data fresh now now_ms db)))))"
  by (auto simp: post_channel_def post_request_of_def post_answer_def split: sum.split option.split channel_kind.split prod.split)

lemma resolved_uninterrupted:
  "finish env fresh now now_ms 5 (Continue (PostResolved t key r body data), db) =
     post_end (case re_kind r of
             Group \<Rightarrow>
               if \<not> channel_group_is_authorized db r (ct_id t) then (Inl (channel_not_found key), [], db)
               else post_group env t r body data fresh now now_ms db
           | Named \<Rightarrow>
               if re_closed r \<noteq> None then (Inl channel_closed, [], db)
               else if re_frozen r \<noteq> None then (Inl channel_frozen, [], db)
               else (Inr (post_answer t r (fst (channel_post_insert t (re_channel r) body data fresh now now_ms db))), [],
                     snd (channel_post_insert t (re_channel r) body data fresh now now_ms db)))"
proof (cases "re_kind r")
  case Group
  then show ?thesis
    using group_uninterrupted[OF Group]
    by (subst finish_step) (cases "channel_group_is_authorized db r (ct_id t)"; simp)+
next
  case Named
  then show ?thesis by (simp add: eval_nat_numeral split: prod.split)
qed

text \<open>Without interruption these are the two calls.\<close>

lemma post_uninterrupted:
  "finish env fresh now now_ms 6 (Continue (PostBegin t args), db) = post_end (post_channel env t args fresh now now_ms db)"
proof (cases "post_request_of env t args")
  case (Inr q)
  obtain key body data where q: "q = (key, body, data)" by (cases q)
  show ?thesis
    unfolding post_channel_request Inr q
    by (subst finish_step) (cases "resolve_channel db key"; simp add: Inr q resolved_uninterrupted)+
qed (simp add: eval_nat_numeral post_channel_request)

lemma read_uninterrupted:
  "finish env fresh now now_ms 6 (Continue (ReadBegin t args), db)
    = (Answered (fst (read_channel env t args db)) [], snd (read_channel env t args db))"
proof (cases "read_request_of env t args")
  case (Inr q)
  show ?thesis
  proof (cases "resolve_channel db (rr_key q)")
    case (Some r)
    then show ?thesis
      using Inr by (simp add: eval_nat_numeral read_channel_def read_page_def read_answer_def Let_def split: prod.split)
  qed (use Inr in \<open>simp add: eval_nat_numeral read_channel_def read_page_def\<close>)
qed (simp add: eval_nat_numeral read_channel_def)

section \<open>Schedules\<close>

text \<open>The calls that hold the lock once, the purge, and one deletion of a retention tick.\<close>

datatype chan_event =
    GroupCreate chan_tenant json
  | GroupAdd chan_tenant json
  | GroupRemove chan_tenant json
  | OpenChannel chan_tenant json string string
  | CloseChannel chan_tenant json string
  | SetFrozen chan_tenant json bool string
  | DeleteOlder string int
  | MeshPurge json int

fun chan_apply :: "chan_env \<Rightarrow> chan_event \<Rightarrow> chan_db \<Rightarrow> chan_db" where
  "chan_apply env (GroupCreate t args) db = snd (group_create t args db)"
| "chan_apply env (GroupAdd t args) db = snd (group_add env t args db)"
| "chan_apply env (GroupRemove t args) db = snd (group_remove env t args db)"
| "chan_apply env (OpenChannel t args fresh now) db = snd (open_channel env t args fresh now db)"
| "chan_apply env (CloseChannel t args now) db = snd (close_channel t args now db)"
| "chan_apply env (SetFrozen t args frozen now) db = snd (set_frozen t args frozen now db)"
| "chan_apply env (DeleteOlder i cutoff) db = delete_channel_posts_older_than i cutoff db"
| "chan_apply env (MeshPurge args now_ms) db = snd (admin_mesh_purge (\<lambda>_. 0) args now_ms db)"

text \<open>The database and the calls in flight, each in the place it was given when it began (\<open>None\<close>: it was answered).\<close>

record chan_world =
  wo_db :: chan_db
  wo_calls :: "chan_call option list"

datatype world_event =
    BeginPost chan_tenant json
  | BeginRead chan_tenant json
  | Advance nat string string int
  | Meanwhile chan_event

definition call_at :: "chan_world \<Rightarrow> nat \<Rightarrow> chan_call option" where
  "call_at w k = (if k < length (wo_calls w) then wo_calls w ! k else None)"

fun world_step :: "chan_env \<Rightarrow> world_event \<Rightarrow> chan_world \<Rightarrow> chan_world" where
  "world_step env (BeginPost t args) w = w\<lparr>wo_calls := wo_calls w @ [Some (PostBegin t args)]\<rparr>"
| "world_step env (BeginRead t args) w = w\<lparr>wo_calls := wo_calls w @ [Some (ReadBegin t args)]\<rparr>"
| "world_step env (Advance k fresh now now_ms) w =
     (case call_at w k of
        None \<Rightarrow> w
      | Some c \<Rightarrow>
          (let (res, db) = advance env fresh now now_ms c (wo_db w)
           in w\<lparr>wo_db := db, wo_calls := (wo_calls w)[k := (case res of Continue c' \<Rightarrow> Some c' | Answered _ _ \<Rightarrow> None)]\<rparr>))"
| "world_step env (Meanwhile e) w = w\<lparr>wo_db := chan_apply env e (wo_db w)\<rparr>"

definition world_run :: "chan_env \<Rightarrow> world_event list \<Rightarrow> chan_world \<Rightarrow> chan_world" where
  "world_run env = fold (world_step env)"

definition no_calls :: chan_world where
  "no_calls = \<lparr>wo_db = no_channels, wo_calls = []\<rparr>"

lemma world_run_simps [simp]: "world_run env [] w = w" "world_run env (e # es) w = world_run env es (world_step env e w)"
  by (simp_all add: world_run_def)

lemma call_in: "call_at w k = Some c \<longleftrightarrow> k < length (wo_calls w) \<and> wo_calls w ! k = Some c"
  by (simp add: call_at_def)

lemma call_mem: "Some c \<in> set (wo_calls w) \<longleftrightarrow> (\<exists>k. call_at w k = Some c)"
  by (auto simp: call_in in_set_conv_nth)

lemma call_at_update: "k < length (wo_calls w) \<Longrightarrow> call_at (w\<lparr>wo_db := db, wo_calls := (wo_calls w)[k := x]\<rparr>) j = (if j = k then x else call_at w j)"
  by (simp add: call_at_def)

lemma call_at_db [simp]: "call_at (w\<lparr>wo_db := db\<rparr>) = call_at w"
  by (simp add: call_at_def fun_eq_iff)

lemma call_at_snoc: "call_at (w\<lparr>wo_calls := wo_calls w @ [Some c]\<rparr>) j = (if j = length (wo_calls w) then Some c else call_at w j)"
  by (auto simp: call_at_def nth_append)

text \<open>Which statements write.\<close>

lemma advance_db:
  "snd (advance env fresh now now_ms c db) =
     (case c of
        PostReady t r body data \<Rightarrow> snd (channel_post_insert t (re_channel r) body data fresh now now_ms db)
      | ReadFetched t q i rows _ \<Rightarrow> (if rr_ack q \<and> rows \<noteq> [] then channel_cursor_ack i (ct_id t) (po_seq (last rows)) db else db)
      | _ \<Rightarrow> db)"
  by (cases c) (auto simp: Let_def split: sum.split option.split prod.split channel_kind.split)

declare advance.simps [simp del]

section \<open>Each post once\<close>

text \<open>A read has its position and is not yet acknowledged; the reader is \<open>tenant\<close> and the channel \<open>i\<close>.\<close>

fun holds_position :: "int \<Rightarrow> string \<Rightarrow> chan_call \<Rightarrow> bool" where
  "holds_position tenant i (ReadPositioned t q i' after) \<longleftrightarrow> ct_id t = tenant \<and> i' = i \<and> rr_ack q"
| "holds_position tenant i (ReadFetched t q i' rows next_c) \<longleftrightarrow> ct_id t = tenant \<and> i' = i \<and> rr_ack q"
| "holds_position tenant i _ \<longleftrightarrow> False"

definition reads_open :: "int \<Rightarrow> string \<Rightarrow> chan_world \<Rightarrow> nat" where
  "reads_open tenant i w = length (filter (\<lambda>x. case x of Some c \<Rightarrow> holds_position tenant i c | None \<Rightarrow> False) (wo_calls w))"

text \<open>What a statement delivers to the reader: the rows of a read it acknowledges.\<close>

fun acked_rows :: "int \<Rightarrow> string \<Rightarrow> chan_call \<Rightarrow> chan_post list" where
  "acked_rows tenant i (ReadFetched t q i' rows next_c) = (if ct_id t = tenant \<and> i' = i \<and> rr_ack q then rows else [])"
| "acked_rows tenant i _ = []"

fun delivery :: "int \<Rightarrow> string \<Rightarrow> world_event \<Rightarrow> chan_world \<Rightarrow> chan_post list" where
  "delivery tenant i (Advance k fresh now now_ms) w = (case call_at w k of Some c \<Rightarrow> acked_rows tenant i c | None \<Rightarrow> [])"
| "delivery tenant i _ w = []"

fun delivered :: "chan_env \<Rightarrow> int \<Rightarrow> string \<Rightarrow> world_event list \<Rightarrow> chan_world \<Rightarrow> chan_post list" where
  "delivered env tenant i [] w = []"
| "delivered env tenant i (e # es) w = delivery tenant i e w @ delivered env tenant i es (world_step env e w)"

text \<open>A schedule in which the reader's acknowledging reads name no cursor and do not overlap between their position and their
  acknowledgement, and no deletion or purge takes the newest post of the channel or moves the reader's position.\<close>

fun steady_reading :: "chan_env \<Rightarrow> int \<Rightarrow> string \<Rightarrow> world_event list \<Rightarrow> chan_world \<Rightarrow> bool" where
  "steady_reading env tenant i [] w = True"
| "steady_reading env tenant i (e # es) w =
     ((case e of
         BeginRead t args \<Rightarrow> (case read_request_of env t args of Inr q \<Rightarrow> ct_id t = tenant \<and> rr_ack q \<longrightarrow> rr_cursor q = None | Inl _ \<Rightarrow> True)
       | Meanwhile ev \<Rightarrow>
           max_seq (channel_posts (chan_apply env ev (wo_db w)) i) = max_seq (channel_posts (wo_db w) i)
           \<and> read_position (chan_apply env ev (wo_db w)) i tenant = read_position (wo_db w) i tenant
       | _ \<Rightarrow> True)
      \<and> reads_open tenant i (world_step env e w) \<le> 1
      \<and> steady_reading env tenant i es (world_step env e w))"

text \<open>Rows read at the position are the unread posts up to their last, whatever is posted or deleted afterwards.\<close>

definition ahead :: "chan_db \<Rightarrow> string \<Rightarrow> int \<Rightarrow> chan_post list \<Rightarrow> bool" where
  "ahead db i tenant rows \<longleftrightarrow>
     sorted_wrt (\<lambda>p q. po_seq p < po_seq q) rows
   \<and> (\<forall>p \<in> set rows. read_position db i tenant < po_seq p \<and> po_seq p \<le> max_seq (channel_posts db i))
   \<and> (rows \<noteq> [] \<longrightarrow> (\<forall>p \<in> set (channel_posts db i). read_position db i tenant < po_seq p \<and> po_seq p \<le> po_seq (last rows) \<longrightarrow> p \<in> set rows))"

fun call_ok :: "chan_env \<Rightarrow> chan_db \<Rightarrow> int \<Rightarrow> string \<Rightarrow> chan_call \<Rightarrow> bool" where
  "call_ok env db tenant i (ReadBegin t args) \<longleftrightarrow>
     (case read_request_of env t args of Inr q \<Rightarrow> ct_id t = tenant \<and> rr_ack q \<longrightarrow> rr_cursor q = None | Inl _ \<Rightarrow> True)"
| "call_ok env db tenant i (ReadResolved t q r) \<longleftrightarrow> (ct_id t = tenant \<and> rr_ack q \<longrightarrow> rr_cursor q = None)"
| "call_ok env db tenant i (ReadAllowed t q i') \<longleftrightarrow> (ct_id t = tenant \<and> rr_ack q \<longrightarrow> rr_cursor q = None)"
| "call_ok env db tenant i (ReadPositioned t q i' after) \<longleftrightarrow> (ct_id t = tenant \<and> i' = i \<and> rr_ack q \<longrightarrow> after = read_position db i tenant)"
| "call_ok env db tenant i (ReadFetched t q i' rows next_c) \<longleftrightarrow> (ct_id t = tenant \<and> i' = i \<and> rr_ack q \<longrightarrow> ahead db i tenant rows)"
| "call_ok env db tenant i _ \<longleftrightarrow> True"

definition reader_world :: "chan_env \<Rightarrow> int \<Rightarrow> string \<Rightarrow> chan_world \<Rightarrow> chan_post list \<Rightarrow> bool" where
  "reader_world env tenant i w got \<longleftrightarrow>
     reader_ok (wo_db w) i tenant got \<and> (\<forall>k c. call_at w k = Some c \<longrightarrow> call_ok env (wo_db w) tenant i c) \<and> reads_open tenant i w \<le> 1"

text \<open>From one database to the next the position stays, and every post is an old one or newer than all.\<close>

definition moves_on :: "string \<Rightarrow> int \<Rightarrow> chan_db \<Rightarrow> chan_db \<Rightarrow> bool" where
  "moves_on i tenant db db' \<longleftrightarrow>
     read_position db' i tenant = read_position db i tenant
   \<and> max_seq (channel_posts db i) \<le> max_seq (channel_posts db' i)
   \<and> (\<forall>p \<in> set (channel_posts db' i). p \<in> set (channel_posts db i) \<or> max_seq (channel_posts db i) < po_seq p)"

lemma ahead_moves: "ahead db i tenant rows \<Longrightarrow> moves_on i tenant db db' \<Longrightarrow> ahead db' i tenant rows"
  unfolding ahead_def moves_on_def by (metis (no_types, lifting) last_in_set leD order_trans)

lemma call_ok_moves: "call_ok env db tenant i c \<Longrightarrow> moves_on i tenant db db' \<Longrightarrow> call_ok env db' tenant i c"
  by (cases c) (auto simp: moves_on_def intro: ahead_moves[unfolded moves_on_def])

lemma moves_insert: "reader_ok db i tenant got \<Longrightarrow> moves_on i tenant db (snd (channel_post_insert t i' body data fresh now now_ms db))"
proof -
  assume ok: "reader_ok db i tenant got"
  let ?p = "fst (channel_post_insert t i' body data fresh now now_ms db)"
  have "0 \<le> max_seq (channel_posts db i)" using ok by (intro max_seq_nonneg) (simp add: reader_ok_def)
  then have "max_seq (channel_posts db i @ [?p]) = max_seq (channel_posts db i) + 1" if "i' = i"
    using that by (simp add: max_seq_snoc insert_seq)
  then show ?thesis
    by (auto simp: moves_on_def stored_cong[OF insert_cursors] channel_posts_insert insert_seq)
qed

lemma moves_ack: "\<not> (i' = i \<and> t = tenant) \<Longrightarrow> moves_on i tenant db (channel_cursor_ack i' t s db)"
  by (auto simp: moves_on_def stored_ack channel_posts_cong[OF ack_frame])

lemma moves_refl: "moves_on i tenant db db"
  by (simp add: moves_on_def)

lemma reader_ok_moved:
  assumes "reader_ok db i tenant got" "channel_posts db' i = filter P (channel_posts db i)"
    and "max_seq (channel_posts db' i) = max_seq (channel_posts db i)" "read_position db' i tenant = read_position db i tenant"
  shows "reader_ok db' i tenant got"
proof -
  have "distinct (map po_seq (channel_posts db' i))" using assms(1,2) by (simp add: reader_ok_def distinct_map_filter)
  then show ?thesis using assms(1) unfolding reader_ok_def assms(3,4) by (simp add: assms(2))
qed

lemma chan_apply_posts_all: "\<exists>P. cd_posts (chan_apply env e db) = filter P (cd_posts db)"
proof (cases e)
  case (DeleteOlder i' cutoff)
  then show ?thesis by (auto simp: delete_channel_posts_older_than_def)
next
  case (MeshPurge args now_ms)
  have "cd_posts (snd (mesh_purge cutoff dry db)) = filter (\<lambda>p. dry \<or> \<not> po_ms p < cutoff) (cd_posts db)" for cutoff dry
    by (auto simp: mesh_purge_def Let_def clamp_fold_posts)
  then show ?thesis
    using MeshPurge by (auto simp: admin_mesh_purge_def Let_def prod.case_eq_if split: option.split intro: exI[of _ "\<lambda>_. True"])
qed (auto simp: chan_frame intro!: exI[of _ "\<lambda>_. True"])

lemma chan_apply_posts: "\<exists>P. channel_posts (chan_apply env e db) i = filter P (channel_posts db i)"
proof -
  obtain P where "cd_posts (chan_apply env e db) = filter P (cd_posts db)" using chan_apply_posts_all by blast
  then have "channel_posts (chan_apply env e db) i = filter P (channel_posts db i)" by (simp add: channel_posts_def conj_commute)
  then show ?thesis by blast
qed

lemma one_of:
  assumes "length (filter P xs) \<le> 1" "j < length xs" "k < length xs" "P (xs ! j)" "P (xs ! k)"
  shows "j = k"
proof -
  have "card {n. n < length xs \<and> P (xs ! n)} \<le> 1" using assms(1) by (simp add: length_filter_conv_card)
  then show ?thesis using assms(2-5) card_le_Suc0_iff_eq[of "{n. n < length xs \<and> P (xs ! n)}"] by auto
qed

lemma one_reader:
  "reads_open tenant i w \<le> 1 \<Longrightarrow> call_at w j = Some c \<Longrightarrow> call_at w k = Some d \<Longrightarrow> holds_position tenant i c \<Longrightarrow> holds_position tenant i d \<Longrightarrow> j = k"
  unfolding reads_open_def by (erule one_of) (auto simp: call_in)

lemma ahead_fetched:
  assumes "reader_ok db i tenant got"
  shows "ahead db i tenant (fst (split_page (channel_posts_after i (read_position db i tenant) (limit + 1) db) limit f))"
proof -
  let ?xs = "unread (read_position db i tenant) (channel_posts db i)"
  have "channel_posts_after i (read_position db i tenant) (limit + 1) db = take (nat (limit + 1)) ?xs"
    by (simp add: channel_posts_after_def query_page_def keyset_post unread_def)
  then have rows: "fst (split_page (channel_posts_after i (read_position db i tenant) (limit + 1) db) limit f) = take (nat limit) ?xs"
    by (simp only: split_page_rows)
  have "sorted_wrt (\<lambda>p q. po_seq p < po_seq q) ?xs" using assms by (intro unread_sorted) (simp add: reader_ok_def)
  then have sorted: "sorted_wrt (\<lambda>p q. po_seq p < po_seq q) (take (nat limit) ?xs @ drop (nat limit) ?xs)" by simp
  have "p \<in> set (take (nat limit) ?xs)"
    if "p \<in> set (channel_posts db i)" "read_position db i tenant < po_seq p" "po_seq p \<le> po_seq (last (take (nat limit) ?xs))" "take (nat limit) ?xs \<noteq> []" for p
  proof (rule ccontr)
    assume "p \<notin> set (take (nat limit) ?xs)"
    moreover have "p \<in> set (take (nat limit) ?xs @ drop (nat limit) ?xs)" using that(1,2) by simp
    ultimately have "p \<in> set (drop (nat limit) ?xs)" by (simp only: set_append) blast
    then have "po_seq (last (take (nat limit) ?xs)) < po_seq p" using sorted last_in_set[OF that(4)] unfolding sorted_wrt_append by blast
    then show False using that(3) by simp
  qed
  moreover have "read_position db i tenant < po_seq p \<and> po_seq p \<le> max_seq (channel_posts db i)" if "p \<in> set (take (nat limit) ?xs)" for p
    using in_set_takeD[OF that] max_seq_ge by auto
  ultimately show ?thesis using sorted unfolding rows ahead_def sorted_wrt_append by blast
qed

lemma reader_ok_ack:
  assumes "reader_ok db i tenant got" "ahead db i tenant rows" "rows \<noteq> []"
  shows "reader_ok (channel_cursor_ack i tenant (po_seq (last rows)) db) i tenant (got @ rows)"
proof -
  let ?s = "po_seq (last rows)"
  have got: "\<forall>p \<in> set got. po_seq p \<le> read_position db i tenant" using assms(1) by (simp add: reader_ok_def)
  have sub: "read_position db i tenant < po_seq p \<and> po_seq p \<le> max_seq (channel_posts db i)" if "p \<in> set rows" for p
    using assms(2) that by (simp add: ahead_def)
  have l: "last rows \<in> set rows" using assms(3) by simp
  have rows: "rows = butlast rows @ [last rows]" using assms(3) by simp
  have rs: "sorted_wrt (\<lambda>p q. po_seq p < po_seq q) rows" using assms(2) by (simp add: ahead_def)
  then have "sorted_wrt (\<lambda>p q. po_seq p < po_seq q) (butlast rows @ [last rows])" using rows by simp
  then have "\<forall>p \<in> set (butlast rows). po_seq p < ?s" by (simp add: sorted_wrt_append)
  moreover have "set rows = insert (last rows) (set (butlast rows))" by (subst rows) simp
  ultimately have up: "\<forall>p \<in> set rows. po_seq p \<le> ?s" by auto
  have "sorted_wrt (\<lambda>p q. po_seq p < po_seq q) (got @ rows)"
    using assms(1) rs got sub by (fastforce simp: sorted_wrt_append reader_ok_def)
  moreover have "?s \<le> max_seq (channel_posts db i)" "read_position db i tenant < ?s" using sub[OF l] by blast+
  moreover have "\<forall>p \<in> set (got @ rows). po_seq p \<le> ?s" using got up \<open>read_position db i tenant < ?s\<close> by fastforce
  moreover have "\<forall>p \<in> set (channel_posts db i). po_seq p \<le> ?s \<longrightarrow> p \<in> set (got @ rows)"
    using assms by (fastforce simp: reader_ok_def ahead_def)
  ultimately show ?thesis
    using assms(1) unfolding reader_ok_def stored_ack channel_posts_cong[OF ack_frame] by simp
qed

text \<open>What a statement leaves of the invariant: the database, the call it advances, and the other calls.\<close>

lemma advance_reader_ok:
  assumes "reader_ok db i tenant got" "call_ok env db tenant i c"
  shows "reader_ok (snd (advance env fresh now now_ms c db)) i tenant (got @ acked_rows tenant i c)"
proof (cases c)
  case (PostReady t r body data)
  then show ?thesis using reader_ok_insert[OF assms(1)] by (simp add: advance_db)
next
  case (ReadFetched t q i' rows next_c)
  show ?thesis
  proof (cases "ct_id t = tenant \<and> i' = i \<and> rr_ack q")
    case True
    then show ?thesis using assms reader_ok_ack[OF assms(1)] ReadFetched by (auto simp: advance_db)
  next
    case False
    then have "acked_rows tenant i c = []" using ReadFetched by auto
    moreover have "reader_ok (channel_cursor_ack i' (ct_id t) s db) i tenant got" if "\<not> (i' = i \<and> ct_id t = tenant)" for s
      using assms(1) that by (subst reader_ok_cong[of _ i db]) (auto simp: stored_ack channel_posts_cong[OF ack_frame])
    ultimately show ?thesis using assms(1) False ReadFetched by (auto simp: advance_db)
  qed
qed (use assms(1) in \<open>simp_all add: advance_db\<close>)

lemma advance_moves:
  assumes "reader_ok db i tenant got" "\<not> holds_position tenant i c"
  shows "moves_on i tenant db (snd (advance env fresh now now_ms c db))"
  using assms(2) moves_insert[OF assms(1)]
  by (cases c) (auto simp: advance_db moves_refl intro: moves_ack)

lemma advance_call_ok:
  assumes "reader_ok db i tenant got" "call_ok env db tenant i c" "advance env fresh now now_ms c db = (Continue c', db')"
  shows "call_ok env db' tenant i c'"
proof (cases c)
  case (ReadBegin t args)
  with assms(2,3) show ?thesis by (auto simp: advance.simps split: sum.splits option.splits)
next
  case (ReadPositioned t q i' after)
  let ?page = "split_page (channel_posts_after i' after (rl_limit (rr_limit q) + 1) db) (rl_limit (rr_limit q)) (cursor_at post_position seq_order)"
  obtain rows next_c where p: "?page = (rows, next_c)" by fastforce
  then have c': "c' = ReadFetched t q i' rows next_c" "db' = db" using assms(3) ReadPositioned by (auto simp: advance.simps Let_def)
  have "ahead db i tenant rows" if "ct_id t = tenant \<and> i' = i \<and> rr_ack q"
    using that assms(2) ReadPositioned p ahead_fetched[OF assms(1), of "rl_limit (rr_limit q)"] by (metis call_ok.simps(4) fst_conv)
  then show ?thesis by (simp add: c')
qed (use assms(2,3) in \<open>auto simp: advance.simps read_position_def split: sum.splits option.splits channel_kind.splits if_splits prod.splits\<close>)

lemma reader_world_step:
  assumes "reader_world env tenant i w got" "steady_reading env tenant i (e # es) w"
  shows "reader_world env tenant i (world_step env e w) (got @ delivery tenant i e w)"
proof -
  have ok: "reader_ok (wo_db w) i tenant got" and calls: "\<And>k c. call_at w k = Some c \<Longrightarrow> call_ok env (wo_db w) tenant i c"
    and one: "reads_open tenant i w \<le> 1" using assms(1) by (auto simp: reader_world_def)
  have one': "reads_open tenant i (world_step env e w) \<le> 1" using assms(2) by simp
  show ?thesis
  proof (cases e)
    case (BeginPost t args)
    then show ?thesis using ok calls one' by (auto simp: reader_world_def call_at_snoc split: if_splits)
  next
    case (BeginRead t args)
    then have "call_ok env (wo_db w) tenant i (ReadBegin t args)" using assms(2) by simp
    then show ?thesis using BeginRead ok calls one' by (auto simp: reader_world_def call_at_snoc split: if_splits)
  next
    case (Meanwhile ev)
    let ?db = "chan_apply env ev (wo_db w)"
    have same: "max_seq (channel_posts ?db i) = max_seq (channel_posts (wo_db w) i)"
      "read_position ?db i tenant = read_position (wo_db w) i tenant" using assms(2) Meanwhile by simp_all
    obtain P where P: "channel_posts ?db i = filter P (channel_posts (wo_db w) i)" using chan_apply_posts by blast
    have "moves_on i tenant (wo_db w) ?db" using same by (simp add: moves_on_def P)
    from call_ok_moves[OF calls this] show ?thesis
      using Meanwhile reader_ok_moved[OF ok P same] one' by (auto simp: reader_world_def)
  next
    case (Advance k fresh now now_ms)
    show ?thesis
    proof (cases "call_at w k")
      case None
      then show ?thesis using assms(1) Advance by simp
    next
      case (Some c)
      obtain res db where a: "advance env fresh now now_ms c (wo_db w) = (res, db)" by fastforce
      let ?x = "case res of Continue c' \<Rightarrow> Some c' | Answered _ _ \<Rightarrow> None"
      have k: "k < length (wo_calls w)" using Some by (simp add: call_in)
      have w': "world_step env e w = w\<lparr>wo_db := db, wo_calls := (wo_calls w)[k := ?x]\<rparr>" using Advance Some a by simp
      have "reader_ok db i tenant (got @ acked_rows tenant i c)" using advance_reader_ok[OF ok calls[OF Some]] a by (metis snd_conv)
      moreover have "call_ok env db tenant i d" if d: "call_at (world_step env e w) j = Some d" for j d
      proof (cases "j = k")
        case True
        with d obtain d' where "res = Continue d" unfolding w' call_at_update[OF k] by (auto split: call_result.splits)
        then show ?thesis using advance_call_ok[OF ok calls[OF Some]] a by blast
      next
        case False
        then have j: "call_at w j = Some d" using d unfolding w' call_at_update[OF k] by simp
        show ?thesis
        proof (cases "holds_position tenant i c")
          case True
          then have "\<not> holds_position tenant i d" using one_reader[OF one Some j] False by blast
          then show ?thesis using calls[OF j] by (cases d) auto
        next
          case False
          then have "moves_on i tenant (wo_db w) db" using advance_moves[OF ok False, of env fresh now now_ms] a by simp
          then show ?thesis using calls[OF j] call_ok_moves by blast
        qed
      qed
      ultimately show ?thesis using one' Advance Some unfolding reader_world_def w' by simp
    qed
  qed
qed

lemma reader_world_run:
  "reader_world env tenant i w got \<Longrightarrow> steady_reading env tenant i es w \<Longrightarrow>
    reader_world env tenant i (world_run env es w) (got @ delivered env tenant i es w)"
proof (induction es arbitrary: w got)
  case (Cons e es)
  from Cons.IH[OF reader_world_step[OF Cons.prems]] Cons.prems(2) show ?case by simp
qed simp

lemma reader_world_start: "reader_world env tenant i no_calls []"
  by (simp add: reader_world_def reads_open_def no_calls_def reader_ok_def no_channels_def channel_posts_def read_position_def channel_cursor_seq_def call_at_def)

text \<open>C36. A reader gets every post once and in order. Take any schedule of posts and reads, statement by statement, with the other calls of
  all tenants, deletions and purges between them, under these conditions: the reader's acknowledging reads of the channel name no
  cursor, no two of them overlap between the reading of the position and its acknowledgement, and no deletion or purge removes the
  newest post of the channel or moves the reader's position. What those reads returned has strictly increasing numbers, and of the posts
  still kept exactly those up to its stored position have been returned.\<close>

theorem reader_gets_each_once:
  assumes "steady_reading env tenant i es no_calls" "got = delivered env tenant i es no_calls" "db = wo_db (world_run env es no_calls)"
  shows "sorted_wrt (\<lambda>p q. po_seq p < po_seq q) got
    \<and> (\<forall>p \<in> set (channel_posts db i). p \<in> set got \<longleftrightarrow> po_seq p \<le> read_position db i tenant)"
  using reader_world_run[OF reader_world_start assms(1)] unfolding reader_world_def reader_ok_def assms(2,3) by auto

section \<open>The hourly quota\<close>

text \<open>The posts of a tenant to group channels that passed the count and are not inserted yet, and the most there ever are in a schedule.\<close>

fun waiting_call :: "int \<Rightarrow> chan_call \<Rightarrow> bool" where
  "waiting_call tenant (PostReady t r body data) \<longleftrightarrow> ct_id t = tenant \<and> re_kind r = Group"
| "waiting_call tenant _ \<longleftrightarrow> False"

definition posts_waiting :: "int \<Rightarrow> chan_world \<Rightarrow> nat" where
  "posts_waiting tenant w = length (filter (\<lambda>x. case x of Some c \<Rightarrow> waiting_call tenant c | None \<Rightarrow> False) (wo_calls w))"

fun most_waiting :: "chan_env \<Rightarrow> int \<Rightarrow> world_event list \<Rightarrow> chan_world \<Rightarrow> nat" where
  "most_waiting env tenant [] w = posts_waiting tenant w"
| "most_waiting env tenant (e # es) w = max (posts_waiting tenant w) (most_waiting env tenant es (world_step env e w))"

text \<open>A channel that is opened gets an identifier no channel has (it is the primary key); the tenant's plans allow at most \<open>m\<close> posts; and
  the clock was read at \<open>now\<close> at the latest.\<close>

fun minted_fresh :: "chan_env \<Rightarrow> world_event list \<Rightarrow> chan_world \<Rightarrow> bool" where
  "minted_fresh env [] w = True"
| "minted_fresh env (e # es) w =
     ((case e of Meanwhile (OpenChannel t args fresh now) \<Rightarrow> fresh \<notin> ch_id ` set (cd_channels (wo_db w)) | _ \<Rightarrow> True)
      \<and> minted_fresh env es (world_step env e w))"

definition plan_upto :: "chan_env \<Rightarrow> int \<Rightarrow> int \<Rightarrow> chan_tenant \<Rightarrow> bool" where
  "plan_upto env tenant m t \<longleftrightarrow> (ct_id t = tenant \<longrightarrow> (case ce_plan env (ct_plan t) of Some p \<Rightarrow> cp_posts_per_hour p \<le> m | None \<Rightarrow> True))"

fun plain_event :: "chan_env \<Rightarrow> int \<Rightarrow> int \<Rightarrow> int \<Rightarrow> world_event \<Rightarrow> bool" where
  "plain_event env tenant m now (BeginPost t args) \<longleftrightarrow> plan_upto env tenant m t"
| "plain_event env tenant m now (Advance k fresh at_text now_ms) \<longleftrightarrow> now_ms \<le> now"
| "plain_event env tenant m now _ \<longleftrightarrow> True"

text \<open>Identifiers and groups of the channels never change, and only opening one adds to them.\<close>

definition channel_keys :: "chan_db \<Rightarrow> (string \<times> nat option) list" where
  "channel_keys db = map (\<lambda>c. (ch_id c, ch_group c)) (cd_channels db)"

definition is_group_channel :: "chan_db \<Rightarrow> string \<Rightarrow> bool" where
  "is_group_channel db i \<longleftrightarrow> (\<exists>g. (i, Some g) \<in> set (channel_keys db))"

lemma count_posts:
  "count_channel_posts_since db tenant since
    = int (length (filter (\<lambda>p. is_group_channel db (po_channel p) \<and> po_from p = tenant \<and> since \<le> po_ms p) (cd_posts db)))"
proof -
  have "list_ex (\<lambda>c. ch_id c = i \<and> ch_group c \<noteq> None) (cd_channels db) = is_group_channel db i" for i
    by (auto simp: is_group_channel_def channel_keys_def list_ex_iff image_iff) metis+
  then show ?thesis by (simp add: count_channel_posts_since_def)
qed

lemma set_flag_keys: "(\<And>c. ch_id (f c) = ch_id c \<and> ch_group (f c) = ch_group c) \<Longrightarrow> channel_keys (snd (channel_set_flag o' i f db)) = channel_keys db"
  by (auto simp: channel_keys_def channel_set_flag_def Let_def)

lemma clamp_keys: "cd_channels (fold (\<lambda>c. clamp_cursors (ch_id c)) cs db) = cd_channels db"
  by (induction cs arbitrary: db) (simp_all add: clamp_cursors_def split: option.split)

lemma group_add_channels: "cd_channels (snd (group_add env t args db)) = cd_channels db"
  by (auto simp: group_add_def group_change_def group_add_member_def update_members_def split: sum.split option.split prod.split bool.split)

lemma group_remove_channels: "cd_channels (snd (group_remove env t args db)) = cd_channels db"
  by (auto simp: group_remove_def group_change_def group_remove_member_def update_members_def split: sum.split option.split prod.split bool.split)

lemma close_keys: "channel_keys (snd (close_channel t args now db)) = channel_keys db"
  using set_flag_keys[of "\<lambda>c. c\<lparr>ch_closed_at := Some now\<rparr>" "ct_id t" _ db]
  by (auto simp: close_channel_def split: sum.splits prod.splits bool.splits dest!: pair_snd)

lemma frozen_keys: "channel_keys (snd (set_frozen t args b now db)) = channel_keys db"
  using set_flag_keys[of "\<lambda>c. c\<lparr>ch_frozen_at := (if b then Some now else None)\<rparr>" "ct_id t" _ db]
  by (auto simp: set_frozen_def split: sum.splits prod.splits bool.splits dest!: pair_snd)

lemma open_keys:
  "channel_keys (snd (open_channel env t args fresh now db)) = channel_keys db
    \<or> (\<exists>g. channel_keys (snd (open_channel env t args fresh now db)) = channel_keys db @ [(fresh, g)])"
proof -
  have 1: "channel_keys (snd (channel_open fresh now (ct_id t) name db)) = channel_keys db
    \<or> (\<exists>g. channel_keys (snd (channel_open fresh now (ct_id t) name db)) = channel_keys db @ [(fresh, g)])" for name
    by (auto simp: channel_open_def channel_keys_def split: option.split)
  have 2: "channel_keys (snd (channel_group_open fresh now (ct_id t) grp m db)) = channel_keys db
    \<or> (\<exists>g. channel_keys (snd (channel_group_open fresh now (ct_id t) grp m db)) = channel_keys db @ [(fresh, g)])" for grp m
    by (auto simp: channel_group_open_def channel_keys_def Let_def split: option.split)
  show ?thesis
    using 1 2 by (auto simp: open_channel_def split: option.splits sum.splits prod.splits dest!: pair_snd)
qed

text \<open>A new channel is none of the old ones.\<close>

definition keys_grow :: "chan_db \<Rightarrow> chan_db \<Rightarrow> bool" where
  "keys_grow db db' \<longleftrightarrow> channel_keys db' = channel_keys db
    \<or> (\<exists>i g. i \<notin> fst ` set (channel_keys db) \<and> channel_keys db' = channel_keys db @ [(i, g)])"

lemma chan_apply_keys:
  assumes "case e of OpenChannel t args fresh now \<Rightarrow> fresh \<notin> ch_id ` set (cd_channels db) | _ \<Rightarrow> True"
  shows "keys_grow db (chan_apply env e db)"
proof (cases e)
  case (OpenChannel t args fresh now)
  have "fst ` set (channel_keys db) = ch_id ` set (cd_channels db)" by (force simp: channel_keys_def)
  then show ?thesis using assms open_keys[of env t args fresh now db] OpenChannel by (auto simp: keys_grow_def)
next
  case (GroupCreate t args)
  then show ?thesis by (simp add: keys_grow_def channel_keys_def group_create_def create_group_def split: sum.split)
next
  case (MeshPurge args now_ms)
  then show ?thesis
    by (simp add: keys_grow_def channel_keys_def admin_mesh_purge_def mesh_purge_def clamp_keys Let_def split: option.split)
next
  case (GroupAdd t args)
  then show ?thesis by (simp add: keys_grow_def channel_keys_def group_add_channels)
next
  case (GroupRemove t args)
  then show ?thesis by (simp add: keys_grow_def channel_keys_def group_remove_channels)
qed (simp_all add: keys_grow_def close_keys frozen_keys delete_channel_posts_older_than_def channel_keys_def[of "db\<lparr>cd_posts := x\<rparr>" for x]
      channel_keys_def[of db])

lemma grow_known: "keys_grow db db' \<Longrightarrow> x \<in> set (channel_keys db) \<Longrightarrow> x \<in> set (channel_keys db')"
  by (auto simp: keys_grow_def)

lemma grow_group: "keys_grow db db' \<Longrightarrow> i \<in> fst ` set (channel_keys db) \<Longrightarrow> is_group_channel db' i = is_group_channel db i"
  by (force simp: keys_grow_def is_group_channel_def)

lemma grow_distinct: "keys_grow db db' \<Longrightarrow> distinct (map fst (channel_keys db)) \<Longrightarrow> distinct (map fst (channel_keys db'))"
  by (auto simp: keys_grow_def)

text \<open>What a call in flight knows: its channel, and that its tenant's plan is within the bound.\<close>

definition channel_known :: "chan_db \<Rightarrow> resolved_channel \<Rightarrow> bool" where
  "channel_known db r \<longleftrightarrow> (case re_kind r of Group \<Rightarrow> re_channel r \<in> fst ` set (channel_keys db) | Named \<Rightarrow> (re_channel r, None) \<in> set (channel_keys db))"

lemma resolve_known: "resolve_channel db key = Some r \<Longrightarrow> channel_known db r"
  by (auto simp: resolve_channel_def channel_group_lookup_def channel_named_lookup_def channel_keys_def channel_known_def image_iff
      split: option.splits bind_splits dest!: find_hit) metis+

fun post_known :: "chan_env \<Rightarrow> chan_db \<Rightarrow> int \<Rightarrow> int \<Rightarrow> chan_call \<Rightarrow> bool" where
  "post_known env db tenant m (PostBegin t args) \<longleftrightarrow> plan_upto env tenant m t"
| "post_known env db tenant m (PostResolved t key r body data) \<longleftrightarrow> plan_upto env tenant m t \<and> channel_known db r"
| "post_known env db tenant m (PostEntered t r body data) \<longleftrightarrow> plan_upto env tenant m t \<and> channel_known db r \<and> re_kind r = Group"
| "post_known env db tenant m (PostChecked t r body data) \<longleftrightarrow> plan_upto env tenant m t \<and> channel_known db r \<and> re_kind r = Group"
| "post_known env db tenant m (PostReady t r body data) \<longleftrightarrow> channel_known db r"
| "post_known env db tenant m _ \<longleftrightarrow> True"

lemma known_grow: "channel_known db r \<Longrightarrow> keys_grow db db' \<Longrightarrow> channel_known db' r"
  using grow_known[of db db'] by (force simp: channel_known_def split: channel_kind.splits)

lemma post_known_grow: "post_known env db tenant m c \<Longrightarrow> keys_grow db db' \<Longrightarrow> post_known env db' tenant m c"
  by (cases c) (auto intro: known_grow)

text \<open>The tables a schedule leaves, and the sum of the posts stored since a time and those waiting for their insert.\<close>

definition quota_world :: "chan_env \<Rightarrow> int \<Rightarrow> int \<Rightarrow> chan_world \<Rightarrow> bool" where
  "quota_world env tenant m w \<longleftrightarrow>
     distinct (map fst (channel_keys (wo_db w)))
   \<and> (\<forall>p \<in> set (cd_posts (wo_db w)). po_channel p \<in> fst ` set (channel_keys (wo_db w)))
   \<and> (\<forall>k c. call_at w k = Some c \<longrightarrow> post_known env (wo_db w) tenant m c)"

definition tally :: "int \<Rightarrow> int \<Rightarrow> chan_world \<Rightarrow> int" where
  "tally tenant since w = count_channel_posts_since (wo_db w) tenant since + int (posts_waiting tenant w)"

lemma filter_weaker: "(\<And>x. x \<in> set xs \<Longrightarrow> Q x \<Longrightarrow> P x) \<Longrightarrow> length (filter Q xs) \<le> length (filter P xs)"
  by (induction xs) auto

lemma count_shrinks:
  assumes "cd_posts db' = filter P (cd_posts db)" "\<And>p. p \<in> set (cd_posts db) \<Longrightarrow> is_group_channel db' (po_channel p) = is_group_channel db (po_channel p)"
  shows "count_channel_posts_since db' tenant since \<le> count_channel_posts_since db tenant since"
  using assms by (auto simp: count_posts intro!: filter_weaker)

lemma count_same_keys: "cd_posts db' = cd_posts db \<Longrightarrow> channel_keys db' = channel_keys db \<Longrightarrow> count_channel_posts_since db' tenant since = count_channel_posts_since db tenant since"
  by (simp add: count_posts is_group_channel_def)

lemma count_later: "since' \<le> since \<Longrightarrow> count_channel_posts_since db tenant since \<le> count_channel_posts_since db tenant since'"
  by (auto simp: count_posts intro!: filter_weaker)

lemma count_insert:
  assumes "distinct (map fst (channel_keys db))" "channel_known db r"
  shows "count_channel_posts_since (snd (channel_post_insert t (re_channel r) body data fresh now now_ms db)) tenant since
    \<le> count_channel_posts_since db tenant since + (if waiting_call tenant (PostReady t r body data) then 1 else 0)"
proof -
  have keys: "channel_keys (snd (channel_post_insert t (re_channel r) body data fresh now now_ms db)) = channel_keys db"
    by (simp add: channel_post_insert_def channel_keys_def Let_def)
  have "\<not> is_group_channel db (re_channel r)" if "re_kind r = Named"
    using assms that by (auto simp: channel_known_def is_group_channel_def dest: eq_key_imp_eq_value)
  then show ?thesis
    unfolding count_posts is_group_channel_def keys
    by (cases "re_kind r") (auto simp: channel_post_insert_def Let_def is_group_channel_def)
qed

lemma filter_update_length:
  "k < length xs \<Longrightarrow> length (filter P (xs[k := x])) + (if P (xs ! k) then 1 else 0) = length (filter P xs) + (if P x then 1 else 0)"
proof (induction xs arbitrary: k)
  case (Cons y ys)
  then show ?case by (cases k) auto
qed simp

lemma waiting_update:
  assumes "call_at w k = Some c"
  shows "posts_waiting tenant (w\<lparr>wo_db := db, wo_calls := (wo_calls w)[k := x]\<rparr>) + (if waiting_call tenant c then 1 else 0)
    = posts_waiting tenant w + (if (case x of Some c' \<Rightarrow> waiting_call tenant c' | None \<Rightarrow> False) then 1 else 0)"
  using assms filter_update_length[of k "wo_calls w" "\<lambda>x. case x of Some c \<Rightarrow> waiting_call tenant c | None \<Rightarrow> False" x]
  by (simp add: posts_waiting_def call_in)

lemma waiting_snoc: "\<not> waiting_call tenant c \<Longrightarrow> posts_waiting tenant (w\<lparr>wo_calls := wo_calls w @ [Some c]\<rparr>) = posts_waiting tenant w"
  by (simp add: posts_waiting_def)

lemma advance_keys: "channel_keys (snd (advance env fresh now now_ms c db)) = channel_keys db"
  by (cases c) (simp_all add: advance_db channel_keys_def channel_post_insert_def channel_cursor_ack_def Let_def)

lemma advance_known:
  assumes "post_known env db tenant m c" "advance env fresh now now_ms c db = (Continue c', db')"
  shows "post_known env db tenant m c'"
  using assms resolve_known[of db]
  by (cases c) (auto simp: advance.simps Let_def split: sum.splits option.splits channel_kind.splits if_splits prod.splits)

lemma advance_posts:
  assumes "post_known env db tenant m c" "\<forall>p \<in> set (cd_posts db). po_channel p \<in> fst ` set (channel_keys db)"
  shows "\<forall>p \<in> set (cd_posts (snd (advance env fresh now now_ms c db))). po_channel p \<in> fst ` set (channel_keys db)"
proof (cases c)
  case (PostReady t r body data)
  then have "re_channel r \<in> fst ` set (channel_keys db)" using assms(1) by (force simp: channel_known_def split: channel_kind.splits)
  then show ?thesis using assms(2) PostReady by (simp add: advance_db channel_post_insert_def Let_def)
qed (use assms(2) in \<open>simp_all add: advance_db channel_cursor_ack_def\<close>)

text \<open>A post begins to wait only below the quota.\<close>

lemma advance_admits:
  assumes "advance env fresh now now_ms c db = (Continue c', db')" "waiting_call tenant c'" "post_known env db tenant m c"
  shows "count_channel_posts_since db tenant (now_ms - 3600000) < m \<and> db' = db \<and> \<not> waiting_call tenant c"
  using assms
  by (cases c) (auto simp: advance.simps plan_upto_def chan_plan_for_def Let_def split: sum.splits option.splits channel_kind.splits if_splits prod.splits)

lemma advance_tally:
  assumes "distinct (map fst (channel_keys db))" "post_known env db tenant m c" "\<not> (case res of Continue c' \<Rightarrow> waiting_call tenant c' | Answered _ _ \<Rightarrow> False)"
    and "advance env fresh now now_ms c db = (res, db')"
  shows "count_channel_posts_since db' tenant since \<le> count_channel_posts_since db tenant since + (if waiting_call tenant c then 1 else 0)"
proof -
  have db': "db' = snd (advance env fresh now now_ms c db)" using assms(4) by simp
  show ?thesis
  proof (cases c)
    case (PostReady t r body data)
    then show ?thesis using count_insert[OF assms(1), of r] assms(2) by (simp add: db' advance_db)
  next
    case (ReadFetched t q i rows next_c)
    then show ?thesis using count_same_keys[OF _ advance_keys, of env fresh now now_ms c db] by (simp add: db' advance_db channel_cursor_ack_def)
  qed (simp_all add: db' advance_db)
qed

lemma quota_step:
  assumes "quota_world env tenant m w" "plain_event env tenant m now e" "minted_fresh env [e] w"
    and "tally tenant (now - 3600000) w \<le> max 0 (m - 1 + int n)" "posts_waiting tenant (world_step env e w) \<le> n"
  shows "quota_world env tenant m (world_step env e w) \<and> tally tenant (now - 3600000) (world_step env e w) \<le> max 0 (m - 1 + int n)"
proof -
  let ?since = "now - 3600000"
  have d: "distinct (map fst (channel_keys (wo_db w)))" and posts: "\<forall>p \<in> set (cd_posts (wo_db w)). po_channel p \<in> fst ` set (channel_keys (wo_db w))"
    and calls: "\<And>k c. call_at w k = Some c \<Longrightarrow> post_known env (wo_db w) tenant m c" using assms(1) by (auto simp: quota_world_def)
  show ?thesis
  proof (cases e)
    case (BeginPost t args)
    then show ?thesis using assms(1,2,4) by (auto simp: quota_world_def tally_def waiting_snoc call_at_snoc split: if_splits)
  next
    case (BeginRead t args)
    then show ?thesis using assms(1,4) by (auto simp: quota_world_def tally_def waiting_snoc call_at_snoc split: if_splits)
  next
    case (Meanwhile ev)
    let ?db = "chan_apply env ev (wo_db w)"
    have grow: "keys_grow (wo_db w) ?db" using assms(3) Meanwhile by (intro chan_apply_keys) (auto split: chan_event.splits)
    obtain P where P: "cd_posts ?db = filter P (cd_posts (wo_db w))" using chan_apply_posts_all by blast
    have "count_channel_posts_since ?db tenant ?since \<le> count_channel_posts_since (wo_db w) tenant ?since"
      using posts grow_group[OF grow] by (intro count_shrinks[OF P]) blast
    moreover have "posts_waiting tenant (w\<lparr>wo_db := ?db\<rparr>) = posts_waiting tenant w" by (simp add: posts_waiting_def)
    moreover have "\<forall>p \<in> set (cd_posts ?db). po_channel p \<in> fst ` set (channel_keys ?db)"
      using posts grow_known[OF grow] by (fastforce simp: P)
    ultimately show ?thesis
      using assms(4) Meanwhile grow_distinct[OF grow d] post_known_grow[OF calls grow] by (simp add: quota_world_def tally_def)
  next
    case (Advance k fresh at_text now_ms)
    show ?thesis
    proof (cases "call_at w k")
      case None
      then show ?thesis using assms(1,4) Advance by simp
    next
      case (Some c)
      obtain res db where a: "advance env fresh at_text now_ms c (wo_db w) = (res, db)" by fastforce
      let ?x = "case res of Continue c' \<Rightarrow> Some c' | Answered _ _ \<Rightarrow> None"
      have k: "k < length (wo_calls w)" using Some by (simp add: call_in)
      have w': "world_step env e w = w\<lparr>wo_db := db, wo_calls := (wo_calls w)[k := ?x]\<rparr>" using Advance Some a by simp
      note wait = waiting_update[OF Some, where tenant = tenant and db = db and x = ?x, folded w']
      have keys: "channel_keys db = channel_keys (wo_db w)" using advance_keys[of env fresh at_text now_ms c "wo_db w"] a by simp
      have same: "post_known env db tenant m c' = post_known env (wo_db w) tenant m c'" for c'
        using post_known_grow[of env "wo_db w" tenant m c' db] post_known_grow[of env db tenant m c' "wo_db w"] keys by (auto simp: keys_grow_def)
      have "quota_world env tenant m (world_step env e w)"
        using d advance_posts[OF calls[OF Some] posts, of fresh at_text now_ms] a calls advance_known[OF calls[OF Some]]
        unfolding w' quota_world_def call_at_update[OF k] by (auto simp: keys same split: if_splits call_result.splits)
      moreover have "tally tenant ?since (world_step env e w) \<le> max 0 (m - 1 + int n)"
      proof (cases "case res of Continue c' \<Rightarrow> waiting_call tenant c' | Answered _ _ \<Rightarrow> False")
        case True
        then obtain c' where c': "res = Continue c'" "waiting_call tenant c'" by (auto split: call_result.splits)
        note adm = advance_admits[OF a[unfolded c'(1)] c'(2) calls[OF Some]]
        have "now_ms - 3600000 \<le> ?since" using assms(2) Advance by simp
        from count_later[OF this, of "wo_db w" tenant] adm have "count_channel_posts_since db tenant ?since \<le> m - 1" by simp
        then show ?thesis using assms(5) by (simp add: tally_def w')
      next
        case False
        have x: "(case ?x of Some c' \<Rightarrow> waiting_call tenant c' | None \<Rightarrow> False) = False" using False by (auto split: call_result.splits)
        have "int (posts_waiting tenant (world_step env e w)) + (if waiting_call tenant c then 1 else 0) = int (posts_waiting tenant w)"
          using wait unfolding x by (auto split: if_splits)
        then show ?thesis
          using assms(4) advance_tally[OF d calls[OF Some] False a, of ?since] by (simp add: tally_def w' split: if_splits)
      qed
      ultimately show ?thesis by blast
    qed
  qed
qed

lemma quota_run:
  assumes "quota_world env tenant m w" "list_all (plain_event env tenant m now) es" "minted_fresh env es w"
    and "tally tenant (now - 3600000) w \<le> max 0 (m - 1 + int n)" "most_waiting env tenant es w \<le> n"
  shows "tally tenant (now - 3600000) (world_run env es w) \<le> max 0 (m - 1 + int n)"
  using assms
proof (induction es arbitrary: w)
  case (Cons e es)
  have "posts_waiting tenant (world_step env e w) \<le> n"
    using Cons.prems(5) by (cases es) auto
  from quota_step[OF Cons.prems(1) _ _ Cons.prems(4) this, of] Cons.prems(2,3)
  have "quota_world env tenant m (world_step env e w)" "tally tenant (now - 3600000) (world_step env e w) \<le> max 0 (m - 1 + int n)" by simp_all
  with Cons.IH Cons.prems show ?case by simp
qed simp

text \<open>C40. The hourly quota bounds what is stored. Take any schedule of posts and reads, statement by statement, with the other calls of all tenants,
  deletions and purges between them; the tenant's plans allow at most \<open>m\<close> posts an hour. At a time \<open>now\<close> no earlier than the clock
  readings of the schedule, the tenant has at most \<open>m - 1 + k\<close> group posts of the last hour stored, where \<open>k\<close> is the most of its posts that were ever
  waiting together between their count and their insert. Posts that do not overlap (\<open>k = 1\<close>) never exceed the quota. (A channel that is
  opened gets an unused identifier, and a count is never negative.)\<close>

theorem post_quota_bounds:
  assumes "list_all (plain_event env tenant m now) es" "minted_fresh env es no_calls"
  shows "count_channel_posts_since (wo_db (world_run env es no_calls)) tenant (now - 3600000)
      \<le> max 0 (m - 1 + int (most_waiting env tenant es no_calls))"
proof -
  have "quota_world env tenant m no_calls" by (simp add: quota_world_def no_calls_def no_channels_def channel_keys_def call_at_def)
  moreover have "tally tenant (now - 3600000) no_calls = 0"
    by (simp add: tally_def no_calls_def no_channels_def posts_waiting_def count_channel_posts_since_def)
  ultimately have "tally tenant (now - 3600000) (world_run env es no_calls) \<le> max 0 (m - 1 + int (most_waiting env tenant es no_calls))"
    using quota_run[OF _ assms] by simp
  then show ?thesis by (simp add: tally_def)
qed

section \<open>Instances\<close>

text \<open>A schedule with one read that acknowledges and without deletions is steady.\<close>

fun is_read :: "chan_call \<Rightarrow> bool" where
  "is_read (ReadBegin t args) = True"
| "is_read (ReadResolved t q r) = True"
| "is_read (ReadAllowed t q i) = True"
| "is_read (ReadPositioned t q i after) = True"
| "is_read (ReadFetched t q i rows next_c) = True"
| "is_read _ = False"

definition reads_in :: "chan_world \<Rightarrow> nat" where
  "reads_in w = length (filter (\<lambda>x. case x of Some c \<Rightarrow> is_read c | None \<Rightarrow> False) (wo_calls w))"

lemma reads_open_in: "reads_open tenant i w \<le> reads_in w"
proof -
  have "is_read c" if "holds_position tenant i c" for c using that by (cases c) auto
  then show ?thesis unfolding reads_open_def reads_in_def by (intro filter_weaker) (auto split: option.splits)
qed

lemma advance_is_read: "advance env fresh now now_ms c db = (Continue c', db') \<Longrightarrow> is_read c' = is_read c"
  by (cases c) (auto simp: advance.simps Let_def split: sum.splits option.splits channel_kind.splits if_splits prod.splits)

lemma reads_in_advance: "reads_in (world_step env (Advance k fresh at_text now_ms) w) \<le> reads_in w"
proof (cases "call_at w k")
  case (Some c)
  obtain res db where a: "advance env fresh at_text now_ms c (wo_db w) = (res, db)" by fastforce
  let ?P = "\<lambda>x. case x of Some c \<Rightarrow> is_read c | None \<Rightarrow> False"
  have "length (filter ?P ((wo_calls w)[k := (case res of Continue c' \<Rightarrow> Some c' | Answered _ _ \<Rightarrow> None)])) \<le> length (filter ?P (wo_calls w))"
    using filter_update_length[of k "wo_calls w" ?P "case res of Continue c' \<Rightarrow> Some c' | Answered _ _ \<Rightarrow> None"] Some a
    by (auto simp: call_in dest: advance_is_read split: call_result.splits if_splits)
  then show ?thesis using Some a by (simp add: reads_in_def)
qed simp

fun quiet_event :: "chan_env \<Rightarrow> world_event \<Rightarrow> bool" where
  "quiet_event env (BeginRead t args) \<longleftrightarrow> (case read_request_of env t args of Inr q \<Rightarrow> rr_cursor q = None | Inl _ \<Rightarrow> True)"
| "quiet_event env (Meanwhile e) \<longleftrightarrow> (case e of DeleteOlder _ _ \<Rightarrow> False | MeshPurge _ _ \<Rightarrow> False | _ \<Rightarrow> True)"
| "quiet_event env _ \<longleftrightarrow> True"

fun begins_read :: "world_event \<Rightarrow> bool" where
  "begins_read (BeginRead t args) = True"
| "begins_read _ = False"

lemma quiet_call: "quiet_event env (Meanwhile e) \<Longrightarrow> cd_posts (chan_apply env e db) = cd_posts db \<and> cd_cursors (chan_apply env e db) = cd_cursors db"
  by (cases e) (simp_all add: chan_frame)

lemma one_read_steady:
  assumes "list_all (quiet_event env) es" "length (filter begins_read es) + reads_in w \<le> 1"
  shows "steady_reading env tenant i es w"
  using assms
proof (induction es arbitrary: w)
  case (Cons e es)
  have "reads_in (world_step env e w) \<le> reads_in w + (if begins_read e then 1 else 0)"
  proof (cases e)
    case (Advance k fresh at_text now_ms)
    then show ?thesis using reads_in_advance[of env k fresh at_text now_ms w] by simp
  qed (simp_all add: reads_in_def)
  with Cons.prems(2) have in': "length (filter begins_read es) + reads_in (world_step env e w) \<le> 1" by (auto split: if_splits)
  then have "reads_open tenant i (world_step env e w) \<le> 1" using reads_open_in[of tenant i "world_step env e w"] by simp
  moreover have "case e of
         BeginRead t args \<Rightarrow> (case read_request_of env t args of Inr q \<Rightarrow> ct_id t = tenant \<and> rr_ack q \<longrightarrow> rr_cursor q = None | Inl _ \<Rightarrow> True)
       | Meanwhile ev \<Rightarrow>
           max_seq (channel_posts (chan_apply env ev (wo_db w)) i) = max_seq (channel_posts (wo_db w) i)
           \<and> read_position (chan_apply env ev (wo_db w)) i tenant = read_position (wo_db w) i tenant
       | _ \<Rightarrow> True"
  proof (cases e)
    case (BeginRead t args)
    then show ?thesis using Cons.prems(1) by (simp split: sum.splits)
  next
    case (Meanwhile ev)
    then have same: "cd_posts (chan_apply env ev (wo_db w)) = cd_posts (wo_db w)" "cd_cursors (chan_apply env ev (wo_db w)) = cd_cursors (wo_db w)"
      using Cons.prems(1) quiet_call[of env ev "wo_db w"] by simp_all
    show ?thesis by (simp add: Meanwhile channel_posts_cong[OF same(1)] stored_cong[OF same(2)])
  qed simp_all
  ultimately show ?case using Cons.IH[OF _ in'] Cons.prems(1) by simp
qed simp

text \<open>A post, and a read with a second post between its position and its page.\<close>

lemma demo_read_no_cursor: "json_get ''cursor'' demo_read = None"
  by (simp add: demo_read_def)

definition demo_reading :: "world_event list" where
  "demo_reading =
     Meanwhile (OpenChannel (demo_reader 1) (mk_obj [(''name'', JStr ''n'')]) ''c'' ''d'') # BeginPost (demo_reader 2) demo_post
     # replicate 4 (Advance 0 ''p'' ''d'' 5) @ BeginRead (demo_reader 1) demo_read # BeginPost (demo_reader 2) demo_post
     # replicate 3 (Advance 1 ''q'' ''d'' 6) @ replicate 4 (Advance 2 ''q'' ''d'' 7) @ replicate 2 (Advance 1 ''q'' ''d'' 8)"

lemma demo_steady: "steady_reading demo_chan_env 1 ''c'' demo_reading no_calls"
  by (rule one_read_steady)
    (use read_request_no_cursor[OF demo_read_no_cursor] in \<open>auto simp: demo_reading_def reads_in_def no_calls_def eval_nat_numeral split: sum.split\<close>)

theorem reader_gets_each_once_witness:
  "sorted_wrt (\<lambda>p q. po_seq p < po_seq q) (delivered demo_chan_env 1 ''c'' demo_reading no_calls)
    \<and> set (channel_posts (wo_db (world_run demo_chan_env demo_reading no_calls)) ''c'') \<inter> set (delivered demo_chan_env 1 ''c'' demo_reading no_calls)
      = set (channel_posts (wo_db (world_run demo_chan_env demo_reading no_calls)) ''c'')
        \<inter> {p. po_seq p \<le> read_position (wo_db (world_run demo_chan_env demo_reading no_calls)) ''c'' 1}"
  using reader_gets_each_once[OF demo_steady refl refl] by blast

text \<open>Two posts of one tenant whose plan allows one an hour: both are counted before either is inserted, and both are stored.\<close>

definition demo_setup :: "world_event list" where
  "demo_setup = [Meanwhile (GroupCreate (demo_reader 1) (mk_obj [(''name'', JStr ''g'')])),
     Meanwhile (OpenChannel (demo_reader 1) (mk_obj [(''group'', JStr ''g'')]) ''c'' ''d'')]"

definition demo_rest :: "world_event list" where
  "demo_rest = [BeginPost (demo_reader 1) demo_post, BeginPost (demo_reader 1) demo_post]
     @ replicate 4 (Advance 0 ''p'' ''d'' 7200000) @ replicate 4 (Advance 1 ''q'' ''d'' 7200000)
     @ [Advance 0 ''p'' ''d'' 7200000, Advance 1 ''q'' ''d'' 7200000]"

definition demo_overlap :: "world_event list" where
  "demo_overlap = demo_setup @ demo_rest"

definition demo_group_db :: "chan_post list \<Rightarrow> chan_db" where
  "demo_group_db ps = \<lparr>cd_channels = [\<lparr>ch_id = ''c'', ch_name = synthetic_name 1, ch_group = Some 1, ch_created_by = Some 1, ch_created_at = ''d'',
       ch_closed_at = None, ch_frozen_at = None\<rparr>],
     cd_groups = [\<lparr>gr_id = 1, gr_owner = 1, gr_name = ''g'', gr_members = []\<rparr>], cd_next_group = 2, cd_posts = ps, cd_cursors = (\<lambda>_. None)\<rparr>"

definition demo_group :: resolved_channel where
  "demo_group = \<lparr>re_channel = ''c'', re_kind = Group, re_owner = Some 1, re_group = Some ''g'', re_closed = None, re_frozen = None\<rparr>"

lemma demo_setup_run: "world_run demo_chan_env demo_setup no_calls = \<lparr>wo_db = demo_group_db [], wo_calls = []\<rparr>"
  by (simp add: demo_setup_def no_calls_def no_channels_def group_create_def create_group_def find_group_def chan_arg_def chan_arg_opt_def
      open_channel_def chan_plan_for_def demo_chan_env_def demo_reader_def channel_group_open_def demo_group_db_def Let_def)

lemma demo_resolved: "resolve_channel (demo_group_db ps) ''c'' = Some demo_group"
  by (simp add: demo_simps demo_group_db_def demo_group_def)

lemma demo_authorized: "channel_group_is_authorized (demo_group_db ps) demo_group 1"
  by (simp add: demo_group_def channel_group_is_authorized_def)

lemma demo_post_request: "post_request_of demo_chan_env (demo_reader 1) demo_post = Inr (''c'', ''hi'', None)"
  by (simp add: post_request_of_def demo_reader_def chan_arg_def demo_post_def chan_arg_opt_def parse_data_arg_def arg_present_def
      trim_def trim_start_def trim_end_def is_whitespace_def scalar_def)

lemma demo_plan: "chan_plan_for demo_chan_env (demo_reader 1) = Inr \<lparr>cp_channels_max = 2, cp_posts_per_hour = 1, cp_retention_days = 1\<rparr>"
  by (simp add: chan_plan_for_def demo_chan_env_def demo_reader_def)

definition demo_inserted :: "string \<Rightarrow> chan_post list \<Rightarrow> chan_post" where
  "demo_inserted fresh ps = fst (channel_post_insert (demo_reader 1) ''c'' ''hi'' None fresh ''d'' 7200000 (demo_group_db ps))"

lemma demo_insert:
  "channel_post_insert (demo_reader 1) ''c'' ''hi'' None fresh ''d'' 7200000 (demo_group_db ps)
    = (demo_inserted fresh ps, demo_group_db (ps @ [demo_inserted fresh ps]))"
  by (simp add: demo_inserted_def channel_post_insert_def demo_group_db_def Let_def channel_posts_def)

lemma demo_count:
  "count_channel_posts_since (demo_group_db []) 1 3600000 = 0"
  "count_channel_posts_since (demo_group_db [demo_inserted f ps, demo_inserted f' ps']) 1 3600000 = 2"
  by (simp_all add: count_channel_posts_since_def demo_group_db_def demo_inserted_def channel_post_insert_def demo_reader_def Let_def)

lemma demo_re: "re_kind demo_group = Group" "re_closed demo_group = None" "re_frozen demo_group = None" "re_channel demo_group = ''c''"
  by (simp_all add: demo_group_def)

lemma demo_id: "ct_id (demo_reader 1) = 1"
  by (simp add: demo_reader_def)

text \<open>The statements of such a post.\<close>

lemma demo_statements:
  "advance demo_chan_env f n ms (PostBegin (demo_reader 1) demo_post) (demo_group_db ps)
    = (Continue (PostResolved (demo_reader 1) ''c'' demo_group ''hi'' None), demo_group_db ps)"
  "advance demo_chan_env f n ms (PostResolved (demo_reader 1) ''c'' demo_group ''hi'' None) (demo_group_db ps)
    = (Continue (PostEntered (demo_reader 1) demo_group ''hi'' None), demo_group_db ps)"
  "advance demo_chan_env f n ms (PostEntered (demo_reader 1) demo_group ''hi'' None) (demo_group_db ps)
    = (Continue (PostChecked (demo_reader 1) demo_group ''hi'' None), demo_group_db ps)"
  "advance demo_chan_env f n 7200000 (PostChecked (demo_reader 1) demo_group ''hi'' None) (demo_group_db [])
    = (Continue (PostReady (demo_reader 1) demo_group ''hi'' None), demo_group_db [])"
  "advance demo_chan_env f ''d'' 7200000 (PostReady (demo_reader 1) demo_group ''hi'' None) (demo_group_db ps)
    = (Continue (PostStored (demo_reader 1) demo_group (demo_inserted f ps)), demo_group_db (ps @ [demo_inserted f ps]))"
  by (simp_all add: advance.simps demo_post_request demo_resolved demo_authorized demo_plan demo_insert demo_count demo_re demo_id)

lemmas demo_steps = demo_statements call_at_def posts_waiting_def demo_re demo_id

lemma world_run_append: "world_run env (es @ es') w = world_run env es' (world_run env es w)"
  by (simp add: world_run_def)

lemma most_waiting_append: "most_waiting env tenant es w = 0 \<Longrightarrow> most_waiting env tenant (es @ es') w = most_waiting env tenant es' (world_run env es w)"
  by (induction es arbitrary: w) auto

lemma minted_append: "minted_fresh env (es @ es') w \<longleftrightarrow> minted_fresh env es w \<and> minted_fresh env es' (world_run env es w)"
  by (induction es arbitrary: w) auto

lemma minted_calls: "list_all (\<lambda>e. case e of Meanwhile _ \<Rightarrow> False | _ \<Rightarrow> True) es \<Longrightarrow> minted_fresh env es w"
  by (induction es arbitrary: w) (auto split: world_event.splits)

lemma demo_setup_waiting: "most_waiting demo_chan_env 1 demo_setup no_calls = 0"
  by (simp add: demo_setup_def posts_waiting_def no_calls_def)

lemma demo_rest_run:
  "wo_db (world_run demo_chan_env demo_rest \<lparr>wo_db = demo_group_db [], wo_calls = []\<rparr>)
    = demo_group_db [demo_inserted ''p'' [], demo_inserted ''q'' [demo_inserted ''p'' []]]"
  by (simp add: demo_rest_def eval_nat_numeral demo_steps)

lemma demo_rest_waiting: "most_waiting demo_chan_env 1 demo_rest \<lparr>wo_db = demo_group_db [], wo_calls = []\<rparr> = 2"
  by (simp add: demo_rest_def eval_nat_numeral demo_steps)

text \<open>The bound is met: with a quota of one, two posts that overlap are two.\<close>

theorem overlapping_posts_exceed_quota:
  "count_channel_posts_since (wo_db (world_run demo_chan_env demo_overlap no_calls)) 1 3600000 = 2
    \<and> most_waiting demo_chan_env 1 demo_overlap no_calls = 2"
  unfolding demo_overlap_def world_run_append most_waiting_append[OF demo_setup_waiting] demo_setup_run demo_rest_run demo_rest_waiting
  by (simp add: demo_count)

theorem post_quota_bounds_witness:
  "count_channel_posts_since (wo_db (world_run demo_chan_env demo_overlap no_calls)) 1 (7200000 - 3600000)
    \<le> max 0 (1 - 1 + int (most_waiting demo_chan_env 1 demo_overlap no_calls))"
proof (rule post_quota_bounds)
  show "list_all (plain_event demo_chan_env 1 1 7200000) demo_overlap"
    by (simp add: demo_overlap_def demo_rest_def demo_setup_def eval_nat_numeral plan_upto_def demo_chan_env_def)
  have "minted_fresh demo_chan_env demo_setup no_calls"
    by (simp add: demo_setup_def no_calls_def no_channels_def group_create_def create_group_def split: sum.split)
  moreover have "list_all (\<lambda>e. case e of Meanwhile _ \<Rightarrow> False | _ \<Rightarrow> True) demo_rest" by (simp add: demo_rest_def eval_nat_numeral)
  ultimately show "minted_fresh demo_chan_env demo_overlap no_calls"
    unfolding demo_overlap_def minted_append using minted_calls by blast
qed

end
