(* ===== verification/Spec2Isabelle.thy ===== *)
theory Spec2Isabelle
  imports Cron RetryPolicy Budget Delegation Sessions Idempotency Tasks Lineage RowPolicy TenantState Confirm NetGuard ChainRun SubKeys ChannelCalls
begin

text \<open>
  A verification library for \<open>mcphost\<close>, a Rust server that hosts tools for language-model agents: tenants
  hold keys, register tools of several kinds, run them on schedules and budgets, exchange tasks, store
  tables, and let end users read what a policy admits. The modules below carry the rules of that service;
  around them the crate has an HTTP front end, an SQLite store and the tool runtimes.

  \<^bold>\<open>The theories\<close>, in the order they build on one another (paths are under \<open>src/src\<close>):

  \<^item> \<open>Prelude\<close>: machine integers written out (\<open>u32\<close>, \<open>u64\<close>, \<open>i64\<close> with wrapping and saturating
    operations), UTF-8 lengths, decimal printing and parsing, searching and splitting; the collections the
    component proofs use.
  \<^item> \<open>Json\<close>: \<open>serde_json::Value\<close> with its sorted objects; \<open>mk_obj\<close> is the \<open>json!\<close> macro.
  \<^item> \<open>ErrorType\<close>, \<open>Errors\<close>: \<open>errors.rs\<close>. The variants of \<open>AppError\<close>, their codes, messages and
    JSON-RPC classes; the wire \<open>data\<close>, redaction, suggestions by edit distance, field hints and the
    conversion of kind errors.
  \<^item> \<open>RetryPolicy\<close>: \<open>retry_policy.rs\<close>, the table row for row, backoff and the \<open>data.retry\<close> block.
  \<^item> \<open>Calendar\<close>, \<open>Cron\<close>: the calendar of \<open>state.rs\<close>, timestamps and windows; \<open>cron.rs\<close>, parser, mask loop
    and the search for the next firing. Both compute with the wrapping sums and casts of the code and are shown
    equal to unbounded references (\<open>civil_of_day\<close>, \<open>day_of_civil\<close>, \<open>cron_move\<close>) on the ranges the properties name.
  \<^item> \<open>Budget\<close>: \<open>budget.rs\<close>, ledger, verdict, limits, resolution against a plan, the tracker and its alert.
  \<^item> \<open>Scopes\<close>, \<open>Delegation\<close>: \<open>scopes.rs\<close>, the allowlist of \<open>subkeys.rs\<close>, and \<open>delegation.rs\<close> with the chains
    of delegations it permits and the reserved names they do not keep.
  \<^item> \<open>Auth\<close>: \<open>auth.rs\<close>, \<open>auth_shape.rs\<close>, \<open>new_ulid\<close>; every generator is a function of its random bytes.
  \<^item> \<open>Sessions\<close>: \<open>session_bind.rs\<close> and \<open>peer_recent.rs\<close>, the two bounded maps of the process.
  \<^item> \<open>Idempotency\<close>: \<open>idempotency.rs\<close> and the part of \<open>call_tool\<close> in \<open>handler.rs\<close> that claims a key; the
    state is the table \<open>call_results\<close>, a list of rows, and \<open>idem_run\<close> a sequence of claims, finishes and
    purges in any order.
  \<^item> \<open>Tasks\<close>: \<open>tasks.rs\<close>. The table is a list of rows, every SQL statement a function on it, every handler
    the composition the code has; \<open>task_step\<close> is the step relation of single statements, so that a run of
    it is any interleaving of handlers and sweeps.
  \<^item> \<open>Lineage\<close>: \<open>lineage/graph.rs\<close> and \<open>effects.rs\<close>, the graph, breadth-first search, blast radius, trace.
  \<^item> \<open>AuditLog\<close>: \<open>rowpolicy/audit.rs\<close>, \<open>audit_export.rs\<close> and their statements in \<open>db.rs\<close>: the hash chain, its
    verification, the export of three tables and its root.
  \<^item> \<open>RowPolicy\<close>: \<open>rowpolicy/policy.rs\<close>, \<open>rewrite.rs\<close>, \<open>mod.rs\<close>, their statements in \<open>db.rs\<close> and the restricted
    branch of \<open>host.table.query\<close> in \<open>tables.rs\<close>.
  \<^item> \<open>TenantState\<close>: \<open>tenant_state.rs\<close> with its statements in \<open>db.rs\<close>, \<open>resolve_end_user\<close> and the quota of
    \<open>enduser.rs\<close> and the coercion of \<open>tables.rs\<close>: the key-value store and the schema-checked tables of a tenant,
    split by end user. The database is four lists of rows, every handler a function on it.
  \<^item> \<open>Confirm\<close>: \<open>write_verbs.rs\<close>, \<open>confirm.rs\<close>, the aliases of \<open>tool_aliases.rs\<close> and the dispatch of \<open>handler.rs\<close>
    that puts large destructive calls behind a previewed token; \<open>run_gate\<close> is a sequence of calls by any tenants.
  \<^item> \<open>NetGuard\<close>: \<open>net/fetch_guard.rs\<close>, the host checks of \<open>kinds/http.rs\<close> and their users in \<open>index.rs\<close>,
    \<open>sync/mod.rs\<close>, \<open>notify.rs\<close> and \<open>authz.rs\<close>, on 8-bit octets and 16-bit segments, with the address parser of
    \<open>std::net\<close>; URL parser, resolver and servers are arguments.
  \<^item> \<open>Paths\<close>: the mapping paths of \<open>kinds/mod.rs\<close>, their parser and resolution, and the declared outputs of a
    tool in both forms with the report of missing ones.
  \<^item> \<open>ChainSpec\<close>: \<open>kinds/chain.rs\<close> before a chain runs: parsing of its steps, references to earlier steps, near
    misses and their corrections, the verdict at publishing, inputs and argument mapping.
  \<^item> \<open>ChainRun\<close>: a chain as it runs, with the composition of \<open>kinds/mod.rs\<close>. The world holds the counter of child
    calls, the run rows, the budget and what the tools see; the other kinds are programs of effects and nested
    calls. A \<open>for_each\<close> step takes an arbitrary sequence of starts and ends of its items; \<open>tree_run\<close> is the whole
    call tree.
  \<^item> \<open>SubKeys\<close>: \<open>subkeys.rs\<close> whole but for its allowlist (in \<open>Scopes\<close>), the resolution and the gate of a sub-key in
    \<open>handler.rs\<close> and the statements of \<open>db.rs\<close> that end a run. \<open>key_run_events\<close> is any interleaving of mints, delegations,
    inserts, revocations, calls, sweeps and run ends; \<open>world_ok\<close> is the invariant it keeps, \<open>above\<close> the ancestry its walks compute.
  \<^item> \<open>Paging\<close>: \<open>paged.rs\<close> whole: signed cursors, limits, declared orders, the keyset query, the registry of list verbs, the projection of
    fields. \<open>walk\<close> is a client that follows \<open>next_cursor\<close> through a table that changes between its calls.
  \<^item> \<open>Channels\<close>: \<open>channels.rs\<close>, the groups of \<open>sharing.rs\<close>, their statements in \<open>db.rs\<close>, the retention tick and \<open>mesh_purge\<close> of \<open>admin.rs\<close>.
    Every call is a function, as it runs uninterrupted.
  \<^item> \<open>ChannelCalls\<close>: \<open>post\<close> and \<open>read\<close> one statement at a time, as they take the database lock. \<open>world_run\<close> is any schedule of
    their statements with the other calls, deletions and purges; \<open>post_uninterrupted\<close> and \<open>read_uninterrupted\<close> tie it to \<open>Channels\<close>;
    \<open>delivered\<close> is what a reader's acknowledged reads returned along a schedule, \<open>most_waiting\<close> how far a tenant's posts overlapped.

  \<^bold>\<open>How they interact.\<close> Every refusal is an \<open>app_error\<close> of \<open>ErrorType\<close>, whose code the retry table looks up
  and the idempotency store keeps or releases. A call passes the scope gate and the sub-key's allowlist,
  claims its idempotency key, runs under a budget and finishes the claim. A restricted query is rewritten
  by \<open>RowPolicy\<close> and appended to the chain of \<open>AuditLog\<close>. The section at the end of this theory relates the
  retry table and the idempotency store. A read of a channel is a page of \<open>Paging\<close> with the reader's stored position for a cursor.

  \<^bold>\<open>Errors and state.\<close> A fallible function returns \<open>app_error + 'a\<close>; each early return and each \<open>?\<close> of the
  source is a branch. State is passed explicitly and returned. A row of the database is a record, a table a
  list of rows, and the order of a query is written out where the code has an \<open>ORDER BY\<close>. Integers are
  \<open>int\<close> or \<open>nat\<close> with the wrap-around of their width applied where the source computes in that width.

  \<^bold>\<open>Parameters.\<close> Code outside the repository is an argument: SHA-256 and HMAC (any function on bytes), the JSON
  printer and parser (with their round trip as a hypothesis where a stored text is read back), random
  bytes, the SQL parser. Where security rests on the hash, the conclusion offers two values at hand that collide
  instead of assuming there are none.

  \<^bold>\<open>Bounds and termination.\<close> Loops are structural, or come with a measure:
  \<open>bfs_loop\<close> on the nodes still to visit, \<open>shrink_peers\<close> on
  the size of the map. The two loops of \<open>cron.rs\<close> run on wrapping
  integers and are partial functions into an option: \<open>cron_parse_returns\<close> and \<open>next_after_correct\<close> show that they return, the search on every
  instant up to \<open>2^62\<close> less its horizon.
  \<open>str_replace\<close> uses its input's length as fuel, which is enough as each turn consumes a character. The parsers of
  paths recurse on the text that is left, \<open>seen_at_walk\<close> on its depth. The walks over the tree of keys take as many
  turns as there are rows, which is enough as an id is greater than its parent's (\<open>subtree_iff\<close>, \<open>ancestry_above\<close>). \<open>tree_run\<close> takes the number of levels below it: a
  call at depth \<open>d\<close> gets \<open>COMPOSE_DEPTH_MAX - d\<close>, and \<open>call_tree_bounded\<close> shows that more change nothing.

  \<^bold>\<open>Interfaces.\<close> Three contracts are locales, interpreted on the components that provide them:
  \<open>skip_search\<close> (a search by steps that skip nothing, for \<open>next_after\<close>), \<open>grant_order\<close> (what granting must
  satisfy for a gate to be monotone, for scopes and for the words of a token) and \<open>bounded_store\<close> (a lookup
  table with eviction, for the session map and for the recent peers).

  \<^bold>\<open>What the properties say.\<close> A restricted query reads only what its policies admit, and which queries escape
  that; delegation never widens authority beyond the reserved names, and a revoked sub-key stays dead with all that hangs below it; a call tree ends and stays within its ceilings, which \<open>host.tool_call\<close> escapes, the items of a step end in
  their places under any interleaving, and a published chain finds what it maps; a keyed call whose outcome is kept runs once; the audit chain shows tampering, and
  where it does not; end users of a tenant do not interfere through the state calls; a large destructive call was
  previewed, and a preview is used once; paging returns what stays in the table, a channel reader whose reads do not overlap gets each post once, where retention and purges break that, the hourly quota of posts bounds them up to their overlap, and an outsider learns nothing; an import stays outside the private networks; the session map is an LRU cache; tasks keep their life cycle under any interleaving;
  the graph search is shortest-path; \<open>next_after\<close>, \<open>levenshtein\<close> and the calendar meet their mathematical
  definitions; budgets, retries and redaction keep their bounds. Where the code and its comments disagree
  the disagreement is a theorem.

  \<^bold>\<open>Not modelled.\<close> The transport (\<open>http*.rs\<close>, \<open>cli\<close>, \<open>bin\<close>), OAuth and billing clients, the tool
  runtimes (\<open>kinds/\<close> but for chains and paths), the rest of the store (\<open>db.rs\<close> beyond the statements named above), messaging, triggers, table import and queries other than the rewrite, generated documentation. They are input and
  output around services this library takes as arguments, or are left to later extensions.
\<close>

section \<open>Properties across components\<close>

text \<open>C18. The retry advice and the idempotency store disagree on \<open>upstream_timeout\<close>. The retry table calls it
  retryable and advises a retry with the same idempotency key; the store keeps it as a final outcome. So
  a keyed call that failed with it and is retried as advised, at any time in the following 24 hours, does
  not run again: it is answered with the stored failure.\<close>

theorem advised_retry_replays_failure:
  assumes "\<forall>v. de (ser v) = Some v" "idem_claim de now i sha rows = (idem_claim_result.Run, rows1)"
    and "in_i64 (now - wait_max_secs)" "in_i64 (now + ttl_secs)" "now \<le> t" "t < now + ttl_secs"
  shows "row_retryable (policy_for ''upstream_timeout'')
    \<and> row_policy (policy_for ''upstream_timeout'') = ''retry-with-idempotency-key''
    \<and> fst (idem_claim de t i sha (idem_finish ser i (Inl (Structured ''upstream_timeout'' m d)) usage rows1)) =
        Replay \<lparr>st_outcome = Inl (Structured ''upstream_timeout'' m d), st_first_seen_unix = now, st_usage = None\<rparr>"
proof -
  let ?row = "yes_row ''upstream_timeout'' (Exponential 1000 30000) 2 IDEM"
  have "?row \<in> set retry_policy" by (simp add: retry_policy_def retry_rows_kinds_def)
  from policy_for_row[OF this]
  have "row_retryable (policy_for ''upstream_timeout'') \<and> row_policy (policy_for ''upstream_timeout'') = ''retry-with-idempotency-key''"
    by (simp add: yes_row_def IDEM_def)
  moreover have "''upstream_timeout'' \<in> set (concat family_codes)" by (simp add: family_codes_def)
  moreover have "fst (idem_claim de t i sha (idem_finish ser i (Inl (Structured ''upstream_timeout'' m d)) usage rows1))
      = replay_of now (Inl (Structured ''upstream_timeout'' m d)) usage"
    using claim_after_finish[OF assms(1-4), of "[]" "Inl (Structured ''upstream_timeout'' m d)" usage "[]" t sha] assms(5,6)
    by (simp add: idem_run_def)
  ultimately show ?thesis by (simp add: replay_of_def replayed_error_def intern_code)
qed

theorem advised_retry_replays_failure_witness:
  "fst (idem_claim Some 1300 (1, ''fetch'', ''k1'') ''aa''
     (idem_finish id (1, ''fetch'', ''k1'') (Inl (Structured ''upstream_timeout'' ''slow'' JNull)) None
       (snd (idem_claim Some 1000 (1, ''fetch'', ''k1'') ''aa'' []))))
   = Replay \<lparr>st_outcome = Inl (Structured ''upstream_timeout'' ''slow'' JNull), st_first_seen_unix = 1000, st_usage = None\<rparr>"
proof -
  have run: "idem_claim Some 1000 (1, ''fetch'', ''k1'') ''aa'' [] = (idem_claim_result.Run, snd (idem_claim Some 1000 (1, ''fetch'', ''k1'') ''aa'' []))"
    by (simp add: idem_claim_def)
  show ?thesis
    by (rule advised_retry_replays_failure[THEN conjunct2, THEN conjunct2, OF _ run])
      (simp_all add: i64_bound_defs wait_max_secs_def ttl_secs_def)
qed

end
